(* ===== verification/Prelude.thy ===== *)
theory Prelude
  imports Main "HOL-Library.Word"
begin

text \<open>
  Shared vocabulary of the development: the machine integer types of the C code, the
  error values with which a model reports what the C code does not survive (a kernel
  panic, an access outside an array, a loop that the model's fuel did not let finish),
  sequencing of fallible steps, and the generic facts on words and lists that several
  components use.
\<close>

unbundle bit_operations_syntax

type_synonym u8 = "8 word"
type_synonym u16 = "16 word"
type_synonym u32 = "32 word"

section \<open>Errors as values\<close>

datatype cerror =
    Panic string        \<comment> \<open>the call \<open>panic(msg)\<close>\<close>
  | OutOfBounds string  \<comment> \<open>an access outside the named array: undefined behaviour in C\<close>
  | DivZero             \<comment> \<open>an integer division by zero: a fault on x86\<close>
  | Blocked             \<comment> \<open>the process goes to sleep here, waiting for another one\<close>
  | NoFuel              \<comment> \<open>the loop did not finish within the model's fuel\<close>

type_synonym 'a result = "cerror + 'a"

definition bindE :: "'e + 'a \<Rightarrow> ('a \<Rightarrow> 'e + 'b) \<Rightarrow> 'e + 'b" where
  "bindE m f = (case m of Inl e \<Rightarrow> Inl e | Inr x \<Rightarrow> f x)"

definition guardE :: "bool \<Rightarrow> 'e \<Rightarrow> 'e + unit" where
  "guardE b e = (if b then Inr () else Inl e)"

named_theorems res_simps \<open>inversion of fallible steps that returned\<close>

lemma bindE_simps [simp]:
  "bindE (Inl e) f = Inl e"
  "bindE (Inr x) f = f x"
  by (simp_all add: bindE_def)

lemma bindE_Inr_iff [res_simps]: "bindE m f = Inr y \<longleftrightarrow> (\<exists>x. m = Inr x \<and> f x = Inr y)"
  by (cases m) auto

lemma bindE_Inl_iff [res_simps]:
  "bindE m f = Inl e \<longleftrightarrow> m = Inl e \<or> (\<exists>x. m = Inr x \<and> f x = Inl e)"
  by (cases m) auto

lemma bindE_assoc: "bindE (bindE m f) g = bindE m (\<lambda>x. bindE (f x) g)"
  by (cases m) auto

lemma bindE_cong [fundef_cong]:
  "m = m' \<Longrightarrow> (\<And>x. m' = Inr x \<Longrightarrow> f x = f' x) \<Longrightarrow> bindE m f = bindE m' f'"
  by (cases m') auto

lemma guardE_Inr_iff [res_simps]: "guardE b e = Inr u \<longleftrightarrow> b"
  by (simp add: guardE_def)

lemma guardE_Inl_iff [res_simps]: "guardE b e = Inl e' \<longleftrightarrow> \<not> b \<and> e' = e"
  by (auto simp: guardE_def)

lemma guardE_simps [simp]: "guardE True e = Inr ()" "guardE False e = Inl e"
  by (simp_all add: guardE_def)

section \<open>Small words\<close>

lemma sint_small: "unat (w :: u32) < 2 ^ 31 \<Longrightarrow> sint w = int (unat w)"
proof -
  assume a: "unat w < 2 ^ 31"
  have i: "int (unat w) = uint w" by simp
  have "int (unat w) < int (2 ^ 31)" using a by (simp only: of_nat_less_iff)
  then have u: "uint w < 2 ^ 31" by (simp only: i of_nat_power of_nat_numeral)
  have "signed_take_bit 31 (uint w) = uint w"
    by (rule signed_take_bit_int_eq_self) (use u in \<open>simp_all add: order_trans [of _ 0]\<close>)
  then show ?thesis by (simp add: sint_uint)
qed

lemma unat_of_nat_small: "n < 2 ^ 32 \<Longrightarrow> unat (of_nat n :: u32) = n"
  unfolding unsigned_of_nat of_nat_id by (rule take_bit_nat_eq_self) simp

lemma unat_neg_1: "unat (- 1 :: u32) = 4294967295"
  by (simp add: unsigned_minus_1_eq_mask mask_eq_exp_minus_1)

lemma in_block:
  fixes a :: nat
  assumes "a mod B + t < B"
  shows "(a + t) div B = a div B" and "(a + t) mod B = a mod B + t"
proof -
  have e: "a + t = B * (a div B) + (a mod B + t)"
    using mult_div_mod_eq [of B a] by linarith
  have "B * (a div B) \<le> a + t" using e by linarith
  moreover have "a + t < B * Suc (a div B)" unfolding mult_Suc_right using e assms by linarith
  ultimately show d: "(a + t) div B = a div B" by (rule div_nat_eqI)
  show "(a + t) mod B = a mod B + t"
    using mult_div_mod_eq [of B "a + t"] e unfolding d by linarith
qed

section \<open>Repeated fallible steps\<close>

fun iterE :: "nat \<Rightarrow> ('s \<Rightarrow> 'e + 's) \<Rightarrow> 's \<Rightarrow> 'e + 's" where
  "iterE 0 f s = Inr s"
| "iterE (Suc n) f s = bindE (f s) (iterE n f)"

lemma iterE_add: "iterE (m + n) f s = bindE (iterE m f s) (iterE n f)"
  by (induction m arbitrary: s) (simp_all add: bindE_def split: sum.splits)

lemma iterE_Suc_right: "iterE (Suc n) f s = bindE (iterE n f s) f"
proof -
  have "iterE 1 f = f"
    by (rule ext) (simp add: bindE_def split: sum.splits)
  then show ?thesis using iterE_add [of n 1 f s] by simp
qed

lemma sum_point:
  fixes g :: "'b \<Rightarrow> int" and n :: nat
  assumes "i < n"
  shows "(\<Sum>j<n. g ((f(i := x)) j)) = (\<Sum>j<n. g (f j)) - g (f i) + g x"
proof -
  have "(\<Sum>j<n. g ((f(i := x)) j)) = g x + (\<Sum>j\<in>{..<n} - {i}. g ((f(i := x)) j))"
    using assms by (subst sum.remove [where x = i]) auto
  also have "(\<Sum>j\<in>{..<n} - {i}. g ((f(i := x)) j)) = (\<Sum>j\<in>{..<n} - {i}. g (f j))"
    by (rule sum.cong) auto
  also have "\<dots> = (\<Sum>j<n. g (f j)) - g (f i)"
    using assms by (subst sum.remove [where x = i and A = "{..<n}"]) auto
  finally show ?thesis by simp
qed

lemma sint_nonneg: "0 \<le> sint (w :: u32) \<Longrightarrow> sint w = int (unat w)"
proof (rule sint_small)
  assume "0 \<le> sint w"
  then have "\<not> bit w 31" using bit_last_iff [of w] by simp
  then have "\<not> bit (unat w) 31" by (simp add: bit_unsigned_iff)
  then have "even (unat w div 2 ^ 31)" by (simp add: bit_iff_odd)
  moreover have "unat w < 2 ^ 32" using unsigned_less [of w] by simp
  then have "unat w div 2 ^ 31 < 2" by (simp add: less_mult_imp_div_less)
  ultimately have "unat w div 2 ^ 31 = 0" by (metis dvd_imp_le gr0I linorder_not_less)
  then show "unat w < 2 ^ 31" by (simp add: div_eq_0_iff)
qed
end
