(* ===== verification/Mmu.thy ===== *)
theory Mmu
  imports Prelude
begin

text \<open>
  The constants and address macros of \<open>P5_XV6_CoW_Fork/kernel/mmu.h\<close> and
  \<open>include/param.h\<close>, on 32-bit words, with the alignment facts the page allocator and
  the page-table code rest on.
\<close>

definition PGSIZE :: u32 where "PGSIZE = 0x1000"
definition PHYSTOP :: u32 where "PHYSTOP = 0x1000000"
definition USERTOP :: u32 where "USERTOP = 0xA0000"
definition PTE_P :: u32 where "PTE_P = 0x001"
definition PTE_W :: u32 where "PTE_W = 0x002"
definition PTE_U :: u32 where "PTE_U = 0x004"

definition PDX :: "u32 \<Rightarrow> nat" where
  "PDX la = unat (drop_bit 22 la AND 0x3FF)"

definition PTX :: "u32 \<Rightarrow> nat" where
  "PTX la = unat (drop_bit 12 la AND 0x3FF)"

definition PGROUNDUP :: "u32 \<Rightarrow> u32" where
  "PGROUNDUP sz = (sz + PGSIZE - 1) AND NOT (PGSIZE - 1)"

definition PGROUNDDOWN :: "u32 \<Rightarrow> u32" where
  "PGROUNDDOWN a = a AND NOT (PGSIZE - 1)"

definition PTE_ADDR :: "u32 \<Rightarrow> u32" where
  "PTE_ADDR pte = pte AND NOT 0xFFF"

definition PTE_FLAGS :: "u32 \<Rightarrow> u32" where
  "PTE_FLAGS pte = pte AND 0xFFF"

text \<open>The frame number \<open>PADDR(v) / PGSIZE\<close> that indexes the reference counts.\<close>

definition pfn :: "u32 \<Rightarrow> nat" where
  "pfn v = unat (v div PGSIZE)"

definition page_aligned :: "u32 \<Rightarrow> bool" where
  "page_aligned v \<longleftrightarrow> v mod PGSIZE = 0"

lemmas mmu_consts = PGSIZE_def PHYSTOP_def USERTOP_def PTE_P_def PTE_W_def PTE_U_def

section \<open>Alignment\<close>

lemma unat_mod_4096: "unat (v mod 0x1000 :: u32) = unat v mod 4096"
  by (simp add: unat_mod_distrib)

lemma page_aligned_nat: "page_aligned v \<longleftrightarrow> unat v mod 4096 = 0"
  unfolding page_aligned_def PGSIZE_def
  by (metis unat_mod_4096 unat_eq_zero)

lemma pfn_nat: "pfn v = unat v div 4096"
  by (simp add: pfn_def PGSIZE_def unat_div_distrib)

lemma pfn_inj: "page_aligned u \<Longrightarrow> page_aligned v \<Longrightarrow> pfn u = pfn v \<Longrightarrow> u = v"
  by (metis page_aligned_nat pfn_nat mult_div_mod_eq word_unat_eq_iff)

lemma pfn_inj_iff [simp]:
  "page_aligned u \<Longrightarrow> page_aligned v \<Longrightarrow> pfn u = pfn v \<longleftrightarrow> u = v"
  using pfn_inj by blast

lemma pfn_bound: "v < PHYSTOP \<Longrightarrow> pfn v < 4096"
  by (simp add: pfn_nat PHYSTOP_def word_less_nat_alt)

lemma page_offset_mod: "(v AND 0xFFF :: u32) = v mod 0x1000"
proof -
  have m: "(mask 12 :: u32) = 0xFFF" by (simp add: mask_eq_exp_minus_1)
  have "v AND mask 12 = v mod 2 ^ 12"
    by (simp add: take_bit_eq_mod flip: take_bit_eq_mask)
  then show ?thesis unfolding m by simp
qed

lemma PTE_split: "PTE_ADDR e + PTE_FLAGS e = e"
proof -
  have "(e AND NOT 0xFFF) + (e AND 0xFFF) = ((e AND NOT 0xFFF) OR (e AND 0xFFF) :: u32)"
    by (rule disjunctive_add) (simp add: bit_simps)
  also have "\<dots> = e"
    by (simp add: bit_eq_iff bit_simps) blast
  finally show ?thesis by (simp add: PTE_ADDR_def PTE_FLAGS_def)
qed

lemma PTE_ADDR_minus: "PTE_ADDR e = e - e mod 0x1000"
  using PTE_split [of e] by (simp add: PTE_FLAGS_def page_offset_mod algebra_simps)

lemma PGROUNDDOWN_eq: "PGROUNDDOWN a = PTE_ADDR a"
  by (simp add: PGROUNDDOWN_def PTE_ADDR_def PGSIZE_def)

lemma unat_PTE_ADDR: "unat (PTE_ADDR e) = unat e div 4096 * 4096"
proof -
  have le: "e mod 0x1000 \<le> e" by (simp add: word_le_nat_alt unat_mod_4096)
  have "unat (PTE_ADDR e) = unat e - unat e mod 4096"
    by (simp add: PTE_ADDR_minus unat_sub [OF le] unat_mod_4096)
  then show ?thesis by (simp add: minus_mod_eq_div_mult)
qed

lemma page_aligned_PTE_ADDR [simp]: "page_aligned (PTE_ADDR e)"
  by (simp add: page_aligned_nat unat_PTE_ADDR)

lemma PTE_ADDR_aligned [simp]: "page_aligned v \<Longrightarrow> PTE_ADDR v = v"
  by (simp add: PTE_ADDR_minus page_aligned_def PGSIZE_def)

lemma page_aligned_dvd: "page_aligned v \<longleftrightarrow> 4096 dvd unat v"
  by (simp add: page_aligned_nat mod_eq_0_iff_dvd)

lemma page_aligned_add:
  assumes "page_aligned u" and "page_aligned v"
  shows "page_aligned (u + v)"
proof -
  have d: "4096 dvd unat u + unat v"
    using assms by (simp add: page_aligned_dvd)
  have "4096 dvd (2 :: nat) ^ 32" by simp
  then have "4096 dvd (unat u + unat v) mod 2 ^ 32"
    using d by (simp only: dvd_mod)
  then show ?thesis
    by (simp add: page_aligned_dvd unat_word_ariths)
qed

lemma page_aligned_PGSIZE [simp]: "page_aligned PGSIZE"
  by (simp add: page_aligned_def PGSIZE_def)

lemma page_aligned_0 [simp]: "page_aligned 0"
  by (simp add: page_aligned_def)

lemma page_aligned_PGROUNDDOWN [simp]: "page_aligned (PGROUNDDOWN a)"
  by (simp add: PGROUNDDOWN_eq)

lemma PGROUNDUP_eq: "PGROUNDUP a = PTE_ADDR (a + 0xFFF)"
  by (simp add: PGROUNDUP_def PTE_ADDR_def PGSIZE_def add.commute)

lemma page_aligned_PGROUNDUP [simp]: "page_aligned (PGROUNDUP a)"
  by (simp add: PGROUNDUP_eq)

lemma unat_add_4095:
  assumes "unat v + 4095 < 2 ^ 32"
  shows "unat (PGROUNDUP v) = (unat v + 4095) div 4096 * 4096"
proof -
  have "unat (v + 0xFFF) = unat v + 4095"
    using assms by (simp add: unat_word_ariths)
  then show ?thesis by (simp add: PGROUNDUP_eq unat_PTE_ADDR)
qed

lemma round_up_nat:
  fixes n :: nat
  shows "n \<le> (n + 4095) div 4096 * 4096" and "(n + 4095) div 4096 * 4096 < n + 4096"
proof -
  have e: "(n + 4095) div 4096 * 4096 + (n + 4095) mod 4096 = n + 4095"
    by (rule div_mult_mod_eq)
  have l: "(n + 4095) mod 4096 < (4096 :: nat)" by simp
  from e l show "n \<le> (n + 4095) div 4096 * 4096" by linarith
  from e show "(n + 4095) div 4096 * 4096 < n + 4096" by linarith
qed

lemma PGROUNDUP_aligned:
  assumes "page_aligned v"
  shows "PGROUNDUP v = v"
proof -
  have "4096 dvd unat v" using assms by (simp add: page_aligned_dvd)
  then obtain k where k: "unat v = 4096 * k" ..
  have "unat v < 4294967296" using unsigned_less [of v] by simp
  with k have k2: "k < 1048576" by linarith
  then have b: "unat v + 4095 < 2 ^ 32" using k by simp
  have "(4096 * k + 4095) div 4096 = k" by simp
  then have "unat (PGROUNDUP v) = unat v"
    using unat_add_4095 [OF b] k by simp
  then show ?thesis by (simp add: word_unat_eq_iff)
qed

lemma le_PGROUNDUP:
  assumes "v < PHYSTOP"
  shows "v \<le> PGROUNDUP v" and "unat (PGROUNDUP v) < unat v + 4096"
proof -
  have "unat v < 16777216" using assms by (simp add: PHYSTOP_def word_less_nat_alt)
  then have u: "unat (PGROUNDUP v) = (unat v + 4095) div 4096 * 4096"
    by (intro unat_add_4095) simp
  show "v \<le> PGROUNDUP v"
    by (simp only: word_le_nat_alt u round_up_nat)
  show "unat (PGROUNDUP v) < unat v + 4096"
    by (simp only: u round_up_nat)
qed

lemma aligned_le_step:
  assumes "page_aligned p" "page_aligned q" "p < q"
  shows "unat p + 4096 \<le> unat q"
proof -
  obtain j k where "unat p = 4096 * j" "unat q = 4096 * k"
    using assms(1,2) unfolding page_aligned_dvd by (elim dvdE)
  moreover have "unat p < unat q" using assms(3) by (simp add: word_less_nat_alt)
  ultimately show ?thesis by simp
qed

end
