(* ===== verification/Kalloc.thy ===== *)
theory Kalloc
  imports Mmu
begin

text \<open>
  The physical page allocator \<open>P5_XV6_CoW_Fork/kernel/kalloc.c\<close>: the free list threaded
  through the free pages themselves, the count of free pages and the per-frame reference
  counts added for copy-on-write. Physical memory is word-granular: \<open>phys s p i\<close> is the
  \<open>i\<close>-th 32-bit word of the page at address \<open>p\<close>. Each function body of the C file is one
  critical section of \<open>kmem.lock\<close>, hence one atomic step here. The linker symbol \<open>end\<close>
  (the first address after the kernel) is the parameter \<open>kend\<close>.
\<close>

record kmem =
  freelist :: u32
  free_pages :: u32
  ref_cnt :: "nat \<Rightarrow> u32"
  phys :: "u32 \<Rightarrow> nat \<Rightarrow> u32"

definition NFRAMES :: nat where "NFRAMES = 4096"  \<comment> \<open>\<open>PHYSTOP / PGSIZE\<close>\<close>

section \<open>The operations\<close>

definition bad_frame :: "u32 \<Rightarrow> u32 \<Rightarrow> bool" where
  "bad_frame kend v \<longleftrightarrow> v mod PGSIZE \<noteq> 0 \<or> v < kend \<or> v \<ge> PHYSTOP"

definition fill_page :: "(u32 \<Rightarrow> nat \<Rightarrow> u32) \<Rightarrow> u32 \<Rightarrow> u32 \<Rightarrow> (u32 \<Rightarrow> nat \<Rightarrow> u32)" where
  \<comment> \<open>\<open>memset(v, c, PGSIZE)\<close>, \<open>w\<close> being the byte \<open>c\<close> four times\<close>
  "fill_page m v w = m(v := \<lambda>_. w)"

definition store_word :: "(u32 \<Rightarrow> nat \<Rightarrow> u32) \<Rightarrow> u32 \<Rightarrow> nat \<Rightarrow> u32 \<Rightarrow> (u32 \<Rightarrow> nat \<Rightarrow> u32)" where
  "store_word m p i w = m(p := (m p)(i := w))"

definition push_free :: "u32 \<Rightarrow> kmem \<Rightarrow> kmem" where
  \<comment> \<open>\<open>memset\<close> to junk, then link the page in front of the free list\<close>
  "push_free v s =
     s\<lparr>free_pages := free_pages s + 1,
       phys := store_word (fill_page (phys s) v 0x01010101) v 0 (freelist s),
       freelist := v\<rparr>"

definition kfree_init :: "u32 \<Rightarrow> u32 \<Rightarrow> kmem \<Rightarrow> kmem result" where
  "kfree_init kend v s =
     (if bad_frame kend v then Inl (Panic ''kfree'')
      else Inr (push_free v (s\<lparr>ref_cnt := (ref_cnt s)(pfn v := 0)\<rparr>)))"

lemma kfree_init_bound: "kfree_init kend p s = Inr s' \<Longrightarrow> p < PHYSTOP"
  by (auto simp: kfree_init_def bad_frame_def not_le split: if_splits)

function kinit_loop :: "u32 \<Rightarrow> u32 \<Rightarrow> kmem \<Rightarrow> kmem result" where
  "kinit_loop kend p s =
     (if p + PGSIZE \<le> PHYSTOP
      then bindE (kfree_init kend p s) (\<lambda>s'. kinit_loop kend (p + PGSIZE) s')
      else Inr s)"
  by pat_completeness auto
termination
proof (relation "measure (\<lambda>(kend, p, s). unat (PHYSTOP - p))")
  fix kend p s s'
  assume "kfree_init kend p s = Inr s'" and b: "p + PGSIZE \<le> PHYSTOP"
  then have p: "p < PHYSTOP" by (simp add: kfree_init_bound)
  have "p < p + PGSIZE"
    using p by (simp add: PHYSTOP_def PGSIZE_def word_less_nat_alt unat_word_ariths)
  then have "PHYSTOP - (p + PGSIZE) < PHYSTOP - p"
    using p b by (simp add: word_less_nat_alt word_le_nat_alt unat_sub_if_size)
  then show "((kend, p + PGSIZE, s'), (kend, p, s))
      \<in> measure (\<lambda>(kend, p, s). unat (PHYSTOP - p))"
    by (simp add: word_less_nat_alt)
qed simp

declare kinit_loop.simps [simp del]

definition kinit :: "u32 \<Rightarrow> kmem \<Rightarrow> kmem result" where
  "kinit kend s = kinit_loop kend (PGROUNDUP kend) (s\<lparr>free_pages := 0\<rparr>)"

definition kfree :: "u32 \<Rightarrow> u32 \<Rightarrow> kmem \<Rightarrow> kmem result" where
  "kfree kend v s =
     (if bad_frame kend v then Inl (Panic ''kfree'')
      else
        let rc = sint (ref_cnt s (pfn v));
            s' = s\<lparr>ref_cnt := (ref_cnt s)(pfn v := ref_cnt s (pfn v) - 1)\<rparr>
        in if rc > 1 then Inr s'
           else if rc = 1 then Inr (push_free v s')
           else Inl (Panic ''kfree''))"

definition kalloc :: "kmem \<Rightarrow> (u32 \<times> kmem) result" where
  "kalloc s =
     (let r = freelist s in
      if r \<noteq> 0 then
        bindE (guardE (pfn r < NFRAMES) (OutOfBounds ''ref_cnt'')) (\<lambda>_.
        Inr (r, s\<lparr>freelist := phys s r 0,
                  ref_cnt := (ref_cnt s)(pfn r := 1),
                  free_pages := free_pages s - 1\<rparr>))
      else Inr (0, s))"

definition getFreePagesCount :: "kmem \<Rightarrow> int" where
  "getFreePagesCount s = sint (free_pages s)"

definition inc_ref_cnt :: "u32 \<Rightarrow> kmem \<Rightarrow> kmem result" where
  "inc_ref_cnt r s =
     (if pfn r < NFRAMES
      then Inr (s\<lparr>ref_cnt := (ref_cnt s)(pfn r := ref_cnt s (pfn r) + 1)\<rparr>)
      else Inl (OutOfBounds ''ref_cnt''))"

definition dec_ref_cnt :: "u32 \<Rightarrow> kmem \<Rightarrow> kmem result" where
  "dec_ref_cnt r s =
     (if pfn r < NFRAMES
      then Inr (s\<lparr>ref_cnt := (ref_cnt s)(pfn r := ref_cnt s (pfn r) - 1)\<rparr>)
      else Inl (OutOfBounds ''ref_cnt''))"

definition get_ref_cnt :: "u32 \<Rightarrow> kmem \<Rightarrow> int result" where
  "get_ref_cnt r s =
     (if pfn r < NFRAMES then Inr (sint (ref_cnt s (pfn r)))
      else Inl (OutOfBounds ''ref_cnt''))"

section \<open>The invariant\<close>

text \<open>The linked list that starts at \<open>p\<close> and runs through the first words of its pages.\<close>

fun chain :: "(u32 \<Rightarrow> nat \<Rightarrow> u32) \<Rightarrow> u32 \<Rightarrow> u32 list \<Rightarrow> bool" where
  "chain m p [] \<longleftrightarrow> p = 0"
| "chain m p (x # xs) \<longleftrightarrow> p = x \<and> x \<noteq> 0 \<and> chain m (m x 0) xs"

definition frame :: "u32 \<Rightarrow> u32 \<Rightarrow> bool" where
  \<comment> \<open>a page the allocator may manage: what \<open>kfree\<close> accepts\<close>
  "frame kend v \<longleftrightarrow> \<not> bad_frame kend v"

definition free_frames :: "u32 \<Rightarrow> kmem \<Rightarrow> u32 set" where
  "free_frames kend s = {v. frame kend v \<and> ref_cnt s (pfn v) = 0}"

definition wf_kmem :: "u32 \<Rightarrow> kmem \<Rightarrow> bool" where
  "wf_kmem kend s \<longleftrightarrow> 0 < kend \<and>
     (\<exists>xs. chain (phys s) (freelist s) xs \<and> distinct xs \<and>
           set xs = free_frames kend s \<and> unat (free_pages s) = length xs)"

lemma frameI [intro]: "page_aligned v \<Longrightarrow> kend \<le> v \<Longrightarrow> v < PHYSTOP \<Longrightarrow> frame kend v"
  by (simp add: frame_def bad_frame_def page_aligned_def not_less not_le)

lemma frameD:
  assumes "frame kend v"
  shows "page_aligned v" "kend \<le> v" "v < PHYSTOP"
  using assms by (auto simp: frame_def bad_frame_def page_aligned_def not_less not_le)

lemma frame_aligned [simp]: "frame kend v \<Longrightarrow> page_aligned v"
  by (rule frameD)

lemma frame_pfn [simp]: "frame kend v \<Longrightarrow> pfn v < NFRAMES"
  using frameD(3) pfn_bound by (simp add: NFRAMES_def)

lemma frame_pfn_inj: "frame kend u \<Longrightarrow> frame kend v \<Longrightarrow> pfn u = pfn v \<longleftrightarrow> u = v"
  by simp

lemma frame_nonzero: "0 < kend \<Longrightarrow> frame kend v \<Longrightarrow> v \<noteq> 0"
  by (metis frameD(2) word_le_0_iff word_gt_0)

lemma not_bad_frame [simp]: "frame kend v \<Longrightarrow> \<not> bad_frame kend v"
  by (simp add: frame_def)

lemma finite_frames [simp]: "finite {v. frame kend v}"
  by simp

lemma card_frames: "card {v. frame kend v} \<le> 4096"
proof -
  have "inj_on pfn {v. frame kend v}" by (auto intro!: inj_onI simp: frame_pfn_inj)
  moreover have "pfn ` {v. frame kend v} \<subseteq> {..< 4096}"
    using frameD(3) pfn_bound by auto
  ultimately show ?thesis
    using card_inj_on_le [of pfn "{v. frame kend v}" "{..< 4096}"] by simp
qed

lemma chain_update [simp]: "p \<notin> set xs \<Longrightarrow> chain (m(p := f)) q xs \<longleftrightarrow> chain m q xs"
  by (induction xs arbitrary: q) auto

lemma chain_store [simp]: "p \<notin> set xs \<Longrightarrow> chain (store_word m p i w) q xs \<longleftrightarrow> chain m q xs"
  by (simp add: store_word_def)

lemma chain_unique: "chain m p xs \<Longrightarrow> chain m p ys \<Longrightarrow> xs = ys"
proof (induction xs arbitrary: p ys)
  case Nil
  then show ?case by (cases ys) auto
next
  case (Cons x xs)
  then show ?case by (cases ys) auto
qed

lemma store_word_same [simp]: "store_word m p i w p i = w"
  and store_word_other_page [simp]: "q \<noteq> p \<Longrightarrow> store_word m p i w q = m q"
  and store_word_other_word [simp]: "j \<noteq> i \<Longrightarrow> store_word m p i w p j = m p j"
  by (simp_all add: store_word_def)

lemma push_free_simps [simp]:
  "freelist (push_free v s) = v"
  "free_pages (push_free v s) = free_pages s + 1"
  "ref_cnt (push_free v s) = ref_cnt s"
  "phys (push_free v s) v 0 = freelist s"
  "q \<noteq> v \<Longrightarrow> phys (push_free v s) q = phys s q"
  by (simp_all add: push_free_def fill_page_def)

text \<open>Linking a page that is on no list and in no use keeps the list and its count.\<close>

lemma push_free_chain:
  assumes "chain (phys s) (freelist s) xs" and "v \<notin> set xs" and "v \<noteq> 0"
  shows "chain (phys (push_free v s)) (freelist (push_free v s)) (v # xs)"
  using assms by (simp add: push_free_def fill_page_def)

lemma wf_kmem_push:
  assumes wf: "wf_kmem kend s" and v: "frame kend v" and r: "ref_cnt s (pfn v) \<noteq> 0"
  shows "wf_kmem kend (push_free v (s\<lparr>ref_cnt := (ref_cnt s)(pfn v := 0)\<rparr>))"
    and "free_frames kend (push_free v (s\<lparr>ref_cnt := (ref_cnt s)(pfn v := 0)\<rparr>))
         = insert v (free_frames kend s)"
proof -
  let ?s = "push_free v (s\<lparr>ref_cnt := (ref_cnt s)(pfn v := 0)\<rparr>)"
  show ff: "free_frames kend ?s = insert v (free_frames kend s)"
    using v by (auto simp: free_frames_def frame_pfn_inj)
  from wf obtain xs where xs: "chain (phys s) (freelist s) xs" "distinct xs"
      "set xs = free_frames kend s" "unat (free_pages s) = length xs" and k: "0 < kend"
    by (auto simp: wf_kmem_def)
  have nin: "v \<notin> set xs" using xs(3) r by (simp add: free_frames_def)
  have "card (set (v # xs)) \<le> card {v. frame kend v}"
    by (rule card_mono) (use v xs(3) in \<open>auto simp: free_frames_def\<close>)
  then have "length (v # xs) \<le> 4096"
    using card_frames [of kend] xs(2) nin by (simp add: distinct_card)
  then have cnt: "unat (free_pages ?s) = length (v # xs)"
    using xs(4) by (simp add: unat_word_ariths)
  have "chain (phys ?s) (freelist ?s) (v # xs)"
    using xs(1) nin frame_nonzero [OF k v] by (intro push_free_chain) auto
  then show "wf_kmem kend ?s"
    unfolding wf_kmem_def ff using xs k cnt nin by (intro conjI exI [of _ "v # xs"]) auto
qed

end
