(* ===== verification/Frame_Interface.thy ===== *)
theory Frame_Interface
  imports Prelude
begin

text \<open>
  What the rest of the kernel relies on when it calls a reference-counted page allocator:
  a page handed out was in nobody's use, sharing and releasing move its count by one, the
  page returns to the pool with its last reference and not before, and no operation touches
  the contents of a page in use. The client lemmas proved here once are used by the page
  tables, the pipes and the process table through the interpretation in theory \<open>Kalloc_Spec\<close>.
\<close>

locale frame_pool =
  fixes null :: 'p
    and valid :: "'p \<Rightarrow> bool"
    and alloc :: "'s \<Rightarrow> 'e + ('p \<times> 's)"
    and release :: "'p \<Rightarrow> 's \<Rightarrow> 'e + 's"
    and share :: "'p \<Rightarrow> 's \<Rightarrow> 'e + 's"
    and refs :: "'s \<Rightarrow> 'p \<Rightarrow> nat"
    and content :: "'s \<Rightarrow> 'p \<Rightarrow> 'c"
    and limit :: nat
    and inv :: "'s \<Rightarrow> bool"
  assumes null_invalid: "inv s \<Longrightarrow> \<not> valid null"
    and limit_pos: "1 < limit"
    and alloc_total: "inv s \<Longrightarrow> \<exists>p s'. alloc s = Inr (p, s')"
    and alloc_page: "inv s \<Longrightarrow> alloc s = Inr (p, s') \<Longrightarrow> p \<noteq> null \<Longrightarrow>
        valid p \<and> refs s p = 0 \<and> refs s' p = 1 \<and> inv s' \<and>
        (\<forall>q. valid q \<longrightarrow> q \<noteq> p \<longrightarrow> refs s' q = refs s q) \<and> content s' = content s"
    and alloc_null: "inv s \<Longrightarrow> alloc s = Inr (null, s') \<Longrightarrow>
        s' = s \<and> (\<forall>p. valid p \<longrightarrow> refs s p \<noteq> 0)"
    and share_ok: "inv s \<Longrightarrow> valid p \<Longrightarrow> 0 < refs s p \<Longrightarrow> Suc (refs s p) < limit \<Longrightarrow>
        \<exists>s'. share p s = Inr s' \<and> inv s' \<and> refs s' p = Suc (refs s p) \<and>
        (\<forall>q. valid q \<longrightarrow> q \<noteq> p \<longrightarrow> refs s' q = refs s q) \<and> content s' = content s"
    and release_ok: "inv s \<Longrightarrow> valid p \<Longrightarrow> 0 < refs s p \<Longrightarrow> refs s p < limit \<Longrightarrow>
        \<exists>s'. release p s = Inr s' \<and> inv s' \<and> refs s' p = refs s p - 1 \<and>
        (\<forall>q. valid q \<longrightarrow> q \<noteq> p \<longrightarrow> refs s' q = refs s q \<and> content s' q = content s q) \<and>
        (1 < refs s p \<longrightarrow> content s' p = content s p)"
    and release_free: "inv s \<Longrightarrow> valid p \<Longrightarrow> refs s p = 0 \<Longrightarrow> \<exists>e. release p s = Inl e"

context frame_pool begin

lemma alloc_fresh:
  assumes "inv s" and "alloc s = Inr (p, s')" and "p \<noteq> null" and "valid q" and "0 < refs s q"
  shows "p \<noteq> q" and "refs s' q = refs s q" and "content s' q = content s q"
  using alloc_page [OF assms(1-3)] assms(4,5) by auto

lemma alloc_inv:
  assumes "inv s" and "alloc s = Inr (p, s')"
  shows "inv s'"
  using alloc_page [OF assms] alloc_null [OF assms(1)] assms by (cases "p = null") auto

lemma alloc_twice_distinct:
  assumes "inv s" and "alloc s = Inr (p, s')" and "alloc s' = Inr (q, s'')"
    and "p \<noteq> null" and "q \<noteq> null"
  shows "p \<noteq> q"
  using alloc_page [OF assms(1,2,4)] alloc_page [OF _ assms(3,5)] by auto

lemma share_many:
  assumes "inv s" and "valid p" and "0 < refs s p" and "refs s p + n < limit"
  shows "\<exists>s'. iterE n (share p) s = Inr s' \<and> inv s' \<and> refs s' p = refs s p + n \<and>
    (\<forall>q. valid q \<longrightarrow> q \<noteq> p \<longrightarrow> refs s' q = refs s q) \<and> content s' = content s"
  using assms
proof (induction n arbitrary: s)
  case 0
  then show ?case by simp
next
  case (Suc n)
  from Suc.prems obtain t where t: "share p s = Inr t" "inv t" "refs t p = Suc (refs s p)"
      "\<forall>q. valid q \<longrightarrow> q \<noteq> p \<longrightarrow> refs t q = refs s q" "content t = content s"
    using share_ok [of s p] by auto
  from Suc.IH [OF t(2) Suc.prems(2)] t Suc.prems show ?case by auto
qed

lemma release_many:
  assumes "inv s" and "valid p" and "n < refs s p" and "refs s p < limit"
  shows "\<exists>s'. iterE n (release p) s = Inr s' \<and> inv s' \<and> refs s' p = refs s p - n \<and>
    (\<forall>q. valid q \<longrightarrow> q \<noteq> p \<longrightarrow> refs s' q = refs s q \<and> content s' q = content s q) \<and>
    content s' p = content s p"
  using assms
proof (induction n arbitrary: s)
  case 0
  then show ?case by simp
next
  case (Suc n)
  from Suc.prems obtain t where t: "release p s = Inr t" "inv t" "refs t p = refs s p - 1"
      "\<forall>q. valid q \<longrightarrow> q \<noteq> p \<longrightarrow> refs t q = refs s q \<and> content t q = content s q"
      "content t p = content s p"
    using release_ok [of s p] by auto
  from Suc.IH [OF t(2) Suc.prems(2)] t Suc.prems show ?case by auto
qed

text \<open>
  The life of a shared page: allocated, shared \<open>n\<close> times, it survives \<open>n\<close> releases with
  its contents, the next one returns it to the pool, one more is an error.
\<close>

lemma page_life:
  assumes "inv s" and "alloc s = Inr (p, s1)" and "p \<noteq> null" and "Suc n < limit"
  shows "\<exists>s2 s3 s4 e. iterE n (share p) s1 = Inr s2 \<and> refs s2 p = Suc n \<and>
     iterE n (release p) s2 = Inr s3 \<and> refs s3 p = 1 \<and> content s3 p = content s1 p \<and>
     release p s3 = Inr s4 \<and> refs s4 p = 0 \<and> inv s4 \<and> release p s4 = Inl e"
proof -
  note a = alloc_page [OF assms(1-3)]
  from a share_many [of s1 p n] assms(4) obtain s2 where s2: "iterE n (share p) s1 = Inr s2"
      "inv s2" "refs s2 p = Suc n" "content s2 = content s1"
    by auto
  from a s2 assms(4) release_many [of s2 p n] obtain s3 where s3:
      "iterE n (release p) s2 = Inr s3" "inv s3" "refs s3 p = 1" "content s3 p = content s1 p"
    by auto
  from a s3 limit_pos release_ok [of s3 p] obtain s4 where s4: "release p s3 = Inr s4"
      "inv s4" "refs s4 p = 0"
    by auto
  moreover from a s4 obtain e where "release p s4 = Inl e"
    using release_free by blast
  ultimately show ?thesis using s2 s3 by blast
qed

end

end
