(* ===== verification/Kalloc_Spec.thy ===== *)
theory Kalloc_Spec
  imports Kalloc Frame_Interface
begin

text \<open>
  Correctness of the page allocator: initialisation establishes the invariant that the free
  list holds exactly the frames no one references, every operation keeps it on every branch,
  and the allocator provides the interface of theory \<open>Frame_Interface\<close>.
\<close>

abbreviation frefs :: "kmem \<Rightarrow> u32 \<Rightarrow> nat" where
  "frefs s v \<equiv> unat (ref_cnt s (pfn v))"

lemma unat_1_iff: "unat (w :: u32) = 1 \<longleftrightarrow> w = 1"
  by (simp add: word_unat_eq_iff)

lemma unat_add1: "unat (w :: u32) + 1 < 2 ^ 32 \<Longrightarrow> unat (w + 1) = unat w + 1"
  by (simp add: unat_word_ariths)

lemma unat_sub1: "w \<noteq> (0 :: u32) \<Longrightarrow> unat (w - 1) = unat w - 1"
  by (metis unat_minus_one)

lemma wf_kmemE:
  assumes "wf_kmem kend s"
  obtains xs where "0 < kend" "chain (phys s) (freelist s) xs" "distinct xs"
    "set xs = free_frames kend s" "unat (free_pages s) = length xs"
  using assms by (auto simp: wf_kmem_def)

text \<open>Writing to pages that are not free keeps the free list.\<close>

lemma chain_cong: "(\<And>q. q \<in> set xs \<Longrightarrow> m' q = m q) \<Longrightarrow> chain m' p xs \<longleftrightarrow> chain m p xs"
  by (induction xs arbitrary: p) auto

lemma free_frames_phys [simp]: "free_frames kend (s\<lparr>phys := m\<rparr>) = free_frames kend s"
  by (simp add: free_frames_def)

lemma wf_kmem_write:
  assumes "wf_kmem kend s" and "\<And>q. q \<in> free_frames kend s \<Longrightarrow> m q = phys s q"
  shows "wf_kmem kend (s\<lparr>phys := m\<rparr>)"
proof -
  from assms(1) obtain xs where xs: "0 < kend" "chain (phys s) (freelist s) xs" "distinct xs"
      "set xs = free_frames kend s" "unat (free_pages s) = length xs"
    by (rule wf_kmemE)
  have "chain m (freelist s) xs"
    using chain_cong [of xs m "phys s"] assms(2) xs(2,4) by simp
  then show ?thesis unfolding wf_kmem_def using xs by auto
qed

section \<open>Allocation\<close>

lemma kalloc_null:
  assumes "wf_kmem kend s" and "freelist s = 0"
  shows "kalloc s = Inr (0, s)" and "free_frames kend s = {}"
proof -
  from assms(1) obtain xs where xs: "chain (phys s) (freelist s) xs" "set xs = free_frames kend s"
    by (rule wf_kmemE)
  show "kalloc s = Inr (0, s)" using assms(2) by (simp add: kalloc_def)
  show "free_frames kend s = {}" using xs assms(2) by (cases xs) auto
qed

lemma kalloc_page:
  assumes wf: "wf_kmem kend s" and r: "freelist s \<noteq> 0"
  defines "p \<equiv> freelist s"
  defines "s' \<equiv> s\<lparr>freelist := phys s p 0, ref_cnt := (ref_cnt s)(pfn p := 1),
                 free_pages := free_pages s - 1\<rparr>"
  shows "kalloc s = Inr (p, s')" and "frame kend p" and "ref_cnt s (pfn p) = 0"
    and "free_frames kend s' = free_frames kend s - {p}" and "wf_kmem kend s'"
proof -
  from wf obtain xs where k: "0 < kend" and xs: "chain (phys s) p xs" "distinct xs"
      "set xs = free_frames kend s" "unat (free_pages s) = length xs"
    unfolding p_def by (rule wf_kmemE)
  obtain ys where ys: "xs = p # ys" using xs(1) r by (cases xs) (auto simp: p_def)
  then have mem: "p \<in> free_frames kend s" using xs(3) by auto
  then show f: "frame kend p" and z: "ref_cnt s (pfn p) = 0" by (auto simp: free_frames_def)
  show "kalloc s = Inr (p, s')"
    using r f by (simp add: kalloc_def s'_def p_def Let_def)
  show ff: "free_frames kend s' = free_frames kend s - {p}"
    using f by (auto simp: free_frames_def s'_def frame_pfn_inj)
  have "free_pages s \<noteq> 0" using xs(4) ys by auto
  then have "unat (free_pages s') = length ys"
    using xs(4) ys by (simp add: s'_def unat_sub1)
  then show "wf_kmem kend s'"
    unfolding wf_kmem_def ff using k xs ys by (intro conjI exI [of _ ys]) (auto simp: s'_def)
qed

section \<open>Release and sharing\<close>

lemma kfree_shared:
  assumes wf: "wf_kmem kend s" and v: "frame kend v" and c: "1 < frefs s v" "frefs s v < 2 ^ 31"
  defines "s' \<equiv> s\<lparr>ref_cnt := (ref_cnt s)(pfn v := ref_cnt s (pfn v) - 1)\<rparr>"
  shows "kfree kend v s = Inr s'" and "frefs s' v = frefs s v - 1"
    and "free_frames kend s' = free_frames kend s" and "wf_kmem kend s'"
proof -
  show "kfree kend v s = Inr s'"
    using v c by (simp add: kfree_def sint_small [of "ref_cnt s (pfn v)"] s'_def Let_def del: of_nat_unat)
  have nz: "ref_cnt s (pfn v) \<noteq> 0" using c by auto
  then show d: "frefs s' v = frefs s v - 1" by (simp add: s'_def unat_sub1)
  then have "ref_cnt s' (pfn v) \<noteq> 0" using c by (metis unat_0 zero_less_diff less_not_refl)
  then show ff: "free_frames kend s' = free_frames kend s"
    using v nz by (auto simp: free_frames_def s'_def split: if_splits)
  show "wf_kmem kend s'"
    using wf unfolding wf_kmem_def ff by (simp add: s'_def)
qed

lemma kfree_last:
  assumes wf: "wf_kmem kend s" and v: "frame kend v" and c: "frefs s v = 1"
  defines "s' \<equiv> push_free v (s\<lparr>ref_cnt := (ref_cnt s)(pfn v := 0)\<rparr>)"
  shows "kfree kend v s = Inr s'" and "frefs s' v = 0"
    and "free_frames kend s' = insert v (free_frames kend s)" and "wf_kmem kend s'"
proof -
  have one: "ref_cnt s (pfn v) = 1" using c by (simp only: unat_1_iff)
  then show "kfree kend v s = Inr s'"
    using v by (simp add: kfree_def s'_def)
  show "frefs s' v = 0" by (simp add: s'_def)
  show "free_frames kend s' = insert v (free_frames kend s)" "wf_kmem kend s'"
    using wf_kmem_push [OF wf v] one by (simp_all add: s'_def)
qed

lemma kfree_unreferenced: "frame kend v \<Longrightarrow> frefs s v = 0 \<Longrightarrow> kfree kend v s = Inl (Panic ''kfree'')"
  by (simp add: kfree_def unat_eq_0)

lemma inc_ref_cnt_ok:
  assumes wf: "wf_kmem kend s" and v: "frame kend v" and c: "0 < frefs s v" "Suc (frefs s v) < 2 ^ 31"
  defines "s' \<equiv> s\<lparr>ref_cnt := (ref_cnt s)(pfn v := ref_cnt s (pfn v) + 1)\<rparr>"
  shows "inc_ref_cnt v s = Inr s'" and "frefs s' v = Suc (frefs s v)"
    and "free_frames kend s' = free_frames kend s" and "wf_kmem kend s'"
proof -
  show "inc_ref_cnt v s = Inr s'" using v by (simp add: inc_ref_cnt_def s'_def)
  show d: "frefs s' v = Suc (frefs s v)" using c by (simp add: s'_def unat_add1)
  then have "ref_cnt s' (pfn v) \<noteq> 0" by (metis unat_0 nat.distinct(1))
  moreover have "ref_cnt s (pfn v) \<noteq> 0" using c by auto
  ultimately show ff: "free_frames kend s' = free_frames kend s"
    using v by (auto simp: free_frames_def s'_def split: if_splits)
  show "wf_kmem kend s'"
    using wf unfolding wf_kmem_def ff by (simp add: s'_def)
qed

text \<open>What the page-fault handler relies on: \<open>dec_ref_cnt\<close> on a page that stays referenced.\<close>

lemma dec_ref_cnt_ok:
  assumes wf: "wf_kmem kend s" and v: "frame kend v" and c: "1 < frefs s v"
  defines "s' \<equiv> s\<lparr>ref_cnt := (ref_cnt s)(pfn v := ref_cnt s (pfn v) - 1)\<rparr>"
  shows "dec_ref_cnt v s = Inr s'" and "frefs s' v = frefs s v - 1"
    and "free_frames kend s' = free_frames kend s" and "wf_kmem kend s'"
proof -
  show "dec_ref_cnt v s = Inr s'" using v by (simp add: dec_ref_cnt_def s'_def)
  have nz: "ref_cnt s (pfn v) \<noteq> 0" using c by auto
  then show d: "frefs s' v = frefs s v - 1" by (simp add: s'_def unat_sub1)
  then have "ref_cnt s' (pfn v) \<noteq> 0" using c by (metis unat_0 zero_less_diff less_not_refl)
  then show ff: "free_frames kend s' = free_frames kend s"
    using v nz by (auto simp: free_frames_def s'_def split: if_splits)
  show "wf_kmem kend s'"
    using wf unfolding wf_kmem_def ff by (simp add: s'_def)
qed

section \<open>The interface\<close>

lemma wf_kmem_alloc:
  assumes wf: "wf_kmem kend s" and a: "kalloc s = Inr (p, s')" and p: "p \<noteq> 0"
  shows "frame kend p \<and> frefs s p = 0 \<and> frefs s' p = 1 \<and> wf_kmem kend s' \<and>
    (\<forall>q. frame kend q \<longrightarrow> q \<noteq> p \<longrightarrow> frefs s' q = frefs s q) \<and> phys s' = phys s"
proof -
  have r: "freelist s \<noteq> 0" using a p by (auto simp: kalloc_def Let_def split: if_splits)
  note k = kalloc_page [OF wf r]
  have s': "p = freelist s" "s' = s\<lparr>freelist := phys s p 0, ref_cnt := (ref_cnt s)(pfn p := 1),
      free_pages := free_pages s - 1\<rparr>"
    using k(1) a by auto
  show ?thesis using k(2,3,5) unfolding s' by (auto simp: frame_pfn_inj)
qed

interpretation ka: frame_pool 0 "frame kend" kalloc "kfree kend" inc_ref_cnt frefs phys "2 ^ 31"
    "wf_kmem kend" for kend
proof unfold_locales
  fix s assume "wf_kmem kend s"
  then show "\<not> frame kend 0" by (auto simp: wf_kmem_def frame_def bad_frame_def)
next
  show "(1 :: nat) < 2 ^ 31" by simp
next
  fix s assume "wf_kmem kend s"
  then show "\<exists>p s'. kalloc s = Inr (p, s')"
    using kalloc_null(1) kalloc_page(1) by (cases "freelist s = 0") blast+
next
  fix s p s' assume "wf_kmem kend s" "kalloc s = Inr (p, s')" "p \<noteq> 0"
  then show "frame kend p \<and> frefs s p = 0 \<and> frefs s' p = 1 \<and> wf_kmem kend s' \<and>
      (\<forall>q. frame kend q \<longrightarrow> q \<noteq> p \<longrightarrow> frefs s' q = frefs s q) \<and> phys s' = phys s"
    by (rule wf_kmem_alloc)
next
  fix s s' assume wf: "wf_kmem kend s" and a: "kalloc s = Inr (0, s')"
  then have z: "freelist s = 0" using kalloc_page(1) [OF wf] by (cases "freelist s = 0") auto
  show "s' = s \<and> (\<forall>p. frame kend p \<longrightarrow> frefs s p \<noteq> 0)"
    using kalloc_null [OF wf z] a by (auto simp: free_frames_def unat_eq_0)
next
  fix s p assume "wf_kmem kend s" "frame kend p" "0 < frefs s p" "Suc (frefs s p) < 2 ^ 31"
  note i = inc_ref_cnt_ok [OF this]
  show "\<exists>s'. inc_ref_cnt p s = Inr s' \<and> wf_kmem kend s' \<and> frefs s' p = Suc (frefs s p) \<and>
      (\<forall>q. frame kend q \<longrightarrow> q \<noteq> p \<longrightarrow> frefs s' q = frefs s q) \<and> phys s' = phys s"
    using i \<open>frame kend p\<close> by (auto simp: frame_pfn_inj)
next
  fix s p assume wf: "wf_kmem kend s" and p: "frame kend p" and c: "0 < frefs s p" "frefs s p < 2 ^ 31"
  show "\<exists>s'. kfree kend p s = Inr s' \<and> wf_kmem kend s' \<and> frefs s' p = frefs s p - 1 \<and>
      (\<forall>q. frame kend q \<longrightarrow> q \<noteq> p \<longrightarrow> frefs s' q = frefs s q \<and> phys s' q = phys s q) \<and>
      (1 < frefs s p \<longrightarrow> phys s' p = phys s p)"
  proof (cases "frefs s p = 1")
    case True
    from kfree_last [OF wf p True] show ?thesis using p True by (auto simp: frame_pfn_inj)
  next
    case False
    with c have "1 < frefs s p" by simp
    from kfree_shared [OF wf p this c(2)] show ?thesis using p by (auto simp: frame_pfn_inj)
  qed
next
  fix s p assume "frame kend p" "frefs s p = 0"
  then show "\<exists>e. kfree kend p s = Inl e" using kfree_unreferenced by blast
qed

section \<open>Initialisation\<close>

lemma below_next_page:
  assumes "page_aligned p" and "p < PHYSTOP"
  shows "unat (p + PGSIZE) = unat p + 4096" and "p + PGSIZE \<le> PHYSTOP"
    and "page_aligned v \<Longrightarrow> v < p + PGSIZE \<longleftrightarrow> v = p \<or> v < p"
proof -
  have b: "unat p < 16777216" using assms(2) by (simp add: PHYSTOP_def word_less_nat_alt)
  then show u: "unat (p + PGSIZE) = unat p + 4096"
    by (simp add: PGSIZE_def unat_word_ariths)
  have "page_aligned PHYSTOP" by (simp add: page_aligned_def mmu_consts)
  from aligned_le_step [OF assms(1) this assms(2)] show "p + PGSIZE \<le> PHYSTOP"
    by (simp add: word_le_nat_alt u)
  assume v: "page_aligned v"
  show "v < p + PGSIZE \<longleftrightarrow> v = p \<or> v < p"
  proof
    assume l: "v < p + PGSIZE"
    show "v = p \<or> v < p"
    proof (rule ccontr)
      assume "\<not> (v = p \<or> v < p)"
      then have "p < v" by auto
      from aligned_le_step [OF assms(1) v this] l show False
        by (simp add: word_less_nat_alt u)
    qed
  next
    assume "v = p \<or> v < p"
    then show "v < p + PGSIZE" by (auto simp: word_less_nat_alt u)
  qed
qed

lemma frames_below: "card {v. frame kend v \<and> v < p} \<le> 4096"
  by (rule order_trans [OF card_mono card_frames [of kend]]) auto

lemma kinit_loop_wf:
  assumes "page_aligned p" and "kend \<le> p" and "p \<le> PHYSTOP" and "0 < kend"
    and "chain (phys s) (freelist s) xs" and "distinct xs"
    and "set xs = {v. frame kend v \<and> v < p}" and "unat (free_pages s) = length xs"
    and "\<forall>v \<in> set xs. ref_cnt s (pfn v) = 0"
  shows "\<exists>s'. kinit_loop kend p s = Inr s' \<and> wf_kmem kend s' \<and>
    free_frames kend s' = {v. frame kend v}"
  using assms
proof (induction kend p s arbitrary: xs rule: kinit_loop.induct)
  case (1 kend p s)
  show ?case
  proof (cases "p < PHYSTOP")
    case True
    note n = below_next_page [OF "1.prems"(1) True]
    have f: "frame kend p" using "1.prems" True by auto
    let ?t = "push_free p (s\<lparr>ref_cnt := (ref_cnt s)(pfn p := 0)\<rparr>)"
    have ki: "kfree_init kend p s = Inr ?t" using f by (simp add: kfree_init_def)
    have nin: "p \<notin> set xs" using "1.prems"(7) by auto
    have st: "set (p # xs) = {v. frame kend v \<and> v < p + PGSIZE}"
      using "1.prems"(7) f n(3) by auto
    have "card (set (p # xs)) = length (p # xs)"
      by (rule distinct_card) (simp add: nin "1.prems"(6))
    then have "length (p # xs) \<le> 4096"
      using frames_below [of kend "p + PGSIZE"] unfolding st by simp
    then have fp: "unat (free_pages ?t) = length (p # xs)"
      using "1.prems"(8) by (simp add: unat_add1)
    have ch: "chain (phys ?t) (freelist ?t) (p # xs)"
      using "1.prems"(4,5) nin frame_nonzero [OF _ f] by (intro push_free_chain) auto
    have rc: "\<forall>v \<in> set (p # xs). ref_cnt ?t (pfn v) = 0"
      using "1.prems"(9) by simp
    have al: "page_aligned (p + PGSIZE)" "kend \<le> p + PGSIZE"
      using "1.prems"(1,2) n(1) by (simp_all add: page_aligned_add word_le_nat_alt)
    have "\<exists>s'. kinit_loop kend (p + PGSIZE) ?t = Inr s' \<and> wf_kmem kend s' \<and>
        free_frames kend s' = {v. frame kend v}"
      using "1.IH" [OF n(2) ki al n(2) "1.prems"(4) ch _ st fp rc] nin "1.prems"(6) by simp
    then show ?thesis by (simp add: kinit_loop.simps [of kend p s] n(2) ki)
  next
    case False
    then have p: "p = PHYSTOP" using "1.prems"(3) by simp
    then have "kinit_loop kend p s = Inr s"
      by (subst kinit_loop.simps) (simp add: mmu_consts)
    moreover have all: "set xs = {v. frame kend v}"
      using "1.prems"(7) p frameD(3) by auto
    then have ff: "free_frames kend s = {v. frame kend v}"
      using "1.prems"(9) by (auto simp: free_frames_def)
    moreover have "wf_kmem kend s"
      unfolding wf_kmem_def ff using "1.prems"(4,5,6,8) all by blast
    ultimately show ?thesis by simp
  qed
qed

lemma no_frame_below: "frame kend v \<Longrightarrow> kend < PHYSTOP \<Longrightarrow> \<not> v < PGROUNDUP kend"
proof
  assume f: "frame kend v" and k: "kend < PHYSTOP" and l: "v < PGROUNDUP kend"
  have "unat v + 4096 \<le> unat (PGROUNDUP kend)"
    using aligned_le_step [OF frameD(1) [OF f] _ l] by simp
  moreover have "unat kend \<le> unat v" using frameD(2) [OF f] by (simp add: word_le_nat_alt)
  ultimately show False using le_PGROUNDUP(2) [OF k] by simp
qed

section \<open>A small memory, for concrete instances\<close>

definition four_frames :: kmem where
  "four_frames = \<lparr>freelist = 0xFFC000, free_pages = 4, ref_cnt = (\<lambda>_. 0),
     phys = (\<lambda>_ _. 0)(0xFFC000 := (\<lambda>_. 0)(0 := 0xFFD000), 0xFFD000 := (\<lambda>_. 0)(0 := 0xFFE000),
       0xFFE000 := (\<lambda>_. 0)(0 := 0xFFF000))\<rparr>"

lemma frames_at_top: "frame 0xFFC000 v \<longleftrightarrow> v \<in> {0xFFC000, 0xFFD000, 0xFFE000, 0xFFF000}"
proof
  assume f: "frame 0xFFC000 v"
  obtain k where k: "unat v = 4096 * k"
    using frameD(1) [OF f] unfolding page_aligned_dvd by (elim dvdE)
  have "unat v < 16777216" "16760832 \<le> unat v"
    using frameD(2,3) [OF f] by (simp_all add: PHYSTOP_def word_less_nat_alt word_le_nat_alt)
  with k have "k = 4092 \<or> k = 4093 \<or> k = 4094 \<or> k = 4095" by linarith
  with k have "unat v = unat (0xFFC000 :: u32) \<or> unat v = unat (0xFFD000 :: u32) \<or>
      unat v = unat (0xFFE000 :: u32) \<or> unat v = unat (0xFFF000 :: u32)"
    by auto
  then show "v \<in> {0xFFC000, 0xFFD000, 0xFFE000, 0xFFF000}"
    by (simp only: word_unat_eq_iff [symmetric] insert_iff) simp
next
  assume "v \<in> {0xFFC000, 0xFFD000, 0xFFE000, 0xFFF000}"
  then show "frame 0xFFC000 v" by (auto simp: frame_def bad_frame_def mmu_consts)
qed

lemma four_frames_wf: "wf_kmem 0xFFC000 four_frames"
proof -
  let ?xs = "[0xFFC000, 0xFFD000, 0xFFE000, 0xFFF000] :: u32 list"
  have "free_frames 0xFFC000 four_frames = set ?xs"
    by (auto simp: free_frames_def frames_at_top) (simp_all add: four_frames_def)
  moreover have "chain (phys four_frames) (freelist four_frames) ?xs"
    by (simp add: four_frames_def)
  moreover have "distinct ?xs" "unat (free_pages four_frames) = length ?xs" "(0 :: u32) < 0xFFC000"
    by (simp_all add: four_frames_def)
  ultimately show ?thesis unfolding wf_kmem_def by blast
qed

lemma kinit_frees:
  assumes "0 < kend" and "kend < PHYSTOP" and "freelist s = 0"
  shows "\<exists>s'. kinit kend s = Inr s' \<and> wf_kmem kend s' \<and>
    free_frames kend s' = {v. frame kend v}"
proof -
  have "PGROUNDUP kend \<le> PHYSTOP"
  proof -
    have "unat kend < unat PHYSTOP" using assms(2) by (simp add: word_less_nat_alt)
    then have "unat (PGROUNDUP kend) < 16777216 + 4096"
      using le_PGROUNDUP(2) [OF assms(2)] by (simp add: PHYSTOP_def)
    moreover have "page_aligned PHYSTOP" by (simp add: page_aligned_def mmu_consts)
    ultimately show ?thesis
      using aligned_le_step [of PHYSTOP "PGROUNDUP kend"] by (force simp: PHYSTOP_def not_le)
  qed
  moreover have "{v. frame kend v \<and> v < PGROUNDUP kend} = {}"
    using no_frame_below assms(2) by auto
  ultimately show ?thesis
    unfolding kinit_def
    using assms le_PGROUNDUP(1) [OF assms(2)]
    by (intro kinit_loop_wf [where xs = "[]"]) auto
qed

section \<open>Runs of the allocator\<close>

text \<open>Everything that can happen to the pool after \<open>kinit\<close>, with the references \<open>h\<close> that its users hold: a
  page that was handed out is held once, its holders share it, write to it and give their references back.
  \<open>kfree\<close> may be called with any address; a call that panics ends the run.\<close>

inductive pool_run :: "u32 \<Rightarrow> kmem \<Rightarrow> (u32 \<Rightarrow> nat) \<Rightarrow> bool" for kend where
  boot: "0 < kend \<Longrightarrow> kend < PHYSTOP \<Longrightarrow> freelist s = 0 \<Longrightarrow> kinit kend s = Inr s' \<Longrightarrow> pool_run kend s' (\<lambda>_. 0)"
| alloc: "pool_run kend s h \<Longrightarrow> kalloc s = Inr (p, s') \<Longrightarrow> p \<noteq> 0 \<Longrightarrow> pool_run kend s' (h(p := Suc (h p)))"
| out_of_pages: "pool_run kend s h \<Longrightarrow> kalloc s = Inr (0, s') \<Longrightarrow> pool_run kend s' h"
| share: "pool_run kend s h \<Longrightarrow> 0 < h p \<Longrightarrow> Suc (h p) < 2 ^ 31 \<Longrightarrow> inc_ref_cnt p s = Inr s' \<Longrightarrow>
    pool_run kend s' (h(p := Suc (h p)))"
| unshare: "pool_run kend s h \<Longrightarrow> 1 < h p \<Longrightarrow> dec_ref_cnt p s = Inr s' \<Longrightarrow> pool_run kend s' (h(p := h p - 1))"
| free: "pool_run kend s h \<Longrightarrow> kfree kend p s = Inr s' \<Longrightarrow> pool_run kend s' (h(p := h p - 1))"
| use: "pool_run kend s h \<Longrightarrow> 0 < h p \<Longrightarrow> pool_run kend (s\<lparr>phys := (phys s)(p := f)\<rparr>) h"

definition pool_held :: "u32 \<Rightarrow> kmem \<Rightarrow> (u32 \<Rightarrow> nat) \<Rightarrow> bool" where
  "pool_held kend s h \<longleftrightarrow> wf_kmem kend s \<and>
     (\<forall>p. (frame kend p \<longrightarrow> frefs s p = h p) \<and> h p < 2 ^ 31 \<and> (0 < h p \<longrightarrow> frame kend p))"

lemma pool_heldD:
  assumes "pool_held kend s h"
  shows "wf_kmem kend s" "frame kend p \<Longrightarrow> frefs s p = h p" "h p < 2 ^ 31" "0 < h p \<Longrightarrow> frame kend p"
  using assms unfolding pool_held_def by blast+

lemma pool_held_step:
  assumes "pool_held kend s h" and "wf_kmem kend s'" and "frame kend p" and "frefs s' p = n" and "n < 2 ^ 31"
    and "\<forall>q. frame kend q \<longrightarrow> q \<noteq> p \<longrightarrow> frefs s' q = frefs s q"
  shows "pool_held kend s' (h(p := n))"
  using assms unfolding pool_held_def by (metis fun_upd_apply)

lemma kfree_accepts:
  assumes "kfree kend p s = Inr s'"
  shows "frame kend p" and "0 < frefs s p"
  using assms by (auto simp: kfree_def frame_def Let_def unat_gt_0 split: if_splits)

lemma pool_run_ok: "pool_run kend s h \<Longrightarrow> pool_held kend s h"
proof (induction rule: pool_run.induct)
  case (boot s s')
  then have "wf_kmem kend s'" "free_frames kend s' = {v. frame kend v}"
    using kinit_frees [of kend s] by auto
  moreover from this(2) have "frame kend p \<Longrightarrow> ref_cnt s' (pfn p) = 0" for p by (auto simp: free_frames_def)
  ultimately show ?case by (simp add: pool_held_def)
next
  case (alloc s h p s')
  from pool_heldD(1) [OF alloc.IH] alloc.hyps(2,3) have a: "frame kend p \<and> frefs s p = 0 \<and> frefs s' p = 1 \<and>
      wf_kmem kend s' \<and> (\<forall>q. frame kend q \<longrightarrow> q \<noteq> p \<longrightarrow> frefs s' q = frefs s q)"
    using ka.alloc_page by blast
  then show ?case using pool_heldD(2) [OF alloc.IH, of p] by (intro pool_held_step [OF alloc.IH]) auto
next
  case (out_of_pages s h s')
  then show ?case using ka.alloc_null [OF pool_heldD(1) [OF out_of_pages.IH]] by blast
next
  case (share s h p s')
  have f: "frame kend p" "frefs s p = h p" using pool_heldD [OF share.IH] share.hyps(2) by auto
  note i = inc_ref_cnt_ok [OF pool_heldD(1) [OF share.IH] f(1)]
  show ?case using i f share.hyps by (intro pool_held_step [OF share.IH]) (auto simp: frame_pfn_inj)
next
  case (unshare s h p s')
  have f: "frame kend p" "frefs s p = h p" "h p < 2 ^ 31" using pool_heldD [OF unshare.IH] unshare.hyps(2) by auto
  note i = dec_ref_cnt_ok [OF pool_heldD(1) [OF unshare.IH] f(1)]
  show ?case using i f unshare.hyps by (intro pool_held_step [OF unshare.IH]) (auto simp: frame_pfn_inj)
next
  case (free s h p s')
  note f = kfree_accepts [OF free.hyps(2)]
  have h: "frefs s p = h p" "h p < 2 ^ 31" using pool_heldD [OF free.IH] f(1) by auto
  have "frefs s p < 2 ^ 31" using h by simp
  from ka.release_ok [OF pool_heldD(1) [OF free.IH] f this] obtain t where
    "kfree kend p s = Inr t" "wf_kmem kend t" "frefs t p = frefs s p - 1"
    "\<forall>q. frame kend q \<longrightarrow> q \<noteq> p \<longrightarrow> frefs t q = frefs s q" by auto
  then show ?case using free.hyps(2) f h by (intro pool_held_step [OF free.IH]) auto
next
  case (use s h p f)
  have "p \<notin> free_frames kend s"
    using pool_heldD(2,4) [OF use.IH, of p] use.hyps(2) by (auto simp: free_frames_def)
  then have "wf_kmem kend (s\<lparr>phys := (phys s)(p := f)\<rparr>)"
    by (intro wf_kmem_write [OF pool_heldD(1) [OF use.IH]]) auto
  then show ?case using use.IH by (simp add: pool_held_def)
qed

lemma free_count_card:
  assumes "wf_kmem kend s"
  shows "getFreePagesCount s = int (card (free_frames kend s))"
proof -
  from assms obtain xs where xs: "distinct xs" "set xs = free_frames kend s"
      "unat (free_pages s) = length xs"
    by (rule wf_kmemE)
  have c: "card (free_frames kend s) = length xs"
    using distinct_card [OF xs(1)] xs(2) by simp
  have "card (free_frames kend s) \<le> card {v. frame kend v}"
    by (rule card_mono) (auto simp: free_frames_def)
  then have "unat (free_pages s) \<le> 4096" using card_frames [of kend] c xs(3) by simp
  then have "unat (free_pages s) < 2 ^ 31" by simp
  from sint_small [OF this] show ?thesis
    by (simp only: getFreePagesCount_def c xs(3))
qed

section \<open>Properties\<close>

text \<open>C1: after \<open>kinit\<close> on zeroed globals the free list is well formed and every frame
  between the end of the kernel and \<open>PHYSTOP\<close> is free, so the count is the number of frames.\<close>

theorem kinit_frees_every_frame:
  assumes "0 < kend" and "kend < PHYSTOP" and "freelist s = 0"
  shows "\<exists>s'. kinit kend s = Inr s' \<and> wf_kmem kend s' \<and>
    free_frames kend s' = {v. frame kend v}"
  by (rule kinit_frees [OF assms])

theorem kinit_frees_every_frame_witness:
  "\<exists>s'. kinit 0xFFC001 (four_frames\<lparr>freelist := 0\<rparr>) = Inr s' \<and> wf_kmem 0xFFC001 s' \<and>
    free_frames 0xFFC001 s' = {v. frame 0xFFC001 v}"
  by (rule kinit_frees_every_frame) (simp_all add: mmu_consts)

text \<open>C2: a page from \<open>kalloc\<close> was in no one's use; shared \<open>n\<close> times it survives \<open>n\<close> calls of
  \<open>kfree\<close> with its contents, the next \<open>kfree\<close> returns it to the pool, and one more panics.\<close>

theorem shared_page_life:
  assumes "wf_kmem kend s" and "kalloc s = Inr (p, s1)" and "p \<noteq> 0" and "Suc n < 2 ^ 31"
  shows "frame kend p \<and> p \<in> free_frames kend s \<and>
    (\<exists>s2 s3 s4 e. iterE n (inc_ref_cnt p) s1 = Inr s2 \<and> frefs s2 p = Suc n \<and>
     iterE n (kfree kend p) s2 = Inr s3 \<and> frefs s3 p = 1 \<and> phys s3 p = phys s1 p \<and>
     kfree kend p s3 = Inr s4 \<and> p \<in> free_frames kend s4 \<and> wf_kmem kend s4 \<and>
     kfree kend p s4 = Inl e)"
  using ka.alloc_page [OF assms(1-3)] ka.page_life [OF assms]
  by (fastforce simp: free_frames_def unat_eq_0)

theorem shared_page_life_witness:
  "frame 0xFFC000 0xFFC000 \<and> 0xFFC000 \<in> free_frames 0xFFC000 four_frames \<and>
    (\<exists>s1 s2 s3 s4 e. iterE 2 (inc_ref_cnt 0xFFC000) s1 = Inr s2 \<and> frefs s2 0xFFC000 = Suc 2 \<and>
     iterE 2 (kfree 0xFFC000 0xFFC000) s2 = Inr s3 \<and> frefs s3 0xFFC000 = 1 \<and>
     phys s3 0xFFC000 = phys s1 0xFFC000 \<and>
     kfree 0xFFC000 0xFFC000 s3 = Inr s4 \<and> 0xFFC000 \<in> free_frames 0xFFC000 s4 \<and>
     wf_kmem 0xFFC000 s4 \<and> kfree 0xFFC000 0xFFC000 s4 = Inl e)"
proof -
  have "freelist four_frames \<noteq> 0" by (simp add: four_frames_def)
  from kalloc_page(1) [OF four_frames_wf this]
  obtain s1 where a: "kalloc four_frames = Inr (0xFFC000, s1)" by (auto simp: four_frames_def)
  have "(0xFFC000 :: u32) \<noteq> 0" "Suc 2 < 2 ^ 31" by simp_all
  from shared_page_life [OF four_frames_wf a this] show ?thesis by blast
qed



end
