(* ===== verification/Vm.thy ===== *)
theory Vm
  imports Kalloc_Spec
begin

text \<open>
  Page tables and copy-on-write: \<open>P5_XV6_CoW_Fork/kernel/vm.c\<close>. A pointer to a page-table
  entry is the pair of the table's page and the word index, \<open>(pgtab, PTX va)\<close> for
  \<open>&pgtab[PTX(va)]\<close>; the null pointer is \<open>None\<close>. Loading \<open>%cr3\<close> only flushes the TLB and is
  not modelled. \<open>kdata\<close> is the linker symbol \<open>data\<close>, the end of the kernel's text.
\<close>

section \<open>Loops over pages\<close>

text \<open>
  The C loop \<open>for(a = lo; a < hi; a += PGSIZE) body\<close>, where the body either goes on (\<open>None\<close>)
  or leaves the function with a value (\<open>Some r\<close>). The address wraps at \<open>2 ^ 32\<close>, so the loop
  need not end for \<open>hi\<close> in the last page; the fuel is the number of pages up to \<open>hi\<close> plus one.
\<close>

fun page_loop :: "nat \<Rightarrow> u32 \<Rightarrow> u32 \<Rightarrow> (u32 \<Rightarrow> 's \<Rightarrow> ('r option \<times> 's) result) \<Rightarrow> 's \<Rightarrow>
    ('r option \<times> 's) result" where
  "page_loop 0 a hi f s = Inl NoFuel"
| "page_loop (Suc n) a hi f s =
     (if a < hi then
        bindE (f a s) (\<lambda>(r, s'). case r of None \<Rightarrow> page_loop n (a + PGSIZE) hi f s'
                                        | Some x \<Rightarrow> Inr (Some x, s'))
      else Inr (None, s))"

definition page_fuel :: "u32 \<Rightarrow> nat" where
  "page_fuel hi = unat hi div 4096 + 2"

section \<open>The page-table operations\<close>

definition walkpgdir :: "u32 \<Rightarrow> u32 \<Rightarrow> bool \<Rightarrow> kmem \<Rightarrow> ((u32 \<times> nat) option \<times> kmem) result" where
  "walkpgdir pgdir va create s =
     (let pde = phys s pgdir (PDX va) in
      if pde AND PTE_P \<noteq> 0 then Inr (Some (PTE_ADDR pde, PTX va), s)
      else if \<not> create then Inr (None, s)
      else bindE (kalloc s) (\<lambda>(pgtab, s1).
        if pgtab = 0 then Inr (None, s1)
        else Inr (Some (pgtab, PTX va),
               s1\<lparr>phys := store_word (fill_page (phys s1) pgtab 0) pgdir (PDX va)
                            (pgtab OR PTE_P OR PTE_W OR PTE_U)\<rparr>)))"

fun map_loop :: "nat \<Rightarrow> u32 \<Rightarrow> u32 \<Rightarrow> u32 \<Rightarrow> u32 \<Rightarrow> u32 \<Rightarrow> kmem \<Rightarrow> (int \<times> kmem) result" where
  "map_loop 0 pgdir a lst pa perm s = Inl NoFuel"
| "map_loop (Suc n) pgdir a lst pa perm s =
     bindE (walkpgdir pgdir a True s) (\<lambda>(pte, s1).
       case pte of
         None \<Rightarrow> Inr (-1, s1)
       | Some (pt, i) \<Rightarrow>
           if phys s1 pt i AND PTE_P \<noteq> 0 then Inl (Panic ''remap'')
           else
             let s2 = s1\<lparr>phys := store_word (phys s1) pt i (pa OR perm OR PTE_P)\<rparr>
             in if a = lst then Inr (0, s2)
                else map_loop n pgdir (a + PGSIZE) lst (pa + PGSIZE) perm s2)"

definition mappages :: "u32 \<Rightarrow> u32 \<Rightarrow> u32 \<Rightarrow> u32 \<Rightarrow> u32 \<Rightarrow> kmem \<Rightarrow> (int \<times> kmem) result" where
  "mappages pgdir la sz pa perm s =
     (let a = PGROUNDDOWN la; lst = PGROUNDDOWN (la + sz - 1)
      in map_loop (unat (lst - a) div 4096 + 1) pgdir a lst pa perm s)"

definition kmap :: "u32 \<Rightarrow> (u32 \<times> u32 \<times> u32) list" where
  "kmap kdata = [(USERTOP, 0x100000, PTE_W), (0x100000, kdata, 0),
                 (kdata, PHYSTOP, PTE_W), (0xFE000000, 0, PTE_W)]"

fun map_all :: "u32 \<Rightarrow> (u32 \<times> u32 \<times> u32) list \<Rightarrow> kmem \<Rightarrow> (u32 \<times> kmem) result" where
  "map_all pgdir [] s = Inr (pgdir, s)"
| "map_all pgdir ((p, e, perm) # ks) s =
     bindE (mappages pgdir p (e - p) p perm s) (\<lambda>(r, s1).
       if r < 0 then Inr (0, s1) else map_all pgdir ks s1)"

definition setupkvm :: "u32 \<Rightarrow> kmem \<Rightarrow> (u32 \<times> kmem) result" where
  "setupkvm kdata s =
     bindE (kalloc s) (\<lambda>(pgdir, s1).
       if pgdir = 0 then Inr (0, s1)
       else map_all pgdir (kmap kdata) (s1\<lparr>phys := fill_page (phys s1) pgdir 0\<rparr>))"

definition dealloc_body :: "u32 \<Rightarrow> u32 \<Rightarrow> u32 \<Rightarrow> kmem \<Rightarrow> (unit option \<times> kmem) result" where
  "dealloc_body kend pgdir a s =
     bindE (walkpgdir pgdir a False s) (\<lambda>(pte, s1).
       case pte of
         None \<Rightarrow> Inr (None, s1)
       | Some (pt, i) \<Rightarrow>
           if phys s1 pt i AND PTE_P \<noteq> 0 then
             let pa = PTE_ADDR (phys s1 pt i) in
             if pa = 0 then Inl (Panic ''kfree'')
             else bindE (kfree kend pa s1) (\<lambda>s2.
                    Inr (None, s2\<lparr>phys := store_word (phys s2) pt i 0\<rparr>))
           else Inr (None, s1))"

definition deallocuvm :: "u32 \<Rightarrow> u32 \<Rightarrow> u32 \<Rightarrow> u32 \<Rightarrow> kmem \<Rightarrow> (u32 \<times> kmem) result" where
  "deallocuvm kend pgdir oldsz newsz s =
     (if newsz \<ge> oldsz then Inr (oldsz, s)
      else bindE (page_loop (page_fuel oldsz) (PGROUNDUP newsz) oldsz (dealloc_body kend pgdir) s)
             (\<lambda>(_, s'). Inr (newsz, s')))"

definition alloc_body :: "u32 \<Rightarrow> u32 \<Rightarrow> u32 \<Rightarrow> u32 \<Rightarrow> u32 \<Rightarrow> kmem \<Rightarrow>
    (u32 option \<times> kmem) result" where
  "alloc_body kend pgdir oldsz newsz a s =
     bindE (kalloc s) (\<lambda>(mem, s1).
       if mem = 0 then
         bindE (deallocuvm kend pgdir newsz oldsz s1) (\<lambda>(_, s2). Inr (Some 0, s2))
       else
         bindE (mappages pgdir a PGSIZE mem (PTE_W OR PTE_U)
                  (s1\<lparr>phys := fill_page (phys s1) mem 0\<rparr>))
           (\<lambda>(_, s2). Inr (None, s2)))"

definition allocuvm :: "u32 \<Rightarrow> u32 \<Rightarrow> u32 \<Rightarrow> u32 \<Rightarrow> kmem \<Rightarrow> (u32 \<times> kmem) result" where
  "allocuvm kend pgdir oldsz newsz s =
     (if newsz > USERTOP then Inr (0, s)
      else if newsz < oldsz then Inr (oldsz, s)
      else bindE (page_loop (page_fuel newsz) (PGROUNDUP oldsz) newsz
                   (alloc_body kend pgdir oldsz newsz) s)
             (\<lambda>(r, s'). Inr (case r of None \<Rightarrow> newsz | Some x \<Rightarrow> x, s')))"

fun free_tables :: "u32 \<Rightarrow> u32 \<Rightarrow> nat list \<Rightarrow> kmem \<Rightarrow> kmem result" where
  "free_tables kend pgdir [] s = Inr s"
| "free_tables kend pgdir (i # is) s =
     (if phys s pgdir i AND PTE_P \<noteq> 0
      then bindE (kfree kend (PTE_ADDR (phys s pgdir i)) s) (free_tables kend pgdir is)
      else free_tables kend pgdir is s)"

definition freevm :: "u32 \<Rightarrow> u32 \<Rightarrow> kmem \<Rightarrow> kmem result" where
  "freevm kend pgdir s =
     (if pgdir = 0 then Inl (Panic ''freevm: no pgdir'')
      else bindE (deallocuvm kend pgdir USERTOP 0 s) (\<lambda>(_, s1).
           bindE (free_tables kend pgdir [0..<1024] s1) (\<lambda>s2.
           kfree kend pgdir s2)))"

definition inituvm :: "u32 \<Rightarrow> (nat \<Rightarrow> u32) \<Rightarrow> u32 \<Rightarrow> kmem \<Rightarrow> kmem result" where
  \<comment> \<open>\<open>init\<close> is the image of \<open>initcode\<close> as words, zero past its \<open>sz\<close> bytes\<close>
  "inituvm pgdir init sz s =
     (if sz \<ge> PGSIZE then Inl (Panic ''inituvm: more than a page'')
      else bindE (kalloc s) (\<lambda>(mem, s1).
           bindE (mappages pgdir 0 PGSIZE mem (PTE_W OR PTE_U)
                    (s1\<lparr>phys := fill_page (phys s1) mem 0\<rparr>)) (\<lambda>(_, s2).
           Inr (s2\<lparr>phys := (phys s2)(mem := init)\<rparr>))))"

section \<open>Copy on write\<close>

definition copy_page :: "(u32 \<Rightarrow> nat \<Rightarrow> u32) \<Rightarrow> u32 \<Rightarrow> u32 \<Rightarrow> (u32 \<Rightarrow> nat \<Rightarrow> u32)" where
  \<comment> \<open>\<open>memmove(dst, src, PGSIZE)\<close> between whole pages\<close>
  "copy_page m dst src = m(dst := m src)"

definition copy_body :: "u32 \<Rightarrow> u32 \<Rightarrow> u32 \<Rightarrow> kmem \<Rightarrow> (unit option \<times> kmem) result" where
  "copy_body pgdir d i s =
     bindE (walkpgdir pgdir i False s) (\<lambda>(pte, s1).
       case pte of
         None \<Rightarrow> Inl (Panic ''copyuvm: pte should exist'')
       | Some (pt, k) \<Rightarrow>
           if phys s1 pt k AND PTE_P = 0 then Inl (Panic ''copyuvm: page not present'')
           else
             let pa = PTE_ADDR (phys s1 pt k); flags = PTE_FLAGS (phys s1 pt k)
             in bindE (kalloc s1) (\<lambda>(mem, s2).
                  if mem = 0 then Inr (Some (), s2)
                  else bindE (mappages d i PGSIZE mem flags
                                (s2\<lparr>phys := copy_page (phys s2) mem pa\<rparr>)) (\<lambda>(r, s3).
                         Inr (if r < 0 then Some () else None, s3))))"

definition copyuvm :: "u32 \<Rightarrow> u32 \<Rightarrow> u32 \<Rightarrow> u32 \<Rightarrow> kmem \<Rightarrow> (u32 \<times> kmem) result" where
  "copyuvm kend kdata pgdir sz s =
     bindE (setupkvm kdata s) (\<lambda>(d, s1).
       if d = 0 then Inr (0, s1)
       else bindE (page_loop (page_fuel sz) 0 sz (copy_body pgdir d) s1) (\<lambda>(r, s2).
              case r of None \<Rightarrow> Inr (d, s2)
                      | Some _ \<Rightarrow> bindE (freevm kend d s2) (\<lambda>s3. Inr (0, s3))))"

definition cow_body :: "u32 \<Rightarrow> u32 \<Rightarrow> u32 \<Rightarrow> kmem \<Rightarrow> (unit option \<times> kmem) result" where
  "cow_body pgdir d i s =
     bindE (walkpgdir pgdir i False s) (\<lambda>(pte, s1).
       case pte of
         None \<Rightarrow> Inl (Panic ''cowuvm: pte should exist'')
       | Some (pt, k) \<Rightarrow>
           if phys s1 pt k AND PTE_P = 0 then Inl (Panic ''cowuvm: page not present'')
           else
             let e = phys s1 pt k AND NOT PTE_W;
                 s2 = s1\<lparr>phys := store_word (phys s1) pt k e\<rparr>
             in bindE (mappages d i PGSIZE (PTE_ADDR e) (PTE_FLAGS e) s2) (\<lambda>(r, s3).
                  if r < 0 then Inr (Some (), s3)
                  else bindE (inc_ref_cnt (PTE_ADDR (phys s3 pt k)) s3) (\<lambda>s4. Inr (None, s4))))"

definition cowuvm :: "u32 \<Rightarrow> u32 \<Rightarrow> u32 \<Rightarrow> u32 \<Rightarrow> kmem \<Rightarrow> (u32 \<times> kmem) result" where
  "cowuvm kend kdata pgdir sz s =
     bindE (setupkvm kdata s) (\<lambda>(d, s1).
       if d = 0 then Inr (0, s1)
       else bindE (page_loop (page_fuel sz) 0 sz (cow_body pgdir d) s1) (\<lambda>(r, s2).
              case r of None \<Rightarrow> Inr (d, s2)
                      | Some _ \<Rightarrow> bindE (freevm kend d s2) (\<lambda>s3. Inr (0, s3))))"

text \<open>The page-fault handler; \<open>va\<close> is \<open>rcr2()\<close>, \<open>pgdir\<close> is \<open>proc->pgdir\<close>. The result of \<open>kalloc\<close> is used as it comes: when
  it is 0 the copy goes to the virtual address 0, the first page of the process. The write protection of the
  page does not matter, the kernel runs with \<open>CR0_WP\<close> clear; when the page is not present the copy faults, and the
  handler of that fault panics without a table and otherwise returns to the same fault for ever.\<close>

definition copy_to_null :: "u32 \<Rightarrow> u32 \<Rightarrow> kmem \<Rightarrow> kmem result" where
  "copy_to_null pgdir pa s =
     bindE (walkpgdir pgdir 0 False s) (\<lambda>(pte, s1).
       case pte of
         None \<Rightarrow> Inl (Panic ''CoW: Invalid virtual address'')
       | Some (pt, i) \<Rightarrow>
           if phys s1 pt i AND PTE_P = 0 then Inl NoFuel
           else Inr (s1\<lparr>phys := copy_page (phys s1) (PTE_ADDR (phys s1 pt i)) pa\<rparr>))"

definition pgfltintr :: "u32 \<Rightarrow> u32 \<Rightarrow> kmem \<Rightarrow> kmem result" where
  "pgfltintr va pgdir s =
     bindE (walkpgdir pgdir va False s) (\<lambda>(pte, s1).
       case pte of
         None \<Rightarrow> Inl (Panic ''CoW: Invalid virtual address'')
       | Some (pt, i) \<Rightarrow>
           let flags = PTE_FLAGS (phys s1 pt i); pa = PTE_ADDR (phys s1 pt i)
           in if flags AND PTE_W = 0 \<and> flags AND PTE_P \<noteq> 0 then
                bindE (get_ref_cnt pa s1) (\<lambda>rc.
                  if rc > 1 then
                    bindE (kalloc s1) (\<lambda>(mem, s2).
                    bindE (if mem = 0 then copy_to_null pgdir pa s2
                           else Inr (s2\<lparr>phys := copy_page (phys s2) mem pa\<rparr>)) (\<lambda>s3.
                    bindE (dec_ref_cnt pa s3) (\<lambda>s4.
                    Inr (s4\<lparr>phys := store_word (phys s4) pt i (PTE_ADDR mem OR flags OR PTE_W)\<rparr>))))
                  else Inr (s1\<lparr>phys := store_word (phys s1) pt i (phys s1 pt i OR PTE_W)\<rparr>))
              else Inr s1)"

section \<open>Access to user memory from the kernel\<close>

definition uva2ka :: "u32 \<Rightarrow> u32 \<Rightarrow> kmem \<Rightarrow> u32 result" where
  "uva2ka pgdir uva s =
     bindE (walkpgdir pgdir uva False s) (\<lambda>(pte, s1).
       case pte of
         None \<Rightarrow> Inl (OutOfBounds ''null pte'')
       | Some (pt, i) \<Rightarrow>
           if phys s1 pt i AND PTE_P = 0 then Inr 0
           else if phys s1 pt i AND PTE_U = 0 then Inr 0
           else Inr (PTE_ADDR (phys s1 pt i)))"

text \<open>Bytes of a page: byte \<open>off\<close> is lane \<open>off mod 4\<close> of word \<open>off div 4\<close> (little endian).\<close>

definition load_byte :: "(u32 \<Rightarrow> nat \<Rightarrow> u32) \<Rightarrow> u32 \<Rightarrow> nat \<Rightarrow> u8" where
  "load_byte m p off = ucast (drop_bit (8 * (off mod 4)) (m p (off div 4)))"

definition store_byte :: "(u32 \<Rightarrow> nat \<Rightarrow> u32) \<Rightarrow> u32 \<Rightarrow> nat \<Rightarrow> u8 \<Rightarrow> (u32 \<Rightarrow> nat \<Rightarrow> u32)" where
  "store_byte m p off b =
     store_word m p (off div 4)
       ((m p (off div 4) AND NOT (push_bit (8 * (off mod 4)) 0xFF))
        OR push_bit (8 * (off mod 4)) (ucast b))"

fun store_bytes :: "(u32 \<Rightarrow> nat \<Rightarrow> u32) \<Rightarrow> u32 \<Rightarrow> nat \<Rightarrow> u8 list \<Rightarrow> (u32 \<Rightarrow> nat \<Rightarrow> u32)" where
  "store_bytes m p off [] = m"
| "store_bytes m p off (b # bs) = store_bytes (store_byte m p off b) p (Suc off) bs"

text \<open>\<open>copyout\<close> takes the buffer \<open>p\<close> of \<open>len\<close> bytes as a list; each round copies up to the end of
  a page, hence at least one byte, so \<open>length buf\<close> rounds are enough.\<close>

fun copyout_loop :: "nat \<Rightarrow> u32 \<Rightarrow> u32 \<Rightarrow> u8 list \<Rightarrow> kmem \<Rightarrow> (int \<times> kmem) result" where
  "copyout_loop fuel pgdir va [] s = Inr (0, s)"
| "copyout_loop 0 pgdir va (b # bs) s = Inl NoFuel"
| "copyout_loop (Suc fuel) pgdir va (b # bs) s =
     (let buf = b # bs; va0 = PGROUNDDOWN va in
      bindE (uva2ka pgdir va0 s) (\<lambda>pa0.
        if pa0 = 0 then Inr (-1, s)
        else
          let off = unat (va - va0); n = min (4096 - off) (length buf)
          in copyout_loop fuel pgdir (va0 + PGSIZE) (drop n buf)
               (s\<lparr>phys := store_bytes (phys s) pa0 off (take n buf)\<rparr>)))"

definition copyout :: "u32 \<Rightarrow> u32 \<Rightarrow> u8 list \<Rightarrow> kmem \<Rightarrow> (int \<times> kmem) result" where
  "copyout pgdir va buf s = copyout_loop (length buf) pgdir va buf s"

end
