(* ===== verification/Vm_Entries.thy ===== *)
theory Vm_Entries
  imports Vm
begin

text \<open>
  Page-table entries as words, and the abstract view of a page table: \<open>entry m pgdir va\<close> is the
  entry that the MMU finds for \<open>va\<close> (0 where the directory has no table), whatever the layout of
  the tables. The lemmas say how walking, storing through the returned pointer and writing other
  pages change that view.
\<close>

section \<open>Entries as words\<close>

lemma take_bit_unat [simp]: "take_bit 32 (unat (v :: u32)) = unat v"
  by (rule take_bit_nat_eq_self) (use unsigned_less [of v] in simp)

lemma PTX_nat: "PTX v = unat v div 4096 mod 1024"
proof -
  have m: "(0x3FF :: u32) = mask 10" by (simp add: mask_eq_exp_minus_1)
  have "PTX v = unat (take_bit 10 (drop_bit 12 v))"
    unfolding PTX_def m take_bit_eq_mask ..
  also have "\<dots> = take_bit 10 (drop_bit 12 (unat v))"
    by (simp only: unsigned_take_bit_eq unsigned_drop_bit_eq) simp
  finally show ?thesis by (simp add: drop_bit_eq_div take_bit_eq_mod)
qed

lemma PDX_nat: "PDX v = unat v div 4194304"
proof -
  have m: "(0x3FF :: u32) = mask 10" by (simp add: mask_eq_exp_minus_1)
  have "PDX v = unat (take_bit 10 (drop_bit 22 v))"
    unfolding PDX_def m take_bit_eq_mask ..
  also have "\<dots> = take_bit 10 (drop_bit 22 (unat v))"
    by (simp only: unsigned_take_bit_eq unsigned_drop_bit_eq) simp
  finally have e: "PDX v = unat v div 4194304 mod 1024" by (simp add: drop_bit_eq_div take_bit_eq_mod)
  have "unat v < 4294967296" using unsigned_less [of v] by simp
  then show ?thesis unfolding e by simp
qed

lemma PDX_bound [simp]: "PDX v < 1024"
proof -
  have "unat v < 4294967296" using unsigned_less [of v] by simp
  then show ?thesis unfolding PDX_nat by simp
qed

lemma PTX_bound [simp]: "PTX v < 1024"
  by (simp add: PTX_nat)

lemma same_page: "PDX u = PDX v \<and> PTX u = PTX v \<longleftrightarrow> PTE_ADDR u = PTE_ADDR v"
proof -
  have d: "unat w div 4096 = 1024 * PDX w + PTX w" for w
  proof -
    have "unat w div 4096 div 1024 = unat w div 4194304" by (simp add: div_mult2_eq [symmetric])
    then show ?thesis unfolding PDX_nat PTX_nat by (metis mult_div_mod_eq)
  qed
  have "PTE_ADDR u = PTE_ADDR v \<longleftrightarrow> unat u div 4096 = unat v div 4096"
    unfolding word_unat_eq_iff unat_PTE_ADDR by simp
  also have "\<dots> \<longleftrightarrow> PDX u = PDX v \<and> PTX u = PTX v"
  proof
    assume e: "unat u div 4096 = unat v div 4096"
    have "PDX u = (1024 * PDX u + PTX u) div 1024" "PDX v = (1024 * PDX v + PTX v) div 1024"
      by simp_all
    with e show "PDX u = PDX v \<and> PTX u = PTX v" unfolding d by auto
  qed (simp add: d)
  finally show ?thesis by blast
qed

lemma PTE_ADDR_or: "PTE_ADDR (a OR b) = PTE_ADDR a OR PTE_ADDR b"
  by (simp add: PTE_ADDR_def word_ao_dist)

lemma PTE_ADDR_flags [simp]:
  "PTE_ADDR PTE_P = 0" "PTE_ADDR PTE_W = 0" "PTE_ADDR PTE_U = 0" "PTE_ADDR (PTE_FLAGS e) = 0"
  "PTE_ADDR 0 = 0"
  by (simp_all add: PTE_ADDR_def mmu_consts PTE_FLAGS_def and.assoc)

lemma PTE_ADDR_idem [simp]: "PTE_ADDR (PTE_ADDR e) = PTE_ADDR e"
  by simp

lemma PTE_ADDR_clear_W [simp]: "PTE_ADDR (e AND NOT PTE_W) = PTE_ADDR e"
  by (simp add: PTE_ADDR_def PTE_W_def and.assoc)

lemma PTE_split_or: "PTE_ADDR e OR PTE_FLAGS e = e"
  by (simp add: PTE_ADDR_def PTE_FLAGS_def bit_eq_iff bit_simps) blast

lemma PTE_P_or [simp]: "(a OR PTE_P) AND PTE_P = PTE_P"
  by (simp add: word_bw_comms word_ao_absorbs)

lemma PTE_P_nonzero [simp]: "PTE_P \<noteq> 0"
  by (simp add: PTE_P_def)

lemma PTE_FLAGS_P [simp]: "PTE_FLAGS e AND PTE_P = e AND PTE_P"
  by (simp add: PTE_FLAGS_def PTE_P_def word_bw_assocs)

lemma PTE_FLAGS_W [simp]: "PTE_FLAGS e AND PTE_W = e AND PTE_W"
  by (simp add: PTE_FLAGS_def PTE_W_def word_bw_assocs)

lemma clear_W_P [simp]: "(e AND NOT PTE_W) AND PTE_P = e AND PTE_P"
  by (simp add: PTE_W_def PTE_P_def word_bw_assocs)

lemma clear_W_W [simp]: "(e AND NOT PTE_W) AND PTE_W = 0"
  by (simp add: word_bw_assocs)

lemma bit0_P: "e AND PTE_P \<noteq> 0 \<longleftrightarrow> bit e 0"
  using bit_iff_and_push_bit_not_eq_0 [of e 0] by (simp add: PTE_P_def)

lemma or_P_present: "e AND PTE_P \<noteq> 0 \<Longrightarrow> e OR PTE_P = e"
  unfolding bit0_P by (intro bit_eqI) (auto simp: PTE_P_def bit_or_iff bit_1_iff)

section \<open>The abstract view of a page table\<close>

definition entry :: "(u32 \<Rightarrow> nat \<Rightarrow> u32) \<Rightarrow> u32 \<Rightarrow> u32 \<Rightarrow> u32" where
  "entry m pgdir va =
     (if m pgdir (PDX va) AND PTE_P \<noteq> 0 then m (PTE_ADDR (m pgdir (PDX va))) (PTX va) else 0)"

definition tables :: "(u32 \<Rightarrow> nat \<Rightarrow> u32) \<Rightarrow> u32 \<Rightarrow> u32 set" where
  "tables m pgdir = insert pgdir (PTE_ADDR ` m pgdir ` {i. i < 1024 \<and> m pgdir i AND PTE_P \<noteq> 0})"

definition in_use :: "u32 \<Rightarrow> kmem \<Rightarrow> u32 \<Rightarrow> bool" where
  "in_use kend s v \<longleftrightarrow> frame kend v \<and> ref_cnt s (pfn v) \<noteq> 0"

text \<open>A well-formed page table: its directory and tables are pages in use, and no two of its
  directory slots lead to the same table, nor any to the directory.\<close>

definition wf_pgdir :: "u32 \<Rightarrow> kmem \<Rightarrow> u32 \<Rightarrow> bool" where
  "wf_pgdir kend s pgdir \<longleftrightarrow>
     (\<forall>t \<in> tables (phys s) pgdir. in_use kend s t) \<and>
     (\<forall>i < 1024. phys s pgdir i AND PTE_P \<noteq> 0 \<longrightarrow> PTE_ADDR (phys s pgdir i) \<noteq> pgdir) \<and>
     (\<forall>i < 1024. \<forall>j < 1024. phys s pgdir i AND PTE_P \<noteq> 0 \<longrightarrow> phys s pgdir j AND PTE_P \<noteq> 0 \<longrightarrow>
        PTE_ADDR (phys s pgdir i) = PTE_ADDR (phys s pgdir j) \<longrightarrow> i = j)"

lemma pgdir_in_tables [simp]: "pgdir \<in> tables m pgdir"
  by (simp add: tables_def)

lemma table_in_tables [intro]:
  "i < 1024 \<Longrightarrow> m pgdir i AND PTE_P \<noteq> 0 \<Longrightarrow> PTE_ADDR (m pgdir i) \<in> tables m pgdir"
  by (auto simp: tables_def)

lemma wf_pgdir_in_use: "wf_pgdir kend s pgdir \<Longrightarrow> t \<in> tables (phys s) pgdir \<Longrightarrow> in_use kend s t"
  by (simp add: wf_pgdir_def)

lemma wf_pgdir_neq:
  "wf_pgdir kend s pgdir \<Longrightarrow> i < 1024 \<Longrightarrow> phys s pgdir i AND PTE_P \<noteq> 0 \<Longrightarrow>
    PTE_ADDR (phys s pgdir i) \<noteq> pgdir"
  by (simp add: wf_pgdir_def)

lemma in_use_frame [simp]: "in_use kend s v \<Longrightarrow> frame kend v"
  by (simp add: in_use_def)

lemma in_use_pfn [simp]: "in_use kend s v \<Longrightarrow> pfn v < NFRAMES"
  using in_use_frame frame_pfn by blast

lemma in_use_refs: "in_use kend s v \<Longrightarrow> 0 < frefs s v"
  by (simp add: in_use_def unat_gt_0)

lemma in_use_not_free: "in_use kend s v \<Longrightarrow> v \<notin> free_frames kend s"
  by (simp add: in_use_def free_frames_def)

text \<open>The view depends on the pages of the table only.\<close>

lemma entry_cong:
  assumes "\<And>t. t \<in> tables m pgdir \<Longrightarrow> m' t = m t"
  shows "entry m' pgdir = entry m pgdir" and "tables m' pgdir = tables m pgdir"
proof -
  have p: "m' pgdir = m pgdir" by (rule assms) simp
  show "entry m' pgdir = entry m pgdir"
  proof
    fix va
    show "entry m' pgdir va = entry m pgdir va"
      using p assms [OF table_in_tables [of "PDX va" m pgdir]] by (simp add: entry_def)
  qed
  show "tables m' pgdir = tables m pgdir" by (simp add: tables_def p)
qed

lemma wf_pgdir_cong:
  assumes "wf_pgdir kend s pgdir" and "\<And>t. t \<in> tables (phys s) pgdir \<Longrightarrow> phys s' t = phys s t"
    and "\<And>t. t \<in> tables (phys s) pgdir \<Longrightarrow> in_use kend s' t"
  shows "wf_pgdir kend s' pgdir"
proof -
  have p: "phys s' pgdir = phys s pgdir" by (rule assms(2)) simp
  have t: "tables (phys s') pgdir = tables (phys s) pgdir" by (rule entry_cong(2)) (rule assms(2))
  show ?thesis using assms(1,3) unfolding wf_pgdir_def t p by blast
qed

text \<open>Storing through the pointer to the entry of \<open>va\<close> changes the entries of that page only.\<close>

lemma entry_store:
  assumes wf: "wf_pgdir kend s pgdir" and pr: "phys s pgdir (PDX va) AND PTE_P \<noteq> 0"
  defines "pt \<equiv> PTE_ADDR (phys s pgdir (PDX va))"
  shows "entry (store_word (phys s) pt (PTX va) e) pgdir u =
      (if PTE_ADDR u = PTE_ADDR va then e else entry (phys s) pgdir u)"
    and "tables (store_word (phys s) pt (PTX va) e) pgdir = tables (phys s) pgdir"
    and "wf_pgdir kend (s\<lparr>phys := store_word (phys s) pt (PTX va) e\<rparr>) pgdir"
proof -
  let ?m = "store_word (phys s) pt (PTX va) e"
  have ne: "pt \<noteq> pgdir" unfolding pt_def by (rule wf_pgdir_neq [OF wf _ pr]) simp
  then have p: "?m pgdir = phys s pgdir" by (simp add: store_word_def)
  show "entry ?m pgdir u = (if PTE_ADDR u = PTE_ADDR va then e else entry (phys s) pgdir u)"
  proof (cases "phys s pgdir (PDX u) AND PTE_P \<noteq> 0 \<and> PTE_ADDR (phys s pgdir (PDX u)) = pt")
    case True
    then have "PDX u = PDX va"
      using wf pr unfolding wf_pgdir_def pt_def by auto
    then show ?thesis
      using True pr ne same_page [of u va] by (auto simp: entry_def p store_word_def pt_def)
  next
    case False
    then have "PTE_ADDR u \<noteq> PTE_ADDR va"
      using same_page [of u va] pr by (auto simp: pt_def)
    then show ?thesis using False ne by (auto simp: entry_def p)
  qed
  show t: "tables ?m pgdir = tables (phys s) pgdir" by (simp add: tables_def p)
  show "wf_pgdir kend (s\<lparr>phys := ?m\<rparr>) pgdir"
    using wf unfolding wf_pgdir_def by (simp add: t p in_use_def)
qed

text \<open>Writes to other pages leave the view alone.\<close>

lemma entry_other_page:
  assumes "q \<notin> tables m pgdir"
  shows "entry (m(q := f)) pgdir = entry m pgdir" and "tables (m(q := f)) pgdir = tables m pgdir"
  using assms by (auto intro!: entry_cong)

lemma entry_store_other:
  assumes "q \<notin> tables m pgdir"
  shows "entry (store_word m q i w) pgdir = entry m pgdir"
    and "tables (store_word m q i w) pgdir = tables m pgdir"
  using entry_other_page [OF assms] by (simp_all add: store_word_def)

section \<open>Walking\<close>

lemma walk_present:
  assumes "phys s pgdir (PDX va) AND PTE_P \<noteq> 0"
  shows "walkpgdir pgdir va create s = Inr (Some (PTE_ADDR (phys s pgdir (PDX va)), PTX va), s)"
  using assms by (simp add: walkpgdir_def)

lemma walk_absent:
  assumes "phys s pgdir (PDX va) AND PTE_P = 0"
  shows "walkpgdir pgdir va False s = Inr (None, s)"
  using assms by (simp add: walkpgdir_def)

lemma entry_present:
  "entry m pgdir va AND PTE_P \<noteq> 0 \<Longrightarrow> m pgdir (PDX va) AND PTE_P \<noteq> 0"
  by (auto simp: entry_def split: if_splits)

lemma entry_at:
  "m pgdir (PDX va) AND PTE_P \<noteq> 0 \<Longrightarrow> m (PTE_ADDR (m pgdir (PDX va))) (PTX va) = entry m pgdir va"
  by (simp add: entry_def)

end
