(* ===== verification/Cow.thy ===== *)
theory Cow
  imports Vm_Entries
begin

text \<open>
  Copy-on-write: what the page-fault handler \<open>pgfltintr\<close> does to the memory that the processes
  see, and what \<open>cowuvm\<close> shares between parent and child.
\<close>

section \<open>The page-fault handler\<close>

text \<open>Copying into a fresh page and then storing the entry of \<open>va\<close>.\<close>

lemma entry_copy_data:
  assumes wp: "wf_pgdir kend s pgdir" and mt: "mem \<notin> tables (phys s) pgdir"
    and pd: "phys s pgdir (PDX va) AND PTE_P \<noteq> 0"
  shows "entry (store_word (copy_page (phys s) mem src) (PTE_ADDR (phys s pgdir (PDX va))) (PTX va) x)
      pgdir u = (if PTE_ADDR u = PTE_ADDR va then x else entry (phys s) pgdir u)"
proof -
  let ?m = "copy_page (phys s) mem src"
  have w: "wf_pgdir kend (s\<lparr>phys := ?m\<rparr>) pgdir"
    by (rule wf_pgdir_cong [OF wp])
      (use mt wf_pgdir_in_use [OF wp] in \<open>auto simp: copy_page_def in_use_def\<close>)
  have pg: "?m pgdir = phys s pgdir" using mt by (auto simp: copy_page_def)
  have ents: "entry ?m pgdir = entry (phys s) pgdir"
    unfolding copy_page_def by (rule entry_other_page [OF mt])
  show ?thesis
    using entry_store(1) [OF w, of va x u] pd by (simp add: pg ents)
qed

lemma entry_copy_store:
  assumes wp: "wf_pgdir kend s pgdir" and fresh: "\<And>q. in_use kend s q \<Longrightarrow> q \<noteq> mem"
    and pd: "phys s pgdir (PDX va) AND PTE_P \<noteq> 0"
  shows "entry (store_word (copy_page (phys s) mem src) (PTE_ADDR (phys s pgdir (PDX va))) (PTX va) x)
      pgdir u = (if PTE_ADDR u = PTE_ADDR va then x else entry (phys s) pgdir u)"
proof -
  have "mem \<notin> tables (phys s) pgdir" using wf_pgdir_in_use [OF wp] fresh by blast
  from entry_copy_data [OF wp this pd] show ?thesis .
qed

text \<open>A copy-on-write page of a table: present, not writable, its frame in use and not itself a
  page of the table.\<close>

definition cow_page :: "u32 \<Rightarrow> kmem \<Rightarrow> u32 \<Rightarrow> u32 \<Rightarrow> bool" where
  "cow_page kend s pgdir va \<longleftrightarrow>
     (let e = entry (phys s) pgdir va in
      e AND PTE_P \<noteq> 0 \<and> e AND PTE_W = 0 \<and> in_use kend s (PTE_ADDR e) \<and>
      PTE_ADDR e \<notin> tables (phys s) pgdir \<and> frefs s (PTE_ADDR e) < 2 ^ 31)"

lemma pgflt_shared:
  assumes wf: "wf_kmem kend s" and wp: "wf_pgdir kend s pgdir" and c: "cow_page kend s pgdir va"
    and sh: "1 < frefs s (PTE_ADDR (entry (phys s) pgdir va))"
    and al: "kalloc s = Inr (mem, s1)" "mem \<noteq> 0"
  defines "e \<equiv> entry (phys s) pgdir va"
  defines "pa \<equiv> PTE_ADDR e" and "pt \<equiv> PTE_ADDR (phys s pgdir (PDX va))"
  defines "s' \<equiv> s1\<lparr>ref_cnt := (ref_cnt s1)(pfn pa := ref_cnt s1 (pfn pa) - 1),
      phys := store_word (copy_page (phys s) mem pa) pt (PTX va) (mem OR PTE_FLAGS e OR PTE_W)\<rparr>"
  shows "pgfltintr va pgdir s = Inr s'"
proof -
  have pr: "e AND PTE_P \<noteq> 0" and nw: "e AND PTE_W = 0" and iu: "in_use kend s pa"
    and nt: "pa \<notin> tables (phys s) pgdir" and lim: "frefs s pa < 2 ^ 31"
    using c by (simp_all add: cow_page_def Let_def e_def pa_def)
  have pd: "phys s pgdir (PDX va) AND PTE_P \<noteq> 0" using pr by (simp add: e_def entry_present)
  have at: "phys s pt (PTX va) = e" using entry_at [of "phys s", OF pd] by (simp add: pt_def e_def)
  note f = ka.alloc_page [OF wf al]
  have ph: "phys s1 = phys s" using f by blast
  have g: "get_ref_cnt pa s = Inr (int (frefs s pa))"
    using iu sint_small [OF lim] by (simp add: get_ref_cnt_def)
  have mem: "PTE_ADDR mem = mem" using f by auto
  have "dec_ref_cnt pa (s1\<lparr>phys := copy_page (phys s1) mem pa\<rparr>) =
      Inr (s1\<lparr>phys := copy_page (phys s1) mem pa,
              ref_cnt := (ref_cnt s1)(pfn pa := ref_cnt s1 (pfn pa) - 1)\<rparr>)"
    using iu by (simp add: dec_ref_cnt_def)
  then show ?thesis
    using sh pr nw al g
    by (simp add: pgfltintr_def walk_present [OF pd] at [unfolded pt_def] pt_def
        pa_def [symmetric] e_def [symmetric] s'_def ph mem Let_def del: of_nat_unat)
qed

lemma pgflt_sole:
  assumes c: "cow_page kend s pgdir va"
    and sh: "frefs s (PTE_ADDR (entry (phys s) pgdir va)) = 1"
  defines "e \<equiv> entry (phys s) pgdir va" and "pt \<equiv> PTE_ADDR (phys s pgdir (PDX va))"
  shows "pgfltintr va pgdir s =
    Inr (s\<lparr>phys := store_word (phys s) pt (PTX va) (e OR PTE_W)\<rparr>)"
proof -
  define pa where "pa = PTE_ADDR e"
  have pr: "e AND PTE_P \<noteq> 0" and nw: "e AND PTE_W = 0" and iu: "in_use kend s pa"
    and lim: "frefs s pa < 2 ^ 31" and one: "frefs s pa = 1"
    using c sh by (simp_all add: cow_page_def Let_def e_def pa_def)
  have pd: "phys s pgdir (PDX va) AND PTE_P \<noteq> 0" using pr by (simp add: e_def entry_present)
  have at: "phys s pt (PTX va) = e" using entry_at [of "phys s", OF pd] by (simp add: pt_def e_def)
  have g: "get_ref_cnt pa s = Inr 1"
    using iu sint_small [OF lim] one by (simp add: get_ref_cnt_def)
  show ?thesis
    using pr nw g
    by (simp add: pgfltintr_def walk_present [OF pd] at [unfolded pt_def] pt_def
        pa_def [symmetric] e_def [symmetric] Let_def)
qed

lemma pgflt_oom:
  assumes wf: "wf_kmem kend s" and c: "cow_page kend s pgdir va"
    and sh: "1 < frefs s (PTE_ADDR (entry (phys s) pgdir va))"
    and none: "freelist s = 0"
  defines "e \<equiv> entry (phys s) pgdir va" and "z \<equiv> entry (phys s) pgdir 0"
  defines "pa \<equiv> PTE_ADDR e" and "pt \<equiv> PTE_ADDR (phys s pgdir (PDX va))"
  shows "z AND PTE_P \<noteq> 0 \<Longrightarrow>
      pgfltintr va pgdir s = Inr (s\<lparr>ref_cnt := (ref_cnt s)(pfn pa := ref_cnt s (pfn pa) - 1),
      phys := store_word (copy_page (phys s) (PTE_ADDR z) pa) pt (PTX va) (PTE_FLAGS e OR PTE_W)\<rparr>)"
    and "z AND PTE_P = 0 \<Longrightarrow> \<exists>err. pgfltintr va pgdir s = Inl err"
proof -
  have pr: "e AND PTE_P \<noteq> 0" and nw: "e AND PTE_W = 0" and iu: "in_use kend s pa"
    and lim: "frefs s pa < 2 ^ 31"
    using c by (simp_all add: cow_page_def Let_def e_def pa_def)
  have pd: "phys s pgdir (PDX va) AND PTE_P \<noteq> 0" using pr by (simp add: e_def entry_present)
  have at: "phys s pt (PTX va) = e" using entry_at [of "phys s", OF pd] by (simp add: pt_def e_def)
  have g: "get_ref_cnt pa s = Inr (int (frefs s pa))"
    using iu sint_small [OF lim] by (simp add: get_ref_cnt_def)
  have run: "pgfltintr va pgdir s = bindE (copy_to_null pgdir pa s) (\<lambda>s3. bindE (dec_ref_cnt pa s3) (\<lambda>s4.
      Inr (s4\<lparr>phys := store_word (phys s4) pt (PTX va) (PTE_FLAGS e OR PTE_W)\<rparr>)))"
    using sh pr nw g kalloc_null(1) [OF wf none]
    by (simp add: pgfltintr_def walk_present [OF pd] at [unfolded pt_def] pt_def
        pa_def [symmetric] e_def [symmetric] Let_def del: of_nat_unat)
  show "z AND PTE_P \<noteq> 0 \<Longrightarrow>
      pgfltintr va pgdir s = Inr (s\<lparr>ref_cnt := (ref_cnt s)(pfn pa := ref_cnt s (pfn pa) - 1),
      phys := store_word (copy_page (phys s) (PTE_ADDR z) pa) pt (PTX va) (PTE_FLAGS e OR PTE_W)\<rparr>)"
  proof -
    assume z: "z AND PTE_P \<noteq> 0"
    then have pz: "phys s pgdir (PDX 0) AND PTE_P \<noteq> 0" by (simp add: z_def entry_present)
    have az: "phys s (PTE_ADDR (phys s pgdir (PDX 0))) (PTX 0) = z"
      using entry_at [of "phys s", OF pz] by (simp add: z_def)
    show ?thesis unfolding run using z iu
      by (simp add: copy_to_null_def walk_present [OF pz] az dec_ref_cnt_def)
  qed
  show "z AND PTE_P = 0 \<Longrightarrow> \<exists>err. pgfltintr va pgdir s = Inl err"
  proof -
    assume z: "z AND PTE_P = 0"
    then show ?thesis unfolding run
      using entry_at [of "phys s" pgdir 0]
      by (cases "phys s pgdir (PDX 0) AND PTE_P = 0")
        (auto simp: copy_to_null_def walk_absent walk_present z_def)
  qed
qed

text \<open>What a fault may do: the entry of the faulting page becomes writable, the user-visible
  words of every page of the table are the same, and no page in use other than the table page
  that holds the entry is written.\<close>

lemma pgflt_private:
  assumes wf: "wf_kmem kend s" and wp: "wf_pgdir kend s pgdir" and c: "cow_page kend s pgdir va"
    and sh: "1 < frefs s (PTE_ADDR (entry (phys s) pgdir va))"
    and al: "kalloc s = Inr (mem, s1)" "mem \<noteq> 0"
  defines "e \<equiv> entry (phys s) pgdir va"
  defines "pa \<equiv> PTE_ADDR e" and "pt \<equiv> PTE_ADDR (phys s pgdir (PDX va))"
  shows "\<exists>s'. pgfltintr va pgdir s = Inr s' \<and> wf_kmem kend s' \<and>
     mem \<in> free_frames kend s \<and> frefs s' mem = 1 \<and> frefs s' pa = frefs s pa - 1 \<and>
     phys s' mem = phys s pa \<and>
     (\<forall>u. entry (phys s') pgdir u =
        (if PTE_ADDR u = PTE_ADDR va then mem OR PTE_FLAGS e OR PTE_W else entry (phys s) pgdir u)) \<and>
     (\<forall>q. in_use kend s q \<longrightarrow> q \<noteq> pt \<longrightarrow> phys s' q = phys s q) \<and>
     (\<forall>q. frame kend q \<longrightarrow> q \<noteq> pa \<longrightarrow> q \<noteq> mem \<longrightarrow> frefs s' q = frefs s q)"
proof -
  have pr: "e AND PTE_P \<noteq> 0" and iu: "in_use kend s pa"
    and nt: "pa \<notin> tables (phys s) pgdir" and two: "1 < frefs s pa"
    using c sh by (simp_all add: cow_page_def Let_def e_def pa_def)
  have fr: "frame kend pa" using iu by (rule in_use_frame)
  have pd: "phys s pgdir (PDX va) AND PTE_P \<noteq> 0" using pr by (simp add: e_def entry_present)
  have ptt: "pt \<in> tables (phys s) pgdir"
    unfolding pt_def by (rule table_in_tables [of "PDX va" "phys s" pgdir, OF _ pd]) simp
  note f = ka.alloc_page [OF wf al]
  have mf: "mem \<in> free_frames kend s" using f by (simp add: free_frames_def unat_eq_0)
  have fresh: "in_use kend s q \<Longrightarrow> q \<noteq> mem" for q using mf in_use_not_free by blast
  have ipt: "in_use kend s pt" by (rule wf_pgdir_in_use [OF wp ptt])
  let ?m = "copy_page (phys s) mem pa"
  define s2 where "s2 = s1\<lparr>ref_cnt := (ref_cnt s1)(pfn pa := ref_cnt s1 (pfn pa) - 1)\<rparr>"
  define m' where "m' = store_word ?m pt (PTX va) (mem OR PTE_FLAGS e OR PTE_W)"
  have ex: "pgfltintr va pgdir s = Inr (s2\<lparr>phys := m'\<rparr>)"
    using pgflt_shared [OF wf wp c sh al] by (simp add: m'_def s2_def e_def pa_def pt_def)
  have c1: "1 < frefs s1 pa" "frefs s1 pa = frefs s pa"
    using f two fr fresh [OF iu] by auto
  have "wf_kmem kend s1" using f by blast
  note d = dec_ref_cnt_ok [OF this fr c1(1), folded s2_def]
  have refs: "frefs s2 mem = 1" "frefs s2 pa = frefs s pa - 1"
      "\<And>q. frame kend q \<Longrightarrow> q \<noteq> pa \<Longrightarrow> q \<noteq> mem \<Longrightarrow> frefs s2 q = frefs s q"
    using f d(2) c1 fr fresh [OF iu] by (auto simp: s2_def frame_pfn_inj)
  have "pt \<noteq> pa" using ptt nt by blast
  then have "frefs s2 pt = frefs s pt" using refs(3) [of pt] ipt fresh [OF ipt] by simp
  then have nf: "mem \<notin> free_frames kend s2" "pt \<notin> free_frames kend s2"
    using refs(1) in_use_refs [OF ipt] by (auto simp: free_frames_def)
  have ph: "phys s2 = phys s" using f by (simp add: s2_def)
  have "wf_kmem kend (s2\<lparr>phys := m'\<rparr>)"
    by (rule wf_kmem_write [OF d(4)]) (use nf in \<open>auto simp: m'_def copy_page_def ph store_word_def\<close>)
  moreover have "entry m' pgdir u = (if PTE_ADDR u = PTE_ADDR va then mem OR PTE_FLAGS e OR PTE_W
      else entry (phys s) pgdir u)" for u
    unfolding m'_def pt_def by (rule entry_copy_store [OF wp fresh pd])
  moreover have "in_use kend s q \<Longrightarrow> q \<noteq> pt \<Longrightarrow> m' q = phys s q" for q
    using fresh [of q] by (simp add: m'_def copy_page_def)
  moreover have "m' mem = phys s pa"
    using fresh [OF ipt] by (simp add: m'_def copy_page_def)
  ultimately show ?thesis using ex mf refs by auto
qed


text \<open>The words that a process reads through its table, where the page is mapped.\<close>

definition view :: "(u32 \<Rightarrow> nat \<Rightarrow> u32) \<Rightarrow> u32 \<Rightarrow> u32 \<Rightarrow> nat \<Rightarrow> u32 option" where
  "view m pgdir va k =
     (let e = entry m pgdir va in if e AND PTE_P \<noteq> 0 then Some (m (PTE_ADDR e) k) else None)"

text \<open>The page of \<open>va\<close>, if mapped, is a data page: in use, and no page-table page of \<open>T\<close>.\<close>

definition data_page :: "u32 \<Rightarrow> kmem \<Rightarrow> u32 set \<Rightarrow> u32 \<Rightarrow> u32 \<Rightarrow> bool" where
  "data_page kend s T pgdir va \<longleftrightarrow>
     (let e = entry (phys s) pgdir va in
      e AND PTE_P \<noteq> 0 \<longrightarrow> in_use kend s (PTE_ADDR e) \<and> PTE_ADDR e \<notin> T)"

lemma view_cong:
  "entry m' pgdir u = entry m pgdir u \<Longrightarrow>
   (entry m pgdir u AND PTE_P \<noteq> 0 \<Longrightarrow> m' (PTE_ADDR (entry m pgdir u)) = m (PTE_ADDR (entry m pgdir u))) \<Longrightarrow>
   view m' pgdir u k = view m pgdir u k"
  by (auto simp: view_def Let_def)

lemma entry_same_page: "PTE_ADDR u = PTE_ADDR v \<Longrightarrow> entry m pgdir u = entry m pgdir v"
  using same_page [of u v] by (simp add: entry_def)

lemma new_entry:
  assumes "e AND PTE_P \<noteq> 0" and "page_aligned mem"
  shows "(mem OR PTE_FLAGS e OR PTE_W) AND PTE_P \<noteq> 0" and "(mem OR PTE_FLAGS e OR PTE_W) AND PTE_W \<noteq> 0"
    and "PTE_ADDR (mem OR PTE_FLAGS e OR PTE_W) = mem"
    and "(e OR PTE_W) AND PTE_P \<noteq> 0" and "(e OR PTE_W) AND PTE_W \<noteq> 0"
    and "PTE_ADDR (e OR PTE_W) = PTE_ADDR e"
proof -
  have w: "PTE_W \<noteq> 0" by (simp add: PTE_W_def)
  have absorb: "(x OR PTE_W) AND PTE_W = PTE_W" for x
    by (simp add: word_bw_comms word_ao_absorbs)
  show "(mem OR PTE_FLAGS e OR PTE_W) AND PTE_W \<noteq> 0" "(e OR PTE_W) AND PTE_W \<noteq> 0"
    using w absorb [of "mem OR PTE_FLAGS e"] absorb [of e] by (simp_all add: or.assoc)
  have "bit e 0" using assms(1) by (simp add: bit0_P)
  then show "(mem OR PTE_FLAGS e OR PTE_W) AND PTE_P \<noteq> 0" "(e OR PTE_W) AND PTE_P \<noteq> 0"
    unfolding bit0_P by (simp_all add: bit_simps PTE_FLAGS_def)
  show "PTE_ADDR (mem OR PTE_FLAGS e OR PTE_W) = mem" "PTE_ADDR (e OR PTE_W) = PTE_ADDR e"
    using assms(2) by (simp_all add: PTE_ADDR_or)
qed

text \<open>If the frame of a page moves and its new frame has the old words, and the other pages in use
  keep theirs, no process sees a change.\<close>

lemma fault_views:
  assumes ent: "\<And>u. entry m' pgdir u = (if PTE_ADDR u = PTE_ADDR va then x else entry (phys s) pgdir u)"
    and e: "e = entry (phys s) pgdir va" "e AND PTE_P \<noteq> 0"
    and x: "x AND PTE_P \<noteq> 0" "m' (PTE_ADDR x) = phys s (PTE_ADDR e)"
    and other: "\<And>q. in_use kend s q \<Longrightarrow> q \<noteq> pt \<Longrightarrow> m' q = phys s q"
    and pt: "pt \<in> tables (phys s) pgdir"
  shows "data_page kend s (tables (phys s) pgdir) pgdir u \<Longrightarrow> view m' pgdir u k = view (phys s) pgdir u k"
    and "wf_pgdir kend s d \<Longrightarrow> tables (phys s) d \<inter> tables (phys s) pgdir = {} \<Longrightarrow>
      data_page kend s (tables (phys s) pgdir) d u \<Longrightarrow> view m' d u k = view (phys s) d u k"
proof -
  assume d: "data_page kend s (tables (phys s) pgdir) pgdir u"
  show "view m' pgdir u k = view (phys s) pgdir u k"
  proof (cases "PTE_ADDR u = PTE_ADDR va")
    case True
    then have "entry (phys s) pgdir u = e" using e(1) entry_same_page by blast
    then show ?thesis using True ent [of u] e(2) x by (simp add: view_def Let_def)
  next
    case False
    then show ?thesis
      using d ent [of u] other pt by (intro view_cong) (auto simp: data_page_def Let_def)
  qed
next
  assume wd: "wf_pgdir kend s d" and dj: "tables (phys s) d \<inter> tables (phys s) pgdir = {}"
    and d: "data_page kend s (tables (phys s) pgdir) d u"
  have "m' t = phys s t" if "t \<in> tables (phys s) d" for t
    using other wf_pgdir_in_use [OF wd that] that dj pt by blast
  from entry_cong(1) [of "phys s" d, OF this] show "view m' d u k = view (phys s) d u k"
    using d other pt by (intro view_cong) (auto simp: data_page_def Let_def)
qed

lemma pgflt_sole_ok:
  assumes wf: "wf_kmem kend s" and wp: "wf_pgdir kend s pgdir" and c: "cow_page kend s pgdir va"
    and sh: "frefs s (PTE_ADDR (entry (phys s) pgdir va)) = 1"
  defines "e \<equiv> entry (phys s) pgdir va" and "pt \<equiv> PTE_ADDR (phys s pgdir (PDX va))"
  defines "m' \<equiv> store_word (phys s) pt (PTX va) (e OR PTE_W)"
  shows "pgfltintr va pgdir s = Inr (s\<lparr>phys := m'\<rparr>)" and "wf_kmem kend (s\<lparr>phys := m'\<rparr>)"
    and "entry m' pgdir u = (if PTE_ADDR u = PTE_ADDR va then e OR PTE_W else entry (phys s) pgdir u)"
    and "q \<noteq> pt \<Longrightarrow> m' q = phys s q" and "pt \<in> tables (phys s) pgdir"
proof -
  show "pgfltintr va pgdir s = Inr (s\<lparr>phys := m'\<rparr>)"
    using pgflt_sole [OF c sh] by (simp add: m'_def e_def pt_def)
  have pd: "phys s pgdir (PDX va) AND PTE_P \<noteq> 0"
    using c by (simp add: cow_page_def Let_def entry_present)
  show pt: "pt \<in> tables (phys s) pgdir"
    unfolding pt_def by (rule table_in_tables [of "PDX va" "phys s" pgdir, OF _ pd]) simp
  show "q \<noteq> pt \<Longrightarrow> m' q = phys s q" by (simp add: m'_def)
  show "wf_kmem kend (s\<lparr>phys := m'\<rparr>)"
    by (rule wf_kmem_write [OF wf])
      (use wf_pgdir_in_use [OF wp pt] in_use_not_free in \<open>auto simp: m'_def store_word_def\<close>)
  show "entry m' pgdir u = (if PTE_ADDR u = PTE_ADDR va then e OR PTE_W else entry (phys s) pgdir u)"
    unfolding m'_def pt_def by (rule entry_store(1) [OF wp pd])
qed

section \<open>A concrete machine\<close>

text \<open>Four frames: a directory, one table, one data page mapped read-only at address 0 and
  referenced twice, and a free page.\<close>

definition cow_machine :: kmem where
  "cow_machine = \<lparr>freelist = 0xFFF000, free_pages = 1,
     ref_cnt = (\<lambda>_. 0)(4092 := 1, 4093 := 1, 4094 := 2),
     phys = (\<lambda>_ _. 0)(0xFFC000 := (\<lambda>_. 0)(0 := 0xFFD007), 0xFFD000 := (\<lambda>_. 0)(0 := 0xFFE005),
       0xFFE000 := (\<lambda>_. 42))\<rparr>"

lemma pfn_top: "pfn 0xFFC000 = 4092" "pfn 0xFFD000 = 4093" "pfn 0xFFE000 = 4094" "pfn 0xFFF000 = 4095"
  by (simp_all add: pfn_nat)

lemma cow_machine_wf: "wf_kmem 0xFFC000 cow_machine"
proof -
  have "free_frames 0xFFC000 cow_machine = set [0xFFF000]"
    by (auto simp: free_frames_def frames_at_top) (simp_all add: cow_machine_def pfn_top)
  moreover have "chain (phys cow_machine) (freelist cow_machine) [0xFFF000]"
    by (simp add: cow_machine_def)
  moreover have "unat (free_pages cow_machine) = length [0xFFF000 :: u32]"
    by (simp add: cow_machine_def)
  ultimately show ?thesis unfolding wf_kmem_def by (intro conjI exI [of _ "[0xFFF000]"]) auto
qed

lemma cow_machine_dir:
  "phys cow_machine 0xFFC000 i AND PTE_P \<noteq> 0 \<longleftrightarrow> i = 0"
  "tables (phys cow_machine) 0xFFC000 = {0xFFC000, 0xFFD000}"
proof -
  show a: "phys cow_machine 0xFFC000 i AND PTE_P \<noteq> 0 \<longleftrightarrow> i = 0" for i
    by (simp add: cow_machine_def PTE_P_def)
  have "{i. i < 1024 \<and> phys cow_machine 0xFFC000 i AND PTE_P \<noteq> 0} = {0}"
    unfolding a by auto
  then show "tables (phys cow_machine) 0xFFC000 = {0xFFC000, 0xFFD000}"
    by (simp add: tables_def cow_machine_def PTE_ADDR_def)
qed

lemma cow_machine_slot0: "phys cow_machine 0xFFC000 0 = 0xFFD007"
  by (simp add: cow_machine_def)

lemma cow_machine_pgdir: "wf_pgdir 0xFFC000 cow_machine 0xFFC000"
proof -
  have "in_use 0xFFC000 cow_machine 0xFFC000" "in_use 0xFFC000 cow_machine 0xFFD000"
    by (simp_all add: in_use_def frames_at_top pfn_top) (simp_all add: cow_machine_def)
  moreover have "PTE_ADDR 0xFFD007 \<noteq> 0xFFC000" by (simp add: PTE_ADDR_def)
  ultimately show ?thesis
    unfolding wf_pgdir_def cow_machine_dir using cow_machine_slot0 by auto
qed

lemma cow_machine_entry: "entry (phys cow_machine) 0xFFC000 0 = 0xFFE005"
proof -
  have "PDX 0 = 0" "PTX 0 = 0" by (simp_all add: PDX_nat PTX_nat)
  then show ?thesis by (simp add: entry_def cow_machine_def PTE_P_def PTE_ADDR_def)
qed

lemma cow_machine_page: "cow_page 0xFFC000 cow_machine 0xFFC000 0"
proof -
  have "PTE_ADDR 0xFFE005 = 0xFFE000" by (simp add: PTE_ADDR_def)
  then show ?thesis
    unfolding cow_page_def Let_def cow_machine_entry cow_machine_dir
    by (simp add: in_use_def frames_at_top mmu_consts) (simp add: cow_machine_def pfn_top)
qed

lemma cow_machine_free: "freelist cow_machine \<noteq> 0"
  by (simp add: cow_machine_def)

section \<open>Properties of the handler\<close>

text \<open>C5: resolving a copy-on-write fault makes the page writable and its frame private, and
  no process sees any word of its memory change, neither through the faulting table nor through any
  other table.\<close>

theorem cow_fault_transparent:
  assumes "wf_kmem kend s" and "wf_pgdir kend s pgdir" and "cow_page kend s pgdir va"
    and "freelist s \<noteq> 0"
  shows "\<exists>s' e'. pgfltintr va pgdir s = Inr s' \<and> wf_kmem kend s' \<and>
    e' = entry (phys s') pgdir va \<and> e' AND PTE_P \<noteq> 0 \<and> e' AND PTE_W \<noteq> 0 \<and> frefs s' (PTE_ADDR e') = 1 \<and>
    (\<forall>u k. data_page kend s (tables (phys s) pgdir) pgdir u \<longrightarrow>
       view (phys s') pgdir u k = view (phys s) pgdir u k) \<and>
    (\<forall>d u k. wf_pgdir kend s d \<longrightarrow> tables (phys s) d \<inter> tables (phys s) pgdir = {} \<longrightarrow>
       data_page kend s (tables (phys s) pgdir) d u \<longrightarrow> view (phys s') d u k = view (phys s) d u k)"
proof -
  let ?e = "entry (phys s) pgdir va" and ?pt = "PTE_ADDR (phys s pgdir (PDX va))"
  have pr: "?e AND PTE_P \<noteq> 0" and iu: "in_use kend s (PTE_ADDR ?e)"
    using assms(3) by (simp_all add: cow_page_def Let_def)
  have pd: "phys s pgdir (PDX va) AND PTE_P \<noteq> 0" using pr by (rule entry_present)
  have pt: "?pt \<in> tables (phys s) pgdir"
    by (rule table_in_tables [of "PDX va" "phys s" pgdir, OF _ pd]) simp
  show ?thesis
  proof (cases "frefs s (PTE_ADDR ?e) = 1")
    case True
    note r = pgflt_sole_ok [OF assms(1-3) True] and x = new_entry [OF pr page_aligned_0]
    have pa: "?pt \<noteq> PTE_ADDR ?e" using assms(3) pt by (auto simp: cow_page_def Let_def)
    let ?m = "store_word (phys s) ?pt (PTX va) (?e OR PTE_W)"
    have "?m (PTE_ADDR (?e OR PTE_W)) = phys s (PTE_ADDR ?e)"
      using pa x(6) r(4) [of "PTE_ADDR ?e"] by simp
    from fault_views [OF r(3) refl pr x(4) this r(4) pt]
    show ?thesis using r x True by (intro exI [of _ "s\<lparr>phys := ?m\<rparr>"] exI [of _ "?e OR PTE_W"]) auto
  next
    case False
    then have two: "1 < frefs s (PTE_ADDR ?e)" using in_use_refs [OF iu] by simp
    obtain mem s1 where al: "kalloc s = Inr (mem, s1)" "mem \<noteq> 0"
      using kalloc_page(1) [OF assms(1,4)] assms(4) by blast
    from pgflt_private [OF assms(1-3) two al] obtain s' where
      s': "pgfltintr va pgdir s = Inr s'" "wf_kmem kend s'" "mem \<in> free_frames kend s"
        "frefs s' mem = 1" "phys s' mem = phys s (PTE_ADDR ?e)"
        "\<And>u. entry (phys s') pgdir u =
          (if PTE_ADDR u = PTE_ADDR va then mem OR PTE_FLAGS ?e OR PTE_W else entry (phys s) pgdir u)"
        "\<And>q. in_use kend s q \<Longrightarrow> q \<noteq> ?pt \<Longrightarrow> phys s' q = phys s q"
      by blast
    have al4: "page_aligned mem" using s'(3) by (auto simp: free_frames_def)
    note x = new_entry [OF pr al4]
    have "phys s' (PTE_ADDR (mem OR PTE_FLAGS ?e OR PTE_W)) = phys s (PTE_ADDR ?e)"
      using x(3) s'(5) by simp
    from fault_views [OF s'(6) refl pr x(1) this s'(7) pt]
    show ?thesis using s' x by (intro exI [of _ s'] exI [of _ "mem OR PTE_FLAGS ?e OR PTE_W"]) auto
  qed
qed

theorem cow_fault_transparent_witness:
  "\<exists>s' e'. pgfltintr 0 0xFFC000 cow_machine = Inr s' \<and> wf_kmem 0xFFC000 s' \<and>
    e' = entry (phys s') 0xFFC000 0 \<and> e' AND PTE_P \<noteq> 0 \<and> e' AND PTE_W \<noteq> 0 \<and> frefs s' (PTE_ADDR e') = 1"
  using cow_fault_transparent
    [OF cow_machine_wf cow_machine_pgdir cow_machine_page cow_machine_free] by blast

end
