(* ===== verification/Cow_Share.thy ===== *)
theory Cow_Share
  imports Cow
begin

text \<open>
  What \<open>cowuvm\<close> makes parent and child share, page by page: the loop invariant \<open>cow_upto\<close>, the
  property of the whole loop, and what the fault handler does when no frame is left.
\<close>


section \<open>Mapping one page\<close>

lemma one_page_end: "page_aligned i \<Longrightarrow> PGROUNDDOWN (i + PGSIZE - 1) = i"
proof -
  assume a: "page_aligned i"
  then obtain k where k: "unat i = 4096 * k" unfolding page_aligned_dvd by (elim dvdE)
  have b: "unat i < 4294967296" using unsigned_less [of i] by simp
  have "unat (i + 0xFFF) = 4096 * k + 4095"
    using k b by (simp add: unat_word_ariths)
  then have "unat (PTE_ADDR (i + 0xFFF)) = 4096 * k"
    by (simp add: unat_PTE_ADDR)
  then have "PTE_ADDR (i + 0xFFF) = i" using k by (simp only: word_unat_eq_iff)
  then show ?thesis by (simp add: PGROUNDDOWN_eq PGSIZE_def add.commute)
qed

lemma mappages_one:
  assumes i: "page_aligned i" and pd: "phys s d (PDX i) AND PTE_P \<noteq> 0"
    and ab: "entry (phys s) d i AND PTE_P = 0"
  shows "mappages d i PGSIZE pa perm s = Inr (0, s\<lparr>phys := store_word (phys s)
     (PTE_ADDR (phys s d (PDX i))) (PTX i) (pa OR perm OR PTE_P)\<rparr>)"
proof -
  have "phys s (PTE_ADDR (phys s d (PDX i))) (PTX i) AND PTE_P = 0"
    using ab entry_at [of "phys s", OF pd] by simp
  moreover have "PGROUNDDOWN i = i" using i by (simp add: PGROUNDDOWN_eq)
  ultimately show ?thesis
    unfolding mappages_def Let_def one_page_end [OF i] by (simp add: walk_present [OF pd])
qed

section \<open>One page of cowuvm\<close>

text \<open>The state while \<open>cowuvm\<close> works: parent \<open>pgdir\<close>, child \<open>d\<close>.\<close>

definition cow_ready :: "u32 \<Rightarrow> kmem \<Rightarrow> u32 \<Rightarrow> u32 \<Rightarrow> bool" where
  "cow_ready kend s pgdir d \<longleftrightarrow> wf_kmem kend s \<and> wf_pgdir kend s pgdir \<and> wf_pgdir kend s d \<and>
     tables (phys s) pgdir \<inter> tables (phys s) d = {} \<and> phys s d 0 AND PTE_P \<noteq> 0"

definition shareable :: "u32 \<Rightarrow> kmem \<Rightarrow> u32 \<Rightarrow> u32 \<Rightarrow> u32 \<Rightarrow> nat \<Rightarrow> bool" where
  "shareable kend s pgdir d i lim \<longleftrightarrow>
     (let e = entry (phys s) pgdir i in e AND PTE_P \<noteq> 0 \<and> in_use kend s (PTE_ADDR e) \<and>
       PTE_ADDR e \<notin> tables (phys s) pgdir \<union> tables (phys s) d \<and> frefs s (PTE_ADDR e) < lim)"

lemma cow_step:
  assumes r: "cow_ready kend s pgdir d" and i: "page_aligned i" "i < USERTOP"
    and sh: "shareable kend s pgdir d i (2 ^ 31 - 1)" and ab: "entry (phys s) d i AND PTE_P = 0"
  defines "e \<equiv> entry (phys s) pgdir i AND NOT PTE_W"
  defines "pa \<equiv> PTE_ADDR e"
  shows "\<exists>s'. cow_body pgdir d i s = Inr (None, s') \<and> cow_ready kend s' pgdir d \<and>
    tables (phys s') pgdir = tables (phys s) pgdir \<and> tables (phys s') d = tables (phys s) d \<and>
    (\<forall>u. entry (phys s') pgdir u = (if PTE_ADDR u = i then e else entry (phys s) pgdir u)) \<and>
    (\<forall>u. entry (phys s') d u = (if PTE_ADDR u = i then e else entry (phys s) d u)) \<and>
    (\<forall>q. q \<notin> tables (phys s) pgdir \<union> tables (phys s) d \<longrightarrow> phys s' q = phys s q) \<and>
    (\<forall>q. frame kend q \<longrightarrow> frefs s' q = (if q = pa then frefs s q + 1 else frefs s q))"
proof -
  from r have wf: "wf_kmem kend s" and wp: "wf_pgdir kend s pgdir" and wd: "wf_pgdir kend s d"
    and dj: "tables (phys s) pgdir \<inter> tables (phys s) d = {}" and d0: "phys s d 0 AND PTE_P \<noteq> 0"
    by (auto simp: cow_ready_def)
  have pr: "entry (phys s) pgdir i AND PTE_P \<noteq> 0" and iu: "in_use kend s pa"
    and nt: "pa \<notin> tables (phys s) pgdir \<union> tables (phys s) d" and lim: "frefs s pa < 2 ^ 31 - 1"
    using sh by (simp_all add: shareable_def Let_def pa_def e_def)
  have ie: "PTE_ADDR i = i" using i(1) by simp
  have i0: "PDX i = 0" using i(2) by (simp add: PDX_nat USERTOP_def word_less_nat_alt)
  have pd: "phys s pgdir (PDX i) AND PTE_P \<noteq> 0" using pr by (rule entry_present)
  let ?pt = "PTE_ADDR (phys s pgdir (PDX i))" and ?dt = "PTE_ADDR (phys s d (PDX i))"
  define m1 where "m1 = store_word (phys s) ?pt (PTX i) e"
  define m2 where "m2 = store_word m1 ?dt (PTX i) e"
  have ptt: "?pt \<in> tables (phys s) pgdir"
    by (rule table_in_tables [of "PDX i" "phys s" pgdir, OF _ pd]) simp
  have dtt: "?dt \<in> tables (phys s) d"
    by (rule table_in_tables [of "PDX i" "phys s" d]) (simp_all add: i0 d0)
  have ptd: "?pt \<notin> tables (phys s) d" and dtp: "?dt \<notin> tables (phys s) pgdir"
    using dj ptt dtt by blast+
  note S1 = entry_store [OF wp pd, of e, folded m1_def]
  have D1: "entry m1 d = entry (phys s) d" "tables m1 d = tables (phys s) d"
    unfolding m1_def by (rule entry_store_other [OF ptd])+
  have wd1: "wf_pgdir kend (s\<lparr>phys := m1\<rparr>) d"
    by (rule wf_pgdir_cong [OF wd])
      (use ptd wf_pgdir_in_use [OF wd] in \<open>auto simp: m1_def store_word_def in_use_def\<close>)
  have md: "m1 d = phys s d" using ptd pgdir_in_tables [of d "phys s"] by (auto simp: m1_def store_word_def)
  have dd: "phys (s\<lparr>phys := m1\<rparr>) d (PDX i) AND PTE_P \<noteq> 0" by (simp add: md i0 d0)
  note S2 = entry_store [OF wd1 dd, of e, simplified, unfolded md, folded m2_def]
  have P2: "entry m2 pgdir = entry m1 pgdir" "tables m2 pgdir = tables m1 pgdir"
    unfolding m2_def by (rule entry_store_other; simp add: S1(2) dtp)+
  have ents: "entry m2 pgdir u = (if PTE_ADDR u = i then e else entry (phys s) pgdir u)"
    "entry m2 d u = (if PTE_ADDR u = i then e else entry (phys s) d u)" for u
    using S1(1) [of u] S2(1) [of u] ie by (simp_all add: P2 D1)
  have tabs: "tables m2 pgdir = tables (phys s) pgdir" "tables m2 d = tables (phys s) d"
    using S1(2) S2(2) by (simp_all add: P2 D1)
  have other: "q \<notin> tables (phys s) pgdir \<union> tables (phys s) d \<Longrightarrow> m2 q = phys s q" for q
    using ptt dtt by (auto simp: m2_def m1_def store_word_def)
  have apart: "?pt \<noteq> ?dt" using dtt ptd by auto
  have at: "phys s ?pt (PTX i) = entry (phys s) pgdir i"
    by (rule entry_at [of "phys s" pgdir, OF pd])
  have ep: "e AND PTE_P \<noteq> 0" using pr by (simp add: e_def)
  have "mappages d i PGSIZE pa (PTE_FLAGS e) (s\<lparr>phys := m1\<rparr>) = Inr (0, s\<lparr>phys := m2\<rparr>)"
    using mappages_one [OF i(1) dd, of pa "PTE_FLAGS e"] ab ep
    by (simp add: D1 md m2_def pa_def PTE_split_or or_P_present)
  moreover have "m2 ?pt (PTX i) = e"
    using apart by (simp add: m2_def m1_def)
  moreover define s' where "s' = s\<lparr>phys := m2, ref_cnt := (ref_cnt s)(pfn pa := ref_cnt s (pfn pa) + 1)\<rparr>"
  ultimately have ex: "cow_body pgdir d i s = Inr (None, s')"
    using iu pr at
    by (simp add: cow_body_def walk_present [OF pd] Let_def e_def [symmetric] m1_def [symmetric]
        pa_def [symmetric] inc_ref_cnt_def)
  have nf: "q \<in> free_frames kend s \<Longrightarrow> m2 q = phys s q" for q
    using in_use_not_free [OF wf_pgdir_in_use [OF wp, of q]] in_use_not_free [OF wf_pgdir_in_use [OF wd, of q]]
    by (intro other) blast
  have fr: "frame kend pa" "0 < frefs s pa" using iu in_use_refs by auto
  have "wf_kmem kend (s\<lparr>phys := m2\<rparr>)" by (rule wf_kmem_write [OF wf nf])
  note I = inc_ref_cnt_ok [OF this fr(1)]
  have s'2: "s' = (s\<lparr>phys := m2\<rparr>)\<lparr>ref_cnt := (ref_cnt (s\<lparr>phys := m2\<rparr>))
      (pfn pa := ref_cnt (s\<lparr>phys := m2\<rparr>) (pfn pa) + 1)\<rparr>"
    by (simp add: s'_def)
  have up: "frefs s' pa = Suc (frefs s pa)" and wf': "wf_kmem kend s'"
    unfolding s'2 using I(2,4) fr(2) lim by simp_all
  have refs: "frame kend q \<Longrightarrow> frefs s' q = (if q = pa then frefs s q + 1 else frefs s q)" for q
    using up fr(1) by (auto simp: s'_def frame_pfn_inj)
  have use: "in_use kend s q \<Longrightarrow> in_use kend s' q" for q
    using refs [of q] by (auto simp: in_use_def simp flip: unat_eq_0 split: if_splits)
  have ph: "phys s' = m2" by (simp add: s'_def)
  have "wf_pgdir kend s' pgdir"
  proof (rule wf_pgdir_cong)
    have "entry m2 pgdir = entry m1 pgdir" by (rule P2)
    show "wf_pgdir kend (s\<lparr>phys := m2\<rparr>) pgdir"
      by (rule wf_pgdir_cong [OF S1(3)])
        (use dtp S1(2) wf_pgdir_in_use [OF wp] in \<open>auto simp: m2_def store_word_def in_use_def\<close>)
  qed (use wf_pgdir_in_use [OF wp] use in \<open>auto simp: ph tabs\<close>)
  moreover have "wf_pgdir kend s' d"
    by (rule wf_pgdir_cong [OF S2(3)])
      (use wf_pgdir_in_use [OF wd] use in \<open>auto simp: ph tabs\<close>)
  moreover have "m2 d = phys s d"
    using md dtt wf_pgdir_neq [OF wd, of "PDX i"] i0 d0 by (simp add: m2_def store_word_def)
  ultimately have "cow_ready kend s' pgdir d"
    using wf' dj d0 by (simp add: cow_ready_def ph tabs)
  then show ?thesis
    using ex ents tabs other refs by (intro exI [of _ s']) (simp add: ph)
qed

text \<open>The pages \<open>0 \<dots> n - 1\<close> that the parent maps to the frame \<open>q\<close>.\<close>

definition mapped_to :: "(u32 \<Rightarrow> nat \<Rightarrow> u32) \<Rightarrow> u32 \<Rightarrow> nat \<Rightarrow> u32 \<Rightarrow> nat" where
  "mapped_to m pgdir n q =
     length (filter (\<lambda>j. PTE_ADDR (entry m pgdir (of_nat (4096 * j))) = q) [0..<n])"

definition cow_upto :: "u32 \<Rightarrow> u32 \<Rightarrow> u32 \<Rightarrow> kmem \<Rightarrow> nat \<Rightarrow> kmem \<Rightarrow> bool" where
  "cow_upto kend pgdir d s0 n s \<longleftrightarrow> cow_ready kend s pgdir d \<and>
     tables (phys s) pgdir = tables (phys s0) pgdir \<and> tables (phys s) d = tables (phys s0) d \<and>
     (\<forall>u. entry (phys s) pgdir u = (if unat u div 4096 < n
        then entry (phys s0) pgdir u AND NOT PTE_W else entry (phys s0) pgdir u)) \<and>
     (\<forall>u. entry (phys s) d u = (if unat u div 4096 < n
        then entry (phys s0) pgdir u AND NOT PTE_W else entry (phys s0) d u)) \<and>
     (\<forall>q. q \<notin> tables (phys s0) pgdir \<union> tables (phys s0) d \<longrightarrow> phys s q = phys s0 q) \<and>
     (\<forall>q. frame kend q \<longrightarrow> frefs s q = frefs s0 q + mapped_to (phys s0) pgdir n q)"

lemma mapped_to_le: "mapped_to m pgdir n q \<le> n"
  unfolding mapped_to_def using length_filter_le [of _ "[0..<n]"] by (metis diff_zero length_upt)

lemma mapped_to_Suc:
  "mapped_to m pgdir (Suc n) q = mapped_to m pgdir n q +
     (if PTE_ADDR (entry m pgdir (of_nat (4096 * n))) = q then 1 else 0)"
  by (simp add: mapped_to_def)

text \<open>The \<open>n\<close>-th page.\<close>

lemma page_no:
  assumes "4096 * n < 2 ^ 32"
  shows "unat (of_nat (4096 * n) :: u32) = 4096 * n" and "page_aligned (of_nat (4096 * n))"
    and "PTE_ADDR u = of_nat (4096 * n) \<longleftrightarrow> unat u div 4096 = n"
proof -
  show u: "unat (of_nat (4096 * n) :: u32) = 4096 * n"
    unfolding unsigned_of_nat of_nat_id by (rule take_bit_nat_eq_self) (use assms in simp)
  show "page_aligned (of_nat (4096 * n))" unfolding page_aligned_dvd u by simp
  show "PTE_ADDR u = of_nat (4096 * n) \<longleftrightarrow> unat u div 4096 = n"
    unfolding word_unat_eq_iff u unat_PTE_ADDR by simp
qed

lemma cow_upto_step:
  assumes c: "cow_upto kend pgdir d s0 n s" and n: "4096 * n < unat sz" and sz: "sz \<le> USERTOP"
    and sh: "shareable kend s0 pgdir d (of_nat (4096 * n)) (2 ^ 30)"
    and ab: "entry (phys s0) d (of_nat (4096 * n)) AND PTE_P = 0"
  shows "\<exists>s'. cow_body pgdir d (of_nat (4096 * n)) s = Inr (None, s') \<and>
    cow_upto kend pgdir d s0 (Suc n) s'"
proof -
  let ?i = "of_nat (4096 * n) :: u32"
  have top: "unat sz \<le> 655360" using sz by (simp add: USERTOP_def word_le_nat_alt)
  then have lt: "4096 * n < 2 ^ 32" using n by simp
  note pn = page_no [OF lt]
  have iu: "?i < USERTOP" using n top by (simp add: word_less_nat_alt pn USERTOP_def del: of_nat_mult)
  have ei: "entry (phys s) pgdir ?i = entry (phys s0) pgdir ?i" "entry (phys s) d ?i = entry (phys s0) d ?i"
    using c by (simp_all add: cow_upto_def pn del: of_nat_mult)
  let ?pa = "PTE_ADDR (entry (phys s0) pgdir ?i)"
  have ready: "cow_ready kend s pgdir d" using c by (simp add: cow_upto_def)
  have fr: "frame kend ?pa" "frefs s0 ?pa < 2 ^ 30" "0 < frefs s0 ?pa"
    using sh in_use_refs by (auto simp: shareable_def Let_def simp del: of_nat_mult)
  have "frefs s ?pa = frefs s0 ?pa + mapped_to (phys s0) pgdir n ?pa"
    using c fr(1) by (simp add: cow_upto_def del: of_nat_mult)
  moreover have "n < 160" using n top by linarith
  ultimately have "frefs s ?pa < 2 ^ 30 + 160" "0 < frefs s ?pa"
    using mapped_to_le [of "phys s0" pgdir n ?pa] fr(2,3) by linarith+
  then have "frefs s ?pa < 2 ^ 31 - 1" "0 < frefs s ?pa" by simp_all
  moreover have "tables (phys s) pgdir = tables (phys s0) pgdir" "tables (phys s) d = tables (phys s0) d"
    using c by (simp_all add: cow_upto_def)
  ultimately have sh': "shareable kend s pgdir d ?i (2 ^ 31 - 1)"
    using sh fr(1) unfolding shareable_def Let_def ei in_use_def by (simp add: unat_gt_0)
  have ab': "entry (phys s) d ?i AND PTE_P = 0" using ab ei by (simp del: of_nat_mult)
  from cow_step [OF ready pn(2) iu sh' ab'] obtain s' where
    s': "cow_body pgdir d ?i s = Inr (None, s')" "cow_ready kend s' pgdir d"
      "tables (phys s') pgdir = tables (phys s) pgdir" "tables (phys s') d = tables (phys s) d"
      "\<forall>u. entry (phys s') pgdir u = (if unat u div 4096 = n then entry (phys s0) pgdir ?i AND NOT PTE_W
         else entry (phys s) pgdir u)"
      "\<forall>u. entry (phys s') d u = (if unat u div 4096 = n then entry (phys s0) pgdir ?i AND NOT PTE_W
         else entry (phys s) d u)"
      "\<forall>q. q \<notin> tables (phys s) pgdir \<union> tables (phys s) d \<longrightarrow> phys s' q = phys s q"
      "\<forall>q. frame kend q \<longrightarrow> frefs s' q = (if q = ?pa then frefs s q + 1 else frefs s q)"
    unfolding pn(3) ei by auto
  have same: "unat u div 4096 = n \<Longrightarrow> entry m pgdir u = entry m pgdir ?i" for u m
    using pn(3) [of u] pn(2) by (intro entry_same_page) simp
  have "cow_upto kend pgdir d s0 (Suc n) s'"
    using c s' same unfolding cow_upto_def mapped_to_Suc less_Suc_eq
    by (auto simp del: of_nat_mult)
  then show ?thesis using s'(1) by blast
qed

text \<open>The loop of \<open>cowuvm\<close>, from page \<open>n\<close> on.\<close>

lemma cow_loop:
  assumes sz: "sz \<le> USERTOP"
    and sh: "\<forall>j. 4096 * j < unat sz \<longrightarrow> shareable kend s0 pgdir d (of_nat (4096 * j)) (2 ^ 30) \<and>
        entry (phys s0) d (of_nat (4096 * j)) AND PTE_P = 0"
  shows "cow_upto kend pgdir d s0 n s \<Longrightarrow> 4096 * n < unat sz + 4096 \<Longrightarrow> unat sz + 4096 \<le> 4096 * (n + fuel) \<Longrightarrow>
    \<exists>s' n'. page_loop fuel (of_nat (4096 * n)) sz (cow_body pgdir d) s = Inr (None, s') \<and>
      unat sz \<le> 4096 * n' \<and> 4096 * n' < unat sz + 4096 \<and> cow_upto kend pgdir d s0 n' s'"
proof (induction fuel arbitrary: n s)
  case 0
  then show ?case by simp
next
  case (Suc fuel)
  have top: "unat sz \<le> 655360" using sz by (simp add: USERTOP_def word_le_nat_alt)
  then have lt: "4096 * n < 2 ^ 32" using Suc.prems(2) by simp
  note pn = page_no [OF lt]
  show ?case
  proof (cases "4096 * n < unat sz")
    case True
    then have c: "(of_nat (4096 * n) :: u32) < sz" by (simp only: word_less_nat_alt pn)
    from cow_upto_step [OF Suc.prems(1) True sz] sh True obtain t where
      t: "cow_body pgdir d (of_nat (4096 * n)) s = Inr (None, t)" "cow_upto kend pgdir d s0 (Suc n) t"
      by blast
    have nx: "(of_nat (4096 * n) :: u32) + PGSIZE = of_nat (4096 * Suc n)" by (simp add: PGSIZE_def)
    show ?thesis
      using Suc.IH [OF t(2)] Suc.prems(3) True t(1) c by (simp add: nx del: of_nat_mult)
  next
    case False
    then have c: "\<not> (of_nat (4096 * n) :: u32) < sz"
      by (simp add: word_less_nat_alt pn del: of_nat_mult)
    show ?thesis using False c Suc.prems by (intro exI [of _ s] exI [of _ n]) (simp del: of_nat_mult)
  qed
qed

section \<open>A concrete fork\<close>

text \<open>Parent directory and table, the page at address 0 writable and private; child directory and
  table, empty; one free frame.\<close>

definition fork_machine :: kmem where
  "fork_machine = \<lparr>freelist = 0xFFF000, free_pages = 1,
     ref_cnt = (\<lambda>_. 0)(4090 := 1, 4091 := 1, 4092 := 1, 4093 := 1, 4094 := 1),
     phys = (\<lambda>_ _. 0)(0xFFA000 := (\<lambda>_. 0)(0 := 0xFFB007), 0xFFB000 := (\<lambda>_. 0)(0 := 0xFFC007),
       0xFFC000 := (\<lambda>_. 42), 0xFFD000 := (\<lambda>_. 0)(0 := 0xFFE007))\<rparr>"

lemma frames_at_top6: "frame 0xFFA000 v \<longleftrightarrow>
    v = 0xFFA000 \<or> v = 0xFFB000 \<or> v = 0xFFC000 \<or> v = 0xFFD000 \<or> v = 0xFFE000 \<or> v = 0xFFF000"
proof
  assume f: "frame 0xFFA000 v"
  obtain k where k: "unat v = 4096 * k"
    using frame_aligned [OF f] unfolding page_aligned_dvd by (elim dvdE)
  have "16752640 \<le> unat v" "unat v < 16777216"
    using frameD(2,3) [OF f] by (simp_all add: word_le_nat_alt word_less_nat_alt PHYSTOP_def)
  with k have "k = 4090 \<or> k = 4091 \<or> k = 4092 \<or> k = 4093 \<or> k = 4094 \<or> k = 4095" by linarith
  with k show "v = 0xFFA000 \<or> v = 0xFFB000 \<or> v = 0xFFC000 \<or> v = 0xFFD000 \<or> v = 0xFFE000 \<or> v = 0xFFF000"
    by (auto simp: word_unat_eq_iff)
qed (auto simp: frame_def bad_frame_def PGSIZE_def PHYSTOP_def)

lemma pfn_top6: "pfn 0xFFA000 = 4090" "pfn 0xFFB000 = 4091" "pfn 0xFFC000 = 4092"
    "pfn 0xFFD000 = 4093" "pfn 0xFFE000 = 4094" "pfn 0xFFF000 = 4095"
  by (simp_all add: pfn_nat)

lemma fork_machine_wf: "wf_kmem 0xFFA000 fork_machine"
proof -
  have "free_frames 0xFFA000 fork_machine = set [0xFFF000]"
    by (auto simp: free_frames_def frames_at_top6) (simp_all add: fork_machine_def pfn_top6)
  moreover have "chain (phys fork_machine) (freelist fork_machine) [0xFFF000]"
    by (simp add: fork_machine_def)
  moreover have "unat (free_pages fork_machine) = length [0xFFF000 :: u32]"
    by (simp add: fork_machine_def)
  ultimately show ?thesis unfolding wf_kmem_def by (intro conjI exI [of _ "[0xFFF000]"]) auto
qed

lemma fork_machine_slots:
  "phys fork_machine 0xFFA000 i AND PTE_P \<noteq> 0 \<longleftrightarrow> i = 0" "phys fork_machine 0xFFA000 0 = 0xFFB007"
  "phys fork_machine 0xFFD000 i AND PTE_P \<noteq> 0 \<longleftrightarrow> i = 0" "phys fork_machine 0xFFD000 0 = 0xFFE007"
  by (simp_all add: fork_machine_def PTE_P_def)

lemma one_slot:
  assumes "\<And>i. m p i AND PTE_P \<noteq> 0 \<longleftrightarrow> i = 0"
  shows "tables m p = {p, PTE_ADDR (m p 0)}"
proof -
  have "{i. i < 1024 \<and> m p i AND PTE_P \<noteq> 0} = {0}" unfolding assms by auto
  then show ?thesis by (simp add: tables_def)
qed

lemma fork_machine_tables:
  "tables (phys fork_machine) 0xFFA000 = {0xFFA000, 0xFFB000}"
  "tables (phys fork_machine) 0xFFD000 = {0xFFD000, 0xFFE000}"
  using one_slot [of "phys fork_machine" "0xFFA000", OF fork_machine_slots(1)]
    one_slot [of "phys fork_machine" "0xFFD000", OF fork_machine_slots(3)]
  by (simp_all add: fork_machine_slots PTE_ADDR_def)

lemma fork_machine_in_use: "in_use 0xFFA000 fork_machine v \<longleftrightarrow>
    v = 0xFFA000 \<or> v = 0xFFB000 \<or> v = 0xFFC000 \<or> v = 0xFFD000 \<or> v = 0xFFE000"
  unfolding in_use_def frames_at_top6 by (auto simp: pfn_top6) (simp_all add: fork_machine_def)

lemma fork_machine_pgdirs:
  "wf_pgdir 0xFFA000 fork_machine 0xFFA000" "wf_pgdir 0xFFA000 fork_machine 0xFFD000"
  unfolding wf_pgdir_def fork_machine_tables fork_machine_slots
  by (auto simp: fork_machine_in_use fork_machine_slots PTE_ADDR_def)

lemma fork_machine_ready: "cow_ready 0xFFA000 fork_machine 0xFFA000 0xFFD000"
  unfolding cow_ready_def fork_machine_tables
  using fork_machine_wf fork_machine_pgdirs fork_machine_slots(3) by auto

lemma fork_machine_entry:
  "entry (phys fork_machine) 0xFFA000 0 = 0xFFC007" "entry (phys fork_machine) 0xFFD000 0 = 0"
proof -
  have "PDX 0 = 0" "PTX 0 = 0" by (simp_all add: PDX_nat PTX_nat)
  then show "entry (phys fork_machine) 0xFFA000 0 = 0xFFC007" "entry (phys fork_machine) 0xFFD000 0 = 0"
    by (simp_all add: entry_def fork_machine_def PTE_P_def PTE_ADDR_def)
qed

lemma fork_machine_shareable: "shareable 0xFFA000 fork_machine 0xFFA000 0xFFD000 0 (2 ^ 30)"
proof -
  have "PTE_ADDR 0xFFC007 = 0xFFC000" by (simp add: PTE_ADDR_def)
  then show ?thesis
    unfolding shareable_def Let_def fork_machine_entry fork_machine_tables
    by (simp add: fork_machine_in_use PTE_P_def) (simp add: fork_machine_def pfn_top6)
qed

section \<open>What fork shares\<close>

text \<open>C6: \<open>cowuvm\<close> never fails once the child's kernel part exists. Parent and child then see exactly
  the parent's words in every user page, through the same frames, neither may write them, and each
  frame's reference count grew by the number of pages that map it.\<close>

theorem cow_shares_memory:
  assumes "cow_ready kend s pgdir d" and "sz \<le> USERTOP"
    and "\<forall>j. 4096 * j < unat sz \<longrightarrow> shareable kend s pgdir d (of_nat (4096 * j)) (2 ^ 30) \<and>
        entry (phys s) d (of_nat (4096 * j)) AND PTE_P = 0"
  shows "\<exists>s'. page_loop (page_fuel sz) 0 sz (cow_body pgdir d) s = Inr (None, s') \<and>
     (\<forall>kdata s0. setupkvm kdata s0 = Inr (d, s) \<and> d \<noteq> 0 \<longrightarrow>
        cowuvm kend kdata pgdir sz s0 = Inr (d, s')) \<and>
     wf_kmem kend s' \<and> wf_pgdir kend s' pgdir \<and> wf_pgdir kend s' d \<and>
     (\<forall>u < sz. entry (phys s') pgdir u = entry (phys s) pgdir u AND NOT PTE_W \<and>
        entry (phys s') d u = entry (phys s') pgdir u \<and>
        (\<forall>k. view (phys s') pgdir u k = view (phys s) pgdir u k \<and>
             view (phys s') d u k = view (phys s) pgdir u k)) \<and>
     (\<forall>q. frame kend q \<longrightarrow>
        frefs s' q = frefs s q + mapped_to (phys s) pgdir ((unat sz + 4095) div 4096) q)"
proof -
  have "cow_upto kend pgdir d s 0 s"
    using assms(1) by (simp add: cow_upto_def mapped_to_def)
  moreover have "unat sz + 4096 \<le> 4096 * (0 + page_fuel sz)" by (simp add: page_fuel_def)
  moreover have "4096 * 0 < unat sz + 4096" by simp
  ultimately obtain s' n where
    l: "page_loop (page_fuel sz) 0 sz (cow_body pgdir d) s = Inr (None, s')"
      "unat sz \<le> 4096 * n" "4096 * n < unat sz + 4096" "cow_upto kend pgdir d s n s'"
    using cow_loop [OF assms(2,3)] by fastforce
  have n: "(unat sz + 4095) div 4096 = n" using l(2,3) by linarith
  have u: "entry (phys s') pgdir u = entry (phys s) pgdir u AND NOT PTE_W \<and>
        entry (phys s') d u = entry (phys s') pgdir u \<and>
        phys s' (PTE_ADDR (entry (phys s) pgdir u)) = phys s (PTE_ADDR (entry (phys s) pgdir u))"
    if "u < sz" for u
  proof -
    have lt: "unat u < unat sz" using that by (simp add: word_less_nat_alt)
    then have p: "unat u div 4096 < n" using l(2) by linarith
    have q: "4096 * (unat u div 4096) < unat sz" using lt by linarith
    have "unat sz < 2 ^ 32" using unsigned_less [of sz] by simp
    then have "4096 * (unat u div 4096) < 2 ^ 32" using q by linarith
    note pn = page_no [OF this]
    have "entry (phys s) pgdir u = entry (phys s) pgdir (of_nat (4096 * (unat u div 4096)))"
      using pn(3) [of u] pn(2) by (intro entry_same_page) simp
    then have "PTE_ADDR (entry (phys s) pgdir u) \<notin> tables (phys s) pgdir \<union> tables (phys s) d"
      using assms(3) q by (simp add: shareable_def Let_def del: of_nat_mult)
    then show ?thesis using l(4) p by (simp add: cow_upto_def)
  qed
  have v: "view (phys s') pgdir u k = view (phys s) pgdir u k \<and>
      view (phys s') d u k = view (phys s) pgdir u k" if "u < sz" for u k
    using u [OF that] by (simp add: view_def Let_def)
  show ?thesis
    using l(1,4) u v n by (intro exI [of _ s']) (auto simp: cowuvm_def cow_upto_def cow_ready_def)
qed

theorem cow_shares_memory_witness:
  "\<exists>s'. page_loop (page_fuel 4096) 0 4096 (cow_body 0xFFA000 0xFFD000) fork_machine = Inr (None, s') \<and>
     entry (phys s') 0xFFA000 0 = 0xFFC007 AND NOT PTE_W \<and>
     entry (phys s') 0xFFD000 0 = 0xFFC007 AND NOT PTE_W"
proof -
  have "(4096 :: u32) \<le> USERTOP" by (simp add: USERTOP_def)
  moreover have "\<forall>j. 4096 * j < unat (4096 :: u32) \<longrightarrow>
      shareable 0xFFA000 fork_machine 0xFFA000 0xFFD000 (of_nat (4096 * j)) (2 ^ 30) \<and>
      entry (phys fork_machine) 0xFFD000 (of_nat (4096 * j)) AND PTE_P = 0"
    using fork_machine_shareable fork_machine_entry by simp
  ultimately obtain s' where s': "page_loop (page_fuel 4096) 0 4096
      (cow_body 0xFFA000 0xFFD000) fork_machine = Inr (None, s')"
     "\<forall>u < 4096. entry (phys s') 0xFFA000 u = entry (phys fork_machine) 0xFFA000 u AND NOT PTE_W \<and>
        entry (phys s') 0xFFD000 u = entry (phys s') 0xFFA000 u"
    using cow_shares_memory [OF fork_machine_ready] by blast
  have "(0 :: u32) < 4096" by simp
  then show ?thesis using s' fork_machine_entry(1) by metis
qed

section \<open>A fault with no frame left\<close>

text \<open>C7: when a shared page is written and no frame is free, the handler does not fail: it copies the page over
  the first page of the process, maps the physical page 0, which the allocator does not own, writable
  at the faulting address, and drops the process's reference to the page that it had. Only when the process
  has no first page the kernel stops in the copy.\<close>

theorem cow_fault_out_of_frames:
  assumes wf: "wf_kmem kend s" and wp: "wf_pgdir kend s pgdir" and c: "cow_page kend s pgdir va"
    and sh: "1 < frefs s (PTE_ADDR (entry (phys s) pgdir va))" and none: "freelist s = 0"
    and z: "data_page kend s (tables (phys s) pgdir) pgdir 0"
  shows "if entry (phys s) pgdir 0 AND PTE_P = 0 then \<exists>err. pgfltintr va pgdir s = Inl err
    else \<exists>s'. pgfltintr va pgdir s = Inr s' \<and>
     phys s' (PTE_ADDR (entry (phys s) pgdir 0)) = phys s (PTE_ADDR (entry (phys s) pgdir va)) \<and>
     PTE_ADDR (entry (phys s') pgdir va) = 0 \<and> \<not> frame kend 0 \<and>
     entry (phys s') pgdir va AND PTE_P \<noteq> 0 \<and> entry (phys s') pgdir va AND PTE_W \<noteq> 0 \<and>
     frefs s' (PTE_ADDR (entry (phys s) pgdir va)) = frefs s (PTE_ADDR (entry (phys s) pgdir va)) - 1"
proof (cases "entry (phys s) pgdir 0 AND PTE_P = 0")
  case True
  then show ?thesis using pgflt_oom(2) [OF wf c sh none] by simp
next
  case False
  let ?e = "entry (phys s) pgdir va" and ?q = "PTE_ADDR (entry (phys s) pgdir 0)"
  have pr: "?e AND PTE_P \<noteq> 0" using c by (simp add: cow_page_def Let_def)
  have k: "0 < kend" using wf by (simp add: wf_kmem_def)
  have nf: "\<not> frame kend 0" using frame_nonzero [OF k] by blast
  have q: "?q \<notin> tables (phys s) pgdir" using z False by (simp add: data_page_def Let_def)
  have pd: "phys s pgdir (PDX va) AND PTE_P \<noteq> 0" by (rule entry_present [OF pr])
  have "PTE_ADDR (phys s pgdir (PDX va)) \<in> tables (phys s) pgdir" using pd by (intro table_in_tables) simp
  then have ne: "?q \<noteq> PTE_ADDR (phys s pgdir (PDX va))" using q by auto
  note ent = entry_copy_data [OF wp q pd, of "PTE_ADDR ?e" "PTE_FLAGS ?e OR PTE_W" va]
  note x = new_entry [OF pr page_aligned_0]
  have "ref_cnt s (pfn (PTE_ADDR ?e)) \<noteq> 0" using sh by auto
  from unat_sub1 [OF this] show ?thesis
    using pgflt_oom(1) [OF wf c sh none] False ent x nf ne by (simp add: copy_page_def)
qed

definition full_machine :: kmem where
  "full_machine = cow_machine\<lparr>freelist := 0, free_pages := 0, ref_cnt := (ref_cnt cow_machine)(4095 := 1)\<rparr>"

lemma full_machine_wf: "wf_kmem 0xFFC000 full_machine"
proof -
  have "free_frames 0xFFC000 full_machine = set []"
    by (auto simp: free_frames_def frames_at_top)
      (simp_all add: full_machine_def cow_machine_def pfn_top)
  then show ?thesis unfolding wf_kmem_def
    by (intro conjI exI [of _ "[]"]) (auto simp: full_machine_def)
qed

lemma full_machine_same:
  "phys full_machine = phys cow_machine" "in_use 0xFFC000 cow_machine v \<Longrightarrow> in_use 0xFFC000 full_machine v"
  by (simp_all add: full_machine_def in_use_def)

lemma full_machine_pgdir: "wf_pgdir 0xFFC000 full_machine 0xFFC000"
  by (rule wf_pgdir_cong [OF cow_machine_pgdir])
    (simp_all add: full_machine_same wf_pgdir_in_use [OF cow_machine_pgdir])

lemma full_machine_page: "cow_page 0xFFC000 full_machine 0xFFC000 0"
proof -
  have "frefs full_machine 0xFFE000 = frefs cow_machine 0xFFE000" "PTE_ADDR 0xFFE005 = 0xFFE000"
    by (simp_all add: full_machine_def pfn_top PTE_ADDR_def)
  then show ?thesis
    using cow_machine_page by (simp add: cow_page_def Let_def full_machine_same cow_machine_entry)
qed

theorem cow_fault_out_of_frames_witness:
  "\<exists>s'. pgfltintr 0 0xFFC000 full_machine = Inr s' \<and> PTE_ADDR (entry (phys s') 0xFFC000 0) = 0"
proof -
  have "1 < frefs full_machine (PTE_ADDR (entry (phys full_machine) 0xFFC000 0))"
    unfolding full_machine_same cow_machine_entry
    by (simp add: full_machine_def cow_machine_def PTE_ADDR_def pfn_top)
  moreover have "freelist full_machine = 0" by (simp add: full_machine_def)
  moreover have "data_page 0xFFC000 full_machine (tables (phys full_machine) 0xFFC000) 0xFFC000 0"
    "entry (phys full_machine) 0xFFC000 0 AND PTE_P \<noteq> 0"
    using full_machine_page by (simp_all add: data_page_def cow_page_def Let_def)
  ultimately show ?thesis
    using cow_fault_out_of_frames [OF full_machine_wf full_machine_pgdir full_machine_page] by auto
qed

end
