(* ===== verification/Vm_Grow.thy ===== *)
theory Vm_Grow
  imports Cow
begin

text \<open>
  Walking with allocation: what \<open>walkpgdir(pgdir, va, 1)\<close> does to the memory when it has to create
  the table of \<open>va\<close>. The pages that were in use keep their words, except the directory.
\<close>


section \<open>Creating a table on the way\<close>

lemma zero_page_entry:
  assumes wp: "wf_pgdir kend s pgdir" and ab: "phys s pgdir (PDX va) AND PTE_P = 0"
    and f: "frame kend t" and nt: "t \<notin> tables (phys s) pgdir"
  defines "m \<equiv> store_word (fill_page (phys s) t 0) pgdir (PDX va) (t OR PTE_P OR PTE_W OR PTE_U)"
  shows "m pgdir (PDX va) AND PTE_P \<noteq> 0" and "PTE_ADDR (m pgdir (PDX va)) = t"
    and "entry m pgdir = entry (phys s) pgdir" and "tables m pgdir = insert t (tables (phys s) pgdir)"
    and "i \<noteq> PDX va \<Longrightarrow> m pgdir i = phys s pgdir i"
proof -
  have tp: "t \<noteq> pgdir" using nt by auto
  have at: "m pgdir (PDX va) = t OR PTE_P OR PTE_W OR PTE_U" by (simp add: m_def)
  show pr: "m pgdir (PDX va) AND PTE_P \<noteq> 0"
    unfolding at bit0_P by (simp add: bit_simps PTE_P_def)
  show ad: "PTE_ADDR (m pgdir (PDX va)) = t"
    unfolding at using f by (simp add: PTE_ADDR_or)
  show oth: "i \<noteq> PDX va \<Longrightarrow> m pgdir i = phys s pgdir i" for i
    using tp by (simp add: m_def store_word_def fill_page_def)
  have mt: "m t = (\<lambda>_. 0)" using tp by (simp add: m_def store_word_def fill_page_def)
  have mq: "q \<noteq> t \<Longrightarrow> q \<noteq> pgdir \<Longrightarrow> m q = phys s q" for q
    by (simp add: m_def store_word_def fill_page_def)
  show "entry m pgdir = entry (phys s) pgdir"
  proof
    fix u
    show "entry m pgdir u = entry (phys s) pgdir u"
    proof (cases "PDX u = PDX va")
      case True
      then show ?thesis using pr ad mt ab by (simp add: entry_def)
    next
      case False
      note o = oth [OF this]
      show ?thesis
      proof (cases "phys s pgdir (PDX u) AND PTE_P \<noteq> 0")
        case True
        have "PTE_ADDR (phys s pgdir (PDX u)) \<in> tables (phys s) pgdir"
          using True by (intro table_in_tables) simp_all
        then have "PTE_ADDR (phys s pgdir (PDX u)) \<noteq> t" using nt by blast
        moreover have "PTE_ADDR (phys s pgdir (PDX u)) \<noteq> pgdir"
          using wf_pgdir_neq [OF wp _ True] by simp
        ultimately show ?thesis using o mq by (simp add: entry_def)
      next
        case False
        then show ?thesis using o by (simp add: entry_def)
      qed
    qed
  qed
  show "tables m pgdir = insert t (tables (phys s) pgdir)"
  proof -
    have "{i. i < 1024 \<and> m pgdir i AND PTE_P \<noteq> 0} =
        insert (PDX va) {i. i < 1024 \<and> phys s pgdir i AND PTE_P \<noteq> 0}"
    proof (intro set_eqI)
      fix x
      show "x \<in> {i. i < 1024 \<and> m pgdir i AND PTE_P \<noteq> 0} \<longleftrightarrow>
          x \<in> insert (PDX va) {i. i < 1024 \<and> phys s pgdir i AND PTE_P \<noteq> 0}"
        using pr oth [of x] by (cases "x = PDX va") simp_all
    qed
    moreover have "m pgdir ` {i. i < 1024 \<and> phys s pgdir i AND PTE_P \<noteq> 0} =
        phys s pgdir ` {i. i < 1024 \<and> phys s pgdir i AND PTE_P \<noteq> 0}"
    proof (intro image_cong refl)
      fix x assume "x \<in> {i. i < 1024 \<and> phys s pgdir i AND PTE_P \<noteq> 0}"
      then have "x \<noteq> PDX va" using ab by blast
      then show "m pgdir x = phys s pgdir x" by (rule oth)
    qed
    ultimately show ?thesis by (auto simp: tables_def ad)
  qed
qed

text \<open>The state after a step that allocated pages and wrote only pages of \<open>W\<close>.\<close>

definition grows :: "u32 \<Rightarrow> u32 set \<Rightarrow> kmem \<Rightarrow> kmem \<Rightarrow> bool" where
  "grows kend W s s' \<longleftrightarrow> wf_kmem kend s' \<and>
     (\<forall>q. in_use kend s q \<longrightarrow> frefs s' q = frefs s q \<and> (q \<notin> W \<longrightarrow> phys s' q = phys s q))"

lemma grows_in_use: "grows kend W s s' \<Longrightarrow> in_use kend s q \<Longrightarrow> in_use kend s' q"
  by (auto simp: grows_def in_use_def) (metis unat_eq_0)

lemma walk_create:
  assumes wf: "wf_kmem kend s" and wp: "wf_pgdir kend s pgdir"
    and w: "walkpgdir pgdir va True s = Inr (Some (pt, k), s')"
  shows "k = PTX va" and "phys s' pgdir (PDX va) AND PTE_P \<noteq> 0"
    and "pt = PTE_ADDR (phys s' pgdir (PDX va))" and "grows kend {pgdir} s s'"
    and "wf_pgdir kend s' pgdir" and "entry (phys s') pgdir = entry (phys s) pgdir"
    and "tables (phys s') pgdir \<subseteq> tables (phys s) pgdir \<union> free_frames kend s"
proof -
  have "k = PTX va \<and> phys s' pgdir (PDX va) AND PTE_P \<noteq> 0 \<and>
      pt = PTE_ADDR (phys s' pgdir (PDX va)) \<and> grows kend {pgdir} s s' \<and>
      wf_pgdir kend s' pgdir \<and> entry (phys s') pgdir = entry (phys s) pgdir \<and>
      tables (phys s') pgdir \<subseteq> tables (phys s) pgdir \<union> free_frames kend s"
  proof (cases "phys s pgdir (PDX va) AND PTE_P = 0")
    case False
    then have "pt = PTE_ADDR (phys s pgdir (PDX va))" "k = PTX va" "s' = s"
      using w by (auto simp: walk_present)
    then show ?thesis using False wf wp by (simp add: grows_def)
  next
    case True
    from w True obtain s1 where al: "kalloc s = Inr (pt, s1)" "pt \<noteq> 0" and k: "k = PTX va"
      and s': "s' = s1\<lparr>phys := store_word (fill_page (phys s1) pt 0) pgdir (PDX va)
                            (pt OR PTE_P OR PTE_W OR PTE_U)\<rparr>"
      by (auto simp: walkpgdir_def Let_def res_simps split: if_splits)
    note f = ka.alloc_page [OF wf al]
    have mf: "pt \<in> free_frames kend s" using f by (simp add: free_frames_def unat_eq_0)
    have fresh: "in_use kend s q \<Longrightarrow> q \<noteq> pt" for q using mf in_use_not_free by blast
    have nt: "pt \<notin> tables (phys s) pgdir" using wf_pgdir_in_use [OF wp] fresh by blast
    have fr: "frame kend pt" and ph: "phys s1 = phys s" using f by auto
    note z = zero_page_entry [OF wp True fr nt]
    have m: "phys s' = store_word (fill_page (phys s) pt 0) pgdir (PDX va)
        (pt OR PTE_P OR PTE_W OR PTE_U)" by (simp add: s' ph)
    have ff: "free_frames kend s1 = free_frames kend s - {pt}"
      using f by (auto simp: free_frames_def unat_eq_0 [symmetric])
    have pu: "in_use kend s pgdir" by (rule wf_pgdir_in_use [OF wp]) simp
    have "wf_kmem kend s'"
      unfolding s' by (rule wf_kmem_write)
        (use f ff in_use_not_free [OF pu] ph in \<open>auto simp: store_word_def fill_page_def\<close>)
    then have g: "grows kend {pgdir} s s'"
      unfolding grows_def using f fresh in_use_frame
      by (auto simp: s' store_word_def fill_page_def)
    have iu: "in_use kend s' pt" using f by (auto simp: in_use_def s')
    have "wf_pgdir kend s' pgdir"
      unfolding wf_pgdir_def m [symmetric]
    proof (intro conjI ballI allI impI)
      show "\<And>t. t \<in> tables (phys s') pgdir \<Longrightarrow> in_use kend s' t"
        using z(4) grows_in_use [OF g wf_pgdir_in_use [OF wp]] iu by (auto simp: m)
    next
      fix i assume i: "i < 1024" "phys s' pgdir i AND PTE_P \<noteq> 0"
      show "PTE_ADDR (phys s' pgdir i) \<noteq> pgdir"
        using i z(2,5) fresh [OF pu] wf_pgdir_neq [OF wp] by (cases "i = PDX va") (auto simp: m)
    next
      fix i j assume ij: "i < 1024" "j < 1024" "phys s' pgdir i AND PTE_P \<noteq> 0"
        "phys s' pgdir j AND PTE_P \<noteq> 0" "PTE_ADDR (phys s' pgdir i) = PTE_ADDR (phys s' pgdir j)"
      have o: "x < 1024 \<Longrightarrow> x \<noteq> PDX va \<Longrightarrow> phys s' pgdir x AND PTE_P \<noteq> 0 \<Longrightarrow>
          PTE_ADDR (phys s' pgdir x) \<noteq> pt" for x
        using z(5) nt table_in_tables [of x "phys s" pgdir] by (auto simp: m)
      show "i = j"
        using ij o [of i] o [of j] z(2,5) wp
        by (cases "i = PDX va"; cases "j = PDX va") (auto simp: m wf_pgdir_def)
    qed
    then show ?thesis using k z(1,2,3,4) g mf by (auto simp: m)
  qed
  then show "k = PTX va" "phys s' pgdir (PDX va) AND PTE_P \<noteq> 0"
    "pt = PTE_ADDR (phys s' pgdir (PDX va))" "grows kend {pgdir} s s'"
    "wf_pgdir kend s' pgdir" "entry (phys s') pgdir = entry (phys s) pgdir"
    "tables (phys s') pgdir \<subseteq> tables (phys s) pgdir \<union> free_frames kend s" by blast+
qed

end
