(* ===== verification/Psort_Spec.thy ===== *)
theory Psort_Spec
  imports Psort
begin

text \<open>
  Correctness of the parallel sort: closed forms of the copy loops, \<open>merge\<close> as the stable merge of
  lists, \<open>merge_sort\<close> as the stable sort of its range and of nothing else, the ranges of the threads
  as a partition, and the output file.
\<close>


section \<open>The loops\<close>

lemma merge_both_ok:
  assumes "merge_both m e i j k a = (i', j', k', a')" and "i \<le> m" "m \<le> j" "j \<le> e" "k + m = i + j"
  shows "keys a' = keys a \<and> i \<le> i' \<and> i' \<le> m \<and> j \<le> j' \<and> j' \<le> e \<and> k' + m = i' + j' \<and>
    (i' = m \<or> j' = e) \<and> (\<forall>x. x < k \<or> k' \<le> x \<longrightarrow> temp a' x = temp a x) \<and>
    slice (temp a') k k' @ merge_list key (slice (keys a) i' m) (slice (keys a) j' e) =
      merge_list key (slice (keys a) i m) (slice (keys a) j e)"
  using assms
proof (induction m e i j k a arbitrary: i' j' k' a' rule: merge_both.induct)
  case (1 m e i j k a)
  show ?case
  proof (cases "i < m \<and> j < e")
    case False
    then show ?thesis using "1.prems" by (auto simp: merge_both.simps [of m e i j])
  next
    case ij: True
    have step: "keys a' = keys a \<and> i \<le> i' \<and> i' \<le> m \<and> j \<le> j' \<and> j' \<le> e \<and> k' + m = i' + j' \<and>
        (i' = m \<or> j' = e) \<and> (\<forall>x. x < k \<or> k' \<le> x \<longrightarrow> temp a' x = temp a x) \<and>
        slice (temp a') k k' @ merge_list key (slice (keys a) i' m) (slice (keys a) j' e) =
        z # merge_list key (slice (keys a) i0 m) (slice (keys a) j0 e)"
      if r: "keys a' = keys (a\<lparr>temp := (temp a)(k := z)\<rparr>) \<and> i0 \<le> i' \<and> i' \<le> m \<and> j0 \<le> j' \<and> j' \<le> e \<and>
        k' + m = i' + j' \<and> (i' = m \<or> j' = e) \<and>
        (\<forall>x. x < Suc k \<or> k' \<le> x \<longrightarrow> temp a' x = temp (a\<lparr>temp := (temp a)(k := z)\<rparr>) x) \<and>
        slice (temp a') (Suc k) k' @
          merge_list key (slice (keys (a\<lparr>temp := (temp a)(k := z)\<rparr>)) i' m)
            (slice (keys (a\<lparr>temp := (temp a)(k := z)\<rparr>)) j' e) =
        merge_list key (slice (keys (a\<lparr>temp := (temp a)(k := z)\<rparr>)) i0 m)
            (slice (keys (a\<lparr>temp := (temp a)(k := z)\<rparr>)) j0 e)"
        and le: "i \<le> i0" "j \<le> j0" "i0 + j0 = Suc (i + j)" for z i0 j0
    proof -
      have k: "k < k'" using r le "1.prems" by linarith
      have "temp a' k = z" using r by simp
      then show ?thesis using r le k slice_Cons [OF k, of "temp a'"] by auto
    qed
    note sl = slice_Cons [of i m "keys a", OF conjunct1 [OF ij]] slice_Cons [of j e "keys a", OF conjunct2 [OF ij]]
    show ?thesis
    proof (cases "key (keys a i) \<le> key (keys a j)")
      case True
      have mb: "merge_both m e (Suc i) j (Suc k) (a\<lparr>temp := (temp a)(k := keys a i)\<rparr>) = (i', j', k', a')"
        using "1.prems"(1) ij True by (simp add: merge_both.simps [of m e i j])
      note r = "1.IH"(1) [OF ij True mb]
      have z: "merge_list key (slice (keys a) i m) (slice (keys a) j e) =
          keys a i # merge_list key (slice (keys a) (Suc i) m) (slice (keys a) j e)"
        using True by (simp add: sl)
      show ?thesis unfolding z by (rule step [OF r]) (use "1.prems" ij in auto)
    next
      case False
      have mb: "merge_both m e i (Suc j) (Suc k) (a\<lparr>temp := (temp a)(k := keys a j)\<rparr>) = (i', j', k', a')"
        using "1.prems"(1) ij False by (simp add: merge_both.simps [of m e i j])
      note r = "1.IH"(2) [OF ij False mb]
      have z: "merge_list key (slice (keys a) i m) (slice (keys a) j e) =
          keys a j # merge_list key (slice (keys a) i m) (slice (keys a) (Suc j) e)"
        using False by (simp add: sl)
      show ?thesis unfolding z by (rule step [OF r]) (use "1.prems" ij in auto)
    qed
  qed
qed

lemma copy_rest_eq:
  "copy_rest m i k a = (k + (m - i),
     a\<lparr>temp := \<lambda>x. if k \<le> x \<and> x < k + (m - i) then keys a (i + (x - k)) else temp a x\<rparr>)"
proof (induction m i k a rule: copy_rest.induct)
  case (1 m i k a)
  show ?case
  proof (cases "i < m")
    case True
    let ?b = "a\<lparr>temp := (temp a)(k := keys a i)\<rparr>"
    have n: "Suc k + (m - Suc i) = k + (m - i)" using True by simp
    have "(if Suc k \<le> x \<and> x < k + (m - i) then keys ?b (Suc i + (x - Suc k)) else temp ?b x) =
       (if k \<le> x \<and> x < k + (m - i) then keys a (i + (x - k)) else temp a x)" for x
    proof (cases "Suc k \<le> x")
      case le: True
      then have "Suc i + (x - Suc k) = i + (x - k)" by linarith
      then show ?thesis using le True by simp
    qed (use True in auto)
    then have f: "(\<lambda>x. if Suc k \<le> x \<and> x < k + (m - i) then keys ?b (Suc i + (x - Suc k)) else temp ?b x) =
       (\<lambda>x. if k \<le> x \<and> x < k + (m - i) then keys a (i + (x - k)) else temp a x)" by (rule ext)
    have "copy_rest m i k a = copy_rest m (Suc i) (Suc k) ?b"
      using True by (simp add: copy_rest.simps [of m i])
    then show ?thesis by (simp only: 1 [OF True] n f) simp
  next
    case False
    have "(\<lambda>x. if k \<le> x \<and> x < k then keys a (i + (x - k)) else temp a x) = temp a"
      by (rule ext) simp
    then show ?thesis using False by (simp add: copy_rest.simps [of m i])
  qed
qed

lemma copy_back_eq:
  "copy_back e i a = a\<lparr>keys := \<lambda>x. if i \<le> x \<and> x < e then temp a x else keys a x\<rparr>"
proof (induction e i a rule: copy_back.induct)
  case (1 e i a)
  show ?case
    by (cases "i < e") (auto simp: copy_back.simps [of e i] 1 fun_eq_iff not_less_eq_eq)
qed

lemma slice_temp_rest:
  "slice (\<lambda>x. if k \<le> x \<and> x < k + n then f (i + (x - k)) else g x) k (k + n) = slice f i (i + n)"
proof -
  have "[i..<i + n] = map (\<lambda>x. i + (x - k)) [k..<k + n]"
    by (rule nth_equalityI) auto
  then show ?thesis by (simp add: slice_def)
qed

lemma merge_ok:
  assumes "s \<le> m" "m \<le> e"
  shows "slice (keys (merge s m e a)) s e = merge_list key (slice (keys a) s m) (slice (keys a) m e)"
    and "x < s \<or> e \<le> x \<Longrightarrow> keys (merge s m e a) x = keys a x"
    and "x < s \<or> e \<le> x \<Longrightarrow> temp (merge s m e a) x = temp a x"
proof -
  obtain i j k b where mb: "merge_both m e s m s a = (i, j, k, b)" by (metis prod_cases4)
  note o = merge_both_ok [OF mb assms(1) order_refl assms(2) refl]
  define c where "c = snd (copy_rest e j (k + (m - i)) (snd (copy_rest m i k b)))"
  have m: "merge s m e a = copy_back e s c"
    by (simp add: merge_def mb c_def copy_rest_eq)
  have kc: "keys c = keys a" using o by (simp add: c_def copy_rest_eq)
  have tc: "temp c = (\<lambda>x. if k + (m - i) \<le> x \<and> x < k + (m - i) + (e - j) then keys a (j + (x - (k + (m - i))))
      else if k \<le> x \<and> x < k + (m - i) then keys a (i + (x - k)) else temp b x)"
    using o by (auto simp: c_def copy_rest_eq fun_eq_iff)
  have e: "e = k + (m - i) + (e - j)" using o by linarith
  have sk: "s \<le> k" using o by linarith
  show "x < s \<or> e \<le> x \<Longrightarrow> keys (merge s m e a) x = keys a x"
    by (auto simp: m copy_back_eq kc)
  show "x < s \<or> e \<le> x \<Longrightarrow> temp (merge s m e a) x = temp a x"
    using e o sk by (auto simp: m copy_back_eq tc)
  have "slice (temp c) s e = slice (temp b) s k @ merge_list key (slice (keys a) i m) (slice (keys a) j e)"
  proof (cases "i = m")
    case True
    have ej: "e = k + (e - j)" using e True by simp
    have "slice (temp c) s e = slice (temp c) s k @ slice (temp c) k e"
      using sk ej by (intro slice_append [symmetric]) linarith+
    moreover have "slice (temp c) s k = slice (temp b) s k"
      by (rule slice_cong) (simp add: tc True)
    moreover have "slice (temp c) k e = slice (keys a) j e"
    proof -
      have "slice (temp c) k (k + (e - j)) = slice (keys a) j (j + (e - j))"
        by (rule trans [OF slice_cong slice_temp_rest [of k "e - j" "keys a" j "temp b"]]) (simp add: tc True)
      moreover have "j + (e - j) = e" using o by linarith
      ultimately show ?thesis by (simp only: ej [symmetric])
    qed
    ultimately show ?thesis using True by simp
  next
    case False
    then have je: "j = e" using o by blast
    have em: "e = k + (m - i)" using e je by simp
    have "slice (temp c) s e = slice (temp c) s k @ slice (temp c) k e"
      using sk em by (intro slice_append [symmetric]) linarith+
    moreover have "slice (temp c) s k = slice (temp b) s k"
      by (rule slice_cong) (simp add: tc je)
    moreover have "slice (temp c) k e = slice (keys a) i m"
    proof -
      have "slice (temp c) k (k + (m - i)) = slice (keys a) i (i + (m - i))"
        by (rule trans [OF slice_cong slice_temp_rest [of k "m - i" "keys a" i "temp b"]]) (simp add: tc je)
      moreover have "i + (m - i) = m" using o by linarith
      ultimately show ?thesis by (simp only: em [symmetric])
    qed
    ultimately show ?thesis using je by simp
  qed
  moreover have "slice (keys (merge s m e a)) s e = slice (temp c) s e"
    by (rule slice_cong) (simp add: m copy_back_eq)
  ultimately show "slice (keys (merge s m e a)) s e =
      merge_list key (slice (keys a) s m) (slice (keys a) m e)"
    using o by simp
qed

section \<open>Sorting a range\<close>

text \<open>\<open>merge_sort\<close> is the stable sort of its range, and it is local to that range.\<close>

lemma merge_sort_ok:
  "s \<le> e \<Longrightarrow> slice (keys (merge_sort s e a)) s e = sort_key key (slice (keys a) s e) \<and>
    (\<forall>x. x < s \<or> e \<le> x \<longrightarrow> keys (merge_sort s e a) x = keys a x \<and> temp (merge_sort s e a) x = temp a x)"
proof (induction s e a rule: merge_sort.induct)
  case (1 s e a)
  show ?case
  proof (cases "e - s < 2")
    case True
    have "slice (keys a) s e = sort_key key (slice (keys a) s e)"
    proof (cases "e = s")
      case False
      then have "e = Suc s" using True "1.prems" by linarith
      then show ?thesis by (simp add: slice_Cons)
    qed simp
    then show ?thesis using True by (simp add: merge_sort.simps [of s e])
  next
    case False
    define m where "m = s + (e - s) div 2"
    have le: "s \<le> m" "m \<le> e" using False by (auto simp: m_def)
    let ?a1 = "merge_sort s m a"
    let ?a2 = "merge_sort m e ?a1"
    note l = "1.IH"(1) [OF False m_def le(1)] and r = "1.IH"(2) [OF False m_def le(2)]
    have ms: "merge_sort s e a = merge s m e ?a2"
      using False by (simp add: merge_sort.simps [of s e] m_def [symmetric] Let_def)
    have s1: "slice (keys ?a2) s m = sort_key key (slice (keys a) s m)"
      using l r by (metis (no_types, lifting) slice_cong)
    have "slice (keys ?a1) m e = slice (keys a) m e"
      using l by (intro slice_cong) simp
    then have s2: "slice (keys ?a2) m e = sort_key key (slice (keys a) m e)" using r by simp
    show ?thesis
      unfolding ms merge_ok(1) [OF le] s1 s2 merge_sorted_halves slice_append [OF le]
      using l r le merge_ok(2,3) [OF le] by simp
  qed
qed

lemmas merge_sort_sorts = merge_sort_ok [THEN conjunct1]
lemmas merge_sort_frame = merge_sort_ok [THEN conjunct2, rule_format]

text \<open>A thread neither changes nor depends on what lies outside its range.\<close>

lemma merge_sort_local:
  assumes "s \<le> e" and "\<And>x. s \<le> x \<Longrightarrow> x < e \<Longrightarrow> keys a x = keys b x" and "s \<le> x" "x < e"
  shows "keys (merge_sort s e a) x = keys (merge_sort s e b) x"
proof -
  have "slice (keys a) s e = slice (keys b) s e" using assms(2) by (rule slice_cong)
  then have "slice (keys (merge_sort s e a)) s e = slice (keys (merge_sort s e b)) s e"
    using assms(1) by (simp add: merge_sort_sorts)
  then show ?thesis using assms(3,4) by (rule slice_eqD)
qed

section \<open>The threads\<close>

lemma range_le:
  assumes "i < t"
  shows "start (thread_params t n i) \<le> stop (thread_params t n i)"
    and "stop (thread_params t n i) \<le> n"
    and "stop (thread_params t n i) = (if Suc i = t then n else start (thread_params t n (Suc i)))"
proof -
  have m: "j \<le> t \<Longrightarrow> j * (n div t) \<le> n" for j
    by (metis div_times_less_eq_dividend le_trans mult.commute mult_le_mono1)
  show "start (thread_params t n i) \<le> stop (thread_params t n i)"
    "stop (thread_params t n i) \<le> n"
    using assms m [of i] m [of "i + 1"] by (auto simp: thread_params_def)
  show "stop (thread_params t n i) = (if Suc i = t then n else start (thread_params t n (Suc i)))"
    using assms by (auto simp: thread_params_def)
qed

lemma range_mono:
  assumes "i < j" "j < t"
  shows "stop (thread_params t n i) \<le> start (thread_params t n j)"
proof -
  have "(i + 1) * (n div t) \<le> j * (n div t)" using assms by (intro mult_le_mono1) simp
  moreover have "i \<noteq> t - 1" using assms by linarith
  ultimately show ?thesis by (simp add: thread_params_def)
qed

abbreviation seg :: "nat \<Rightarrow> nat \<Rightarrow> arrays \<Rightarrow> nat \<Rightarrow> KeyIndex list" where
  "seg t n a i \<equiv> slice (keys a) (start (thread_params t n i)) (stop (thread_params t n i))"

lemma sort_thread_seg:
  assumes "i < t" "j < t"
  shows "seg t n (sort_thread (thread_params t n i) a) j =
    (if j = i then sort_key key (seg t n a i) else seg t n a j)"
proof (cases "j = i")
  case True
  then show ?thesis using merge_sort_sorts [OF range_le(1) [OF assms(1)]] by (simp add: sort_thread_def)
next
  case False
  have "x < start (thread_params t n i) \<or> stop (thread_params t n i) \<le> x"
    if "start (thread_params t n j) \<le> x" "x < stop (thread_params t n j)" for x
    using False range_mono [of i j t n] range_mono [of j i t n] assms that by linarith
  then have "seg t n (sort_thread (thread_params t n i) a) j = seg t n a j"
    using merge_sort_frame [OF range_le(1) [OF assms(1)]]
    by (intro slice_cong) (simp add: sort_thread_def)
  then show ?thesis using False by simp
qed

lemma threads_sorted:
  assumes "distinct order" "set order \<subseteq> {..<t}" "j < t"
  shows "seg t n (fold (\<lambda>i. sort_thread (thread_params t n i)) order a) j =
    (if j \<in> set order then sort_key key (seg t n a j) else seg t n a j)"
  using assms
proof (induction order arbitrary: a)
  case (Cons i order)
  then show ?case by (simp add: sort_thread_seg)
qed simp

lemma final_merge_upto:
  assumes "\<And>i. i < t \<Longrightarrow> seg t n a i = sort_key key (seg t n a0 i)" and "k \<le> t" "0 < t"
  defines "b \<equiv> fold (\<lambda>i. merge 0 (start (thread_params t n i)) (stop (thread_params t n i))) [0..<k] a"
  defines "e \<equiv> (if k = t then n else start (thread_params t n k))"
  shows "slice (keys b) 0 e = sort_key key (slice (keys a0) 0 e) \<and>
    (\<forall>i < t. k \<le> i \<longrightarrow> seg t n b i = seg t n a i)"
  using assms(2) unfolding b_def e_def
proof (induction k)
  case 0
  then show ?case using \<open>0 < t\<close> by (simp add: thread_params_def)
next
  case (Suc k)
  let ?p = "thread_params t n k"
  let ?b = "fold (\<lambda>i. merge 0 (start (thread_params t n i)) (stop (thread_params t n i))) [0..<k] a"
  have k: "k < t" using Suc.prems by simp
  have IH: "slice (keys ?b) 0 (start ?p) = sort_key key (slice (keys a0) 0 (start ?p))"
    "\<forall>i < t. k \<le> i \<longrightarrow> seg t n ?b i = seg t n a i"
    using Suc k by auto
  have s2: "seg t n ?b k = sort_key key (seg t n a0 k)" using IH(2) assms(1) k by simp
  note m = merge_ok [OF le0 range_le(1) [OF k, of n], where a = ?b]
  have e: "(if Suc k = t then n else start (thread_params t n (Suc k))) = stop ?p"
    using range_le(3) [OF k] by simp
  have "slice (keys (merge 0 (start ?p) (stop ?p) ?b)) 0 (stop ?p) =
      sort_key key (slice (keys a0) 0 (stop ?p))"
    unfolding m(1) IH(1) s2 merge_sorted_halves slice_append [OF le0 range_le(1) [OF k]] ..
  moreover have "seg t n (merge 0 (start ?p) (stop ?p) ?b) i = seg t n a i" if "i < t" "Suc k \<le> i" for i
  proof -
    have "seg t n (merge 0 (start ?p) (stop ?p) ?b) i = seg t n ?b i"
      using range_mono [of k i t n] that m(2) by (intro slice_cong) simp
    then show ?thesis using IH(2) that by simp
  qed
  ultimately show ?case unfolding e by simp
qed

lemma sorted_by_threads:
  assumes "0 < t" and "distinct order" "set order = {..<t}"
  shows "slice (keys (final_merge t n (fold (\<lambda>i. sort_thread (thread_params t n i)) order a))) 0 n =
    sort_key key (slice (keys a) 0 n)"
proof -
  have "seg t n (fold (\<lambda>i. sort_thread (thread_params t n i)) order a) i = sort_key key (seg t n a i)"
    if "i < t" for i
    using threads_sorted [OF assms(2) _ that] assms(3) that by simp
  from final_merge_upto [OF this order_refl assms(1)] show ?thesis by (simp add: final_merge_def)
qed

section \<open>The sorted file\<close>

text \<open>The specification: the records of the file, stably sorted by their keys.\<close>

definition records :: "u8 list \<Rightarrow> u8 list list" where
  "records data = map (\<lambda>i. take 100 (drop (100 * i) data)) [0..<length data div 100]"

definition rec_key :: "u8 list \<Rightarrow> int" where
  "rec_key r = int_at r 0"

lemma sort_key_map:
  assumes "\<And>x. x \<in> set xs \<Longrightarrow> g (h x) = f x"
  shows "sort_key g (map h xs) = map h (sort_key f xs)"
proof -
  have ins: "insort_key g (h x) (map h ys) = map h (insort_key f x ys)"
    if "g (h x) = f x" "\<And>y. y \<in> set ys \<Longrightarrow> g (h y) = f y" for x ys
    using that by (induction ys) auto
  show ?thesis using assms
  proof (induction xs)
    case (Cons x xs)
    then show ?case using ins [of x "sort_key f xs"] by simp
  qed simp
qed

lemma read_keys_at:
  "i < n \<Longrightarrow> keys (read_keys data n a) i = \<lparr>key = int_at data (100 * i), index = 100 * i\<rparr>"
  by (induction n) (auto simp: Let_def less_Suc_eq)

lemma int_at_record:
  assumes "off + 100 \<le> length data"
  shows "rec_key (take 100 (drop off data)) = int_at data off"
  using assms by (simp add: rec_key_def int_at_def)

lemma num_records_eq:
  assumes "length data div 100 \<le> MAX_SIZE"
  shows "num_records data = length data div 100"
proof -
  have l: "length data div 100 \<le> 50000000" using assms by (simp add: MAX_SIZE_def)
  let ?w = "of_nat (length data div 100) :: u32"
  have u: "unat ?w = length data div 100"
    unfolding unsigned_of_nat of_nat_id by (rule take_bit_nat_eq_self) (use l in simp)
  have "sint ?w = int (unat ?w)" by (rule sint_small) (use u l in simp)
  then show ?thesis unfolding num_records_def u by simp
qed

lemma write_sorted:
  assumes "n = length data div 100"
    and "slice (keys b) 0 n = sort_key key (slice (keys (read_keys data n a)) 0 n)"
  shows "write_records data n b =
    concat (sort_key rec_key (records data)) @ replicate (length data mod 100) 0"
proof -
  let ?h = "\<lambda>r. take 100 (drop (index r) data)"
  have n: "100 * n \<le> length data" using assms(1) by simp
  have rs: "records data = map ?h (slice (keys (read_keys data n a)) 0 n)"
    by (simp add: records_def assms(1) [symmetric] slice_def read_keys_at)
  have "sort_key rec_key (records data) = map ?h (sort_key key (slice (keys (read_keys data n a)) 0 n))"
    unfolding rs
  proof (rule sort_key_map)
    fix r assume "r \<in> set (slice (keys (read_keys data n a)) 0 n)"
    then obtain i where "i < n" and r: "r = \<lparr>key = int_at data (100 * i), index = 100 * i\<rparr>"
      by (auto simp: slice_def read_keys_at)
    then have "100 * i + 100 \<le> length data" using n by linarith
    then show "rec_key (?h r) = key r" using int_at_record by (simp add: r)
  qed
  then have "map ?h (slice (keys b) 0 n) = sort_key rec_key (records data)" using assms(2) by simp
  then show ?thesis
    by (simp add: write_records_def slice_def comp_def assms(1) minus_mult_div_eq_mod)
qed

text \<open>C4: for every positive number of threads and every order in which they run, the output is
  the records of the input stably sorted by their keys, each record intact.\<close>

theorem psort_sorts:
  assumes "\<forall>op. ok op" and "data \<noteq> []" and "length data div 100 \<le> MAX_SIZE" and "0 < numThreads"
    and "distinct order" and "set order = {..<nat numThreads}"
  shows "psort_main ok order numThreads data a =
    Inr (Inr (concat (sort_key rec_key (records data)) @ replicate (length data mod 100) 0))"
proof -
  let ?n = "length data div 100" and ?t = "nat numThreads"
  have "0 < ?t" using assms(4) by simp
  from write_sorted [OF refl sorted_by_threads [OF this assms(5,6)]]
  show ?thesis
    using assms by (simp add: psort_main_def num_records_eq Let_def)
qed

text \<open>The arrays of the program as it starts: static, so zero.\<close>

definition zeroed :: arrays where
  "zeroed = \<lparr>keys = (\<lambda>_. \<lparr>key = 0, index = 0\<rparr>), temp = (\<lambda>_. \<lparr>key = 0, index = 0\<rparr>)\<rparr>"

theorem psort_sorts_witness:
  "psort_main (\<lambda>_. True) [1, 0] 2 (replicate 100 2 @ replicate 100 1) zeroed = Inr (Inr (replicate 100 1 @ replicate 100 2))"
proof -
  let ?d = "replicate 100 2 @ replicate 100 1 :: u8 list"
  have r: "records ?d = [replicate 100 2, replicate 100 1]"
    by (simp add: records_def numeral_2_eq_2)
  have "rec_key (replicate 100 1) = 0x01010101" "rec_key (replicate 100 2) = 0x02020202"
    by (simp_all add: rec_key_def int_at_def)
  then have s: "sort_key rec_key (records ?d) = [replicate 100 1, replicate 100 2]"
    unfolding r by simp
  have "set [1 :: nat, 0] = {..<nat 2}" by auto
  then have "psort_main (\<lambda>_. True) [1, 0] 2 ?d zeroed =
    Inr (Inr (concat (sort_key rec_key (records ?d)) @ replicate (length ?d mod 100) 0))"
    by (intro psort_sorts) (simp_all add: MAX_SIZE_def)
  then show ?thesis unfolding s by simp
qed

text \<open>With zero threads nothing is sorted: the program copies the records as they are.\<close>

theorem psort_no_threads:
  assumes "\<forall>op. ok op" and "data \<noteq> []" and "length data div 100 \<le> MAX_SIZE"
  shows "psort_main ok [] 0 data a =
    Inr (Inr (concat (records data) @ replicate (length data mod 100) 0))"
proof -
  have "map (\<lambda>i. take 100 (drop (index (keys (read_keys data (length data div 100) a) i)) data))
      [0..<length data div 100] = records data"
    unfolding records_def by (rule map_cong) (simp_all add: read_keys_at)
  then have "write_records data (length data div 100) (read_keys data (length data div 100) a) =
      concat (records data) @ replicate (length data mod 100) 0"
    by (simp add: write_records_def minus_mult_div_eq_mod)
  then show ?thesis
    using assms by (simp add: psort_main_def num_records_eq Let_def final_merge_def)
qed

theorem psort_no_threads_witness:
  "psort_main (\<lambda>_. True) [] 0 (replicate 100 2 @ replicate 100 1) zeroed = Inr (Inr (replicate 100 2 @ replicate 100 1))"
proof -
  have "records (replicate 100 2 @ replicate 100 1) = [replicate 100 2, replicate 100 1 :: u8 list]"
    by (simp add: records_def numeral_2_eq_2)
  then show ?thesis
    using psort_no_threads [of "\<lambda>_. True" "replicate 100 2 @ replicate 100 1" zeroed] by (simp add: MAX_SIZE_def)
qed

end
