(* ===== verification/Proctable.thy ===== *)
theory Proctable
  imports Prelude
begin

text \<open>
  The process table of xv6 (\<open>kernel/proc.h\<close> and the parts of \<open>kernel/proc.c\<close> that only touch the
  table, the same in the P4 and P5 kernels): the process structure, the search for a free entry,
  waking, killing and handing children over. The trap frame is kept by value, with the registers the
  kernel sets or reads; \<open>kcontext\<close> (\<open>context\<close> in C) is the kernel stack pointer that \<open>swtch\<close> loads. Pointers into a kernel table are indices; what a
  process sleeps on is a value of \<open>chan\<close>, one constructor per kind of address the kernel sleeps on.
\<close>

definition NPROC :: nat where "NPROC = 64"
definition NOFILE :: nat where "NOFILE = 16"

datatype procstate = UNUSED | EMBRYO | SLEEPING | RUNNABLE | RUNNING | ZOMBIE

datatype chan =
    ChProc nat         \<comment> \<open>a process structure (\<open>wait\<close>)\<close>
  | ChTicks            \<comment> \<open>\<open>&ticks\<close>\<close>
  | ChRead u32         \<comment> \<open>\<open>&p->nread\<close> of the pipe at an address\<close>
  | ChWrite u32        \<comment> \<open>\<open>&p->nwrite\<close>\<close>
  | ChInode nat        \<comment> \<open>an entry of the inode cache\<close>
  | ChBuf nat          \<comment> \<open>a disk buffer\<close>
  | ChInput            \<comment> \<open>\<open>&input.r\<close> of the console\<close>

record trapframe =
  eax :: u32
  tf_es :: u16
  tf_ds :: u16
  trapno :: u32
  eip :: u32
  tf_cs :: u16
  eflags :: u32
  esp :: u32
  tf_ss :: u16

record proc =
  sz :: u32
  pgdir :: u32
  kstack :: u32
  state :: procstate
  pid :: u32
  parent :: "nat option"
  tf :: trapframe
  kcontext :: u32
  chan :: "chan option"
  killed :: bool
  ofile :: "nat \<Rightarrow> nat option"
  cwd :: "nat option"
  name :: string

type_synonym ptab = "nat \<Rightarrow> proc"

section \<open>Operations on the table\<close>

definition set_state :: "nat \<Rightarrow> procstate \<Rightarrow> ptab \<Rightarrow> ptab" where
  "set_state i x t = t(i := (t i)\<lparr>state := x\<rparr>)"

definition find_unused :: "ptab \<Rightarrow> nat option" where
  "find_unused t = find (\<lambda>i. state (t i) = UNUSED) [0..<NPROC]"

definition wakeup1 :: "chan \<Rightarrow> ptab \<Rightarrow> ptab" where
  "wakeup1 c t = fold (\<lambda>i t. if state (t i) = SLEEPING \<and> chan (t i) = Some c
     then set_state i RUNNABLE t else t) [0..<NPROC] t"

definition kill :: "u32 \<Rightarrow> ptab \<Rightarrow> int \<times> ptab" where
  "kill p t = (case find (\<lambda>i. pid (t i) = p) [0..<NPROC] of
     None \<Rightarrow> (-1, t)
   | Some i \<Rightarrow>
       let t1 = t(i := (t i)\<lparr>killed := True\<rparr>)
       in (0, if state (t1 i) = SLEEPING then set_state i RUNNABLE t1 else t1))"

text \<open>The loop of \<open>exit\<close> that passes abandoned children to init.\<close>

definition reparent :: "nat \<Rightarrow> nat \<Rightarrow> ptab \<Rightarrow> ptab" where
  "reparent me init t = fold (\<lambda>i t. if parent (t i) = Some me then
       let t1 = t(i := (t i)\<lparr>parent := Some init\<rparr>)
       in if state (t1 i) = ZOMBIE then wakeup1 (ChProc init) t1 else t1
     else t) [0..<NPROC] t"

section \<open>What they do\<close>

lemma state_set_state [simp]:
  "state (set_state i x t j) = (if j = i then x else state (t j))"
  "pid (set_state i x t j) = pid (t j)" "parent (set_state i x t j) = parent (t j)"
  "chan (set_state i x t j) = chan (t j)" "killed (set_state i x t j) = killed (t j)"
  by (simp_all add: set_state_def)

lemma fold_pointwise:
  assumes "\<And>i t. i \<in> set xs \<Longrightarrow> g i t = t(i := h (t i))" and "distinct xs"
  shows "fold g xs t = (\<lambda>i. if i \<in> set xs then h (t i) else t i)"
  using assms
proof (induction xs arbitrary: t)
  case (Cons x xs)
  have "fold g xs (t(x := h (t x))) = (\<lambda>i. if i \<in> set xs then h ((t(x := h (t x))) i) else (t(x := h (t x))) i)"
    by (rule Cons.IH) (use Cons.prems in simp_all)
  moreover have "g x t = t(x := h (t x))" by (rule Cons.prems(1)) simp
  ultimately have "fold g (x # xs) t =
      (\<lambda>i. if i \<in> set xs then h ((t(x := h (t x))) i) else (t(x := h (t x))) i)" by simp
  then show ?case using Cons.prems(2) by (auto simp: fun_eq_iff)
qed simp

lemma wakeup1_eq:
  "wakeup1 c t = (\<lambda>i. if i < NPROC \<and> state (t i) = SLEEPING \<and> chan (t i) = Some c
     then (t i)\<lparr>state := RUNNABLE\<rparr> else t i)"
proof -
  let ?h = "\<lambda>p. if state p = SLEEPING \<and> chan p = Some c then p\<lparr>state := RUNNABLE\<rparr> else p"
  have "wakeup1 c t = (\<lambda>i. if i \<in> set [0..<NPROC] then ?h (t i) else t i)"
    unfolding wakeup1_def by (rule fold_pointwise) (auto simp: set_state_def)
  then show ?thesis by (auto simp: fun_eq_iff)
qed

lemma find_unusedD: "find_unused t = Some i \<Longrightarrow> i < NPROC \<and> state (t i) = UNUSED"
  by (auto simp: find_unused_def find_Some_iff)

lemma find_unused_None: "find_unused t = None \<longleftrightarrow> (\<forall>i < NPROC. state (t i) \<noteq> UNUSED)"
  by (auto simp: find_unused_def find_None_iff)

end
