(* ===== verification/Stride.thy ===== *)
theory Stride
  imports Proctable "HOL-Library.Signed_Division"
begin

text \<open>
  The stride scheduler of \<open>P4_XV6_Stride_Scheduling/kernel/proc.c\<close>: the accounting table \<open>pstat\<close>,
  how \<open>userinit\<close>, \<open>fork\<close>, \<open>exit\<close> and \<open>settickets\<close> maintain it, and one round of \<open>scheduler\<close>.
  The counters are C \<open>int\<close>s: 32-bit words compared as signed numbers. A round of the scheduler is
  the critical section of \<open>ptable.lock\<close> up to the switch to the chosen process.
\<close>

record pstat =
  inuse :: "nat \<Rightarrow> bool"
  tickets :: "nat \<Rightarrow> u32"
  strides :: "nat \<Rightarrow> u32"
  pass :: "nat \<Rightarrow> u32"
  ppid :: "nat \<Rightarrow> u32"
  ticks :: "nat \<Rightarrow> u32"

record sched_state =
  procs :: ptab
  ps :: pstat
  curr_pstat_idx :: nat
  running :: "nat option"   \<comment> \<open>\<open>proc\<close>, the process on the CPU\<close>

definition max_stride :: int where "max_stride = 16384"

section \<open>Accounting\<close>

definition pstat_init :: "u32 \<Rightarrow> sched_state \<Rightarrow> sched_state" where
  \<comment> \<open>what \<open>userinit\<close> does to \<open>pstat\<close>; \<open>p\<close> is the pid of the first process\<close>
  "pstat_init p s = s\<lparr>curr_pstat_idx := 0,
     ps := \<lparr>inuse = (\<lambda>i. i = 0), tickets = (\<lambda>_. 0)(0 := 1), strides = (\<lambda>_. 0)(0 := word_of_int max_stride),
       pass = (\<lambda>_. 0)(0 := word_of_int max_stride), ppid = (\<lambda>_. 0)(0 := p), ticks = (\<lambda>_. 0)\<rparr>\<rparr>"

definition take_slot :: "u32 \<Rightarrow> nat \<Rightarrow> nat \<Rightarrow> pstat \<Rightarrow> pstat" where
  "take_slot p c n a =
     a\<lparr>inuse := (inuse a)(n := True), tickets := (tickets a)(n := tickets a c),
       strides := (strides a)(n := strides a c), pass := (pass a)(n := strides a c),
       ppid := (ppid a)(n := p), ticks := (ticks a)(n := 0)\<rparr>"

definition pstat_fork :: "u32 \<Rightarrow> sched_state \<Rightarrow> sched_state" where
  "pstat_fork p s =
     (let c = curr_pstat_idx s in
      case find (\<lambda>n. \<not> inuse (ps s) n) (map (\<lambda>i. (c + i) mod NPROC) [1..<NPROC]) of
        None \<Rightarrow> s
      | Some n \<Rightarrow> s\<lparr>ps := take_slot p c n (ps s)\<rparr>)"

definition pstat_exit :: "sched_state \<Rightarrow> sched_state" where
  "pstat_exit s = s\<lparr>ps := (ps s)\<lparr>inuse := (inuse (ps s))(curr_pstat_idx s := False)\<rparr>\<rparr>"

definition settickets :: "u32 \<Rightarrow> sched_state \<Rightarrow> sched_state result" where
  "settickets number s =
     (if number = 0 then Inl DivZero
      else let c = curr_pstat_idx s in
        Inr (s\<lparr>ps := (ps s)\<lparr>tickets := (tickets (ps s))(c := number),
          strides := (strides (ps s))(c := word_of_int (max_stride sdiv sint number))\<rparr>\<rparr>))"

definition sys_settickets :: "u32 option \<Rightarrow> sched_state \<Rightarrow> (int \<times> sched_state) result" where
  \<comment> \<open>the argument is what \<open>argint\<close> fetched, \<open>None\<close> if it failed\<close>
  "sys_settickets arg s = (case arg of
     None \<Rightarrow> Inr (-1, s)
   | Some number \<Rightarrow> if sint number < 1 then Inr (-1, s)
       else bindE (settickets number s) (\<lambda>s'. Inr (0, s')))"

definition getpinfo :: "bool \<Rightarrow> sched_state \<Rightarrow> int \<times> pstat option" where
  \<comment> \<open>\<open>null\<close>: the pointer is \<open>NULL\<close>; otherwise the table is copied out\<close>
  "getpinfo null s = (if null then (-1, None) else (0, Some (ps s)))"

section \<open>Choosing a process\<close>

definition pick_step :: "pstat \<Rightarrow> nat \<Rightarrow> nat \<Rightarrow> (nat \<times> int \<times> nat) option \<Rightarrow> (nat \<times> int \<times> nat) option" where
  "pick_step a p i acc = (case acc of
     None \<Rightarrow> Some (i, sint (pass a i), p)
   | Some (_, min_pass_value, _) \<Rightarrow>
       if sint (pass a i) \<le> min_pass_value then Some (i, sint (pass a i), p) else acc)"

definition pick :: "ptab \<Rightarrow> pstat \<Rightarrow> (nat \<times> int \<times> nat) option" where
  "pick t a = fold (\<lambda>p acc. if state (t p) \<noteq> RUNNABLE then acc
     else fold (\<lambda>i acc. if ppid a i = pid (t p) then pick_step a p i acc else acc) [0..<NPROC] acc)
     [0..<NPROC] None"

definition charge :: "nat \<Rightarrow> pstat \<Rightarrow> pstat" where
  "charge c a = a\<lparr>pass := (pass a)(c := pass a c + strides a c), ticks := (ticks a)(c := ticks a c + 1)\<rparr>"

definition scheduler :: "sched_state \<Rightarrow> sched_state" where
  "scheduler s = (case pick (procs s) (ps s) of
     None \<Rightarrow> s
   | Some (i, _, p) \<Rightarrow> s\<lparr>ps := charge (curr_pstat_idx s) (ps s), curr_pstat_idx := i,
       running := Some p, procs := set_state p RUNNING (procs s)\<rparr>)"

definition yield :: "sched_state \<Rightarrow> sched_state" where
  \<comment> \<open>back in the scheduler, \<open>proc\<close> is reset\<close>
  "yield s = (case running s of None \<Rightarrow> s
     | Some p \<Rightarrow> s\<lparr>procs := set_state p RUNNABLE (procs s), running := None\<rparr>)"

definition quantum :: "sched_state \<Rightarrow> sched_state" where
  "quantum s = yield (scheduler s)"

section \<open>The chosen process\<close>

text \<open>The pairs of a runnable process and an accounting slot with its pid.\<close>

definition candidate :: "ptab \<Rightarrow> pstat \<Rightarrow> nat \<Rightarrow> nat \<Rightarrow> bool" where
  "candidate t a p i \<longleftrightarrow> p < NPROC \<and> i < NPROC \<and> state (t p) = RUNNABLE \<and> ppid a i = pid (t p)"

definition candidates :: "ptab \<Rightarrow> pstat \<Rightarrow> (nat \<times> nat) list" where
  "candidates t a = concat (map (\<lambda>p. if state (t p) \<noteq> RUNNABLE then []
     else map (Pair p) (filter (\<lambda>i. ppid a i = pid (t p)) [0..<NPROC])) [0..<NPROC])"

lemma set_candidates: "(p, i) \<in> set (candidates t a) \<longleftrightarrow> candidate t a p i"
  by (auto simp: candidates_def candidate_def)

lemma fold_concat: "fold g (concat (map f xs)) acc = fold (\<lambda>x. fold g (f x)) xs acc"
  by (induction xs arbitrary: acc) auto

lemma fold_pairs: "fold (\<lambda>(p, i). g p i) (map (Pair p) (filter P xs)) acc =
    fold (\<lambda>i acc. if P i then g p i acc else acc) xs acc"
  by (induction xs arbitrary: acc) auto

lemma pick_candidates: "pick t a = fold (\<lambda>(p, i). pick_step a p i) (candidates t a) None"
  unfolding pick_def candidates_def fold_concat
  by (intro fold_cong) (auto simp: fold_pairs)

lemma fold_pick:
  assumes "fold (\<lambda>(p, i). pick_step a p i) xs acc = r"
  shows "r = None \<longleftrightarrow> xs = [] \<and> acc = None"
    and "r = Some (i, m, p) \<Longrightarrow> ((p, i) \<in> set xs \<and> m = sint (pass a i) \<or> acc = Some (i, m, p)) \<and>
      (\<forall>(q, j) \<in> set xs. m \<le> sint (pass a j)) \<and> (\<forall>k n q. acc = Some (k, n, q) \<longrightarrow> m \<le> n)"
  using assms
proof (induction xs arbitrary: acc)
  case (Cons x xs)
  case 1
  then show ?case using Cons.IH(1) [of "(case x of (p, i) \<Rightarrow> pick_step a p i) acc"]
    by (cases x) (auto simp: pick_step_def split: option.splits if_splits)
next
  case (Cons x xs)
  case 2
  obtain q j where x: "x = (q, j)" by (cases x)
  from 2 have "fold (\<lambda>(p, i). pick_step a p i) xs (pick_step a q j acc) = r" by (simp add: x)
  from Cons.IH(2) [OF \<open>r = Some (i, m, p)\<close> this]
  show ?case by (auto simp: x pick_step_def split: option.splits if_splits prod.splits)
qed auto

lemma pick_None: "pick t a = None \<longleftrightarrow> (\<forall>p i. \<not> candidate t a p i)"
  using fold_pick(1) [OF pick_candidates [symmetric], of t a] set_candidates [of _ _ t a]
  by (metis list.set_intros(1) list.exhaust list.set(1) empty_iff old.prod.exhaust)

lemma pick_Some:
  assumes "pick t a = Some (i, m, p)"
  shows "candidate t a p i" and "m = sint (pass a i)"
    and "candidate t a q j \<Longrightarrow> sint (pass a i) \<le> sint (pass a j)"
  using fold_pick(2) [OF pick_candidates [symmetric] assms] set_candidates [of _ _ t a] by fastforce+

end
