(* ===== verification/Stride_Fair.thy ===== *)
theory Stride_Fair
  imports Stride
begin

text \<open>
  What the stride scheduler guarantees: the choice of the least pass, the proportional share over any
  number of quanta (the pass of the process that ran is advanced only after the next choice, hence
  the slack of two strides), and what happens with more tickets than \<open>max_stride\<close>.
\<close>


section \<open>One quantum\<close>

text \<open>The processes of the slots \<open>I\<close>, and no others, want the CPU.\<close>

definition ready :: "nat set \<Rightarrow> sched_state \<Rightarrow> bool" where
  "ready I s \<longleftrightarrow> I \<noteq> {} \<and> (\<forall>i \<in> I. \<exists>p. candidate (procs s) (ps s) p i) \<and>
     (\<forall>p i. candidate (procs s) (ps s) p i \<longrightarrow> i \<in> I)"

lemma set_state_twice:
  "state (t p) = x \<Longrightarrow> set_state p x (set_state p y t) = t"
  by (auto simp: set_state_def)

lemma quantum_ready:
  assumes "ready I s"
  obtains i where "i \<in> I" and "\<And>j. j \<in> I \<Longrightarrow> sint (pass (ps s) i) \<le> sint (pass (ps s) j)"
    and "quantum s = s\<lparr>ps := charge (curr_pstat_idx s) (ps s), curr_pstat_idx := i, running := None\<rparr>"
    and "curr_pstat_idx (scheduler s) = i" and "\<exists>p. running (scheduler s) = Some p \<and> pid (procs s p) = ppid (ps s) i"
proof -
  obtain i m p where pk: "pick (procs s) (ps s) = Some (i, m, p)"
    using assms pick_None [of "procs s" "ps s"] unfolding ready_def by (metis ex_in_conv not_None_eq prod_cases3)
  note P = pick_Some [OF pk]
  have "i \<in> I" using P(1) assms by (auto simp: ready_def)
  moreover have "j \<in> I \<Longrightarrow> sint (pass (ps s) i) \<le> sint (pass (ps s) j)" for j
    using P(3) assms by (auto simp: ready_def)
  moreover have "state (procs s p) = RUNNABLE" "pid (procs s p) = ppid (ps s) i" using P(1) by (simp_all add: candidate_def)
  ultimately show ?thesis
    using pk that by (simp add: quantum_def scheduler_def yield_def set_state_twice)
qed

lemma charge_simps [simp]:
  "strides (charge c a) = strides a" "ppid (charge c a) = ppid a" "inuse (charge c a) = inuse a"
  "tickets (charge c a) = tickets a"
  "pass (charge c a) i = (if i = c then pass a c + strides a c else pass a i)"
  "ticks (charge c a) i = (if i = c then ticks a c + 1 else ticks a i)"
  by (simp_all add: charge_def)

lemma candidate_charge [simp]: "candidate t (charge c a) p i = candidate t a p i"
  by (simp add: candidate_def)

lemma sint_add_small:
  assumes "0 \<le> sint (a :: u32)" "0 \<le> sint b" "sint a + sint b < 2 ^ 31"
  shows "sint (a + b) = sint a + sint b"
proof -
  have "sint (a + b) = signed_take_bit 31 (sint a + sint b)" by (simp add: sint_word_ariths)
  also have "\<dots> = sint a + sint b" by (rule signed_take_bit_int_eq_self) (use assms in simp_all)
  finally show ?thesis .
qed

section \<open>Proportional share\<close>

text \<open>Everything that can happen to the accounting table from \<open>userinit\<close> on: forks, exits, \<open>settickets\<close>,
  rounds of the scheduler, and whatever the rest of the kernel does to the processes.\<close>

inductive sched_run :: "sched_state \<Rightarrow> bool" where
  boot: "sched_run (pstat_init p s)"
| fork: "sched_run s \<Longrightarrow> sched_run (pstat_fork p s)"
| exit: "sched_run s \<Longrightarrow> sched_run (pstat_exit s)"
| tickets: "sched_run s \<Longrightarrow> sys_settickets arg s = Inr (r, s') \<Longrightarrow> sched_run s'"
| schedule: "sched_run s \<Longrightarrow> sched_run (scheduler s)"
| processes: "sched_run s \<Longrightarrow> sched_run (s\<lparr>procs := t, running := r\<rparr>)"

text \<open>The stride of every slot that was ever given tickets is \<open>max_stride\<close> divided by them.\<close>

definition priced :: "pstat \<Rightarrow> nat \<Rightarrow> bool" where
  "priced a i \<longleftrightarrow> tickets a i = 0 \<and> strides a i = 0 \<or>
     1 \<le> sint (tickets a i) \<and> sint (strides a i) = max_stride div sint (tickets a i)"

lemma div_le_self: "0 \<le> (a :: int) \<Longrightarrow> 1 \<le> b \<Longrightarrow> a div b \<le> a"
  using zdiv_mono2 [of a 1 b] by simp

lemma stride_of_tickets:
  assumes "1 \<le> sint (t :: u32)"
  shows "sint (word_of_int (max_stride sdiv sint t) :: u32) = max_stride div sint t"
proof -
  have e: "max_stride sdiv sint t = max_stride div sint t"
    using assms by (simp add: signed_divide_int_def max_stride_def)
  have b: "0 \<le> max_stride div sint t" "max_stride div sint t \<le> max_stride"
    using assms by (simp_all add: max_stride_def pos_imp_zdiv_nonneg_iff div_le_self)
  have "sint (word_of_int (max_stride div sint t) :: u32) = signed_take_bit 31 (max_stride div sint t)"
    by (simp add: signed_of_int)
  also have "\<dots> = max_stride div sint t"
    by (rule signed_take_bit_int_eq_self) (use b in \<open>simp_all add: max_stride_def\<close>)
  finally show ?thesis using e by simp
qed

lemma sched_run_priced: "sched_run s \<Longrightarrow> \<forall>i. priced (ps s) i"
proof (induction rule: sched_run.induct)
  case (boot p s)
  then show ?case using stride_of_tickets [of 1] by (simp add: priced_def pstat_init_def max_stride_def)
next
  case (fork s p)
  then show ?case by (auto simp: priced_def pstat_fork_def take_slot_def Let_def split: option.splits)
next
  case (exit s)
  then show ?case by (simp add: priced_def pstat_exit_def)
next
  case (tickets s arg r s')
  then show ?case using stride_of_tickets
    by (auto simp: priced_def sys_settickets_def settickets_def Let_def split: option.splits if_splits)
next
  case (schedule s)
  then show ?case by (auto simp: priced_def scheduler_def charge_def split: option.splits)
qed simp

text \<open>A quantum goes to slot \<open>k\<close> when the process that runs is the one with the pid of the slot.\<close>

definition gets_cpu :: "nat \<Rightarrow> sched_state \<Rightarrow> bool" where
  "gets_cpu k s \<longleftrightarrow> curr_pstat_idx (scheduler s) = k \<and>
     (\<exists>p. running (scheduler s) = Some p \<and> pid (procs s p) = ppid (ps s) k)"

definition quanta :: "nat \<Rightarrow> sched_state \<Rightarrow> nat \<Rightarrow> nat" where
  \<comment> \<open>how many of the next \<open>m\<close> quanta slot \<open>k\<close> gets\<close>
  "quanta m s k = length (filter (\<lambda>n. gets_cpu k ((quantum ^^ n) s)) [0..<m])"

text \<open>What a slot has been charged, the quantum that is still to be charged included.\<close>

definition owed :: "sched_state \<Rightarrow> nat \<Rightarrow> int" where
  "owed s i = sint (pass (ps s) i) + (if i = curr_pstat_idx s then sint (strides (ps s) i) else 0)"

text \<open>No slot is ahead of another by more than \<open>D\<close> and two of its own strides, and no pass overflows within
  \<open>n\<close> quanta.\<close>

definition level :: "nat set \<Rightarrow> int \<Rightarrow> nat \<Rightarrow> sched_state \<Rightarrow> bool" where
  "level I D n s \<longleftrightarrow> ready I s \<and> 0 \<le> D \<and>
     (\<forall>i \<in> I. 0 \<le> sint (strides (ps s) i) \<and> 0 \<le> sint (pass (ps s) i) \<and>
        sint (pass (ps s) i) + int n * sint (strides (ps s) i) < 2 ^ 31) \<and>
     (\<forall>i \<in> I. \<forall>j \<in> I. owed s i \<le> owed s j + D + 2 * sint (strides (ps s) i))"

lemma level_step:
  assumes "level I D (Suc n) s"
  obtains "level I D n (quantum s)" and "strides (ps (quantum s)) = strides (ps s)"
    and "\<And>i. i \<in> I \<Longrightarrow> owed (quantum s) i = owed s i + (if gets_cpu i s then sint (strides (ps s) i) else 0)"
proof -
  have r: "ready I s" and D: "0 \<le> D" and num: "\<And>i. i \<in> I \<Longrightarrow> 0 \<le> sint (strides (ps s) i) \<and> 0 \<le> sint (pass (ps s) i) \<and>
        sint (pass (ps s) i) + int (Suc n) * sint (strides (ps s) i) < 2 ^ 31"
    and ow: "\<And>i j. i \<in> I \<Longrightarrow> j \<in> I \<Longrightarrow> owed s i \<le> owed s j + D + 2 * sint (strides (ps s) i)"
    using assms by (auto simp: level_def)
  let ?c = "curr_pstat_idx s"
  obtain k where k: "k \<in> I" "\<And>j. j \<in> I \<Longrightarrow> sint (pass (ps s) k) \<le> sint (pass (ps s) j)"
    and g: "\<And>j. gets_cpu j s \<longleftrightarrow> j = k"
    and q: "quantum s = s\<lparr>ps := charge ?c (ps s), curr_pstat_idx := k, running := None\<rparr>"
    using quantum_ready [OF r] unfolding gets_cpu_def by metis
  have st: "strides (ps (quantum s)) = strides (ps s)" by (simp add: q)
  have sucn: "int (Suc n) * x = x + int n * x" for x by (simp add: distrib_right)
  have n0: "0 \<le> int n * sint (strides (ps s) i)" if "i \<in> I" for i using num [OF that] by simp
  have pc: "sint (pass (ps s) i + strides (ps s) i) = sint (pass (ps s) i) + sint (strides (ps s) i)"
    if "i \<in> I" for i
  proof (rule sint_add_small)
    show "sint (pass (ps s) i) + sint (strides (ps s) i) < 2 ^ 31"
      using num [OF that] n0 [OF that] sucn [of "sint (strides (ps s) i)"] by linarith
  qed (use num [OF that] in simp_all)
  have np: "sint (pass (ps (quantum s)) i) =
      sint (pass (ps s) i) + (if i = ?c then sint (strides (ps s) i) else 0)" if "i \<in> I" for i
    using pc [OF that] by (cases "i = ?c") (simp_all add: q)
  have ow': "owed (quantum s) i = owed s i + (if i = k then sint (strides (ps s) i) else 0)" if "i \<in> I" for i
    using np [OF that] by (simp add: owed_def q)
  have A: "ready I (quantum s)" using r by (simp add: ready_def q)
  have B: "0 \<le> sint (strides (ps (quantum s)) i) \<and> 0 \<le> sint (pass (ps (quantum s)) i) \<and>
        sint (pass (ps (quantum s)) i) + int n * sint (strides (ps (quantum s)) i) < 2 ^ 31" if i: "i \<in> I" for i
    using num [OF i] np [OF i] n0 [OF i] sucn [of "sint (strides (ps s) i)"] unfolding st by (cases "i = ?c") simp_all
  have C: "owed (quantum s) i \<le> owed (quantum s) j + D + 2 * sint (strides (ps (quantum s)) i)"
    if ij: "i \<in> I" "j \<in> I" for i j
  proof -
    have nn: "0 \<le> sint (strides (ps s) i)" "0 \<le> sint (strides (ps s) j)" using num ij by auto
    show ?thesis
    proof (cases "i = k")
      case True
      have "sint (pass (ps s) i) \<le> owed s j" using k(2) [OF ij(2)] nn True
        by (cases "j = ?c") (simp_all add: owed_def)
      moreover have "owed (quantum s) i \<le> sint (pass (ps s) i) + 2 * sint (strides (ps s) i)"
        using ow' [OF ij(1)] nn True by (cases "i = ?c") (simp_all add: owed_def)
      ultimately show ?thesis unfolding st using nn D ow' [OF ij(2)] by (cases "j = k") simp_all
    next
      case False
      then show ?thesis unfolding st
        using ow [OF ij] nn ow' [OF ij(1)] ow' [OF ij(2)] by (cases "j = k") simp_all
    qed
  qed
  have "level I D n (quantum s)" unfolding level_def using A B C D by blast
  then show ?thesis using that st ow' g by simp
qed

lemma level_run: "level I D n s \<Longrightarrow> m \<le> n \<Longrightarrow>
    level I D (n - m) ((quantum ^^ m) s) \<and> strides (ps ((quantum ^^ m) s)) = strides (ps s) \<and>
    (\<forall>i \<in> I. owed ((quantum ^^ m) s) i = owed s i + sint (strides (ps s) i) * int (quanta m s i))"
proof (induction m)
  case (Suc m)
  let ?t = "(quantum ^^ m) s"
  have t: "level I D (Suc (n - Suc m)) ?t" "strides (ps ?t) = strides (ps s)"
    "\<forall>i \<in> I. owed ?t i = owed s i + sint (strides (ps s) i) * int (quanta m s i)"
    using Suc by (simp_all add: Suc_diff_Suc)
  have q: "quanta (Suc m) s i = quanta m s i + (if gets_cpu i ?t then 1 else 0)" for i by (simp add: quanta_def)
  show ?case
  proof (rule level_step [OF t(1)])
    assume l: "level I D (n - Suc m) (quantum ?t)" "strides (ps (quantum ?t)) = strides (ps ?t)"
      and o: "\<And>i. i \<in> I \<Longrightarrow> owed (quantum ?t) i = owed ?t i + (if gets_cpu i ?t then sint (strides (ps ?t) i) else 0)"
    have "owed (quantum ?t) i = owed s i + sint (strides (ps s) i) * int (quanta (Suc m) s i)" if "i \<in> I" for i
      using o [OF that] t(2) bspec [OF t(3) that] by (simp add: q algebra_simps)
    then show ?thesis using l t(2) by simp
  qed
qed (simp add: quanta_def)

text \<open>The shares by strides, and what follows for the tickets.\<close>

lemma quanta_by_stride:
  assumes "level I D m s" and "i \<in> I" "j \<in> I" and "sint (pass (ps s) j) \<le> sint (pass (ps s) i) + D"
  shows "sint (strides (ps s) i) * int (quanta m s i) \<le> sint (strides (ps s) j) * int (quanta m s j) +
    2 * D + 2 * sint (strides (ps s) i) + sint (strides (ps s) j)"
proof -
  note r = level_run [OF assms(1) order_refl]
  have nn: "0 \<le> sint (strides (ps s) i)" "0 \<le> sint (strides (ps s) j)" using assms(1-3) by (auto simp: level_def)
  have "owed ((quantum ^^ m) s) i \<le> owed ((quantum ^^ m) s) j + D + 2 * sint (strides (ps s) i)"
    using conjunct1 [OF r] conjunct1 [OF conjunct2 [OF r]] assms(2,3) unfolding level_def by metis
  moreover have "sint (pass (ps s) i) \<le> owed s i" "owed s j \<le> sint (pass (ps s) j) + sint (strides (ps s) j)"
    using nn by (auto simp: owed_def)
  ultimately show ?thesis using r assms(2-4) by auto
qed

lemma share_by_tickets:
  assumes t: "1 \<le> (ti :: int)" "1 \<le> tj" and q: "0 \<le> qi" "0 \<le> qj" and D: "0 \<le> D"
    and s: "(M div ti) * qi \<le> (M div tj) * qj + 2 * D + 2 * (M div ti) + M div tj" and M: "0 \<le> M"
  shows "qi * (M + 1 - ti) * tj \<le> qj * M * ti + (2 * D + 3 * M) * ti * tj"
proof -
  have f: "M + 1 - ti \<le> (M div ti) * ti" "(M div tj) * tj \<le> M"
    using t div_mult_mod_eq [of M ti] div_mult_mod_eq [of M tj] pos_mod_bound [of ti M] pos_mod_sign [of tj M]
    by linarith+
  have d: "M div ti \<le> M" "M div tj \<le> M" using t M by (simp_all add: div_le_self)
  have "qi * (M + 1 - ti) * tj \<le> qi * ((M div ti) * ti) * tj"
    using f(1) q t by (intro mult_right_mono mult_left_mono) simp_all
  also have "\<dots> = ((M div ti) * qi) * (ti * tj)" by (simp add: algebra_simps)
  also have "\<dots> \<le> ((M div tj) * qj + (2 * D + 3 * M)) * (ti * tj)"
    using s d t by (intro mult_right_mono) simp_all
  also have "\<dots> = qj * ((M div tj) * tj) * ti + (2 * D + 3 * M) * ti * tj" by (simp add: algebra_simps)
  also have "\<dots> \<le> qj * M * ti + (2 * D + 3 * M) * ti * tj"
    using f(2) q t by (intro add_right_mono mult_right_mono mult_left_mono) simp_all
  finally show ?thesis .
qed

section \<open>A concrete table\<close>

text \<open>Two runnable processes with 1 and 2 tickets, as after two forks.\<close>

definition two_procs :: sched_state where
  "two_procs = \<lparr>procs = (\<lambda>i. \<lparr>sz = 0, pgdir = 0, kstack = 0,
       state = (if i < 2 then RUNNABLE else UNUSED), pid = (if i < 2 then of_nat i + 2 else 0),
       parent = None, tf = \<lparr>eax = 0, tf_es = 0, tf_ds = 0, trapno = 0, eip = 0, tf_cs = 0,
         eflags = 0, esp = 0, tf_ss = 0\<rparr>, kcontext = 0, chan = None, killed = False,
       ofile = (\<lambda>_. None), cwd = None, name = []\<rparr>),
     ps = \<lparr>inuse = (\<lambda>i. i < 2), tickets = (\<lambda>_. 0)(0 := 1, 1 := 2),
       strides = (\<lambda>_. 0)(0 := 16384, 1 := 8192), pass = (\<lambda>_. 0)(0 := 16384, 1 := 8192),
       ppid = (\<lambda>i. if i < 2 then of_nat i + 2 else 0), ticks = (\<lambda>_. 0)\<rparr>,
     curr_pstat_idx = 0, running = None\<rparr>"

lemma two_procs_candidate: "candidate (procs two_procs) (ps two_procs) p i \<longleftrightarrow> i < 2 \<and> p = i"
proof -
  have "p < 2 \<Longrightarrow> p = 0 \<or> p = 1" "i < 2 \<Longrightarrow> i = 0 \<or> i = 1" by auto
  then show ?thesis by (auto simp: candidate_def two_procs_def NPROC_def)
qed

section \<open>Properties of the scheduler\<close>

text \<open>The scheduler chooses a runnable process, one whose accounting slot has the least pass of
  all slots of runnable processes, and charges the slot of the previous choice one stride.\<close>

theorem scheduler_picks_least_pass:
  "scheduler s = s \<and> (\<forall>p i. \<not> candidate (procs s) (ps s) p i) \<or>
   (\<exists>p i. candidate (procs s) (ps s) p i \<and>
     (\<forall>q j. candidate (procs s) (ps s) q j \<longrightarrow> sint (pass (ps s) i) \<le> sint (pass (ps s) j)) \<and>
     running (scheduler s) = Some p \<and> state (procs (scheduler s) p) = RUNNING \<and>
     (\<forall>q. q \<noteq> p \<longrightarrow> procs (scheduler s) q = procs s q) \<and>
     curr_pstat_idx (scheduler s) = i \<and> ps (scheduler s) = charge (curr_pstat_idx s) (ps s))"
proof (cases "pick (procs s) (ps s)")
  case None
  then show ?thesis using pick_None [of "procs s" "ps s"] by (simp add: scheduler_def)
next
  case (Some x)
  obtain i m p where x: "x = (i, m, p)" by (cases x)
  note P = pick_Some [OF Some [unfolded x]]
  show ?thesis
    using P Some x by (intro disjI2 exI [of _ p] exI [of _ i]) (auto simp: scheduler_def set_state_def)
qed

theorem scheduler_picks_least_pass_witness:
  "running (scheduler two_procs) = Some 1"
proof -
  have c: "candidate (procs two_procs) (ps two_procs) 0 0" "candidate (procs two_procs) (ps two_procs) 1 1"
    by (simp_all add: two_procs_candidate)
  have "pass (ps two_procs) 0 = 16384" "pass (ps two_procs) 1 = 8192" by (simp_all add: two_procs_def)
  then show ?thesis
    using scheduler_picks_least_pass [of two_procs] c by (fastforce simp: two_procs_candidate less_2_cases_iff)
qed

text \<open>C8: in every state of the system that the kernel can reach, while the processes of the slots \<open>I\<close> and no
  others want the CPU, it is shared in proportion to the tickets: of any number \<open>m\<close> of quanta in which
  no pass overflows, the numbers that two slots get are as their tickets, up to the rounding of
  \<open>max_stride / tickets\<close> and an error that does not grow with \<open>m\<close>: three times \<open>max_stride\<close> and twice the distance \<open>D\<close>
  of the passes at the start.\<close>

theorem stride_scheduling_is_fair:
  assumes run: "sched_run s" and ready: "ready I s" and ij: "i \<in> I" "j \<in> I"
    and start: "\<forall>k \<in> I. \<forall>l \<in> I. sint (pass (ps s) k) \<le> sint (pass (ps s) l) + D"
    and num: "\<forall>k \<in> I. 1 \<le> sint (tickets (ps s) k) \<and> 0 \<le> sint (pass (ps s) k) \<and>
      sint (pass (ps s) k) + int m * (max_stride div sint (tickets (ps s) k)) < 2 ^ 31"
  shows "int (quanta m s i) * (max_stride + 1 - sint (tickets (ps s) i)) * sint (tickets (ps s) j)
    \<le> int (quanta m s j) * max_stride * sint (tickets (ps s) i) +
      (2 * D + 3 * max_stride) * sint (tickets (ps s) i) * sint (tickets (ps s) j)"
proof -
  have D: "0 \<le> D" using start ij by force
  have st: "sint (strides (ps s) k) = max_stride div sint (tickets (ps s) k)" if "k \<in> I" for k
  proof -
    have "1 \<le> sint (tickets (ps s) k)" using num that by blast
    then have "tickets (ps s) k \<noteq> 0" by auto
    moreover have "priced (ps s) k" using sched_run_priced [OF run] by blast
    ultimately show ?thesis unfolding priced_def by blast
  qed
  have nn: "0 \<le> max_stride div sint (tickets (ps s) k)" if "k \<in> I" for k
  proof -
    have "0 < sint (tickets (ps s) k)" using num that by fastforce
    then show ?thesis by (simp add: max_stride_def pos_imp_zdiv_nonneg_iff)
  qed
  have "owed s k \<le> owed s l + D + 2 * sint (strides (ps s) k)" if "k \<in> I" "l \<in> I" for k l
  proof -
    have "sint (pass (ps s) k) \<le> sint (pass (ps s) l) + D" using start that by blast
    moreover have "owed s k \<le> sint (pass (ps s) k) + sint (strides (ps s) k)" "sint (pass (ps s) l) \<le> owed s l"
      using nn [OF that(1)] nn [OF that(2)] unfolding owed_def st [OF that(1), symmetric] st [OF that(2), symmetric]
      by auto
    ultimately show ?thesis using nn [OF that(1)] st [OF that(1)] by linarith
  qed
  then have "level I D m s" using ready D num nn by (simp add: level_def st)
  from quanta_by_stride [OF this ij] start ij show ?thesis
    using num D by (intro share_by_tickets) (auto simp: st max_stride_def)
qed

text \<open>The first process with two tickets and a child that it forked before, with one.\<close>

definition two_users :: sched_state where
  "two_users = two_procs\<lparr>ps := \<lparr>inuse = (\<lambda>i. i = 0)(1 := True), tickets = (\<lambda>_. 0)(0 := 2, 1 := 1),
     strides = (\<lambda>_. 0)(0 := 8192, 1 := 16384), pass = (\<lambda>_. 0)(0 := 16384, 1 := 16384),
     ppid = (\<lambda>_. 0)(0 := 2, 1 := 3), ticks = (\<lambda>_. 0)\<rparr>\<rparr>"

lemma two_users_run: "sched_run two_users"
proof -
  have u: "[Suc 0..<NPROC] = Suc 0 # [2..<NPROC]" "NPROC \<noteq> Suc 0" by (simp_all add: NPROC_def upt_conv_Cons)
  define a where "a = ps (pstat_init 2 two_procs)"
  have "pstat_fork 3 (pstat_init 2 two_procs) = two_procs\<lparr>curr_pstat_idx := 0, ps := take_slot 3 0 1 a\<rparr>"
    by (simp add: pstat_fork_def u pstat_init_def a_def Let_def)
  moreover have "16384 sdiv sint (2 :: u32) = 8192" by (simp add: signed_divide_int_def)
  ultimately have "sys_settickets (Some 2) (pstat_fork 3 (pstat_init 2 two_procs)) = Inr (0, two_users)"
    by (simp add: sys_settickets_def settickets_def a_def pstat_init_def take_slot_def two_users_def max_stride_def)
      (simp add: two_procs_def fun_eq_iff)
  from sched_run.tickets [OF sched_run.fork [OF sched_run.boot] this] show ?thesis .
qed

theorem stride_scheduling_is_fair_witness:
  "int (quanta 1000 two_users 0) * 16383 \<le> int (quanta 1000 two_users 1) * 32768 + 98304 \<and>
   int (quanta 1000 two_users 1) * 32768 \<le> int (quanta 1000 two_users 0) * 16384 + 98304"
proof -
  have c: "candidate (procs two_users) (ps two_users) p i \<longleftrightarrow> i < 2 \<and> p = i" for p i
    using two_procs_candidate [of p i] less_2_cases_iff [of i]
    by (auto simp: candidate_def two_users_def two_procs_def split: if_splits)
  have r: "ready {0, 1} two_users" by (auto simp: ready_def c)
  have t: "tickets (ps two_users) 0 = 2" "tickets (ps two_users) (Suc 0) = 1" "pass (ps two_users) 0 = 16384"
    "pass (ps two_users) (Suc 0) = 16384" by (simp_all add: two_users_def)
  show ?thesis
    using stride_scheduling_is_fair [OF two_users_run r, of 0 1 0 1000]
      stride_scheduling_is_fair [OF two_users_run r, of 1 0 0 1000]
    by (simp add: t max_stride_def)
qed

text \<open>C9: \<open>settickets\<close> accepts more tickets than \<open>max_stride\<close>; the stride is then 0, and a process
  whose pass is the least keeps the CPU for ever, however many others are runnable.\<close>

theorem too_many_tickets_monopolise:
  assumes "ready I s" and "i \<in> I" and "curr_pstat_idx s = i" and "16384 < sint number"
    and "\<forall>j \<in> I. j \<noteq> i \<longrightarrow> sint (pass (ps s) i) < sint (pass (ps s) j)"
  shows "\<exists>s'. sys_settickets (Some number) s = Inr (0, s') \<and>
    (\<forall>n. curr_pstat_idx ((quantum ^^ n) s') = i)"
proof -
  define s' where "s' = s\<lparr>ps := (ps s)\<lparr>tickets := (tickets (ps s))(i := number),
      strides := (strides (ps s))(i := 0)\<rparr>\<rparr>"
  have d: "max_stride sdiv sint number = 0"
    using assms(4) by (simp add: max_stride_def signed_divide_int_def sgn_if zdiv_eq_0_iff)
  have "number \<noteq> 0" using assms(4) by auto
  then have st: "sys_settickets (Some number) s = Inr (0, s')"
    using assms(3,4) d by (simp add: sys_settickets_def settickets_def s'_def Let_def)
  have "ready I ((quantum ^^ n) s') \<and> curr_pstat_idx ((quantum ^^ n) s') = i \<and>
      pass (ps ((quantum ^^ n) s')) = pass (ps s) \<and> strides (ps ((quantum ^^ n) s')) i = 0" for n
  proof (induction n)
    case 0
    have "candidate (procs s') (ps s') = candidate (procs s) (ps s)"
      by (intro ext) (simp add: candidate_def s'_def)
    then have "ready I s'" using assms(1) by (simp add: ready_def)
    then show ?case using assms(3) by (simp add: s'_def)
  next
    case (Suc n)
    let ?t = "(quantum ^^ n) s'"
    obtain k where k: "k \<in> I" "\<And>j. j \<in> I \<Longrightarrow> sint (pass (ps ?t) k) \<le> sint (pass (ps ?t) j)"
      and q: "quantum ?t = ?t\<lparr>ps := charge (curr_pstat_idx ?t) (ps ?t), curr_pstat_idx := k, running := None\<rparr>"
      using quantum_ready [OF conjunct1 [OF Suc]] by blast
    have "k = i" using k(2) [OF assms(2)] k(1) assms(5) Suc by force
    then show ?case using Suc by (simp add: q ready_def fun_eq_iff)
  qed
  then show ?thesis using st by blast
qed

theorem too_many_tickets_monopolise_witness:
  "\<exists>s'. sys_settickets (Some 20000) (two_procs\<lparr>curr_pstat_idx := 1\<rparr>) = Inr (0, s') \<and>
    (\<forall>n. curr_pstat_idx ((quantum ^^ n) s') = 1)"
proof -
  have "ready {0, 1} (two_procs\<lparr>curr_pstat_idx := 1\<rparr>)"
    by (auto simp: ready_def two_procs_candidate)
  moreover have "\<forall>j \<in> {0, 1}. j \<noteq> 1 \<longrightarrow> sint (pass (ps (two_procs\<lparr>curr_pstat_idx := 1\<rparr>)) 1)
      < sint (pass (ps (two_procs\<lparr>curr_pstat_idx := 1\<rparr>)) j)"
    by (simp add: two_procs_def)
  ultimately show ?thesis
    by (intro too_many_tickets_monopolise [of "{0, 1}"]) simp_all
qed

end
