(* ===== verification/Spinlock.thy ===== *)
theory Spinlock
  imports Prelude
begin

text \<open>
  Spin locks and interrupt masking, \<open>kernel/spinlock.c\<close>. One lock is used by any number of CPUs.
  \<open>acquire\<close> and \<open>release\<close> are cut at their accesses to the shared lock word: \<open>lock_step c m\<close> is the
  next atomic action of CPU \<open>c\<close>, and the CPUs interleave in any order. \<open>readeflags() & FL_IF\<close> is the
  field \<open>ifl\<close>, which \<open>cli\<close> and \<open>sti\<close> change.
\<close>

record spinlock =
  locked :: u32
  lname :: string
  lcpu :: "nat option"
  pcs :: "u32 list"

datatype pc =
    Outside | Spinning   \<comment> \<open>before \<open>acquire\<close>; in its loop\<close>
  | Acquired | Inside    \<comment> \<open>exchanged, the CPU not yet recorded; in the critical section\<close>
  | Releasing | Unlocked \<comment> \<open>in \<open>release\<close>, before and after the exchange\<close>

record cpu =
  ncli :: int
  intena :: bool
  ifl :: bool
  at :: pc

record smp =
  lk :: spinlock
  cpus :: "nat \<Rightarrow> cpu"

section \<open>The operations\<close>

definition initlock :: "string \<Rightarrow> spinlock \<Rightarrow> spinlock" where
  "initlock n l = l\<lparr>lname := n, locked := 0, lcpu := None\<rparr>"

definition holding :: "nat \<Rightarrow> spinlock \<Rightarrow> bool" where
  "holding c l \<longleftrightarrow> locked l \<noteq> 0 \<and> lcpu l = Some c"

definition pushcli :: "cpu \<Rightarrow> cpu" where
  "pushcli c = (if ncli c = 0 then c\<lparr>ifl := False, ncli := ncli c + 1, intena := ifl c\<rparr>
                else c\<lparr>ifl := False, ncli := ncli c + 1\<rparr>)"

definition popcli :: "cpu \<Rightarrow> cpu result" where
  "popcli c =
     (if ifl c then Inl (Panic ''popcli - interruptible'')
      else if ncli c - 1 < 0 then Inl (Panic ''popcli'')
      else Inr (c\<lparr>ncli := ncli c - 1, ifl := (ncli c - 1 = 0 \<and> intena c)\<rparr>))"

text \<open>\<open>mem a\<close> is the word at address \<open>a\<close>; the walk follows the saved frame pointers.\<close>

fun callerpcs :: "nat \<Rightarrow> (u32 \<Rightarrow> u32) \<Rightarrow> u32 \<Rightarrow> u32 list" where
  "callerpcs 0 mem ebp = []"
| "callerpcs (Suc n) mem ebp =
     (if ebp = 0 \<or> ebp < 0x100000 \<or> ebp = 0xFFFFFFFF then replicate (Suc n) 0
      else mem (ebp + 4) # callerpcs n mem (mem ebp))"

definition getcallerpcs :: "(u32 \<Rightarrow> u32) \<Rightarrow> u32 \<Rightarrow> u32 list" where
  "getcallerpcs mem v = callerpcs 10 mem (v - 8)"

definition acquire_enter :: "nat \<Rightarrow> smp \<Rightarrow> smp result" where
  "acquire_enter c m =
     (let m1 = m\<lparr>cpus := (cpus m)(c := pushcli (cpus m c))\<rparr> in
      if holding c (lk m1) then Inl (Panic ''acquire'')
      else Inr (m1\<lparr>cpus := (cpus m1)(c := (cpus m1 c)\<lparr>at := Spinning\<rparr>)\<rparr>))"

definition acquire_try :: "nat \<Rightarrow> smp \<Rightarrow> smp" where
  \<comment> \<open>one round of \<open>while(xchg(&lk->locked, 1) != 0)\<close>\<close>
  "acquire_try c m =
     (let old = locked (lk m); m1 = m\<lparr>lk := (lk m)\<lparr>locked := 1\<rparr>\<rparr> in
      if old \<noteq> 0 then m1 else m1\<lparr>cpus := (cpus m1)(c := (cpus m1 c)\<lparr>at := Acquired\<rparr>)\<rparr>)"

definition acquire_record :: "nat \<Rightarrow> u32 list \<Rightarrow> smp \<Rightarrow> smp" where
  "acquire_record c stack m =
     m\<lparr>lk := (lk m)\<lparr>lcpu := Some c, pcs := stack\<rparr>, cpus := (cpus m)(c := (cpus m c)\<lparr>at := Inside\<rparr>)\<rparr>"

definition release_enter :: "nat \<Rightarrow> smp \<Rightarrow> smp result" where
  "release_enter c m =
     (if \<not> holding c (lk m) then Inl (Panic ''release'')
      else Inr (m\<lparr>lk := (lk m)\<lparr>pcs := (pcs (lk m))[0 := 0], lcpu := None\<rparr>,
                  cpus := (cpus m)(c := (cpus m c)\<lparr>at := Releasing\<rparr>)\<rparr>))"

definition release_xchg :: "nat \<Rightarrow> smp \<Rightarrow> smp" where
  "release_xchg c m =
     m\<lparr>lk := (lk m)\<lparr>locked := 0\<rparr>, cpus := (cpus m)(c := (cpus m c)\<lparr>at := Unlocked\<rparr>)\<rparr>"

definition release_leave :: "nat \<Rightarrow> smp \<Rightarrow> smp result" where
  "release_leave c m = bindE (popcli (cpus m c)) (\<lambda>k. Inr (m\<lparr>cpus := (cpus m)(c := k\<lparr>at := Outside\<rparr>)\<rparr>))"

definition lock_step :: "u32 list \<Rightarrow> nat \<Rightarrow> smp \<Rightarrow> smp result" where
  "lock_step stack c m = (case at (cpus m c) of
     Outside \<Rightarrow> acquire_enter c m
   | Spinning \<Rightarrow> Inr (acquire_try c m)
   | Acquired \<Rightarrow> Inr (acquire_record c stack m)
   | Inside \<Rightarrow> release_enter c m
   | Releasing \<Rightarrow> Inr (release_xchg c m)
   | Unlocked \<Rightarrow> release_leave c m)"

section \<open>Reachable states\<close>

definition smp_init :: "(nat \<Rightarrow> bool) \<Rightarrow> string \<Rightarrow> smp" where
  \<comment> \<open>\<open>f c\<close>: whether CPU \<open>c\<close> starts with interrupts enabled\<close>
  "smp_init f n = \<lparr>lk = initlock n \<lparr>locked = 0, lname = [], lcpu = None, pcs = replicate 10 0\<rparr>,
     cpus = (\<lambda>c. \<lparr>ncli = 0, intena = False, ifl = f c, at = Outside\<rparr>)\<rparr>"

inductive lock_reach :: "smp \<Rightarrow> smp \<Rightarrow> bool" for m0 where
  lock_reach_init: "lock_reach m0 m0"
| lock_reach_step: "lock_reach m0 m \<Longrightarrow> lock_step stack c m = Inr m' \<Longrightarrow> lock_reach m0 m'"

definition holds :: "smp \<Rightarrow> nat \<Rightarrow> bool" where
  "holds m c \<longleftrightarrow> at (cpus m c) \<in> {Acquired, Inside, Releasing}"

text \<open>The lock word is set exactly when some CPU is between its two exchanges, and the interrupt state
  of a CPU is saved while it is in \<open>acquire\<close> or \<open>release\<close> or between them.\<close>

definition lock_inv :: "(nat \<Rightarrow> bool) \<Rightarrow> smp \<Rightarrow> bool" where
  "lock_inv f m \<longleftrightarrow>
     (\<forall>c d. holds m c \<longrightarrow> holds m d \<longrightarrow> c = d) \<and>
     (locked (lk m) = 0 \<longleftrightarrow> (\<forall>c. \<not> holds m c)) \<and>
     (\<forall>c. lcpu (lk m) = Some c \<longleftrightarrow> at (cpus m c) = Inside) \<and>
     (\<forall>c. if at (cpus m c) = Outside then ncli (cpus m c) = 0 \<and> ifl (cpus m c) = f c
          else ncli (cpus m c) = 1 \<and> \<not> ifl (cpus m c) \<and> intena (cpus m c) = f c)"

lemmas lock_defs = acquire_enter_def acquire_try_def acquire_record_def release_enter_def
  release_xchg_def release_leave_def

lemma lock_inv_init: "lock_inv f (smp_init f n)"
  by (simp add: lock_inv_def smp_init_def initlock_def holds_def)

lemma lock_inv_step:
  assumes "lock_inv f m"
  shows "\<exists>m'. lock_step stack c m = Inr m' \<and> lock_inv f m'"
proof (cases "at (cpus m c)")
  case Outside
  have "\<not> holding c (lk m)" using assms Outside by (auto simp: lock_inv_def holding_def)
  moreover have "ncli (cpus m c) = 0" "ifl (cpus m c) = f c" using assms Outside by (auto simp: lock_inv_def)
  ultimately show ?thesis
    using assms Outside unfolding lock_inv_def
    by (simp add: lock_step_def lock_defs Let_def pushcli_def holds_def) (metis pc.distinct)
next
  case Spinning
  then show ?thesis
    using assms unfolding lock_inv_def
    by (simp add: lock_step_def lock_defs Let_def holds_def)
next
  case Acquired
  then show ?thesis
    using assms unfolding lock_inv_def
    by (simp add: lock_step_def lock_defs Let_def holds_def) (metis pc.distinct)
next
  case Inside
  then have "holding c (lk m)" using assms by (auto simp: lock_inv_def holding_def holds_def)
  with Inside show ?thesis
    using assms unfolding lock_inv_def
    by (simp add: lock_step_def lock_defs Let_def holds_def) (metis pc.distinct)
next
  case Releasing
  then show ?thesis
    using assms unfolding lock_inv_def
    by (simp add: lock_step_def lock_defs Let_def holds_def) (metis pc.distinct)
next
  case Unlocked
  then show ?thesis
    using assms unfolding lock_inv_def
    by (simp add: lock_step_def lock_defs Let_def holds_def popcli_def) (metis pc.distinct)
qed

lemma lock_reach_inv: "lock_reach (smp_init f n) m \<Longrightarrow> lock_inv f m"
proof (induction rule: lock_reach.induct)
  case lock_reach_init
  then show ?case by (rule lock_inv_init)
next
  case (lock_reach_step m stack c m')
  then show ?case using lock_inv_step [OF lock_reach_step.IH, of stack c] by auto
qed

section \<open>Nested masking\<close>

lemma pushcli_many:
  assumes "0 \<le> ncli c"
  shows "(pushcli ^^ Suc n) c = c\<lparr>ifl := False, ncli := ncli c + int (Suc n),
    intena := (if ncli c = 0 then ifl c else intena c)\<rparr>"
  using assms by (induction n) (auto simp: pushcli_def)

lemma popcli_many:
  "\<not> ifl c \<Longrightarrow> int n \<le> ncli c \<Longrightarrow> iterE n popcli c =
     Inr (c\<lparr>ncli := ncli c - int n, ifl := (0 < n \<and> ncli c = int n \<and> intena c)\<rparr>)"
proof (induction n arbitrary: c)
  case (Suc n)
  have p: "popcli c = Inr (c\<lparr>ncli := ncli c - 1, ifl := (ncli c = 1 \<and> intena c)\<rparr>)"
    using Suc.prems by (simp add: popcli_def)
  show ?case
  proof (cases "n = 0")
    case False
    then have "ncli c \<noteq> 1" using Suc.prems by simp
    then show ?thesis using Suc.IH [of "c\<lparr>ncli := ncli c - 1, ifl := False\<rparr>"] Suc.prems False
      by (simp add: p algebra_simps)
  qed (simp add: p)
qed simp

section \<open>Properties\<close>

text \<open>C10: in every interleaving of any number of CPUs at most one is between the two exchanges of
  the lock word, no CPU panics, interrupts are off in the critical section and back to what they were
  outside.\<close>

theorem spinlock_exclusion:
  assumes "lock_reach (smp_init f n) m"
  shows "(\<forall>c d. holds m c \<longrightarrow> holds m d \<longrightarrow> c = d) \<and> (\<forall>c stack. \<exists>m'. lock_step stack c m = Inr m') \<and>
    (\<forall>c. at (cpus m c) = Inside \<longrightarrow> holding c (lk m) \<and> \<not> ifl (cpus m c)) \<and>
    (\<forall>c. at (cpus m c) = Outside \<longrightarrow> ifl (cpus m c) = f c)"
proof -
  note inv = lock_reach_inv [OF assms]
  have "at (cpus m c) = Inside \<Longrightarrow> holding c (lk m) \<and> \<not> ifl (cpus m c)" for c
    using inv unfolding lock_inv_def holding_def holds_def by (metis insertI1 insertI2 pc.distinct(27) pc.distinct(5))
  moreover have "at (cpus m c) = Outside \<Longrightarrow> ifl (cpus m c) = f c" for c
    using inv by (auto simp: lock_inv_def)
  ultimately show ?thesis
    using inv lock_inv_step [OF inv] unfolding lock_inv_def [of f m] by blast
qed

theorem spinlock_exclusion_witness:
  "\<exists>m. lock_reach (smp_init (\<lambda>_. True) ''l'') m \<and> at (cpus m 0) = Inside \<and> \<not> ifl (cpus m 0)"
proof -
  let ?s = "replicate 10 0 :: u32 list" and ?m0 = "smp_init (\<lambda>_. True) ''l''"
  obtain m1 where 1: "lock_step ?s 0 ?m0 = Inr m1" "at (cpus m1 0) = Spinning" "locked (lk m1) = 0"
    by (simp add: lock_step_def lock_defs smp_init_def initlock_def holding_def pushcli_def Let_def)
  obtain m2 where 2: "lock_step ?s 0 m1 = Inr m2" "at (cpus m2 0) = Acquired"
    using 1 by (simp add: lock_step_def lock_defs Let_def)
  obtain m3 where 3: "lock_step ?s 0 m2 = Inr m3" "at (cpus m3 0) = Inside"
    using 2 by (simp add: lock_step_def lock_defs Let_def)
  have "lock_reach ?m0 m3" using 1 2 3 by (meson lock_reach.intros)
  then show ?thesis using spinlock_exclusion [of "\<lambda>_. True" "''l''" m3] 3(2) by blast
qed

text \<open>\<open>pushcli\<close> and \<open>popcli\<close> nest: \<open>n\<close> of the one and \<open>n\<close> of the other restore the nesting depth and
  the interrupt flag, and one more \<open>popcli\<close> than \<open>pushcli\<close> panics.\<close>

theorem cli_nesting:
  assumes "0 < n" and "0 \<le> ncli c" and "0 < ncli c \<Longrightarrow> \<not> ifl c"
  shows "\<exists>c'. iterE n popcli ((pushcli ^^ n) c) = Inr c' \<and> ncli c' = ncli c \<and> ifl c' = ifl c \<and>
    (ncli c = 0 \<longrightarrow> (\<exists>e. popcli c' = Inl e))"
proof -
  obtain k where n: "n = Suc k" using assms(1) by (cases n) auto
  show ?thesis
    unfolding n pushcli_many [OF assms(2)]
    using assms popcli_many [of "c\<lparr>ifl := False, ncli := ncli c + int (Suc k),
      intena := (if ncli c = 0 then ifl c else intena c)\<rparr>" "Suc k"]
    by (auto simp: popcli_def)
qed

theorem cli_nesting_witness:
  "\<exists>c'. iterE 3 popcli ((pushcli ^^ 3) \<lparr>ncli = 0, intena = False, ifl = True, at = Outside\<rparr>) = Inr c' \<and>
    ncli c' = 0 \<and> ifl c'"
  using cli_nesting [of 3 "\<lparr>ncli = 0, intena = False, ifl = True, at = Outside\<rparr>"] by auto

end
