(* ===== verification/Ring.thy ===== *)
theory Ring
  imports Prelude
begin

text \<open>
  Ring buffers with 32-bit counters that run on and wrap, as the pipes and the console use them: what is
  between two counters, and how it changes at either end. The buffer size divides \<open>2 ^ 32\<close>, so that wrapping
  counters do not disturb the indices.
\<close>

definition contents :: "nat \<Rightarrow> (nat \<Rightarrow> 'a) \<Rightarrow> u32 \<Rightarrow> u32 \<Rightarrow> 'a list" where
  "contents N f a b = map (\<lambda>k. f ((unat a + k) mod N)) [0..<unat (b - a)]"

lemma length_contents [simp]: "length (contents N f a b) = unat (b - a)"
  by (simp add: contents_def)

lemma contents_same [simp]: "contents N f a a = []"
  by (simp add: contents_def)

lemma contents_Nil: "contents N f a b = [] \<longleftrightarrow> a = b"
  by (metis contents_same eq_iff_diff_eq_0 length_0_conv length_contents unat_eq_0)

lemma unat_diff_Suc:
  fixes a b :: u32
  assumes "a \<noteq> b"
  shows "Suc (unat (b - (a + 1))) = unat (b - a)" "Suc (unat (b - 1 - a)) = unat (b - a)"
proof -
  have nz: "b - a \<noteq> 0" using assms by simp
  have "b - (a + 1) = b - a - 1" "b - 1 - a = b - a - 1" by simp_all
  moreover have "Suc (unat (b - a - 1)) = unat (b - a)"
    using unat_minus_one [OF nz] nz by (simp add: unat_gt_0)
  ultimately show "Suc (unat (b - (a + 1))) = unat (b - a)" "Suc (unat (b - 1 - a)) = unat (b - a)"
    by (simp_all only:)
qed

locale ring_buffer =
  fixes N :: nat
  assumes size_less: "N < 2 ^ 32" and size_dvd: "N dvd 2 ^ 32"
begin

lemma unat_add_mod: "unat (a + b :: u32) mod N = (unat a + unat b) mod N"
proof -
  have "(unat a + unat b) mod 2 ^ 32 mod N = (unat a + unat b) mod N"
    using size_dvd by (rule mod_mod_cancel)
  then show ?thesis by (simp add: unat_word_ariths)
qed

lemma end_index: "unat (b :: u32) mod N = (unat a + unat (b - a)) mod N"
  using unat_add_mod [of a "b - a"] by simp

lemma index_le:
  assumes "j \<le> k" "k < N" "(n + j) mod N = (n + k) mod N"
  shows "j = k"
proof -
  have "N dvd (n + k) - (n + j)"
    using mod_eq_dvd_iff_nat [of "n + j" "n + k" N] assms by simp
  then have "N dvd k - j" by simp
  then show ?thesis using assms by (auto dest: dvd_imp_le)
qed

lemma index_inj:
  "j < N \<Longrightarrow> k < N \<Longrightarrow> (n + j) mod N = (n + k) mod N \<Longrightarrow> j = k"
  using index_le [of j k n] index_le [of k j n] by (cases "j \<le> k") auto

text \<open>Writing behind the end, when there is room.\<close>

lemma contents_push:
  assumes "unat (b - a) < N"
  shows "contents N (f(unat b mod N := x)) a (b + 1) = contents N f a b @ [x]"
    and "unat (b + 1 - a) = Suc (unat (b - a))"
proof -
  have "b + 1 - a = (b - a) + 1" by simp
  then have "unat (b + 1 - a) = unat ((b - a) + 1)" by (simp only:)
  also have "\<dots> = Suc (unat (b - a)) mod 2 ^ 32" by (simp add: unat_word_ariths)
  also have "\<dots> = Suc (unat (b - a))" using assms size_less by (intro mod_less) simp
  finally show len: "unat (b + 1 - a) = Suc (unat (b - a))" .
  have "(unat a + k) mod N \<noteq> unat b mod N" if "k < unat (b - a)" for k
    using index_inj [of k "unat (b - a)" "unat a"] that assms end_index [of b a] by auto
  then show "contents N (f(unat b mod N := x)) a (b + 1) = contents N f a b @ [x]"
    unfolding contents_def len by (simp add: end_index [of b a])
qed

text \<open>Writing behind the end does not change what is before it.\<close>

lemma contents_keep:
  assumes "unat (c - a) < N" "unat (b - a) \<le> unat (c - a)"
  shows "contents N (f(unat c mod N := x)) a b = contents N f a b"
proof -
  have "(unat a + k) mod N \<noteq> unat c mod N" if "k < unat (b - a)" for k
    using index_inj [of k "unat (c - a)" "unat a"] that assms end_index [of c a] by auto
  then show ?thesis unfolding contents_def by (intro map_cong refl) simp
qed

lemma contents_pop:
  assumes "a \<noteq> b"
  shows "contents N f a b = f (unat a mod N) # contents N f (a + 1) b"
proof -
  have i: "(unat (a + 1) + k) mod N = (unat a + Suc k) mod N" for k
    using unat_add_mod [of a 1] by (metis add.assoc mod_add_left_eq plus_1_eq_Suc unat_1)
  show ?thesis
    unfolding contents_def unat_diff_Suc(1) [OF assms, symmetric] upt_conv_Cons [OF zero_less_Suc] map_Suc_upt [symmetric]
    by (simp add: i)
qed

lemma contents_unpush:
  assumes "a \<noteq> b"
  shows "contents N f a b = contents N f a (b - 1) @ [f (unat (b - 1) mod N)]"
  unfolding contents_def unat_diff_Suc(2) [OF assms, symmetric]
  using end_index [of "b - 1" a] by simp

lemma contents_append:
  assumes "unat (b - a) + unat (c - b) = unat (c - a)"
  shows "contents N f a c = contents N f a b @ contents N f b c"
proof -
  let ?x = "unat (b - a)" and ?y = "unat (c - b)"
  have i: "(unat b + k) mod N = (unat a + (k + ?x)) mod N" for k
    using end_index [of b a] by (metis add.assoc add.commute mod_add_left_eq)
  have "[0..<?x + ?y] = [0..<?x] @ map (\<lambda>k. k + ?x) [0..<?y]"
    by (metis add.commute add_0 map_add_upt upt_add_eq_append zero_le)
  then show ?thesis unfolding contents_def assms [symmetric] by (simp add: i)
qed

end

end
