(* ===== verification/Pipe.thy ===== *)
theory Pipe
  imports Proctable Ring
begin

text \<open>
  The ring buffer of \<open>kernel/pipe.c\<close>. \<open>nread\<close> and \<open>nwrite\<close> are 32-bit counters that run on and wrap;
  the buffer index is the counter modulo the size. \<open>pipewrite\<close> and \<open>piperead\<close> run under the pipe's
  lock until they return or sleep: the result says which, and with what bytes still to be written.
  The wakeups a run issues are listed in order.
\<close>

definition PIPESIZE :: nat where "PIPESIZE = 512"

record pipe =
  data :: "nat \<Rightarrow> u8"
  nread :: u32
  nwrite :: u32
  readopen :: bool
  writeopen :: bool

datatype 'a io = Ret 'a | Sleep "u8 list"  \<comment> \<open>the bytes not yet written\<close>

definition pipe_init :: "pipe \<Rightarrow> pipe" where
  "pipe_init p = p\<lparr>readopen := True, writeopen := True, nwrite := 0, nread := 0\<rparr>"

fun pipewrite :: "u32 \<Rightarrow> int \<Rightarrow> bool \<Rightarrow> u8 list \<Rightarrow> pipe \<Rightarrow> int io \<times> chan list \<times> pipe" where
  "pipewrite a n kd [] p = (Ret n, [ChRead a], p)"
| "pipewrite a n kd (b # bs) p =
     (if nwrite p = nread p + of_nat PIPESIZE then
        if \<not> readopen p \<or> kd then (Ret (-1), [], p)
        else (Sleep (b # bs), [ChRead a], p)
      else pipewrite a n kd bs
             (p\<lparr>data := (data p)(unat (nwrite p) mod PIPESIZE := b), nwrite := nwrite p + 1\<rparr>))"

fun read_loop :: "nat \<Rightarrow> pipe \<Rightarrow> u8 list \<times> pipe" where
  "read_loop 0 p = ([], p)"
| "read_loop (Suc n) p =
     (if nread p = nwrite p then ([], p)
      else let (bs, p') = read_loop n (p\<lparr>nread := nread p + 1\<rparr>)
           in (data p (unat (nread p) mod PIPESIZE) # bs, p'))"

text \<open>A read that returns delivers bytes, or \<open>None\<close> for the result -1 of a killed reader.\<close>

definition piperead :: "u32 \<Rightarrow> int \<Rightarrow> bool \<Rightarrow> pipe \<Rightarrow> u8 list option io \<times> chan list \<times> pipe" where
  "piperead a n kd p =
     (if nread p = nwrite p \<and> writeopen p then
        if kd then (Ret None, [], p) else (Sleep [], [], p)
      else let (bs, p') = read_loop (nat n) p in (Ret (Some bs), [ChWrite a], p'))"

definition pipe_close_end :: "u32 \<Rightarrow> bool \<Rightarrow> pipe \<Rightarrow> chan \<times> bool \<times> pipe" where
  \<comment> \<open>the part of \<open>pipeclose\<close> under the lock: whom to wake, whether the pipe is to be freed\<close>
  "pipe_close_end a writable p =
     (let (c, p') = if writable then (ChRead a, p\<lparr>writeopen := False\<rparr>)
                    else (ChWrite a, p\<lparr>readopen := False\<rparr>)
      in (c, \<not> readopen p' \<and> \<not> writeopen p', p'))"

section \<open>The queue\<close>

text \<open>The bytes in the pipe, oldest first, and the invariant of the counters.\<close>

definition fill :: "pipe \<Rightarrow> nat" where
  "fill p = unat (nwrite p - nread p)"

definition queue :: "pipe \<Rightarrow> u8 list" where
  "queue p = contents PIPESIZE (data p) (nread p) (nwrite p)"

interpretation pr: ring_buffer PIPESIZE
  by unfold_locales (simp_all add: PIPESIZE_def)

definition wf_pipe :: "pipe \<Rightarrow> bool" where
  "wf_pipe p \<longleftrightarrow> fill p \<le> PIPESIZE"

lemma length_queue [simp]: "length (queue p) = fill p"
  by (simp add: queue_def fill_def)

lemma fill_empty: "fill p = 0 \<longleftrightarrow> nread p = nwrite p"
  by (simp add: fill_def) (metis eq_iff_diff_eq_0 unat_eq_0)

lemma fill_full: "nwrite p = nread p + of_nat PIPESIZE \<longleftrightarrow> fill p = PIPESIZE"
proof -
  have "nwrite p = nread p + of_nat PIPESIZE \<longleftrightarrow> nwrite p - nread p = of_nat PIPESIZE"
    by (simp add: diff_eq_eq add.commute)
  also have "\<dots> \<longleftrightarrow> fill p = PIPESIZE" by (simp add: fill_def PIPESIZE_def word_unat_eq_iff)
  finally show ?thesis .
qed

section \<open>Reading and writing\<close>

lemma push_queue:
  fixes b :: u8
  assumes "fill p < PIPESIZE"
  defines "p' \<equiv> p\<lparr>data := (data p)(unat (nwrite p) mod PIPESIZE := b), nwrite := nwrite p + 1\<rparr>"
  shows "queue p' = queue p @ [b]" and "fill p' = Suc (fill p)"
    and "readopen p' = readopen p" and "writeopen p' = writeopen p"
  using pr.contents_push(1) [OF assms(1) [unfolded fill_def], of "data p" b]
    pr.contents_push(2) [OF assms(1) [unfolded fill_def]]
  by (simp_all add: p'_def queue_def fill_def)

lemma pop_queue:
  assumes "fill p \<noteq> 0"
  shows "queue p = data p (unat (nread p) mod PIPESIZE) # queue (p\<lparr>nread := nread p + 1\<rparr>)"
    and "Suc (fill (p\<lparr>nread := nread p + 1\<rparr>)) = fill p"
proof -
  have "nread p \<noteq> nwrite p" using assms by (simp add: fill_empty)
  then show "queue p = data p (unat (nread p) mod PIPESIZE) # queue (p\<lparr>nread := nread p + 1\<rparr>)"
    and "Suc (fill (p\<lparr>nread := nread p + 1\<rparr>)) = fill p"
    using pr.contents_pop unat_diff_Suc(1) by (simp_all add: queue_def fill_def)
qed

text \<open>A write that returns or sleeps has appended the bytes that it consumed.\<close>

lemma pipewrite_queue:
  assumes "wf_pipe p" and "pipewrite a n kd bs p = (r, ws, p')"
  shows "\<exists>taken rest. bs = taken @ rest \<and> queue p' = queue p @ taken \<and> wf_pipe p' \<and>
    readopen p' = readopen p \<and> writeopen p' = writeopen p \<and>
    (case r of Sleep bs' \<Rightarrow> bs' = rest \<and> fill p' = PIPESIZE \<and> rest \<noteq> [] \<and> ws = [ChRead a]
             | Ret x \<Rightarrow> if x = n \<and> rest = [] then ws = [ChRead a]
                        else x = -1 \<and> rest \<noteq> [] \<and> (kd \<or> \<not> readopen p))"
  using assms
proof (induction a n kd bs p arbitrary: r ws p' rule: pipewrite.induct)
  case (2 a n kd b bs p)
  show ?case
  proof (cases "nwrite p = nread p + of_nat PIPESIZE")
    case True
    then show ?thesis
      using 2 by (intro exI [of _ "[]"] exI [of _ "b # bs"]) (auto simp: fill_full split: if_splits)
  next
    case False
    then have l: "fill p < PIPESIZE" using 2 by (simp add: fill_full wf_pipe_def)
    note pq = push_queue [OF l, of b]
    have wf: "wf_pipe (p\<lparr>data := (data p)(unat (nwrite p) mod PIPESIZE := b), nwrite := nwrite p + 1\<rparr>)"
      using l unfolding wf_pipe_def pq by simp
    from 2 False have "pipewrite a n kd bs (p\<lparr>data := (data p)(unat (nwrite p) mod PIPESIZE := b),
        nwrite := nwrite p + 1\<rparr>) = (r, ws, p')" by simp
    from "2.IH" [OF False wf this] obtain taken rest where
      "bs = taken @ rest \<and> queue p' = (queue p @ [b]) @ taken \<and> wf_pipe p' \<and>
       readopen p' = readopen p \<and> writeopen p' = writeopen p \<and>
       (case r of Sleep bs' \<Rightarrow> bs' = rest \<and> fill p' = PIPESIZE \<and> rest \<noteq> [] \<and> ws = [ChRead a]
             | Ret x \<Rightarrow> if x = n \<and> rest = [] then ws = [ChRead a]
                        else x = -1 \<and> rest \<noteq> [] \<and> (kd \<or> \<not> readopen p))"
      unfolding pq by blast
    then show ?thesis by (intro exI [of _ "b # taken"] exI [of _ rest]) simp
  qed
qed (auto intro: exI [of _ "[]"])

lemma read_loop_queue:
  "wf_pipe p \<Longrightarrow> read_loop n p = (bs, p') \<Longrightarrow>
    bs = take n (queue p) \<and> queue p' = drop n (queue p) \<and> wf_pipe p' \<and>
    readopen p' = readopen p \<and> writeopen p' = writeopen p"
proof (induction n arbitrary: p bs p')
  case (Suc n)
  show ?case
  proof (cases "nread p = nwrite p")
    case True
    then have "queue p = []" by (simp add: queue_def fill_empty [THEN iffD2])
    then show ?thesis using Suc.prems True by simp
  next
    case False
    then have f: "fill p \<noteq> 0" by (simp add: fill_empty)
    note pq = pop_queue [OF f]
    have wf: "wf_pipe (p\<lparr>nread := nread p + 1\<rparr>)" using Suc.prems(1) pq(2) by (simp add: wf_pipe_def)
    obtain cs q where r: "read_loop n (p\<lparr>nread := nread p + 1\<rparr>) = (cs, q)" by fastforce
    show ?thesis
      using Suc.IH [OF wf r] Suc.prems(2) False r by (auto simp: pq(1))
  qed
qed auto

section \<open>First in, first out\<close>

text \<open>Any sequence of writes, reads and closes on a pipe, with the bytes sent and delivered so far. A
  write that slept goes on as another write of the rest.\<close>

inductive pipe_history :: "pipe \<Rightarrow> u8 list \<Rightarrow> u8 list \<Rightarrow> bool" where
  hist_init: "pipe_history (pipe_init p) [] []"
| hist_write: "pipe_history p sent got \<Longrightarrow> pipewrite a n kd bs p = (r, ws, p') \<Longrightarrow>
    pipe_history p' (sent @ take (fill p' - fill p) bs) got"
| hist_read: "pipe_history p sent got \<Longrightarrow> piperead a n kd p = (Ret (Some bs), ws, p') \<Longrightarrow>
    pipe_history p' sent (got @ bs)"
| hist_close: "pipe_history p sent got \<Longrightarrow> pipe_close_end a w p = (c, b, p') \<Longrightarrow>
    pipe_history p' sent got"

lemma piperead_queue:
  assumes "wf_pipe p" "piperead a n kd p = (Ret (Some bs), ws, p')"
  shows "queue p = bs @ queue p'" "wf_pipe p'" "ws = [ChWrite a]"
    "bs = take (nat n) (queue p)"
proof -
  obtain cs q where r: "read_loop (nat n) p = (cs, q)" by fastforce
  with assms(2) have "bs = cs" "p' = q" and w: "ws = [ChWrite a]"
    by (auto simp: piperead_def split: if_splits)
  with read_loop_queue [OF assms(1) r] w
  show "queue p = bs @ queue p'" "wf_pipe p'" "ws = [ChWrite a]" "bs = take (nat n) (queue p)" by auto
qed

lemma pipe_close_queue:
  "pipe_close_end a w p = (c, b, p') \<Longrightarrow> queue p' = queue p \<and> fill p' = fill p"
  by (auto simp: pipe_close_end_def queue_def fill_def split: if_splits)

lemma history_queue: "pipe_history p sent got \<Longrightarrow> wf_pipe p \<and> sent = got @ queue p"
proof (induction rule: pipe_history.induct)
  case (hist_init p)
  then show ?case by (simp add: wf_pipe_def queue_def fill_def pipe_init_def)
next
  case (hist_write p sent got a n kd bs r ws p')
  have wf: "wf_pipe p" and s: "sent = got @ queue p" using hist_write.IH by auto
  obtain taken rest where t: "bs = taken @ rest" "queue p' = queue p @ taken" "wf_pipe p'"
    using pipewrite_queue [OF wf hist_write.hyps(2)] by blast
  have "length (queue p') = length (queue p) + length taken" using t(2) by simp
  then have "take (fill p' - fill p) bs = taken" using t(1) by simp
  then show ?case using t s by simp
next
  case (hist_read p sent got a n kd bs ws p')
  then show ?case using piperead_queue [of p a n kd bs ws p'] by simp
next
  case (hist_close p sent got a w c b p')
  then show ?case using pipe_close_queue [of a w p c b p'] by (simp add: wf_pipe_def)
qed

text \<open>C11: whatever writes, reads and closes happen on a pipe, the bytes delivered followed by the bytes
  in the buffer are the bytes sent, and the buffer never holds more than its size.\<close>

theorem pipe_is_fifo:
  assumes "pipe_history p sent got"
  shows "sent = got @ queue p \<and> fill p \<le> PIPESIZE"
  using history_queue [OF assms] by (simp add: wf_pipe_def)

theorem pipe_is_fifo_witness:
  "\<exists>p. pipe_history p [7, 8, 9] [7, 8] \<and> [7, 8, 9] = [7, 8 :: u8] @ queue p"
proof -
  define q where "q = pipe_init \<lparr>data = (\<lambda>_. 0), nread = 5, nwrite = 9, readopen = False, writeopen = False\<rparr>"
  define q' where "q' = q\<lparr>data := (data q)(0 := 7, 1 := 8, 2 := 9), nwrite := 3\<rparr>"
  have w: "pipewrite 0 3 False [7, 8, 9] q = (Ret 3, [ChRead 0], q')"
    by (simp add: q_def q'_def pipe_init_def PIPESIZE_def)
  have f: "fill q' = 3" "fill q = 0" by (simp_all add: fill_def q'_def q_def pipe_init_def)
  have "pipe_history q [] []" unfolding q_def by (rule hist_init)
  from hist_write [OF this w] have h: "pipe_history q' [7, 8, 9] []" by (simp add: f)
  have "nat 2 = Suc (Suc 0)" by simp
  then have "piperead 0 2 False q' = (Ret (Some [7, 8]), [ChWrite 0], q'\<lparr>nread := 2\<rparr>)"
    unfolding piperead_def by (simp only: read_loop.simps) (simp add: q'_def q_def pipe_init_def PIPESIZE_def)
  from hist_read [OF h this] have "pipe_history (q'\<lparr>nread := 2\<rparr>) [7, 8, 9] [7, 8]" by simp
  with pipe_is_fifo [OF this] show ?thesis by blast
qed

text \<open>A write appends a prefix of its bytes and then either has written them all, returns -1
  because it was killed or nobody can read while the pipe is full, or sleeps with the pipe full after
  waking the readers; a reader that is woken and reads gets the oldest bytes and wakes the writers.\<close>

theorem pipewrite_outcome:
  assumes "wf_pipe p" and "pipewrite a n kd bs p = (r, ws, p')"
  shows "\<exists>taken rest. bs = taken @ rest \<and> queue p' = queue p @ taken \<and> wf_pipe p' \<and>
    (case r of Sleep bs' \<Rightarrow> bs' = rest \<and> fill p' = PIPESIZE \<and> rest \<noteq> [] \<and> ws = [ChRead a]
             | Ret x \<Rightarrow> if x = n \<and> rest = [] then ws = [ChRead a]
                        else x = -1 \<and> rest \<noteq> [] \<and> (kd \<or> \<not> readopen p))"
  using pipewrite_queue [OF assms] by blast

theorem pipewrite_outcome_witness:
  "\<exists>taken rest p'. [1, 2] = taken @ rest \<and> queue p' = taken \<and> rest = ([] :: u8 list)"
proof -
  define q where "q = pipe_init \<lparr>data = (\<lambda>_. 0), nread = 5, nwrite = 9, readopen = False, writeopen = False\<rparr>"
  have wf: "wf_pipe q" and e: "queue q = []" by (simp_all add: wf_pipe_def fill_def q_def pipe_init_def queue_def)
  obtain p' where w: "pipewrite 0 2 False [1, 2] q = (Ret 2, [ChRead 0], p')"
    by (simp add: q_def pipe_init_def PIPESIZE_def)
  from pipewrite_outcome [OF wf w] show ?thesis by (auto simp: e split: if_splits)
qed

end
