(* ===== verification/Bio.thy ===== *)
theory Bio
  imports Prelude
begin

text \<open>
  The disk driver \<open>kernel/ide.c\<close> and the buffer cache \<open>kernel/bio.c\<close>. Buffers are the indices
  \<open>0 \<dots> NBUF - 1\<close>, the list head of the cache is the index \<open>NBUF\<close>, and the cache's list is kept with
  its \<open>next\<close> and \<open>prev\<close> pointers. The driver's queue, linked through \<open>qnext\<close>, is a list. The
  controller is modelled by what the driver programs into it: the drive and the 28-bit sector of the
  command in progress; a write is on the disk once its data was sent, and \<open>bad\<close> says for which sectors the
  controller reports an error when they are read. A process that sleeps until its
  request is done is woken by the interrupts, which \<open>iderw\<close> runs to the end.
\<close>

definition NBUF :: nat where "NBUF = 10"
definition B_BUSY :: u32 where "B_BUSY = 1"
definition B_VALID :: u32 where "B_VALID = 2"
definition B_DIRTY :: u32 where "B_DIRTY = 4"

type_synonym block = "u8 list"

record buf =
  flags :: u32
  dev :: u32
  sector :: u32
  bdata :: block

record bcache =
  bufs :: "nat \<Rightarrow> buf"
  bnext :: "nat \<Rightarrow> nat"
  bprev :: "nat \<Rightarrow> nat"
  idequeue :: "nat list"
  command :: "u32 \<times> u32"                \<comment> \<open>drive and sector in the controller's registers\<close>
  disk :: "u32 \<Rightarrow> u32 \<Rightarrow> block"
  bad :: "u32 \<Rightarrow> u32 \<Rightarrow> bool"
  havedisk1 :: bool

type_synonym hardware = "bool \<times> (u32 \<Rightarrow> u32 \<Rightarrow> bool)"

abbreviation hw :: "bcache \<Rightarrow> hardware" where
  "hw s \<equiv> (havedisk1 s, bad s)"

abbreviation upd_buf :: "nat \<Rightarrow> (buf \<Rightarrow> buf) \<Rightarrow> bcache \<Rightarrow> bcache" where
  "upd_buf b f s \<equiv> s\<lparr>bufs := (bufs s)(b := f (bufs s b))\<rparr>"

section \<open>The driver\<close>

definition lba :: "u32 \<Rightarrow> u32" where
  \<comment> \<open>the sector number as the four registers hold it\<close>
  "lba sec = (sec AND 0xFF) OR push_bit 8 (drop_bit 8 sec AND 0xFF)
     OR push_bit 16 (drop_bit 16 sec AND 0xFF) OR push_bit 24 (drop_bit 24 sec AND 0x0F)"

definition idestart :: "nat \<Rightarrow> bcache \<Rightarrow> bcache" where
  "idestart b s =
     (let d = dev (bufs s b) AND 1; l = lba (sector (bufs s b)); s1 = s\<lparr>command := (d, l)\<rparr> in
      if flags (bufs s b) AND B_DIRTY \<noteq> 0
      then s1\<lparr>disk := (disk s1)(d := (disk s1 d)(l := bdata (bufs s b)))\<rparr> else s1)"

definition ideintr :: "bcache \<Rightarrow> bcache" where
  \<comment> \<open>\<open>idewait(1)\<close> is negative when the controller reports an error for the command\<close>
  "ideintr s = (case idequeue s of
     [] \<Rightarrow> s
   | b # q \<Rightarrow>
       let s1 = s\<lparr>idequeue := q\<rparr>;
           s2 = (if flags (bufs s1 b) AND B_DIRTY = 0 \<and> \<not> bad s1 (fst (command s1)) (snd (command s1))
                 then upd_buf b (\<lambda>x. x\<lparr>bdata := disk s1 (fst (command s1)) (snd (command s1))\<rparr>) s1 else s1);
           s3 = upd_buf b (\<lambda>x. x\<lparr>flags := (flags x OR B_VALID) AND NOT B_DIRTY\<rparr>) s2
       in (case q of [] \<Rightarrow> s3 | c # _ \<Rightarrow> idestart c s3))"

definition iderw_submit :: "nat \<Rightarrow> bcache \<Rightarrow> bcache result" where
  "iderw_submit b s =
     (if flags (bufs s b) AND B_BUSY = 0 then Inl (Panic ''iderw: buf not busy'')
      else if flags (bufs s b) AND (B_VALID OR B_DIRTY) = B_VALID then Inl (Panic ''iderw: nothing to do'')
      else if dev (bufs s b) \<noteq> 0 \<and> \<not> havedisk1 s then Inl (Panic ''iderw: ide disk 1 not present'')
      else let s1 = s\<lparr>idequeue := idequeue s @ [b]\<rparr>
           in Inr (if idequeue s = [] then idestart b s1 else s1))"

fun iderw_wait :: "nat \<Rightarrow> nat \<Rightarrow> bcache \<Rightarrow> bcache result" where
  "iderw_wait n b s =
     (if flags (bufs s b) AND (B_VALID OR B_DIRTY) = B_VALID then Inr s
      else case n of 0 \<Rightarrow> Inl NoFuel | Suc n' \<Rightarrow> iderw_wait n' b (ideintr s))"

declare iderw_wait.simps [simp del]

definition iderw :: "nat \<Rightarrow> bcache \<Rightarrow> bcache result" where
  "iderw b s = bindE (iderw_submit b s) (\<lambda>s1. iderw_wait (length (idequeue s1)) b s1)"

section \<open>The cache\<close>

definition binit_link :: "nat \<Rightarrow> bcache \<Rightarrow> bcache" where
  "binit_link b s =
     (let s1 = s\<lparr>bnext := (bnext s)(b := bnext s NBUF), bprev := (bprev s)(b := NBUF)\<rparr>;
          s2 = upd_buf b (\<lambda>x. x\<lparr>dev := -1\<rparr>) s1;
          s3 = s2\<lparr>bprev := (bprev s2)(bnext s2 NBUF := b)\<rparr>
      in s3\<lparr>bnext := (bnext s3)(NBUF := b)\<rparr>)"

definition binit :: "bcache \<Rightarrow> bcache" where
  "binit s = fold binit_link [0..<NBUF]
     (s\<lparr>bprev := (bprev s)(NBUF := NBUF), bnext := (bnext s)(NBUF := NBUF)\<rparr>)"

text \<open>A loop along the list, from \<open>b\<close> to the first buffer with \<open>P\<close> or to the head.\<close>

fun scan :: "nat \<Rightarrow> (nat \<Rightarrow> nat) \<Rightarrow> (nat \<Rightarrow> bool) \<Rightarrow> nat \<Rightarrow> nat option result" where
  "scan n nx P b = (if b = NBUF then Inr None else if P b then Inr (Some b)
     else case n of 0 \<Rightarrow> Inl NoFuel | Suc n' \<Rightarrow> scan n' nx P (nx b))"

declare scan.simps [simp del]

datatype got = Got nat | Asleep nat  \<comment> \<open>locked buffer, or asleep on a busy one\<close>

definition bget :: "u32 \<Rightarrow> u32 \<Rightarrow> bcache \<Rightarrow> (got \<times> bcache) result" where
  "bget d sec s =
     bindE (scan NBUF (bnext s) (\<lambda>b. dev (bufs s b) = d \<and> sector (bufs s b) = sec) (bnext s NBUF)) (\<lambda>r.
     case r of
       Some b \<Rightarrow> if flags (bufs s b) AND B_BUSY = 0
                 then Inr (Got b, upd_buf b (\<lambda>x. x\<lparr>flags := flags x OR B_BUSY\<rparr>) s)
                 else Inr (Asleep b, s)
     | None \<Rightarrow>
         bindE (scan NBUF (bprev s) (\<lambda>b. flags (bufs s b) AND B_BUSY = 0) (bprev s NBUF)) (\<lambda>r.
         case r of
           Some b \<Rightarrow> Inr (Got b, upd_buf b (\<lambda>x. x\<lparr>dev := d, sector := sec, flags := B_BUSY\<rparr>) s)
         | None \<Rightarrow> Inl (Panic ''bget: no buffers'')))"

definition bread :: "u32 \<Rightarrow> u32 \<Rightarrow> bcache \<Rightarrow> (got \<times> bcache) result" where
  "bread d sec s = bindE (bget d sec s) (\<lambda>(g, s1). case g of
     Asleep b \<Rightarrow> Inr (Asleep b, s1)
   | Got b \<Rightarrow> if flags (bufs s1 b) AND B_VALID = 0
       then bindE (iderw b s1) (\<lambda>s2. Inr (Got b, s2)) else Inr (Got b, s1))"

definition bwrite :: "nat \<Rightarrow> bcache \<Rightarrow> bcache result" where
  "bwrite b s = (if flags (bufs s b) AND B_BUSY = 0 then Inl (Panic ''bwrite'')
     else iderw b (upd_buf b (\<lambda>x. x\<lparr>flags := flags x OR B_DIRTY\<rparr>) s))"

definition brelse :: "nat \<Rightarrow> bcache \<Rightarrow> bcache result" where
  "brelse b s = (if flags (bufs s b) AND B_BUSY = 0 then Inl (Panic ''brelse'')
     else
       let s1 = s\<lparr>bprev := (bprev s)(bnext s b := bprev s b)\<rparr>;
           s2 = s1\<lparr>bnext := (bnext s1)(bprev s1 b := bnext s1 b)\<rparr>;
           s3 = s2\<lparr>bnext := (bnext s2)(b := bnext s2 NBUF)\<rparr>;
           s4 = s3\<lparr>bprev := (bprev s3)(b := NBUF)\<rparr>;
           s5 = s4\<lparr>bprev := (bprev s4)(bnext s4 NBUF := b)\<rparr>;
           s6 = s5\<lparr>bnext := (bnext s5)(NBUF := b)\<rparr>
       in Inr (upd_buf b (\<lambda>x. x\<lparr>flags := flags x AND NOT B_BUSY\<rparr>) s6))"

text \<open>What the file system does with a block: look at it, or change it and write it back.\<close>

definition read_block :: "u32 \<Rightarrow> u32 \<Rightarrow> bcache \<Rightarrow> (block \<times> bcache) result" where
  "read_block d sec s = bindE (bread d sec s) (\<lambda>(g, s1). case g of
     Asleep b \<Rightarrow> Inl Blocked
   | Got b \<Rightarrow> bindE (brelse b s1) (\<lambda>s2. Inr (bdata (bufs s1 b), s2)))"

definition write_block :: "u32 \<Rightarrow> u32 \<Rightarrow> (block \<Rightarrow> block) \<Rightarrow> bcache \<Rightarrow> bcache result" where
  "write_block d sec f s = bindE (bread d sec s) (\<lambda>(g, s1). case g of
     Asleep b \<Rightarrow> Inl Blocked
   | Got b \<Rightarrow> bindE (bwrite b (upd_buf b (\<lambda>x. x\<lparr>bdata := f (bdata x)\<rparr>) s1)) (\<lambda>s2. brelse b s2))"

section \<open>The list of the cache\<close>

text \<open>The pointers represent the circular list \<open>NBUF # xs\<close>.\<close>

fun linked :: "(nat \<Rightarrow> nat) \<Rightarrow> (nat \<Rightarrow> nat) \<Rightarrow> nat \<Rightarrow> nat list \<Rightarrow> nat \<Rightarrow> bool" where
  "linked nx pv a [] z \<longleftrightarrow> nx a = z \<and> pv z = a"
| "linked nx pv a (x # xs) z \<longleftrightarrow> nx a = x \<and> pv x = a \<and> linked nx pv x xs z"

definition ring :: "bcache \<Rightarrow> nat list \<Rightarrow> bool" where
  "ring s xs \<longleftrightarrow> linked (bnext s) (bprev s) NBUF xs NBUF \<and> distinct xs \<and> set xs = {..<NBUF}"

lemma linked_append:
  "linked nx pv a (xs @ x # ys) z \<longleftrightarrow> linked nx pv a xs x \<and> linked nx pv x ys z"
  by (induction xs arbitrary: a) auto

lemma linked_cong:
  "(\<And>i. i = a \<or> i \<in> set xs \<Longrightarrow> nx i = nx' i) \<Longrightarrow> (\<And>i. i = z \<or> i \<in> set xs \<Longrightarrow> pv i = pv' i) \<Longrightarrow>
    linked nx pv a xs z \<longleftrightarrow> linked nx' pv' a xs z"
  by (induction xs arbitrary: a) auto

lemma linked_prev: "linked nx pv a xs z \<Longrightarrow> pv z = last (a # xs)"
  by (induction xs arbitrary: a) auto

lemma linked_next: "linked nx pv a xs z \<Longrightarrow> nx a = hd (xs @ [z])"
  by (cases xs) auto

text \<open>Unlinking \<open>b\<close>.\<close>

lemma linked_remove:
  assumes "linked nx pv a cs b" and "linked nx pv b bs z" and "distinct (cs @ bs)"
    and "a \<notin> set (cs @ bs)" "z \<notin> set (cs @ bs)" "b \<notin> set (cs @ bs)" "a \<noteq> b" "z \<noteq> b"
  shows "linked (nx(pv b := nx b)) (pv(nx b := pv b)) a (cs @ bs) z"
  using assms
proof (induction cs arbitrary: a)
  case Nil
  have pb: "pv b = a" "nx a = b" using Nil by auto
  show ?case
  proof (cases bs)
    case (Cons y ys)
    have "linked nx pv y ys z = linked (nx(a := y)) (pv(y := a)) y ys z"
      using Nil Cons by (intro linked_cong) auto
    moreover have "linked nx pv y ys z" "nx b = y" "y \<noteq> b" using Nil Cons by auto
    ultimately show ?thesis using Cons pb by (simp del: fun_upd_apply add: fun_upd_same)
  qed (use Nil pb in auto)
next
  case (Cons c cs)
  have pb: "pv b = last (c # cs)" using Cons.prems(1) linked_prev by fastforce
  have nb: "nx b = hd (bs @ [z])" using Cons.prems(2) by (rule linked_next)
  have IH: "linked (nx(pv b := nx b)) (pv(nx b := pv b)) c (cs @ bs) z"
    by (rule Cons.IH) (use Cons.prems in auto)
  have "a \<noteq> pv b" using Cons.prems(4) last_in_set [of "c # cs"] unfolding pb by auto
  moreover have "c \<noteq> nx b" using Cons.prems(3,5) unfolding nb by (cases bs) auto
  ultimately show ?case using IH Cons.prems(1) by (simp del: fun_upd_apply add: fun_upd_other)
qed

text \<open>Linking \<open>b\<close> behind the head.\<close>

lemma linked_front:
  assumes "linked nx pv h ws h" and "b \<notin> set ws" "b \<noteq> h" "h \<notin> set ws" "distinct ws"
  shows "linked (nx(b := nx h, h := b)) (pv(b := h, nx h := b)) h (b # ws) h"
proof (cases ws)
  case (Cons w ws')
  have "linked nx pv w ws' h = linked (nx(b := w, h := b)) (pv(b := h, w := b)) w ws' h"
    using assms Cons by (intro linked_cong) auto
  then show ?thesis using assms Cons by auto
qed (use assms in auto)

lemma brelse_ring:
  assumes r: "ring s xs" and b: "b < NBUF" and busy: "flags (bufs s b) AND B_BUSY \<noteq> 0"
  shows "\<exists>s'. brelse b s = Inr s' \<and> ring s' (b # remove1 b xs) \<and>
    bufs s' = (bufs s)(b := (bufs s b)\<lparr>flags := flags (bufs s b) AND NOT B_BUSY\<rparr>) \<and>
    disk s' = disk s \<and> idequeue s' = idequeue s \<and> hw s' = hw s"
proof -
  obtain as bs where xs: "xs = as @ b # bs" using r b split_list [of b xs] by (auto simp: ring_def)
  have d: "distinct (as @ bs)" "b \<notin> set (as @ bs)" "NBUF \<notin> set (as @ bs)" "b \<noteq> NBUF"
    using r b by (auto simp: ring_def xs)
  have l: "linked (bnext s) (bprev s) NBUF as b" "linked (bnext s) (bprev s) b bs NBUF"
    using r by (simp_all add: ring_def xs linked_append)
  have nb: "bnext s b \<noteq> b" using linked_next [OF l(2)] d by (cases bs) auto
  let ?n1 = "(bnext s)(bprev s b := bnext s b)" and ?p1 = "(bprev s)(bnext s b := bprev s b)"
  have l1: "linked ?n1 ?p1 NBUF (as @ bs) NBUF"
    by (rule linked_remove [OF l]) (use d in auto)
  note l2 = linked_front [OF l1 d(2,4,3,1)]
  have rm: "remove1 b xs = as @ bs" using d by (simp add: xs remove1_append)
  show ?thesis
  proof (intro exI conjI)
    show "brelse b s = Inr (s\<lparr>bnext := ?n1(b := ?n1 NBUF, NBUF := b), bprev := ?p1(b := NBUF, ?n1 NBUF := b),
      bufs := (bufs s)(b := (bufs s b)\<lparr>flags := flags (bufs s b) AND NOT B_BUSY\<rparr>)\<rparr>)"
      using busy nb d(4) by (simp add: brelse_def Let_def)
    show "ring (s\<lparr>bnext := ?n1(b := ?n1 NBUF, NBUF := b), bprev := ?p1(b := NBUF, ?n1 NBUF := b),
      bufs := (bufs s)(b := (bufs s b)\<lparr>flags := flags (bufs s b) AND NOT B_BUSY\<rparr>)\<rparr>) (b # remove1 b xs)"
    proof -
      have "set (b # as @ bs) = {..<NBUF}" "distinct (b # as @ bs)" using r d by (auto simp: ring_def xs)
      then show ?thesis using l2 unfolding ring_def rm by (simp del: linked.simps fun_upd_apply)
    qed
  qed simp_all
qed

lemma binit_link_ptrs:
  assumes "b \<noteq> NBUF"
  shows "bnext (binit_link b s) = (bnext s)(b := bnext s NBUF, NBUF := b)"
    and "bprev (binit_link b s) = (bprev s)(b := NBUF, bnext s NBUF := b)"
  using assms by (simp_all add: binit_link_def Let_def)

lemma binit_ring: "ring (binit s) (rev [0..<NBUF])"
proof -
  let ?s0 = "s\<lparr>bprev := (bprev s)(NBUF := NBUF), bnext := (bnext s)(NBUF := NBUF)\<rparr>"
  have "n \<le> NBUF \<Longrightarrow>
    linked (bnext (fold binit_link [0..<n] ?s0)) (bprev (fold binit_link [0..<n] ?s0)) NBUF (rev [0..<n]) NBUF" for n
  proof (induction n)
    case (Suc n)
    let ?t = "fold binit_link [0..<n] ?s0"
    have "linked (bnext ?t) (bprev ?t) NBUF (rev [0..<n]) NBUF" using Suc.IH Suc.prems by linarith
    from linked_front [OF this, of n] Suc.prems
    have f: "linked ((bnext ?t)(n := bnext ?t NBUF, NBUF := n)) ((bprev ?t)(n := NBUF, bnext ?t NBUF := n))
        NBUF (n # rev [0..<n]) NBUF"
      by (simp del: linked.simps fun_upd_apply)
    have "n \<noteq> NBUF" using Suc.prems by simp
    from f show ?case
      unfolding upt_Suc_append [OF le0] fold_append comp_def fold.simps id_apply binit_link_ptrs [OF \<open>n \<noteq> NBUF\<close>]
      by (simp del: linked.simps fun_upd_apply)
  qed simp
  from this [OF order_refl] show ?thesis by (auto simp: ring_def binit_def)
qed

text \<open>Scanning the ring.\<close>

lemma scan_linked:
  "linked nx pv a xs NBUF \<Longrightarrow> NBUF \<notin> set xs \<Longrightarrow> length xs \<le> n \<Longrightarrow> scan n nx P (nx a) = Inr (find P xs)"
proof (induction xs arbitrary: a n)
  case Nil
  then show ?case by (simp add: scan.simps)
next
  case (Cons x xs)
  then obtain n' where n: "n = Suc n'" by (cases n) auto
  have "scan n' nx P (nx x) = Inr (find P xs)" by (rule Cons.IH) (use Cons.prems n in auto)
  moreover have "nx a = x" "x \<noteq> NBUF" using Cons.prems by auto
  ultimately show ?case by (simp add: scan.simps [of "Suc n'" nx P x] n)
qed

lemma linked_back: "linked nx pv a xs z \<longleftrightarrow> linked pv nx z (rev xs) a"
proof (induction xs arbitrary: a)
  case (Cons x xs)
  then show ?case by (auto simp: linked_append)
qed auto

lemma ring_scan:
  assumes "ring s xs"
  shows "scan NBUF (bnext s) P (bnext s NBUF) = Inr (find P xs)"
    and "scan NBUF (bprev s) P (bprev s NBUF) = Inr (find P (rev xs))"
proof -
  have l: "length xs \<le> NBUF" "NBUF \<notin> set xs"
    using assms distinct_card [of xs] by (auto simp: ring_def)
  show "scan NBUF (bnext s) P (bnext s NBUF) = Inr (find P xs)"
    using assms l by (intro scan_linked) (auto simp: ring_def)
  have "linked (bprev s) (bnext s) NBUF (rev xs) NBUF"
    by (subst linked_back [symmetric]) (use assms in \<open>simp add: ring_def\<close>)
  then show "scan NBUF (bprev s) P (bprev s NBUF) = Inr (find P (rev xs))"
    using l by (intro scan_linked) auto
qed

end
