(* ===== verification/Block_Interface.thy ===== *)
theory Block_Interface
  imports Prelude
begin

text \<open>
  What the file system relies on when it calls the buffer cache: reading a block gives what was last
  written to it, writing a block changes that block only, both always succeed on the addresses of the
  device. The client lemma says that any program of reads and writes behaves as on a plain array of
  blocks. It is interpreted on the buffer cache in theory \<open>Bio_Spec\<close>.
\<close>

datatype ('a, 'b) blk_op = Rd 'a | Wr 'a "'b \<Rightarrow> 'b"

text \<open>The specification: a function from addresses to blocks; a program returns what it read.\<close>

fun run_plain :: "('a, 'b) blk_op list \<Rightarrow> ('a \<Rightarrow> 'b) \<Rightarrow> 'b list \<times> ('a \<Rightarrow> 'b)" where
  "run_plain [] m = ([], m)"
| "run_plain (Rd x # ops) m = (let (bs, m') = run_plain ops m in (m x # bs, m'))"
| "run_plain (Wr x f # ops) m = run_plain ops (m(x := f (m x)))"

fun run_store :: "('a \<Rightarrow> 's \<Rightarrow> 'e + 'b \<times> 's) \<Rightarrow> ('a \<Rightarrow> ('b \<Rightarrow> 'b) \<Rightarrow> 's \<Rightarrow> 'e + 's) \<Rightarrow>
    ('a, 'b) blk_op list \<Rightarrow> 's \<Rightarrow> 'e + 'b list \<times> 's" where
  "run_store rd wr [] s = Inr ([], s)"
| "run_store rd wr (Rd x # ops) s =
     bindE (rd x s) (\<lambda>(b, s1). bindE (run_store rd wr ops s1) (\<lambda>(bs, s2). Inr (b # bs, s2)))"
| "run_store rd wr (Wr x f # ops) s = bindE (wr x f s) (\<lambda>s1. run_store rd wr ops s1)"

fun op_addr :: "('a, 'b) blk_op \<Rightarrow> 'a" where
  "op_addr (Rd x) = x"
| "op_addr (Wr x f) = x"

locale block_store =
  fixes rd :: "'a \<Rightarrow> 's \<Rightarrow> 'e + 'b \<times> 's"
    and wr :: "'a \<Rightarrow> ('b \<Rightarrow> 'b) \<Rightarrow> 's \<Rightarrow> 'e + 's"
    and content :: "'s \<Rightarrow> 'a \<Rightarrow> 'b"
    and valid :: "'a \<Rightarrow> bool"
    and inv :: "'s \<Rightarrow> bool"
  assumes rd_ok: "inv s \<Longrightarrow> valid x \<Longrightarrow> \<exists>s'. rd x s = Inr (content s x, s') \<and> inv s' \<and> content s' = content s"
    and wr_ok: "inv s \<Longrightarrow> valid x \<Longrightarrow> \<exists>s'. wr x f s = Inr s' \<and> inv s' \<and>
        content s' = (content s)(x := f (content s x))"

context block_store begin

lemma read_after_write:
  assumes "inv s" "valid x" "valid y" "wr x f s = Inr s'" "rd y s' = Inr (b, s'')"
  shows "b = (if y = x then f (content s x) else content s y)"
  using wr_ok [OF assms(1,2), of f] rd_ok [of s' y] assms by auto

lemma run_refines:
  "inv s \<Longrightarrow> (\<forall>p \<in> set ops. valid (op_addr p)) \<Longrightarrow>
    \<exists>s'. run_store rd wr ops s = Inr (fst (run_plain ops (content s)), s') \<and> inv s' \<and>
      content s' = snd (run_plain ops (content s))"
proof (induction ops arbitrary: s)
  case (Cons p ops)
  show ?case
  proof (cases p)
    case (Rd x)
    obtain s1 where "rd x s = Inr (content s x, s1)" "inv s1" "content s1 = content s"
      using rd_ok [of s x] Cons.prems Rd by auto
    then show ?thesis
      using Cons.IH [of s1] Cons.prems(2) Rd by (auto split: prod.splits)
  next
    case (Wr x f)
    obtain s1 where "wr x f s = Inr s1" "inv s1" "content s1 = (content s)(x := f (content s x))"
      using wr_ok [of s x f] Cons.prems Wr by auto
    then show ?thesis using Cons.IH [of s1] Cons.prems(2) Wr by (auto simp del: fun_upd_apply)
  qed
qed simp

end

end
