(* ===== verification/Bio_Spec.thy ===== *)
theory Bio_Spec
  imports Bio Block_Interface
begin

text \<open>
  Correctness of the buffer cache at rest: a read gives the disk's block, a write changes that block
  of the disk and no other, on every path (block cached, or a buffer recycled), and the cache
  provides the interface of theory \<open>Block_Interface\<close>.
\<close>


section \<open>The cache at rest\<close>

definition blk_addr :: "bcache \<Rightarrow> u32 \<Rightarrow> u32 \<Rightarrow> bool" where
  \<comment> \<open>the addresses the driver can reach, with a sector that can be read\<close>
  "blk_addr s d sec \<longleftrightarrow> (d = 0 \<or> d = 1 \<and> havedisk1 s) \<and> sec < 0x10000000 \<and> \<not> bad s d sec"

text \<open>No process uses a buffer: nothing busy, dirty or queued; a buffer is unused or holds the disk's
  words of its block, and no two hold the same block.\<close>

definition wf_bcache :: "bcache \<Rightarrow> nat list \<Rightarrow> bool" where
  "wf_bcache s xs \<longleftrightarrow> ring s xs \<and> idequeue s = [] \<and>
     (\<forall>b < NBUF. flags (bufs s b) = 0 \<and> dev (bufs s b) = -1 \<or>
        flags (bufs s b) = 2 \<and> blk_addr s (dev (bufs s b)) (sector (bufs s b)) \<and>
        bdata (bufs s b) = disk s (dev (bufs s b)) (sector (bufs s b))) \<and>
     (\<forall>b < NBUF. \<forall>c < NBUF. flags (bufs s b) = 2 \<longrightarrow> flags (bufs s c) = 2 \<longrightarrow>
        dev (bufs s b) = dev (bufs s c) \<longrightarrow> sector (bufs s b) = sector (bufs s c) \<longrightarrow> b = c)"

lemma B_consts: "B_BUSY = 1" "B_VALID = 2" "B_DIRTY = 4"
  by (simp_all add: B_BUSY_def B_VALID_def B_DIRTY_def)

lemma lba_small:
  assumes "sec < 0x10000000"
  shows "lba sec = sec"
proof (rule bit_eqI)
  fix n assume "possible_bit TYPE(u32) n"
  then have n: "n < 32" by simp
  have h: "bit sec n \<Longrightarrow> n < 28"
  proof (rule ccontr)
    assume b: "bit sec n" and "\<not> n < 28"
    then have n28: "28 \<le> n" by simp
    have "unat sec < 2 ^ 28" using assms by (simp add: word_less_nat_alt)
    moreover have "(2 :: nat) ^ 28 \<le> 2 ^ n" using n28 by (intro power_increasing) simp_all
    ultimately have "unat sec div 2 ^ n = 0" by simp
    then have "\<not> bit (unat sec) n" by (simp add: bit_iff_odd)
    then show False using b by (simp add: bit_unsigned_iff)
  qed
  have m: "(0xFF :: u32) = mask 8" "(0x0F :: u32) = mask 4" by (simp_all add: mask_eq_exp_minus_1)
  show "bit (lba sec) n = bit sec n"
    unfolding lba_def m using n h
    by (cases "n < 8"; cases "n < 16"; cases "n < 24"; cases "n < 28") (auto simp: bit_simps)
qed

lemma iderw_read:
  assumes "flags (bufs s b) = 1" "idequeue s = []" "blk_addr s (dev (bufs s b)) (sector (bufs s b))"
  shows "iderw b s = Inr (s\<lparr>command := (dev (bufs s b), sector (bufs s b)), bufs := (bufs s)(b := (bufs s b)
    \<lparr>bdata := disk s (dev (bufs s b)) (sector (bufs s b)), flags := 3\<rparr>)\<rparr>)"
proof -
  have l: "lba (sector (bufs s b)) = sector (bufs s b)" "dev (bufs s b) AND 1 = dev (bufs s b)"
    "dev (bufs s b) = 0 \<or> havedisk1 s" "\<not> bad s (dev (bufs s b)) (sector (bufs s b))"
    using assms(3) by (auto simp: blk_addr_def lba_small)
  show ?thesis
    using assms(1,2) l
    by (simp add: iderw_def iderw_submit_def idestart_def iderw_wait.simps ideintr_def B_consts Let_def)
qed

lemma iderw_write:
  assumes "flags (bufs s b) = 7" "idequeue s = []" "blk_addr s (dev (bufs s b)) (sector (bufs s b))"
  shows "iderw b s = Inr (s\<lparr>command := (dev (bufs s b), sector (bufs s b)),
    disk := (disk s)(dev (bufs s b) := (disk s (dev (bufs s b)))(sector (bufs s b) := bdata (bufs s b))),
    bufs := (bufs s)(b := (bufs s b)\<lparr>flags := 3\<rparr>)\<rparr>)"
proof -
  have l: "lba (sector (bufs s b)) = sector (bufs s b)" "dev (bufs s b) AND 1 = dev (bufs s b)"
    "dev (bufs s b) = 0 \<or> havedisk1 s"
    using assms(3) by (auto simp: blk_addr_def lba_small)
  show ?thesis
    using assms(1,2) l
    by (simp add: iderw_def iderw_submit_def idestart_def iderw_wait.simps ideintr_def B_consts Let_def)
qed

lemma bread_ok:
  assumes wf: "wf_bcache s xs" and ad: "blk_addr s d sec"
  shows "\<exists>b s1. bread d sec s = Inr (Got b, s1) \<and> b < NBUF \<and> ring s1 xs \<and> idequeue s1 = [] \<and>
    disk s1 = disk s \<and> hw s1 = hw s \<and>
    bufs s1 = (bufs s)(b := \<lparr>flags = 3, dev = d, sector = sec, bdata = disk s d sec\<rparr>) \<and>
    (\<forall>c < NBUF. c \<noteq> b \<longrightarrow> flags (bufs s c) = 2 \<longrightarrow> dev (bufs s c) = d \<longrightarrow> sector (bufs s c) \<noteq> sec)"
proof -
  have r: "ring s xs" and q: "idequeue s = []" and xs: "set xs = {..<NBUF}"
    and st: "\<And>b. b < NBUF \<Longrightarrow> flags (bufs s b) = 0 \<and> dev (bufs s b) = -1 \<or>
        flags (bufs s b) = 2 \<and> bdata (bufs s b) = disk s (dev (bufs s b)) (sector (bufs s b))"
    and un: "\<And>b c. b < NBUF \<Longrightarrow> c < NBUF \<Longrightarrow> flags (bufs s b) = 2 \<Longrightarrow> flags (bufs s c) = 2 \<Longrightarrow>
        dev (bufs s b) = dev (bufs s c) \<Longrightarrow> sector (bufs s b) = sector (bufs s c) \<Longrightarrow> b = c"
    using wf by (auto simp: wf_bcache_def ring_def)
  have dm: "d \<noteq> -1" using ad by (auto simp: blk_addr_def)
  let ?P = "\<lambda>b. dev (bufs s b) = d \<and> sector (bufs s b) = sec"
  let ?Q = "\<lambda>b. flags (bufs s b) AND B_BUSY = 0"
  note sc = ring_scan [OF r]
  show ?thesis
  proof (cases "find ?P xs")
    case (Some b)
    then have "b \<in> set xs \<and> ?P b" by (metis (mono_tags, lifting) find_Some_iff nth_mem)
    then have b: "b < NBUF" "?P b" using xs by auto
    then have f: "flags (bufs s b) = 2" "bdata (bufs s b) = disk s d sec" using st [OF b(1)] dm by auto
    have "bread d sec s = Inr (Got b, upd_buf b (\<lambda>x. x\<lparr>flags := 3\<rparr>) s)"
      using Some f by (simp add: bread_def bget_def sc(1) B_consts)
    moreover have "bufs s b\<lparr>flags := 3\<rparr> = \<lparr>flags = 3, dev = d, sector = sec, bdata = disk s d sec\<rparr>"
      using b f by (cases "bufs s b") auto
    moreover have "\<forall>c < NBUF. c \<noteq> b \<longrightarrow> flags (bufs s c) = 2 \<longrightarrow> dev (bufs s c) = d \<longrightarrow> sector (bufs s c) \<noteq> sec"
    proof (intro allI impI notI)
      fix c assume "c < NBUF" "c \<noteq> b" "flags (bufs s c) = 2" "dev (bufs s c) = d" "sector (bufs s c) = sec"
      then show False using un [of c b] b f(1) by simp
    qed
    moreover have "ring (upd_buf b (\<lambda>x. x\<lparr>flags := 3\<rparr>) s) xs" using r by (simp add: ring_def)
    ultimately show ?thesis
      using b(1) q by (intro exI [of _ b] exI [of _ "upd_buf b (\<lambda>x. x\<lparr>flags := 3\<rparr>) s"]) simp
  next
    case None
    have nb: "c < NBUF \<Longrightarrow> flags (bufs s c) = 2 \<Longrightarrow> dev (bufs s c) = d \<Longrightarrow> sector (bufs s c) \<noteq> sec" for c
      using None xs by (auto simp: find_None_iff)
    have z: "0 < NBUF" by (simp add: NBUF_def)
    have "?Q 0" using st [OF z] by (auto simp: B_consts)
    moreover have "0 \<in> set xs" using xs z by simp
    ultimately have "find ?Q (rev xs) \<noteq> None" unfolding find_None_iff by auto
    then obtain b where b: "find ?Q (rev xs) = Some b" by blast
    then have "b \<in> set (rev xs)" by (metis find_Some_iff nth_mem)
    then have bn: "b < NBUF" using xs by simp
    let ?s1 = "upd_buf b (\<lambda>x. x\<lparr>dev := d, sector := sec, flags := 1\<rparr>) s"
    have g: "bget d sec s = Inr (Got b, ?s1)"
      using None b by (simp add: bget_def sc B_consts)
    have "iderw b ?s1 = Inr (?s1\<lparr>command := (d, sec), bufs := (bufs ?s1)(b := (bufs ?s1 b)
      \<lparr>bdata := disk s d sec, flags := 3\<rparr>)\<rparr>)"
      using iderw_read [of ?s1 b] q ad by (simp add: blk_addr_def)
    moreover define s2 where "s2 = ?s1\<lparr>command := (d, sec), bufs := (bufs ?s1)(b := (bufs ?s1 b)
      \<lparr>bdata := disk s d sec, flags := 3\<rparr>)\<rparr>"
    ultimately have "bread d sec s = Inr (Got b, s2)" using g by (simp add: bread_def B_consts)
    moreover have "ring s2 xs" "idequeue s2 = []" "disk s2 = disk s" "hw s2 = hw s"
      using r q by (simp_all add: ring_def s2_def)
    moreover have "bufs s2 = (bufs s)(b := \<lparr>flags = 3, dev = d, sector = sec, bdata = disk s d sec\<rparr>)"
      by (cases "bufs s b") (simp add: s2_def)
    moreover have "\<forall>c < NBUF. c \<noteq> b \<longrightarrow> flags (bufs s c) = 2 \<longrightarrow> dev (bufs s c) = d \<longrightarrow> sector (bufs s c) \<noteq> sec"
      using nb by blast
    ultimately show ?thesis using bn by blast
  qed
qed

lemma brelse_ok:
  assumes wf: "wf_bcache s xs" and ad: "blk_addr s d sec" and b: "b < NBUF"
    and t: "ring t xs" "idequeue t = []" "hw t = hw s"
      "disk t = (disk s)(d := (disk s d)(sec := x))"
      "bufs t = (bufs s)(b := \<lparr>flags = 3, dev = d, sector = sec, bdata = x\<rparr>)"
    and un: "\<forall>c < NBUF. c \<noteq> b \<longrightarrow> flags (bufs s c) = 2 \<longrightarrow> dev (bufs s c) = d \<longrightarrow> sector (bufs s c) \<noteq> sec"
  shows "\<exists>t'. brelse b t = Inr t' \<and> wf_bcache t' (b # remove1 b xs) \<and> disk t' = disk t \<and>
    hw t' = hw s"
proof -
  have "flags (bufs t b) AND B_BUSY \<noteq> 0" using t(5) by (simp add: B_consts)
  from brelse_ring [OF t(1) b this] obtain t' where t': "brelse b t = Inr t'"
      "ring t' (b # remove1 b xs)" "disk t' = disk t" "idequeue t' = []" "hw t' = hw s"
    and bf: "bufs t' = (bufs s)(b := \<lparr>flags = 2, dev = d, sector = sec, bdata = x\<rparr>)"
    using t(2,3,5) by (auto simp: B_consts)
  have adt: "blk_addr t' = blk_addr s" using t'(5) by (intro ext) (simp add: blk_addr_def)
  have "flags (bufs t' c) = 0 \<and> dev (bufs t' c) = -1 \<or>
        flags (bufs t' c) = 2 \<and> blk_addr t' (dev (bufs t' c)) (sector (bufs t' c)) \<and>
        bdata (bufs t' c) = disk t' (dev (bufs t' c)) (sector (bufs t' c))" if "c < NBUF" for c
    using wf that un ad unfolding wf_bcache_def bf t'(3) t(4) adt by (cases "c = b") auto
  moreover have "c = e" if "c < NBUF" "e < NBUF" "flags (bufs t' c) = 2" "flags (bufs t' e) = 2"
      "dev (bufs t' c) = dev (bufs t' e)" "sector (bufs t' c) = sector (bufs t' e)" for c e
    using wf that un unfolding wf_bcache_def bf by (auto split: if_splits)
  ultimately show ?thesis using t' by (auto simp: wf_bcache_def)
qed

lemma read_block_ok:
  assumes wf: "wf_bcache s xs" and ad: "blk_addr s d sec"
  shows "\<exists>s' ys. read_block d sec s = Inr (disk s d sec, s') \<and> wf_bcache s' ys \<and> disk s' = disk s \<and>
    hw s' = hw s"
proof -
  obtain b s1 where b: "bread d sec s = Inr (Got b, s1)" "b < NBUF" "ring s1 xs" "idequeue s1 = []"
      "disk s1 = disk s" "hw s1 = hw s"
      "bufs s1 = (bufs s)(b := \<lparr>flags = 3, dev = d, sector = sec, bdata = disk s d sec\<rparr>)"
      "\<forall>c < NBUF. c \<noteq> b \<longrightarrow> flags (bufs s c) = 2 \<longrightarrow> dev (bufs s c) = d \<longrightarrow> sector (bufs s c) \<noteq> sec"
    using bread_ok [OF wf ad] by blast
  have "disk s1 = (disk s)(d := (disk s d)(sec := disk s d sec))" using b(5) by simp
  from brelse_ok [OF wf ad b(2-4,6) this b(7,8)] show ?thesis
    using b by (auto simp: read_block_def)
qed

lemma write_block_ok:
  assumes wf: "wf_bcache s xs" and ad: "blk_addr s d sec"
  shows "\<exists>s' ys. write_block d sec f s = Inr s' \<and> wf_bcache s' ys \<and>
    disk s' = (disk s)(d := (disk s d)(sec := f (disk s d sec))) \<and> hw s' = hw s"
proof -
  obtain b s1 where b: "bread d sec s = Inr (Got b, s1)" "b < NBUF" "ring s1 xs" "idequeue s1 = []"
      "disk s1 = disk s" "hw s1 = hw s"
      "bufs s1 = (bufs s)(b := \<lparr>flags = 3, dev = d, sector = sec, bdata = disk s d sec\<rparr>)"
      "\<forall>c < NBUF. c \<noteq> b \<longrightarrow> flags (bufs s c) = 2 \<longrightarrow> dev (bufs s c) = d \<longrightarrow> sector (bufs s c) \<noteq> sec"
    using bread_ok [OF wf ad] by blast
  let ?x = "f (disk s d sec)"
  define s2 where "s2 = upd_buf b (\<lambda>x. x\<lparr>flags := flags x OR B_DIRTY\<rparr>) (upd_buf b (\<lambda>x. x\<lparr>bdata := f (bdata x)\<rparr>) s1)"
  have f7: "bufs s2 b = \<lparr>flags = 7, dev = d, sector = sec, bdata = ?x\<rparr>"
    using b(7) by (simp add: B_consts s2_def)
  have s2: "ring s2 xs" "idequeue s2 = []" "disk s2 = disk s" "hw s2 = hw s"
    using b(3-6) by (simp_all add: s2_def ring_def)
  define t where "t = s2\<lparr>command := (d, sec), disk := (disk s)(d := (disk s d)(sec := ?x)),
    bufs := (bufs s2)(b := \<lparr>flags = 3, dev = d, sector = sec, bdata = ?x\<rparr>)\<rparr>"
  have "iderw b s2 = Inr t"
    using iderw_write [of s2 b] f7 s2 ad by (simp add: blk_addr_def t_def)
  then have w: "bwrite b (upd_buf b (\<lambda>x. x\<lparr>bdata := f (bdata x)\<rparr>) s1) = Inr t"
    using b(7) by (simp add: bwrite_def B_consts s2_def)
  have "ring t xs" "idequeue t = []" "hw t = hw s" "disk t = (disk s)(d := (disk s d)(sec := ?x))"
      "bufs t = (bufs s)(b := \<lparr>flags = 3, dev = d, sector = sec, bdata = ?x\<rparr>)"
    using b(7) s2 by (auto simp: t_def ring_def s2_def fun_eq_iff)
  from brelse_ok [OF wf ad b(2) this b(8)] show ?thesis
    using b(1) w \<open>disk t = _\<close> by (auto simp: write_block_def)
qed

section \<open>The cache as a block store\<close>

abbreviation rest :: "hardware \<Rightarrow> bcache \<Rightarrow> bool" where
  "rest h s \<equiv> (\<exists>xs. wf_bcache s xs) \<and> hw s = h"

abbreviation reachable_block :: "hardware \<Rightarrow> u32 \<times> u32 \<Rightarrow> bool" where
  "reachable_block h x \<equiv> (fst x = 0 \<or> fst x = 1 \<and> fst h) \<and> snd x < 0x10000000 \<and> \<not> snd h (fst x) (snd x)"

interpretation bc: block_store "\<lambda>(d, sec). read_block d sec" "\<lambda>(d, sec). write_block d sec"
    "\<lambda>s (d, sec). disk s d sec" "reachable_block h" "rest h" for h
proof
  fix s :: bcache and x :: "u32 \<times> u32"
  obtain d sec where x: "x = (d, sec)" by fastforce
  assume "rest h s" and "reachable_block h x"
  then obtain xs where wf: "wf_bcache s xs" and ad: "blk_addr s d sec" and h: "hw s = h"
    by (auto simp: x blk_addr_def)
  show "\<exists>s'. (case x of (d, sec) \<Rightarrow> read_block d sec) s = Inr ((case x of (d, sec) \<Rightarrow> disk s d sec), s') \<and>
      rest h s' \<and> (\<lambda>(d, sec). disk s' d sec) = (\<lambda>(d, sec). disk s d sec)"
    using read_block_ok [OF wf ad] h by (auto simp: x)
  show "\<exists>s'. (case x of (d, sec) \<Rightarrow> write_block d sec) f s = Inr s' \<and> rest h s' \<and>
      (\<lambda>(d, sec). disk s' d sec) = (\<lambda>(d, sec). disk s d sec)(x := f (case x of (d, sec) \<Rightarrow> disk s d sec))" for f
    using write_block_ok [OF wf ad, of f] h by (auto simp: x fun_eq_iff)
qed

section \<open>Properties\<close>

text \<open>A cache after \<open>binit\<close>, over an arbitrary disk.\<close>

definition fresh_cache :: "(u32 \<Rightarrow> u32 \<Rightarrow> block) \<Rightarrow> bcache" where
  "fresh_cache dk = binit \<lparr>bufs = (\<lambda>_. \<lparr>flags = 0, dev = 0, sector = 0, bdata = []\<rparr>), bnext = (\<lambda>_. 0),
     bprev = (\<lambda>_. 0), idequeue = [], command = (0, 0), disk = dk, bad = (\<lambda>_ _. False), havedisk1 = True\<rparr>"

lemma binit_bufs:
  "bufs (fold binit_link [0..<n] s) = (\<lambda>b. if b < n then (bufs s b)\<lparr>dev := -1\<rparr> else bufs s b) \<and>
    idequeue (fold binit_link [0..<n] s) = idequeue s \<and> disk (fold binit_link [0..<n] s) = disk s \<and>
    hw (fold binit_link [0..<n] s) = hw s"
  by (induction n) (auto simp: binit_link_def Let_def fun_eq_iff less_Suc_eq)

lemma fresh_cache_wf: "wf_bcache (fresh_cache dk) (rev [0..<NBUF])" "disk (fresh_cache dk) = dk"
    "hw (fresh_cache dk) = (True, \<lambda>_ _. False)"
proof -
  have "ring (fresh_cache dk) (rev [0..<NBUF])" unfolding fresh_cache_def by (rule binit_ring)
  then show "wf_bcache (fresh_cache dk) (rev [0..<NBUF])"
    by (simp add: wf_bcache_def) (simp add: fresh_cache_def binit_def binit_bufs)
  show "disk (fresh_cache dk) = dk" "hw (fresh_cache dk) = (True, \<lambda>_ _. False)"
    by (simp_all add: fresh_cache_def binit_def binit_bufs)
qed

text \<open>\<open>brelse\<close> keeps the pointers of the cache a circular list of all buffers and moves the
  released buffer to the front, so the list is ordered from the most to the least recently used.\<close>

theorem brelse_moves_to_front:
  assumes "ring s xs" and "b < NBUF" and "flags (bufs s b) AND B_BUSY \<noteq> 0"
  shows "\<exists>s'. brelse b s = Inr s' \<and> ring s' (b # remove1 b xs) \<and> flags (bufs s' b) AND B_BUSY = 0"
proof -
  have "(flags (bufs s b) AND NOT B_BUSY) AND B_BUSY = 0" by (simp add: word_bw_assocs)
  then show ?thesis using brelse_ring [OF assms] by auto
qed

theorem brelse_moves_to_front_witness:
  "\<exists>s'. brelse 3 ((fresh_cache (\<lambda>_ _. [7]))\<lparr>bufs := (\<lambda>_. \<lparr>flags = 1, dev = 0, sector = 0, bdata = []\<rparr>)\<rparr>) = Inr s' \<and>
    ring s' [3, 9, 8, 7, 6, 5, 4, 2, 1, 0]"
proof -
  let ?s = "(fresh_cache (\<lambda>_ _. [7]))\<lparr>bufs := (\<lambda>_. \<lparr>flags = 1, dev = 0, sector = 0, bdata = []\<rparr>)\<rparr>"
  have "ring ?s (rev [0..<NBUF])" using fresh_cache_wf(1) [of "\<lambda>_ _. [7]"] by (simp add: wf_bcache_def ring_def)
  moreover have "rev [0..<NBUF] = [9, 8, 7, 6, 5, 4, 3, 2, 1, 0]" by (simp add: NBUF_def upt_rec)
  ultimately show ?thesis
    using brelse_moves_to_front [of ?s "rev [0..<NBUF]" 3] by (auto simp: NBUF_def B_consts)
qed

text \<open>C12: through the cache, any program of reads and writes of blocks whose sectors the controller can read
  returns what it would return on the disk itself, never panics, and leaves the disk as if it had run there. (For
  a sector with a read error \<open>ideintr\<close> marks the buffer valid with its old contents.)\<close>

theorem buffer_cache_is_transparent:
  assumes "wf_bcache s xs" and "\<forall>p \<in> set ops. reachable_block (havedisk1 s, bad s) (op_addr p)"
  shows "\<exists>s' ys. run_store (\<lambda>(d, sec). read_block d sec) (\<lambda>(d, sec). write_block d sec) ops s =
      Inr (fst (run_plain ops (\<lambda>(d, sec). disk s d sec)), s') \<and> wf_bcache s' ys \<and>
    (\<lambda>(d, sec). disk s' d sec) = snd (run_plain ops (\<lambda>(d, sec). disk s d sec))"
  using bc.run_refines [of s "hw s" ops] assms by blast

theorem buffer_cache_is_transparent_witness:
  "\<exists>s'. run_store (\<lambda>(d, sec). read_block d sec) (\<lambda>(d, sec). write_block d sec)
      [Wr (1, 5) (\<lambda>_. [7]), Rd (1, 5), Rd (0, 5)] (fresh_cache (\<lambda>_ _. [0])) = Inr ([[7], [0]], s')"
proof -
  have "\<exists>s' ys. run_store (\<lambda>(d, sec). read_block d sec) (\<lambda>(d, sec). write_block d sec)
      [Wr (1, 5) (\<lambda>_. [7]), Rd (1, 5), Rd (0, 5)] (fresh_cache (\<lambda>_ _. [0])) =
      Inr (fst (run_plain [Wr (1, 5) (\<lambda>_. [7]), Rd (1, 5), Rd (0, 5)]
        (\<lambda>(d, sec). disk (fresh_cache (\<lambda>_ _. [0])) d sec)), s') \<and> wf_bcache s' ys \<and>
    (\<lambda>(d, sec). disk s' d sec) = snd (run_plain [Wr (1, 5) (\<lambda>_. [7]), Rd (1, 5), Rd (0, 5)]
        (\<lambda>(d, sec). disk (fresh_cache (\<lambda>_ _. [0])) d sec))"
    by (rule buffer_cache_is_transparent [OF fresh_cache_wf(1)]) (simp add: fresh_cache_wf(3))
  then show ?thesis by (auto simp: fresh_cache_wf(2))
qed

end
