(* ===== verification/Cstring.thy ===== *)
theory Cstring
  imports Prelude
begin

text \<open>
  The C string library of the kernel, \<open>kernel/string.c\<close>, and of user programs, \<open>user/ulib.c\<close>. The
  functions that only read take what they see through the pointer, a function from offsets to bytes;
  those that write work on the whole memory, a function from 32-bit addresses. \<open>stosb\<close> is the
  processor's fill instruction. Loops that run to a terminating NUL need not end; they are partial.
\<close>

type_synonym cmem = "u32 \<Rightarrow> u8"
type_synonym cptr = "nat \<Rightarrow> u8"

definition cptr_of :: "cmem \<Rightarrow> u32 \<Rightarrow> cptr" where
  "cptr_of m a = (\<lambda>i. m (a + of_nat i))"

section \<open>Comparing and scanning\<close>

fun memcmp :: "nat \<Rightarrow> cptr \<Rightarrow> cptr \<Rightarrow> int" where
  "memcmp 0 p q = 0"
| "memcmp (Suc n) p q =
     (if p 0 \<noteq> q 0 then int (unat (p 0)) - int (unat (q 0)) else memcmp n (p \<circ> Suc) (q \<circ> Suc))"

fun strncmp :: "nat \<Rightarrow> cptr \<Rightarrow> cptr \<Rightarrow> int" where
  "strncmp 0 p q = 0"
| "strncmp (Suc n) p q =
     (if p 0 \<noteq> 0 \<and> p 0 = q 0 then strncmp n (p \<circ> Suc) (q \<circ> Suc)
      else int (unat (p 0)) - int (unat (q 0)))"

partial_function (option) strcmp :: "cptr \<Rightarrow> cptr \<Rightarrow> int option" where
  "strcmp p q = (if p 0 \<noteq> 0 \<and> p 0 = q 0 then strcmp (p \<circ> Suc) (q \<circ> Suc)
     else Some (int (unat (p 0)) - int (unat (q 0))))"

partial_function (option) strlen_from :: "cptr \<Rightarrow> nat \<Rightarrow> nat option" where
  "strlen_from s n = (if s n = 0 then Some n else strlen_from s (Suc n))"

definition strlen :: "cptr \<Rightarrow> nat option" where
  "strlen s = strlen_from s 0"

text \<open>\<open>strchr\<close> returns the offset of the character, or \<open>None\<close> for the null pointer.\<close>

partial_function (option) strchr_from :: "cptr \<Rightarrow> u8 \<Rightarrow> nat \<Rightarrow> nat option option" where
  "strchr_from s c n = (if s n = 0 then Some None
     else if s n = c then Some (Some n) else strchr_from s c (Suc n))"

definition strchr :: "cptr \<Rightarrow> u8 \<Rightarrow> nat option option" where
  "strchr s c = strchr_from s c 0"

partial_function (option) atoi_from :: "cptr \<Rightarrow> u32 \<Rightarrow> nat \<Rightarrow> u32 option" where
  "atoi_from s n i = (if 48 \<le> s i \<and> s i \<le> 57
     then atoi_from s (n * 10 + ucast (s i) - 48) (Suc i) else Some n)"

definition atoi :: "cptr \<Rightarrow> u32 option" where
  "atoi s = atoi_from s 0 0"

section \<open>Writing\<close>

definition memset :: "u32 \<Rightarrow> u8 \<Rightarrow> u32 \<Rightarrow> cmem \<Rightarrow> cmem" where
  "memset d c n m = (\<lambda>x. if x - d < n then c else m x)"

fun copy_up :: "nat \<Rightarrow> u32 \<Rightarrow> u32 \<Rightarrow> cmem \<Rightarrow> cmem" where
  "copy_up 0 d s m = m"
| "copy_up (Suc n) d s m = copy_up n (d + 1) (s + 1) (m(d := m s))"

fun copy_down :: "nat \<Rightarrow> u32 \<Rightarrow> u32 \<Rightarrow> cmem \<Rightarrow> cmem" where
  "copy_down 0 d s m = m"
| "copy_down (Suc n) d s m = copy_down n (d - 1) (s - 1) (m(d - 1 := m (s - 1)))"

definition memmove :: "u32 \<Rightarrow> u32 \<Rightarrow> u32 \<Rightarrow> cmem \<Rightarrow> cmem" where
  "memmove d s n m = (if s < d \<and> s + n > d then copy_down (unat n) (d + n) (s + n) m
                      else copy_up (unat n) d s m)"

definition memcpy :: "u32 \<Rightarrow> u32 \<Rightarrow> u32 \<Rightarrow> cmem \<Rightarrow> cmem" where
  "memcpy d s n m = memmove d s n m"

definition user_memmove :: "u32 \<Rightarrow> u32 \<Rightarrow> u32 \<Rightarrow> cmem \<Rightarrow> cmem" where
  \<comment> \<open>\<open>user/ulib.c\<close>: the count is an \<open>int\<close> and the copy always goes upwards\<close>
  "user_memmove d s n m = copy_up (nat (sint n)) d s m"

fun zero_fill :: "nat \<Rightarrow> u32 \<Rightarrow> cmem \<Rightarrow> cmem" where
  "zero_fill 0 s m = m"
| "zero_fill (Suc n) s m = zero_fill n (s + 1) (m(s := 0))"

fun strncpy :: "nat \<Rightarrow> u32 \<Rightarrow> u32 \<Rightarrow> cmem \<Rightarrow> cmem" where
  "strncpy 0 s t m = m"
| "strncpy (Suc n) s t m =
     (let m' = m(s := m t) in if m t \<noteq> 0 then strncpy n (s + 1) (t + 1) m' else zero_fill n (s + 1) m')"

fun safe_copy :: "nat \<Rightarrow> u32 \<Rightarrow> u32 \<Rightarrow> cmem \<Rightarrow> cmem" where
  "safe_copy 0 s t m = m(s := 0)"
| "safe_copy (Suc n) s t m =
     (let m' = m(s := m t) in if m t \<noteq> 0 then safe_copy n (s + 1) (t + 1) m' else m'(s + 1 := 0))"

definition safestrcpy :: "int \<Rightarrow> u32 \<Rightarrow> u32 \<Rightarrow> cmem \<Rightarrow> cmem" where
  "safestrcpy n s t m = (if n \<le> 0 then m else safe_copy (nat n - 1) s t m)"

partial_function (option) strcpy :: "u32 \<Rightarrow> u32 \<Rightarrow> cmem \<Rightarrow> cmem option" where
  "strcpy s t m = (let m' = m(s := m t) in if m t \<noteq> 0 then strcpy (s + 1) (t + 1) m' else Some m')"

section \<open>Moving memory\<close>

lemma unat_pred: "x \<noteq> y \<Longrightarrow> unat (x - (y + 1) :: u32) = unat (x - y) - 1"
proof -
  assume "x \<noteq> y"
  then have nz: "x - y \<noteq> 0" by simp
  have "x - (y + 1) = (x - y) - 1" by simp
  then show ?thesis using unat_minus_one [OF nz] by (simp only:)
qed

lemma copy_up_eq:
  assumes "n \<le> 2 ^ 32" and "d = s \<or> n \<le> unat (d - s)"
  shows "copy_up n d s m = (\<lambda>x. if unat (x - d) < n then m (s + (x - d)) else m x)"
  using assms
proof (induction n arbitrary: d s m)
  case (Suc n)
  let ?m = "m(d := m s)"
  have "copy_up n (d + 1) (s + 1) ?m =
      (\<lambda>x. if unat (x - (d + 1)) < n then ?m (s + 1 + (x - (d + 1))) else ?m x)"
    by (rule Suc.IH) (use Suc.prems in auto)
  moreover have "(if unat (x - (d + 1)) < n then ?m (s + 1 + (x - (d + 1))) else ?m x) =
      (if unat (x - d) < Suc n then m (s + (x - d)) else m x)" for x
  proof (cases "x = d")
    case True
    have "\<not> unat (d - (d + 1)) < n" using Suc.prems(1) by (simp add: unat_neg_1)
    then show ?thesis using True by simp
  next
    case False
    have e: "s + 1 + (x - (d + 1)) = s + (x - d)" by simp
    have "unat (x - d) < Suc n \<Longrightarrow> s + (x - d) \<noteq> d"
    proof
      assume l: "unat (x - d) < Suc n" and "s + (x - d) = d"
      then have "x - d = d - s" by (metis add_diff_cancel_left')
      then show False using l Suc.prems(2) False by auto
    qed
    moreover have "0 < unat (x - d)" using False by (simp add: unat_gt_0)
    ultimately show ?thesis using False unat_pred [OF False] unfolding e by auto
  qed
  ultimately show ?case by simp
qed simp

lemma copy_down_eq:
  assumes "n \<le> 2 ^ 32" and "d = s \<or> n \<le> unat (s - d)"
  shows "copy_down n (d + of_nat n) (s + of_nat n) m = (\<lambda>x. if unat (x - d) < n then m (s + (x - d)) else m x)"
  using assms
proof (induction n arbitrary: m)
  case (Suc n)
  let ?k = "of_nat n :: u32"
  have un: "unat ?k = n" using Suc.prems(1) by (intro unat_of_nat_small) simp
  let ?m = "m(d + ?k := m (s + ?k))"
  have "copy_down n (d + ?k) (s + ?k) ?m = (\<lambda>x. if unat (x - d) < n then ?m (s + (x - d)) else ?m x)"
    by (rule Suc.IH) (use Suc.prems in auto)
  moreover have "(if unat (x - d) < n then ?m (s + (x - d)) else ?m x) =
      (if unat (x - d) < Suc n then m (s + (x - d)) else m x)" for x
  proof (cases "unat (x - d) < n")
    case True
    have "s + (x - d) \<noteq> d + ?k"
    proof
      assume "s + (x - d) = d + ?k"
      then have e: "s - d = ?k - (x - d)" by (simp add: algebra_simps)
      have "x - d \<le> ?k" using True un by (simp add: word_le_nat_alt)
      then have "unat (s - d) = n - unat (x - d)" unfolding e by (simp add: unat_sub un)
      then show False using Suc.prems(2) True by auto
    qed
    then show ?thesis using True by simp
  next
    case False
    have "unat (x - d) = n \<longleftrightarrow> x = d + ?k"
      using un by (metis add.commute add_diff_cancel_left' diff_add_cancel word_unat_eq_iff)
    then show ?thesis using False by (auto simp: less_Suc_eq)
  qed
  ultimately show ?case by (simp add: algebra_simps)
qed simp

text \<open>Copying upwards onto the next address repeats the first byte.\<close>

lemma copy_up_smear: "n < 2 ^ 32 \<Longrightarrow> i \<le> n \<Longrightarrow> copy_up n (s + 1) s m (s + of_nat i) = m s"
proof (induction n arbitrary: s m i)
  case (Suc n)
  let ?m = "m(s + 1 := m s)"
  show ?case
  proof (cases i)
    case 0
    have "copy_up k (t + of_nat j) u m' t = m' t" if "0 < j" "j + k < 2 ^ 32 + 1" for j k t u m'
      using that
    proof (induction k arbitrary: j u m')
      case (Suc k)
      have "unat (of_nat j :: u32) = j" using Suc.prems by (intro unat_of_nat_small) simp
      then have "t + of_nat j \<noteq> t" using Suc.prems(1) by auto
      moreover have "copy_up k (t + of_nat (Suc j)) (u + 1) (m'(t + of_nat j := m' u)) t =
          (m'(t + of_nat j := m' u)) t"
        by (rule Suc.IH) (use Suc.prems in auto)
      ultimately show ?case by (simp add: algebra_simps)
    qed simp
    from this [of 1 "Suc n" s s m] show ?thesis using 0 Suc.prems(1) by simp
  next
    case (Suc j)
    have "copy_up n (s + 1 + 1) (s + 1) ?m (s + 1 + of_nat j) = ?m (s + 1)"
      by (rule Suc.IH) (use Suc.prems \<open>i = Suc j\<close> in auto)
    then show ?thesis using \<open>i = Suc j\<close> by (simp add: algebra_simps)
  qed
qed simp

section \<open>Bounded copies\<close>

lemma safe_copy_bounds:
  assumes "n < 2 ^ 32"
  shows "n < unat (x - s) \<Longrightarrow> safe_copy n s t m x = m x"
    and "\<exists>k \<le> n. safe_copy n s t m (s + of_nat k) = 0"
proof -
  have out: "n < unat (x - s) \<Longrightarrow> safe_copy n s t m x = m x" if "n < 2 ^ 32" for n s t m x
    using that
  proof (induction n arbitrary: s t m)
    case (Suc n)
    have ne: "x \<noteq> s" using Suc.prems by auto
    have ne1: "x \<noteq> s + 1" using Suc.prems by auto
    have "n < unat (x - (s + 1))" using Suc.prems unat_pred [OF ne] by simp
    then show ?case using Suc.IH [of "s + 1"] Suc.prems ne ne1 by (simp add: Let_def)
  qed auto
  then show "n < unat (x - s) \<Longrightarrow> safe_copy n s t m x = m x" using assms .
  show "\<exists>k \<le> n. safe_copy n s t m (s + of_nat k) = 0"
    using assms
  proof (induction n arbitrary: s t m)
    case (Suc n)
    show ?case
    proof (cases "m t = 0")
      case True
      then show ?thesis by (intro exI [of _ 1]) (simp add: Let_def)
    next
      case False
      obtain k where "k \<le> n" "safe_copy n (s + 1) (t + 1) (m(s := m t)) (s + 1 + of_nat k) = 0"
        using Suc.IH [of "s + 1" "t + 1" "m(s := m t)"] Suc_lessD [OF Suc.prems] by blast
      then show ?thesis using False by (intro exI [of _ "Suc k"]) (simp add: Let_def algebra_simps)
    qed
  qed (auto intro: exI [of _ 0])
qed

section \<open>Properties\<close>

text \<open>C13: the kernel's \<open>memmove\<close> copies the source region as it was before the call, overlapping or
  not, and changes nothing else.\<close>

theorem memmove_copies:
  assumes "unat s + unat n < 2 ^ 32" and "unat d + unat n \<le> 2 ^ 32"
  shows "memmove d s n m = (\<lambda>x. if x - d < n then m (s + (x - d)) else m x)"
proof -
  have l: "x - d < n \<longleftrightarrow> unat (x - d) < unat n" for x by (simp add: word_less_nat_alt)
  have n32: "unat n \<le> 2 ^ 32" using assms(1) by simp
  show ?thesis
  proof (cases "s < d \<and> s + n > d")
    case True
    have "unat (s - d) = 2 ^ 32 - (unat d - unat s)"
      using True by (simp add: word_less_nat_alt unat_sub_if_size word_size)
    then have "unat n \<le> unat (s - d)" using assms(2) True by (simp add: word_less_nat_alt)
    then show ?thesis
      using copy_down_eq [OF n32, of d s m] True by (simp add: memmove_def l)
  next
    case False
    have "d = s \<or> unat n \<le> unat (d - s)"
    proof (cases "s < d")
      case True
      then have ds: "unat (d - s) = unat d - unat s" by (simp add: unat_sub word_less_nat_alt word_le_nat_alt)
      have "unat (s + n) = unat s + unat n" using assms(1) by (simp add: unat_word_ariths)
      moreover have "\<not> unat d < unat (s + n)" using False \<open>s < d\<close> by (simp add: word_less_nat_alt)
      ultimately show ?thesis using ds by linarith
    next
      case False
      have "unat (d - s) = 2 ^ 32 - (unat s - unat d)" if "s \<noteq> d"
      proof -
        have "unat s \<noteq> unat d" using that by (simp add: word_unat_eq_iff)
        then show ?thesis using False by (simp add: word_less_nat_alt unat_sub_if_size word_size)
      qed
      then show ?thesis using assms(1) by (cases "s = d") auto
    qed
    then show ?thesis using copy_up_eq [OF n32, of d s m] False by (auto simp: memmove_def l)
  qed
qed

theorem memmove_copies_witness:
  "memmove 11 10 4 (\<lambda>a. ucast a) = (\<lambda>x :: u32. if x - 11 < 4 then ucast (10 + (x - 11)) else ucast x)"
  using memmove_copies [of 10 4 11 "\<lambda>a. ucast a"] by simp

text \<open>The user library's \<open>memmove\<close> always copies upwards: moving a region up by one byte fills it
  with its first byte instead.\<close>

theorem user_memmove_smears:
  assumes "0 < sint n" and "i \<le> nat (sint n)"
  shows "user_memmove (s + 1) s n m (s + of_nat i) = m s"
proof -
  have "sint n < 2 ^ 31" using sint_lt [of n] by simp
  then have "nat (sint n) < 2 ^ 32" by simp
  then show ?thesis using copy_up_smear assms by (simp add: user_memmove_def)
qed

theorem user_memmove_smears_witness:
  "user_memmove 11 10 4 (\<lambda>a. ucast a) 12 = 10"
  using user_memmove_smears [of 4 2 10 "\<lambda>a. ucast a"] by simp

text \<open>\<open>safestrcpy\<close> leaves a NUL-terminated string in the first \<open>n\<close> bytes of its destination and
  writes nowhere else.\<close>

theorem safestrcpy_terminates:
  assumes "0 < n" and "n \<le> 2 ^ 31"
  shows "(\<exists>k < nat n. safestrcpy n s t m (s + of_nat k) = 0) \<and>
    (\<forall>x. nat n \<le> unat (x - s) \<longrightarrow> safestrcpy n s t m x = m x)"
proof -
  have l: "nat n - 1 < 2 ^ 32" using assms by simp
  have e: "safestrcpy n s t m = safe_copy (nat n - 1) s t m" using assms(1) by (simp add: safestrcpy_def)
  obtain k where k: "k \<le> nat n - 1" "safe_copy (nat n - 1) s t m (s + of_nat k) = 0"
    using safe_copy_bounds(2) [OF l] by blast
  have "k < nat n" using k(1) assms(1) by simp
  moreover have "nat n \<le> unat (x - s) \<longrightarrow> safe_copy (nat n - 1) s t m x = m x" for x
    using safe_copy_bounds(1) [OF l, of x s] assms(1) by auto
  ultimately show ?thesis using k(2) unfolding e by blast
qed

theorem safestrcpy_terminates_witness:
  "\<exists>k < 3. safestrcpy 3 100 200 (\<lambda>_. 65) (100 + of_nat k) = 0"
  using safestrcpy_terminates [of 3 100 200 "\<lambda>_. 65"] by simp

end
