(* ===== verification/Bytes.thy ===== *)
theory Bytes
  imports Prelude
begin

text \<open>
  Integers in byte arrays, little endian: what a C cast of a byte buffer to a structure reads and
  writes on the x86. Used for inodes and directories on disk, ELF headers and network messages.
\<close>

definition ld16 :: "u8 list \<Rightarrow> nat \<Rightarrow> u16" where
  "ld16 bs i = ucast (bs ! i) OR push_bit 8 (ucast (bs ! (i + 1)))"

definition ld32 :: "u8 list \<Rightarrow> nat \<Rightarrow> u32" where
  "ld32 bs i = ucast (bs ! i) OR push_bit 8 (ucast (bs ! (i + 1)))
     OR push_bit 16 (ucast (bs ! (i + 2))) OR push_bit 24 (ucast (bs ! (i + 3)))"

definition st16 :: "u8 list \<Rightarrow> nat \<Rightarrow> u16 \<Rightarrow> u8 list" where
  "st16 bs i w = bs[i := ucast w, i + 1 := ucast (drop_bit 8 w)]"

definition st32 :: "u8 list \<Rightarrow> nat \<Rightarrow> u32 \<Rightarrow> u8 list" where
  "st32 bs i w = bs[i := ucast w, i + 1 := ucast (drop_bit 8 w),
     i + 2 := ucast (drop_bit 16 w), i + 3 := ucast (drop_bit 24 w)]"

definition ld32s :: "u8 list \<Rightarrow> nat \<Rightarrow> nat \<Rightarrow> u32 list" where
  \<comment> \<open>\<open>n\<close> words from offset \<open>i\<close> on\<close>
  "ld32s bs i n = map (\<lambda>k. ld32 bs (i + 4 * k)) [0..<n]"

definition st32s :: "u8 list \<Rightarrow> nat \<Rightarrow> u32 list \<Rightarrow> u8 list" where
  "st32s bs i ws = fold (\<lambda>k bs. st32 bs (i + 4 * k) (ws ! k)) [0..<length ws] bs"

definition splice :: "'a list \<Rightarrow> nat \<Rightarrow> 'a list \<Rightarrow> 'a list" where
  \<comment> \<open>\<open>memmove(bs + i, xs, length xs)\<close>\<close>
  "splice bs i xs = take i bs @ xs @ drop (i + length xs) bs"

lemma length_st [simp]:
  "length (st16 bs i w16) = length bs" "length (st32 bs i w32) = length bs"
  by (simp_all add: st16_def st32_def)

lemma length_st32s [simp]: "length (st32s bs i ws) = length bs"
proof -
  have "length (fold (\<lambda>k bs. st32 bs (i + 4 * k) (ws ! k)) xs bs) = length bs" for xs
    by (induction xs arbitrary: bs) auto
  then show ?thesis by (simp add: st32s_def)
qed

lemma length_splice [simp]: "i + length xs \<le> length bs \<Longrightarrow> length (splice bs i xs) = length bs"
  by (simp add: splice_def)

lemma nth_splice:
  "i + length xs \<le> length bs \<Longrightarrow> j < length bs \<Longrightarrow>
    splice bs i xs ! j = (if i \<le> j \<and> j < i + length xs then xs ! (j - i) else bs ! j)"
  by (auto simp: splice_def nth_append)

lemma byte_of_word16:
  "ucast (ucast (w :: u16) :: u8) OR push_bit 8 (ucast (ucast (drop_bit 8 w) :: u8)) = w"
  by (rule bit_word_eqI) (auto simp: bit_simps)

lemma bytes_of_word32:
  "ucast (ucast (w :: u32) :: u8) OR push_bit 8 (ucast (ucast (drop_bit 8 w) :: u8))
     OR push_bit 16 (ucast (ucast (drop_bit 16 w) :: u8)) OR push_bit 24 (ucast (ucast (drop_bit 24 w) :: u8)) = w"
proof (rule bit_word_eqI)
  fix n assume "n < LENGTH(32)"
  then have "n < 32" by simp
  then show "bit (ucast (ucast w :: u8) OR push_bit 8 (ucast (ucast (drop_bit 8 w) :: u8))
     OR push_bit 16 (ucast (ucast (drop_bit 16 w) :: u8)) OR push_bit 24 (ucast (ucast (drop_bit 24 w) :: u8)) :: u32) n
     = bit w n"
    by (cases "n < 8"; cases "n < 16"; cases "n < 24") (auto simp: bit_simps)
qed

lemma ld_st [simp]:
  "i + 2 \<le> length bs \<Longrightarrow> ld16 (st16 bs i v) i = v"
  "i + 4 \<le> length bs \<Longrightarrow> ld32 (st32 bs i w) i = w"
  using byte_of_word16 [of v] bytes_of_word32 [of w]
  by (simp_all add: ld16_def st16_def ld32_def st32_def)

text \<open>Accesses to disjoint ranges do not see each other.\<close>

lemma ld_st_other:
  "j + 2 \<le> i \<or> i + 2 \<le> j \<Longrightarrow> ld16 (st16 bs i v) j = ld16 bs j"
  "j + 2 \<le> i \<or> i + 4 \<le> j \<Longrightarrow> ld16 (st32 bs i w) j = ld16 bs j"
  "j + 4 \<le> i \<or> i + 2 \<le> j \<Longrightarrow> ld32 (st16 bs i v) j = ld32 bs j"
  "j + 4 \<le> i \<or> i + 4 \<le> j \<Longrightarrow> ld32 (st32 bs i w) j = ld32 bs j"
  by (auto simp: ld16_def ld32_def st16_def st32_def nth_list_update)

lemma ld_st32s_other:
  assumes "j + 4 \<le> i \<or> i + 4 * length ws \<le> j"
  shows "ld32 (st32s bs i ws) j = ld32 bs j"
proof -
  have "\<forall>k \<in> set xs. k < length ws \<Longrightarrow>
    ld32 (fold (\<lambda>k bs. st32 bs (i + 4 * k) (ws ! k)) xs bs) j = ld32 bs j" for xs
    using assms by (induction xs arbitrary: bs) (auto simp: ld_st_other)
  then show ?thesis by (simp add: st32s_def)
qed

lemma ld16_st32s_other:
  assumes "j + 2 \<le> i \<or> i + 4 * length ws \<le> j"
  shows "ld16 (st32s bs i ws) j = ld16 bs j"
proof -
  have "\<forall>k \<in> set xs. k < length ws \<Longrightarrow>
    ld16 (fold (\<lambda>k bs. st32 bs (i + 4 * k) (ws ! k)) xs bs) j = ld16 bs j" for xs
    using assms by (induction xs arbitrary: bs) (auto simp: ld_st_other)
  then show ?thesis by (simp add: st32s_def)
qed

lemma ld32s_st32s:
  assumes "i + 4 * length ws \<le> length bs"
  shows "ld32s (st32s bs i ws) i (length ws) = ws"
proof -
  have "n \<le> length ws \<Longrightarrow> k < n \<Longrightarrow>
    ld32 (fold (\<lambda>k bs. st32 bs (i + 4 * k) (ws ! k)) [0..<n] bs) (i + 4 * k) = ws ! k" for n k
  proof (induction n)
    case (Suc n)
    have len: "length (fold (\<lambda>k bs. st32 bs (i + 4 * k) (ws ! k)) xs bs) = length bs" for xs
      by (induction xs arbitrary: bs) auto
    show ?case
    proof (cases "k = n")
      case True
      have "i + 4 * n + 4 \<le> length bs" using assms Suc.prems by simp
      then show ?thesis using True by (simp add: len)
    next
      case False
      then have "k < n" using Suc.prems by simp
      then show ?thesis using Suc by (simp add: ld_st_other)
    qed
  qed simp
  then have "\<forall>k < length ws. ld32 (st32s bs i ws) (i + 4 * k) = ws ! k" by (simp add: st32s_def)
  then show ?thesis by (auto simp: ld32s_def intro!: nth_equalityI)
qed

end
