(* ===== verification/Fs.thy ===== *)
theory Fs
  imports Bytes Cstring
begin

text \<open>
  The file system \<open>kernel/fs.c\<close> on the on-disk format of \<open>include/fs.h\<close>: block allocator, inode
  cache, inode contents, directories and path names. Blocks are read and written as the buffer cache
  lets the file system see them (theory \<open>Bio_Spec\<close>): \<open>blocks s d b\<close> is block \<open>b\<close> of device \<open>d\<close>. An
  inode pointer is an index into the cache. A process that would sleep on a busy inode is the
  error \<open>Blocked\<close>. The device switch is the argument \<open>dr\<close> or \<open>dw\<close>: by major number the entry's
  function, if there is one, from the request to the data or to \<open>None\<close> for -1.
\<close>

definition NINODE :: nat where "NINODE = 50"
definition NDIRECT :: nat where "NDIRECT = 12"
definition NINDIRECT :: nat where "NINDIRECT = 128"
definition MAXFILE :: nat where "MAXFILE = NDIRECT + NINDIRECT"
definition BSIZE :: nat where "BSIZE = 512"
definition IPB :: nat where "IPB = 8"
definition BPB :: nat where "BPB = 4096"
definition DIRSIZ :: nat where "DIRSIZ = 14"
definition T_DIR :: u16 where "T_DIR = 1"
definition T_FILE :: u16 where "T_FILE = 2"
definition T_DEV :: u16 where "T_DEV = 3"
definition I_BUSY :: u32 where "I_BUSY = 1"
definition I_VALID :: u32 where "I_VALID = 2"

definition IBLOCK :: "u32 \<Rightarrow> u32" where "IBLOCK i = i div 8 + 2"
definition BBLOCK :: "u32 \<Rightarrow> u32 \<Rightarrow> u32" where "BBLOCK b ninodes = b div 4096 + ninodes div 8 + 3"

record superblock =
  sb_size :: u32
  nblocks :: u32
  ninodes :: u32

record dinode =
  d_type :: u16
  d_major :: u16
  d_minor :: u16
  d_nlink :: u16
  d_size :: u32
  d_addrs :: "u32 list"

record inode =
  idev :: u32
  inum :: u32
  iref :: int
  iflags :: u32
  itype :: u16
  major :: u16
  minor :: u16
  nlink :: u16
  isize :: u32
  addrs :: "u32 list"

record fsys =
  blocks :: "u32 \<Rightarrow> u32 \<Rightarrow> u8 list"
  icache :: "nat \<Rightarrow> inode"

record stat =
  st_dev :: u32
  st_ino :: u32
  st_type :: u16
  st_nlink :: u16
  st_size :: u32

type_synonym devread = "u16 \<Rightarrow> (u32 \<Rightarrow> u8 list option) option"
type_synonym devwrite = "u16 \<Rightarrow> (u8 list \<Rightarrow> int) option"

section \<open>Blocks\<close>

definition set_block :: "u32 \<Rightarrow> u32 \<Rightarrow> u8 list \<Rightarrow> fsys \<Rightarrow> fsys" where
  "set_block d b x s = s\<lparr>blocks := (blocks s)(d := (blocks s d)(b := x))\<rparr>"

definition readsb :: "u32 \<Rightarrow> fsys \<Rightarrow> superblock" where
  "readsb d s = (let x = blocks s d 1 in \<lparr>sb_size = ld32 x 0, nblocks = ld32 x 4, ninodes = ld32 x 8\<rparr>)"

definition bzero :: "u32 \<Rightarrow> u32 \<Rightarrow> fsys \<Rightarrow> fsys" where
  "bzero d b s = set_block d b (replicate BSIZE 0) s"

definition bit_mask :: "nat \<Rightarrow> u8" where "bit_mask bi = push_bit (bi mod 8) 1"

definition bit_free :: "u8 list \<Rightarrow> nat \<Rightarrow> bool" where
  "bit_free x bi \<longleftrightarrow> x ! (bi div 8) AND bit_mask bi = 0"

definition mark_used :: "u8 list \<Rightarrow> nat \<Rightarrow> u8 list" where
  "mark_used x bi = x[bi div 8 := x ! (bi div 8) OR bit_mask bi]"

definition mark_free :: "u8 list \<Rightarrow> nat \<Rightarrow> u8 list" where
  "mark_free x bi = x[bi div 8 := x ! (bi div 8) AND NOT (bit_mask bi)]"

fun balloc_loop :: "nat \<Rightarrow> u32 \<Rightarrow> superblock \<Rightarrow> u32 \<Rightarrow> fsys \<Rightarrow> (u32 \<times> fsys) result" where
  "balloc_loop 0 d sb b s = Inl NoFuel"
| "balloc_loop (Suc n) d sb b s =
     (if b < sb_size sb then
        let bb = BBLOCK b (ninodes sb); x = blocks s d bb in
        case find (bit_free x) [0..<BPB] of
          Some bi \<Rightarrow> Inr (b + of_nat bi, set_block d bb (mark_used x bi) s)
        | None \<Rightarrow> balloc_loop n d sb (b + 4096) s
      else Inl (Panic ''balloc: out of blocks''))"

definition balloc :: "u32 \<Rightarrow> fsys \<Rightarrow> (u32 \<times> fsys) result" where
  "balloc d s = (let sb = readsb d s in balloc_loop (unat (sb_size sb) div BPB + 2) d sb 0 s)"

definition bfree :: "u32 \<Rightarrow> u32 \<Rightarrow> fsys \<Rightarrow> fsys result" where
  "bfree d b s =
     (let s1 = bzero d b s; sb = readsb d s1; bb = BBLOCK b (ninodes sb); x = blocks s1 d bb;
          bi = unat b mod BPB in
      if bit_free x bi then Inl (Panic ''freeing free block'')
      else Inr (set_block d bb (mark_free x bi) s1))"

section \<open>Inodes on disk\<close>

definition get_dinode :: "u8 list \<Rightarrow> nat \<Rightarrow> dinode" where
  "get_dinode x k = (let p = 64 * k in
     \<lparr>d_type = ld16 x p, d_major = ld16 x (p + 2), d_minor = ld16 x (p + 4), d_nlink = ld16 x (p + 6),
      d_size = ld32 x (p + 8), d_addrs = ld32s x (p + 12) (NDIRECT + 1)\<rparr>)"

definition put_dinode :: "u8 list \<Rightarrow> nat \<Rightarrow> dinode \<Rightarrow> u8 list" where
  "put_dinode x k v = (let p = 64 * k in
     st32s (st32 (st16 (st16 (st16 (st16 x p (d_type v)) (p + 2) (d_major v)) (p + 4) (d_minor v))
       (p + 6) (d_nlink v)) (p + 8) (d_size v)) (p + 12) (d_addrs v))"

definition slot :: "u32 \<Rightarrow> nat" where "slot i = unat i mod IPB"

abbreviation upd_inode :: "nat \<Rightarrow> (inode \<Rightarrow> inode) \<Rightarrow> fsys \<Rightarrow> fsys" where
  "upd_inode i f s \<equiv> s\<lparr>icache := (icache s)(i := f (icache s i))\<rparr>"

definition iget :: "u32 \<Rightarrow> u32 \<Rightarrow> fsys \<Rightarrow> (nat \<times> fsys) result" where
  "iget d n s =
     (case find (\<lambda>i. 0 < iref (icache s i) \<and> idev (icache s i) = d \<and> inum (icache s i) = n) [0..<NINODE] of
        Some i \<Rightarrow> Inr (i, upd_inode i (\<lambda>ip. ip\<lparr>iref := iref ip + 1\<rparr>) s)
      | None \<Rightarrow>
          case find (\<lambda>i. iref (icache s i) = 0) [0..<NINODE] of
            None \<Rightarrow> Inl (Panic ''iget: no inodes'')
          | Some i \<Rightarrow> Inr (i, upd_inode i (\<lambda>ip. ip\<lparr>idev := d, inum := n, iref := 1, iflags := 0\<rparr>) s))"

definition ialloc :: "u32 \<Rightarrow> u16 \<Rightarrow> fsys \<Rightarrow> (nat \<times> fsys) result" where
  "ialloc d ty s =
     (let sb = readsb d s in
      case find (\<lambda>n. d_type (get_dinode (blocks s d (IBLOCK (of_nat n))) (n mod IPB)) = 0)
             [1..<unat (ninodes sb)] of
        None \<Rightarrow> Inl (Panic ''ialloc: no inodes'')
      | Some n \<Rightarrow>
          let b = IBLOCK (of_nat n);
              x = put_dinode (blocks s d b) (n mod IPB)
                    \<lparr>d_type = ty, d_major = 0, d_minor = 0, d_nlink = 0, d_size = 0, d_addrs = replicate 13 0\<rparr>
          in iget d (of_nat n) (set_block d b x s))"

definition iupdate :: "nat \<Rightarrow> fsys \<Rightarrow> fsys" where
  "iupdate i s =
     (let ip = icache s i; b = IBLOCK (inum ip) in
      set_block (idev ip) b (put_dinode (blocks s (idev ip) b) (slot (inum ip))
        \<lparr>d_type = itype ip, d_major = major ip, d_minor = minor ip, d_nlink = nlink ip,
         d_size = isize ip, d_addrs = addrs ip\<rparr>) s)"

definition idup :: "nat \<Rightarrow> fsys \<Rightarrow> fsys" where
  "idup i s = upd_inode i (\<lambda>ip. ip\<lparr>iref := iref ip + 1\<rparr>) s"

definition ilock :: "nat \<Rightarrow> fsys \<Rightarrow> fsys result" where
  "ilock i s =
     (if iref (icache s i) < 1 then Inl (Panic ''ilock'')
      else if iflags (icache s i) AND I_BUSY \<noteq> 0 then Inl Blocked
      else
        let s1 = upd_inode i (\<lambda>ip. ip\<lparr>iflags := iflags ip OR I_BUSY\<rparr>) s; ip = icache s1 i in
        if iflags ip AND I_VALID \<noteq> 0 then Inr s1
        else
          let di = get_dinode (blocks s1 (idev ip) (IBLOCK (inum ip))) (slot (inum ip));
              s2 = upd_inode i (\<lambda>ip. ip\<lparr>itype := d_type di, major := d_major di, minor := d_minor di,
                 nlink := d_nlink di, isize := d_size di, addrs := d_addrs di,
                 iflags := iflags ip OR I_VALID\<rparr>) s1
          in if d_type di = 0 then Inl (Panic ''ilock: no type'') else Inr s2)"

definition iunlock :: "nat \<Rightarrow> fsys \<Rightarrow> fsys result" where
  "iunlock i s =
     (if iflags (icache s i) AND I_BUSY = 0 \<or> iref (icache s i) < 1 then Inl (Panic ''iunlock'')
      else Inr (upd_inode i (\<lambda>ip. ip\<lparr>iflags := iflags ip AND NOT I_BUSY\<rparr>) s))"

section \<open>Inode contents\<close>

definition bmap :: "nat \<Rightarrow> u32 \<Rightarrow> fsys \<Rightarrow> (u32 \<times> fsys) result" where
  "bmap i bn s =
     (let d = idev (icache s i) in
      if bn < of_nat NDIRECT then
        let a = addrs (icache s i) ! unat bn in
        if a = 0 then
          bindE (balloc d s) (\<lambda>(a, s1).
          Inr (a, upd_inode i (\<lambda>ip. ip\<lparr>addrs := (addrs ip)[unat bn := a]\<rparr>) s1))
        else Inr (a, s)
      else
        let bn' = bn - of_nat NDIRECT in
        if bn' < of_nat NINDIRECT then
          bindE (if addrs (icache s i) ! NDIRECT = 0 then
                   bindE (balloc d s) (\<lambda>(a, s1).
                   Inr (a, upd_inode i (\<lambda>ip. ip\<lparr>addrs := (addrs ip)[NDIRECT := a]\<rparr>) s1))
                 else Inr (addrs (icache s i) ! NDIRECT, s)) (\<lambda>(ind, s1).
          let bp = blocks s1 d ind; a = ld32 bp (4 * unat bn') in
          if a = 0 then
            bindE (balloc d s1) (\<lambda>(a, s2).
            Inr (a, set_block d ind (st32 bp (4 * unat bn') a) s2))
          else Inr (a, s1))
        else Inl (Panic ''bmap: out of range''))"

fun free_blocks :: "u32 \<Rightarrow> u32 list \<Rightarrow> fsys \<Rightarrow> fsys result" where
  "free_blocks d [] s = Inr s"
| "free_blocks d (a # as) s =
     (if a \<noteq> 0 then bindE (bfree d a s) (free_blocks d as) else free_blocks d as s)"

definition itrunc :: "nat \<Rightarrow> fsys \<Rightarrow> fsys result" where
  "itrunc i s =
     (let ip = icache s i; d = idev ip in
      bindE (free_blocks d (take NDIRECT (addrs ip)) s) (\<lambda>s1.
      let s2 = upd_inode i (\<lambda>ip. ip\<lparr>addrs := replicate NDIRECT 0 @ drop NDIRECT (addrs ip)\<rparr>) s1;
          ind = addrs ip ! NDIRECT in
      bindE (if ind \<noteq> 0 then
               bindE (free_blocks d (ld32s (blocks s2 d ind) 0 NINDIRECT) s2) (\<lambda>s3.
               bindE (bfree d ind s3) (\<lambda>s4.
               Inr (upd_inode i (\<lambda>ip. ip\<lparr>addrs := (addrs ip)[NDIRECT := 0]\<rparr>) s4)))
             else Inr s2) (\<lambda>s5.
      Inr (iupdate i (upd_inode i (\<lambda>ip. ip\<lparr>isize := 0\<rparr>) s5)))))"

definition iput :: "nat \<Rightarrow> fsys \<Rightarrow> fsys result" where
  "iput i s =
     (let ip = icache s i in
      bindE (if iref ip = 1 \<and> iflags ip AND I_VALID \<noteq> 0 \<and> nlink ip = 0 then
               if iflags ip AND I_BUSY \<noteq> 0 then Inl (Panic ''iput busy'')
               else
                 bindE (itrunc i (upd_inode i (\<lambda>ip. ip\<lparr>iflags := iflags ip OR I_BUSY\<rparr>) s)) (\<lambda>s1.
                 Inr (upd_inode i (\<lambda>ip. ip\<lparr>iflags := 0\<rparr>)
                   (iupdate i (upd_inode i (\<lambda>ip. ip\<lparr>itype := 0\<rparr>) s1))))
             else Inr s) (\<lambda>s1.
      Inr (upd_inode i (\<lambda>ip. ip\<lparr>iref := iref ip - 1\<rparr>) s1)))"

definition iunlockput :: "nat \<Rightarrow> fsys \<Rightarrow> fsys result" where
  "iunlockput i s = bindE (iunlock i s) (iput i)"

definition stati :: "nat \<Rightarrow> fsys \<Rightarrow> stat" where
  "stati i s = (let ip = icache s i in
     \<lparr>st_dev = idev ip, st_ino = inum ip, st_type = itype ip, st_nlink = nlink ip, st_size = isize ip\<rparr>)"

text \<open>The loops of \<open>readi\<close> and \<open>writei\<close>; a round moves at least one byte, so \<open>n\<close> rounds are enough.\<close>

definition chunk :: "u32 \<Rightarrow> u32 \<Rightarrow> u32 \<Rightarrow> nat" where
  \<comment> \<open>\<open>min(n - tot, BSIZE - off % BSIZE)\<close>\<close>
  "chunk n tot off = min (unat (n - tot)) (BSIZE - unat off mod BSIZE)"

fun readi_loop :: "nat \<Rightarrow> nat \<Rightarrow> u32 \<Rightarrow> u32 \<Rightarrow> u32 \<Rightarrow> fsys \<Rightarrow> (u8 list \<times> fsys) result" where
  "readi_loop fuel i off n tot s =
     (if tot < n then
        case fuel of 0 \<Rightarrow> Inl NoFuel
        | Suc fuel' \<Rightarrow>
            bindE (bmap i (off div 512) s) (\<lambda>(a, s1).
            let m = chunk n tot off;
                bs = take m (drop (unat off mod BSIZE) (blocks s1 (idev (icache s1 i)) a))
            in bindE (readi_loop fuel' i (off + of_nat m) n (tot + of_nat m) s1) (\<lambda>(rest, s2).
               Inr (bs @ rest, s2)))
      else Inr ([], s))"

fun writei_loop :: "nat \<Rightarrow> nat \<Rightarrow> u8 list \<Rightarrow> u32 \<Rightarrow> u32 \<Rightarrow> u32 \<Rightarrow> fsys \<Rightarrow> (u32 \<times> fsys) result" where
  "writei_loop fuel i src off n tot s =
     (if tot < n then
        case fuel of 0 \<Rightarrow> Inl NoFuel
        | Suc fuel' \<Rightarrow>
            bindE (bmap i (off div 512) s) (\<lambda>(a, s1).
            let m = chunk n tot off; d = idev (icache s1 i);
                x = splice (blocks s1 d a) (unat off mod BSIZE) (take m src)
            in writei_loop fuel' i (drop m src) (off + of_nat m) n (tot + of_nat m) (set_block d a x s1))
      else Inr (off, s))"

declare readi_loop.simps [simp del] writei_loop.simps [simp del]

definition readi :: "devread \<Rightarrow> nat \<Rightarrow> u32 \<Rightarrow> u32 \<Rightarrow> fsys \<Rightarrow> (u8 list option \<times> fsys) result" where
  "readi dr i off n s =
     (let ip = icache s i in
      if itype ip = T_DEV then
        if sint (major ip) < 0 \<or> sint (major ip) \<ge> 10 then Inr (None, s)
        else (case dr (major ip) of None \<Rightarrow> Inr (None, s) | Some f \<Rightarrow> Inr (f n, s))
      else if off > isize ip \<or> off + n < off then Inr (None, s)
      else
        let n' = if off + n > isize ip then isize ip - off else n in
        bindE (readi_loop (unat n') i off n' 0 s) (\<lambda>(bs, s1). Inr (Some bs, s1)))"

definition writei :: "devwrite \<Rightarrow> nat \<Rightarrow> u8 list \<Rightarrow> u32 \<Rightarrow> u32 \<Rightarrow> fsys \<Rightarrow> (int \<times> fsys) result" where
  "writei dw i src off n s =
     (let ip = icache s i in
      if itype ip = T_DEV then
        if sint (major ip) < 0 \<or> sint (major ip) \<ge> 10 then Inr (-1, s)
        else (case dw (major ip) of None \<Rightarrow> Inr (-1, s) | Some f \<Rightarrow> Inr (f (take (unat n) src), s))
      else if off > isize ip \<or> off + n < off then Inr (-1, s)
      else
        let n' = if off + n > of_nat (MAXFILE * BSIZE) then of_nat (MAXFILE * BSIZE) - off else n in
        bindE (writei_loop (unat n') i src off n' 0 s) (\<lambda>(off', s1).
        let s2 = if n' > 0 \<and> off' > isize (icache s1 i)
                 then iupdate i (upd_inode i (\<lambda>ip. ip\<lparr>isize := off'\<rparr>) s1) else s1
        in Inr (sint n', s2)))"

section \<open>Directories\<close>

definition cptr_list :: "u8 list \<Rightarrow> cptr" where
  "cptr_list xs = (\<lambda>i. xs ! i)"

definition namecmp :: "u8 list \<Rightarrow> u8 list \<Rightarrow> int" where
  "namecmp s t = strncmp DIRSIZ (cptr_list s) (cptr_list t)"

definition de_inum :: "u8 list \<Rightarrow> nat \<Rightarrow> u16" where
  "de_inum x k = ld16 x (16 * k)"

definition de_name :: "u8 list \<Rightarrow> nat \<Rightarrow> u8 list" where
  "de_name x k = take DIRSIZ (drop (16 * k + 2) x)"

fun dirlookup_loop :: "nat \<Rightarrow> nat \<Rightarrow> u8 list \<Rightarrow> u32 \<Rightarrow> fsys \<Rightarrow> ((nat \<times> u32) option \<times> fsys) result" where
  "dirlookup_loop fuel i name off s =
     (if off < isize (icache s i) then
        case fuel of 0 \<Rightarrow> Inl NoFuel
        | Suc fuel' \<Rightarrow>
            bindE (bmap i (off div 512) s) (\<lambda>(a, s1).
            let d = idev (icache s1 i); x = blocks s1 d a in
            case find (\<lambda>k. de_inum x k \<noteq> 0 \<and> namecmp name (de_name x k) = 0) [0..<32] of
              Some k \<Rightarrow> bindE (iget d (ucast (de_inum x k)) s1) (\<lambda>(j, s2).
                        Inr (Some (j, off + of_nat (16 * k)), s2))
            | None \<Rightarrow> dirlookup_loop fuel' i name (off + 512) s1)
      else Inr (None, s))"

declare dirlookup_loop.simps [simp del]

definition dirlookup :: "nat \<Rightarrow> u8 list \<Rightarrow> fsys \<Rightarrow> ((nat \<times> u32) option \<times> fsys) result" where
  \<comment> \<open>the inode found and the offset of its entry\<close>
  "dirlookup i name s =
     (if itype (icache s i) \<noteq> T_DIR then Inl (Panic ''dirlookup not DIR'')
      else dirlookup_loop (unat (isize (icache s i)) div BSIZE + 1) i name 0 s)"

fun empty_dirent :: "nat \<Rightarrow> devread \<Rightarrow> nat \<Rightarrow> u32 \<Rightarrow> fsys \<Rightarrow> (u32 \<times> fsys) result" where
  "empty_dirent fuel dr i off s =
     (if off < isize (icache s i) then
        case fuel of 0 \<Rightarrow> Inl NoFuel
        | Suc fuel' \<Rightarrow>
            bindE (readi dr i off 16 s) (\<lambda>(r, s1). case r of
              None \<Rightarrow> Inl (Panic ''dirlink read'')
            | Some de \<Rightarrow>
                if length de \<noteq> 16 then Inl (Panic ''dirlink read'')
                else if ld16 de 0 = 0 then Inr (off, s1)
                else empty_dirent fuel' dr i (off + 16) s1)
      else Inr (off, s))"

declare empty_dirent.simps [simp del]

definition pad_name :: "u8 list \<Rightarrow> u8 list" where
  \<comment> \<open>\<open>strncpy(de.name, name, DIRSIZ)\<close>\<close>
  "pad_name name = (let t = takeWhile (\<lambda>c. c \<noteq> 0) (take DIRSIZ name) in t @ replicate (DIRSIZ - length t) 0)"

definition dirlink :: "devread \<Rightarrow> devwrite \<Rightarrow> nat \<Rightarrow> u8 list \<Rightarrow> u32 \<Rightarrow> fsys \<Rightarrow> (int \<times> fsys) result" where
  "dirlink dr dw i name n s =
     bindE (dirlookup i name s) (\<lambda>(r, s1). case r of
       Some (j, _) \<Rightarrow> bindE (iput j s1) (\<lambda>s2. Inr (-1, s2))
     | None \<Rightarrow>
         bindE (empty_dirent (unat (isize (icache s1 i)) div 16 + 1) dr i 0 s1) (\<lambda>(off, s2).
         bindE (writei dw i (st16 [0, 0] 0 (ucast n) @ pad_name name) off 16 s2) (\<lambda>(w, s3).
         if w \<noteq> 16 then Inl (Panic ''dirlink'') else Inr (0, s3))))"

section \<open>Path names\<close>

text \<open>A path is its characters without the final NUL; \<open>name\<close> is a buffer of \<open>DIRSIZ\<close> bytes.\<close>

definition SLASH :: u8 where "SLASH = 47"

definition skipelem :: "u8 list \<Rightarrow> u8 list \<Rightarrow> (u8 list \<times> u8 list) option" where
  "skipelem path name =
     (let p = dropWhile (\<lambda>c. c = SLASH) path in
      if p = [] then None
      else
        let e = takeWhile (\<lambda>c. c \<noteq> SLASH) p;
            name' = if length e \<ge> DIRSIZ then take DIRSIZ e else splice name 0 (e @ [0])
        in Some (dropWhile (\<lambda>c. c = SLASH) (drop (length e) p), name'))"

lemma skipelem_shorter: "skipelem path name = Some (rest, name') \<Longrightarrow> length rest < length path"
proof -
  assume a: "skipelem path name = Some (rest, name')"
  let ?p = "dropWhile (\<lambda>c. c = SLASH) path"
  let ?e = "takeWhile (\<lambda>c. c \<noteq> SLASH) ?p"
  have p: "?p \<noteq> []" and r: "rest = dropWhile (\<lambda>c. c = SLASH) (drop (length ?e) ?p)"
    using a by (auto simp: skipelem_def Let_def split: if_splits)
  have "hd ?p \<noteq> SLASH" using p hd_dropWhile [of "\<lambda>c. c = SLASH" path] by auto
  then have "0 < length ?e" using p by (cases ?p) auto
  then have "length (drop (length ?e) ?p) < length ?p" using p by simp
  moreover have "length ?p \<le> length path" by (rule length_dropWhile_le)
  moreover have "length rest \<le> length (drop (length ?e) ?p)" unfolding r by (rule length_dropWhile_le)
  ultimately show ?thesis by linarith
qed

function namex_loop :: "u8 list \<Rightarrow> bool \<Rightarrow> u8 list \<Rightarrow> nat \<Rightarrow> fsys \<Rightarrow> (nat option \<times> u8 list \<times> fsys) result" where
  "namex_loop path parent name i s =
     (case skipelem path name of
        None \<Rightarrow> if parent then bindE (iput i s) (\<lambda>s1. Inr (None, name, s1)) else Inr (Some i, name, s)
      | Some (path', name') \<Rightarrow>
          bindE (ilock i s) (\<lambda>s1.
          if itype (icache s1 i) \<noteq> T_DIR then bindE (iunlockput i s1) (\<lambda>s2. Inr (None, name', s2))
          else if parent \<and> path' = [] then bindE (iunlock i s1) (\<lambda>s2. Inr (Some i, name', s2))
          else bindE (dirlookup i name' s1) (\<lambda>(r, s2). case r of
                 None \<Rightarrow> bindE (iunlockput i s2) (\<lambda>s3. Inr (None, name', s3))
               | Some (nx, _) \<Rightarrow> bindE (iunlockput i s2) (\<lambda>s3. namex_loop path' parent name' nx s3))))"
  by pat_completeness auto
termination
  by (relation "measure (\<lambda>(path, parent, name, i, s). length path)") (auto dest: skipelem_shorter)

declare namex_loop.simps [simp del]

definition namex :: "nat \<Rightarrow> u8 list \<Rightarrow> bool \<Rightarrow> u8 list \<Rightarrow> fsys \<Rightarrow> (nat option \<times> u8 list \<times> fsys) result" where
  \<comment> \<open>\<open>cwd\<close> is \<open>proc->cwd\<close>\<close>
  "namex cwd path parent name s =
     bindE (if path \<noteq> [] \<and> hd path = SLASH then iget 1 1 s else Inr (cwd, idup cwd s)) (\<lambda>(i, s1).
     namex_loop path parent name i s1)"

definition namei :: "nat \<Rightarrow> u8 list \<Rightarrow> fsys \<Rightarrow> (nat option \<times> fsys) result" where
  "namei cwd path s = bindE (namex cwd path False (replicate DIRSIZ 0) s) (\<lambda>(r, _, s1). Inr (r, s1))"

definition nameiparent :: "nat \<Rightarrow> u8 list \<Rightarrow> u8 list \<Rightarrow> fsys \<Rightarrow> (nat option \<times> u8 list \<times> fsys) result" where
  "nameiparent cwd path name s = namex cwd path True name s"

end
