(* ===== verification/Fs_Blocks.thy ===== *)
theory Fs_Blocks
  imports Fs
begin

text \<open>
  The block allocator of the file system: the bitmap as the predicate \<open>block_used\<close>, what \<open>balloc\<close>
  and \<open>bfree\<close> change of it, when \<open>balloc\<close> succeeds, and that it looks past the end of the disk.
\<close>


section \<open>The bitmap\<close>

lemma bit_mask_bit: "bit (bit_mask i) n \<longleftrightarrow> n = i mod 8"
  by (auto simp: bit_mask_def bit_simps)

lemma bit_free_iff: "bit_free x bi \<longleftrightarrow> \<not> bit (x ! (bi div 8)) (bi mod 8)"
proof
  assume "bit_free x bi"
  then have "\<not> bit (x ! (bi div 8) AND bit_mask bi) (bi mod 8)" by (simp add: bit_free_def)
  then show "\<not> bit (x ! (bi div 8)) (bi mod 8)" by (simp add: bit_and_iff bit_mask_bit)
next
  assume "\<not> bit (x ! (bi div 8)) (bi mod 8)"
  then show "bit_free x bi"
    unfolding bit_free_def by (intro bit_word_eqI) (auto simp: bit_and_iff bit_mask_bit)
qed

lemma same_bit: "i div 8 = j div 8 \<Longrightarrow> i mod 8 = j mod 8 \<Longrightarrow> i = (j :: nat)"
  by (metis div_mult_mod_eq)

lemma bit_free_mark:
  assumes "bi < 8 * length x" "bj < 8 * length x"
  shows "bit_free (mark_used x bi) bj \<longleftrightarrow> bj \<noteq> bi \<and> bit_free x bj"
    and "bit_free (mark_free x bi) bj \<longleftrightarrow> bj = bi \<or> bit_free x bj"
proof -
  have l: "bi div 8 < length x" using assms by simp
  show "bit_free (mark_used x bi) bj \<longleftrightarrow> bj \<noteq> bi \<and> bit_free x bj"
    using l same_bit [of bj bi]
    by (cases "bj div 8 = bi div 8") (auto simp: bit_free_iff mark_used_def bit_or_iff bit_mask_bit)
  show "bit_free (mark_free x bi) bj \<longleftrightarrow> bj = bi \<or> bit_free x bj"
    using l same_bit [of bj bi]
    by (cases "bj div 8 = bi div 8")
      (auto simp: bit_free_iff mark_free_def bit_and_iff bit_not_iff bit_mask_bit)
qed

text \<open>Block \<open>b\<close> is marked as used on device \<open>d\<close>; the layout with bitmap blocks of the right size.\<close>

definition block_used :: "fsys \<Rightarrow> u32 \<Rightarrow> u32 \<Rightarrow> bool" where
  "block_used s d b \<longleftrightarrow>
     \<not> bit_free (blocks s d (BBLOCK b (ninodes (readsb d s)))) (unat b mod BPB)"

definition wf_blocks :: "fsys \<Rightarrow> u32 \<Rightarrow> bool" where
  "wf_blocks s d \<longleftrightarrow> (\<forall>b. length (blocks s d b) = BSIZE) \<and> ninodes (readsb d s) < 2 ^ 31"

lemma blocks_set [simp]: "blocks (set_block d b x s) d' b' = (if d' = d \<and> b' = b then x else blocks s d' b')"
  by (simp add: set_block_def)

lemma icache_set [simp]: "icache (set_block d b x s) = icache s"
  by (simp add: set_block_def)

lemma BBLOCK_nat: "n < 2 ^ 31 \<Longrightarrow> unat (BBLOCK b n) = unat b div 4096 + unat n div 8 + 3"
proof -
  assume n: "n < 2 ^ 31"
  have b: "unat b < 4294967296" using unsigned_less [of b] by simp
  have n': "unat n < 2147483648" using n by (simp add: word_less_nat_alt)
  have "unat b div 4096 < 1048576" "unat n div 8 < 268435456" using b n' by linarith+
  then show ?thesis by (simp add: BBLOCK_def unat_word_ariths unat_div_distrib)
qed

lemma BBLOCK_not_super: "n < 2 ^ 31 \<Longrightarrow> BBLOCK b n \<noteq> 1"
  using BBLOCK_nat [of n b] by (auto simp: word_unat_eq_iff)

lemma BBLOCK_same: "n < 2 ^ 31 \<Longrightarrow> BBLOCK b n = BBLOCK c n \<longleftrightarrow> unat b div BPB = unat c div BPB"
  by (simp add: word_unat_eq_iff BBLOCK_nat BPB_def)

lemma readsb_set: "b \<noteq> 1 \<Longrightarrow> readsb d (set_block d' b x s) = readsb d s"
  by (simp add: readsb_def)

lemma same_block_no: "unat b div BPB = unat c div BPB \<Longrightarrow> unat b mod BPB = unat c mod BPB \<Longrightarrow> b = (c :: u32)"
  by (metis div_mult_mod_eq word_unat_eq_iff)

text \<open>Marking a block changes its own bit and no other.\<close>

lemma block_used_mark:
  assumes wf: "wf_blocks s d"
  defines "bb \<equiv> \<lambda>b. BBLOCK b (ninodes (readsb d s))"
  shows "block_used (set_block d (bb b) (mark_used (blocks s d (bb b)) (unat b mod BPB)) s) d c \<longleftrightarrow>
      c = b \<or> block_used s d c"
    and "block_used (set_block d (bb b) (mark_free (blocks s d (bb b)) (unat b mod BPB)) s) d c \<longleftrightarrow>
      c \<noteq> b \<and> block_used s d c"
proof -
  have n: "ninodes (readsb d s) < 2 ^ 31" and l: "length (blocks s d (bb b)) = 512"
    using wf by (auto simp: wf_blocks_def BSIZE_def)
  have sb: "readsb d (set_block d (bb b) x s) = readsb d s" for x
    unfolding bb_def using BBLOCK_not_super [OF n] by (intro readsb_set) simp
  have m: "unat w mod BPB < 8 * length (blocks s d (bb b))" for w :: u32
    by (simp add: l BPB_def)
  note bf = bit_free_mark [OF m [of b] m [of c]]
  have eq: "bb c = bb b \<Longrightarrow> unat c mod BPB = unat b mod BPB \<Longrightarrow> c = b"
    unfolding bb_def BBLOCK_same [OF n] by (rule same_block_no)
  show "block_used (set_block d (bb b) (mark_used (blocks s d (bb b)) (unat b mod BPB)) s) d c \<longleftrightarrow>
      c = b \<or> block_used s d c"
    unfolding block_used_def sb using bf(1) eq by (auto simp: bb_def)
  show "block_used (set_block d (bb b) (mark_free (blocks s d (bb b)) (unat b mod BPB)) s) d c \<longleftrightarrow>
      c \<noteq> b \<and> block_used s d c"
    unfolding block_used_def sb using bf(2) eq by (auto simp: bb_def)
qed

lemma balloc_loop_ok:
  assumes "balloc_loop fuel d (readsb d s) b0 s = Inr (a, s')" and "4096 dvd unat b0"
    and "unat (sb_size (readsb d s)) \<le> 2 ^ 31"
  shows "\<not> block_used s d a \<and>
    s' = set_block d (BBLOCK a (ninodes (readsb d s)))
      (mark_used (blocks s d (BBLOCK a (ninodes (readsb d s)))) (unat a mod BPB)) s"
  using assms
proof (induction fuel arbitrary: b0)
  case (Suc fuel)
  let ?sb = "readsb d s"
  let ?x = "blocks s d (BBLOCK b0 (ninodes ?sb))"
  have lt: "b0 < sb_size ?sb" using Suc.prems(1) by (simp split: if_splits)
  then have b0: "unat b0 < 2 ^ 31" using Suc.prems(3) by (simp add: word_less_nat_alt)
  obtain k where k: "unat b0 = 4096 * k" using Suc.prems(2) by (elim dvdE)
  show ?case
  proof (cases "find (bit_free ?x) [0..<BPB]")
    case None
    have u: "unat (b0 + 4096) = unat b0 + 4096" using b0 by (simp add: unat_word_ariths)
    have "balloc_loop fuel d ?sb (b0 + 4096) s = Inr (a, s')"
      using Suc.prems(1) lt None by (simp add: Let_def)
    from Suc.IH [OF this _ Suc.prems(3)] show ?thesis using Suc.prems(2) by (simp add: u)
  next
    case (Some bi)
    then have bi: "bi < 4096" "bit_free ?x bi" by (auto simp: find_Some_iff BPB_def)
    have a: "a = b0 + of_nat bi" and s': "s' = set_block d (BBLOCK b0 (ninodes ?sb)) (mark_used ?x bi) s"
      using Suc.prems(1) lt Some by (simp_all add: Let_def)
    have "unat (of_nat bi :: u32) = bi" using bi by (intro unat_of_nat_small) simp
    then have u: "unat a = 4096 * k + bi" using b0 bi k by (simp add: a unat_word_ariths)
    have "unat a div 4096 = k" "unat a mod 4096 = bi" unfolding u using bi by simp_all
    moreover have "BBLOCK a (ninodes ?sb) = BBLOCK b0 (ninodes ?sb)"
      using calculation(1) k by (simp add: BBLOCK_def word_unat_eq_iff unat_div_distrib unat_word_ariths)
    ultimately show ?thesis using bi s' by (simp add: block_used_def BPB_def)
  qed
qed simp

lemma balloc_ok:
  assumes "balloc d s = Inr (a, s')" and wf: "wf_blocks s d" and "sb_size (readsb d s) \<le> 2 ^ 31"
  shows "\<not> block_used s d a" and "block_used s' d c \<longleftrightarrow> c = a \<or> block_used s d c"
    and "icache s' = icache s" and "wf_blocks s' d" and "readsb d s' = readsb d s"
    and "b \<noteq> BBLOCK a (ninodes (readsb d s)) \<Longrightarrow> blocks s' d b = blocks s d b"
    and "d' \<noteq> d \<Longrightarrow> blocks s' d' = blocks s d'"
proof -
  have sz: "unat (sb_size (readsb d s)) \<le> 2 ^ 31" using assms(3) by (simp add: word_le_nat_alt)
  have "4096 dvd unat (0 :: u32)" by simp
  from balloc_loop_ok [OF assms(1) [unfolded balloc_def Let_def] this sz]
  have u: "\<not> block_used s d a" and s': "s' = set_block d (BBLOCK a (ninodes (readsb d s)))
      (mark_used (blocks s d (BBLOCK a (ninodes (readsb d s)))) (unat a mod BPB)) s" by auto
  show "\<not> block_used s d a" by (rule u)
  show "block_used s' d c \<longleftrightarrow> c = a \<or> block_used s d c"
    unfolding s' by (rule block_used_mark(1) [OF wf])
  have n: "ninodes (readsb d s) < 2 ^ 31" using wf by (simp add: wf_blocks_def)
  show sb: "readsb d s' = readsb d s" unfolding s' using BBLOCK_not_super [OF n] by (intro readsb_set) simp
  show "wf_blocks s' d" using wf unfolding wf_blocks_def sb by (simp add: s' mark_used_def)
  show "icache s' = icache s" "b \<noteq> BBLOCK a (ninodes (readsb d s)) \<Longrightarrow> blocks s' d b = blocks s d b"
    "d' \<noteq> d \<Longrightarrow> blocks s' d' = blocks s d'"
    by (auto simp: s' fun_eq_iff)
qed

lemma balloc_loop_total:
  assumes "\<not> block_used s d b" and "unat b div 4096 * 4096 < unat (sb_size (readsb d s))"
    and "unat (sb_size (readsb d s)) \<le> 2 ^ 31"
  shows "unat b0 = 4096 * k \<Longrightarrow> k \<le> unat b div 4096 \<Longrightarrow> unat b div 4096 < k + fuel \<Longrightarrow>
    \<exists>a s'. balloc_loop fuel d (readsb d s) b0 s = Inr (a, s')"
proof (induction fuel arbitrary: b0 k)
  case (Suc fuel)
  let ?sb = "readsb d s"
  let ?x = "blocks s d (BBLOCK b0 (ninodes ?sb))"
  have lt: "unat b0 < unat (sb_size ?sb)" using Suc.prems assms(2) by linarith
  then have c: "b0 < sb_size ?sb" by (simp add: word_less_nat_alt)
  show ?case
  proof (cases "find (bit_free ?x) [0..<BPB]")
    case (Some bi)
    then show ?thesis using c by (simp add: Let_def)
  next
    case None
    have "k \<noteq> unat b div 4096"
    proof
      assume k: "k = unat b div 4096"
      then have "BBLOCK b0 (ninodes ?sb) = BBLOCK b (ninodes ?sb)"
        using Suc.prems(1) by (simp add: BBLOCK_def word_unat_eq_iff unat_div_distrib unat_word_ariths)
      then have "bit_free ?x (unat b mod BPB)" using assms(1) by (simp add: block_used_def)
      moreover have "unat b mod BPB \<in> set [0..<BPB]" by (simp add: BPB_def)
      ultimately show False using None by (auto simp: find_None_iff)
    qed
    then have "Suc k \<le> unat b div 4096" "unat b div 4096 < Suc k + fuel" using Suc.prems by simp_all
    moreover have "unat (b0 + 4096) = 4096 * Suc k"
      using Suc.prems(1) lt assms(3) by (simp add: unat_word_ariths)
    ultimately show ?thesis using Suc.IH [of "b0 + 4096" "Suc k"] c None by (simp add: Let_def)
  qed
qed simp

lemma balloc_total:
  assumes "\<not> block_used s d b" and "unat b div 4096 * 4096 < unat (sb_size (readsb d s))"
    and "unat (sb_size (readsb d s)) \<le> 2 ^ 31"
  shows "\<exists>a s'. balloc d s = Inr (a, s')"
proof -
  have "unat b div 4096 < 0 + (unat (sb_size (readsb d s)) div BPB + 2)"
    using assms(2) by (simp add: BPB_def)
  from balloc_loop_total [OF assms, of 0 0, OF _ _ this] show ?thesis
    by (simp add: balloc_def Let_def del: balloc_loop.simps)
qed

lemma wf_blocks_set: "wf_blocks s d \<Longrightarrow> length x = BSIZE \<Longrightarrow> b \<noteq> 1 \<Longrightarrow> wf_blocks (set_block d b x s) d"
  by (simp add: wf_blocks_def readsb_set)

lemma bfree_ok:
  assumes wf: "wf_blocks s d" and b: "b \<noteq> 1" "\<forall>c. b \<noteq> BBLOCK c (ninodes (readsb d s))"
    and u: "block_used s d b"
  shows "\<exists>s'. bfree d b s = Inr s' \<and> wf_blocks s' d \<and> icache s' = icache s \<and>
    (\<forall>c. block_used s' d c \<longleftrightarrow> c \<noteq> b \<and> block_used s d c) \<and> blocks s' d b = replicate BSIZE 0 \<and>
    (\<forall>c. c \<noteq> b \<longrightarrow> c \<noteq> BBLOCK b (ninodes (readsb d s)) \<longrightarrow> blocks s' d c = blocks s d c)"
proof -
  let ?s1 = "bzero d b s"
  have sb: "readsb d ?s1 = readsb d s" using b(1) by (simp add: bzero_def readsb_set)
  have wf1: "wf_blocks ?s1 d" using wf_blocks_set [OF wf _ b(1)] by (simp add: bzero_def)
  have u1: "block_used ?s1 d c = block_used s d c" for c
    unfolding block_used_def sb using b(2) by (simp add: bzero_def) metis
  let ?bb = "BBLOCK b (ninodes (readsb d s))"
  let ?s2 = "set_block d ?bb (mark_free (blocks ?s1 d ?bb) (unat b mod BPB)) ?s1"
  have "bfree d b s = Inr ?s2"
    using u u1 [of b] by (simp add: bfree_def Let_def sb block_used_def)
  moreover have "block_used ?s2 d c \<longleftrightarrow> c \<noteq> b \<and> block_used s d c" for c
    using block_used_mark(2) [OF wf1, of b c] by (simp add: sb u1)
  moreover have "wf_blocks ?s2 d"
    by (rule wf_blocks_set [OF wf1])
      (use wf1 BBLOCK_not_super [of "ninodes (readsb d s)"] wf in \<open>auto simp: wf_blocks_def mark_free_def\<close>)
  moreover have "?bb \<noteq> b" using b(2) by metis
  ultimately show ?thesis by (intro exI [of _ ?s2]) (auto simp: bzero_def)
qed

section \<open>A small disk\<close>

text \<open>One device of 40 blocks with 8 inodes: block 1 the superblock, block 2 the inodes, block 4 the
  bitmap with blocks 0 to 4 in use.\<close>

definition small_disk :: fsys where
  "small_disk = \<lparr>blocks = (\<lambda>_ b. if b = 1 then st32 (st32 (st32 (replicate 512 0) 0 40) 4 35) 8 8
       else if b = 4 then (replicate 512 0)[0 := 31] else replicate 512 0),
     icache = (\<lambda>_. \<lparr>idev = 0, inum = 0, iref = 0, iflags = 0, itype = 0, major = 0, minor = 0, nlink = 0,
       isize = 0, addrs = replicate 13 0\<rparr>)\<rparr>"

lemma small_disk_sb: "readsb d small_disk = \<lparr>sb_size = 40, nblocks = 35, ninodes = 8\<rparr>"
  by (simp add: readsb_def small_disk_def ld_st_other)

lemma small_disk_wf: "wf_blocks small_disk d"
  by (simp add: wf_blocks_def small_disk_sb) (simp add: small_disk_def BSIZE_def)

lemma small_disk_free: "\<not> block_used small_disk d 5" "block_used small_disk d 3"
proof -
  have bb: "BBLOCK 5 8 = 4" "BBLOCK 3 8 = 4" by (simp_all add: BBLOCK_def)
  have "bit (31 :: u8) 3" "\<not> bit (31 :: u8) 5" by simp_all
  then show "\<not> block_used small_disk d 5" "block_used small_disk d 3"
    unfolding block_used_def small_disk_sb superblock.simps bb
    by (simp_all add: bit_free_iff small_disk_def BPB_def)
qed

section \<open>Properties of the block allocator\<close>

text \<open>When some block below the end of the disk is free, \<open>balloc\<close> returns a block that was free and
  marks it, and no other block, as used.\<close>

theorem balloc_allocates:
  assumes "wf_blocks s d" and "sb_size (readsb d s) \<le> 2 ^ 31"
    and "b < sb_size (readsb d s)" and "\<not> block_used s d b"
  shows "\<exists>a s'. balloc d s = Inr (a, s') \<and> \<not> block_used s d a \<and>
    (\<forall>c. block_used s' d c \<longleftrightarrow> c = a \<or> block_used s d c) \<and> icache s' = icache s \<and> wf_blocks s' d"
proof -
  have "unat b div 4096 * 4096 \<le> unat b" by simp
  then have "unat b div 4096 * 4096 < unat (sb_size (readsb d s))"
    using assms(3) unfolding word_less_nat_alt by linarith
  moreover have "unat (sb_size (readsb d s)) \<le> 2 ^ 31" using assms(2) by (simp add: word_le_nat_alt)
  ultimately obtain a s' where a: "balloc d s = Inr (a, s')" using balloc_total [OF assms(4)] by blast
  show ?thesis using a balloc_ok [OF a assms(1,2)] by blast
qed

theorem balloc_allocates_witness:
  "\<exists>a s'. balloc 1 small_disk = Inr (a, s') \<and> \<not> block_used small_disk 1 a \<and> block_used s' 1 a"
  using balloc_allocates [OF small_disk_wf, of 1 5] small_disk_free by (auto simp: small_disk_sb)

text \<open>\<open>bfree\<close> of an allocated data block zeroes it and clears its bit, and no other bit changes; a
  second \<open>bfree\<close> of the same block panics.\<close>

theorem bfree_frees:
  assumes "wf_blocks s d" and "b \<noteq> 1" and "\<forall>c. b \<noteq> BBLOCK c (ninodes (readsb d s))" and "block_used s d b"
  shows "\<exists>s' e. bfree d b s = Inr s' \<and> (\<forall>c. block_used s' d c \<longleftrightarrow> c \<noteq> b \<and> block_used s d c) \<and>
    blocks s' d b = replicate BSIZE 0 \<and> bfree d b s' = Inl e"
proof -
  obtain s' where s': "bfree d b s = Inr s'" "wf_blocks s' d"
      "\<forall>c. block_used s' d c \<longleftrightarrow> c \<noteq> b \<and> block_used s d c" "blocks s' d b = replicate BSIZE 0"
      "\<forall>c. c \<noteq> b \<longrightarrow> c \<noteq> BBLOCK b (ninodes (readsb d s)) \<longrightarrow> blocks s' d c = blocks s d c"
    using bfree_ok [OF assms] by blast
  have n: "ninodes (readsb d s) < 2 ^ 31" using assms(1) by (simp add: wf_blocks_def)
  have "blocks s' d 1 = blocks s d 1"
    using s'(5) assms(2) BBLOCK_not_super [OF n, of b] by metis
  then have sb: "readsb d s' = readsb d s" by (simp add: readsb_def)
  have sb1: "readsb d (bzero d b s') = readsb d s" using assms(2) by (simp add: bzero_def readsb_set sb)
  have "\<not> block_used s' d b" using s'(3) by blast
  moreover have "blocks (bzero d b s') d (BBLOCK b (ninodes (readsb d s))) = blocks s' d (BBLOCK b (ninodes (readsb d s)))"
    using assms(3) by (simp add: bzero_def) metis
  ultimately have "bfree d b s' = Inl (Panic ''freeing free block'')"
    by (simp add: bfree_def Let_def sb1 block_used_def sb)
  then show ?thesis using s' by blast
qed

theorem bfree_frees_witness:
  "\<exists>s' e. bfree 1 3 small_disk = Inr s' \<and> \<not> block_used s' 1 3 \<and> bfree 1 3 s' = Inl e"
proof -
  have "(3 :: u32) \<noteq> BBLOCK c 8" for c
    using BBLOCK_nat [of 8 c] by (auto simp: word_unat_eq_iff)
  then show ?thesis
    using bfree_frees [OF small_disk_wf, of 3 1] small_disk_free by (auto simp: small_disk_sb)
qed

text \<open>\<open>balloc\<close> does not stop at the end of the disk: when every block of a disk is in use and the
  size is no multiple of 4096, it returns a block number beyond the end.\<close>

theorem balloc_past_the_end:
  assumes "wf_blocks s d" and "sb_size (readsb d s) \<le> 2 ^ 31"
    and "\<forall>b < sb_size (readsb d s). block_used s d b"
    and "unat (sb_size (readsb d s)) mod BPB \<noteq> 0" and "\<not> block_used s d (sb_size (readsb d s))"
  shows "\<exists>a s'. balloc d s = Inr (a, s') \<and> sb_size (readsb d s) \<le> a"
proof -
  let ?n = "sb_size (readsb d s)"
  have "unat ?n div 4096 * 4096 < unat ?n"
    using assms(4) div_mult_mod_eq [of "unat ?n" 4096] unfolding BPB_def by linarith
  moreover have "unat ?n \<le> 2 ^ 31" using assms(2) by (simp add: word_le_nat_alt)
  ultimately obtain a s' where a: "balloc d s = Inr (a, s')" using balloc_total [OF assms(5)] by blast
  moreover have "\<not> block_used s d a" using balloc_ok(1) [OF a assms(1,2)] .
  ultimately show ?thesis using assms(3) by (meson linorder_not_less)
qed

definition full_disk :: fsys where
  "full_disk = set_block 1 4 (replicate 5 255 @ replicate 507 0) small_disk"

theorem balloc_past_the_end_witness:
  "\<exists>a s'. balloc 1 full_disk = Inr (a, s') \<and> 40 \<le> a"
proof -
  have sb: "readsb 1 full_disk = \<lparr>sb_size = 40, nblocks = 35, ninodes = 8\<rparr>"
    by (simp add: full_disk_def readsb_set small_disk_sb)
  have fb: "blocks full_disk 1 4 = replicate 5 255 @ replicate 507 0" by (simp add: full_disk_def)
  have wf: "wf_blocks full_disk 1"
    unfolding full_disk_def by (rule wf_blocks_set [OF small_disk_wf]) (simp_all add: BSIZE_def)
  have bb: "unat b \<le> 40 \<Longrightarrow> BBLOCK b 8 = 4" for b
    by (simp add: word_unat_eq_iff BBLOCK_nat)
  have used: "block_used full_disk 1 b" if "b < 40" for b
  proof -
    have b: "unat b < 40" using that by (simp add: word_less_nat_alt)
    then have "unat b div 8 < 5" by simp
    then have "(replicate 5 255 @ replicate 507 0) ! (unat b div 8) = (255 :: u8)"
      by (simp add: nth_append)
    moreover have "bit (255 :: u8) k" if "k < 8" for k
    proof -
      have "(255 :: u8) = mask 8" by (simp add: mask_eq_exp_minus_1)
      then show ?thesis using that by (simp only: bit_mask_iff) simp
    qed
    moreover have "BBLOCK b 8 = 4" using b bb by simp
    ultimately show ?thesis
      using b unfolding block_used_def sb superblock.simps by (simp add: bit_free_iff fb BPB_def)
  qed
  have "\<not> block_used full_disk 1 40"
    using bb [of 40] unfolding block_used_def sb superblock.simps
    by (simp add: bit_free_iff fb BPB_def nth_append)
  then show ?thesis
    using balloc_past_the_end [OF wf] used by (auto simp: sb BPB_def)
qed

end
