(* ===== verification/Fs_Files.thy ===== *)
theory Fs_Files
  imports Fs
begin

text \<open>
  What the inode layer promises: the inode cache names every inode at most once and counts its
  references, \<open>iupdate\<close> and \<open>ilock\<close> are inverse through the disk, and \<open>writei\<close> and \<open>readi\<close>
  make the blocks of an inode an array of bytes.
\<close>

section \<open>Inodes on disk\<close>

lemma put_dinode_same:
  assumes "length x = BSIZE" "k < IPB" "length (d_addrs v) = NDIRECT + 1"
  shows "get_dinode (put_dinode x k v) k = v" and "length (put_dinode x k v) = BSIZE"
proof -
  have len: "length x = 512" "length (d_addrs v) = 13" "k < 8"
    using assms by (simp_all add: BSIZE_def NDIRECT_def IPB_def)
  have k: "64 * k + 64 \<le> 512" using len(3) by simp
  let ?y = "st32 (st16 (st16 (st16 (st16 x (64 * k) (d_type v)) (64 * k + 2) (d_major v)) (64 * k + 4) (d_minor v))
       (64 * k + 6) (d_nlink v)) (64 * k + 8) (d_size v)"
  have p: "put_dinode x k v = st32s ?y (64 * k + 12) (d_addrs v)" by (simp add: put_dinode_def Let_def)
  have "ld32s (st32s ?y (64 * k + 12) (d_addrs v)) (64 * k + 12) 13 = d_addrs v"
    using ld32s_st32s [of "64 * k + 12" "d_addrs v" ?y] len k by simp
  moreover have "ld16 (put_dinode x k v) (64 * k) = d_type v" "ld16 (put_dinode x k v) (64 * k + 2) = d_major v"
    "ld16 (put_dinode x k v) (64 * k + 4) = d_minor v" "ld16 (put_dinode x k v) (64 * k + 6) = d_nlink v"
    "ld32 (put_dinode x k v) (64 * k + 8) = d_size v"
    unfolding p using len k by (simp_all add: ld16_st32s_other ld_st32s_other ld_st_other)
  ultimately show "get_dinode (put_dinode x k v) k = v"
    by (simp add: get_dinode_def Let_def p NDIRECT_def)
  show "length (put_dinode x k v) = BSIZE" using assms(1) by (simp add: put_dinode_def Let_def)
qed

lemma put_dinode_other:
  assumes "j \<noteq> k" "length (d_addrs v) = NDIRECT + 1"
  shows "get_dinode (put_dinode x k v) j = get_dinode x j"
proof -
  have len: "length (d_addrs v) = 13" using assms(2) by (simp add: NDIRECT_def)
  have d: "64 * j + 64 \<le> 64 * k \<or> 64 * k + 64 \<le> 64 * j" using assms(1) by linarith
  have a: "\<And>p. p < 13 \<Longrightarrow> ld32 (put_dinode x k v) (64 * j + 12 + 4 * p) = ld32 x (64 * j + 12 + 4 * p)"
    and b: "ld16 (put_dinode x k v) (64 * j) = ld16 x (64 * j)" "ld16 (put_dinode x k v) (64 * j + 2) = ld16 x (64 * j + 2)"
    "ld16 (put_dinode x k v) (64 * j + 4) = ld16 x (64 * j + 4)" "ld16 (put_dinode x k v) (64 * j + 6) = ld16 x (64 * j + 6)"
    "ld32 (put_dinode x k v) (64 * j + 8) = ld32 x (64 * j + 8)"
    unfolding put_dinode_def Let_def using len d
    by (elim disjE; simp add: ld16_st32s_other ld_st32s_other ld_st_other)+
  then show ?thesis by (simp add: get_dinode_def Let_def ld32s_def NDIRECT_def)
qed

definition dinode_of :: "inode \<Rightarrow> dinode" where
  "dinode_of ip = \<lparr>d_type = itype ip, d_major = major ip, d_minor = minor ip, d_nlink = nlink ip,
     d_size = isize ip, d_addrs = addrs ip\<rparr>"

definition disk_inode :: "fsys \<Rightarrow> u32 \<Rightarrow> u32 \<Rightarrow> dinode" where
  "disk_inode s d n = get_dinode (blocks s d (IBLOCK n)) (slot n)"

lemma IBLOCK_slot: "IBLOCK m = IBLOCK n \<Longrightarrow> slot m = slot n \<Longrightarrow> m = n"
proof -
  assume "IBLOCK m = IBLOCK n" "slot m = slot n"
  then have "m div 8 = n div 8" "unat m mod 8 = unat n mod 8" by (simp_all add: IBLOCK_def slot_def IPB_def)
  then have "unat (m div 8) = unat (n div 8)" by (simp only:)
  then have "unat m div 8 = unat n div 8" by (simp add: unat_div_distrib)
  then show "m = n" using \<open>unat m mod 8 = unat n mod 8\<close>
    by (metis div_mult_mod_eq word_unat_eq_iff)
qed

section \<open>The inode cache\<close>

text \<open>A reference names its inode uniquely: no two cache entries in use hold the same one.\<close>

definition wf_icache :: "fsys \<Rightarrow> bool" where
  "wf_icache s \<longleftrightarrow> (\<forall>i < NINODE. 0 \<le> iref (icache s i)) \<and>
     (\<forall>i < NINODE. \<forall>j < NINODE. 0 < iref (icache s i) \<longrightarrow> 0 < iref (icache s j) \<longrightarrow>
       idev (icache s i) = idev (icache s j) \<longrightarrow> inum (icache s i) = inum (icache s j) \<longrightarrow> i = j)"

definition irefs :: "fsys \<Rightarrow> u32 \<Rightarrow> u32 \<Rightarrow> int" where
  "irefs s d n = (\<Sum>i<NINODE. if 0 < iref (icache s i) \<and> idev (icache s i) = d \<and> inum (icache s i) = n
     then iref (icache s i) else 0)"

lemma iget_cases:
  assumes "iget d n s = Inr (i, s')"
  obtains (hit) "i < NINODE" "0 < iref (icache s i)" "idev (icache s i) = d" "inum (icache s i) = n"
      "s' = upd_inode i (\<lambda>ip. ip\<lparr>iref := iref ip + 1\<rparr>) s"
    | (fresh) "i < NINODE" "iref (icache s i) = 0"
      "\<forall>j < NINODE. 0 < iref (icache s j) \<longrightarrow> idev (icache s j) = d \<longrightarrow> inum (icache s j) \<noteq> n"
      "s' = upd_inode i (\<lambda>ip. ip\<lparr>idev := d, inum := n, iref := 1, iflags := 0\<rparr>) s"
proof (cases "find (\<lambda>i. 0 < iref (icache s i) \<and> idev (icache s i) = d \<and> inum (icache s i) = n) [0..<NINODE]")
  case None
  with assms obtain "find (\<lambda>i. iref (icache s i) = 0) [0..<NINODE] = Some i"
    "s' = upd_inode i (\<lambda>ip. ip\<lparr>idev := d, inum := n, iref := 1, iflags := 0\<rparr>) s"
    by (auto simp: iget_def split: option.splits)
  then show ?thesis using None fresh by (auto simp: find_Some_iff find_None_iff)
next
  case (Some j)
  with assms have "j = i" "s' = upd_inode i (\<lambda>ip. ip\<lparr>iref := iref ip + 1\<rparr>) s"
    by (auto simp: iget_def)
  then show ?thesis using Some hit by (auto simp: find_Some_iff)
qed

lemma iget_wf:
  assumes "wf_icache s" "iget d n s = Inr (i, s')"
  shows "wf_icache s'" and "i < NINODE" and "idev (icache s' i) = d" and "inum (icache s' i) = n"
    and "0 < iref (icache s' i)"
proof -
  from assms(2) show "wf_icache s'"
  proof (cases rule: iget_cases)
    case hit
    then show ?thesis using assms(1) unfolding wf_icache_def by auto
  next
    case fresh
    then show ?thesis using assms(1) unfolding wf_icache_def by auto
  qed
  from assms(2) show "i < NINODE" "idev (icache s' i) = d" "inum (icache s' i) = n" "0 < iref (icache s' i)"
    by (cases rule: iget_cases; auto)+
qed

section \<open>The bytes of a file\<close>

text \<open>The disk block of the \<open>bn\<close>-th block of an inode, where it has one.\<close>

definition block_of :: "fsys \<Rightarrow> nat \<Rightarrow> nat \<Rightarrow> u32" where
  "block_of s i bn =
     (if bn < NDIRECT then addrs (icache s i) ! bn
      else ld32 (blocks s (idev (icache s i)) (addrs (icache s i) ! NDIRECT)) (4 * (bn - NDIRECT)))"

definition file_byte :: "fsys \<Rightarrow> nat \<Rightarrow> nat \<Rightarrow> u8" where
  "file_byte s i x = blocks s (idev (icache s i)) (block_of s i (x div BSIZE)) ! (x mod BSIZE)"

text \<open>The first \<open>N\<close> blocks exist and are distinct from each other and from the indirect block.\<close>

definition mapped :: "fsys \<Rightarrow> nat \<Rightarrow> nat \<Rightarrow> bool" where
  "mapped s i N \<longleftrightarrow> N \<le> MAXFILE \<and> (\<forall>b. length (blocks s (idev (icache s i)) b) = BSIZE) \<and>
     (\<forall>bn < N. block_of s i bn \<noteq> 0 \<and> (NDIRECT < N \<longrightarrow> block_of s i bn \<noteq> addrs (icache s i) ! NDIRECT)) \<and>
     (NDIRECT < N \<longrightarrow> addrs (icache s i) ! NDIRECT \<noteq> 0) \<and>
     inj_on (block_of s i) {..<N}"

lemma bmap_mapped:
  assumes "mapped s i N" "unat bn < N"
  shows "bmap i bn s = Inr (block_of s i (unat bn), s)"
proof -
  have b: "unat bn < 140" "block_of s i (unat bn) \<noteq> 0" "NDIRECT < N \<Longrightarrow> addrs (icache s i) ! NDIRECT \<noteq> 0"
    using assms by (auto simp: mapped_def MAXFILE_def NDIRECT_def NINDIRECT_def)
  show ?thesis
  proof (cases "unat bn < 12")
    case True
    then have "bn < 12" by (simp add: word_less_nat_alt)
    then show ?thesis using b True by (simp add: bmap_def block_of_def NDIRECT_def Let_def)
  next
    case False
    then have le: "12 \<le> bn" by (simp add: word_le_nat_alt)
    have u: "unat (bn - 12) = unat bn - 12" using unat_sub [OF le] by simp
    then have "bn - 12 < 128" "\<not> bn < 12" using b(1) False by (simp_all add: word_less_nat_alt)
    moreover have "12 < N" using assms(2) False by simp
    ultimately show ?thesis
      using b False u by (simp add: bmap_def block_of_def NDIRECT_def NINDIRECT_def Let_def)
  qed
qed

text \<open>Writing a data block of the file leaves its block map alone.\<close>

lemma block_of_set:
  assumes "mapped s i N" "bn < N" "k < N"
  shows "block_of (set_block (idev (icache s i)) (block_of s i bn) x s) i k = block_of s i k"
  using assms by (auto simp: block_of_def mapped_def set_block_def)

lemma mapped_set:
  assumes m: "mapped s i N" and bn: "bn < N" and x: "length x = BSIZE"
  defines "s' \<equiv> set_block (idev (icache s i)) (block_of s i bn) x s"
  shows "mapped s' i N" and "icache s' = icache s"
    and "k < N * BSIZE \<Longrightarrow> file_byte s' i k =
      (if k div BSIZE = bn then x ! (k mod BSIZE) else file_byte s i k)"
proof -
  have ic: "icache s' = icache s" by (simp add: s'_def set_block_def)
  show "icache s' = icache s" by (rule ic)
  have bo: "k < N \<Longrightarrow> block_of s' i k = block_of s i k" for k
    unfolding s'_def by (rule block_of_set [OF m bn])
  have "inj_on (block_of s' i) {..<N}"
    using m bo by (auto simp: mapped_def inj_on_def)
  then show "mapped s' i N"
    using m bo x unfolding mapped_def ic by (auto simp: s'_def set_block_def)
  assume k: "k < N * BSIZE"
  then have kN: "k div BSIZE < N" by (simp add: BSIZE_def less_mult_imp_div_less)
  have "block_of s i (k div BSIZE) = block_of s i bn \<longleftrightarrow> k div BSIZE = bn"
    using m kN bn by (auto simp: mapped_def inj_on_def)
  then show "file_byte s' i k = (if k div BSIZE = bn then x ! (k mod BSIZE) else file_byte s i k)"
    unfolding file_byte_def ic bo [OF kN] by (auto simp: s'_def set_block_def)
qed

section \<open>The loops of readi and writei\<close>

lemma chunk_facts:
  assumes "tot < n" and o: "unat off + unat (n - tot) < 2 ^ 31"
  defines "m \<equiv> chunk n tot off"
  shows "0 < m" "m \<le> unat (n - tot)" "unat off mod BSIZE + m \<le> BSIZE"
    and "unat (off + of_nat m) = unat off + m" "unat (n - (tot + of_nat m)) = unat (n - tot) - m"
    and "tot + of_nat m \<le> n" "t < m \<Longrightarrow> (unat off + t) div BSIZE = unat off div BSIZE"
    and "t < m \<Longrightarrow> (unat off + t) mod BSIZE = unat off mod BSIZE + t"
proof -
  have le: "tot \<le> n" using assms(1) by (rule less_imp_le)
  have r: "0 < unat (n - tot)"
    using assms(1) by (metis eq_iff_diff_eq_0 less_irrefl unat_gt_0)
  have mb: "unat off mod BSIZE < BSIZE" by (simp add: BSIZE_def)
  show m: "0 < m" "m \<le> unat (n - tot)" and mm: "unat off mod BSIZE + m \<le> BSIZE"
    using r mb by (auto simp: m_def chunk_def)
  have m32: "unat (of_nat m :: u32) = m"
    by (rule unat_of_nat_small) (use m(2) o in simp)
  show "unat (off + of_nat m) = unat off + m" using o m(2) by (simp add: unat_word_ariths m32)
  have ml: "of_nat m \<le> n - tot" using m(2) by (simp add: word_le_nat_alt m32)
  have "n - (tot + of_nat m) = (n - tot) - of_nat m" by simp
  then show "unat (n - (tot + of_nat m)) = unat (n - tot) - m"
    using unat_sub [OF ml] m32 by (simp only:)
  have nt: "unat (n - tot) = unat n - unat tot" using le by (rule unat_sub)
  have "unat n < 2 ^ 32" using unsigned_less [of n] by simp
  then have "unat (tot + of_nat m) = unat tot + m"
    using m(2) nt assms(1) by (simp add: unat_word_ariths m32 word_less_nat_alt)
  then show "tot + of_nat m \<le> n" using m(2) nt assms(1) by (simp add: word_le_nat_alt word_less_nat_alt)
  assume t: "t < m"
  then have "unat off mod BSIZE + t < BSIZE" using mm by simp
  then show "(unat off + t) div BSIZE = unat off div BSIZE" "(unat off + t) mod BSIZE = unat off mod BSIZE + t"
    by (rule in_block)+
qed

lemma readi_loop_ok:
  assumes "mapped s i N"
  shows "tot \<le> n \<Longrightarrow> unat off + unat (n - tot) \<le> N * BSIZE \<Longrightarrow> unat (n - tot) \<le> fuel \<Longrightarrow>
    readi_loop fuel i off n tot s = Inr (map (file_byte s i) [unat off..<unat off + unat (n - tot)], s)"
proof (induction fuel arbitrary: off tot)
  case 0
  then have "\<not> tot < n" by (metis eq_iff_diff_eq_0 le_zero_eq less_irrefl unat_eq_0)
  then show ?case using 0 by (simp add: readi_loop.simps)
next
  case (Suc fuel)
  show ?case
  proof (cases "tot < n")
    case False
    then show ?thesis using Suc.prems(1) by (simp add: readi_loop.simps)
  next
    case True
    have "N \<le> 140" using assms by (simp add: mapped_def MAXFILE_def NDIRECT_def NINDIRECT_def)
    then have lim: "unat off + unat (n - tot) < 2 ^ 31" using Suc.prems(2) by (simp add: BSIZE_def)
    define m where "m = chunk n tot off"
    note cf = chunk_facts [OF True lim, folded m_def]
    let ?b = "blocks s (idev (icache s i)) (block_of s i (unat off div BSIZE))"
    have "unat off < N * BSIZE" using cf(1,2) Suc.prems(2) by linarith
    then have kN: "unat off div BSIZE < N" by (simp add: BSIZE_def less_mult_imp_div_less)
    have bm: "bmap i (off div 512) s = Inr (block_of s i (unat off div BSIZE), s)"
      using bmap_mapped [OF assms, of "off div 512"] kN by (simp add: unat_div_distrib BSIZE_def)
    have len: "length ?b = BSIZE" using assms by (simp add: mapped_def)
    have seg: "take m (drop (unat off mod BSIZE) ?b) = map (file_byte s i) [unat off..<unat off + m]"
      by (rule nth_equalityI) (use cf(3,7,8) len in \<open>auto simp: file_byte_def\<close>)
    have "readi_loop fuel i (off + of_nat m) n (tot + of_nat m) s =
        Inr (map (file_byte s i) [unat off + m..<unat off + m + (unat (n - tot) - m)], s)"
      using Suc.IH [of "tot + of_nat m" "off + of_nat m"] Suc.prems cf by simp
    moreover have "[unat off..<unat off + unat (n - tot)] =
        [unat off..<unat off + m] @ [unat off + m..<unat off + m + (unat (n - tot) - m)]"
      using cf(2) upt_add_eq_append [of "unat off" "unat off + m" "unat (n - tot) - m"] by simp
    ultimately show ?thesis
      using True bm seg by (simp add: readi_loop.simps [of "Suc fuel"] m_def [symmetric] Let_def)
  qed
qed

lemma writei_loop_ok:
  "mapped s i N \<Longrightarrow> tot \<le> n \<Longrightarrow> unat off + unat (n - tot) \<le> N * BSIZE \<Longrightarrow> unat (n - tot) \<le> fuel \<Longrightarrow>
    unat (n - tot) \<le> length src \<Longrightarrow>
    \<exists>off' s'. writei_loop fuel i src off n tot s = Inr (off', s') \<and> unat off' = unat off + unat (n - tot) \<and>
      mapped s' i N \<and> icache s' = icache s \<and>
      (\<forall>x < N * BSIZE. file_byte s' i x = (if unat off \<le> x \<and> x < unat off + unat (n - tot)
         then src ! (x - unat off) else file_byte s i x)) \<and>
      (\<forall>d b. d \<noteq> idev (icache s i) \<or> b \<notin> block_of s i ` {..<N} \<longrightarrow> blocks s' d b = blocks s d b)"
proof (induction fuel arbitrary: off tot src s)
  case 0
  then have "\<not> tot < n" "unat (n - tot) = 0" by (metis eq_iff_diff_eq_0 le_zero_eq less_irrefl unat_eq_0)+
  then show ?case using 0(1) by (auto simp: writei_loop.simps)
next
  case (Suc fuel)
  show ?case
  proof (cases "tot < n")
    case False
    then have "unat (n - tot) = 0" using Suc.prems(2) by simp
    then show ?thesis using False Suc.prems by (auto simp: writei_loop.simps)
  next
    case True
    note mp = Suc.prems(1)
    have "N \<le> 140" using mp by (simp add: mapped_def MAXFILE_def NDIRECT_def NINDIRECT_def)
    then have lim: "unat off + unat (n - tot) < 2 ^ 31" using Suc.prems(3) by (simp add: BSIZE_def)
    define m where "m = chunk n tot off"
    note cf = chunk_facts [OF True lim, folded m_def]
    let ?k = "unat off div BSIZE"
    let ?b = "blocks s (idev (icache s i)) (block_of s i ?k)"
    define x where "x = splice ?b (unat off mod BSIZE) (take m src)"
    have "unat off < N * BSIZE" using cf(1,2) Suc.prems(3) by linarith
    then have kN: "?k < N" by (simp add: BSIZE_def less_mult_imp_div_less)
    have bm: "bmap i (off div 512) s = Inr (block_of s i ?k, s)"
      using bmap_mapped [OF mp, of "off div 512"] kN by (simp add: unat_div_distrib BSIZE_def)
    have ml: "length (take m src) = m" using cf(2) Suc.prems(5) by simp
    have bl: "length ?b = BSIZE" using mp by (simp add: mapped_def)
    have xl: "length x = BSIZE" unfolding x_def using cf(3) ml bl by (simp add: splice_def)
    define s1 where "s1 = set_block (idev (icache s i)) (block_of s i ?k) x s"
    note ms = mapped_set [OF mp kN xl, folded s1_def]
    have bo: "block_of s1 i ` {..<N} = block_of s i ` {..<N}"
      using block_of_set [OF mp kN] unfolding s1_def by (intro image_cong) auto
    have pr: "unat off + m + (unat (n - tot) - m) \<le> N * BSIZE" "unat (n - tot) - m \<le> fuel"
        "unat (n - tot) - m \<le> length (drop m src)"
      using Suc.prems(3,4,5) cf(1,2) by auto
    obtain off' s' where w: "writei_loop fuel i (drop m src) (off + of_nat m) n (tot + of_nat m) s1 = Inr (off', s')"
        "unat off' = unat off + m + (unat (n - tot) - m)" "mapped s' i N" "icache s' = icache s1"
        "\<forall>y < N * BSIZE. file_byte s' i y = (if unat off + m \<le> y \<and> y < unat off + m + (unat (n - tot) - m)
           then drop m src ! (y - (unat off + m)) else file_byte s1 i y)"
        "\<forall>d b. d \<noteq> idev (icache s1 i) \<or> b \<notin> block_of s1 i ` {..<N} \<longrightarrow> blocks s' d b = blocks s1 d b"
      using Suc.IH [OF ms(1) cf(6), of "off + of_nat m" "drop m src", unfolded cf(4,5), OF pr] by blast
    have byte: "file_byte s1 i y = (if unat off \<le> y \<and> y < unat off + m then src ! (y - unat off)
        else file_byte s i y)" if "y < N * BSIZE" for y
    proof (cases "y div BSIZE = ?k")
      case False
      then have "\<not> (unat off \<le> y \<and> y < unat off + m)"
        using cf(7) [of "y - unat off"] by (metis add_diff_inverse_nat less_diff_conv2 linorder_not_le add.commute)
      then show ?thesis using ms(3) [OF that] False by auto
    next
      case True
      have y: "y mod BSIZE < BSIZE" "unat off mod BSIZE < BSIZE" by (simp_all add: BSIZE_def)
      have ye: "y = BSIZE * ?k + y mod BSIZE" "unat off = BSIZE * ?k + unat off mod BSIZE"
        using True by (metis mult_div_mod_eq)+
      have "x ! (y mod BSIZE) = (if unat off mod BSIZE \<le> y mod BSIZE \<and> y mod BSIZE < unat off mod BSIZE + m
          then src ! (y mod BSIZE - unat off mod BSIZE) else ?b ! (y mod BSIZE))"
        unfolding x_def using nth_splice [of "unat off mod BSIZE" "take m src" ?b "y mod BSIZE"] bl ml y cf(3) by auto
      moreover have "unat off mod BSIZE \<le> y mod BSIZE \<longleftrightarrow> unat off \<le> y"
          "y mod BSIZE < unat off mod BSIZE + m \<longleftrightarrow> y < unat off + m" "y mod BSIZE - unat off mod BSIZE = y - unat off"
        using ye by linarith+
      ultimately show ?thesis using ms(3) [OF that] True by (simp add: file_byte_def)
    qed
    have fb: "file_byte s' i y = (if unat off \<le> y \<and> y < unat off + unat (n - tot)
         then src ! (y - unat off) else file_byte s i y)" if "y < N * BSIZE" for y
    proof -
      have "m \<le> length src" using cf(2) Suc.prems(5) by simp
      then have "drop m src ! (y - (unat off + m)) = src ! (y - unat off)" if "unat off + m \<le> y" using that by simp
      then show ?thesis using w(5) byte [OF that] that cf(2) by auto
    qed
    have "writei_loop (Suc fuel) i src off n tot s = Inr (off', s')"
      using True bm w(1) by (simp add: writei_loop.simps [of "Suc fuel"] m_def [symmetric] Let_def x_def s1_def)
    moreover have "\<forall>d b. d \<noteq> idev (icache s i) \<or> b \<notin> block_of s i ` {..<N} \<longrightarrow> blocks s' d b = blocks s d b"
      using w(6) kN unfolding ms(2) bo by (auto simp: s1_def set_block_def)
    ultimately show ?thesis using w(2,3,4) ms(2) fb cf(2) by auto
  qed
qed

section \<open>Reading what was written\<close>

text \<open>A file whose first \<open>N\<close> blocks exist, apart from the block of its inode, which is up to date.\<close>

definition file_ok :: "fsys \<Rightarrow> nat \<Rightarrow> nat \<Rightarrow> bool" where
  "file_ok s i N \<longleftrightarrow> mapped s i N \<and> length (addrs (icache s i)) = NDIRECT + 1 \<and>
     IBLOCK (inum (icache s i)) \<notin> block_of s i ` {..<N} \<and>
     (NDIRECT < N \<longrightarrow> addrs (icache s i) ! NDIRECT \<noteq> IBLOCK (inum (icache s i))) \<and>
     disk_inode s (idev (icache s i)) (inum (icache s i)) = dinode_of (icache s i)"

lemma iupdate_icache [simp]: "icache (iupdate i s) = icache s"
  by (simp add: iupdate_def Let_def set_block_def)

lemma iupdate_blocks:
  "(d, b) \<noteq> (idev (icache s i), IBLOCK (inum (icache s i))) \<Longrightarrow> blocks (iupdate i s) d b = blocks s d b"
  by (auto simp: iupdate_def Let_def set_block_def)

lemma slot_less [simp]: "slot n < IPB"
  by (simp add: slot_def IPB_def)

lemma disk_inode_iupdate:
  assumes "length (addrs (icache s i)) = NDIRECT + 1"
    and "length (blocks s (idev (icache s i)) (IBLOCK (inum (icache s i)))) = BSIZE"
  shows "disk_inode (iupdate i s) d n = (if d = idev (icache s i) \<and> n = inum (icache s i)
      then dinode_of (icache s i) else disk_inode s d n)"
proof -
  let ?ip = "icache s i"
  let ?v = "dinode_of ?ip"
  let ?x = "blocks s (idev ?ip) (IBLOCK (inum ?ip))"
  have v: "length (d_addrs ?v) = NDIRECT + 1" using assms(1) by (simp add: dinode_of_def)
  have b: "blocks (iupdate i s) (idev ?ip) (IBLOCK (inum ?ip)) = put_dinode ?x (slot (inum ?ip)) ?v"
    by (simp add: iupdate_def Let_def set_block_def dinode_of_def)
  consider "d = idev ?ip" "n = inum ?ip" | "d = idev ?ip" "IBLOCK n = IBLOCK (inum ?ip)" "n \<noteq> inum ?ip"
    | "(d, IBLOCK n) \<noteq> (idev ?ip, IBLOCK (inum ?ip))" by auto
  then show ?thesis
  proof cases
    case 1
    then show ?thesis using put_dinode_same(1) [OF assms(2) slot_less v] b by (simp add: disk_inode_def)
  next
    case 2
    then have "slot n \<noteq> slot (inum ?ip)" using IBLOCK_slot by blast
    then show ?thesis using 2 put_dinode_other [OF _ v, of "slot n"] b by (simp add: disk_inode_def)
  next
    case 3
    then show ?thesis using iupdate_blocks [OF 3] by (auto simp: disk_inode_def)
  qed
qed

lemma readi_mapped:
  assumes "mapped s i N" "itype (icache s i) \<noteq> T_DEV" "unat off + k \<le> unat (isize (icache s i))"
    and "unat off + k \<le> N * BSIZE"
  shows "readi dr i off (of_nat k) s = Inr (Some (map (file_byte s i) [unat off..<unat off + k]), s)"
proof -
  have "N \<le> 140" using assms(1) by (simp add: mapped_def MAXFILE_def NDIRECT_def NINDIRECT_def)
  then have k: "unat off + k < 2 ^ 31" using assms(4) by (simp add: BSIZE_def)
  then have uk: "unat (of_nat k :: u32) = k" by (intro unat_of_nat_small) simp
  have "unat (off + of_nat k) = unat off + k" using k by (simp add: unat_word_ariths uk)
  then have "\<not> off > isize (icache s i)" "\<not> off + of_nat k < off" "\<not> off + of_nat k > isize (icache s i)"
    using assms(3) by (simp_all add: word_less_nat_alt)
  then show ?thesis
    using assms(2) readi_loop_ok [OF assms(1), of 0 "of_nat k" off k] assms(4) uk by (simp add: readi_def)
qed

lemma writei_mapped:
  assumes ok: "file_ok s i N" and "itype (icache s i) \<noteq> T_DEV" "off \<le> isize (icache s i)"
    and lim: "unat off + length src \<le> N * BSIZE"
  obtains s' where "writei dw i src off (of_nat (length src)) s = Inr (int (length src), s')"
    and "file_ok s' i N" and "icache s' i = (icache s i)\<lparr>isize :=
        (if src \<noteq> [] \<and> unat (isize (icache s i)) < unat off + length src then off + of_nat (length src) else isize (icache s i))\<rparr>"
    and "\<And>x. x < N * BSIZE \<Longrightarrow> file_byte s' i x = (if unat off \<le> x \<and> x < unat off + length src
         then src ! (x - unat off) else file_byte s i x)"
proof -
  let ?ip = "icache s i"
  let ?n = "of_nat (length src) :: u32"
  have mp: "mapped s i N" using ok by (simp add: file_ok_def)
  have "N \<le> 140" using mp by (simp add: mapped_def MAXFILE_def NDIRECT_def NINDIRECT_def)
  then have small: "unat off + length src \<le> 71680" using lim by (simp add: BSIZE_def)
  then have un: "unat ?n = length src" by (intro unat_of_nat_small) simp
  have uo: "unat (off + ?n) = unat off + length src" using small by (simp add: unat_word_ariths un)
  have guards: "\<not> off > isize ?ip" "\<not> off + ?n < off" "\<not> off + ?n > of_nat (MAXFILE * BSIZE)"
    using assms(3) uo small by (simp_all add: word_less_nat_alt word_le_nat_alt MAXFILE_def NDIRECT_def NINDIRECT_def BSIZE_def)
  obtain off' s1 where w: "writei_loop (unat ?n) i src off ?n 0 s = Inr (off', s1)"
      "unat off' = unat off + length src" "mapped s1 i N" "icache s1 = icache s"
      "\<forall>x < N * BSIZE. file_byte s1 i x = (if unat off \<le> x \<and> x < unat off + length src
         then src ! (x - unat off) else file_byte s i x)"
      "\<forall>d b. d \<noteq> idev ?ip \<or> b \<notin> block_of s i ` {..<N} \<longrightarrow> blocks s1 d b = blocks s d b"
    using writei_loop_ok [OF mp, of 0 ?n off "unat ?n" src] lim un by auto
  have off': "off' = off + ?n" using w(2) uo by (metis word_unat_eq_iff)
  have sn: "sint ?n = int (length src)" using sint_small [of ?n] un small by simp
  let ?grow = "?n > 0 \<and> off' > isize ?ip"
  have grow: "?grow \<longleftrightarrow> src \<noteq> [] \<and> unat (isize ?ip) < unat off + length src"
    using un w(2) by (auto simp: word_less_nat_alt)
  define s2 where "s2 = (if ?grow then iupdate i (upd_inode i (\<lambda>ip. ip\<lparr>isize := off'\<rparr>) s1) else s1)"
  have "writei dw i src off ?n s = Inr (int (length src), s2)"
    using assms(2) guards w(1) un by (simp add: writei_def Let_def w(4) sn s2_def)
  note wr = this
  have ic: "icache s2 i = ?ip\<lparr>isize :=
      (if src \<noteq> [] \<and> unat (isize ?ip) < unat off + length src then off + ?n else isize ?ip)\<rparr>"
    using grow by (simp add: s2_def w(4) off')
  have ia: "addrs (icache s2 i) = addrs ?ip" "idev (icache s2 i) = idev ?ip" "inum (icache s2 i) = inum ?ip"
    using ic by simp_all
  have nb: "IBLOCK (inum ?ip) \<notin> block_of s i ` {..<N}" "NDIRECT < N \<Longrightarrow> addrs ?ip ! NDIRECT \<noteq> IBLOCK (inum ?ip)"
    "length (addrs ?ip) = NDIRECT + 1" "disk_inode s (idev ?ip) (inum ?ip) = dinode_of ?ip"
    using ok by (auto simp: file_ok_def)
  have bl: "blocks s2 d b = blocks s1 d b" if "(d, b) \<noteq> (idev ?ip, IBLOCK (inum ?ip))" for d b
    using that iupdate_blocks [of d b "upd_inode i (\<lambda>ip. ip\<lparr>isize := off'\<rparr>) s1" i]
    by (auto simp: s2_def w(4))
  have "addrs ?ip ! NDIRECT \<notin> block_of s i ` {..<N}" if "NDIRECT < N"
    using mp that by (auto simp: mapped_def)
  then have bo1: "block_of s1 i k = block_of s i k" if "k < N" for k
    using that w(6) by (auto simp: block_of_def w(4))
  have bo: "block_of s2 i k = block_of s i k" if "k < N" for k
    using that bl bo1 [OF that] nb(2) by (auto simp: block_of_def ia w(4))
  have bimg: "block_of s2 i ` {..<N} = block_of s i ` {..<N}"
    using bo by (intro image_cong) auto
  have fb: "file_byte s2 i x = file_byte s1 i x" if "x < N * BSIZE" for x
  proof -
    have "x div BSIZE < N" using that by (simp add: BSIZE_def less_mult_imp_div_less)
    moreover from this have "block_of s i (x div BSIZE) \<noteq> IBLOCK (inum ?ip)"
      using nb(1) by (metis image_eqI lessThan_iff)
    ultimately show ?thesis using bo bo1 bl by (simp add: file_byte_def ia w(4))
  qed
  have len: "length (blocks s2 (idev ?ip) b) = BSIZE" for b
  proof -
    have "length (blocks s1 (idev ?ip) b) = BSIZE" for b using w(3) by (simp add: mapped_def w(4))
    then show ?thesis by (auto simp: s2_def iupdate_def Let_def set_block_def w(4) put_dinode_def)
  qed
  have inj: "inj_on (block_of s2 i) {..<N}" using mp bo by (auto simp: mapped_def inj_on_def)
  have "mapped s2 i N" using mp bo inj len unfolding mapped_def ia by auto
  moreover have "disk_inode s2 (idev ?ip) (inum ?ip) = dinode_of (icache s2 i)"
  proof (cases ?grow)
    case True
    let ?s = "upd_inode i (\<lambda>ip. ip\<lparr>isize := off'\<rparr>) s1"
    have "length (addrs (icache ?s i)) = NDIRECT + 1"
      "length (blocks ?s (idev (icache ?s i)) (IBLOCK (inum (icache ?s i)))) = BSIZE"
      using nb(3) w(3) by (simp_all add: w(4) mapped_def)
    from disk_inode_iupdate [OF this] show ?thesis using True by (simp add: s2_def w(4))
  next
    case False
    then have "s2 = s1" unfolding s2_def by (rule if_not_P)
    then show ?thesis using w(6) nb(1,4) by (simp add: w(4) disk_inode_def)
  qed
  ultimately have "file_ok s2 i N" using nb(1-3) unfolding file_ok_def ia bimg by simp
  then show ?thesis using that [OF wr _ ic] fb w(5) by auto
qed


text \<open>Writing \<open>src\<close> at offset \<open>off\<close> of a file whose blocks exist, then reading as many bytes
  at \<open>off\<close>, returns \<open>src\<close>, for every offset and length, within one block or across many; the
  other bytes of the file stay, its size is what it was or the end of what was written, and the
  inode on disk is again the cached one.\<close>

theorem writei_then_readi:
  assumes "file_ok s i N" "itype (icache s i) \<noteq> T_DEV" "off \<le> isize (icache s i)"
    and "unat off + length src \<le> N * BSIZE"
  shows "\<exists>s'. writei dw i src off (of_nat (length src)) s = Inr (int (length src), s') \<and>
    readi dr i off (of_nat (length src)) s' = Inr (Some src, s') \<and>
    (\<forall>x < N * BSIZE. \<not> (unat off \<le> x \<and> x < unat off + length src) \<longrightarrow> file_byte s' i x = file_byte s i x) \<and>
    unat (isize (icache s' i)) = max (unat (isize (icache s i))) (unat off + length src) \<and>
    file_ok s' i N"
proof -
  obtain s' where w: "writei dw i src off (of_nat (length src)) s = Inr (int (length src), s')"
    "file_ok s' i N" "icache s' i = (icache s i)\<lparr>isize :=
        (if src \<noteq> [] \<and> unat (isize (icache s i)) < unat off + length src then off + of_nat (length src) else isize (icache s i))\<rparr>"
    "\<And>x. x < N * BSIZE \<Longrightarrow> file_byte s' i x = (if unat off \<le> x \<and> x < unat off + length src
         then src ! (x - unat off) else file_byte s i x)"
    by (rule writei_mapped [OF assms, of dw]) blast
  have mp: "mapped s' i N" using w(2) by (simp add: file_ok_def)
  have "N \<le> 140" using mp by (simp add: mapped_def MAXFILE_def NDIRECT_def NINDIRECT_def)
  then have small: "unat off + length src < 2 ^ 32" using assms(4) by (simp add: BSIZE_def)
  then have "unat (of_nat (length src) :: u32) = length src" by (intro unat_of_nat_small) simp
  then have "unat (off + of_nat (length src)) = unat off + length src"
    using small by (simp add: unat_word_ariths)
  then have size: "unat (isize (icache s' i)) = max (unat (isize (icache s i))) (unat off + length src)"
    using assms(3) w(3) by (auto simp: word_le_nat_alt)
  have "map (file_byte s' i) [unat off..<unat off + length src] = src"
    using w(4) assms(4) by (auto intro!: nth_equalityI)
  moreover have "itype (icache s' i) \<noteq> T_DEV" using assms(2) w(3) by simp
  ultimately have "readi dr i off (of_nat (length src)) s' = Inr (Some src, s')"
    using readi_mapped [OF mp, of off "length src" dr] size assms(4) by simp
  then show ?thesis using w(1,2,4) size by auto
qed

definition demo_inode :: inode where
  "demo_inode = \<lparr>idev = 1, inum = 5, iref = 1, iflags = 3, itype = T_FILE, major = 0, minor = 0, nlink = 1,
     isize = 4, addrs = [30, 0, 0, 0, 0, 0, 0, 0, 0, 0, 0, 0, 0]\<rparr>"

definition demo_fs :: fsys where
  "demo_fs = \<lparr>blocks = (\<lambda>d b. if b = 2 then put_dinode (replicate BSIZE 0) 5 (dinode_of demo_inode)
     else replicate BSIZE 0), icache = (\<lambda>_. demo_inode)\<rparr>"

lemma demo_fs_ok: "file_ok demo_fs 0 1"
proof -
  have "length (replicate BSIZE (0 :: u8)) = BSIZE" "5 < IPB" "length (d_addrs (dinode_of demo_inode)) = NDIRECT + 1"
    by (simp_all add: IPB_def demo_inode_def dinode_of_def NDIRECT_def)
  note r = put_dinode_same [OF this]
  have s: "IBLOCK 5 = 2" "slot 5 = 5" by (simp_all add: IBLOCK_def slot_def IPB_def)
  have a: "addrs demo_inode ! 0 = 30" "idev demo_inode = 1" "inum demo_inode = 5" by (simp_all add: demo_inode_def)
  have b: "block_of demo_fs 0 0 = 30" by (simp add: block_of_def demo_fs_def a NDIRECT_def)
  have i: "icache demo_fs 0 = demo_inode" by (simp add: demo_fs_def)
  have len: "length (blocks demo_fs d x) = BSIZE" for d x
    using r(2) by (simp add: demo_fs_def)
  have one: "{..<1 :: nat} = {0}" by auto
  have "mapped demo_fs 0 1"
    using len unfolding mapped_def i one by (simp add: MAXFILE_def NDIRECT_def NINDIRECT_def b)
  moreover have "disk_inode demo_fs 1 5 = dinode_of demo_inode"
    using r(1) by (simp add: disk_inode_def demo_fs_def s)
  moreover have "length (addrs demo_inode) = NDIRECT + 1" by (simp add: demo_inode_def NDIRECT_def)
  ultimately show ?thesis
    unfolding file_ok_def i a one by (simp add: b s NDIRECT_def)
qed

theorem writei_then_readi_witness:
  "\<exists>s'. writei (\<lambda>_. None) 0 [7, 8] 3 2 demo_fs = Inr (2, s') \<and>
    readi (\<lambda>_. None) 0 3 2 s' = Inr (Some [7, 8], s')"
proof -
  have "itype (icache demo_fs 0) \<noteq> T_DEV" "(3 :: u32) \<le> isize (icache demo_fs 0)"
    "unat (3 :: u32) + length [7, 8 :: u8] \<le> 1 * BSIZE"
    by (simp_all add: demo_fs_def demo_inode_def T_FILE_def T_DEV_def BSIZE_def)
  from writei_then_readi [OF demo_fs_ok this, of "\<lambda>_. None" "\<lambda>_. None"] show ?thesis by auto
qed

end
