(* ===== verification/Fs_Grow.thy ===== *)
theory Fs_Grow
  imports Fs_Blocks Fs_Files
begin

text \<open>
  Files that grow: \<open>writei\<close> over the end of a file allocates the blocks it needs, the indirect block too. \<open>balloc\<close>
  does not clear a block, so this rests on an invariant of the disk: what is free is zero, as \<open>bfree\<close> leaves it.
\<close>

section \<open>The disk\<close>

definition last_meta :: "fsys \<Rightarrow> u32 \<Rightarrow> u32" where
  \<comment> \<open>the last block of the bitmap\<close>
  "last_meta s d = BBLOCK (sb_size (readsb d s)) (ninodes (readsb d s))"

definition disk_ok :: "fsys \<Rightarrow> u32 \<Rightarrow> bool" where
  "disk_ok s d \<longleftrightarrow> wf_blocks s d \<and> sb_size (readsb d s) \<le> 2 ^ 31 \<and> last_meta s d < sb_size (readsb d s) \<and>
     (\<forall>b \<le> last_meta s d. block_used s d b) \<and>
     (\<forall>b < sb_size (readsb d s). \<not> block_used s d b \<longrightarrow> blocks s d b = replicate BSIZE 0)"

definition data_block :: "fsys \<Rightarrow> u32 \<Rightarrow> u32 \<Rightarrow> bool" where
  \<comment> \<open>a block behind the bitmap that is in use\<close>
  "data_block s d b \<longleftrightarrow> last_meta s d < b \<and> b < sb_size (readsb d s) \<and> block_used s d b"

definition free_set :: "fsys \<Rightarrow> u32 \<Rightarrow> u32 set" where
  "free_set s d = {b. b < sb_size (readsb d s) \<and> \<not> block_used s d b}"

lemma BBLOCK_mono: "n < 2 ^ 31 \<Longrightarrow> b \<le> c \<Longrightarrow> BBLOCK b n \<le> BBLOCK c n"
  by (simp add: word_le_nat_alt BBLOCK_nat div_le_mono)

lemma meta_bitmap: "wf_blocks s d \<Longrightarrow> b < sb_size (readsb d s) \<Longrightarrow> BBLOCK b (ninodes (readsb d s)) \<le> last_meta s d"
  unfolding last_meta_def by (rule BBLOCK_mono) (auto simp: wf_blocks_def)

lemma meta_super: "wf_blocks s d \<Longrightarrow> 3 \<le> last_meta s d"
  unfolding last_meta_def by (auto simp: wf_blocks_def word_le_nat_alt BBLOCK_nat)

lemma balloc_loop_lowest:
  assumes "balloc_loop fuel d (readsb d s) b0 s = Inr (a, s')" and "4096 dvd unat b0"
    and "unat (sb_size (readsb d s)) \<le> 2 ^ 31" and "b0 \<le> c" "c < a"
  shows "block_used s d c"
  using assms
proof (induction fuel arbitrary: b0)
  case (Suc fuel)
  let ?sb = "readsb d s"
  let ?x = "blocks s d (BBLOCK b0 (ninodes ?sb))"
  have lt: "b0 < sb_size ?sb" using Suc.prems(1) by (simp split: if_splits)
  then have b0: "unat b0 < 2 ^ 31" using Suc.prems(3) by (simp add: word_less_nat_alt)
  obtain k where k: "unat b0 = 4096 * k" using Suc.prems(2) by (elim dvdE)
  have grp: "block_used s d c \<longleftrightarrow> \<not> bit_free ?x (unat c - unat b0)" if "unat b0 \<le> unat c" "unat c < unat b0 + 4096"
  proof -
    have m: "unat b0 mod 4096 = 0" "unat b0 div 4096 = k" using k by simp_all
    have e: "unat b0 + (unat c - unat b0) = unat c" "unat b0 mod 4096 + (unat c - unat b0) < 4096" using that m by linarith+
    have "unat c div 4096 = k" "unat c mod 4096 = unat c - unat b0"
      using in_block [OF e(2)] unfolding e(1) m by simp_all
    moreover from this(1) have "BBLOCK c (ninodes ?sb) = BBLOCK b0 (ninodes ?sb)"
      using k by (simp add: BBLOCK_def word_unat_eq_iff unat_div_distrib unat_word_ariths)
    ultimately show ?thesis by (simp add: block_used_def BPB_def)
  qed
  have c0: "unat b0 \<le> unat c" using Suc.prems(4) by (simp add: word_le_nat_alt)
  show ?case
  proof (cases "find (bit_free ?x) [0..<BPB]")
    case None
    have u: "unat (b0 + 4096) = unat b0 + 4096" using b0 by (simp add: unat_word_ariths)
    have r: "balloc_loop fuel d ?sb (b0 + 4096) s = Inr (a, s')"
      using Suc.prems(1) lt None by (simp add: Let_def)
    show ?thesis
    proof (cases "unat c < unat b0 + 4096")
      case True
      then have "\<not> bit_free ?x (unat c - unat b0)" using None by (auto simp: find_None_iff BPB_def)
      then show ?thesis using grp [OF c0 True] by simp
    next
      case False
      then show ?thesis
        using Suc.IH [OF r _ Suc.prems(3) _ Suc.prems(5)] Suc.prems(2) by (simp add: u word_le_nat_alt)
    qed
  next
    case (Some bi)
    then have bi: "bi < 4096" "\<forall>j < bi. \<not> bit_free ?x j" by (auto simp: find_Some_iff BPB_def)
    have a: "a = b0 + of_nat bi" using Suc.prems(1) lt Some by (simp add: Let_def)
    have "unat (of_nat bi :: u32) = bi" using bi(1) by (intro unat_of_nat_small) simp
    then have "unat a = unat b0 + bi" using b0 bi(1) by (simp add: a unat_word_ariths)
    then have lt2: "unat c < unat b0 + bi" using Suc.prems(5) by (simp add: word_less_nat_alt)
    then have "unat c - unat b0 < bi" using c0 by linarith
    then show ?thesis using grp [OF c0] bi lt2 by simp
  qed
qed simp

text \<open>One allocation on a disk with a free block.\<close>

lemma balloc_disk:
  assumes L: "disk_ok s d" and f: "free_set s d \<noteq> {}"
  obtains a s' where "balloc d s = Inr (a, s')" "a \<in> free_set s d" "last_meta s d < a"
    and "disk_ok s' d" "readsb d s' = readsb d s" "icache s' = icache s" "free_set s' d = free_set s d - {a}"
    and "\<And>c. block_used s' d c \<longleftrightarrow> c = a \<or> block_used s d c"
    and "blocks s' d a = replicate BSIZE 0" "\<And>b. last_meta s d < b \<Longrightarrow> blocks s' d b = blocks s d b"
    and "\<And>b. b < BBLOCK 0 (ninodes (readsb d s)) \<Longrightarrow> blocks s' d b = blocks s d b"
    and "\<And>d'. d' \<noteq> d \<Longrightarrow> blocks s' d' = blocks s d'"
proof -
  let ?sz = "sb_size (readsb d s)"
  have wf: "wf_blocks s d" and sz: "?sz \<le> 2 ^ 31" and lm: "last_meta s d < ?sz"
    and mu: "\<And>b. b \<le> last_meta s d \<Longrightarrow> block_used s d b"
    and zero: "\<And>b. b < ?sz \<Longrightarrow> \<not> block_used s d b \<Longrightarrow> blocks s d b = replicate BSIZE 0"
    using L by (auto simp: disk_ok_def)
  have n: "ninodes (readsb d s) < 2 ^ 31" using wf by (simp add: wf_blocks_def)
  obtain b where b: "b < ?sz" "\<not> block_used s d b" using f by (auto simp: free_set_def)
  have usz: "unat ?sz \<le> 2 ^ 31" using sz by (simp add: word_le_nat_alt)
  have "unat b div 4096 * 4096 \<le> unat b" by simp
  then have "unat b div 4096 * 4096 < unat ?sz" using b(1) unfolding word_less_nat_alt by linarith
  then obtain a s' where b0: "balloc d s = Inr (a, s')" using balloc_total [OF b(2) _ usz] by blast
  note ok = balloc_ok [OF b0 wf sz]
  note a = b0 ok(1,2)
  have "\<not> b < a"
    using balloc_loop_lowest [OF a(1) [unfolded balloc_def Let_def] _ usz, of b] b(2) by auto
  then have asz: "a < ?sz" using b(1) by (meson le_less_trans not_less)
  have am: "last_meta s d < a" using mu [of a] a(2) by (auto simp: not_le [symmetric])
  have ab: "BBLOCK a (ninodes (readsb d s)) \<le> last_meta s d" by (rule meta_bitmap [OF wf asz])
  have hi: "blocks s' d b = blocks s d b" if "last_meta s d < b" for b
  proof -
    have "b \<noteq> BBLOCK a (ninodes (readsb d s))" using that ab by auto
    then show ?thesis by (rule ok(6))
  qed
  have low: "blocks s' d b = blocks s d b" if "b < BBLOCK 0 (ninodes (readsb d s))" for b
  proof -
    have "BBLOCK 0 (ninodes (readsb d s)) \<le> BBLOCK a (ninodes (readsb d s))" by (rule BBLOCK_mono [OF n]) simp
    then show ?thesis using that by (intro ok(6)) auto
  qed
  have lm': "last_meta s' d = last_meta s d" by (simp add: last_meta_def ok(5))
  have "block_used s' d b" if "b \<le> last_meta s d" for b using mu [OF that] a(3) by blast
  moreover have "blocks s' d b = replicate BSIZE 0" if "b < ?sz" "\<not> block_used s' d b" for b
  proof -
    have "\<not> block_used s d b" using that(2) a(3) by blast
    moreover from this have "last_meta s d < b" using mu [of b] by (auto simp: not_le [symmetric])
    ultimately show ?thesis using hi zero that(1) by simp
  qed
  ultimately have L': "disk_ok s' d" unfolding disk_ok_def lm' ok(5) using ok(4) sz lm by blast
  have fs: "free_set s' d = free_set s d - {a}" unfolding free_set_def ok(5) a(3) by blast
  have z: "blocks s' d a = replicate BSIZE 0" using hi [OF am] zero [OF asz a(2)] by simp
  have "a \<in> free_set s d" using asz a(2) by (simp add: free_set_def)
  then show ?thesis using that [OF a(1) _ am L' ok(5) ok(3) fs a(3) z hi low ok(7)] by blast
qed

lemma disk_ok_set:
  assumes L: "disk_ok s d" and b: "data_block s d b" and x: "length x = BSIZE"
  shows "disk_ok (set_block d b x s) d" and "readsb d (set_block d b x s) = readsb d s"
    and "c < sb_size (readsb d s) \<Longrightarrow> block_used (set_block d b x s) d c = block_used s d c"
    and "data_block (set_block d b x s) d c = data_block s d c" and "free_set (set_block d b x s) d = free_set s d"
proof -
  let ?s = "set_block d b x s"
  have wf: "wf_blocks s d" using L by (simp add: disk_ok_def)
  have b1: "b \<noteq> 1" using b meta_super [OF wf] by (auto simp: data_block_def word_le_nat_alt word_less_nat_alt)
  show sb: "readsb d ?s = readsb d s" by (rule readsb_set [OF b1])
  have lm: "last_meta ?s d = last_meta s d" by (simp add: last_meta_def sb)
  show u: "block_used ?s d c = block_used s d c" if "c < sb_size (readsb d s)" for c
    using meta_bitmap [OF wf that] b by (auto simp: block_used_def sb data_block_def)
  show "data_block ?s d c = data_block s d c" unfolding data_block_def lm sb using u by blast
  show "free_set ?s d = free_set s d" unfolding free_set_def sb using u by blast
  show "disk_ok ?s d"
    using L wf_blocks_set [OF wf x b1] u b unfolding disk_ok_def lm sb
    by (auto simp: data_block_def dest: le_less_trans)
qed

section \<open>The blocks of a file\<close>

text \<open>The first \<open>K\<close> blocks of a file exist, in use and distinct, and no other; \<open>J\<close> says whether it has its indirect block.\<close>

definition file_map :: "fsys \<Rightarrow> nat \<Rightarrow> nat \<Rightarrow> bool \<Rightarrow> bool" where
  "file_map s i K J \<longleftrightarrow>
     K \<le> MAXFILE \<and> length (addrs (icache s i)) = NDIRECT + 1 \<and> (NDIRECT < K \<longrightarrow> J) \<and>
     (\<forall>k < K. data_block s (idev (icache s i)) (block_of s i k)) \<and> inj_on (block_of s i) {..<K} \<and>
     (\<forall>k < NDIRECT. K \<le> k \<longrightarrow> block_of s i k = 0) \<and>
     (if J then data_block s (idev (icache s i)) (addrs (icache s i) ! NDIRECT) \<and>
          (\<forall>k < K. block_of s i k \<noteq> addrs (icache s i) ! NDIRECT) \<and> (\<forall>k < MAXFILE. K \<le> k \<longrightarrow> block_of s i k = 0)
      else addrs (icache s i) ! NDIRECT = 0)"

definition keeps :: "u32 \<Rightarrow> u32 set \<Rightarrow> fsys \<Rightarrow> fsys \<Rightarrow> bool" where
  \<comment> \<open>the blocks in use stay so, those outside \<open>B\<close> unchanged, and the blocks before the bitmap and other devices too\<close>
  "keeps d B s s' \<longleftrightarrow> disk_ok s' d \<and> readsb d s' = readsb d s \<and>
     (\<forall>b. data_block s d b \<longrightarrow> data_block s' d b \<and> (b \<notin> B \<longrightarrow> blocks s' d b = blocks s d b)) \<and>
     (\<forall>b < BBLOCK 0 (ninodes (readsb d s)). blocks s' d b = blocks s d b) \<and>
     (\<forall>d'. d' \<noteq> d \<longrightarrow> blocks s' d' = blocks s d')"

lemma data_nonzero: "data_block s d b \<Longrightarrow> b \<noteq> 0"
  by (auto simp: data_block_def)

lemma keeps_refl: "disk_ok s d \<Longrightarrow> keeps d B s s"
  by (simp add: keeps_def)

lemma keeps_trans: "keeps d B s t \<Longrightarrow> keeps d C t u \<Longrightarrow> (\<And>b. data_block s d b \<Longrightarrow> b \<in> C \<Longrightarrow> b \<in> B) \<Longrightarrow> keeps d B s u"
  unfolding keeps_def by (elim conjE) (intro conjI allI impI; simp; metis)

lemma data_block_low: "disk_ok s d \<Longrightarrow> data_block s d b \<Longrightarrow> \<not> b < BBLOCK 0 (ninodes (readsb d s))"
proof -
  assume L: "disk_ok s d" and b: "data_block s d b"
  then have "0 < sb_size (readsb d s)" by (auto simp: disk_ok_def word_less_nat_alt)
  then have "BBLOCK 0 (ninodes (readsb d s)) \<le> last_meta s d" using L meta_bitmap by (auto simp: disk_ok_def)
  moreover have "last_meta s d < b" using b by (simp add: data_block_def)
  ultimately show ?thesis by (simp add: word_le_nat_alt word_less_nat_alt)
qed

lemma keeps_set:
  assumes "disk_ok s d" "data_block s d b" "length x = BSIZE" "b \<in> B"
  shows "keeps d B s (set_block d b x s)"
  using assms disk_ok_set [OF assms(1-3)] data_block_low [OF assms(1,2)] unfolding keeps_def by auto

lemma keeps_balloc:
  assumes L: "disk_ok s d" and f: "free_set s d \<noteq> {}"
  obtains a s' where "balloc d s = Inr (a, s')" "data_block s' d a" "\<not> data_block s d a" "a \<noteq> 0"
    and "keeps d {} s s'" "icache s' = icache s" "blocks s' d a = replicate BSIZE 0"
    and "card (free_set s' d) = card (free_set s d) - 1"
proof -
  obtain a s' where a: "balloc d s = Inr (a, s')" "a \<in> free_set s d" "last_meta s d < a"
    and s': "disk_ok s' d" "readsb d s' = readsb d s" "icache s' = icache s" "free_set s' d = free_set s d - {a}"
    and u: "\<And>c. block_used s' d c \<longleftrightarrow> c = a \<or> block_used s d c"
    and bl: "blocks s' d a = replicate BSIZE 0" "\<And>b. last_meta s d < b \<Longrightarrow> blocks s' d b = blocks s d b"
      "\<And>b. b < BBLOCK 0 (ninodes (readsb d s)) \<Longrightarrow> blocks s' d b = blocks s d b"
      "\<And>d'. d' \<noteq> d \<Longrightarrow> blocks s' d' = blocks s d'"
    using balloc_disk [OF L f] by metis
  have lm: "last_meta s' d = last_meta s d" by (simp add: last_meta_def s'(2))
  have d: "data_block s' d c \<longleftrightarrow> c = a \<or> data_block s d c" for c
    using a(2,3) by (auto simp: data_block_def lm s'(2) u free_set_def)
  have "\<not> data_block s d a" using a(2) by (simp add: data_block_def free_set_def)
  moreover have "keeps d {} s s'" using s'(1,2) d bl by (auto simp: keeps_def data_block_def)
  moreover have "card (free_set s' d) = card (free_set s d) - 1" using a(2) by (simp add: s'(4))
  ultimately show ?thesis using that [OF a(1)] d [of a] data_nonzero [of s' d a] s'(3) bl(1) by blast
qed

section \<open>One more block\<close>

abbreviation ind_of :: "fsys \<Rightarrow> nat \<Rightarrow> u32" where "ind_of s i \<equiv> addrs (icache s i) ! NDIRECT"
abbreviation dev_of :: "fsys \<Rightarrow> nat \<Rightarrow> u32" where "dev_of s i \<equiv> idev (icache s i)"

definition grows :: "nat \<Rightarrow> nat \<Rightarrow> fsys \<Rightarrow> nat \<Rightarrow> bool \<Rightarrow> fsys \<Rightarrow> bool" where
  \<comment> \<open>the file has \<open>K'\<close> blocks, the first \<open>K\<close> of which are the old ones; nothing else changed\<close>
  "grows i K s K' J' s' \<longleftrightarrow> file_map s' i K' J' \<and> keeps (dev_of s i) {ind_of s i} s s' \<and>
     (\<exists>as. icache s' = (icache s)(i := (icache s i)\<lparr>addrs := as\<rparr>)) \<and> (\<forall>k < K. block_of s' i k = block_of s i k) \<and>
     (ind_of s' i = ind_of s i \<or> \<not> data_block s (dev_of s i) (ind_of s' i))"

lemma grows_refl: "disk_ok s (dev_of s i) \<Longrightarrow> file_map s i K J \<Longrightarrow> grows i K s K J s"
  by (auto simp: grows_def keeps_refl intro!: exI [of _ "addrs (icache s i)"])

lemma grows_dev: "grows i K s K' J s' \<Longrightarrow> dev_of s' i = dev_of s i"
  by (auto simp: grows_def)

lemma grows_trans:
  assumes a: "grows i K s K1 J1 t" and b: "grows i K t K2 J2 u"
  shows "grows i K s K2 J2 u"
proof -
  have d: "dev_of t i = dev_of s i" by (rule grows_dev [OF a])
  have "keeps (dev_of s i) {ind_of s i} s u"
    using a b unfolding grows_def d by (intro keeps_trans [of _ _ s t _ u]) auto
  moreover have "ind_of u i = ind_of s i \<or> \<not> data_block s (dev_of s i) (ind_of u i)"
    using a b unfolding grows_def d keeps_def by metis
  moreover obtain as bs where "icache t = (icache s)(i := (icache s i)\<lparr>addrs := as\<rparr>)"
    "icache u = (icache t)(i := (icache t i)\<lparr>addrs := bs\<rparr>)"
    using a b by (auto simp: grows_def)
  then have "icache u = (icache s)(i := (icache s i)\<lparr>addrs := bs\<rparr>)" by simp
  ultimately show ?thesis using a b unfolding grows_def d by auto
qed

lemma ld32_zero [simp]: "j + 4 \<le> BSIZE \<Longrightarrow> ld32 (replicate BSIZE 0) j = 0"
  by (simp add: ld32_def BSIZE_def)

lemma gain_direct:
  assumes L: "disk_ok s (dev_of s i)" and m: "file_map s i K J" and K: "K < NDIRECT" "unat bn = K"
    and f: "free_set s (dev_of s i) \<noteq> {}"
  shows "\<exists>a s'. bmap i bn s = Inr (a, s') \<and> grows i K s (Suc K) J s' \<and> block_of s' i K = a \<and>
    \<not> data_block s (dev_of s i) a \<and> blocks s' (dev_of s i) a = replicate BSIZE 0 \<and>
    card (free_set s' (dev_of s i)) = card (free_set s (dev_of s i)) - 1"
proof -
  let ?d = "dev_of s i" and ?as = "addrs (icache s i)"
  obtain a s1 where a: "balloc ?d s = Inr (a, s1)" "data_block s1 ?d a" "\<not> data_block s ?d a" "a \<noteq> 0"
    "keeps ?d {} s s1" "icache s1 = icache s" "blocks s1 ?d a = replicate BSIZE 0"
    "card (free_set s1 ?d) = card (free_set s ?d) - 1"
    using keeps_balloc [OF L f] by metis
  define s' where "s' = upd_inode i (\<lambda>ip. ip\<lparr>addrs := (addrs ip)[K := a]\<rparr>) s1"
  have ic: "icache s' = (icache s)(i := (icache s i)\<lparr>addrs := ?as[K := a]\<rparr>)" and bl: "blocks s' = blocks s1"
    by (simp_all add: s'_def a(6))
  have len: "length ?as = NDIRECT + 1" and un: "?as ! K = 0"
    using m K(1) by (auto simp: file_map_def block_of_def)
  have "bmap i bn s = Inr (a, s')"
    using K un a(1) by (simp add: bmap_def Let_def word_less_nat_alt s'_def NDIRECT_def)
  moreover have ia: "ind_of s' i = ind_of s i" "dev_of s' i = ?d" using K(1) len by (simp_all add: ic)
  have db: "data_block s' ?d b = data_block s1 ?d b" "free_set s' ?d = free_set s1 ?d" "disk_ok s' ?d = disk_ok s1 ?d"
    "readsb ?d s' = readsb ?d s1" for b
    by (simp_all add: data_block_def last_meta_def readsb_def block_used_def bl free_set_def disk_ok_def wf_blocks_def)
  have kp: "keeps ?d {ind_of s i} s s'" using a(5) unfolding keeps_def db bl by auto
  have keep_ind: "J \<Longrightarrow> blocks s' ?d (ind_of s i) = blocks s ?d (ind_of s i)"
    using m a(5) unfolding bl by (auto simp: file_map_def keeps_def)
  have bo: "block_of s' i k = (if k = K then a else block_of s i k)" if "k < NDIRECT \<or> J" for k
    using that K(1) len keep_ind unfolding block_of_def ia by (auto simp: ic)
  have inj: "inj_on (block_of s' i) {..<Suc K}"
    using m a(3) bo K(1) unfolding file_map_def by (auto simp: inj_on_def less_Suc_eq)
  have "file_map s' i (Suc K) J"
  proof -
    have "data_block s' ?d b" if "data_block s ?d b" for b using that kp by (simp add: keeps_def)
    moreover have "data_block s' ?d a" using a(2) by (simp add: db)
    ultimately show ?thesis
      using m K(1) len a(3) bo inj unfolding file_map_def ia
      by (auto simp: ic less_Suc_eq MAXFILE_def NINDIRECT_def split: if_splits)
  qed
  moreover have "block_of s' i K = a" using bo K(1) by simp
  moreover have "\<forall>k < K. block_of s' i k = block_of s i k" using bo K(1) by simp
  ultimately show ?thesis using kp ic ia a(3,7,8) by (auto simp: grows_def db bl)
qed

text \<open>The indirect block is allocated when the first block behind the direct ones is needed.\<close>

lemma gain_indirect:
  assumes L: "disk_ok s (dev_of s i)" and m: "file_map s i NDIRECT False" and f: "free_set s (dev_of s i) \<noteq> {}"
  shows "\<exists>a s'. bindE (balloc (dev_of s i) s) (\<lambda>(a, s1). Inr (a, upd_inode i (\<lambda>ip. ip\<lparr>addrs := (addrs ip)[NDIRECT := a]\<rparr>) s1))
      = Inr (a, s') \<and> grows i NDIRECT s NDIRECT True s' \<and> ind_of s' i = a \<and>
    card (free_set s' (dev_of s i)) = card (free_set s (dev_of s i)) - 1"
proof -
  let ?d = "dev_of s i" and ?as = "addrs (icache s i)"
  obtain a s1 where a: "balloc ?d s = Inr (a, s1)" "data_block s1 ?d a" "\<not> data_block s ?d a" "a \<noteq> 0"
    "keeps ?d {} s s1" "icache s1 = icache s" "blocks s1 ?d a = replicate BSIZE 0"
    "card (free_set s1 ?d) = card (free_set s ?d) - 1"
    using keeps_balloc [OF L f] by metis
  define s' where "s' = upd_inode i (\<lambda>ip. ip\<lparr>addrs := (addrs ip)[NDIRECT := a]\<rparr>) s1"
  have ic: "icache s' = (icache s)(i := (icache s i)\<lparr>addrs := ?as[NDIRECT := a]\<rparr>)" and bl: "blocks s' = blocks s1"
    by (simp_all add: s'_def a(6))
  have len: "length ?as = NDIRECT + 1" using m by (simp add: file_map_def)
  have ia: "ind_of s' i = a" "dev_of s' i = ?d" using len by (simp_all add: ic)
  have db: "data_block s' ?d b = data_block s1 ?d b" "free_set s' ?d = free_set s1 ?d" "disk_ok s' ?d = disk_ok s1 ?d"
    "readsb ?d s' = readsb ?d s1" for b
    by (simp_all add: data_block_def last_meta_def readsb_def block_used_def bl free_set_def disk_ok_def wf_blocks_def)
  have kp: "keeps ?d {ind_of s i} s s'" using a(5) unfolding keeps_def db bl by auto
  have bo: "block_of s' i k = block_of s i k" if "k < NDIRECT" for k
    using that by (simp add: block_of_def ic)
  have un: "block_of s' i k = 0" if "NDIRECT \<le> k" "k < MAXFILE" for k
  proof -
    have "4 * (k - NDIRECT) + 4 \<le> BSIZE" using that by (simp add: MAXFILE_def NDIRECT_def NINDIRECT_def BSIZE_def)
    then show ?thesis using that a(7) by (simp add: block_of_def ia bl)
  qed
  have inj: "inj_on (block_of s' i) {..<NDIRECT}"
    using m bo by (auto simp: file_map_def inj_on_def)
  have "file_map s' i NDIRECT True"
  proof -
    have "data_block s' ?d b" if "data_block s ?d b" for b using that kp by (simp add: keeps_def)
    moreover have "data_block s' ?d a" using a(2) by (simp add: db)
    ultimately show ?thesis
      using m len a(3) bo un inj unfolding file_map_def ia by (auto simp: ic)
  qed
  then have "grows i NDIRECT s NDIRECT True s'" using kp ic ia bo a(3) by (auto simp: grows_def)
  then show ?thesis
    using ia a(1) a(8) [folded db(2)] by (intro exI [of _ a] exI [of _ s']) (simp add: s'_def)
qed

lemma grow_entry:
  assumes L: "disk_ok s (dev_of s i)" and m: "file_map s i K True" and K: "NDIRECT \<le> K" "K < MAXFILE"
    and f: "free_set s (dev_of s i) \<noteq> {}"
  defines "j \<equiv> 4 * (K - NDIRECT)" and "bp \<equiv> blocks s (dev_of s i) (ind_of s i)"
  shows "ld32 bp j = 0" and "\<exists>a s'. bindE (balloc (dev_of s i) s) (\<lambda>(a, s2). Inr (a, set_block (dev_of s i) (ind_of s i) (st32 bp j a) s2))
      = Inr (a, s') \<and> grows i K s (Suc K) True s' \<and> block_of s' i K = a \<and>
    \<not> data_block s (dev_of s i) a \<and> blocks s' (dev_of s i) a = replicate BSIZE 0 \<and>
    card (free_set s' (dev_of s i)) = card (free_set s (dev_of s i)) - 1"
proof -
  let ?d = "dev_of s i" and ?ind = "ind_of s i"
  have ind: "data_block s ?d ?ind" and un: "block_of s i K = 0" and wf: "wf_blocks s ?d"
    using m L K(2) by (auto simp: file_map_def disk_ok_def)
  then show "ld32 bp j = 0" using K(1) by (simp add: block_of_def bp_def j_def)
  obtain a s1 where a: "balloc ?d s = Inr (a, s1)" "data_block s1 ?d a" "\<not> data_block s ?d a" "a \<noteq> 0"
    "keeps ?d {} s s1" "icache s1 = icache s" "blocks s1 ?d a = replicate BSIZE 0"
    "card (free_set s1 ?d) = card (free_set s ?d) - 1"
    using keeps_balloc [OF L f] by metis
  have L1: "disk_ok s1 ?d" and ind1: "data_block s1 ?d ?ind" and bp1: "blocks s1 ?d ?ind = bp"
    using a(5) ind by (auto simp: keeps_def bp_def)
  have len: "length bp = 512" using wf by (simp add: bp_def wf_blocks_def BSIZE_def)
  have x: "length (st32 bp j a) = BSIZE" using len by (simp add: BSIZE_def)
  have j: "j + 4 \<le> 512" using K by (simp add: j_def MAXFILE_def NDIRECT_def NINDIRECT_def)
  define s' where "s' = set_block ?d ?ind (st32 bp j a) s1"
  note ds = disk_ok_set [OF L1 ind1 x, folded s'_def]
  have ic: "icache s' = icache s" by (simp add: s'_def a(6))
  have "keeps ?d {?ind} s1 s'" unfolding s'_def by (rule keeps_set [OF L1 ind1 x]) simp
  moreover have "keeps ?d {?ind} s s1" using a(5) by (auto simp: keeps_def)
  ultimately have kp: "keeps ?d {?ind} s s'" using keeps_trans by blast
  have bo: "block_of s' i k = (if k = K then a else block_of s i k)" if "k < MAXFILE" for k
  proof (cases "k < NDIRECT")
    case True
    then show ?thesis using K(1) by (simp add: block_of_def ic)
  next
    case False
    then have k: "4 * (k - NDIRECT) + 4 \<le> 512" using that by (simp add: MAXFILE_def NDIRECT_def NINDIRECT_def)
    have "ld32 (st32 bp j a) (4 * (k - NDIRECT)) = (if k = K then a else ld32 bp (4 * (k - NDIRECT)))"
    proof (cases "k = K")
      case True
      then show ?thesis using ld_st(2) [of j bp a] j len by (simp add: j_def)
    next
      case ne: False
      then have "4 * (k - NDIRECT) + 4 \<le> j \<or> j + 4 \<le> 4 * (k - NDIRECT)" using False K(1) by (auto simp: j_def)
      then show ?thesis using ne by (auto simp: ld_st_other)
    qed
    moreover have "blocks s' ?d ?ind = st32 bp j a" by (simp add: s'_def)
    ultimately show ?thesis using False by (simp add: block_of_def ic bp_def)
  qed
  have ane: "a \<noteq> ?ind" using a(3) ind by blast
  have inj: "inj_on (block_of s' i) {..<Suc K}"
    using m a(3) bo K(2) unfolding file_map_def by (auto simp: inj_on_def less_Suc_eq)
  have "file_map s' i (Suc K) True"
  proof -
    have "data_block s' ?d b" if "data_block s ?d b" for b using that kp by (simp add: keeps_def)
    moreover have "data_block s' ?d a" using a(2) ds(4) by simp
    ultimately show ?thesis
      using m K ane bo inj unfolding file_map_def ic by (auto simp: less_Suc_eq)
  qed
  then have g: "grows i K s (Suc K) True s'"
    using kp ic bo K(2) by (auto simp: grows_def intro!: exI [of _ "addrs (icache s i)"])
  have "blocks s' ?d a = replicate BSIZE 0" using a(7) ane by (simp add: s'_def)
  then show "\<exists>a s'. bindE (balloc ?d s) (\<lambda>(a, s2). Inr (a, set_block ?d ?ind (st32 bp j a) s2)) = Inr (a, s') \<and>
      grows i K s (Suc K) True s' \<and> block_of s' i K = a \<and> \<not> data_block s ?d a \<and> blocks s' ?d a = replicate BSIZE 0 \<and>
      card (free_set s' ?d) = card (free_set s ?d) - 1"
    using g a(1,3,8) bo [of K] K(2) ds(5) by (intro exI [of _ a] exI [of _ s']) (simp add: s'_def)
qed

text \<open>The blocks that a file of \<open>K\<close> blocks needs to have \<open>K'\<close>.\<close>

definition cost :: "nat \<Rightarrow> nat \<Rightarrow> nat" where
  "cost K K' = K' - K + (if K \<le> NDIRECT \<and> NDIRECT < K' then 1 else 0)"

lemma bmap_grow:
  assumes L: "disk_ok s (dev_of s i)" and m: "file_map s i K (NDIRECT < K)" and K: "K < MAXFILE" "unat bn = K"
    and f: "cost K (Suc K) \<le> card (free_set s (dev_of s i))"
  shows "\<exists>a s'. bmap i bn s = Inr (a, s') \<and> grows i K s (Suc K) (NDIRECT < Suc K) s' \<and> block_of s' i K = a \<and>
    \<not> data_block s (dev_of s i) a \<and> blocks s' (dev_of s i) a = replicate BSIZE 0 \<and>
    card (free_set s' (dev_of s i)) = card (free_set s (dev_of s i)) - cost K (Suc K)"
proof (cases "K < NDIRECT")
  case True
  then have c: "cost K (Suc K) = 1" "(NDIRECT < Suc K) = (NDIRECT < K)" by (auto simp: cost_def)
  have "free_set s (dev_of s i) \<noteq> {}" using f c by auto
  from gain_direct [OF L m True K(2) this] show ?thesis unfolding c by blast
next
  case False
  let ?d = "dev_of s i"
  have n: "NDIRECT < Suc K" using False by simp
  have ne: "free_set s ?d \<noteq> {}" using f by (auto simp: cost_def)
  have bn: "\<not> bn < of_nat NDIRECT" "bn - of_nat NDIRECT < of_nat NINDIRECT" "unat (bn - of_nat NDIRECT) = K - NDIRECT"
  proof -
    show "\<not> bn < of_nat NDIRECT" using False K(2) by (simp add: word_less_nat_alt NDIRECT_def)
    then have "unat (bn - of_nat NDIRECT) = unat bn - unat (of_nat NDIRECT :: u32)" by (intro unat_sub) simp
    then show u: "unat (bn - of_nat NDIRECT) = K - NDIRECT" using K(2) by (simp add: NDIRECT_def)
    show "bn - of_nat NDIRECT < of_nat NINDIRECT"
      using K(1) False by (simp add: word_less_nat_alt u) (simp add: MAXFILE_def NDIRECT_def NINDIRECT_def)
  qed
  \<comment> \<open>the state with the indirect block\<close>
  obtain ind s1 where s1: "(if ind_of s i = 0 then
        bindE (balloc ?d s) (\<lambda>(a, s1). Inr (a, upd_inode i (\<lambda>ip. ip\<lparr>addrs := (addrs ip)[NDIRECT := a]\<rparr>) s1))
      else Inr (ind_of s i, s)) = Inr (ind, s1)" "grows i K s K True s1" "ind_of s1 i = ind"
    "card (free_set s1 ?d) = card (free_set s ?d) - (if K = NDIRECT then 1 else 0)"
  proof (cases "K = NDIRECT")
    case True
    then have m': "file_map s i NDIRECT False" and z: "ind_of s i = 0" using m by (auto simp: file_map_def)
    from gain_indirect [OF L m' ne] show ?thesis using that True z by auto
  next
    case Kn: False
    then have m': "file_map s i K True" using m False by simp
    then have "ind_of s i \<noteq> 0" using data_nonzero by (auto simp: file_map_def)
    then show ?thesis using that [of "ind_of s i" s] grows_refl [OF L m'] Kn by simp
  qed
  have d1: "dev_of s1 i = ?d" by (rule grows_dev [OF s1(2)])
  have m1: "file_map s1 i K True" and L1: "disk_ok s1 (dev_of s1 i)"
    using s1(2) by (auto simp: grows_def d1 keeps_def)
  have Kc: "cost K (Suc K) = 1 + (if K = NDIRECT then 1 else 0)" using False by (auto simp: cost_def)
  have "card (free_set s1 (dev_of s1 i)) \<noteq> 0" using s1(4) f Kc unfolding d1 by (auto split: if_splits)
  then have ne1: "free_set s1 (dev_of s1 i) \<noteq> {}" by auto
  note ge = grow_entry [OF L1 m1 _ K(1) ne1, unfolded d1 s1(3)]
  have le: "NDIRECT \<le> K" using False by simp
  obtain a s' where a: "bindE (balloc ?d s1) (\<lambda>(a, s2). Inr (a, set_block ?d ind (st32 (blocks s1 ?d ind) (4 * (K - NDIRECT)) a) s2)) = Inr (a, s')"
    "grows i K s1 (Suc K) True s'" "block_of s' i K = a" "\<not> data_block s1 ?d a"
    "blocks s' ?d a = replicate BSIZE 0" "card (free_set s' ?d) = card (free_set s1 ?d) - 1"
    using ge(2) [OF le] by blast
  have "bmap i bn s = Inr (a, s')"
    using bn(1,2) s1(1) a(1) ge(1) [OF le] unfolding bmap_def Let_def by (simp add: bn(3))
  moreover have "\<not> data_block s ?d a" using a(4) s1(2) by (auto simp: grows_def keeps_def)
  ultimately show ?thesis
    using grows_trans [OF s1(2) a(2)] a(3,5,6) s1(4) n Kc by auto
qed

section \<open>Writing over the end\<close>

definition fblocks :: "fsys \<Rightarrow> nat \<Rightarrow> nat \<Rightarrow> u32 set" where
  "fblocks s i K = insert (ind_of s i) (block_of s i ` {..<K})"

definition extends :: "nat \<Rightarrow> nat \<Rightarrow> fsys \<Rightarrow> nat \<Rightarrow> fsys \<Rightarrow> bool" where
  \<comment> \<open>a file of \<open>K\<close> blocks has become one of \<open>K'\<close> with any contents; its new blocks were free\<close>
  "extends i K s K' s' \<longleftrightarrow> file_map s' i K' (NDIRECT < K') \<and> keeps (dev_of s i) (fblocks s i K) s s' \<and>
     (\<exists>as. icache s' = (icache s)(i := (icache s i)\<lparr>addrs := as\<rparr>)) \<and>
     (\<forall>b \<in> fblocks s' i K'. b \<in> fblocks s i K \<or> \<not> data_block s (dev_of s i) b)"

lemma extends_refl: "disk_ok s (dev_of s i) \<Longrightarrow> file_map s i K (NDIRECT < K) \<Longrightarrow> extends i K s K s"
  by (auto simp: extends_def keeps_refl intro!: exI [of _ "addrs (icache s i)"])

lemma extends_dev: "extends i K s K' s' \<Longrightarrow> dev_of s' i = dev_of s i"
  by (auto simp: extends_def)

lemma extends_trans:
  assumes a: "extends i K s K1 t" and b: "extends i K1 t K2 u"
  shows "extends i K s K2 u"
proof -
  have d: "dev_of t i = dev_of s i" by (rule extends_dev [OF a])
  have k: "keeps (dev_of s i) (fblocks s i K) s t" "keeps (dev_of s i) (fblocks t i K1) t u"
    and n: "\<forall>b \<in> fblocks t i K1. b \<in> fblocks s i K \<or> \<not> data_block s (dev_of s i) b"
      "\<forall>b \<in> fblocks u i K2. b \<in> fblocks t i K1 \<or> \<not> data_block t (dev_of s i) b"
    and f: "file_map u i K2 (NDIRECT < K2)"
    using a b unfolding extends_def d by blast+
  have "keeps (dev_of s i) (fblocks s i K) s u" using k n(1) by (intro keeps_trans [OF k]) blast
  moreover have "\<forall>b \<in> fblocks u i K2. b \<in> fblocks s i K \<or> \<not> data_block s (dev_of s i) b"
    using n k(1) unfolding keeps_def by blast
  moreover obtain as bs where "icache t = (icache s)(i := (icache s i)\<lparr>addrs := as\<rparr>)"
    "icache u = (icache t)(i := (icache t i)\<lparr>addrs := bs\<rparr>)"
    using a b by (auto simp: extends_def)
  then have "icache u = (icache s)(i := (icache s i)\<lparr>addrs := bs\<rparr>)" by simp
  ultimately show ?thesis using f unfolding extends_def by blast
qed

lemma set_data:
  assumes L: "disk_ok s (dev_of s i)" and m: "file_map s i K (NDIRECT < K)" and k: "k < K" and x: "length x = BSIZE"
  defines "s' \<equiv> set_block (dev_of s i) (block_of s i k) x s"
  shows "extends i K s K s'" and "free_set s' (dev_of s i) = free_set s (dev_of s i)"
    and "y < K * BSIZE \<Longrightarrow> file_byte s' i y = (if y div BSIZE = k then x ! (y mod BSIZE) else file_byte s i y)"
proof -
  let ?d = "dev_of s i" and ?a = "block_of s i k"
  have a: "data_block s ?d ?a" using m k by (simp add: file_map_def)
  note ds = disk_ok_set [OF L a x, folded s'_def]
  have ic: "icache s' = icache s" by (simp add: s'_def)
  have ai: "NDIRECT < K \<Longrightarrow> ?a \<noteq> ind_of s i" using m k by (auto simp: file_map_def)
  have bo: "block_of s' i j = block_of s i j" if "j < NDIRECT \<or> NDIRECT < K" for j
    using that ai by (auto simp: block_of_def ic s'_def)
  have bK: "block_of s' i j = block_of s i j" if "j < K" for j using that by (intro bo) auto
  have inj: "inj_on (block_of s' i) {..<K}" using m bK by (auto simp: file_map_def inj_on_def)
  have f: "file_map s' i K (NDIRECT < K)"
    using m inj bK bo unfolding file_map_def ic by (simp add: ds(4))
  have fb: "fblocks s' i K = fblocks s i K"
    unfolding fblocks_def ic using bK by (intro arg_cong2 [where f = insert] image_cong) auto
  have "keeps ?d (fblocks s i K) s s'"
    unfolding s'_def by (rule keeps_set [OF L a x]) (use k in \<open>simp add: fblocks_def\<close>)
  then show "extends i K s K s'"
    using f fb ic by (auto simp: extends_def intro!: exI [of _ "addrs (icache s i)"])
  show "free_set s' ?d = free_set s ?d" by (rule ds(5))
  assume y: "y < K * BSIZE"
  then have yK: "y div BSIZE < K" by (simp add: BSIZE_def less_mult_imp_div_less)
  have "block_of s i (y div BSIZE) = ?a \<longleftrightarrow> y div BSIZE = k"
    using m yK k by (auto simp: file_map_def inj_on_def)
  then show "file_byte s' i y = (if y div BSIZE = k then x ! (y mod BSIZE) else file_byte s i y)"
    unfolding file_byte_def ic bK [OF yK] by (auto simp: s'_def)
qed

lemma file_mapped: "disk_ok s (dev_of s i) \<Longrightarrow> file_map s i K (NDIRECT < K) \<Longrightarrow> mapped s i K"
  unfolding mapped_def file_map_def disk_ok_def wf_blocks_def using data_nonzero by (auto split: if_splits)

text \<open>The block of the next round, old or new.\<close>

lemma bmap_extends:
  assumes L: "disk_ok s (dev_of s i)" and m: "file_map s i K (NDIRECT < K)" and k: "unat bn \<le> K" "unat bn < MAXFILE"
    and f: "cost K (max K (Suc (unat bn))) \<le> card (free_set s (dev_of s i))"
  defines "K1 \<equiv> max K (Suc (unat bn))"
  obtains s1 where "bmap i bn s = Inr (block_of s1 i (unat bn), s1)" "extends i K s K1 s1"
    and "\<And>y. y < K1 * BSIZE \<Longrightarrow> file_byte s1 i y = (if y < K * BSIZE then file_byte s i y else 0)"
    and "card (free_set s1 (dev_of s i)) = card (free_set s (dev_of s i)) - cost K K1"
proof (cases "unat bn < K")
  case True
  then have "K1 = K" "cost K K1 = 0" by (simp_all add: K1_def cost_def)
  then show ?thesis
    using that [of s] bmap_mapped [OF file_mapped [OF L m] True] extends_refl [OF L m] by simp
next
  case False
  then have b: "unat bn = K" "K < MAXFILE" "K1 = Suc K" using k by (simp_all add: K1_def)
  let ?d = "dev_of s i"
  obtain a s1 where a: "bmap i bn s = Inr (a, s1)" "grows i K s (Suc K) (NDIRECT < Suc K) s1" "block_of s1 i K = a"
    "\<not> data_block s ?d a" "blocks s1 ?d a = replicate BSIZE 0" "card (free_set s1 ?d) = card (free_set s ?d) - cost K (Suc K)"
    using bmap_grow [OF L m b(2,1)] f b by auto
  have bo: "block_of s1 i j = block_of s i j" if "j < K" for j using a(2) that by (simp add: grows_def)
  have d: "dev_of s1 i = ?d" by (rule grows_dev [OF a(2)])
  have "keeps ?d (fblocks s i K) s s1" using a(2) by (auto simp: grows_def keeps_def fblocks_def)
  moreover have "\<forall>b \<in> fblocks s1 i (Suc K). b \<in> fblocks s i K \<or> \<not> data_block s ?d b"
    using a(2-4) by (auto simp: grows_def fblocks_def less_Suc_eq)
  ultimately have e: "extends i K s K1 s1" using a(2) by (simp add: extends_def grows_def b)
  have "file_byte s1 i y = (if y < K * BSIZE then file_byte s i y else 0)" if y: "y < K1 * BSIZE" for y
  proof (cases "y < K * BSIZE")
    case True
    then have j: "y div BSIZE < K" by (simp add: BSIZE_def less_mult_imp_div_less)
    then have "data_block s ?d (block_of s i (y div BSIZE))" "block_of s i (y div BSIZE) \<noteq> ind_of s i"
      using m by (auto simp: file_map_def dest: data_nonzero split: if_splits)
    then show ?thesis using a(2) True unfolding file_byte_def d bo [OF j] by (auto simp: grows_def keeps_def)
  next
    case False
    then have "K \<le> y div BSIZE" "y div BSIZE < Suc K"
      using y unfolding b(3) BSIZE_def by (simp_all add: less_eq_div_iff_mult_less_eq less_mult_imp_div_less)
    then have "y div BSIZE = K" by simp
    then show ?thesis using False a(3,5) by (simp add: file_byte_def d) (simp add: BSIZE_def)
  qed
  then show ?thesis using that [of s1] a(1,3,6) e b by simp
qed

lemma cost_add: "K \<le> K1 \<Longrightarrow> K1 \<le> K2 \<Longrightarrow> cost K K2 = cost K K1 + cost K1 K2"
  by (auto simp: cost_def)

definition blocks_for :: "nat \<Rightarrow> nat" where "blocks_for x = (x + 511) div 512"

lemma blocks_for: "x \<le> k * BSIZE \<longleftrightarrow> blocks_for x \<le> k"
proof -
  have "blocks_for x \<le> k \<longleftrightarrow> x + 511 < Suc k * 512"
    using less_Suc_eq_le [of "blocks_for x" k] by (simp add: blocks_for_def div_less_iff_less_mult)
  then show ?thesis by (auto simp: BSIZE_def)
qed

lemma writei_loop_grows:
  "disk_ok s (dev_of s i) \<Longrightarrow> file_map s i K (NDIRECT < K) \<Longrightarrow> tot \<le> n \<Longrightarrow> unat off \<le> K * BSIZE \<Longrightarrow>
    unat off + unat (n - tot) \<le> MAXFILE * BSIZE \<Longrightarrow> unat (n - tot) \<le> fuel \<Longrightarrow> unat (n - tot) \<le> length src \<Longrightarrow>
    K' = max K (blocks_for (unat off + unat (n - tot))) \<Longrightarrow> cost K K' \<le> card (free_set s (dev_of s i)) \<Longrightarrow>
    \<exists>off' s'. writei_loop fuel i src off n tot s = Inr (off', s') \<and> unat off' = unat off + unat (n - tot) \<and>
      extends i K s K' s' \<and>
      (\<forall>y < K' * BSIZE. file_byte s' i y = (if unat off \<le> y \<and> y < unat off + unat (n - tot) then src ! (y - unat off)
         else if y < K * BSIZE then file_byte s i y else 0))"
proof (induction fuel arbitrary: K off tot src s)
  case 0
  then have "\<not> tot < n" "unat (n - tot) = 0" by (metis eq_iff_diff_eq_0 le_zero_eq less_irrefl unat_eq_0)+
  moreover from this have "K' = K" using 0 blocks_for by simp
  ultimately show ?case using 0(1,2) extends_refl by (auto simp: writei_loop.simps)
next
  case (Suc fuel)
  let ?d = "dev_of s i" and ?r = "unat (n - tot)"
  show ?case
  proof (cases "tot < n")
    case False
    then have "?r = 0" using Suc.prems(3) by simp
    moreover from this have "K' = K" using Suc.prems(4,8) blocks_for by simp
    ultimately show ?thesis using False Suc.prems(1,2) extends_refl by (auto simp: writei_loop.simps)
  next
    case True
    have lim: "unat off + ?r < 2 ^ 31"
      using Suc.prems(5) by (simp add: MAXFILE_def NDIRECT_def NINDIRECT_def BSIZE_def)
    define m where "m = chunk n tot off"
    note cf = chunk_facts [OF True lim, folded m_def]
    let ?k = "unat off div BSIZE"
    have bn: "unat (off div 512) = ?k" by (simp add: unat_div_distrib BSIZE_def)
    have r0: "0 < ?r" using cf(1,2) by linarith
    have "unat off < MAXFILE * BSIZE" using Suc.prems(5) r0 by linarith
    then have kM: "?k < MAXFILE" by (simp add: BSIZE_def less_mult_imp_div_less)
    have "?k \<le> K * BSIZE div BSIZE" by (rule div_le_mono [OF Suc.prems(4)])
    then have kK: "?k \<le> K" by (simp add: BSIZE_def)
    define K1 where "K1 = max K (Suc ?k)"
    have off: "unat off = ?k * BSIZE + unat off mod BSIZE" by simp
    have "\<not> unat off + ?r \<le> ?k * BSIZE" using off r0 by linarith
    then have "Suc ?k \<le> blocks_for (unat off + ?r)" unfolding blocks_for by simp
    then have K1': "K \<le> K1" "K1 \<le> K'" "Suc ?k \<le> K1" "K' = max K1 (blocks_for (unat off + ?r))"
      by (auto simp: K1_def Suc.prems(8))
    note ca = cost_add [OF K1'(1,2)]
    obtain s1 where s1: "bmap i (off div 512) s = Inr (block_of s1 i ?k, s1)" "extends i K s K1 s1"
      "\<And>y. y < K1 * BSIZE \<Longrightarrow> file_byte s1 i y = (if y < K * BSIZE then file_byte s i y else 0)"
      "card (free_set s1 ?d) = card (free_set s ?d) - cost K K1"
      using bmap_extends [OF Suc.prems(1,2), of "off div 512"] kK kM Suc.prems(9) ca unfolding bn K1_def by auto
    have d1: "dev_of s1 i = ?d" by (rule extends_dev [OF s1(2)])
    have L1: "disk_ok s1 (dev_of s1 i)" and m1: "file_map s1 i K1 (NDIRECT < K1)"
      using s1(2) by (auto simp: extends_def keeps_def d1)
    let ?b = "blocks s1 ?d (block_of s1 i ?k)"
    define x where "x = splice ?b (unat off mod BSIZE) (take m src)"
    have bl: "length ?b = BSIZE" using L1 by (simp add: disk_ok_def wf_blocks_def d1)
    have ml: "length (take m src) = m" using cf(2) Suc.prems(7) by simp
    have xl: "length x = BSIZE" unfolding x_def using cf(3) ml bl by simp
    define s2 where "s2 = set_block ?d (block_of s1 i ?k) x s1"
    have kK1: "?k < K1" using K1'(3) by simp
    note sd = set_data [OF L1 m1 kK1 xl, unfolded d1, folded s2_def]
    have e2: "extends i K s K1 s2" by (rule extends_trans [OF s1(2) sd(1)])
    have d2: "dev_of s2 i = ?d" by (rule extends_dev [OF e2])
    have L2: "disk_ok s2 (dev_of s2 i)" and m2: "file_map s2 i K1 (NDIRECT < K1)"
      using e2 by (auto simp: extends_def keeps_def d2)
    have "unat off + m \<le> Suc ?k * BSIZE" using off cf(3) unfolding mult_Suc by linarith
    also have "\<dots> \<le> K1 * BSIZE" using K1'(3) by (rule mult_le_mono1)
    finally have om: "unat off + m \<le> K1 * BSIZE" .
    have rr: "unat off + m + (?r - m) = unat off + ?r" using cf(2) by simp
    have pr: "unat off + m + (?r - m) \<le> MAXFILE * BSIZE" "?r - m \<le> fuel" "?r - m \<le> length (drop m src)"
      "K' = max K1 (blocks_for (unat off + m + (?r - m)))" "cost K1 K' \<le> card (free_set s2 (dev_of s2 i))"
      using Suc.prems(5,6,7,9) cf(1,2) K1'(4) s1(4) sd(2) ca unfolding rr d2 by auto
    obtain off' s' where w: "writei_loop fuel i (drop m src) (off + of_nat m) n (tot + of_nat m) s2 = Inr (off', s')"
        "unat off' = unat off + m + (?r - m)" "extends i K1 s2 K' s'"
        "\<forall>y < K' * BSIZE. file_byte s' i y = (if unat off + m \<le> y \<and> y < unat off + m + (?r - m)
           then drop m src ! (y - (unat off + m)) else if y < K1 * BSIZE then file_byte s2 i y else 0)"
      using Suc.IH [OF L2 m2 cf(6), of "off + of_nat m" "drop m src", unfolded cf(4,5), OF om pr] by blast
    have byte: "file_byte s2 i y = (if unat off \<le> y \<and> y < unat off + m then src ! (y - unat off)
        else if y < K * BSIZE then file_byte s i y else 0)" if y: "y < K1 * BSIZE" for y
    proof (cases "y div BSIZE = ?k")
      case False
      then have "\<not> (unat off \<le> y \<and> y < unat off + m)"
        using cf(7) [of "y - unat off"] by (metis add_diff_inverse_nat less_diff_conv2 linorder_not_le add.commute)
      then show ?thesis using sd(3) [OF y] s1(3) [OF y] False by auto
    next
      case True
      have yl: "y mod BSIZE < BSIZE" "unat off mod BSIZE < BSIZE" by (simp_all add: BSIZE_def)
      have ye: "y = ?k * BSIZE + y mod BSIZE" using True by (metis div_mult_mod_eq)
      have "x ! (y mod BSIZE) = (if unat off mod BSIZE \<le> y mod BSIZE \<and> y mod BSIZE < unat off mod BSIZE + m
          then src ! (y mod BSIZE - unat off mod BSIZE) else ?b ! (y mod BSIZE))"
        unfolding x_def using nth_splice [of "unat off mod BSIZE" "take m src" ?b "y mod BSIZE"] bl ml yl cf(3) by auto
      moreover have "unat off mod BSIZE \<le> y mod BSIZE \<longleftrightarrow> unat off \<le> y"
          "y mod BSIZE < unat off mod BSIZE + m \<longleftrightarrow> y < unat off + m" "y mod BSIZE - unat off mod BSIZE = y - unat off"
        using ye off by linarith+
      moreover have "?b ! (y mod BSIZE) = file_byte s1 i y" using True by (simp add: file_byte_def d1)
      ultimately show ?thesis using sd(3) [OF y] s1(3) [OF y] True by simp
    qed
    have "file_byte s' i y = (if unat off \<le> y \<and> y < unat off + ?r then src ! (y - unat off)
        else if y < K * BSIZE then file_byte s i y else 0)" if y: "y < K' * BSIZE" for y
    proof -
      have "drop m src ! (y - (unat off + m)) = src ! (y - unat off)" if "unat off + m \<le> y"
        using that cf(2) Suc.prems(7) by simp
      moreover have "y < K1 * BSIZE" if "y < K * BSIZE"
        using that mult_le_mono1 [OF K1'(1), of BSIZE] by (rule order_less_le_trans)
      ultimately show ?thesis
        using w(4) [rule_format, OF y] byte [of y] om cf(2) by (cases "y < K1 * BSIZE") auto
    qed
    moreover have "writei_loop (Suc fuel) i src off n tot s = Inr (off', s')"
      using True s1(1) w(1) by (simp add: writei_loop.simps [of "Suc fuel"] m_def [symmetric] Let_def x_def s2_def d1)
    ultimately show ?thesis using w(2) extends_trans [OF e2 w(3)] cf(2) by auto
  qed
qed

section \<open>Writing and reading\<close>

text \<open>A file with exactly the blocks of its size, on a well-formed disk, whose inode is up to date there.\<close>

definition file_inv :: "fsys \<Rightarrow> nat \<Rightarrow> bool" where
  "file_inv s i \<longleftrightarrow> disk_ok s (dev_of s i) \<and>
     file_map s i (blocks_for (unat (isize (icache s i)))) (NDIRECT < blocks_for (unat (isize (icache s i)))) \<and>
     inum (icache s i) < ninodes (readsb (dev_of s i) s) \<and> itype (icache s i) \<noteq> T_DEV \<and>
     disk_inode s (dev_of s i) (inum (icache s i)) = dinode_of (icache s i)"

lemma IBLOCK_low:
  assumes "wf_blocks s d" "n < ninodes (readsb d s)"
  shows "IBLOCK n < BBLOCK 0 (ninodes (readsb d s))" and "IBLOCK n \<noteq> 1"
proof -
  have m: "ninodes (readsb d s) < 2 ^ 31" using assms(1) by (simp add: wf_blocks_def)
  have "unat n < 4294967296" using unsigned_less [of n] by simp
  then have "unat n div 8 < 536870912" by linarith
  then have u: "unat (IBLOCK n) = unat n div 8 + 2" by (simp add: IBLOCK_def unat_word_ariths unat_div_distrib)
  have "unat n div 8 \<le> unat (ninodes (readsb d s)) div 8"
    using assms(2) by (intro div_le_mono) (simp add: word_less_nat_alt)
  then show "IBLOCK n < BBLOCK 0 (ninodes (readsb d s))" by (simp add: word_less_nat_alt u BBLOCK_nat [OF m])
  show "IBLOCK n \<noteq> 1" using u by auto
qed

lemma iupdate_disk:
  assumes L: "disk_ok s (dev_of s i)" and n: "inum (icache s i) < ninodes (readsb (dev_of s i) s)"
  shows "disk_ok (iupdate i s) (dev_of s i)" and "readsb (dev_of s i) (iupdate i s) = readsb (dev_of s i) s"
    and "data_block (iupdate i s) (dev_of s i) b = data_block s (dev_of s i) b"
    and "BBLOCK 0 (ninodes (readsb (dev_of s i) s)) \<le> b \<Longrightarrow> blocks (iupdate i s) (dev_of s i) b = blocks s (dev_of s i) b"
    and "free_set (iupdate i s) (dev_of s i) = free_set s (dev_of s i)"
proof -
  let ?d = "dev_of s i" and ?s = "iupdate i s"
  have wf: "wf_blocks s ?d" using L by (simp add: disk_ok_def)
  note ib = IBLOCK_low [OF wf n]
  have hi: "blocks ?s ?d b = blocks s ?d b" if "BBLOCK 0 (ninodes (readsb ?d s)) \<le> b" for b
    using that ib(1) by (intro iupdate_blocks) auto
  have "blocks ?s ?d 1 = blocks s ?d 1" using ib(2) by (intro iupdate_blocks) auto
  then show sb: "readsb ?d ?s = readsb ?d s" by (simp add: readsb_def)
  have "BBLOCK 0 (ninodes (readsb ?d s)) \<le> BBLOCK c (ninodes (readsb ?d s))" for c
    using wf by (intro BBLOCK_mono) (auto simp: wf_blocks_def)
  then have u: "block_used ?s ?d c = block_used s ?d c" for c by (simp add: block_used_def sb hi)
  have lm: "last_meta ?s ?d = last_meta s ?d" by (simp add: last_meta_def sb)
  show "data_block ?s ?d b = data_block s ?d b" for b by (simp add: data_block_def lm sb u)
  show "free_set ?s ?d = free_set s ?d" by (simp add: free_set_def sb u)
  have "length (blocks ?s ?d b) = BSIZE" for b
    using wf by (auto simp: iupdate_def Let_def set_block_def wf_blocks_def put_dinode_def)
  then have "wf_blocks ?s ?d" using wf by (simp add: wf_blocks_def sb)
  moreover have "blocks ?s ?d b = blocks s ?d b" if "\<not> block_used s ?d b" for b
  proof (rule hi)
    have "0 < sb_size (readsb ?d s)" using L by (auto simp: disk_ok_def word_less_nat_alt)
    then have "BBLOCK 0 (ninodes (readsb ?d s)) \<le> last_meta s ?d" by (rule meta_bitmap [OF wf])
    also have "last_meta s ?d < b" using that L by (auto simp: disk_ok_def not_le [symmetric])
    finally show "BBLOCK 0 (ninodes (readsb ?d s)) \<le> b" by simp
  qed
  ultimately show "disk_ok ?s ?d" using L unfolding disk_ok_def lm sb u by auto
  show "BBLOCK 0 (ninodes (readsb ?d s)) \<le> b \<Longrightarrow> blocks ?s ?d b = blocks s ?d b" for b by (rule hi)
qed

lemma blocks_for_mono: "x \<le> y \<Longrightarrow> blocks_for x \<le> blocks_for y"
  by (simp add: blocks_for_def div_le_mono)

text \<open>The last step of \<open>writei\<close> on a file that grew.\<close>

lemma iupdate_file:
  assumes e: "extends i K s K' s1" and inv: "file_inv s i" and sz: "K' = blocks_for (unat z)"
  defines "t \<equiv> upd_inode i (\<lambda>ip. ip\<lparr>isize := z\<rparr>) s1"
  shows "file_inv (iupdate i t) i" and "y < K' * BSIZE \<Longrightarrow> file_byte (iupdate i t) i y = file_byte s1 i y"
    and "data_block s1 (dev_of s i) b \<Longrightarrow> data_block (iupdate i t) (dev_of s i) b \<and>
      blocks (iupdate i t) (dev_of s i) b = blocks s1 (dev_of s i) b"
    and "n < ninodes (readsb (dev_of s i) s) \<Longrightarrow> n \<noteq> inum (icache s i) \<Longrightarrow>
      disk_inode (iupdate i t) (dev_of s i) n = disk_inode s (dev_of s i) n"
    and "isize (icache (iupdate i t) i) = z"
proof -
  let ?d = "dev_of s i" and ?u = "iupdate i t"
  obtain as where as: "icache s1 = (icache s)(i := (icache s i)\<lparr>addrs := as\<rparr>)"
    and f1: "file_map s1 i K' (NDIRECT < K')" and k: "keeps ?d (fblocks s i K) s s1"
    using e by (auto simp: extends_def)
  have ic: "icache t i = (icache s i)\<lparr>addrs := as, isize := z\<rparr>" and bl: "blocks t = blocks s1"
    by (simp_all add: t_def as)
  have db: "data_block t ?d b = data_block s1 ?d b" "disk_ok t ?d = disk_ok s1 ?d" "readsb ?d t = readsb ?d s1" for b
    by (simp_all add: data_block_def last_meta_def readsb_def block_used_def bl disk_ok_def wf_blocks_def)
  have dt: "dev_of t i = ?d" "addrs (icache t i) = as" "inum (icache t i) = inum (icache s i)" by (simp_all add: ic)
  have L: "disk_ok t (dev_of t i)" and n: "inum (icache t i) < ninodes (readsb (dev_of t i) t)"
    using k inv by (auto simp: dt db keeps_def file_inv_def)
  note iu = iupdate_disk [OF L n, unfolded dt(1)]
  have wft: "wf_blocks t ?d" using L by (simp add: disk_ok_def dt)
  have keep: "blocks ?u ?d b = blocks s1 ?d b" if "data_block s1 ?d b" for b
    using iu(4) [of b] data_block_low [OF L, of b] that by (simp add: bl db dt not_less)
  have bo: "block_of ?u i j = block_of s1 i j" if "j < NDIRECT \<or> NDIRECT < K'" for j
    using that keep f1 by (auto simp: block_of_def ic as file_map_def)
  have boK: "block_of ?u i j = block_of s1 i j" if "j < K'" for j using that by (intro bo) auto
  have "inj_on (block_of ?u i) {..<K'}" using f1 boK by (auto simp: file_map_def inj_on_def)
  then have f: "file_map ?u i K' (NDIRECT < K')"
    using f1 bo boK unfolding file_map_def by (cases "NDIRECT < K'") (simp_all add: ic as iu(3) db)
  have la: "length (addrs (icache t i)) = NDIRECT + 1" using f1 by (simp add: file_map_def as ic)
  have lb: "length (blocks t (dev_of t i) (IBLOCK (inum (icache t i)))) = BSIZE" using wft by (simp add: wf_blocks_def dt)
  note di = disk_inode_iupdate [OF la lb, unfolded dt(1,3)]
  show "file_inv ?u i"
    using f iu(1,2) n inv unfolding file_inv_def by (simp add: ic dt di sz)
  show "isize (icache ?u i) = z" by (simp add: ic)
  show "data_block s1 ?d b \<Longrightarrow> data_block ?u ?d b \<and> blocks ?u ?d b = blocks s1 ?d b"
    using keep by (simp add: iu(3) db)
  show "file_byte ?u i y = file_byte s1 i y" if "y < K' * BSIZE"
  proof -
    have "y div BSIZE < K'" using that by (simp add: BSIZE_def less_mult_imp_div_less)
    then show ?thesis using keep f1 boK by (simp add: file_byte_def ic as file_map_def)
  qed
  show "disk_inode ?u ?d n = disk_inode s ?d n" if "n < ninodes (readsb ?d s)" "n \<noteq> inum (icache s i)"
  proof -
    have "wf_blocks s ?d" using inv by (simp add: file_inv_def disk_ok_def)
    then have "blocks s1 ?d (IBLOCK n) = blocks s ?d (IBLOCK n)" using k IBLOCK_low(1) that(1) by (auto simp: keeps_def)
    moreover have "disk_inode ?u ?d n = disk_inode t ?d n" using di that(2) by simp
    ultimately show ?thesis by (simp add: disk_inode_def bl)
  qed
qed

text \<open>What writing at or before the end of a file does; with enough free blocks it always succeeds.\<close>

lemma writei_grows:
  assumes inv: "file_inv s i" and off: "off \<le> isize (icache s i)" and lim: "unat off + length src \<le> MAXFILE * BSIZE"
    and free: "cost (blocks_for (unat (isize (icache s i)))) (blocks_for (unat off + length src)) \<le> card (free_set s (dev_of s i))"
  shows "\<exists>s'. writei dw i src off (of_nat (length src)) s = Inr (int (length src), s') \<and>
    readi dr i off (of_nat (length src)) s' = Inr (Some src, s') \<and> file_inv s' i \<and>
    unat (isize (icache s' i)) = max (unat (isize (icache s i))) (unat off + length src) \<and>
    (\<forall>x < unat (isize (icache s i)). \<not> (unat off \<le> x \<and> x < unat off + length src) \<longrightarrow> file_byte s' i x = file_byte s i x) \<and>
    (\<forall>n < ninodes (readsb (dev_of s i) s). n \<noteq> inum (icache s i) \<longrightarrow> disk_inode s' (dev_of s i) n = disk_inode s (dev_of s i) n) \<and>
    (\<forall>b. data_block s (dev_of s i) b \<and> b \<notin> fblocks s i (blocks_for (unat (isize (icache s i)))) \<longrightarrow>
       data_block s' (dev_of s i) b \<and> blocks s' (dev_of s i) b = blocks s (dev_of s i) b)"
proof -
  let ?ip = "icache s i" and ?d = "dev_of s i" and ?n = "of_nat (length src) :: u32" and ?e = "unat off + length src"
  let ?z = "unat (isize (icache s i))"
  define K where "K = blocks_for ?z"
  have L: "disk_ok s ?d" and m: "file_map s i K (NDIRECT < K)" and dev: "itype ?ip \<noteq> T_DEV"
    using inv by (simp_all add: file_inv_def K_def)
  have small: "?e \<le> 71680" using lim by (simp add: MAXFILE_def NDIRECT_def NINDIRECT_def BSIZE_def)
  then have un: "unat ?n = length src" by (intro unat_of_nat_small) simp
  have uo: "unat (off + ?n) = ?e" using small by (simp add: unat_word_ariths un)
  have guards: "\<not> off > isize ?ip" "\<not> off + ?n < off" "\<not> off + ?n > of_nat (MAXFILE * BSIZE)"
    using off uo small by (simp_all add: word_less_nat_alt word_le_nat_alt MAXFILE_def NDIRECT_def NINDIRECT_def BSIZE_def)
  have zK: "?z \<le> K * BSIZE" unfolding blocks_for K_def by simp
  then have oK: "unat off \<le> K * BSIZE" using off by (simp add: word_le_nat_alt)
  define K' where "K' = max K (blocks_for ?e)"
  have co: "cost K K' \<le> card (free_set s ?d)"
    using free by (auto simp: K'_def K_def max_def cost_def)
  obtain off' s1 where w: "writei_loop (unat ?n) i src off ?n 0 s = Inr (off', s1)" "unat off' = ?e" "extends i K s K' s1"
      "\<forall>y < K' * BSIZE. file_byte s1 i y = (if unat off \<le> y \<and> y < ?e then src ! (y - unat off)
         else if y < K * BSIZE then file_byte s i y else 0)"
    using writei_loop_grows [OF L m, of 0 ?n off "unat ?n" src K'] oK lim un co by (auto simp: K'_def)
  have sn: "sint ?n = int (length src)" using sint_small [of ?n] un small by simp
  have s1sz: "isize (icache s1 i) = isize ?ip" using w(3) by (auto simp: extends_def)
  let ?grow = "?n > 0 \<and> off' > isize ?ip"
  have grow: "?grow \<longleftrightarrow> ?z < ?e"
    using un w(2) off by (auto simp: word_less_nat_alt word_le_nat_alt)
  define s2 where "s2 = (if ?grow then iupdate i (upd_inode i (\<lambda>ip. ip\<lparr>isize := off'\<rparr>) s1) else s1)"
  have wr: "writei dw i src off ?n s = Inr (int (length src), s2)"
    using dev guards w(1) un by (simp add: writei_def Let_def s1sz sn s2_def)
  have "file_inv s2 i \<and> unat (isize (icache s2 i)) = max ?z ?e \<and> (\<forall>y < K' * BSIZE. file_byte s2 i y = file_byte s1 i y) \<and>
    (\<forall>n < ninodes (readsb ?d s). n \<noteq> inum ?ip \<longrightarrow> disk_inode s2 ?d n = disk_inode s ?d n) \<and>
    (\<forall>b. data_block s1 ?d b \<longrightarrow> data_block s2 ?d b \<and> blocks s2 ?d b = blocks s1 ?d b)"
  proof (cases ?grow)
    case True
    then have lt: "?z < ?e" using grow by simp
    then have "K' = blocks_for (unat off')"
      using blocks_for_mono [of ?z ?e] w(2) by (simp add: K'_def K_def)
    note iu = iupdate_file [OF w(3) inv this]
    have "s2 = iupdate i (upd_inode i (\<lambda>ip. ip\<lparr>isize := off'\<rparr>) s1)" unfolding s2_def by (rule if_P [OF True])
    then show ?thesis using iu w(2) lt by simp
  next
    case False
    then have ge: "?e \<le> ?z" using grow by simp
    then have KK: "K' = K" using blocks_for_mono [OF ge] by (simp add: K'_def K_def)
    have "?e \<le> K * BSIZE" using ge zK by linarith
    \<comment> \<open>inside the file the loop does not touch the inode\<close>
    with writei_loop_ok [OF file_mapped [OF L m], of 0 ?n off "unat ?n" src] w(1) un
    have ic: "icache s1 = icache s" by auto
    have k: "keeps ?d (fblocks s i K) s s1" "file_map s1 i K (NDIRECT < K)" using w(3) KK by (auto simp: extends_def)
    have di: "disk_inode s1 ?d n = disk_inode s ?d n" if "n < ninodes (readsb ?d s)" for n
      using k(1) IBLOCK_low(1) [OF _ that] L that by (simp add: disk_inode_def keeps_def disk_ok_def)
    have "file_inv s1 i" using inv k di by (simp add: file_inv_def ic K_def keeps_def)
    moreover have "s2 = s1" unfolding s2_def by (rule if_not_P [OF False])
    ultimately show ?thesis using di ge by (simp add: ic)
  qed
  note r = this
  have d2: "dev_of s2 i = ?d" using w(3) by (auto simp: s2_def extends_def)
  have m2: "mapped s2 i K'" and dev2: "itype (icache s2 i) \<noteq> T_DEV"
  proof -
    have "blocks_for (unat (isize (icache s2 i))) = K'"
      using r blocks_for_mono [of ?z ?e] blocks_for_mono [of ?e ?z]
      by (cases "?z \<le> ?e") (simp_all add: K'_def K_def)
    then show "mapped s2 i K'" "itype (icache s2 i) \<noteq> T_DEV"
      using r file_mapped [of s2 i K'] by (auto simp: file_inv_def)
  qed
  have eK: "?e \<le> K' * BSIZE" unfolding blocks_for by (simp add: K'_def)
  have "map (file_byte s2 i) [unat off..<?e] = src"
    using r w(4) eK by (auto intro!: nth_equalityI)
  then have rd: "readi dr i off ?n s2 = Inr (Some src, s2)"
    using readi_mapped [OF m2 dev2, of off "length src" dr] r eK by simp
  have "file_byte s2 i x = file_byte s i x" if "x < ?z" "\<not> (unat off \<le> x \<and> x < ?e)" for x
  proof -
    have xK: "x < K * BSIZE" using that(1) zK by linarith
    have "K * BSIZE \<le> K' * BSIZE" by (rule mult_le_mono1) (simp add: K'_def)
    with xK have xK': "x < K' * BSIZE" by (rule order_less_le_trans)
    have "file_byte s2 i x = file_byte s1 i x" using r xK' by blast
    then show ?thesis using w(4) [rule_format, OF xK'] xK that(2) by simp
  qed
  moreover have "data_block s2 ?d b \<and> blocks s2 ?d b = blocks s ?d b" if "data_block s ?d b" "b \<notin> fblocks s i K" for b
    using that w(3) r by (auto simp: extends_def keeps_def)
  ultimately show ?thesis using wr rd r unfolding K_def by blast
qed

text \<open>C14: Writing \<open>src\<close> at any offset up to the end of a file, then reading as many bytes there, returns \<open>src\<close>,
  however many blocks have to be allocated for it, provided that so many are free. The file has grown to
  the end of what was written; its other bytes, all other inodes on disk and all blocks in use by others stay; and the
  invariant of file and disk holds again: each block of the file once and marked as used, free blocks zero.\<close>

theorem write_grows_file:
  assumes inv: "file_inv s i" and off: "off \<le> isize (icache s i)" and lim: "unat off + length src \<le> MAXFILE * BSIZE"
    and free: "cost (blocks_for (unat (isize (icache s i)))) (blocks_for (unat off + length src)) \<le> card (free_set s (dev_of s i))"
  shows "\<exists>s'. writei dw i src off (of_nat (length src)) s = Inr (int (length src), s') \<and>
    readi dr i off (of_nat (length src)) s' = Inr (Some src, s') \<and> file_inv s' i \<and>
    unat (isize (icache s' i)) = max (unat (isize (icache s i))) (unat off + length src) \<and>
    (\<forall>x < unat (isize (icache s i)). \<not> (unat off \<le> x \<and> x < unat off + length src) \<longrightarrow> file_byte s' i x = file_byte s i x) \<and>
    (\<forall>n < ninodes (readsb (dev_of s i) s). n \<noteq> inum (icache s i) \<longrightarrow> disk_inode s' (dev_of s i) n = disk_inode s (dev_of s i) n) \<and>
    (\<forall>b. data_block s (dev_of s i) b \<and> b \<notin> fblocks s i (blocks_for (unat (isize (icache s i)))) \<longrightarrow>
       data_block s' (dev_of s i) b \<and> blocks s' (dev_of s i) b = blocks s (dev_of s i) b)"
  by (rule writei_grows [OF assms])

text \<open>An empty file without a name on the small disk, and 7000 bytes written to it, for which 14 blocks and the indirect block are allocated.\<close>

definition empty_file :: inode where
  "empty_file = \<lparr>idev = 1, inum = 5, iref = 1, iflags = 2, itype = T_FILE, major = 0, minor = 0, nlink = 0,
     isize = 0, addrs = replicate 13 0\<rparr>"

definition empty_file_disk :: fsys where
  "empty_file_disk = iupdate 0 (small_disk\<lparr>icache := \<lambda>_. empty_file\<rparr>)"

lemma small_disk_used:
  assumes "b < 40"
  shows "block_used small_disk d b \<longleftrightarrow> b \<le> 4"
proof -
  have b: "unat b < 40" using assms by (simp add: word_less_nat_alt)
  then have bb: "BBLOCK b 8 = 4" by (simp add: word_unat_eq_iff BBLOCK_nat)
  have "bit ((replicate 512 0)[0 := 31 :: u8] ! (unat b div 8)) (unat b mod 8) \<longleftrightarrow> unat b < 5"
  proof (cases "unat b div 8")
    case 0
    then have lt: "unat b < 8" by (simp add: div_eq_0_iff)
    have "(31 :: u8) = mask 5" by (simp add: mask_eq_exp_minus_1)
    then have "bit (31 :: u8) (unat b) \<longleftrightarrow> unat b < 5" by (simp only: bit_mask_iff) auto
    then show ?thesis using lt by simp
  next
    case (Suc k)
    then have "8 \<le> unat b" by (cases "unat b < 8") simp_all
    moreover have "Suc k < 512" using Suc b by linarith
    ultimately show ?thesis by (simp add: Suc)
  qed
  then show ?thesis
    using b unfolding block_used_def small_disk_sb superblock.simps bb
    by (auto simp: bit_free_iff small_disk_def BPB_def word_le_nat_alt)
qed

lemma empty_file_inv:
  "file_inv empty_file_disk 0" "dev_of empty_file_disk 0 = 1" "isize (icache empty_file_disk 0) = 0"
  "15 \<le> card (free_set empty_file_disk 1)"
proof -
  let ?s = "small_disk\<lparr>icache := \<lambda>_. empty_file\<rparr>"
  have same: "readsb d ?s = readsb d small_disk" "block_used ?s d b = block_used small_disk d b"
    "wf_blocks ?s d = wf_blocks small_disk d" "blocks ?s = blocks small_disk" for d b
    by (simp_all add: readsb_def block_used_def wf_blocks_def)
  have lm: "last_meta ?s 1 = 4"
    by (simp add: last_meta_def same small_disk_sb word_unat_eq_iff BBLOCK_nat)
  have used: "block_used ?s 1 b \<longleftrightarrow> b \<le> 4" if "b < 40" for b using small_disk_used [OF that] by (simp add: same)
  have L: "disk_ok ?s 1"
    unfolding disk_ok_def lm same(1) small_disk_sb superblock.simps same(3)
  proof (intro conjI allI impI)
    show "block_used ?s 1 b" if "b \<le> 4" for b
      using that used by (simp add: word_less_nat_alt word_le_nat_alt)
    show "blocks ?s 1 b = replicate BSIZE 0" if "b < 40" "\<not> block_used ?s 1 b" for b
      using that used by (auto simp: same small_disk_def BSIZE_def)
  qed (simp_all add: small_disk_wf)
  have f: "file_map ?s 0 0 False"
    by (simp add: file_map_def empty_file_def block_of_def NDIRECT_def)
  have d: "dev_of ?s 0 = 1" "inum (icache ?s 0) = 5" by (simp_all add: empty_file_def)
  have n: "inum (icache ?s 0) < ninodes (readsb (dev_of ?s 0) ?s)" using d by (simp add: same small_disk_sb)
  note iu = iupdate_disk [of ?s 0, unfolded d(1), OF L n [unfolded d(1)]]
  have ic: "icache empty_file_disk 0 = empty_file" by (simp add: empty_file_disk_def)
  have "length (addrs (icache ?s 0)) = NDIRECT + 1" "length (blocks ?s (dev_of ?s 0) (IBLOCK (inum (icache ?s 0)))) = BSIZE"
    using small_disk_wf by (simp_all add: empty_file_def NDIRECT_def same wf_blocks_def)
  from disk_inode_iupdate [OF this] have di: "disk_inode empty_file_disk 1 5 = dinode_of empty_file"
    by (simp add: empty_file_disk_def empty_file_def)
  have "file_map empty_file_disk 0 0 False"
    by (simp add: file_map_def ic empty_file_def block_of_def NDIRECT_def)
  then show "file_inv empty_file_disk 0"
    using iu(1,2) n di by (simp add: file_inv_def ic d empty_file_disk_def [symmetric])
      (simp add: empty_file_def blocks_for_def T_FILE_def T_DEV_def same small_disk_sb)
  show "dev_of empty_file_disk 0 = 1" "isize (icache empty_file_disk 0) = 0" by (simp_all add: ic empty_file_def)
  have "{5, 6, 7, 8, 9, 10, 11, 12, 13, 14, 15, 16, 17, 18, 19} \<subseteq> free_set ?s 1"
    using used by (auto simp: free_set_def same small_disk_sb)
  from card_mono [OF _ this] have "15 \<le> card (free_set ?s 1)" by simp
  moreover have "free_set empty_file_disk 1 = free_set ?s 1" using iu(5) by (simp add: empty_file_disk_def)
  ultimately show "15 \<le> card (free_set empty_file_disk 1)" by simp
qed

theorem write_grows_file_witness:
  "\<exists>s'. writei (\<lambda>_. None) 0 (replicate 7000 7) 0 7000 empty_file_disk = Inr (7000, s') \<and>
    readi (\<lambda>_. None) 0 0 7000 s' = Inr (Some (replicate 7000 7), s') \<and> unat (isize (icache s' 0)) = 7000"
proof -
  have "cost (blocks_for 0) (blocks_for (unat (0 :: u32) + length (replicate 7000 (7 :: u8)))) = 15"
    by (simp add: cost_def blocks_for_def NDIRECT_def)
  then show ?thesis
    using write_grows_file [OF empty_file_inv(1), of 0 "replicate 7000 7" "\<lambda>_. None" "\<lambda>_. None"] empty_file_inv(2-4)
    by (auto simp: MAXFILE_def NDIRECT_def NINDIRECT_def BSIZE_def)
qed

section \<open>Truncating\<close>

definition frees :: "u32 \<Rightarrow> u32 set \<Rightarrow> fsys \<Rightarrow> fsys \<Rightarrow> bool" where
  \<comment> \<open>the blocks in \<open>B\<close> have become free, and nothing else changed\<close>
  "frees d B s s' \<longleftrightarrow> disk_ok s' d \<and> readsb d s' = readsb d s \<and> icache s' = icache s \<and>
     free_set s' d = free_set s d \<union> B \<and> (\<forall>c. data_block s' d c \<longleftrightarrow> data_block s d c \<and> c \<notin> B) \<and>
     (\<forall>c. data_block s d c \<and> c \<notin> B \<longrightarrow> blocks s' d c = blocks s d c) \<and>
     (\<forall>b < BBLOCK 0 (ninodes (readsb d s)). blocks s' d b = blocks s d b)"

lemma frees_refl: "disk_ok s d \<Longrightarrow> frees d {} s s"
  by (simp add: frees_def)

lemma frees_trans: "frees d B s t \<Longrightarrow> frees d C t u \<Longrightarrow> frees d (B \<union> C) s u"
  unfolding frees_def by (elim conjE) (intro conjI; simp; blast)

lemma bfree_disk:
  assumes L: "disk_ok s d" and b: "data_block s d b"
  shows "\<exists>s'. bfree d b s = Inr s' \<and> frees d {b} s s'"
proof -
  let ?sz = "sb_size (readsb d s)" and ?bb = "BBLOCK b (ninodes (readsb d s))"
  let ?s1 = "bzero d b s"
  have wf: "wf_blocks s d" and bl: "last_meta s d < b" "b < ?sz" "block_used s d b"
    using L b by (auto simp: disk_ok_def data_block_def)
  have n: "ninodes (readsb d s) < 2 ^ 31" using wf by (simp add: wf_blocks_def)
  have z: "length (replicate BSIZE (0 :: u8)) = BSIZE" by simp
  note ds = disk_ok_set [OF L b z, folded bzero_def]
  have wf1: "wf_blocks ?s1 d" using ds(1) by (simp add: disk_ok_def)
  have bm: "?bb \<le> last_meta s d" by (rule meta_bitmap [OF wf bl(2)])
  then have bb: "?bb \<noteq> b" using bl(1) by auto
  have bb1: "?bb \<noteq> 1" by (rule BBLOCK_not_super [OF n])
  define s2 where "s2 = set_block d ?bb (mark_free (blocks ?s1 d ?bb) (unat b mod BPB)) ?s1"
  have "blocks ?s1 d ?bb = blocks s d ?bb" using bb by (simp add: bzero_def)
  then have "bfree d b s = Inr s2"
    using bl(3) by (simp add: bfree_def Let_def ds(2) s2_def block_used_def)
  have sb: "readsb d s2 = readsb d s" unfolding s2_def by (simp add: readsb_set [OF bb1] ds(2))
  have lm: "last_meta s2 d = last_meta s d" by (simp add: last_meta_def sb)
  have u: "block_used s2 d c \<longleftrightarrow> c \<noteq> b \<and> block_used s d c" if "c < ?sz" for c
    using block_used_mark(2) [OF wf1, of b c] ds(3) [OF that] by (simp add: s2_def ds(2))
  have wf2: "wf_blocks s2 d"
    unfolding s2_def by (rule wf_blocks_set [OF wf1 _ bb1]) (use wf1 in \<open>simp add: wf_blocks_def mark_free_def\<close>)
  have bs: "blocks s2 d c = (if c = b then replicate BSIZE 0 else blocks s d c)" if "c \<noteq> ?bb" for c
    using that by (simp add: s2_def bzero_def)
  have hi: "c \<noteq> ?bb" if "last_meta s d < c" for c using that bm by auto
  have fs: "free_set s2 d = free_set s d \<union> {b}" unfolding free_set_def sb using u bl(2) by auto
  have db: "data_block s2 d c \<longleftrightarrow> data_block s d c \<and> c \<notin> {b}" for c
    unfolding data_block_def lm sb using u by auto
  have meta: "c < ?sz" if "c \<le> last_meta s d" for c using that bl(1,2) by (auto simp: word_le_nat_alt word_less_nat_alt)
  have "disk_ok s2 d"
    unfolding disk_ok_def lm sb
  proof (intro conjI allI impI)
    show "block_used s2 d c" if "c \<le> last_meta s d" for c
      using u [OF meta [OF that]] that bl(1) L by (auto simp: disk_ok_def)
    show "blocks s2 d c = replicate BSIZE 0" if "c < ?sz" "\<not> block_used s2 d c" for c
    proof (cases "c = b")
      case True
      then show ?thesis using bs [of c] bb by auto
    next
      case False
      then have nu: "\<not> block_used s d c" using u that by blast
      then have "last_meta s d < c" using L by (auto simp: disk_ok_def not_le [symmetric])
      then show ?thesis using bs [OF hi] nu that(1) L False by (simp add: disk_ok_def)
    qed
  qed (use wf2 L in \<open>simp_all add: disk_ok_def\<close>)
  moreover have "blocks s2 d c = blocks s d c" if "data_block s d c" "c \<notin> {b}" for c
    using bs [OF hi] that by (simp add: data_block_def)
  moreover have "blocks s2 d c = blocks s d c" if "c < BBLOCK 0 (ninodes (readsb d s))" for c
  proof -
    have "BBLOCK 0 (ninodes (readsb d s)) \<le> ?bb" by (rule BBLOCK_mono [OF n]) simp
    then have "c \<noteq> ?bb" "c \<noteq> b" using that data_block_low [OF L b] by auto
    then show ?thesis by (simp add: bs)
  qed
  moreover have "icache s2 = icache s" by (simp add: s2_def bzero_def)
  ultimately have "frees d {b} s s2" unfolding frees_def sb using fs db by blast
  then show ?thesis using \<open>bfree d b s = Inr s2\<close> by blast
qed

lemma free_blocks_disk:
  "disk_ok s d \<Longrightarrow> \<forall>a \<in> set as. a = 0 \<or> data_block s d a \<Longrightarrow> distinct (filter (\<lambda>a. a \<noteq> 0) as) \<Longrightarrow>
    \<exists>s'. free_blocks d as s = Inr s' \<and> frees d (set as - {0}) s s'"
proof (induction as arbitrary: s)
  case Nil
  then show ?case by (simp add: frees_refl)
next
  case (Cons a as)
  show ?case
  proof (cases "a = 0")
    case True
    then show ?thesis using Cons by simp
  next
    case False
    obtain s1 where s1: "bfree d a s = Inr s1" "frees d {a} s s1"
      using bfree_disk [OF Cons.prems(1), of a] Cons.prems(2) False by auto
    have "\<forall>b \<in> set as. b = 0 \<or> data_block s1 d b"
      using Cons.prems(2,3) False s1(2) by (auto simp: frees_def)
    then obtain s2 where s2: "free_blocks d as s1 = Inr s2" "frees d (set as - {0}) s1 s2"
      using Cons.IH [of s1] s1(2) Cons.prems(3) False by (auto simp: frees_def)
    have "set (a # as) - {0} = {a} \<union> (set as - {0})" using False by auto
    then show ?thesis using frees_trans [OF s1(2) s2(2)] s1(1) s2(1) False by simp
  qed
qed

lemma icache_irrelevant [simp]:
  "disk_ok (s\<lparr>icache := f\<rparr>) d = disk_ok s d" "data_block (s\<lparr>icache := f\<rparr>) d b = data_block s d b"
  "free_set (s\<lparr>icache := f\<rparr>) d = free_set s d" "readsb d (s\<lparr>icache := f\<rparr>) = readsb d s"
  by (simp_all add: disk_ok_def data_block_def free_set_def last_meta_def readsb_def block_used_def wf_blocks_def)

lemma frees_icache: "frees d B s t \<Longrightarrow> frees d B (s\<lparr>icache := f\<rparr>) (t\<lparr>icache := f\<rparr>)"
  by (simp add: frees_def)

lemma file_map_addrs:
  assumes "file_map s i K (NDIRECT < K)"
  shows "take NDIRECT (addrs (icache s i)) = map (block_of s i) [0..<NDIRECT]"
    and "NDIRECT < K \<Longrightarrow> ld32s (blocks s (dev_of s i) (ind_of s i)) 0 NINDIRECT = map (block_of s i) [NDIRECT..<MAXFILE]"
    and "k < K \<Longrightarrow> block_of s i k \<noteq> 0" and "k < NDIRECT \<or> NDIRECT < K \<Longrightarrow> k < MAXFILE \<Longrightarrow> K \<le> k \<Longrightarrow> block_of s i k = 0"
    and "r \<le> MAXFILE \<Longrightarrow> r \<le> NDIRECT \<or> NDIRECT < K \<Longrightarrow> distinct (filter (\<lambda>a. a \<noteq> 0) (map (block_of s i) [l..<r]))"
proof -
  have len: "length (addrs (icache s i)) = NDIRECT + 1" using assms by (simp add: file_map_def)
  show "take NDIRECT (addrs (icache s i)) = map (block_of s i) [0..<NDIRECT]"
    by (rule nth_equalityI) (use len in \<open>simp_all add: block_of_def\<close>)
  show "ld32s (blocks s (dev_of s i) (ind_of s i)) 0 NINDIRECT = map (block_of s i) [NDIRECT..<MAXFILE]"
    by (rule nth_equalityI) (simp_all add: ld32s_def block_of_def MAXFILE_def)
  show nz: "block_of s i k \<noteq> 0" if "k < K" for k using assms that data_nonzero by (auto simp: file_map_def)
  show z: "block_of s i k = 0" if "k < NDIRECT \<or> NDIRECT < K" "k < MAXFILE" "K \<le> k" for k
    using assms that by (auto simp: file_map_def)
  assume that: "r \<le> MAXFILE" "r \<le> NDIRECT \<or> NDIRECT < K"
  have "filter (\<lambda>a. a \<noteq> 0) (map (block_of s i) [l..<r]) = map (block_of s i) (filter (\<lambda>k. k < K) [l..<r])"
  proof -
    have "block_of s i k \<noteq> 0 \<longleftrightarrow> k < K" if "k < r" for k
      using nz [of k] z [of k] that \<open>r \<le> MAXFILE\<close> \<open>r \<le> NDIRECT \<or> NDIRECT < K\<close> by (cases "k < K") auto
    then have "filter ((\<lambda>a. a \<noteq> 0) \<circ> block_of s i) [l..<r] = filter (\<lambda>k. k < K) [l..<r]"
      by (intro filter_cong) auto
    then show ?thesis by (simp add: filter_map)
  qed
  moreover have "inj_on (block_of s i) (set (filter (\<lambda>k. k < K) [l..<r]))"
    using assms by (auto simp: file_map_def intro: inj_on_subset)
  ultimately show "distinct (filter (\<lambda>a. a \<noteq> 0) (map (block_of s i) [l..<r]))" by (simp add: distinct_map)
qed

text \<open>The blocks that \<open>itrunc\<close> frees, up to the update of the inode.\<close>

lemma itrunc_blocks:
  assumes L: "disk_ok s (dev_of s i)" and m: "file_map s i K (NDIRECT < K)"
  shows "\<exists>t. itrunc i s = Inr (iupdate i t) \<and>
    icache t = (icache s)(i := (icache s i)\<lparr>addrs := replicate (NDIRECT + 1) 0, isize := 0\<rparr>) \<and>
    frees (dev_of s i) (fblocks s i K - {0}) (s\<lparr>icache := icache t\<rparr>) t"
proof -
  let ?d = "dev_of s i" and ?as = "addrs (icache s i)" and ?ind = "ind_of s i"
  note fa = file_map_addrs [OF m]
  have len: "length ?as = NDIRECT + 1" using m by (simp add: file_map_def)
  have dat: "block_of s i k = 0 \<or> data_block s ?d (block_of s i k)" if "k < MAXFILE" "k < NDIRECT \<or> NDIRECT < K" for k
    using m fa(4) [OF that(2,1)] by (cases "k < K") (auto simp: file_map_def)
  have "\<forall>a \<in> set (take NDIRECT ?as). a = 0 \<or> data_block s ?d a" "distinct (filter (\<lambda>a. a \<noteq> 0) (take NDIRECT ?as))"
    unfolding fa(1) using dat fa(5) [of NDIRECT 0] by (auto simp: MAXFILE_def)
  from free_blocks_disk [OF L this] obtain s1 where
    s1: "free_blocks ?d (take NDIRECT ?as) s = Inr s1" "frees ?d (set (take NDIRECT ?as) - {0}) s s1" by blast
  define f where "f = (icache s)(i := (icache s i)\<lparr>addrs := replicate NDIRECT 0 @ drop NDIRECT ?as\<rparr>)"
  define s2 where "s2 = s1\<lparr>icache := f\<rparr>"
  have ic1: "icache s1 = icache s" using s1(2) by (simp add: frees_def)
  have dr: "drop NDIRECT ?as = [?ind]"
    using len by (intro nth_equalityI) simp_all
  show ?thesis
  proof (cases "NDIRECT < K")
    case False
    then have z: "?ind = 0" using m by (simp add: file_map_def)
    define t where "t = upd_inode i (\<lambda>ip. ip\<lparr>isize := 0\<rparr>) s2"
    have it: "icache t = (icache s)(i := (icache s i)\<lparr>addrs := replicate (NDIRECT + 1) 0, isize := 0\<rparr>)"
      by (simp add: t_def s2_def f_def dr z replicate_append_same [symmetric])
    have "itrunc i s = Inr (iupdate i t)"
      using s1(1) z by (simp add: itrunc_def Let_def t_def s2_def f_def ic1)
    moreover have "fblocks s i K - {0} = set (take NDIRECT ?as) - {0}"
      unfolding fblocks_def fa(1) using False fa(4) z by (auto simp: MAXFILE_def not_less image_iff) (metis lessThan_iff not_less)
    moreover have "t = s1\<lparr>icache := icache t\<rparr>" by (simp add: t_def s2_def)
    ultimately show ?thesis using it frees_icache [OF s1(2), of "icache t"] by metis
  next
    case True
    have ind: "data_block s ?d ?ind" "?ind \<noteq> 0" "\<forall>k < K. block_of s i k \<noteq> ?ind"
      using m True data_nonzero by (auto simp: file_map_def)
    have nin: "block_of s i k \<noteq> ?ind" if "k < MAXFILE" for k
      using ind(2,3) fa(4) [of k] that True by (cases "k < K") auto
    have "?ind \<notin> set (take NDIRECT ?as)"
    proof
      assume "?ind \<in> set (take NDIRECT ?as)"
      then obtain k where "k < NDIRECT" "?ind = block_of s i k" unfolding fa(1) by auto
      then show False using nin [of k] by (simp add: MAXFILE_def)
    qed
    then have ind1: "data_block s1 ?d ?ind" "blocks s1 ?d ?ind = blocks s ?d ?ind"
      using s1(2) ind(1) by (simp_all add: frees_def)
    let ?es = "ld32s (blocks s2 ?d ?ind) 0 NINDIRECT"
    have es: "?es = map (block_of s i) [NDIRECT..<MAXFILE]"
      using fa(2) [OF True] by (simp add: s2_def ind1(2))
    have L2: "disk_ok s2 ?d" using s1(2) by (simp add: s2_def frees_def)
    have dis: "block_of s i k \<notin> set (take NDIRECT ?as) - {0}" if "NDIRECT \<le> k" "k < MAXFILE" for k
    proof (cases "k < K")
      case kK: True
      have "block_of s i k \<noteq> block_of s i j" if "j \<in> {0..<NDIRECT}" for j
      proof -
        have "inj_on (block_of s i) {..<K}" using m by (simp add: file_map_def)
        from inj_onD [OF this, of k j] show ?thesis using kK that True \<open>NDIRECT \<le> k\<close> by auto
      qed
      then show ?thesis unfolding fa(1) set_map set_upt by blast
    next
      case False
      then show ?thesis using fa(4) [of k] that True by simp
    qed
    have "\<forall>a \<in> set ?es. a = 0 \<or> data_block s2 ?d a"
      unfolding es using dat dis True s1(2) by (auto simp: s2_def frees_def)
    moreover have "distinct (filter (\<lambda>a. a \<noteq> 0) ?es)" unfolding es using fa(5) True by blast
    ultimately obtain s3 where s3: "free_blocks ?d ?es s2 = Inr s3" "frees ?d (set ?es - {0}) s2 s3"
      using free_blocks_disk [OF L2] by blast
    have "data_block s3 ?d ?ind"
      using s3(2) ind1(1) nin unfolding frees_def es by (auto simp: s2_def)
    moreover have "disk_ok s3 ?d" using s3(2) by (simp add: frees_def)
    ultimately obtain s4 where s4: "bfree ?d ?ind s3 = Inr s4" "frees ?d {?ind} s3 s4" using bfree_disk by blast
    define t where "t = upd_inode i (\<lambda>ip. ip\<lparr>isize := 0\<rparr>) (upd_inode i (\<lambda>ip. ip\<lparr>addrs := (addrs ip)[NDIRECT := 0]\<rparr>) s4)"
    have ic4: "icache s4 = f" using s3(2) s4(2) by (simp add: frees_def s2_def)
    have it: "icache t = (icache s)(i := (icache s i)\<lparr>addrs := replicate (NDIRECT + 1) 0, isize := 0\<rparr>)"
      by (simp add: t_def ic4 f_def dr list_update_append replicate_append_same [symmetric])
    have "itrunc i s = Inr (iupdate i t)"
      using s1(1) s3(1) s4(1) ind(2) by (simp add: itrunc_def Let_def t_def s2_def f_def ic1)
    moreover have "frees ?d (set (take NDIRECT ?as) - {0}) (s\<lparr>icache := f\<rparr>) s2"
      unfolding s2_def by (rule frees_icache [OF s1(2)])
    from frees_trans [OF frees_trans [OF this s3(2)] s4(2)]
    have "frees ?d (fblocks s i K - {0}) (s\<lparr>icache := f\<rparr>) s4"
    proof (rule back_subst [where P = "\<lambda>B. frees ?d B (s\<lparr>icache := f\<rparr>) s4"])
      have "[0..<MAXFILE] = [0..<NDIRECT] @ [NDIRECT..<MAXFILE]"
        using upt_add_eq_append [of 0 NDIRECT NINDIRECT] by (simp add: MAXFILE_def)
      then have "set (take NDIRECT ?as) \<union> set ?es = block_of s i ` {..<MAXFILE}"
        unfolding es fa(1) by (metis atLeast_upt image_Un list.set_map set_append)
      moreover have "block_of s i ` {..<MAXFILE} - {0} = block_of s i ` {..<K} - {0}"
        using fa(4) True m by (auto simp: file_map_def image_iff) (metis lessThan_iff not_less)
      ultimately have "set (take NDIRECT ?as) - {0} \<union> (set ?es - {0}) = block_of s i ` {..<K} - {0}"
        by (simp only: Un_Diff [symmetric])
      moreover have "insert ?ind (block_of s i ` {..<K}) - {0} = (block_of s i ` {..<K} - {0}) \<union> {?ind}" using ind(2) by auto
      ultimately show "set (take NDIRECT ?as) - {0} \<union> (set ?es - {0}) \<union> {?ind} = fblocks s i K - {0}"
        by (simp only: fblocks_def)
    qed
    from frees_icache [OF this, of "icache t"] have "frees ?d (fblocks s i K - {0}) (s\<lparr>icache := icache t\<rparr>) t"
      by (simp add: t_def)
    ultimately show ?thesis using it by blast
  qed
qed

lemma same_map:
  assumes "addrs (f i) = addrs (icache s i)" "idev (f i) = idev (icache s i)"
  shows "file_map (s\<lparr>icache := f\<rparr>) i K J = file_map s i K J" and "fblocks (s\<lparr>icache := f\<rparr>) i K = fblocks s i K"
proof -
  have b: "block_of (s\<lparr>icache := f\<rparr>) i = block_of s i" by (rule ext) (simp add: assms block_of_def)
  show "file_map (s\<lparr>icache := f\<rparr>) i K J = file_map s i K J" using assms by (simp add: file_map_def b)
  show "fblocks (s\<lparr>icache := f\<rparr>) i K = fblocks s i K" using assms by (simp add: fblocks_def b)
qed

text \<open>The update of an inode with its number on the disk, in terms of what is used.\<close>

lemma iupdate_frees:
  assumes f: "frees d B s t" and d: "dev_of t i = d" and n: "inum (icache t i) < ninodes (readsb d s)"
    and len: "length (addrs (icache t i)) = NDIRECT + 1"
  shows "disk_ok (iupdate i t) d" and "readsb d (iupdate i t) = readsb d s" and "free_set (iupdate i t) d = free_set s d \<union> B"
    and "data_block (iupdate i t) d b \<longleftrightarrow> data_block s d b \<and> b \<notin> B"
    and "data_block s d b \<Longrightarrow> b \<notin> B \<Longrightarrow> blocks (iupdate i t) d b = blocks s d b"
    and "m < ninodes (readsb d s) \<Longrightarrow> disk_inode (iupdate i t) d m =
      (if m = inum (icache t i) then dinode_of (icache t i) else disk_inode s d m)"
proof -
  have L: "disk_ok t (dev_of t i)" and n': "inum (icache t i) < ninodes (readsb (dev_of t i) t)"
    using f n d by (auto simp: frees_def)
  note iu = iupdate_disk [OF L n', unfolded d]
  show "disk_ok (iupdate i t) d" "readsb d (iupdate i t) = readsb d s" "free_set (iupdate i t) d = free_set s d \<union> B"
    "data_block (iupdate i t) d b \<longleftrightarrow> data_block s d b \<and> b \<notin> B"
    using iu(1,2,3,5) f by (auto simp: frees_def)
  have wf: "wf_blocks t d" using L d by (simp add: disk_ok_def)
  show "blocks (iupdate i t) d b = blocks s d b" if "data_block s d b" "b \<notin> B"
  proof -
    have "data_block t d b" "blocks t d b = blocks s d b" using f that by (auto simp: frees_def)
    then show ?thesis using iu(4) [of b] data_block_low [of t d b] L d by (simp add: not_less)
  qed
  assume m: "m < ninodes (readsb d s)"
  have "length (blocks t (dev_of t i) (IBLOCK (inum (icache t i)))) = BSIZE" using wf d by (simp add: wf_blocks_def)
  from disk_inode_iupdate [OF len this]
  have "disk_inode (iupdate i t) d m = (if m = inum (icache t i) then dinode_of (icache t i) else disk_inode t d m)"
    by (simp add: d)
  moreover have "disk_inode t d m = disk_inode s d m"
  proof -
    have "IBLOCK m < BBLOCK 0 (ninodes (readsb d s))" using IBLOCK_low(1) [OF wf, of m] m f by (simp add: frees_def)
    then show ?thesis using f by (simp add: disk_inode_def frees_def)
  qed
  ultimately show "disk_inode (iupdate i t) d m =
      (if m = inum (icache t i) then dinode_of (icache t i) else disk_inode s d m)" by simp
qed

lemma disk_inode_icache [simp]: "disk_inode (s\<lparr>icache := f\<rparr>) d n = disk_inode s d n"
  by (simp add: disk_inode_def)

text \<open>C15: When the last reference to a file without a name goes, the file is gone: its inode is free on the disk, its
  blocks, data and indirect, are free and zero, and no other block has become free; other inodes and the blocks in
  use by others are unchanged, and the invariant of the disk holds.\<close>

theorem last_iput_frees_file:
  assumes inv: "file_inv s i" and ref: "iref (icache s i) = 1" "nlink (icache s i) = 0"
    and flags: "iflags (icache s i) AND I_VALID \<noteq> 0" "iflags (icache s i) AND I_BUSY = 0"
  shows "\<exists>s'. iput i s = Inr s' \<and> disk_ok s' (dev_of s i) \<and> iref (icache s' i) = 0 \<and> (\<forall>j. j \<noteq> i \<longrightarrow> icache s' j = icache s j) \<and>
    d_type (disk_inode s' (dev_of s i) (inum (icache s i))) = 0 \<and>
    free_set s' (dev_of s i) = free_set s (dev_of s i) \<union> (fblocks s i (blocks_for (unat (isize (icache s i)))) - {0}) \<and>
    (\<forall>b \<in> fblocks s i (blocks_for (unat (isize (icache s i)))) - {0}. blocks s' (dev_of s i) b = replicate BSIZE 0) \<and>
    (\<forall>n < ninodes (readsb (dev_of s i) s). n \<noteq> inum (icache s i) \<longrightarrow> disk_inode s' (dev_of s i) n = disk_inode s (dev_of s i) n) \<and>
    (\<forall>b. data_block s (dev_of s i) b \<and> b \<notin> fblocks s i (blocks_for (unat (isize (icache s i)))) \<longrightarrow>
       data_block s' (dev_of s i) b \<and> blocks s' (dev_of s i) b = blocks s (dev_of s i) b)"
proof -
  let ?d = "dev_of s i" and ?n = "inum (icache s i)"
  define K where "K = blocks_for (unat (isize (icache s i)))"
  define B where "B = fblocks s i K - {0}"
  define f where "f = (icache s)(i := (icache s i)\<lparr>iflags := iflags (icache s i) OR I_BUSY\<rparr>)"
  have L: "disk_ok s ?d" and m: "file_map s i K (NDIRECT < K)" and n: "?n < ninodes (readsb ?d s)"
    using inv by (simp_all add: file_inv_def K_def)
  have fi: "addrs (f i) = addrs (icache s i)" "idev (f i) = ?d" "inum (f i) = ?n" by (simp_all add: f_def)
  obtain t where t: "itrunc i (s\<lparr>icache := f\<rparr>) = Inr (iupdate i t)"
    "icache t = f(i := (f i)\<lparr>addrs := replicate (NDIRECT + 1) 0, isize := 0\<rparr>)"
    "frees ?d B (s\<lparr>icache := icache t\<rparr>) t"
    using itrunc_blocks [of "s\<lparr>icache := f\<rparr>" i K] L m fi by (auto simp: same_map B_def)
  have ti: "dev_of t i = ?d" "inum (icache t i) = ?n" "length (addrs (icache t i)) = NDIRECT + 1"
    by (simp_all add: t(2) fi)
  have n': "inum (icache t i) < ninodes (readsb ?d (s\<lparr>icache := icache t\<rparr>))" using n by (simp add: ti)
  note a = iupdate_frees [OF t(3) ti(1) n' ti(3)]
  define u where "u = upd_inode i (\<lambda>ip. ip\<lparr>itype := 0\<rparr>) (iupdate i t)"
  have ui: "dev_of u i = ?d" "inum (icache u i) = ?n" "length (addrs (icache u i)) = NDIRECT + 1" "itype (icache u i) = 0"
    using ti by (simp_all add: u_def)
  have un: "inum (icache u i) < ninodes (readsb ?d u)" using n a(2) by (simp add: u_def ti)
  have Lu: "disk_ok u ?d" using a(1) by (simp add: u_def)
  note b = iupdate_frees [OF frees_refl [OF Lu] ui(1) un ui(3)]
  define s' where "s' = upd_inode i (\<lambda>ip. ip\<lparr>iref := iref ip - 1\<rparr>) (upd_inode i (\<lambda>ip. ip\<lparr>iflags := 0\<rparr>) (iupdate i u))"
  have "upd_inode i (\<lambda>ip. ip\<lparr>iflags := iflags ip OR I_BUSY\<rparr>) s = s\<lparr>icache := f\<rparr>" by (simp add: f_def)
  then have "iput i s = Inr s'"
    using ref flags t(1) by (simp add: iput_def Let_def s'_def u_def)
  moreover have "iref (icache s' i) = 0" "\<forall>j. j \<noteq> i \<longrightarrow> icache s' j = icache s j"
    using ref by (simp_all add: s'_def u_def t(2) f_def)
  moreover have fs: "free_set s' ?d = free_set s ?d \<union> B" using a(3) b(3) by (simp add: s'_def u_def)
  moreover have L': "disk_ok s' ?d" using b(1) by (simp add: s'_def)
  moreover have "d_type (disk_inode s' ?d ?n) = 0"
    using b(6) [of ?n] un by (simp add: s'_def ui dinode_of_def)
  moreover have "disk_inode s' ?d k = disk_inode s ?d k" if "k < ninodes (readsb ?d s)" "k \<noteq> ?n" for k
    using a(6) [of k] b(6) [of k] that a(2) by (simp add: s'_def u_def ti)
  moreover have "data_block s' ?d c \<and> blocks s' ?d c = blocks s ?d c" if "data_block s ?d c" "c \<notin> fblocks s i K" for c
    using a(4,5) [of c] b(4,5) [of c] that by (simp add: s'_def u_def B_def)
  moreover have "blocks s' ?d c = replicate BSIZE 0" if "c \<in> B" for c
    using that fs L' by (auto simp: free_set_def disk_ok_def)
  ultimately show ?thesis unfolding K_def [symmetric] B_def [symmetric] by blast
qed

definition file_disk :: fsys where
  \<comment> \<open>the file with 100 bytes\<close>
  "file_disk = (case bmap 0 0 empty_file_disk of
     Inr (a, s) \<Rightarrow> iupdate 0 (upd_inode 0 (\<lambda>ip. ip\<lparr>isize := 100\<rparr>) s) | Inl _ \<Rightarrow> empty_file_disk)"

theorem last_iput_frees_file_witness:
  "\<exists>s'. iput 0 file_disk = Inr s' \<and> d_type (disk_inode s' 1 5) = 0 \<and>
    block_of file_disk 0 0 \<notin> free_set file_disk 1 \<and> block_of file_disk 0 0 \<in> free_set s' 1"
proof -
  have ic: "icache empty_file_disk 0 = empty_file" by (simp add: empty_file_disk_def)
  note e = empty_file_inv
  have L: "disk_ok empty_file_disk (dev_of empty_file_disk 0)" and m: "file_map empty_file_disk 0 0 (NDIRECT < 0)"
    using e(1) by (simp_all add: file_inv_def e(3) blocks_for_def)
  have pre: "unat (0 :: u32) \<le> 0" "unat (0 :: u32) < MAXFILE"
    "cost 0 (max 0 (Suc (unat (0 :: u32)))) \<le> card (free_set empty_file_disk (dev_of empty_file_disk 0))"
    using e(2,4) by (simp_all add: MAXFILE_def NDIRECT_def NINDIRECT_def cost_def)
  obtain s1 where s1: "bmap 0 0 empty_file_disk = Inr (block_of s1 0 (unat (0 :: u32)), s1)"
    "extends 0 0 empty_file_disk (max 0 (Suc (unat (0 :: u32)))) s1"
    by (rule bmap_extends [OF L m pre])
  then have ext: "extends 0 0 empty_file_disk 1 s1" by simp
  have K1: "1 = blocks_for (unat (100 :: u32))" by (simp add: blocks_for_def)
  have fd: "file_disk = iupdate 0 (upd_inode 0 (\<lambda>ip. ip\<lparr>isize := 100\<rparr>) s1)" using s1(1) by (simp add: file_disk_def)
  obtain as where "icache s1 = (icache empty_file_disk)(0 := (icache empty_file_disk 0)\<lparr>addrs := as\<rparr>)"
    using ext by (auto simp: extends_def)
  then have ip: "icache file_disk 0 = empty_file\<lparr>addrs := as, isize := 100\<rparr>" by (simp add: fd ic)
  have inv: "file_inv file_disk 0" unfolding fd by (rule iupdate_file(1) [OF ext e(1) K1])
  have fl: "iref (icache file_disk 0) = 1" "nlink (icache file_disk 0) = 0"
    "iflags (icache file_disk 0) AND I_VALID \<noteq> 0" "iflags (icache file_disk 0) AND I_BUSY = 0"
    by (simp_all add: ip empty_file_def I_VALID_def I_BUSY_def)
  have bK: "blocks_for (unat (isize (icache file_disk 0))) = 1" "dev_of file_disk 0 = 1" "inum (icache file_disk 0) = 5"
    by (simp_all add: ip empty_file_def blocks_for_def)
  have "data_block file_disk 1 (block_of file_disk 0 0)"
    using inv bK by (simp add: file_inv_def file_map_def)
  then have "block_of file_disk 0 0 \<notin> free_set file_disk 1" "block_of file_disk 0 0 \<in> fblocks file_disk 0 1 - {0}"
    using data_nonzero by (auto simp: free_set_def data_block_def fblocks_def)
  then show ?thesis using last_iput_frees_file [OF inv fl] unfolding bK by auto
qed

end
