(* ===== verification/Kstate.thy ===== *)
theory Kstate
  imports Fs Pipe Vm
begin

text \<open>
  The state of the running P5 kernel: memory, process table, open files, pipes, file system, clock.
  Every handler runs in the process \<open>cur\<close>, the C variable \<open>proc\<close>. A pipe is reached by
  the address of its page. The fields \<open>kend\<close> to \<open>initcode_size\<close> are the linker's symbols, addresses of
  kernel routines and the image of the first program.
\<close>

datatype ftype = FD_NONE | FD_PIPE | FD_INODE

record kfile =
  ftype :: ftype
  fref :: int
  readable :: bool
  writable :: bool
  fpipe :: u32
  fip :: nat
  foff :: u32

record kernel =
  kend :: u32
  kdata :: u32
  kforkret :: u32
  ktrapret :: u32
  initcode :: "nat \<Rightarrow> u32"
  initcode_size :: u32
  km :: kmem
  ptable :: ptab
  nextpid :: u32
  initproc :: "nat option"
  cur :: "nat option"
  fs :: fsys
  ftable :: "nat \<Rightarrow> kfile"
  pipes :: "u32 \<Rightarrow> pipe"
  kticks :: u32
  kjunk :: "u8 list"        \<comment> \<open>what an uninitialised buffer on the kernel stack holds\<close>
  devr :: devread
  devw :: devwrite

definition NFILE :: nat where "NFILE = 100"

abbreviation me :: "kernel \<Rightarrow> nat" where "me k \<equiv> the (cur k)"

abbreviation myproc :: "kernel \<Rightarrow> proc" where "myproc k \<equiv> ptable k (me k)"

definition upd_proc :: "nat \<Rightarrow> (proc \<Rightarrow> proc) \<Rightarrow> kernel \<Rightarrow> kernel" where
  "upd_proc p f k = k\<lparr>ptable := (ptable k)(p := f (ptable k p))\<rparr>"

definition upd_file :: "nat \<Rightarrow> (kfile \<Rightarrow> kfile) \<Rightarrow> kernel \<Rightarrow> kernel" where
  "upd_file f g k = k\<lparr>ftable := (ftable k)(f := g (ftable k f))\<rparr>"

text \<open>Running an operation of the allocator or the file system inside the kernel.\<close>

definition with_km :: "(kmem \<Rightarrow> ('a \<times> kmem) result) \<Rightarrow> kernel \<Rightarrow> ('a \<times> kernel) result" where
  "with_km f k = bindE (f (km k)) (\<lambda>(x, m). Inr (x, k\<lparr>km := m\<rparr>))"

definition with_fs :: "(fsys \<Rightarrow> ('a \<times> fsys) result) \<Rightarrow> kernel \<Rightarrow> ('a \<times> kernel) result" where
  "with_fs f k = bindE (f (fs k)) (\<lambda>(x, s). Inr (x, k\<lparr>fs := s\<rparr>))"

definition do_km :: "(kmem \<Rightarrow> kmem result) \<Rightarrow> kernel \<Rightarrow> kernel result" where
  "do_km f k = bindE (f (km k)) (\<lambda>m. Inr (k\<lparr>km := m\<rparr>))"

definition do_fs :: "(fsys \<Rightarrow> fsys result) \<Rightarrow> kernel \<Rightarrow> kernel result" where
  "do_fs f k = bindE (f (fs k)) (\<lambda>s. Inr (k\<lparr>fs := s\<rparr>))"

section \<open>Sleeping and waking\<close>

definition wakeup :: "chan \<Rightarrow> kernel \<Rightarrow> kernel" where
  "wakeup c k = k\<lparr>ptable := wakeup1 c (ptable k)\<rparr>"

definition wakeups :: "chan list \<Rightarrow> kernel \<Rightarrow> kernel" where
  "wakeups cs k = fold wakeup cs k"

text \<open>The part of \<open>sleep\<close> up to the switch to the scheduler; what follows runs when the process
  is scheduled again.\<close>

definition sleep :: "chan \<Rightarrow> kernel \<Rightarrow> kernel result" where
  "sleep c k = (case cur k of
     None \<Rightarrow> Inl (Panic ''sleep'')
   | Some p \<Rightarrow> Inr (upd_proc p (\<lambda>q. q\<lparr>chan := Some c, state := SLEEPING\<rparr>) k))"

definition sleep_tidy :: "kernel \<Rightarrow> kernel" where
  "sleep_tidy k = upd_proc (me k) (\<lambda>q. q\<lparr>chan := None\<rparr>) k"

lemma upd_proc_simps [simp]:
  "ptable (upd_proc p f k) = (ptable k)(p := f (ptable k p))" "km (upd_proc p f k) = km k"
  "fs (upd_proc p f k) = fs k" "ftable (upd_proc p f k) = ftable k" "cur (upd_proc p f k) = cur k"
  "nextpid (upd_proc p f k) = nextpid k" "initproc (upd_proc p f k) = initproc k"
  "pipes (upd_proc p f k) = pipes k" "kticks (upd_proc p f k) = kticks k" "kend (upd_proc p f k) = kend k"
  "kdata (upd_proc p f k) = kdata k"
  by (simp_all add: upd_proc_def)

lemma upd_file_simps [simp]:
  "ftable (upd_file f g k) = (ftable k)(f := g (ftable k f))" "km (upd_file f g k) = km k"
  "fs (upd_file f g k) = fs k" "ptable (upd_file f g k) = ptable k" "cur (upd_file f g k) = cur k"
  "pipes (upd_file f g k) = pipes k" "kticks (upd_file f g k) = kticks k" "kend (upd_file f g k) = kend k"
  by (simp_all add: upd_file_def)

lemma wakeup_simps [simp]:
  "km (wakeup c k) = km k" "fs (wakeup c k) = fs k" "ftable (wakeup c k) = ftable k" "cur (wakeup c k) = cur k"
  "pipes (wakeup c k) = pipes k" "kend (wakeup c k) = kend k" "ptable (wakeup c k) = wakeup1 c (ptable k)"
  by (simp_all add: wakeup_def)

end
