(* ===== verification/File.thy ===== *)
theory File
  imports Kstate
begin

text \<open>
  Open files: \<open>kernel/file.c\<close>, and \<open>pipealloc\<close> and \<open>pipeclose\<close> of \<open>kernel/pipe.c\<close>, which tie the ring
  buffer to two file structures and a page. A file pointer is an index into the table. A handler that
  goes to sleep returns \<open>Sleep\<close> with the process marked; what it read is \<open>None\<close> for the result -1.
\<close>

definition filealloc :: "kernel \<Rightarrow> nat option \<times> kernel" where
  "filealloc k = (case find (\<lambda>f. fref (ftable k f) = 0) [0..<NFILE] of
     None \<Rightarrow> (None, k)
   | Some f \<Rightarrow> (Some f, upd_file f (\<lambda>x. x\<lparr>fref := 1\<rparr>) k))"

definition filedup :: "nat \<Rightarrow> kernel \<Rightarrow> kernel result" where
  "filedup f k = (if fref (ftable k f) < 1 then Inl (Panic ''filedup'')
     else Inr (upd_file f (\<lambda>x. x\<lparr>fref := fref x + 1\<rparr>) k))"

definition pipeclose :: "u32 \<Rightarrow> bool \<Rightarrow> kernel \<Rightarrow> kernel result" where
  "pipeclose a w k =
     (let (c, free, p) = pipe_close_end a w (pipes k a);
          k1 = wakeup c (k\<lparr>pipes := (pipes k)(a := p)\<rparr>)
      in if free then do_km (kfree (kend k1) a) k1 else Inr k1)"

definition fileclose :: "nat \<Rightarrow> kernel \<Rightarrow> kernel result" where
  "fileclose f k =
     (let x = ftable k f in
      if fref x < 1 then Inl (Panic ''fileclose'')
      else if fref x - 1 > 0 then Inr (upd_file f (\<lambda>x. x\<lparr>fref := fref x - 1\<rparr>) k)
      else
        let k1 = upd_file f (\<lambda>x. x\<lparr>fref := 0, ftype := FD_NONE\<rparr>) k in
        case ftype x of
          FD_PIPE \<Rightarrow> pipeclose (fpipe x) (writable x) k1
        | FD_INODE \<Rightarrow> do_fs (iput (fip x)) k1
        | FD_NONE \<Rightarrow> Inr k1)"

definition filestat :: "nat \<Rightarrow> kernel \<Rightarrow> (stat option \<times> kernel) result" where
  "filestat f k =
     (let x = ftable k f in
      if ftype x = FD_INODE then
        bindE (do_fs (ilock (fip x)) k) (\<lambda>k1.
        let st = stati (fip x) (fs k1) in
        bindE (do_fs (iunlock (fip x)) k1) (\<lambda>k2. Inr (Some st, k2)))
      else Inr (None, k))"

definition fileread :: "nat \<Rightarrow> u32 \<Rightarrow> kernel \<Rightarrow> (u8 list option io \<times> kernel) result" where
  "fileread f n k =
     (let x = ftable k f in
      if \<not> readable x then Inr (Ret None, k)
      else case ftype x of
        FD_PIPE \<Rightarrow>
          (case piperead (fpipe x) (sint n) (killed (myproc k)) (pipes k (fpipe x)) of
             (Ret r, cs, p) \<Rightarrow> Inr (Ret r, wakeups cs (k\<lparr>pipes := (pipes k)(fpipe x := p)\<rparr>))
           | (Sleep rest, _, _) \<Rightarrow> bindE (sleep (ChRead (fpipe x)) k) (\<lambda>k1. Inr (Sleep rest, k1)))
      | FD_INODE \<Rightarrow>
          bindE (do_fs (ilock (fip x)) k) (\<lambda>k1.
          bindE (with_fs (readi (devr k) (fip x) (foff x) n) k1) (\<lambda>(r, k2).
          let k3 = (case r of Some bs \<Rightarrow> upd_file f (\<lambda>x. x\<lparr>foff := foff x + of_nat (length bs)\<rparr>) k2 | None \<Rightarrow> k2) in
          bindE (do_fs (iunlock (fip x)) k3) (\<lambda>k4. Inr (Ret r, k4))))
      | FD_NONE \<Rightarrow> Inl (Panic ''fileread''))"

text \<open>The bytes at \<open>addr\<close> are given as a list; a writer to a pipe that sleeps has the rest left to write.\<close>

definition filewrite :: "nat \<Rightarrow> u8 list \<Rightarrow> u32 \<Rightarrow> kernel \<Rightarrow> (int io \<times> kernel) result" where
  "filewrite f src n k =
     (let x = ftable k f in
      if \<not> writable x then Inr (Ret (-1), k)
      else case ftype x of
        FD_PIPE \<Rightarrow>
          (case pipewrite (fpipe x) (sint n) (killed (myproc k)) (take (nat (sint n)) src) (pipes k (fpipe x)) of
             (Ret r, cs, p) \<Rightarrow> Inr (Ret r, wakeups cs (k\<lparr>pipes := (pipes k)(fpipe x := p)\<rparr>))
           | (Sleep rest, cs, p) \<Rightarrow>
               bindE (sleep (ChWrite (fpipe x)) (wakeups cs (k\<lparr>pipes := (pipes k)(fpipe x := p)\<rparr>))) (\<lambda>k1.
               Inr (Sleep rest, k1)))
      | FD_INODE \<Rightarrow>
          bindE (do_fs (ilock (fip x)) k) (\<lambda>k1.
          bindE (with_fs (writei (devw k) (fip x) src (foff x) n) k1) (\<lambda>(r, k2).
          let k3 = (if r > 0 then upd_file f (\<lambda>x. x\<lparr>foff := foff x + word_of_int r\<rparr>) k2 else k2) in
          bindE (do_fs (iunlock (fip x)) k3) (\<lambda>k4. Inr (Ret r, k4))))
      | FD_NONE \<Rightarrow> Inl (Panic ''filewrite''))"

definition pipealloc :: "kernel \<Rightarrow> ((nat \<times> nat) option \<times> kernel) result" where
  "pipealloc k =
     (let (f0, k1) = filealloc k in
      case f0 of None \<Rightarrow> Inr (None, k1)
      | Some r \<Rightarrow>
        let (f1, k2) = filealloc k1 in
        case f1 of None \<Rightarrow> bindE (fileclose r k2) (\<lambda>k3. Inr (None, k3))
        | Some w \<Rightarrow>
          bindE (with_km kalloc k2) (\<lambda>(a, k3).
          if a = 0 then bindE (fileclose r k3) (\<lambda>k4. bindE (fileclose w k4) (\<lambda>k5. Inr (None, k5)))
          else
            let k4 = k3\<lparr>pipes := (pipes k3)(a := pipe_init (pipes k3 a))\<rparr>;
                k5 = upd_file r (\<lambda>x. x\<lparr>ftype := FD_PIPE, readable := True, writable := False, fpipe := a\<rparr>) k4;
                k6 = upd_file w (\<lambda>x. x\<lparr>ftype := FD_PIPE, readable := False, writable := True, fpipe := a\<rparr>) k5
            in Inr (Some (r, w), k6)))"

end
