(* ===== verification/Proc.thy ===== *)
theory Proc
  imports File Spinlock
begin

text \<open>
  Processes: \<open>kernel/proc.c\<close> of the P5 kernel. A handler runs between its acquisitions of
  \<open>ptable.lock\<close> as one step; a call of \<open>sched\<close> ends the step of the calling process.
\<close>

definition KSTACKSIZE :: u32 where "KSTACKSIZE = 4096"

section \<open>Creation\<close>

text \<open>The kernel stack of a new process: below the trap frame (76 bytes) the address of \<open>trapret\<close>, below
  it a context of five words, zero but for its \<open>eip\<close>, the address of \<open>forkret\<close>.\<close>

definition setup_stack :: "u32 \<Rightarrow> u32 \<Rightarrow> u32 \<Rightarrow> (u32 \<Rightarrow> nat \<Rightarrow> u32) \<Rightarrow> (u32 \<Rightarrow> nat \<Rightarrow> u32)" where
  "setup_stack fr tr st m =
     fold (\<lambda>(i, w) m. store_word m st i w)
       [(1004, tr), (999, 0), (1000, 0), (1001, 0), (1002, 0), (1003, 0), (1003, fr)] m"

definition allocproc :: "kernel \<Rightarrow> (nat option \<times> kernel) result" where
  "allocproc k = (case find_unused (ptable k) of
     None \<Rightarrow> Inr (None, k)
   | Some p \<Rightarrow>
       let k1 = (upd_proc p (\<lambda>q. q\<lparr>state := EMBRYO, pid := nextpid k\<rparr>) k)\<lparr>nextpid := nextpid k + 1\<rparr> in
       bindE (with_km kalloc k1) (\<lambda>(st, k2).
       let k3 = upd_proc p (\<lambda>q. q\<lparr>kstack := st\<rparr>) k2 in
       if st = 0 then Inr (None, upd_proc p (\<lambda>q. q\<lparr>state := UNUSED\<rparr>) k3)
       else
         let sp = st + KSTACKSIZE - 76 - 4 - 20;
             k4 = k3\<lparr>km := (km k3)\<lparr>phys := setup_stack (kforkret k) (ktrapret k) st (phys (km k3))\<rparr>\<rparr>
         in Inr (Some p, upd_proc p (\<lambda>q. q\<lparr>kcontext := sp\<rparr>) k4)))"

definition userinit :: "kernel \<Rightarrow> kernel result" where
  "userinit k =
     bindE (allocproc k) (\<lambda>(r, k1). case r of
       None \<Rightarrow> Inl (OutOfBounds ''proc'')
     | Some p \<Rightarrow>
         let k2 = k1\<lparr>initproc := Some p\<rparr> in
         bindE (with_km (setupkvm (kdata k2)) k2) (\<lambda>(d, k3).
         let k4 = upd_proc p (\<lambda>q. q\<lparr>pgdir := d\<rparr>) k3 in
         if d = 0 then Inl (Panic ''userinit: out of memory?'')
         else
           bindE (do_km (inituvm d (initcode k) (initcode_size k)) k4) (\<lambda>k5.
           let k6 = upd_proc p (\<lambda>q. q\<lparr>sz := PGSIZE, tf := \<lparr>eax = 0, tf_es = 0x2B, tf_ds = 0x2B, trapno = 0,
                 eip = 0, tf_cs = 0x23, eflags = 0x200, esp = PGSIZE, tf_ss = 0x2B\<rparr>, name := ''initcode''\<rparr>) k5
           in bindE (with_fs (namei 0 [SLASH]) k6) (\<lambda>(i, k7).
              Inr (upd_proc p (\<lambda>q. q\<lparr>cwd := i, state := RUNNABLE\<rparr>) k7)))))"

definition growproc :: "u32 \<Rightarrow> kernel \<Rightarrow> (int \<times> kernel) result" where
  "growproc n k =
     (let d = pgdir (myproc k); s = sz (myproc k) in
      if sint n > 0 then
        bindE (with_km (allocuvm (kend k) d s (s + n)) k) (\<lambda>(s', k1).
        if s' = 0 then Inr (-1, k1) else Inr (0, upd_proc (me k) (\<lambda>q. q\<lparr>sz := s'\<rparr>) k1))
      else if sint n < 0 then
        bindE (with_km (deallocuvm (kend k) d s (s + n)) k) (\<lambda>(s', k1).
        if s' = 0 then Inr (-1, k1) else Inr (0, upd_proc (me k) (\<lambda>q. q\<lparr>sz := s'\<rparr>) k1))
      else Inr (0, k))"

fun dup_files :: "nat list \<Rightarrow> nat \<Rightarrow> kernel \<Rightarrow> kernel result" where
  "dup_files [] np k = Inr k"
| "dup_files (i # is) np k = (case ofile (myproc k) i of
     None \<Rightarrow> dup_files is np k
   | Some f \<Rightarrow> bindE (filedup f k) (\<lambda>k1.
       dup_files is np (upd_proc np (\<lambda>q. q\<lparr>ofile := (ofile q)(i := Some f)\<rparr>) k1)))"

definition fork :: "kernel \<Rightarrow> (int \<times> kernel) result" where
  "fork k =
     bindE (allocproc k) (\<lambda>(r, k1). case r of
       None \<Rightarrow> Inr (-1, k1)
     | Some np \<Rightarrow>
         bindE (with_km (cowuvm (kend k1) (kdata k1) (pgdir (myproc k1)) (sz (myproc k1))) k1) (\<lambda>(d, k2).
         let k3 = upd_proc np (\<lambda>q. q\<lparr>pgdir := d\<rparr>) k2 in
         if d = 0 then
           bindE (do_km (kfree (kend k3) (kstack (ptable k3 np))) k3) (\<lambda>k4.
           Inr (-1, upd_proc np (\<lambda>q. q\<lparr>kstack := 0, state := UNUSED\<rparr>) k4))
         else
           let p = myproc k3;
               k4 = upd_proc np (\<lambda>q. q\<lparr>sz := sz p, parent := cur k3, tf := (tf p)\<lparr>eax := 0\<rparr>\<rparr>) k3
           in bindE (dup_files [0..<NOFILE] np k4) (\<lambda>k5. case cwd (myproc k5) of
                None \<Rightarrow> Inl (OutOfBounds ''cwd'')
              | Some c \<Rightarrow>
                  let k6 = upd_proc np (\<lambda>q. q\<lparr>cwd := Some c\<rparr>) (k5\<lparr>fs := idup c (fs k5)\<rparr>)
                  in Inr (sint (pid (ptable k6 np)),
                       upd_proc np (\<lambda>q. q\<lparr>state := RUNNABLE, name := take 15 (name (myproc k6))\<rparr>) k6))))"

section \<open>Exit and wait\<close>

fun close_files :: "nat list \<Rightarrow> kernel \<Rightarrow> kernel result" where
  "close_files [] k = Inr k"
| "close_files (fd # fds) k = (case ofile (myproc k) fd of
     None \<Rightarrow> close_files fds k
   | Some f \<Rightarrow> bindE (fileclose f k) (\<lambda>k1.
       close_files fds (upd_proc (me k1) (\<lambda>q. q\<lparr>ofile := (ofile q)(fd := None)\<rparr>) k1)))"

definition exit :: "kernel \<Rightarrow> kernel result" where
  "exit k =
     (if cur k = initproc k then Inl (Panic ''init exiting'')
      else
        bindE (close_files [0..<NOFILE] k) (\<lambda>k1. case cwd (myproc k1) of
          None \<Rightarrow> Inl (OutOfBounds ''cwd'')
        | Some c \<Rightarrow>
            bindE (do_fs (iput c) k1) (\<lambda>k2.
            let k3 = upd_proc (me k2) (\<lambda>q. q\<lparr>cwd := None\<rparr>) k2;
                k4 = (case parent (myproc k3) of None \<Rightarrow> k3 | Some p \<Rightarrow> wakeup (ChProc p) k3);
                k5 = (case initproc k4 of None \<Rightarrow> k4
                      | Some i \<Rightarrow> k4\<lparr>ptable := reparent (me k4) i (ptable k4)\<rparr>)
            in Inr (upd_proc (me k5) (\<lambda>q. q\<lparr>state := ZOMBIE\<rparr>) k5))))"

definition reap :: "nat \<Rightarrow> kernel \<Rightarrow> kernel result" where
  "reap p k =
     bindE (do_km (kfree (kend k) (kstack (ptable k p))) k) (\<lambda>k1.
     bindE (do_km (freevm (kend k) (pgdir (ptable k p))) (upd_proc p (\<lambda>q. q\<lparr>kstack := 0\<rparr>) k1)) (\<lambda>k2.
     Inr (upd_proc p (\<lambda>q. q\<lparr>state := UNUSED, pid := 0, parent := None, name := [], killed := False\<rparr>) k2)))"

definition wait :: "kernel \<Rightarrow> (int io \<times> kernel) result" where
  "wait k =
     (case find (\<lambda>p. parent (ptable k p) = cur k \<and> state (ptable k p) = ZOMBIE) [0..<NPROC] of
        Some p \<Rightarrow> bindE (reap p k) (\<lambda>k1. Inr (Ret (sint (pid (ptable k p))), k1))
      | None \<Rightarrow>
          if (\<forall>p \<in> set [0..<NPROC]. parent (ptable k p) \<noteq> cur k) \<or> killed (myproc k) then Inr (Ret (-1), k)
          else bindE (sleep (ChProc (me k)) k) (\<lambda>k1. Inr (Sleep [], k1)))"

section \<open>Scheduling\<close>

text \<open>The loop of \<open>scheduler\<close> from table entry \<open>pos\<close> on: the process it switches to and the new state,
  or \<open>None\<close> at the end of the table, where the lock is released and the scan starts again at 0.\<close>

definition sched_scan :: "nat \<Rightarrow> ptab \<Rightarrow> nat option" where
  "sched_scan pos t = find (\<lambda>p. state (t p) = RUNNABLE) [pos..<NPROC]"

definition scheduler :: "nat \<Rightarrow> kernel \<Rightarrow> (nat \<times> kernel) option" where
  "scheduler pos k = (case sched_scan pos (ptable k) of
     None \<Rightarrow> None
   | Some p \<Rightarrow> Some (p, upd_proc p (\<lambda>q. q\<lparr>state := RUNNING\<rparr>) (k\<lparr>cur := Some p\<rparr>)))"

definition scheduler_back :: "kernel \<Rightarrow> kernel" where
  \<comment> \<open>after \<open>swtch\<close> returned\<close>
  "scheduler_back k = k\<lparr>cur := None\<rparr>"

text \<open>The checks of \<open>sched\<close>: \<open>c\<close> is the CPU, \<open>held\<close> whether it holds \<open>ptable.lock\<close>.\<close>

definition sched :: "bool \<Rightarrow> cpu \<Rightarrow> procstate \<Rightarrow> unit result" where
  "sched held c st =
     (if \<not> held then Inl (Panic ''sched ptable.lock'')
      else if ncli c \<noteq> 1 then Inl (Panic ''sched locks'')
      else if st = RUNNING then Inl (Panic ''sched running'')
      else if ifl c then Inl (Panic ''sched interruptible'')
      else Inr ())"

definition yield :: "kernel \<Rightarrow> kernel" where
  "yield k = upd_proc (me k) (\<lambda>q. q\<lparr>state := RUNNABLE\<rparr>) k"

section \<open>The listing for the console\<close>

definition state_name :: "procstate \<Rightarrow> string" where
  "state_name st = (case st of UNUSED \<Rightarrow> ''unused'' | EMBRYO \<Rightarrow> ''embryo'' | SLEEPING \<Rightarrow> ''sleep ''
     | RUNNABLE \<Rightarrow> ''runble'' | RUNNING \<Rightarrow> ''run   '' | ZOMBIE \<Rightarrow> ''zombie'')"

text \<open>The entries printed: pid, state, name and, for a sleeper, the return addresses up to the first zero
  that \<open>getcallerpcs\<close> finds from the saved frame pointer.\<close>

definition procdump :: "(u32 \<Rightarrow> u32) \<Rightarrow> kernel \<Rightarrow> (u32 \<times> string \<times> string \<times> u32 list) list" where
  "procdump mem k = map (\<lambda>p. let q = ptable k p in
       (pid q, state_name (state q), name q,
        if state q = SLEEPING then takeWhile (\<lambda>a. a \<noteq> 0) (getcallerpcs mem (mem (kcontext q + 12) + 8)) else []))
     (filter (\<lambda>p. state (ptable k p) \<noteq> UNUSED) [0..<NPROC])"

end
