(* ===== verification/Sysarg.thy ===== *)
theory Sysarg
  imports Proc
begin

text \<open>
  System call arguments (\<open>kernel/syscall.c\<close>) and the kernel's direct accesses to the user memory of
  the running process. An access to a page that is not present faults again and again, as \<open>pgfltintr\<close> does
  nothing for it: the error \<open>NoFuel\<close>. The kernel runs with \<open>CR0_WP\<close> clear (\<open>vmenable\<close>), so its write to a page that
  is read-only for copy-on-write does not fault: it goes to the frame as it is, shared or not.
\<close>

section \<open>User memory\<close>

definition user_load :: "u32 \<Rightarrow> u32 \<Rightarrow> kmem \<Rightarrow> u8 result" where
  "user_load d va s =
     bindE (walkpgdir d va False s) (\<lambda>(pte, _). case pte of
       None \<Rightarrow> Inl (Panic ''CoW: Invalid virtual address'')
     | Some (pt, i) \<Rightarrow>
         if phys s pt i AND PTE_P = 0 then Inl NoFuel
         else Inr (load_byte (phys s) (PTE_ADDR (phys s pt i)) (unat va mod 4096)))"

definition user_store :: "u32 \<Rightarrow> u32 \<Rightarrow> u8 \<Rightarrow> kmem \<Rightarrow> kmem result" where
  "user_store d va b s =
     bindE (walkpgdir d va False s) (\<lambda>(pte, _). case pte of
       None \<Rightarrow> Inl (Panic ''CoW: Invalid virtual address'')
     | Some (pt, i) \<Rightarrow>
         if phys s pt i AND PTE_P = 0 then Inl NoFuel
         else Inr (s\<lparr>phys := store_byte (phys s) (PTE_ADDR (phys s pt i)) (unat va mod 4096) b\<rparr>))"

text \<open>A system call that writes to a shared page changes it for every process that shares it: the frame holds the
  byte written and is still shared by as many.\<close>

lemma load_store_byte: "load_byte (store_byte m p off b) p off = b"
proof -
  have n: "8 * (off mod 4) + 8 \<le> 32" by simp
  have ff: "(0xFF :: u32) = mask 8" by (simp add: mask_eq_exp_minus_1)
  show ?thesis
    unfolding load_byte_def store_byte_def store_word_same ff
    using n by (intro bit_eqI) (auto simp: bit_simps)
qed

lemma kernel_write_ignores_cow:
  assumes "walkpgdir d va False s = Inr (Some (pt, i), s)" and "phys s pt i AND PTE_P \<noteq> 0"
  shows "\<exists>s'. user_store d va b s = Inr s' \<and> ref_cnt s' = ref_cnt s \<and>
    load_byte (phys s') (PTE_ADDR (phys s pt i)) (unat va mod 4096) = b"
  using assms by (simp add: user_store_def load_store_byte)

fun user_loads :: "u32 \<Rightarrow> u32 \<Rightarrow> nat \<Rightarrow> kmem \<Rightarrow> u8 list result" where
  "user_loads d va 0 s = Inr []"
| "user_loads d va (Suc n) s =
     bindE (user_load d va s) (\<lambda>b. bindE (user_loads d (va + 1) n s) (\<lambda>bs. Inr (b # bs)))"

fun user_stores :: "u32 \<Rightarrow> u32 \<Rightarrow> u8 list \<Rightarrow> kmem \<Rightarrow> kmem result" where
  "user_stores d va [] s = Inr s"
| "user_stores d va (b # bs) s = bindE (user_store d va b s) (user_stores d (va + 1) bs)"

abbreviation my_loads :: "u32 \<Rightarrow> nat \<Rightarrow> kernel \<Rightarrow> u8 list result" where
  "my_loads va n k \<equiv> user_loads (pgdir (myproc k)) va n (km k)"

definition my_stores :: "u32 \<Rightarrow> u8 list \<Rightarrow> kernel \<Rightarrow> kernel result" where
  "my_stores va bs k = do_km (user_stores (pgdir (myproc k)) va bs) k"

section \<open>Fetching arguments\<close>

text \<open>\<open>None\<close> is the result -1. A string is its address and its characters without the NUL.\<close>

definition fetchint :: "u32 \<Rightarrow> kernel \<Rightarrow> u32 option result" where
  "fetchint addr k =
     (let s = sz (myproc k) in
      if addr \<ge> s \<or> addr + 4 > s then Inr None
      else bindE (my_loads addr 4 k) (\<lambda>bs. Inr (Some (ld32 bs 0))))"

fun find_nul :: "nat \<Rightarrow> u32 \<Rightarrow> kernel \<Rightarrow> u8 list option result" where
  "find_nul 0 a k = Inr None"
| "find_nul (Suc n) a k =
     bindE (user_load (pgdir (myproc k)) a (km k)) (\<lambda>b.
     if b = 0 then Inr (Some [])
     else bindE (find_nul n (a + 1) k) (\<lambda>r. Inr (case r of None \<Rightarrow> None | Some cs \<Rightarrow> Some (b # cs))))"

definition fetchstr :: "u32 \<Rightarrow> kernel \<Rightarrow> (u32 \<times> u8 list) option result" where
  "fetchstr addr k =
     (let s = sz (myproc k) in
      if addr \<ge> s then Inr None
      else bindE (find_nul (unat (s - addr)) addr k) (\<lambda>r.
        Inr (case r of None \<Rightarrow> None | Some cs \<Rightarrow> Some (addr, cs))))"

definition argint :: "nat \<Rightarrow> kernel \<Rightarrow> u32 option result" where
  "argint n k = fetchint (esp (tf (myproc k)) + 4 + 4 * of_nat n) k"

definition argptr :: "nat \<Rightarrow> u32 \<Rightarrow> kernel \<Rightarrow> u32 option result" where
  "argptr n len k =
     bindE (argint n k) (\<lambda>r. Inr (case r of
       None \<Rightarrow> None
     | Some i \<Rightarrow> if i \<ge> sz (myproc k) \<or> i + len > sz (myproc k) then None else Some i))"

definition argstr :: "nat \<Rightarrow> kernel \<Rightarrow> (u32 \<times> u8 list) option result" where
  "argstr n k = bindE (argint n k) (\<lambda>r. case r of None \<Rightarrow> Inr None | Some a \<Rightarrow> fetchstr a k)"

text \<open>Arguments that failed end the call with -1.\<close>

definition arg :: "'a option result \<Rightarrow> kernel \<Rightarrow> ('a \<Rightarrow> (int io \<times> kernel) result) \<Rightarrow> (int io \<times> kernel) result" where
  "arg r k f = bindE r (\<lambda>x. case x of None \<Rightarrow> Inr (Ret (-1), k) | Some y \<Rightarrow> f y)"

lemma arg_simps [simp]:
  "arg (Inr None) k f = Inr (Ret (-1), k)" "arg (Inr (Some x)) k f = f x" "arg (Inl e) k f = Inl e"
  by (simp_all add: arg_def)

end
