(* ===== verification/Exec.thy ===== *)
theory Exec
  imports Sysarg
begin

text \<open>
  Loading a program: \<open>kernel/exec.c\<close> on the ELF format of \<open>kernel/elf.h\<close>, and \<open>loaduvm\<close> of
  \<open>kernel/vm.c\<close>. Every failure after the inode was locked leaves through \<open>bad\<close>.
\<close>

definition ELF_MAGIC :: u32 where "ELF_MAGIC = 0x464C457F"
definition ELF_PROG_LOAD :: u32 where "ELF_PROG_LOAD = 1"
definition MAXARG :: nat where "MAXARG = 32"

record elfhdr =
  elf_magic :: u32
  elf_entry :: u32
  elf_phoff :: u32
  elf_phnum :: u16

record proghdr =
  ph_type :: u32
  ph_offset :: u32
  ph_va :: u32
  ph_filesz :: u32
  ph_memsz :: u32

definition get_elfhdr :: "u8 list \<Rightarrow> elfhdr" where
  "get_elfhdr bs = \<lparr>elf_magic = ld32 bs 0, elf_entry = ld32 bs 24, elf_phoff = ld32 bs 28, elf_phnum = ld16 bs 44\<rparr>"

definition get_proghdr :: "u8 list \<Rightarrow> proghdr" where
  "get_proghdr bs = \<lparr>ph_type = ld32 bs 0, ph_offset = ld32 bs 4, ph_va = ld32 bs 8, ph_filesz = ld32 bs 16,
     ph_memsz = ld32 bs 20\<rparr>"

section \<open>Loading a segment\<close>

text \<open>The loop of \<open>loaduvm\<close>; a round is a page.\<close>

fun loaduvm_loop :: "nat \<Rightarrow> u32 \<Rightarrow> u32 \<Rightarrow> nat \<Rightarrow> u32 \<Rightarrow> u32 \<Rightarrow> u32 \<Rightarrow> kernel \<Rightarrow> (int \<times> kernel) result" where
  "loaduvm_loop fuel d addr ip offset len i k =
     (if i < len then
        case fuel of 0 \<Rightarrow> Inl NoFuel
        | Suc fuel' \<Rightarrow>
            bindE (walkpgdir d (addr + i) False (km k)) (\<lambda>(pte, _). case pte of
              None \<Rightarrow> Inl (Panic ''loaduvm: address should exist'')
            | Some (pt, j) \<Rightarrow>
                let pa = PTE_ADDR (phys (km k) pt j); n = (if len - i < PGSIZE then len - i else PGSIZE) in
                bindE (with_fs (readi (devr k) ip (offset + i) n) k) (\<lambda>(r, k1).
                if (case r of None \<Rightarrow> True | Some bs \<Rightarrow> of_nat (length bs) \<noteq> n) then Inr (-1, k1)
                else loaduvm_loop fuel' d addr ip offset len (i + PGSIZE)
                  (k1\<lparr>km := (km k1)\<lparr>phys := store_bytes (phys (km k1)) pa 0 (the r)\<rparr>\<rparr>)))
      else Inr (0, k))"

declare loaduvm_loop.simps [simp del]

definition loaduvm :: "u32 \<Rightarrow> u32 \<Rightarrow> nat \<Rightarrow> u32 \<Rightarrow> u32 \<Rightarrow> kernel \<Rightarrow> (int \<times> kernel) result" where
  "loaduvm d addr ip offset len k =
     (if addr mod 4096 \<noteq> 0 then Inl (Panic ''loaduvm: addr must be page aligned'')
      else loaduvm_loop (unat len div 4096 + 1) d addr ip offset len 0 k)"

text \<open>The loop over the program headers: the new size, or \<open>None\<close> for \<open>goto bad\<close>.\<close>

fun load_segments :: "nat \<Rightarrow> u32 \<Rightarrow> nat \<Rightarrow> u32 \<Rightarrow> u32 \<Rightarrow> kernel \<Rightarrow> (u32 option \<times> kernel) result" where
  "load_segments 0 d ip off s k = Inr (Some s, k)"
| "load_segments (Suc n) d ip off s k =
     bindE (with_fs (readi (devr k) ip off 32) k) (\<lambda>(r, k1). case r of
       None \<Rightarrow> Inr (None, k1)
     | Some bs \<Rightarrow>
         if length bs \<noteq> 32 then Inr (None, k1)
         else let ph = get_proghdr bs in
         if ph_type ph \<noteq> ELF_PROG_LOAD then load_segments n d ip (off + 32) s k1
         else if ph_memsz ph < ph_filesz ph then Inr (None, k1)
         else bindE (with_km (allocuvm (kend k1) d s (ph_va ph + ph_memsz ph)) k1) (\<lambda>(s', k2).
           if s' = 0 then Inr (None, k2)
           else bindE (loaduvm d (ph_va ph) ip (ph_offset ph) (ph_filesz ph) k2) (\<lambda>(r, k3).
             if r < 0 then Inr (None, k3) else load_segments n d ip (off + 32) s' k3)))"

section \<open>The initial stack\<close>

text \<open>Pushing the argument strings: the stack pointer and the addresses of the strings in order.\<close>

fun push_args :: "u8 list list \<Rightarrow> nat \<Rightarrow> u32 \<Rightarrow> u32 list \<Rightarrow> u32 \<Rightarrow> kernel \<Rightarrow>
    ((u32 \<times> u32 list) option \<times> kernel) result" where
  "push_args [] argc sp us d k = Inr (Some (sp, us), k)"
| "push_args (a # as) argc sp us d k =
     (if argc \<ge> MAXARG then Inr (None, k)
      else
        let sp' = (sp - (of_nat (length a) + 1)) AND NOT 3 in
        bindE (with_km (copyout d sp' (a @ [0])) k) (\<lambda>(r, k1).
        if r < 0 then Inr (None, k1) else push_args as (argc + 1) sp' (us @ [sp']) d k1))"

definition words_bytes :: "u32 list \<Rightarrow> u8 list" where
  "words_bytes ws = st32s (replicate (4 * length ws) 0) 0 ws"

definition stack_frame :: "u32 \<Rightarrow> u32 list \<Rightarrow> u32 list" where
  \<comment> \<open>\<open>ustack\<close>: fake return address, \<open>argc\<close>, \<open>argv\<close>, the argument pointers, 0\<close>
  "stack_frame sp us = [0xFFFFFFFF, of_nat (length us), sp - (of_nat (length us) + 1) * 4] @ us @ [0]"

definition last_element :: "u8 list \<Rightarrow> u8 list" where
  "last_element path = rev (takeWhile (\<lambda>c. c \<noteq> SLASH) (rev path))"

definition chars :: "u8 list \<Rightarrow> string" where
  "chars bs = map (\<lambda>b. char_of (unat b)) bs"

definition exec_bad :: "nat option \<Rightarrow> u32 \<Rightarrow> kernel \<Rightarrow> (int \<times> kernel) result" where
  "exec_bad ip d k =
     bindE (if d \<noteq> 0 then do_km (freevm (kend k) d) k else Inr k) (\<lambda>k1.
     bindE (case ip of None \<Rightarrow> Inr k1 | Some i \<Rightarrow> do_fs (iunlockput i) k1) (\<lambda>k2. Inr (-1, k2)))"

text \<open>The second half, once the program is in memory: stack, arguments, commit.\<close>

definition exec_commit :: "u32 \<Rightarrow> u32 \<Rightarrow> u32 \<Rightarrow> u8 list \<Rightarrow> u8 list list \<Rightarrow> kernel \<Rightarrow> (int \<times> kernel) result" where
  "exec_commit d s entry path argv k =
     (let s0 = PGROUNDUP s in
      bindE (with_km (allocuvm (kend k) d s0 (s0 + PGSIZE)) k) (\<lambda>(s1, k1).
      if s1 = 0 then exec_bad None d k1
      else bindE (push_args argv 0 s1 [] d k1) (\<lambda>(r, k2). case r of
        None \<Rightarrow> exec_bad None d k2
      | Some (sp, us) \<Rightarrow>
          let sp' = sp - (3 + of_nat (length us) + 1) * 4 in
          bindE (with_km (copyout d sp' (words_bytes (stack_frame sp us))) k2) (\<lambda>(r, k3).
          if r < 0 then exec_bad None d k3
          else
            let old = pgdir (myproc k3);
                k4 = upd_proc (me k3) (\<lambda>q. q\<lparr>name := take 15 (chars (last_element path)), pgdir := d, sz := s1,
                       tf := (tf q)\<lparr>eip := entry, esp := sp'\<rparr>\<rparr>) k3
            in bindE (do_km (freevm (kend k4) old) k4) (\<lambda>k5. Inr (0, k5))))))"

text \<open>\<open>readi\<close> below the size of the header fails, but its -1 is compared as an unsigned number, so a
  failed read goes on with whatever the stack held in place of the header.\<close>

definition exec :: "u8 list \<Rightarrow> u8 list list \<Rightarrow> kernel \<Rightarrow> (int \<times> kernel) result" where
  "exec path argv k =
     bindE (with_fs (namei (the (cwd (myproc k))) path) k) (\<lambda>(r, k1). case r of
       None \<Rightarrow> Inr (-1, k1)
     | Some ip \<Rightarrow>
         bindE (do_fs (ilock ip) k1) (\<lambda>k2.
         bindE (with_fs (readi (devr k2) ip 0 52) k2) (\<lambda>(r, k3).
         let bs = (case r of Some bs \<Rightarrow> bs @ drop (length bs) (kjunk k) | None \<Rightarrow> kjunk k); elf = get_elfhdr bs in
         if (case r of Some bs \<Rightarrow> length bs < 52 | None \<Rightarrow> False) then exec_bad (Some ip) 0 k3
         else if elf_magic elf \<noteq> ELF_MAGIC then exec_bad (Some ip) 0 k3
         else bindE (with_km (setupkvm (kdata k3)) k3) (\<lambda>(d, k4).
           if d = 0 then exec_bad (Some ip) 0 k4
           else bindE (load_segments (unat (elf_phnum elf)) d ip (elf_phoff elf) 0 k4) (\<lambda>(r, k5). case r of
             None \<Rightarrow> exec_bad (Some ip) d k5
           | Some s \<Rightarrow> bindE (do_fs (iunlockput ip) k5) (\<lambda>k6.
               exec_commit d s (elf_entry elf) path argv k6))))))"

end
