(* ===== verification/Sysfile.thy ===== *)
theory Sysfile
  imports Exec
begin

text \<open>
  The file system calls: \<open>kernel/sysfile.c\<close>. A handler takes its arguments from the user stack of the
  running process; its result is what \<open>%eax\<close> will hold, or \<open>Sleep\<close> if the process left the CPU.
\<close>

definition O_WRONLY :: u32 where "O_WRONLY = 1"
definition O_RDWR :: u32 where "O_RDWR = 2"
definition O_CREATE :: u32 where "O_CREATE = 0x200"

type_synonym handler = "kernel \<Rightarrow> (int io \<times> kernel) result"

section \<open>Descriptors\<close>

definition argfd :: "nat \<Rightarrow> kernel \<Rightarrow> (nat \<times> nat) option result" where
  "argfd n k = bindE (argint n k) (\<lambda>r. Inr (case r of
     None \<Rightarrow> None
   | Some fd \<Rightarrow>
       if sint fd < 0 \<or> sint fd \<ge> int NOFILE then None
       else (case ofile (myproc k) (unat fd) of None \<Rightarrow> None | Some f \<Rightarrow> Some (unat fd, f))))"

definition fdalloc :: "nat \<Rightarrow> kernel \<Rightarrow> nat option \<times> kernel" where
  "fdalloc f k = (case find (\<lambda>fd. ofile (myproc k) fd = None) [0..<NOFILE] of
     None \<Rightarrow> (None, k)
   | Some fd \<Rightarrow> (Some fd, upd_proc (me k) (\<lambda>q. q\<lparr>ofile := (ofile q)(fd := Some f)\<rparr>) k))"

definition clear_fd :: "nat \<Rightarrow> kernel \<Rightarrow> kernel" where
  "clear_fd fd k = upd_proc (me k) (\<lambda>q. q\<lparr>ofile := (ofile q)(fd := None)\<rparr>) k"

definition sys_dup :: handler where
  "sys_dup k = arg (argfd 0 k) k (\<lambda>(_, f).
     case fdalloc f k of
       (None, k1) \<Rightarrow> Inr (Ret (-1), k1)
     | (Some fd, k1) \<Rightarrow> bindE (filedup f k1) (\<lambda>k2. Inr (Ret (int fd), k2)))"

definition sys_read :: handler where
  "sys_read k = arg (argfd 0 k) k (\<lambda>(_, f). arg (argint 2 k) k (\<lambda>n. arg (argptr 1 n k) k (\<lambda>p.
     bindE (fileread f n k) (\<lambda>(r, k1). case r of
       Sleep rest \<Rightarrow> Inr (Sleep rest, k1)
     | Ret None \<Rightarrow> Inr (Ret (-1), k1)
     | Ret (Some bs) \<Rightarrow> bindE (my_stores p bs k1) (\<lambda>k2. Inr (Ret (int (length bs)), k2))))))"

text \<open>How many bytes \<open>filewrite\<close> may look at for a count \<open>n\<close>: a negative count of a file is cut to the
  largest file only.\<close>

definition write_span :: "nat \<Rightarrow> u32 \<Rightarrow> kernel \<Rightarrow> nat" where
  "write_span f n k =
     (let x = ftable k f; ip = icache (fs k) (fip x) in
      if sint n \<ge> 0 then unat n
      else if ftype x = FD_INODE \<and> itype ip \<noteq> T_DEV \<and> foff x \<le> isize ip \<and> foff x + n \<ge> foff x
      then MAXFILE * BSIZE - unat (foff x) else 0)"

definition sys_write :: handler where
  "sys_write k = arg (argfd 0 k) k (\<lambda>(_, f). arg (argint 2 k) k (\<lambda>n. arg (argptr 1 n k) k (\<lambda>p.
     bindE (my_loads p (write_span f n k) k) (\<lambda>src. filewrite f src n k))))"

definition sys_close :: handler where
  "sys_close k = arg (argfd 0 k) k (\<lambda>(fd, f).
     bindE (fileclose f (clear_fd fd k)) (\<lambda>k1. Inr (Ret 0, k1)))"

definition stat_bytes :: "stat \<Rightarrow> u8 list \<Rightarrow> u8 list" where
  \<comment> \<open>\<open>struct stat\<close> in memory; the padding keeps what was there\<close>
  "stat_bytes st bs = st32 (st16 (st32 (st32 (st16 bs 0 (st_type st)) 4 (st_dev st)) 8 (st_ino st)) 12 (st_nlink st))
     16 (st_size st)"

definition sys_fstat :: handler where
  "sys_fstat k = arg (argfd 0 k) k (\<lambda>(_, f). arg (argptr 1 20 k) k (\<lambda>p.
     bindE (filestat f k) (\<lambda>(r, k1). case r of
       None \<Rightarrow> Inr (Ret (-1), k1)
     | Some st \<Rightarrow> bindE (my_loads p 20 k1) (\<lambda>bs.
         bindE (my_stores p (stat_bytes st bs) k1) (\<lambda>k2. Inr (Ret 0, k2))))))"

section \<open>Links\<close>

abbreviation my_namei :: "u8 list \<Rightarrow> kernel \<Rightarrow> (nat option \<times> kernel) result" where
  "my_namei path k \<equiv> with_fs (namei (the (cwd (myproc k))) path) k"

definition my_nameiparent :: "u8 list \<Rightarrow> kernel \<Rightarrow> ((nat option \<times> u8 list) \<times> kernel) result" where
  "my_nameiparent path k = with_fs (\<lambda>s. bindE (nameiparent (the (cwd (myproc k))) path (replicate DIRSIZ 0) s)
     (\<lambda>(r, name, s1). Inr ((r, name), s1))) k"

definition set_inode :: "nat \<Rightarrow> (inode \<Rightarrow> inode) \<Rightarrow> kernel \<Rightarrow> kernel" where
  \<comment> \<open>change the cached inode, then \<open>iupdate\<close>\<close>
  "set_inode i f k = k\<lparr>fs := iupdate i (upd_inode i f (fs k))\<rparr>"

definition link_bad :: "nat \<Rightarrow> handler" where
  "link_bad i k =
     bindE (do_fs (ilock i) k) (\<lambda>k1.
     bindE (do_fs (iunlockput i) (set_inode i (\<lambda>ip. ip\<lparr>nlink := nlink ip - 1\<rparr>) k1)) (\<lambda>k2. Inr (Ret (-1), k2)))"

definition sys_link :: handler where
  "sys_link k = arg (argstr 0 k) k (\<lambda>(_, old). arg (argstr 1 k) k (\<lambda>(_, new).
     bindE (my_namei old k) (\<lambda>(r, k1). case r of
       None \<Rightarrow> Inr (Ret (-1), k1)
     | Some i \<Rightarrow>
         bindE (do_fs (ilock i) k1) (\<lambda>k2.
         if itype (icache (fs k2) i) = T_DIR then bindE (do_fs (iunlockput i) k2) (\<lambda>k3. Inr (Ret (-1), k3))
         else
           bindE (do_fs (iunlock i) (set_inode i (\<lambda>ip. ip\<lparr>nlink := nlink ip + 1\<rparr>) k2)) (\<lambda>k3.
           bindE (my_nameiparent new k3) (\<lambda>((r, name), k4). case r of
             None \<Rightarrow> link_bad i k4
           | Some d \<Rightarrow>
               bindE (do_fs (ilock d) k4) (\<lambda>k5.
               let ip = icache (fs k5) i in
               bindE (if idev (icache (fs k5) d) \<noteq> idev ip then Inr (-1, k5)
                      else with_fs (dirlink (devr k) (devw k) d name (inum ip)) k5) (\<lambda>(r, k6).
               bindE (do_fs (iunlockput d) k6) (\<lambda>k7.
               if r < 0 then link_bad i k7
               else bindE (do_fs (iput i) k7) (\<lambda>k8. Inr (Ret 0, k8)))))))))))"

fun isdirempty_loop :: "nat \<Rightarrow> nat \<Rightarrow> u32 \<Rightarrow> kernel \<Rightarrow> (bool \<times> kernel) result" where
  "isdirempty_loop fuel d off k =
     (if off < isize (icache (fs k) d) then
        case fuel of 0 \<Rightarrow> Inl NoFuel
        | Suc fuel' \<Rightarrow>
            bindE (with_fs (readi (devr k) d off 16) k) (\<lambda>(r, k1). case r of
              None \<Rightarrow> Inl (Panic ''isdirempty: readi'')
            | Some de \<Rightarrow>
                if length de \<noteq> 16 then Inl (Panic ''isdirempty: readi'')
                else if ld16 de 0 \<noteq> 0 then Inr (False, k1)
                else isdirempty_loop fuel' d (off + 16) k1)
      else Inr (True, k))"

declare isdirempty_loop.simps [simp del]

definition isdirempty :: "nat \<Rightarrow> kernel \<Rightarrow> (bool \<times> kernel) result" where
  "isdirempty d k = isdirempty_loop (unat (isize (icache (fs k) d)) div 16 + 1) d 32 k"

definition put_fail :: "nat list \<Rightarrow> handler" where
  "put_fail is k = bindE (foldl (\<lambda>r i. bindE r (do_fs (iunlockput i))) (Inr k) is) (\<lambda>k1. Inr (Ret (-1), k1))"

definition sys_unlink :: handler where
  "sys_unlink k = arg (argstr 0 k) k (\<lambda>(_, path).
     bindE (my_nameiparent path k) (\<lambda>((r, name), k1). case r of
       None \<Rightarrow> Inr (Ret (-1), k1)
     | Some d \<Rightarrow>
         bindE (do_fs (ilock d) k1) (\<lambda>k2.
         if namecmp name [46, 0] = 0 \<or> namecmp name [46, 46, 0] = 0 then put_fail [d] k2
         else bindE (with_fs (dirlookup d name) k2) (\<lambda>(r, k3). case r of
           None \<Rightarrow> put_fail [d] k3
         | Some (i, off) \<Rightarrow>
             bindE (do_fs (ilock i) k3) (\<lambda>k4.
             let ip = icache (fs k4) i in
             if sint (nlink ip) < 1 then Inl (Panic ''unlink: nlink < 1'')
             else bindE (if itype ip = T_DIR then isdirempty i k4 else Inr (True, k4)) (\<lambda>(e, k5).
               if \<not> e then put_fail [i, d] k5
               else bindE (with_fs (writei (devw k) d (replicate 16 0) off 16) k5) (\<lambda>(w, k6).
                 if w \<noteq> 16 then Inl (Panic ''unlink: writei'')
                 else
                   let k7 = (if itype ip = T_DIR then set_inode d (\<lambda>dp. dp\<lparr>nlink := nlink dp - 1\<rparr>) k6 else k6) in
                   bindE (do_fs (iunlockput d) k7) (\<lambda>k8.
                   bindE (do_fs (iunlockput i) (set_inode i (\<lambda>ip. ip\<lparr>nlink := nlink ip - 1\<rparr>) k8)) (\<lambda>k9.
                   Inr (Ret 0, k9))))))))))"

section \<open>Creating and opening\<close>

definition create :: "u8 list \<Rightarrow> u16 \<Rightarrow> u16 \<Rightarrow> u16 \<Rightarrow> kernel \<Rightarrow> (nat option \<times> kernel) result" where
  "create path ty maj mino k =
     bindE (my_nameiparent path k) (\<lambda>((r, name), k1). case r of
       None \<Rightarrow> Inr (None, k1)
     | Some d \<Rightarrow>
         bindE (do_fs (ilock d) k1) (\<lambda>k2.
         bindE (with_fs (dirlookup d name) k2) (\<lambda>(r, k3). case r of
           Some (i, _) \<Rightarrow>
             bindE (do_fs (iunlockput d) k3) (\<lambda>k4.
             bindE (do_fs (ilock i) k4) (\<lambda>k5.
             if ty = T_FILE \<and> itype (icache (fs k5) i) = T_FILE then Inr (Some i, k5)
             else bindE (do_fs (iunlockput i) k5) (\<lambda>k6. Inr (None, k6))))
         | None \<Rightarrow>
             bindE (with_fs (ialloc (idev (icache (fs k3) d)) ty) k3) (\<lambda>(i, k4).
             bindE (do_fs (ilock i) k4) (\<lambda>k5.
             let k6 = set_inode i (\<lambda>ip. ip\<lparr>major := maj, minor := mino, nlink := 1\<rparr>) k5;
                 self = inum (icache (fs k6) i); up = inum (icache (fs k6) d) in
             bindE (if ty = T_DIR then
                      bindE (with_fs (dirlink (devr k) (devw k) i [46, 0] self)
                               (set_inode d (\<lambda>dp. dp\<lparr>nlink := nlink dp + 1\<rparr>) k6)) (\<lambda>(r1, k7).
                      if r1 < 0 then Inl (Panic ''create dots'')
                      else bindE (with_fs (dirlink (devr k) (devw k) i [46, 46, 0] up) k7) (\<lambda>(r2, k8).
                        if r2 < 0 then Inl (Panic ''create dots'') else Inr k8))
                    else Inr k6) (\<lambda>k8.
             bindE (with_fs (dirlink (devr k) (devw k) d name self) k8) (\<lambda>(r3, k9).
             if r3 < 0 then Inl (Panic ''create: dirlink'')
             else bindE (do_fs (iunlockput d) k9) (\<lambda>k10. Inr (Some i, k10)))))))))"

definition open_inode :: "u8 list \<Rightarrow> u32 \<Rightarrow> kernel \<Rightarrow> (nat option \<times> kernel) result" where
  \<comment> \<open>the locked inode that \<open>sys_open\<close> opens\<close>
  "open_inode path omode k =
     (if omode AND O_CREATE \<noteq> 0 then create path T_FILE 0 0 k
      else bindE (my_namei path k) (\<lambda>(r, k1). case r of
        None \<Rightarrow> Inr (None, k1)
      | Some i \<Rightarrow>
          bindE (do_fs (ilock i) k1) (\<lambda>k2.
          if itype (icache (fs k2) i) = T_DIR \<and> omode \<noteq> 0
          then bindE (do_fs (iunlockput i) k2) (\<lambda>k3. Inr (None, k3))
          else Inr (Some i, k2))))"

definition sys_open :: handler where
  "sys_open k = arg (argstr 0 k) k (\<lambda>(_, path). arg (argint 1 k) k (\<lambda>omode.
     bindE (open_inode path omode k) (\<lambda>(r, k1). case r of
       None \<Rightarrow> Inr (Ret (-1), k1)
     | Some i \<Rightarrow>
         (case filealloc k1 of
            (None, k2) \<Rightarrow> put_fail [i] k2
          | (Some f, k2) \<Rightarrow>
              (case fdalloc f k2 of
                 (None, k3) \<Rightarrow> bindE (fileclose f k3) (put_fail [i])
               | (Some fd, k3) \<Rightarrow>
                   bindE (do_fs (iunlock i) k3) (\<lambda>k4.
                   Inr (Ret (int fd), upd_file f (\<lambda>x. x\<lparr>ftype := FD_INODE, fip := i, foff := 0,
                     readable := (omode AND O_WRONLY = 0),
                     writable := (omode AND O_WRONLY \<noteq> 0 \<or> omode AND O_RDWR \<noteq> 0)\<rparr>) k4)))))))"

definition made :: "(nat option \<times> kernel) result \<Rightarrow> (int io \<times> kernel) result" where
  \<comment> \<open>the end of \<open>sys_mkdir\<close> and \<open>sys_mknod\<close>\<close>
  "made c = bindE c (\<lambda>(r, k1). case r of
     None \<Rightarrow> Inr (Ret (-1), k1)
   | Some i \<Rightarrow> bindE (do_fs (iunlockput i) k1) (\<lambda>k2. Inr (Ret 0, k2)))"

definition sys_mkdir :: handler where
  "sys_mkdir k = arg (argstr 0 k) k (\<lambda>(_, path). made (create path T_DIR 0 0 k))"

definition sys_mknod :: handler where
  "sys_mknod k = arg (argstr 0 k) k (\<lambda>(_, path). arg (argint 1 k) k (\<lambda>maj. arg (argint 2 k) k (\<lambda>mino.
     made (create path T_DEV (ucast maj) (ucast mino) k))))"

definition sys_chdir :: handler where
  "sys_chdir k = arg (argstr 0 k) k (\<lambda>(_, path).
     bindE (my_namei path k) (\<lambda>(r, k1). case r of
       None \<Rightarrow> Inr (Ret (-1), k1)
     | Some i \<Rightarrow>
         bindE (do_fs (ilock i) k1) (\<lambda>k2.
         if itype (icache (fs k2) i) \<noteq> T_DIR then put_fail [i] k2
         else
           bindE (do_fs (iunlock i) k2) (\<lambda>k3.
           bindE (do_fs (iput (the (cwd (myproc k3)))) k3) (\<lambda>k4.
           Inr (Ret 0, upd_proc (me k4) (\<lambda>q. q\<lparr>cwd := Some i\<rparr>) k4))))))"

section \<open>Programs and pipes\<close>

fun fetch_argv :: "nat \<Rightarrow> u32 \<Rightarrow> kernel \<Rightarrow> u8 list list option result" where
  "fetch_argv 0 a k = Inr None"
| "fetch_argv (Suc n) a k =
     bindE (fetchint a k) (\<lambda>r. case r of None \<Rightarrow> Inr None
     | Some u \<Rightarrow>
         if u = 0 then Inr (Some [])
         else bindE (fetchstr u k) (\<lambda>r. case r of None \<Rightarrow> Inr None
           | Some (_, s) \<Rightarrow> bindE (fetch_argv n (a + 4) k) (\<lambda>r.
               Inr (case r of None \<Rightarrow> None | Some ss \<Rightarrow> Some (s # ss)))))"

definition sys_exec :: handler where
  "sys_exec k = arg (argstr 0 k) k (\<lambda>(_, path). arg (argint 1 k) k (\<lambda>uargv.
     arg (fetch_argv MAXARG uargv k) k (\<lambda>argv.
     bindE (exec path argv k) (\<lambda>(r, k1). Inr (Ret r, k1)))))"

definition sys_pipe :: handler where
  "sys_pipe k = arg (argptr 0 8 k) k (\<lambda>p.
     bindE (pipealloc k) (\<lambda>(r, k1). case r of
       None \<Rightarrow> Inr (Ret (-1), k1)
     | Some (rd, wr) \<Rightarrow>
         (case fdalloc rd k1 of
            (None, k2) \<Rightarrow> bindE (fileclose rd k2) (\<lambda>k3. bindE (fileclose wr k3) (\<lambda>k4. Inr (Ret (-1), k4)))
          | (Some fd0, k2) \<Rightarrow>
              (case fdalloc wr k2 of
                 (None, k3) \<Rightarrow> bindE (fileclose rd (clear_fd fd0 k3)) (\<lambda>k4.
                   bindE (fileclose wr k4) (\<lambda>k5. Inr (Ret (-1), k5)))
               | (Some fd1, k3) \<Rightarrow>
                   bindE (my_stores p (words_bytes [of_nat fd0, of_nat fd1]) k3) (\<lambda>k4. Inr (Ret 0, k4))))))"

end
