(* ===== verification/Syscall.thy ===== *)
theory Syscall
  imports Sysfile
begin

text \<open>
  The process system calls (\<open>kernel/sysproc.c\<close>), the dispatch of system calls (\<open>kernel/syscall.c\<close>) and
  of traps (\<open>kernel/trap.c\<close>). Of the other interrupts the handlers \<open>ideintr\<close>, \<open>kbdintr\<close> and
  \<open>uartintr\<close> are an argument; acknowledging the interrupt controller has no effect here.
\<close>

section \<open>Process calls\<close>

definition of_call :: "(int \<times> kernel) result \<Rightarrow> (int io \<times> kernel) result" where
  "of_call r = bindE r (\<lambda>(x, k). Inr (Ret x, k))"

definition sys_fork :: handler where "sys_fork k = of_call (fork k)"

definition sys_exit :: handler where
  \<comment> \<open>the process is a zombie and does not come back\<close>
  "sys_exit k = bindE (exit k) (\<lambda>k1. Inr (Sleep [], k1))"

definition sys_wait :: handler where "sys_wait k = wait k"

definition sys_kill :: handler where
  "sys_kill k = arg (argint 0 k) k (\<lambda>p. let (r, t) = kill p (ptable k) in Inr (Ret r, k\<lparr>ptable := t\<rparr>))"

definition sys_getpid :: handler where "sys_getpid k = Inr (Ret (sint (pid (myproc k))), k)"

definition sys_sbrk :: handler where
  "sys_sbrk k = arg (argint 0 k) k (\<lambda>n.
     bindE (growproc n k) (\<lambda>(r, k1). Inr (Ret (if r < 0 then -1 else sint (sz (myproc k))), k1)))"

text \<open>The test of the loop of \<open>sys_sleep\<close>, run first and after every wakeup; \<open>n\<close> counts unsigned.\<close>

definition sleep_check :: "u32 \<Rightarrow> u32 \<Rightarrow> handler" where
  "sleep_check n ticks0 k =
     (if kticks k - ticks0 < n then
        if killed (myproc k) then Inr (Ret (-1), k)
        else bindE (sleep ChTicks k) (\<lambda>k1. Inr (Sleep [], k1))
      else Inr (Ret 0, k))"

definition sys_sleep :: handler where
  "sys_sleep k = arg (argint 0 k) k (\<lambda>n. sleep_check n (kticks k) k)"

definition sys_uptime :: handler where "sys_uptime k = Inr (Ret (sint (kticks k)), k)"

definition sys_getFreePagesCount :: handler where
  "sys_getFreePagesCount k = Inr (Ret (getFreePagesCount (km k)), k)"

section \<open>Dispatch\<close>

definition syscalls :: "nat \<Rightarrow> handler option" where
  "syscalls n =
     (if n = 1 then Some sys_fork else if n = 2 then Some sys_exit else if n = 3 then Some sys_wait
      else if n = 4 then Some sys_pipe else if n = 5 then Some sys_write else if n = 6 then Some sys_read
      else if n = 7 then Some sys_close else if n = 8 then Some sys_kill else if n = 9 then Some sys_exec
      else if n = 10 then Some sys_open else if n = 11 then Some sys_mknod else if n = 12 then Some sys_unlink
      else if n = 13 then Some sys_fstat else if n = 14 then Some sys_link else if n = 15 then Some sys_mkdir
      else if n = 16 then Some sys_chdir else if n = 17 then Some sys_dup else if n = 18 then Some sys_getpid
      else if n = 19 then Some sys_sbrk else if n = 20 then Some sys_sleep else if n = 21 then Some sys_uptime
      else if n = 22 then Some sys_getFreePagesCount else None)"

definition set_eax :: "int \<Rightarrow> kernel \<Rightarrow> kernel" where
  "set_eax r k = upd_proc (me k) (\<lambda>q. q\<lparr>tf := (tf q)\<lparr>eax := word_of_int r\<rparr>\<rparr>) k"

text \<open>The result says whether the process is still on the CPU.\<close>

definition syscall :: "kernel \<Rightarrow> (bool \<times> kernel) result" where
  "syscall k =
     (let num = eax (tf (myproc k)) in
      case (if sint num > 0 \<and> sint num < 23 then syscalls (unat num) else None) of
        None \<Rightarrow> Inr (True, set_eax (-1) k)
      | Some h \<Rightarrow> bindE (h k) (\<lambda>(r, k1). case r of
          Ret v \<Rightarrow> Inr (True, set_eax v k1)
        | Sleep _ \<Rightarrow> Inr (False, k1)))"

section \<open>Traps\<close>

definition T_PGFLT :: u32 where "T_PGFLT = 14"
definition T_IRQ0 :: u32 where "T_IRQ0 = 32"
definition T_SYSCALL :: u32 where "T_SYSCALL = 64"

definition trap_end :: "trapframe \<Rightarrow> kernel \<Rightarrow> kernel result" where
  \<comment> \<open>a killed process in user mode exits; a timer tick gives up the CPU\<close>
  "trap_end f k =
     (if cur k = None then Inr k
      else if killed (myproc k) \<and> tf_cs f AND 3 = 3 then exit k
      else if state (myproc k) = RUNNING \<and> trapno f = T_IRQ0 then Inr (yield k)
      else Inr k)"

definition trap_back :: "trapframe \<Rightarrow> kernel \<Rightarrow> kernel result" where
  \<comment> \<open>the rest of \<open>trap\<close>, when the process runs again after \<open>yield\<close>\<close>
  "trap_back f k = (if killed (myproc k) \<and> tf_cs f AND 3 = 3 then exit k else Inr k)"

definition trap :: "(u32 \<Rightarrow> kernel \<Rightarrow> kernel) \<Rightarrow> bool \<Rightarrow> u32 \<Rightarrow> trapframe \<Rightarrow> kernel \<Rightarrow> kernel result" where
  \<comment> \<open>\<open>dev n\<close> handles device interrupt \<open>n\<close>; \<open>cpu0\<close>: on the first CPU; \<open>va\<close> is \<open>rcr2()\<close>\<close>
  "trap dev cpu0 va f k =
     (if trapno f = T_SYSCALL then
        if killed (myproc k) then exit k
        else bindE (syscall (upd_proc (me k) (\<lambda>q. q\<lparr>tf := f\<rparr>) k)) (\<lambda>(running, k1).
          if running \<and> killed (myproc k1) then exit k1 else Inr k1)
      else if trapno f = T_IRQ0 then
        trap_end f (if cpu0 then wakeup ChTicks (k\<lparr>kticks := kticks k + 1\<rparr>) else k)
      else if trapno f = T_IRQ0 + 14 then trap_end f (dev 14 k)
      else if trapno f = T_IRQ0 + 15 then trap_end f k
      else if trapno f = T_IRQ0 + 1 then trap_end f (dev 1 k)
      else if trapno f = T_IRQ0 + 4 then trap_end f (dev 4 k)
      else if trapno f = T_IRQ0 + 7 \<or> trapno f = T_IRQ0 + 31 then trap_end f k
      else if trapno f = T_PGFLT then
        bindE (do_km (pgfltintr va (pgdir (myproc k))) k) (trap_end f)
      else if cur k = None \<or> tf_cs f AND 3 = 0 then Inl (Panic ''trap'')
      else trap_end f (upd_proc (me k) (\<lambda>q. q\<lparr>killed := True\<rparr>) k))"

end
