(* ===== verification/Kframe.thy ===== *)
theory Kframe
  imports Syscall
begin

text \<open>
  Invariants of kernel steps: \<open>Ok Q m\<close> says that whatever \<open>m\<close> returns satisfies \<open>Q\<close>, its rules take a
  handler apart along its sequencing. A handler that works only through memory and file system keeps
  every assertion that depends on neither; the locales collect what each kind of assertion survives.
\<close>

section \<open>Invariants of fallible steps\<close>

text \<open>If the step returns, its result satisfies \<open>Q\<close>.\<close>

definition Ok :: "('a \<Rightarrow> bool) \<Rightarrow> 'a result \<Rightarrow> bool" where
  "Ok Q m \<longleftrightarrow> (\<forall>x. m = Inr x \<longrightarrow> Q x)"

named_theorems ok_rules \<open>rules that establish \<open>Ok\<close> of a step from its parts\<close>

lemma Ok_Inr [simp]: "Ok Q (Inr x) \<longleftrightarrow> Q x" and Ok_Inl [simp]: "Ok Q (Inl e)"
  by (simp_all add: Ok_def)

lemma Ok_bind: "Ok P m \<Longrightarrow> (\<And>x. P x \<Longrightarrow> Ok Q (f x)) \<Longrightarrow> Ok Q (bindE m f)"
  by (cases m) (auto simp: Ok_def)

lemma Ok_any: "Ok (\<lambda>_. True) m" by (simp add: Ok_def)

lemma OkD: "Ok Q m \<Longrightarrow> m = Inr x \<Longrightarrow> Q x" by (simp add: Ok_def)

lemma Ok_mono: "Ok P m \<Longrightarrow> (\<And>x. P x \<Longrightarrow> Q x) \<Longrightarrow> Ok Q m" by (simp add: Ok_def)

text \<open>Steps that only look something up.\<close>

lemma Ok_query [ok_rules]:
  fixes pte :: "((u32 \<times> nat) option \<times> kmem) result" and bs :: "u8 list result"
    and w :: "'b option result"
  shows "(\<And>x. Ok Q (f x)) \<Longrightarrow> Ok Q (bindE pte f)" "(\<And>x. Ok Q (g x)) \<Longrightarrow> Ok Q (bindE bs g)"
    "(\<And>x. Ok Q (h x)) \<Longrightarrow> Ok Q (bindE w h)"
  by (auto intro: Ok_bind Ok_any)

lemma Ok_arg [ok_rules]:
  "I k \<Longrightarrow> (\<And>x. Ok (\<lambda>(r, k). I k) (f x)) \<Longrightarrow> Ok (\<lambda>(r, k). I k) (arg r k f)"
  by (auto simp: arg_def Ok_def bindE_def split: sum.splits option.splits)

abbreviation keeps :: "(kernel \<Rightarrow> bool) \<Rightarrow> ('a \<times> kernel) result \<Rightarrow> bool" where
  "keeps I m \<equiv> Ok (\<lambda>(x, k). I k) m"

section \<open>Steps in memory and in the file system\<close>

locale kernel_mem =
  fixes I :: "kernel \<Rightarrow> bool"
  assumes I_fs: "I k \<Longrightarrow> I (k\<lparr>fs := s\<rparr>)"
    and I_km: "I k \<Longrightarrow> I (k\<lparr>km := m\<rparr>)"

context kernel_mem begin

lemma bind_ok [ok_rules]:
  "Ok I r \<Longrightarrow> (\<And>k. I k \<Longrightarrow> Ok Q (f k)) \<Longrightarrow> Ok Q (bindE r f)"
  "keeps I p \<Longrightarrow> (\<And>x k. I k \<Longrightarrow> Ok Q (g (x, k))) \<Longrightarrow> Ok Q (bindE p g)"
  by (erule Ok_bind, auto)+

lemma with_ok [ok_rules]:
  "I k \<Longrightarrow> keeps I (with_fs f k)" "I k \<Longrightarrow> keeps I (with_km g k)"
  "I k \<Longrightarrow> Ok I (do_fs h k)" "I k \<Longrightarrow> Ok I (do_km i k)"
  by (auto simp: with_fs_def with_km_def do_fs_def do_km_def Ok_def bindE_def I_fs I_km split: sum.splits)

lemma my_stores_ok [ok_rules]: "I k \<Longrightarrow> Ok I (my_stores p bs k)"
  by (auto simp: my_stores_def intro!: ok_rules)

lemma loaduvm_loop_ok [ok_rules]: "I k \<Longrightarrow> keeps I (loaduvm_loop fuel d addr ip off len i k)"
proof (induction fuel arbitrary: i k)
  case 0
  then show ?case by (simp add: loaduvm_loop.simps)
next
  case (Suc fuel)
  then show ?case
    by (subst loaduvm_loop.simps)
      (auto simp: Let_def intro!: ok_rules Suc.IH I_km split: option.splits)
qed

lemma loaduvm_ok [ok_rules]: "I k \<Longrightarrow> keeps I (loaduvm d addr ip off len k)"
  by (auto simp: loaduvm_def intro!: ok_rules)

lemma load_segments_ok [ok_rules]: "I k \<Longrightarrow> keeps I (load_segments n d ip off s k)"
  by (induction n arbitrary: off s k) (auto simp: Let_def intro!: ok_rules split: option.splits)

lemma push_args_ok [ok_rules]: "I k \<Longrightarrow> keeps I (push_args as argc sp us d k)"
  by (induction as arbitrary: argc sp us k) (auto simp: Let_def intro!: ok_rules)

lemma exec_bad_ok [ok_rules]: "I k \<Longrightarrow> keeps I (exec_bad ip d k)"
  by (auto simp: exec_bad_def intro!: ok_rules split: option.splits)

lemma set_inode_I [ok_rules]: "I k \<Longrightarrow> I (set_inode i f k)"
  by (auto simp: set_inode_def intro!: I_fs)

lemma isdirempty_loop_ok [ok_rules]: "I k \<Longrightarrow> keeps I (isdirempty_loop fuel d off k)"
proof (induction fuel arbitrary: off k)
  case 0
  then show ?case by (simp add: isdirempty_loop.simps)
next
  case (Suc fuel)
  then show ?case
    by (subst isdirempty_loop.simps) (auto simp: Let_def intro!: ok_rules Suc.IH split: option.splits)
qed

lemma put_fail_ok [ok_rules]: "I k \<Longrightarrow> keeps I (put_fail is k)"
proof -
  have "Ok I r \<Longrightarrow> Ok I (foldl (\<lambda>r i. bindE r (do_fs (iunlockput i))) r is)" for r
  proof (induction "is" arbitrary: r)
    case (Cons i js)
    have "Ok I (bindE r (do_fs (iunlockput i)))" by (intro ok_rules) (use Cons.prems in simp_all)
    then show ?case using Cons.IH by simp
  qed simp
  then show "I k \<Longrightarrow> ?thesis" unfolding put_fail_def by (auto intro!: ok_rules)
qed

lemma link_bad_ok [ok_rules]: "I k \<Longrightarrow> keeps I (link_bad i k)"
  by (auto simp: link_bad_def intro!: ok_rules)

lemma nameiparent_ok [ok_rules]: "I k \<Longrightarrow> keeps I (my_nameiparent path k)"
  by (auto simp: my_nameiparent_def intro!: ok_rules)

lemma link_ok [ok_rules]: "I k \<Longrightarrow> keeps I (sys_link k)"
  by (auto simp: sys_link_def Let_def intro!: ok_rules split: option.splits)

lemma unlink_ok [ok_rules]: "I k \<Longrightarrow> keeps I (sys_unlink k)"
  by (auto simp: sys_unlink_def isdirempty_def Let_def intro!: ok_rules split: option.splits)

lemma create_ok [ok_rules]: "I k \<Longrightarrow> keeps I (create path ty maj mino k)"
  by (auto simp: create_def Let_def intro!: ok_rules split: option.splits)

lemma open_inode_ok [ok_rules]: "I k \<Longrightarrow> keeps I (open_inode path omode k)"
  by (auto simp: open_inode_def intro!: ok_rules split: option.splits)

lemma mkdir_ok [ok_rules]: "I k \<Longrightarrow> keeps I (sys_mkdir k)" "I k \<Longrightarrow> keeps I (sys_mknod k)"
  by (auto simp: sys_mkdir_def sys_mknod_def made_def intro!: ok_rules split: option.splits)

end

section \<open>Steps that leave the open files alone\<close>

text \<open>An assertion on the running process, the descriptors of the processes and the counts of the files; no
  process may become idle (unused or a zombie) unseen.\<close>

definition idle :: "procstate \<Rightarrow> bool" where
  "idle st \<longleftrightarrow> st = UNUSED \<or> st = ZOMBIE"

definition same_files :: "kernel \<Rightarrow> kernel \<Rightarrow> bool" where
  "same_files k k' \<longleftrightarrow> cur k' = cur k \<and> (\<forall>f. fref (ftable k' f) = fref (ftable k f)) \<and>
     (\<forall>p. ofile (ptable k' p) = ofile (ptable k p) \<and> (idle (state (ptable k' p)) \<longrightarrow> idle (state (ptable k p))))"

lemma same_files_refl [simp]: "same_files k k" by (simp add: same_files_def)

lemma same_files_trans: "same_files k l \<Longrightarrow> same_files l m \<Longrightarrow> same_files k m"
  by (auto simp: same_files_def)

locale kernel_files = kernel_mem +
  assumes I_same: "same_files k k' \<Longrightarrow> I k \<Longrightarrow> I k'"

context kernel_files begin

lemma I_upd:
  "I k \<Longrightarrow> (\<And>q. ofile (g q) = ofile q \<and> (idle (state (g q)) \<longrightarrow> idle (state q))) \<Longrightarrow> I (upd_proc p g k)"
  "I k \<Longrightarrow> (\<And>x. fref (h x) = fref x) \<Longrightarrow> I (upd_file f h k)"
  "I k \<Longrightarrow> I (k\<lparr>pipes := ps\<rparr>)" "I k \<Longrightarrow> I (k\<lparr>nextpid := n\<rparr>)"
  "I k \<Longrightarrow> I (k\<lparr>initproc := ip\<rparr>)" "I k \<Longrightarrow> I (k\<lparr>kticks := t\<rparr>)"
  "I k \<Longrightarrow> (\<And>p. ofile (tab p) = ofile (ptable k p) \<and>
     (idle (state (tab p)) \<longrightarrow> idle (state (ptable k p)))) \<Longrightarrow> I (k\<lparr>ptable := tab\<rparr>)"
  by (erule I_same [rotated]; simp add: same_files_def)+

lemma wakeup1_files [simp]: "ofile (wakeup1 c t p) = ofile (t p)" "idle (state (wakeup1 c t p)) = idle (state (t p))"
  by (auto simp: wakeup1_eq idle_def)

lemma I_wakeup: "I k \<Longrightarrow> I (wakeup c k)"
  by (auto simp: wakeup_def intro!: I_upd)

lemma I_wakeups: "I k \<Longrightarrow> I (wakeups cs k)"
  unfolding wakeups_def by (induction cs arbitrary: k) (auto intro!: I_wakeup)

lemma sleep_ok [ok_rules]: "I k \<Longrightarrow> Ok I (sleep c k)"
  by (auto simp: sleep_def idle_def intro!: I_upd split: option.splits)

lemma fileread_ok [ok_rules]: "I k \<Longrightarrow> keeps I (fileread f n k)"
  by (auto simp: fileread_def Let_def intro!: ok_rules I_upd I_wakeups
      split: option.splits ftype.splits io.splits prod.splits)

lemma filewrite_ok [ok_rules]: "I k \<Longrightarrow> keeps I (filewrite f src n k)"
  by (auto simp: filewrite_def Let_def intro!: ok_rules I_upd I_wakeups
      split: option.splits ftype.splits io.splits prod.splits)

lemma filestat_ok [ok_rules]: "I k \<Longrightarrow> keeps I (filestat f k)"
  by (auto simp: filestat_def Let_def intro!: ok_rules)

lemma pipeclose_ok [ok_rules]: "I k \<Longrightarrow> Ok I (pipeclose a w k)"
  by (auto simp: pipeclose_def Let_def intro!: ok_rules I_upd I_wakeup split: prod.splits)

lemma read_ok [ok_rules]: "I k \<Longrightarrow> keeps I (sys_read k)"
  by (auto simp: sys_read_def intro!: ok_rules split: option.splits io.splits)

lemma write_ok [ok_rules]: "I k \<Longrightarrow> keeps I (sys_write k)"
  by (auto simp: sys_write_def intro!: ok_rules)

lemma fstat_ok [ok_rules]: "I k \<Longrightarrow> keeps I (sys_fstat k)"
  by (auto simp: sys_fstat_def intro!: ok_rules split: option.splits)

lemma chdir_ok [ok_rules]: "I k \<Longrightarrow> keeps I (sys_chdir k)"
  by (auto simp: sys_chdir_def intro!: ok_rules I_upd split: option.splits)

lemma exec_commit_ok [ok_rules]: "I k \<Longrightarrow> keeps I (exec_commit d s entry path argv k)"
  by (auto simp: exec_commit_def Let_def intro!: ok_rules I_upd split: option.splits)

lemma exec_ok [ok_rules]: "I k \<Longrightarrow> keeps I (exec path argv k)"
  by (auto simp: exec_def Let_def intro!: ok_rules split: option.splits)

lemma sys_exec_ok [ok_rules]: "I k \<Longrightarrow> keeps I (sys_exec k)"
  by (auto simp: sys_exec_def intro!: ok_rules)

lemma growproc_ok [ok_rules]: "I k \<Longrightarrow> keeps I (growproc n k)"
  by (auto simp: growproc_def Let_def intro!: ok_rules I_upd)

lemma reap_same: "reap p k = Inr k' \<Longrightarrow> state (ptable k p) = ZOMBIE \<Longrightarrow> same_files k k'"
  by (auto simp: reap_def do_km_def res_simps same_files_def idle_def split: if_splits)

lemma wait_ok [ok_rules]: "I k \<Longrightarrow> keeps I (sys_wait k)"
  unfolding sys_wait_def wait_def
  by (auto intro!: ok_rules split: option.splits)
    (auto simp: Ok_def res_simps find_Some_iff intro: I_same reap_same)

lemma small_calls_ok [ok_rules]:
  "I k \<Longrightarrow> keeps I (sys_getpid k)" "I k \<Longrightarrow> keeps I (sys_sbrk k)" "I k \<Longrightarrow> keeps I (sys_sleep k)"
  "I k \<Longrightarrow> keeps I (sys_uptime k)" "I k \<Longrightarrow> keeps I (sys_getFreePagesCount k)"
  by (auto simp: sys_getpid_def sys_sbrk_def sys_sleep_def sleep_check_def sys_uptime_def
      sys_getFreePagesCount_def intro!: ok_rules)

lemma kill_files: "kill p t = (r, t') \<Longrightarrow> ofile (t' i) = ofile (t i) \<and> (idle (state (t' i)) \<longrightarrow> idle (state (t i)))"
  by (auto simp: kill_def Let_def set_state_def idle_def split: option.splits if_splits)

lemma kill_ok [ok_rules]: "I k \<Longrightarrow> keeps I (sys_kill k)"
  by (auto simp: sys_kill_def Let_def intro!: ok_rules I_upd dest: kill_files split: prod.splits)

end

end
