(* ===== verification/Files_Spec.thy ===== *)
theory Files_Spec
  imports Kframe
begin

text \<open>
  The reference counts of open files over all runs of the kernel. A handler that holds references in
  local variables \<open>owes\<close> them: each operation on files moves one unit between the table, the
  descriptors and the debt, and every system call starts and ends without debt.
\<close>

section \<open>Counting the holders of a file\<close>

definition holders :: "kernel \<Rightarrow> nat \<Rightarrow> int" where
  "holders k f = (\<Sum>p<NPROC. \<Sum>i<NOFILE. if ofile (ptable k p) i = Some f then 1 else 0)"

text \<open>The count of every open file is the number of descriptors that name it, plus the references \<open>d\<close>
  that the running handler holds in local variables; an idle process has no open files.\<close>

definition owes :: "(nat \<Rightarrow> int) \<Rightarrow> kernel \<Rightarrow> bool" where
  "owes d k \<longleftrightarrow> (\<forall>f. fref (ftable k f) = holders k f + d f) \<and>
     (\<forall>p < NPROC. idle (state (ptable k p)) \<longrightarrow> (\<forall>i < NOFILE. ofile (ptable k p) i = None))"

abbreviation files_exact :: "kernel \<Rightarrow> bool" where "files_exact \<equiv> owes (\<lambda>_. 0)"

definition live :: "kernel \<Rightarrow> bool" where
  "live k \<longleftrightarrow> (\<exists>p < NPROC. cur k = Some p \<and> \<not> idle (state (ptable k p)))"

definition running :: "(nat \<Rightarrow> int) \<Rightarrow> kernel \<Rightarrow> bool" where
  "running d k \<longleftrightarrow> owes d k \<and> live k"

lemma holders_same: "same_files k k' \<Longrightarrow> holders k' f = holders k f"
  by (simp add: holders_def same_files_def)

lemma owes_same: "same_files k k' \<Longrightarrow> owes d k \<Longrightarrow> owes d k'"
  using holders_same [of k k'] by (auto simp: owes_def same_files_def)

lemma live_same: "same_files k k' \<Longrightarrow> live k \<Longrightarrow> live k'"
  by (auto simp: live_def same_files_def)

lemma holders_set:
  assumes "p < NPROC" "i < NOFILE"
  shows "holders (upd_proc p (\<lambda>q. q\<lparr>ofile := (ofile q)(i := x)\<rparr>) k) f =
    holders k f - (if ofile (ptable k p) i = Some f then 1 else 0) + (if x = Some f then 1 else 0)"
proof -
  let ?g = "\<lambda>q. \<Sum>i<NOFILE. if ofile q i = Some f then 1 else 0 :: int"
  let ?q = "ptable k p"
  have "?g (?q\<lparr>ofile := (ofile ?q)(i := x)\<rparr>) =
      ?g ?q - (if ofile ?q i = Some f then 1 else 0) + (if x = Some f then 1 else 0)"
    using sum_point [OF assms(2), of "\<lambda>y. if y = Some f then 1 else 0" "ofile ?q" x] by simp
  moreover have "holders (upd_proc p (\<lambda>q. q\<lparr>ofile := (ofile q)(i := x)\<rparr>) k) f =
      holders k f - ?g ?q + ?g (?q\<lparr>ofile := (ofile ?q)(i := x)\<rparr>)"
    using sum_point [OF assms(1), of ?g "ptable k" "?q\<lparr>ofile := (ofile ?q)(i := x)\<rparr>"]
    by (simp add: holders_def del: fun_upd_apply)
  ultimately show ?thesis by simp
qed

lemma holders_upd_file [simp]: "holders (upd_file f g k) h = holders k h"
  by (simp add: holders_def)

lemma owes_file: "owes d k \<Longrightarrow> owes (d(f := d f + (fref (g (ftable k f)) - fref (ftable k f)))) (upd_file f g k)"
  by (auto simp: owes_def)

lemma running_file:
  "running d k \<Longrightarrow> running (d(f := d f + (fref (g (ftable k f)) - fref (ftable k f)))) (upd_file f g k)"
  using owes_file by (simp add: running_def live_def)

lemma running_cong: "running d k \<Longrightarrow> d' = d \<Longrightarrow> running d' k" by simp

text \<open>A descriptor of a live process takes over, or gives back, one reference.\<close>

lemma owes_set:
  assumes "owes d k" "p < NPROC" "i < NOFILE" "\<not> idle (state (ptable k p))" "ofile (ptable k p) i = None"
  shows "owes (d(f := d f - 1)) (upd_proc p (\<lambda>q. q\<lparr>ofile := (ofile q)(i := Some f)\<rparr>) k)"
  using assms holders_set [OF assms(2,3), of "Some f" k] by (auto simp: owes_def)

lemma owes_clear:
  assumes "owes d k" "p < NPROC" "i < NOFILE" "ofile (ptable k p) i = Some f"
  shows "owes (d(f := d f + 1)) (upd_proc p (\<lambda>q. q\<lparr>ofile := (ofile q)(i := None)\<rparr>) k)"
  using assms holders_set [OF assms(2,3), of None k] by (auto simp: owes_def)

section \<open>Operations on files\<close>

lemma filealloc_owes:
  assumes "running d k"
  shows "filealloc k = (Some f, k') \<Longrightarrow> running (d(f := d f + 1)) k'"
    and "filealloc k = (None, k') \<Longrightarrow> running d k'"
  using running_file [OF assms, of f "\<lambda>x. x\<lparr>fref := 1\<rparr>"] assms
  by (auto simp: filealloc_def find_Some_iff split: option.splits)

lemma filedup_owes: "running d k \<Longrightarrow> filedup f k = Inr k' \<Longrightarrow> running (d(f := d f + 1)) k'"
  using running_file [of d k f "\<lambda>x. x\<lparr>fref := fref x + 1\<rparr>"] by (auto simp: filedup_def split: if_splits)

lemma fdalloc_owes:
  assumes "running d k"
  shows "fdalloc f k = (Some fd, k') \<Longrightarrow> running (d(f := d f - 1)) k' \<and> fd < NOFILE \<and> ofile (myproc k') fd = Some f"
    and "fdalloc f k = (None, k') \<Longrightarrow> running d k'"
  using assms
  by (auto simp: fdalloc_def find_Some_iff running_def live_def intro!: owes_set split: option.splits)

lemma clear_fd_owes:
  assumes "running d k" "fd < NOFILE" "ofile (myproc k) fd = Some f"
  shows "running (d(f := d f + 1)) (clear_fd fd k)"
  using assms by (auto simp: clear_fd_def running_def live_def intro!: owes_clear)

interpretation any_files: kernel_files "same_files k0" for k0
  by unfold_locales (auto intro: same_files_trans simp: same_files_def)

lemma fileclose_same:
  assumes "fileclose f k = Inr k'"
  shows "same_files (upd_file f (\<lambda>x. x\<lparr>fref := fref x - 1\<rparr>) k) k'"
proof -
  let ?m = "upd_file f (\<lambda>x. x\<lparr>fref := fref x - 1\<rparr>) k"
  let ?l = "upd_file f (\<lambda>x. x\<lparr>fref := 0, ftype := FD_NONE\<rparr>) k"
  have r: "1 \<le> fref (ftable k f)" using assms by (auto simp: fileclose_def Let_def split: if_splits)
  show ?thesis
  proof (cases "fref (ftable k f) > 1")
    case True
    then show ?thesis using assms by (simp add: fileclose_def)
  next
    case False
    then have l: "same_files ?m ?l" using r by (simp add: same_files_def)
    have "(case ftype (ftable k f) of FD_PIPE \<Rightarrow> pipeclose (fpipe (ftable k f)) (writable (ftable k f)) ?l
        | FD_INODE \<Rightarrow> do_fs (iput (fip (ftable k f))) ?l | FD_NONE \<Rightarrow> Inr ?l) = Inr k'"
      using assms False r by (simp add: fileclose_def Let_def)
    then show ?thesis
      using l OkD [OF any_files.pipeclose_ok [OF l]] OkD [OF any_files.with_ok(3) [OF l]]
      by (auto split: ftype.splits)
  qed
qed

lemma fileclose_owes: "running d k \<Longrightarrow> fileclose f k = Inr k' \<Longrightarrow> running (d(f := d f - 1)) k'"
  using running_file [of d k f "\<lambda>x. x\<lparr>fref := fref x - 1\<rparr>"] fileclose_same owes_same live_same
  unfolding running_def by fastforce

section \<open>System calls\<close>

lemma running_same: "same_files k k' \<Longrightarrow> running d k \<Longrightarrow> running d k'"
  using owes_same live_same by (auto simp: running_def)

interpretation counted: kernel_files "running d" for d
proof
  show "running d (k\<lparr>fs := s\<rparr>)" if "running d k" for k s
    by (rule running_same [OF _ that]) (simp add: same_files_def)
  show "running d (k\<lparr>km := m\<rparr>)" if "running d k" for k m
    by (rule running_same [OF _ that]) (simp add: same_files_def)
qed (rule running_same)

abbreviation exact :: "kernel \<Rightarrow> bool" where "exact \<equiv> running (\<lambda>_. 0)"

lemma no_debt [simp]: "(\<lambda>_. 0 :: int)(f := 0) = (\<lambda>_. 0)"
  by auto

lemma argfd_some:
  assumes "argfd n k = Inr (Some (fd, f))"
  shows "fd < NOFILE" and "ofile (myproc k) fd = Some f"
proof -
  from assms obtain w where w: "argint n k = Inr (Some w)" "\<not> sint w < 0" "\<not> sint w \<ge> int NOFILE"
      "fd = unat w" "ofile (myproc k) (unat w) = Some f"
    unfolding argfd_def by (cases "argint n k") (auto split: option.splits if_splits)
  then have "int (unat w) < int NOFILE" using sint_nonneg [of w] by linarith
  then show "fd < NOFILE" "ofile (myproc k) fd = Some f" using w by (simp_all only: of_nat_less_iff)
qed

lemma Ok_argfd:
  assumes "I k" "\<And>fd f. fd < NOFILE \<Longrightarrow> ofile (myproc k) fd = Some f \<Longrightarrow> keeps I (h (fd, f))"
  shows "keeps I (arg (argfd n k) k h)"
  using assms argfd_some [of n k] by (auto simp: arg_def Ok_def bindE_def split: sum.splits option.splits)

lemma dup_exact: "exact k \<Longrightarrow> keeps exact (sys_dup k)"
  unfolding sys_dup_def
proof (rule Ok_argfd)
  fix fd f assume ex: "exact k"
  note fdalloc_owes [OF ex, of f] filedup_owes [of "(\<lambda>_. 0)(f := - 1)" _ f]
  then show "keeps exact (case (fd, f) of (_, f) \<Rightarrow> case fdalloc f k of (None, k1) \<Rightarrow> Inr (Ret (- 1), k1)
       | (Some fd, k1) \<Rightarrow> bindE (filedup f k1) (\<lambda>k2. Inr (Ret (int fd), k2)))"
    by (auto simp: Ok_def res_simps split: prod.splits option.splits)
qed

text \<open>Closing a file that only a local variable of the handler holds.\<close>

lemma fileclose_drop: "running (d(f := d f + 1)) k \<Longrightarrow> Ok (running d) (fileclose f k)"
  using fileclose_owes by (fastforce simp: Ok_def)

lemma close_exact: "exact k \<Longrightarrow> keeps exact (sys_close k)"
  unfolding sys_close_def
proof (rule Ok_argfd)
  fix fd f assume "exact k" "fd < NOFILE" "ofile (myproc k) fd = Some f"
  from clear_fd_owes [OF this] show "keeps exact (case (fd, f) of (fd, f) \<Rightarrow>
      bindE (fileclose f (clear_fd fd k)) (\<lambda>k1. Inr (Ret 0, k1)))"
    by (auto intro!: counted.bind_ok fileclose_drop)
qed

lemma open_exact:
  assumes "exact k"
  shows "keeps exact (sys_open k)"
proof -
  let ?set = "\<lambda>i omode x. x\<lparr>ftype := FD_INODE, fip := i, foff := 0, readable := (omode AND O_WRONLY = 0),
      writable := (omode AND O_WRONLY \<noteq> 0 \<or> omode AND O_RDWR \<noteq> 0)\<rparr>"
  have ok: "keeps exact (case fdalloc f k2 of (None, k3) \<Rightarrow> bindE (fileclose f k3) (put_fail [i])
      | (Some fd, k3) \<Rightarrow> bindE (do_fs (iunlock i) k3) (\<lambda>k4. Inr (Ret (int fd), upd_file f (?set i omode) k4)))"
    if "running ((\<lambda>_. 0)(f := 1)) k2" for f k2 i omode
    using fdalloc_owes [OF that, of f] fileclose_drop [of "\<lambda>_. 0" f]
    by (auto intro!: counted.bind_ok counted.with_ok counted.put_fail_ok counted.I_upd split: prod.splits option.splits)
  have oo: "keeps exact (case filealloc k1 of (None, k2) \<Rightarrow> put_fail [i] k2 | (Some f, k2) \<Rightarrow>
      (case fdalloc f k2 of (None, k3) \<Rightarrow> bindE (fileclose f k3) (put_fail [i])
      | (Some fd, k3) \<Rightarrow> bindE (do_fs (iunlock i) k3) (\<lambda>k4. Inr (Ret (int fd), upd_file f (?set i omode) k4))))"
    if "exact k1" for k1 i omode
    using filealloc_owes [OF that] ok by (auto intro!: counted.put_fail_ok split: prod.splits option.splits)
  show ?thesis
    unfolding sys_open_def
    by (intro Ok_arg assms) (auto intro!: Ok_arg assms counted.bind_ok counted.open_inode_ok oo split: option.splits)
qed

lemma close_both:
  assumes "running ((\<lambda>_. 0)(rd := 1, wr := 1)) k" "rd \<noteq> wr"
  shows "Ok exact (bindE (fileclose rd k) (fileclose wr))"
proof (rule Ok_bind)
  have e: "(\<lambda>_. 0 :: int)(rd := 1, wr := 1) = ((\<lambda>_. 0)(wr := 1))(rd := ((\<lambda>_. 0)(wr := 1)) rd + 1)"
    using assms(2) by (auto simp: fun_upd_twist)
  show "Ok (running ((\<lambda>_. 0)(wr := 1))) (fileclose rd k)"
    by (rule fileclose_drop) (use assms(1) e in simp)
  show "Ok exact (fileclose wr k1)" if "running ((\<lambda>_. 0)(wr := 1)) k1" for k1
    using fileclose_drop [of "\<lambda>_. 0" wr] that by simp
qed

lemma close_both_fail:
  assumes "running ((\<lambda>_. 0)(rd := 1, wr := 1)) k" "rd \<noteq> wr"
  shows "keeps exact (bindE (fileclose rd k) (\<lambda>k3. bindE (fileclose wr k3) (\<lambda>k4. Inr (x, k4))))"
  using Ok_bind [OF close_both [OF assms], of "\<lambda>(x, k). exact k" "\<lambda>k4. Inr (x, k4)"] by (simp add: bindE_assoc)

lemma no_debt_rd: "rd \<noteq> wr \<Longrightarrow> (\<lambda>_. 0 :: int)(wr := 1, rd := 0) = (\<lambda>_. 0)(wr := 1)"
  by auto

lemma pipealloc_owes:
  assumes "exact k" "pipealloc k = Inr (r, k')"
  shows "case r of None \<Rightarrow> exact k' | Some (rd, wr) \<Rightarrow> running ((\<lambda>_. 0)(rd := 1, wr := 1)) k' \<and> rd \<noteq> wr"
proof -
  obtain f0 k1 where f0: "filealloc k = (f0, k1)" by fastforce
  show ?thesis
  proof (cases f0)
    case None
    then show ?thesis using assms f0 filealloc_owes(2) [OF assms(1)] by (simp add: pipealloc_def)
  next
    case (Some rd)
    with f0 have r1: "running ((\<lambda>_. 0)(rd := 1)) k1" using filealloc_owes(1) [OF assms(1)] by fastforce
    obtain f1 k2 where f1: "filealloc k1 = (f1, k2)" by fastforce
    show ?thesis
    proof (cases f1)
      case None
      have "running ((\<lambda>_. 0)(rd := 1)) k2" using filealloc_owes(2) [OF r1] f1 None by simp
      then have "Ok exact (fileclose rd k2)" using fileclose_drop [of "\<lambda>_. 0" rd] by simp
      then show ?thesis using assms(2) f0 f1 Some None by (auto simp: pipealloc_def res_simps Ok_def)
    next
      case s1: (Some wr)
      have "fref (ftable k1 rd) \<noteq> 0" using f0 Some by (auto simp: filealloc_def split: option.splits)
      moreover have "fref (ftable k1 wr) = 0" using f1 s1 by (auto simp: filealloc_def find_Some_iff split: option.splits)
      ultimately have ne: "rd \<noteq> wr" by auto
      have r2: "running ((\<lambda>_. 0)(rd := 1, wr := 1)) k2" using filealloc_owes(1) [OF r1] f1 s1 ne by fastforce
      have km: "keeps (running ((\<lambda>_. 0)(rd := 1, wr := 1))) (with_km kalloc k2)"
        by (rule counted.with_ok [OF r2])
      have "Ok (\<lambda>(r, k). case r of None \<Rightarrow> exact k | Some (a, b) \<Rightarrow> running ((\<lambda>_. 0)(a := 1, b := 1)) k \<and> a \<noteq> b) (pipealloc k)"
        unfolding pipealloc_def f0 Some f1 s1 prod.case option.case Let_def
        by (auto intro!: Ok_bind [OF km] Ok_bind [OF close_both] counted.I_upd ne simp: bindE_assoc [symmetric])
      then show ?thesis using assms(2) by (auto simp: Ok_def)
    qed
  qed
qed

lemma fd_none_ok:
  assumes "running d k" "fdalloc f k = (None, k')"
  shows "running d k'"
  using fdalloc_owes(2) [OF assms] .

lemma pipe_exact:
  assumes "exact k"
  shows "keeps exact (sys_pipe k)"
proof -
  have main: "keeps exact (case fdalloc rd k1 of
        (None, k2) \<Rightarrow> bindE (fileclose rd k2) (\<lambda>k3. bindE (fileclose wr k3) (\<lambda>k4. Inr (Ret (-1), k4)))
      | (Some fd0, k2) \<Rightarrow> (case fdalloc wr k2 of
          (None, k3) \<Rightarrow> bindE (fileclose rd (clear_fd fd0 k3)) (\<lambda>k4. bindE (fileclose wr k4) (\<lambda>k5. Inr (Ret (-1), k5)))
        | (Some fd1, k3) \<Rightarrow> bindE (my_stores p (words_bytes [of_nat fd0, of_nat fd1]) k3) (\<lambda>k4. Inr (Ret 0, k4))))"
    if r: "running ((\<lambda>_. 0)(rd := 1, wr := 1)) k1" and ne: "rd \<noteq> wr" for k1 rd wr p
  proof -
    have a: "running ((\<lambda>_. 0)(wr := 1)) k2 \<and> fd0 < NOFILE \<and> ofile (myproc k2) fd0 = Some rd"
      if "fdalloc rd k1 = (Some fd0, k2)" for fd0 k2
      using fdalloc_owes(1) [OF r that] ne by (simp add: fun_upd_twist [of rd wr] no_debt_rd)
    have b: "running ((\<lambda>_. 0)(rd := 1, wr := 1)) (clear_fd fd0 k3)"
      if "fdalloc rd k1 = (Some fd0, k2)" "fdalloc wr k2 = (None, k3)" for fd0 k2 k3
    proof -
      have "k3 = k2" using that(2) by (auto simp: fdalloc_def split: option.splits)
      then show ?thesis
        using clear_fd_owes [of "(\<lambda>_. 0)(wr := 1)" k2 fd0 rd] a [OF that(1)] ne by (simp add: fun_upd_twist [of rd wr])
    qed
    have c: "exact k3" if "fdalloc rd k1 = (Some fd0, k2)" "fdalloc wr k2 = (Some fd1, k3)" for fd0 k2 fd1 k3
      using fdalloc_owes(1) [OF conjunct1 [OF a [OF that(1)]] that(2)] by simp
    have d: "keeps exact (bindE (my_stores p bs k3) (\<lambda>k4. Inr (Ret 0, k4)))" if "exact k3" for k3 bs
      using that by (auto intro!: counted.bind_ok counted.my_stores_ok)
    show ?thesis
      using a b fd_none_ok [OF r]
      by (auto intro!: close_both_fail ne d [OF c] split: prod.splits option.splits)
  qed
  have p: "Ok (\<lambda>(r, k'). case r of None \<Rightarrow> exact k'
      | Some (rd, wr) \<Rightarrow> running ((\<lambda>_. 0)(rd := 1, wr := 1)) k' \<and> rd \<noteq> wr) (pipealloc k)"
    using pipealloc_owes [OF assms] by (auto simp: Ok_def)
  show ?thesis
    unfolding sys_pipe_def
  proof (intro Ok_arg assms Ok_bind [OF p])
    fix a and x :: "(nat \<times> nat) option \<times> kernel"
    assume "case x of (r, k') \<Rightarrow> (case r of None \<Rightarrow> exact k'
      | Some (rd, wr) \<Rightarrow> running ((\<lambda>_. 0)(rd := 1, wr := 1)) k' \<and> rd \<noteq> wr)"
    then show "keeps exact (case x of (r, k1) \<Rightarrow> (case r of None \<Rightarrow> Inr (Ret (-1), k1)
      | Some (rd, wr) \<Rightarrow> (case fdalloc rd k1 of
        (None, k2) \<Rightarrow> bindE (fileclose rd k2) (\<lambda>k3. bindE (fileclose wr k3) (\<lambda>k4. Inr (Ret (-1), k4)))
      | (Some fd0, k2) \<Rightarrow> (case fdalloc wr k2 of
          (None, k3) \<Rightarrow> bindE (fileclose rd (clear_fd fd0 k3)) (\<lambda>k4. bindE (fileclose wr k4) (\<lambda>k5. Inr (Ret (-1), k5)))
        | (Some fd1, k3) \<Rightarrow> bindE (my_stores a (words_bytes [of_nat fd0, of_nat fd1]) k3) (\<lambda>k4. Inr (Ret 0, k4))))))"
      using main by (cases x; cases "fst x") auto
  qed
qed

section \<open>Fork and exit\<close>

text \<open>A process that \<open>fork\<close> is making: not the running one, no longer idle, no open files.\<close>

definition newborn :: "nat \<Rightarrow> kernel \<Rightarrow> bool" where
  "newborn p k \<longleftrightarrow> exact k \<and> p < NPROC \<and> p \<noteq> me k \<and> \<not> idle (state (ptable k p)) \<and>
     (\<forall>i < NOFILE. ofile (ptable k p) i = None)"

lemma newborn_same: "same_files k k' \<Longrightarrow> newborn p k \<Longrightarrow> newborn p k'"
  using running_same by (auto simp: newborn_def same_files_def)

interpretation making: kernel_files "newborn p" for p
proof
  show "newborn p (k\<lparr>fs := s\<rparr>)" if "newborn p k" for k s
    by (rule newborn_same [OF _ that]) (simp add: same_files_def)
  show "newborn p (k\<lparr>km := m\<rparr>)" if "newborn p k" for k m
    by (rule newborn_same [OF _ that]) (simp add: same_files_def)
qed (rule newborn_same)

lemma newborn_embryo:
  assumes "exact k" "find_unused (ptable k) = Some p"
  shows "newborn p (upd_proc p (\<lambda>q. q\<lparr>state := EMBRYO, pid := n\<rparr>) k)"
proof -
  have p: "p < NPROC" "state (ptable k p) = UNUSED" using find_unusedD [OF assms(2)] by auto
  then have "p \<noteq> me k" using assms(1) by (auto simp: running_def live_def idle_def)
  moreover have "\<forall>i < NOFILE. ofile (ptable k p) i = None"
    using assms(1) p by (auto simp: running_def owes_def idle_def)
  moreover have "exact (upd_proc p (\<lambda>q. q\<lparr>state := EMBRYO, pid := n\<rparr>) k)"
    by (rule counted.I_upd [OF assms(1)]) (simp add: idle_def)
  ultimately show ?thesis using p by (simp add: newborn_def idle_def)
qed

lemma holders_upd: "(\<And>q. ofile (g q) = ofile q) \<Longrightarrow> holders (upd_proc p g k) f = holders k f"
proof -
  assume "\<And>q. ofile (g q) = ofile q"
  then have "ofile (ptable (upd_proc p g k) q) = ofile (ptable k q)" for q by simp
  then show ?thesis by (simp only: holders_def)
qed

lemma newborn_dies:
  assumes a: "newborn p k" and "state (g (ptable k p)) = UNUSED" and g: "\<And>q. ofile (g q) = ofile q"
  shows "exact (upd_proc p g k)"
proof -
  from a obtain m where m: "m < NPROC" "cur k = Some m" "\<not> idle (state (ptable k m))" "p \<noteq> m"
    by (auto simp: newborn_def running_def live_def)
  have "live (upd_proc p g k)" unfolding live_def using m by (intro exI [of _ m]) simp
  moreover have "files_exact (upd_proc p g k)"
    using a holders_upd [of g p k, OF g] by (auto simp: owes_def newborn_def running_def g)
  ultimately show ?thesis by (simp add: running_def)
qed

lemma allocproc_owes:
  assumes "exact k"
  shows "Ok (\<lambda>(r, k'). case r of None \<Rightarrow> exact k' | Some p \<Rightarrow> newborn p k') (allocproc k)"
proof (cases "find_unused (ptable k)")
  case None
  then show ?thesis using assms by (simp add: allocproc_def)
next
  case (Some p)
  define k1 where "k1 = (upd_proc p (\<lambda>q. q\<lparr>state := EMBRYO, pid := nextpid k\<rparr>) k)\<lparr>nextpid := nextpid k + 1\<rparr>"
  have k1: "newborn p k1" unfolding k1_def by (rule making.I_upd(4) [OF newborn_embryo [OF assms Some]])
  show ?thesis
    unfolding allocproc_def Some option.case Let_def k1_def [symmetric]
    using k1 by (auto intro!: making.bind_ok making.with_ok making.I_upd making.I_km newborn_dies)
qed

lemma dup_files_owes:
  assumes "exact k" "np < NPROC" "np \<noteq> me k" "\<not> idle (state (ptable k np))" "distinct is" "set is \<subseteq> {..<NOFILE}"
    and "\<forall>i \<in> set is. ofile (ptable k np) i = None" "dup_files is np k = Inr k'"
  shows "exact k'"
  using assms
proof (induction "is" arbitrary: k)
  case (Cons i js)
  show ?case
  proof (cases "ofile (myproc k) i")
    case None
    then show ?thesis using Cons.prems by (auto intro!: Cons.IH [of k])
  next
    case (Some f)
    with Cons.prems(8) obtain k1 where k1: "filedup f k = Inr k1"
        "dup_files js np (upd_proc np (\<lambda>q. q\<lparr>ofile := (ofile q)(i := Some f)\<rparr>) k1) = Inr k'"
      by (auto simp: res_simps)
    have p: "ptable k1 = ptable k" "cur k1 = cur k" using k1(1) by (auto simp: filedup_def split: if_splits)
    have "running ((\<lambda>_. 0)(f := 1)) k1" using filedup_owes [OF Cons.prems(1) k1(1)] by simp
    then have "exact (upd_proc np (\<lambda>q. q\<lparr>ofile := (ofile q)(i := Some f)\<rparr>) k1)"
      using owes_set [of "(\<lambda>_. 0)(f := 1)" k1 np i f] Cons.prems p by (auto simp: running_def live_def)
    then show ?thesis
      using Cons.prems p k1(2) by (auto intro!: Cons.IH)
  qed
qed simp

lemma fork_exact:
  assumes "exact k"
  shows "keeps exact (sys_fork k)"
proof -
  have dup: "Ok exact (dup_files [0..<NOFILE] np k4)" if "newborn np k4" for np k4
    using that by (auto simp: Ok_def newborn_def intro!: dup_files_owes [of k4 np "[0..<NOFILE]"])
  have fin: "exact (upd_proc np (\<lambda>q. q\<lparr>state := RUNNABLE, name := nm\<rparr>) (upd_proc np (\<lambda>q. q\<lparr>cwd := Some c\<rparr>) (k5\<lparr>fs := s\<rparr>)))"
    if "exact k5" for np nm c k5 s
    using that by (auto intro!: counted.I_upd counted.I_fs simp: idle_def)
  have "keeps exact (fork k)"
    unfolding fork_def
  proof (rule Ok_bind [OF allocproc_owes [OF assms]])
    fix x :: "nat option \<times> kernel"
    assume "case x of (r, k') \<Rightarrow> (case r of None \<Rightarrow> exact k' | Some p \<Rightarrow> newborn p k')"
    then show "keeps exact (case x of (r, k1) \<Rightarrow> (case r of
       None \<Rightarrow> Inr (-1, k1)
     | Some np \<Rightarrow>
         bindE (with_km (cowuvm (kend k1) (kdata k1) (pgdir (myproc k1)) (sz (myproc k1))) k1) (\<lambda>(d, k2).
         let k3 = upd_proc np (\<lambda>q. q\<lparr>pgdir := d\<rparr>) k2 in
         if d = 0 then
           bindE (do_km (kfree (kend k3) (kstack (ptable k3 np))) k3) (\<lambda>k4.
           Inr (-1, upd_proc np (\<lambda>q. q\<lparr>kstack := 0, state := UNUSED\<rparr>) k4))
         else
           let p = myproc k3;
               k4 = upd_proc np (\<lambda>q. q\<lparr>sz := sz p, parent := cur k3, tf := (tf p)\<lparr>eax := 0\<rparr>\<rparr>) k3
           in bindE (dup_files [0..<NOFILE] np k4) (\<lambda>k5. case cwd (myproc k5) of
                None \<Rightarrow> Inl (OutOfBounds ''cwd'')
              | Some c \<Rightarrow>
                  let k6 = upd_proc np (\<lambda>q. q\<lparr>cwd := Some c\<rparr>) (k5\<lparr>fs := idup c (fs k5)\<rparr>)
                  in Inr (sint (pid (ptable k6 np)),
                       upd_proc np (\<lambda>q. q\<lparr>state := RUNNABLE, name := take 15 (name (myproc k6))\<rparr>) k6)))))"
      by (cases x; cases "fst x")
        (auto simp: Let_def intro!: making.bind_ok making.with_ok making.I_upd newborn_dies
          Ok_bind [OF dup] fin split: option.splits)
  qed
  then show ?thesis unfolding sys_fork_def of_call_def by (auto intro!: counted.bind_ok)
qed

lemma close_files_owes:
  assumes "exact k" "set fds \<subseteq> {..<NOFILE}" "close_files fds k = Inr k'"
  shows "exact k' \<and> (\<forall>i < NOFILE. ofile (myproc k') i = (if i \<in> set fds then None else ofile (myproc k) i))"
  using assms
proof (induction fds arbitrary: k)
  case (Cons fd fds)
  show ?case
  proof (cases "ofile (myproc k) fd")
    case None
    then show ?thesis using Cons.IH [of k] Cons.prems by auto
  next
    case (Some f)
    with Cons.prems(3) obtain k1 where k1: "fileclose f k = Inr k1"
        "close_files fds (clear_fd fd k1) = Inr k'"
      by (auto simp: res_simps clear_fd_def)
    have s: "cur k1 = cur k" "ofile (ptable k1 p) = ofile (ptable k p)" for p
      using fileclose_same [OF k1(1)] by (simp_all add: same_files_def)
    have "running ((\<lambda>_. 0)(f := - 1)) k1" using fileclose_owes [OF Cons.prems(1) k1(1)] by simp
    from clear_fd_owes [OF this, of fd f] have "exact (clear_fd fd k1)"
      using Cons.prems(2) Some s by simp
    from Cons.IH [OF this _ k1(2)] Cons.prems(2) show ?thesis by (auto simp: clear_fd_def s)
  qed
qed simp

lemma reparent_files: "ofile (reparent p i t q) = ofile (t q)" "idle (state (reparent p i t q)) = idle (state (t q))"
proof -
  have "ofile (fold (\<lambda>j t. if parent (t j) = Some p then let t1 = t(j := (t j)\<lparr>parent := Some i\<rparr>)
       in if state (t1 j) = ZOMBIE then wakeup1 (ChProc i) t1 else t1 else t) xs t q) = ofile (t q) \<and>
     idle (state (fold (\<lambda>j t. if parent (t j) = Some p then let t1 = t(j := (t j)\<lparr>parent := Some i\<rparr>)
       in if state (t1 j) = ZOMBIE then wakeup1 (ChProc i) t1 else t1 else t) xs t q)) = idle (state (t q))" for xs
  proof (induction xs arbitrary: t)
    case (Cons j js)
    then show ?case by (simp add: Let_def wakeup1_eq idle_def)
  qed simp
  then show "ofile (reparent p i t q) = ofile (t q)" "idle (state (reparent p i t q)) = idle (state (t q))"
    by (simp_all add: reparent_def)
qed

lemma exit_exact:
  assumes "exact k"
  shows "Ok files_exact (exit k)"
proof (cases "cur k = initproc k")
  case False
  have close: "Ok (\<lambda>k1. exact k1 \<and> (\<forall>i < NOFILE. ofile (myproc k1) i = None)) (close_files [0..<NOFILE] k)"
    using close_files_owes [OF assms, of "[0..<NOFILE]"] by (auto simp: Ok_def atLeast0LessThan)
  show ?thesis
    unfolding exit_def if_not_P [OF False]
  proof (rule Ok_bind [OF close])
    fix k1 assume k1: "exact k1 \<and> (\<forall>i < NOFILE. ofile (myproc k1) i = None)"
    let ?R = "\<lambda>k2. exact k2 \<and> (\<forall>i < NOFILE. ofile (myproc k2) i = None)"
    have fin: "files_exact (upd_proc (me k2) (\<lambda>q. q\<lparr>state := ZOMBIE\<rparr>) k2)" if "?R k2" for k2
    proof -
      have "holders (upd_proc (me k2) (\<lambda>q. q\<lparr>state := ZOMBIE\<rparr>) k2) f = holders k2 f" for f
        by (rule holders_upd) simp
      then show ?thesis using that unfolding running_def owes_def by auto
    qed
    have same: "?R k3" if "?R k2" "same_files k2 k3" for k2 k3
      using that running_same [of k2 k3] by (auto simp: same_files_def)
    have w: "?R (wakeup c k2)" if "?R k2" for k2 c
      by (rule same [OF that]) (simp add: same_files_def)
    have rp: "?R (k2\<lparr>ptable := reparent m i (ptable k2)\<rparr>)" if "?R k2" for k2 m i
      by (rule same [OF that]) (simp add: same_files_def reparent_files)
    have cw: "?R (upd_proc m (\<lambda>q. q\<lparr>cwd := None\<rparr>) k2)" if "?R k2" for k2 m
      by (rule same [OF that]) (simp add: same_files_def)
    have rfs: "?R (k1\<lparr>fs := s\<rparr>)" for s
      by (rule same [OF k1]) (simp add: same_files_def)
    have iput: "Ok ?R (do_fs (iput c) k1)" for c
      using rfs by (cases "iput c (fs k1)") (simp_all add: do_fs_def)
    show "Ok files_exact (case cwd (myproc k1) of None \<Rightarrow> Inl (OutOfBounds ''cwd'')
        | Some c \<Rightarrow> bindE (do_fs (iput c) k1) (\<lambda>k2.
            let k3 = upd_proc (me k2) (\<lambda>q. q\<lparr>cwd := None\<rparr>) k2;
                k4 = (case parent (myproc k3) of None \<Rightarrow> k3 | Some p \<Rightarrow> wakeup (ChProc p) k3);
                k5 = (case initproc k4 of None \<Rightarrow> k4
                      | Some i \<Rightarrow> k4\<lparr>ptable := reparent (me k4) i (ptable k4)\<rparr>)
            in Inr (upd_proc (me k5) (\<lambda>q. q\<lparr>state := ZOMBIE\<rparr>) k5)))"
    proof (cases "cwd (myproc k1)")
      case (Some c)
      show ?thesis
        unfolding Some option.case
      proof (rule Ok_bind [OF iput])
        fix k2 assume r: "?R k2"
        define k3 where "k3 = upd_proc (me k2) (\<lambda>q. q\<lparr>cwd := None\<rparr>) k2"
        define k4 where "k4 = (case parent (myproc k3) of None \<Rightarrow> k3 | Some p \<Rightarrow> wakeup (ChProc p) k3)"
        define k5 where "k5 = (case initproc k4 of None \<Rightarrow> k4 | Some i \<Rightarrow> k4\<lparr>ptable := reparent (me k4) i (ptable k4)\<rparr>)"
        have "?R k3" unfolding k3_def by (rule cw [OF r])
        then have "?R k4" unfolding k4_def by (cases "parent (myproc k3)") (use w in auto)
        then have "?R k5" unfolding k5_def by (cases "initproc k4") (use rp in auto)
        then show "Ok files_exact (let k3 = upd_proc (me k2) (\<lambda>q. q\<lparr>cwd := None\<rparr>) k2;
                k4 = (case parent (myproc k3) of None \<Rightarrow> k3 | Some p \<Rightarrow> wakeup (ChProc p) k3);
                k5 = (case initproc k4 of None \<Rightarrow> k4
                      | Some i \<Rightarrow> k4\<lparr>ptable := reparent (me k4) i (ptable k4)\<rparr>)
            in Inr (upd_proc (me k5) (\<lambda>q. q\<lparr>state := ZOMBIE\<rparr>) k5))"
          unfolding Let_def k3_def [symmetric] k4_def [symmetric] k5_def [symmetric]
          using fin by simp
      qed
    qed simp
  qed
qed (simp add: exit_def)

section \<open>The whole kernel\<close>

text \<open>The runs of the kernel from a state in which nothing is open: a process runs and traps, a yielding
  or sleeping process leaves the CPU to the scheduler, the scheduler picks another one.\<close>

inductive kernel_run :: "kernel \<Rightarrow> bool" where
  boot: "\<forall>f. fref (ftable k f) = 0 \<Longrightarrow> \<forall>p i. ofile (ptable k p) i = None \<Longrightarrow> kernel_run k"
| trapped: "kernel_run k \<Longrightarrow> cur k = Some p \<Longrightarrow> p < NPROC \<Longrightarrow> state (ptable k p) = RUNNING \<Longrightarrow>
    (\<And>n k. same_files k (dev n k)) \<Longrightarrow> trap dev cpu0 va f k = Inr k' \<Longrightarrow> kernel_run k'"
| switched: "kernel_run k \<Longrightarrow> scheduler pos k = Some (p, k') \<Longrightarrow> kernel_run k'"
| left: "kernel_run k \<Longrightarrow> kernel_run (scheduler_back k)"

definition after :: "int io \<times> kernel \<Rightarrow> bool" where
  "after x \<longleftrightarrow> files_exact (snd x) \<and> (\<forall>v. fst x = Ret v \<longrightarrow> exact (snd x))"

lemma after_keeps: "keeps exact m \<Longrightarrow> Ok after m"
  by (erule Ok_mono) (auto simp: after_def running_def)

lemma exit_after: "exact k \<Longrightarrow> Ok after (sys_exit k)"
  unfolding sys_exit_def by (rule Ok_bind [OF exit_exact]) (simp_all add: after_def)

lemmas calls_exact =
  fork_exact pipe_exact close_exact open_exact dup_exact
  counted.wait_ok [of "\<lambda>_. 0"] counted.write_ok [of "\<lambda>_. 0"] counted.read_ok [of "\<lambda>_. 0"]
  counted.kill_ok [of "\<lambda>_. 0"] counted.sys_exec_ok [of "\<lambda>_. 0"] counted.mkdir_ok [of "\<lambda>_. 0"]
  counted.unlink_ok [of "\<lambda>_. 0"] counted.fstat_ok [of "\<lambda>_. 0"] counted.link_ok [of "\<lambda>_. 0"]
  counted.chdir_ok [of "\<lambda>_. 0"] counted.small_calls_ok [of "\<lambda>_. 0"]

lemma handler_after: "syscalls n = Some h \<Longrightarrow> exact k \<Longrightarrow> Ok after (h k)"
  unfolding syscalls_def
  by (auto split: if_splits intro: after_keeps exit_after calls_exact)

lemma syscall_exact:
  assumes "exact k"
  shows "Ok (\<lambda>(b, k'). files_exact k' \<and> (b \<longrightarrow> exact k')) (syscall k)"
proof -
  have eax: "exact (set_eax v k)" if "exact k" for v k
    using that unfolding set_eax_def by (intro counted.I_upd) simp_all
  then have "files_exact (set_eax v k)" if "exact k" for v k
    using that by (auto simp: running_def)
  then show ?thesis
    unfolding syscall_def Let_def using eax assms
    by (auto intro!: Ok_bind [OF handler_after] simp: after_def split: option.splits io.splits if_splits)
qed

lemma trap_end_exact: "exact k \<Longrightarrow> Ok files_exact (trap_end f k)"
  using exit_exact [of k] counted.I_upd(1) [of "\<lambda>_. 0" k "\<lambda>q. q\<lparr>state := RUNNABLE\<rparr>" "me k"]
  by (auto simp: trap_end_def yield_def idle_def running_def)

lemma trap_exact:
  assumes "exact k" and dev: "\<And>n k. same_files k (dev n k)"
  shows "Ok files_exact (trap dev cpu0 va f k)"
proof -
  obtain me where c: "cur k = Some me" using assms(1) by (auto simp: running_def live_def)
  have d: "Ok files_exact (trap_end f (dev n k))" for n
    using trap_end_exact running_same [OF dev assms(1)] by blast
  have u: "exact (upd_proc me g k)" if "\<And>q. ofile (g q) = ofile q \<and> state (g q) = state q" for g
    using that by (intro counted.I_upd(1) [OF assms(1)]) auto
  have w: "exact (wakeup ChTicks (k\<lparr>kticks := t\<rparr>))" for t
    using assms(1) by (intro counted.I_wakeup counted.I_upd)
  have s: "Ok files_exact (bindE (syscall k1) (\<lambda>(running, k1). if running \<and> killed (myproc k1) then exit k1 else Inr k1))"
    if "exact k1" for k1
    by (rule Ok_bind [OF syscall_exact [OF that]]) (auto intro: exit_exact)
  have p: "Ok files_exact (bindE (do_km (pgfltintr va (pgdir (ptable k me))) k) (trap_end f))"
    using counted.with_ok(4) [OF assms(1)] trap_end_exact by (rule Ok_bind)
  show ?thesis
    unfolding trap_def
    by (auto simp: c intro!: exit_exact trap_end_exact s p d u w assms(1))
qed

text \<open>C18: However processes fork, exit, open, duplicate, close, read and write files and pipes, and
  whichever process the scheduler picks, the reference count of every open file is the number of
  descriptors of all processes that name it: no file is closed while a descriptor is left, none leaks.\<close>

theorem file_references_exact:
  assumes "kernel_run k"
  shows "fref (ftable k f) = holders k f"
proof -
  from assms have "files_exact k"
  proof (induction rule: kernel_run.induct)
    case (boot k)
    then show ?case by (simp add: owes_def holders_def)
  next
    case (trapped k p dev cpu0 va f k')
    then have "exact k" by (auto simp: running_def live_def idle_def)
    from trap_exact [OF this trapped.hyps(5)] trapped.hyps(6) show ?case by (auto simp: Ok_def)
  next
    case (switched k pos p k')
    then have s: "state (ptable k p) = RUNNABLE"
      "k' = upd_proc p (\<lambda>q. q\<lparr>state := RUNNING\<rparr>) (k\<lparr>cur := Some p\<rparr>)"
      by (auto simp: scheduler_def sched_scan_def find_Some_iff split: option.splits)
    have "holders k' f = holders (k\<lparr>cur := Some p\<rparr>) f" for f
      unfolding s(2) by (rule holders_upd) simp
    then show ?case using switched.IH by (auto simp: owes_def s(2) holders_def idle_def)
  next
    case (left k)
    then show ?case by (simp add: owes_def holders_def scheduler_back_def)
  qed
  then show ?thesis by (simp add: owes_def)
qed

text \<open>Process 0 of an otherwise empty table is scheduled and loses the CPU on a timer tick.\<close>

definition empty_proc :: proc where
  "empty_proc = \<lparr>sz = 0, pgdir = 0, kstack = 0, state = UNUSED, pid = 0, parent = None,
     tf = \<lparr>eax = 0, tf_es = 0, tf_ds = 0, trapno = 0, eip = 0, tf_cs = 0, eflags = 0, esp = 0, tf_ss = 0\<rparr>,
     kcontext = 0, chan = None, killed = False, ofile = (\<lambda>_. None), cwd = None, name = []\<rparr>"

definition empty_kernel :: kernel where
  "empty_kernel = \<lparr>kend = 0x200000, kdata = 0x110000, kforkret = 0x101000, ktrapret = 0x102000,
     initcode = (\<lambda>_. 0), initcode_size = 44,
     km = \<lparr>freelist = 0, free_pages = 0, ref_cnt = (\<lambda>_. 0), phys = (\<lambda>_ _. 0)\<rparr>,
     ptable = (\<lambda>_. empty_proc), nextpid = 1, initproc = None, cur = None,
     fs = \<lparr>blocks = (\<lambda>_ _. replicate BSIZE 0), icache = (\<lambda>_. \<lparr>idev = 0, inum = 0, iref = 0, iflags = 0,
       itype = 0, major = 0, minor = 0, nlink = 0, isize = 0, addrs = replicate 13 0\<rparr>)\<rparr>,
     ftable = (\<lambda>_. \<lparr>ftype = FD_NONE, fref = 0, readable = False, writable = False, fpipe = 0, fip = 0, foff = 0\<rparr>),
     pipes = (\<lambda>_. \<lparr>data = (\<lambda>_. 0), nread = 0, nwrite = 0, readopen = False, writeopen = False\<rparr>), kticks = 0,
     kjunk = replicate 52 0, devr = (\<lambda>_. None), devw = (\<lambda>_. None)\<rparr>"

theorem file_references_exact_witness:
  "\<exists>k. kernel_run k \<and> state (ptable k 0) = RUNNABLE \<and> kticks k = 1 \<and> holders k 7 = 0"
proof -
  let ?k = "upd_proc 0 (\<lambda>q. q\<lparr>state := RUNNABLE\<rparr>) empty_kernel"
  have b: "kernel_run ?k"
    by (rule boot) (simp_all add: empty_kernel_def empty_proc_def)
  have ss: "scheduler 0 ?k = Some (0, upd_proc 0 (\<lambda>q. q\<lparr>state := RUNNING\<rparr>) (?k\<lparr>cur := Some 0\<rparr>))" (is "_ = Some (0, ?l)")
    by (simp add: scheduler_def sched_scan_def NPROC_def upt_conv_Cons empty_kernel_def empty_proc_def)
  from switched [OF b this] have l: "kernel_run ?l" .
  let ?f = "(tf empty_proc)\<lparr>trapno := 32, tf_cs := 0x23\<rparr>"
  let ?m = "wakeup ChTicks (?l\<lparr>kticks := kticks ?l + 1\<rparr>)"
  have t: "trap (\<lambda>_ k. k) True 0 ?f ?l = Inr (yield ?m)"
    by (simp add: trap_def trap_end_def T_SYSCALL_def T_IRQ0_def wakeup1_eq empty_kernel_def empty_proc_def)
  have "kernel_run (yield ?m)"
    by (rule trapped [OF l _ _ _ _ t, of 0]) (simp_all add: NPROC_def)
  then show ?thesis
    using file_references_exact [of "yield ?m" 7]
    by (intro exI [of _ "yield ?m"]) (simp add: yield_def wakeup_def upd_proc_def empty_kernel_def empty_proc_def wakeup1_eq)
qed

end
