(* ===== verification/Fs_Refs.thy ===== *)
theory Fs_Refs
  imports Fs_Files
begin

text \<open>
  Inodes that leave the cache and come back from disk, and the counting of the references to
  cached inodes over any run of the cache operations.
\<close>

section \<open>The disk copy of an inode\<close>

text \<open>C17: An inode survives its eviction: after \<open>iupdate\<close> the entry may be dropped and the inode
  locked again through any other entry of the cache, and it has all its fields back; the
  copies of all other inodes on disk are unchanged, in the same block too.\<close>

theorem iupdate_ilock_roundtrip:
  assumes "length (addrs (icache s i)) = NDIRECT + 1" "itype (icache s i) \<noteq> 0"
    and "length (blocks s (idev (icache s i)) (IBLOCK (inum (icache s i)))) = BSIZE"
    and "s' = iupdate i s" "t = upd_inode j (\<lambda>ip. ip\<lparr>idev := idev (icache s i), inum := inum (icache s i),
      iref := 1, iflags := 0\<rparr>) s'"
  shows "(\<exists>t'. ilock j t = Inr t' \<and> dinode_of (icache t' j) = dinode_of (icache s i) \<and>
      iflags (icache t' j) = I_BUSY OR I_VALID) \<and>
    (n \<noteq> inum (icache s i) \<longrightarrow> disk_inode s' d n = disk_inode s d n)"
proof -
  let ?ip = "icache s i"
  have di: "disk_inode s' (idev ?ip) (inum ?ip) = dinode_of ?ip"
    unfolding assms(4) disk_inode_iupdate [OF assms(1,3)] by simp
  then have "\<exists>t'. ilock j t = Inr t' \<and> dinode_of (icache t' j) = dinode_of ?ip \<and>
      iflags (icache t' j) = I_BUSY OR I_VALID"
    using assms(2) by (simp add: assms(5) ilock_def disk_inode_def dinode_of_def I_BUSY_def I_VALID_def)
  moreover have "n \<noteq> inum ?ip \<longrightarrow> disk_inode s' d n = disk_inode s d n"
    unfolding assms(4) disk_inode_iupdate [OF assms(1,3)] by simp
  ultimately show ?thesis by blast
qed

theorem iupdate_ilock_roundtrip_witness:
  "\<exists>t'. ilock 3 (upd_inode 3 (\<lambda>ip. ip\<lparr>idev := 1, inum := 5, iref := 1, iflags := 0\<rparr>) (iupdate 0 demo_fs)) = Inr t' \<and>
     dinode_of (icache t' 3) = dinode_of demo_inode"
proof -
  have i: "icache demo_fs 0 = demo_inode" "idev demo_inode = 1" "inum demo_inode = 5"
    by (simp_all add: demo_fs_def demo_inode_def)
  have "length (addrs (icache demo_fs 0)) = NDIRECT + 1" "itype (icache demo_fs 0) \<noteq> 0"
    by (simp_all add: i, simp_all add: demo_inode_def NDIRECT_def T_FILE_def)
  moreover have "length (blocks demo_fs (idev (icache demo_fs 0)) (IBLOCK (inum (icache demo_fs 0)))) = BSIZE"
    using demo_fs_ok by (simp add: file_ok_def mapped_def)
  ultimately show ?thesis using iupdate_ilock_roundtrip [OF _ _ _ refl refl, of demo_fs 0 3] by (auto simp: i)
qed

section \<open>References to cached inodes\<close>

text \<open>The runs of the cache from its initial state, with the number of references the callers
  hold to each inode: \<open>iget\<close> and \<open>idup\<close> make one, \<open>iput\<close> gives one back.\<close>

inductive icache_run :: "fsys \<Rightarrow> (u32 \<times> u32 \<Rightarrow> int) \<Rightarrow> bool" where
  start: "\<forall>i < NINODE. iref (icache s i) = 0 \<Longrightarrow> icache_run s (\<lambda>_. 0)"
| get: "icache_run s r \<Longrightarrow> iget d n s = Inr (i, s') \<Longrightarrow> icache_run s' (r((d, n) := r (d, n) + 1))"
| dup: "icache_run s r \<Longrightarrow> i < NINODE \<Longrightarrow> 0 < iref (icache s i) \<Longrightarrow> k = (idev (icache s i), inum (icache s i)) \<Longrightarrow>
    icache_run (idup i s) (r(k := r k + 1))"
| lock: "icache_run s r \<Longrightarrow> i < NINODE \<Longrightarrow> ilock i s = Inr s' \<Longrightarrow> icache_run s' r"
| unlock: "icache_run s r \<Longrightarrow> i < NINODE \<Longrightarrow> iunlock i s = Inr s' \<Longrightarrow> icache_run s' r"
| put: "icache_run s r \<Longrightarrow> i < NINODE \<Longrightarrow> 0 < iref (icache s i) \<Longrightarrow> k = (idev (icache s i), inum (icache s i)) \<Longrightarrow>
    iput i s = Inr s' \<Longrightarrow> icache_run s' (r(k := r k - 1))"

text \<open>What matters of a cache entry here.\<close>

definition keeps_ids :: "fsys \<Rightarrow> fsys \<Rightarrow> bool" where
  "keeps_ids s s' \<longleftrightarrow> (\<forall>i. idev (icache s' i) = idev (icache s i) \<and> inum (icache s' i) = inum (icache s i) \<and>
     iref (icache s' i) = iref (icache s i))"

lemma keeps_ids_refl [simp]: "keeps_ids s s" by (simp add: keeps_ids_def)

lemma keeps_ids_trans: "keeps_ids s t \<Longrightarrow> keeps_ids t u \<Longrightarrow> keeps_ids s u" by (simp add: keeps_ids_def)

lemma keeps_ids_irefs: "keeps_ids s s' \<Longrightarrow> irefs s' d n = irefs s d n"
  and keeps_ids_wf: "keeps_ids s s' \<Longrightarrow> wf_icache s \<Longrightarrow> wf_icache s'"
  by (auto simp: keeps_ids_def irefs_def wf_icache_def intro!: sum.cong)

lemma bfree_keeps: "bfree d b s = Inr s' \<Longrightarrow> keeps_ids s s'"
  by (auto simp: bfree_def Let_def bzero_def set_block_def keeps_ids_def split: if_splits)

lemma free_blocks_keeps: "free_blocks d as s = Inr s' \<Longrightarrow> keeps_ids s s'"
  by (induction as arbitrary: s) (auto simp: bindE_def split: if_splits sum.splits dest: bfree_keeps intro: keeps_ids_trans)

lemma iupdate_keeps [simp]: "keeps_ids s (iupdate i s)" by (simp add: keeps_ids_def)

lemma upd_keeps:
  "(\<And>ip. idev (f ip) = idev ip \<and> inum (f ip) = inum ip \<and> iref (f ip) = iref ip) \<Longrightarrow> keeps_ids s (upd_inode i f s)"
  by (simp add: keeps_ids_def)

lemma itrunc_keeps: "itrunc i s = Inr s' \<Longrightarrow> keeps_ids s s'"
  unfolding itrunc_def Let_def
  by (auto simp: res_simps keeps_ids_def split: if_splits dest!: free_blocks_keeps bfree_keeps)

lemma ilock_keeps: "ilock i s = Inr s' \<Longrightarrow> keeps_ids s s'"
  by (auto simp: ilock_def Let_def keeps_ids_def split: if_splits)

lemma iunlock_keeps: "iunlock i s = Inr s' \<Longrightarrow> keeps_ids s s'"
  by (auto simp: iunlock_def keeps_ids_def split: if_splits)

lemma iput_cases:
  assumes "iput i s = Inr s'"
  obtains s1 where "keeps_ids s s1" "s' = upd_inode i (\<lambda>ip. ip\<lparr>iref := iref ip - 1\<rparr>) s1"
proof -
  from assms obtain s1 where s1: "s' = upd_inode i (\<lambda>ip. ip\<lparr>iref := iref ip - 1\<rparr>) s1"
    and c: "s1 = s \<or> (\<exists>s2. itrunc i (upd_inode i (\<lambda>ip. ip\<lparr>iflags := iflags ip OR I_BUSY\<rparr>) s) = Inr s2 \<and>
      s1 = upd_inode i (\<lambda>ip. ip\<lparr>iflags := 0\<rparr>) (iupdate i (upd_inode i (\<lambda>ip. ip\<lparr>itype := 0\<rparr>) s2)))"
    unfolding iput_def Let_def by (auto simp only: res_simps split: if_splits) 
  from c have "keeps_ids s s1" by (auto simp: keeps_ids_def dest!: itrunc_keeps)
  then show ?thesis using s1 that by blast
qed

definition refs_of :: "u32 \<Rightarrow> u32 \<Rightarrow> inode \<Rightarrow> int" where
  "refs_of d n ip = (if 0 < iref ip \<and> idev ip = d \<and> inum ip = n then iref ip else 0)"

lemma irefs_alt: "irefs s d n = (\<Sum>i<NINODE. refs_of d n (icache s i))"
  by (simp add: irefs_def refs_of_def)

lemma irefs_upd:
  "i < NINODE \<Longrightarrow> irefs (s\<lparr>icache := (icache s)(i := ip)\<rparr>) d n = irefs s d n - refs_of d n (icache s i) + refs_of d n ip"
  using sum_point [of i NINODE "refs_of d n" "icache s" ip]
  by (simp add: irefs_alt del: fun_upd_apply)

lemma wf_icache_upd:
  assumes "wf_icache s" "i < NINODE" "0 \<le> iref (f (icache s i))"
    and "idev (f (icache s i)) = idev (icache s i)" "inum (f (icache s i)) = inum (icache s i)"
    and "0 < iref (icache s i)"
  shows "wf_icache (upd_inode i f s)"
  using assms unfolding wf_icache_def by auto

text \<open>C16: However \<open>iget\<close>, \<open>idup\<close>, \<open>ilock\<close>, \<open>iunlock\<close> and \<open>iput\<close> follow each other, no inode is in
  the cache twice, and its reference count is the number of references its holders have.\<close>

theorem icache_counts_references:
  assumes "icache_run s r"
  shows "wf_icache s \<and> irefs s d n = r (d, n)"
proof -
  from assms have "wf_icache s \<and> (\<forall>d n. irefs s d n = r (d, n))"
  proof (induction rule: icache_run.induct)
    case (start s)
    then show ?case by (simp add: wf_icache_def irefs_def)
  next
    case (get s r d n i s')
    from get.hyps(2) have i: "i < NINODE" and wf: "wf_icache s'" using iget_wf get.IH by blast+
    from get.hyps(2) show ?case
    proof (cases rule: iget_cases)
      case hit
      then show ?thesis using get.IH wf by (auto simp: irefs_upd refs_of_def)
    next
      case fresh
      then show ?thesis using get.IH wf by (auto simp: irefs_upd refs_of_def)
    qed
  next
    case (dup s r i k)
    then have "wf_icache (idup i s)" unfolding idup_def by (intro wf_icache_upd) auto
    then show ?case using dup by (auto simp: idup_def irefs_upd refs_of_def)
  next
    case (lock s r i s')
    then show ?case using ilock_keeps keeps_ids_irefs keeps_ids_wf by metis
  next
    case (unlock s r i s')
    then show ?case using iunlock_keeps keeps_ids_irefs keeps_ids_wf by metis
  next
    case (put s r i k s')
    then obtain s1 where s1: "keeps_ids s s1" "s' = upd_inode i (\<lambda>ip. ip\<lparr>iref := iref ip - 1\<rparr>) s1"
      using iput_cases by blast
    then have ids: "idev (icache s1 i) = idev (icache s i)" "inum (icache s1 i) = inum (icache s i)"
      "iref (icache s1 i) = iref (icache s i)" by (simp_all add: keeps_ids_def)
    have "wf_icache s'" unfolding s1(2)
      using put ids keeps_ids_wf [OF s1(1)] by (intro wf_icache_upd) auto
    moreover have "irefs s1 d n = r (d, n)" for d n using put.IH keeps_ids_irefs [OF s1(1)] by simp
    ultimately show ?case using put.hyps ids by (auto simp: s1(2) irefs_upd refs_of_def)
  qed
  then show ?thesis by blast
qed

text \<open>Two processes open inode 7 of device 1, one closes it: one entry with one reference is left.\<close>

definition empty_cache :: fsys where
  "empty_cache = \<lparr>blocks = (\<lambda>_ _. replicate BSIZE 0), icache = (\<lambda>_. demo_inode\<lparr>iref := 0, iflags := 0, inum := 0\<rparr>)\<rparr>"

theorem icache_counts_references_witness:
  "\<exists>s. icache_run s ((\<lambda>_. 0)((1, 7) := 0 + 1, (1, 7) := 0 + 1 + 1)) \<and> irefs s 1 7 = 2"
proof -
  have "icache_run empty_cache (\<lambda>_. 0)" by (rule start) (simp add: empty_cache_def)
  moreover have "iget 1 7 empty_cache = Inr (0, upd_inode 0 (\<lambda>ip. ip\<lparr>idev := 1, inum := 7, iref := 1, iflags := 0\<rparr>) empty_cache)"
    by (simp add: iget_def empty_cache_def NINODE_def upt_rec)
  ultimately have r: "icache_run (upd_inode 0 (\<lambda>ip. ip\<lparr>idev := 1, inum := 7, iref := 1, iflags := 0\<rparr>) empty_cache)
      ((\<lambda>_. 0)((1, 7) := 0 + 1))" (is "icache_run ?s _")
    using get by fastforce
  have "icache_run (idup 0 ?s) (((\<lambda>_. 0)((1, 7) := 0 + 1))((1, 7) := 0 + 1 + 1))"
    by (rule subst [where P = "icache_run _", OF _ dup [OF r, of 0 "(1, 7)"]]) (simp_all add: NINODE_def)
  then show ?thesis using icache_counts_references [of "idup 0 ?s" _ 1 7] by fastforce
qed

end
