(* ===== verification/Proc_Spec.thy ===== *)
theory Proc_Spec
  imports Files_Spec Fs_Refs
begin

text \<open>
  What the process layer guarantees and where it does not: fairness of the scheduler, the hand-over at
  \<open>exit\<close>, the effect of \<open>kill(0)\<close>, \<open>exec\<close> as all or nothing, and lengths below zero.
\<close>

section \<open>Round robin\<close>

text \<open>The picks of the scheduler: before the \<open>n\<close>-th scan the table is \<open>t n\<close>, whatever the processes did to it
  meanwhile; a scan starts behind the process that ran, or at 0 when it ended the table.\<close>

definition next_pick :: "nat \<Rightarrow> ptab \<Rightarrow> nat option" where
  "next_pick pos t = (case sched_scan pos t of None \<Rightarrow> sched_scan 0 t | Some p \<Rightarrow> Some p)"

fun picks :: "(nat \<Rightarrow> ptab) \<Rightarrow> nat \<Rightarrow> nat \<Rightarrow> nat option" where
  "picks t pos 0 = next_pick pos (t 0)"
| "picks t pos (Suc n) = (case picks t pos n of None \<Rightarrow> None | Some q \<Rightarrow> next_pick (Suc q) (t (Suc n)))"

lemma find_upt_Some:
  "find P [a..<b] = Some i \<longleftrightarrow> a \<le> i \<and> i < b \<and> P i \<and> (\<forall>j. a \<le> j \<longrightarrow> j < i \<longrightarrow> \<not> P j)"
proof
  assume "find P [a..<b] = Some i"
  then obtain n where n: "n < b - a" "P (a + n)" "i = a + n" "\<forall>m<n. \<not> P (a + m)"
    by (auto simp: find_Some_iff)
  then have "\<not> P j" if "a \<le> j" "j < i" for j
    using that by (metis add_diff_inverse_nat diff_less_mono linorder_not_less add_diff_cancel_left')
  then show "a \<le> i \<and> i < b \<and> P i \<and> (\<forall>j. a \<le> j \<longrightarrow> j < i \<longrightarrow> \<not> P j)" using n by auto
next
  assume a: "a \<le> i \<and> i < b \<and> P i \<and> (\<forall>j. a \<le> j \<longrightarrow> j < i \<longrightarrow> \<not> P j)"
  then show "find P [a..<b] = Some i"
    by (auto simp: find_Some_iff intro!: exI [of _ "i - a"])
qed

lemma find_upt_None: "find P [a..<b] = None \<longleftrightarrow> (\<forall>i. a \<le> i \<longrightarrow> i < b \<longrightarrow> \<not> P i)"
  by (auto simp: find_None_iff)

text \<open>The distance from the start of a scan to entry \<open>p\<close>, around the end of the table.\<close>

definition ahead :: "nat \<Rightarrow> nat \<Rightarrow> nat" where
  "ahead pos p = (if pos \<le> p then p - pos else p + (NPROC - pos))"

lemma next_pick_ahead:
  assumes "state (t p) = RUNNABLE" "p < NPROC" "pos \<le> NPROC"
  obtains q where "next_pick pos t = Some q" "q < NPROC" "state (t q) = RUNNABLE"
    "q = p \<or> ahead (Suc q) p < ahead pos p"
proof (cases "sched_scan pos t")
  case (Some q)
  then have q: "pos \<le> q" "q < NPROC" "state (t q) = RUNNABLE" "\<And>j. pos \<le> j \<Longrightarrow> j < q \<Longrightarrow> state (t j) \<noteq> RUNNABLE"
    by (auto simp: sched_scan_def find_upt_Some)
  have "pos \<le> p \<Longrightarrow> q \<le> p" using q(4) [of p] assms(1) by (meson not_le)
  then have "q = p \<or> ahead (Suc q) p < ahead pos p" using assms q
    by (auto simp: ahead_def)
  then show ?thesis using Some q that by (simp add: next_pick_def)
next
  case None
  then have n: "\<And>j. pos \<le> j \<Longrightarrow> j < NPROC \<Longrightarrow> state (t j) \<noteq> RUNNABLE"
    by (auto simp: sched_scan_def find_upt_None)
  then have lt: "p < pos" using assms by (meson not_le)
  have "sched_scan 0 t \<noteq> None" using assms by (auto simp: sched_scan_def find_upt_None)
  then obtain q where s: "sched_scan 0 t = Some q" by blast
  then have q: "q < NPROC" "state (t q) = RUNNABLE" "\<And>j. j < q \<Longrightarrow> state (t j) \<noteq> RUNNABLE"
    by (auto simp: sched_scan_def find_upt_Some)
  have "q \<le> p" using q(3) [of p] assms(1) by (meson not_le)
  then have "q = p \<or> ahead (Suc q) p < ahead pos p" using lt assms by (auto simp: ahead_def)
  then show ?thesis using None s q that by (simp add: next_pick_def)
qed

text \<open>C20: The scheduler is fair: a process that stays runnable is picked within \<open>NPROC\<close> switches, whatever
  the other processes do in between.\<close>

theorem scheduler_round_robin:
  assumes "p < NPROC" "pos \<le> NPROC" "\<forall>n < NPROC. state (t n p) = RUNNABLE"
  shows "\<exists>n < NPROC. picks t pos n = Some p"
proof (rule ccontr)
  assume no: "\<not> (\<exists>n < NPROC. picks t pos n = Some p)"
  have "n < NPROC \<Longrightarrow> \<exists>q. picks t pos n = Some q \<and> q < NPROC \<and> ahead (Suc q) p + Suc n \<le> ahead pos p" for n
  proof (induction n)
    case 0
    from next_pick_ahead [of "t 0" p pos] assms obtain q where "next_pick pos (t 0) = Some q" "q < NPROC"
      "q = p \<or> ahead (Suc q) p < ahead pos p" by auto
    moreover have "picks t pos 0 \<noteq> Some p" using no 0 by blast
    ultimately show ?case by (intro exI [of _ q]) auto
  next
    case (Suc n)
    then obtain q where q: "picks t pos n = Some q" "q < NPROC" "ahead (Suc q) p + Suc n \<le> ahead pos p" by auto
    from next_pick_ahead [of "t (Suc n)" p "Suc q"] assms q Suc.prems obtain r where
      r: "next_pick (Suc q) (t (Suc n)) = Some r" "r < NPROC" "r = p \<or> ahead (Suc r) p < ahead (Suc q) p" by auto
    moreover have "picks t pos (Suc n) \<noteq> Some p" using no Suc.prems by blast
    ultimately show ?case using q by (intro exI [of _ r]) auto
  qed
  from this [of "NPROC - 1"] have "NPROC \<le> ahead pos p" by (auto simp: NPROC_def)
  then show False using assms(1,2) by (auto simp: ahead_def split: if_splits)
qed

theorem scheduler_round_robin_witness:
  "\<exists>n < NPROC. picks (\<lambda>n i. empty_proc\<lparr>state := if i = 5 \<or> i = n then RUNNABLE else SLEEPING\<rparr>) 9 n = Some 5"
  by (rule scheduler_round_robin) (simp_all add: NPROC_def)

section \<open>The end of a process\<close>

text \<open>A table that differs from another in that some sleepers were woken.\<close>

definition woken :: "ptab \<Rightarrow> ptab \<Rightarrow> bool" where
  "woken t t' \<longleftrightarrow> (\<forall>p. parent (t' p) = parent (t p) \<and> chan (t' p) = chan (t p) \<and>
     (state (t' p) = state (t p) \<or> state (t p) = SLEEPING \<and> state (t' p) = RUNNABLE))"

lemma woken_refl [simp]: "woken t t" by (simp add: woken_def)

lemma woken_trans: "woken t u \<Longrightarrow> woken u v \<Longrightarrow> woken t v"
  unfolding woken_def by (metis procstate.distinct(27))

lemma woken_wakeup1 [simp]: "woken t (wakeup1 c t)"
  by (auto simp: woken_def wakeup1_eq)

lemma fileclose_woken: "fileclose f k = Inr k' \<Longrightarrow> woken (ptable k) (ptable k')"
  by (auto simp: fileclose_def pipeclose_def Let_def do_km_def do_fs_def res_simps
      split: if_splits ftype.splits prod.splits)

lemma fileclose_cur: "fileclose f k = Inr k' \<Longrightarrow> cur k' = cur k \<and> initproc k' = initproc k"
  by (auto simp: fileclose_def pipeclose_def Let_def do_km_def do_fs_def res_simps wakeup_def upd_file_def
      split: if_splits ftype.splits prod.splits)

lemma close_files_woken:
  "close_files fds k = Inr k' \<Longrightarrow> woken (ptable k) (ptable k') \<and> cur k' = cur k \<and> initproc k' = initproc k"
proof (induction fds arbitrary: k)
  case (Cons fd fds)
  show ?case
  proof (cases "ofile (myproc k) fd")
    case (Some f)
    with Cons.prems obtain k1 where k1: "fileclose f k = Inr k1"
        "close_files fds (upd_proc (me k1) (\<lambda>q. q\<lparr>ofile := (ofile q)(fd := None)\<rparr>) k1) = Inr k'"
      by (auto simp: res_simps)
    have "woken (ptable k1) (ptable (upd_proc (me k1) (\<lambda>q. q\<lparr>ofile := (ofile q)(fd := None)\<rparr>) k1))"
      by (simp add: woken_def)
    then show ?thesis
      using Cons.IH [OF k1(2)] fileclose_woken [OF k1(1)] fileclose_cur [OF k1(1)]
      by (simp del: upd_proc_simps(1)) (meson woken_trans)
  qed (use Cons in auto)
qed simp

text \<open>Asleep in \<open>wait\<close>.\<close>

definition waiting :: "ptab \<Rightarrow> nat \<Rightarrow> bool" where
  "waiting t p \<longleftrightarrow> state (t p) = SLEEPING \<and> chan (t p) = Some (ChProc p)"

definition hand_over :: "nat \<Rightarrow> nat \<Rightarrow> nat \<Rightarrow> ptab \<Rightarrow> ptab" where
  "hand_over m init i t = (if parent (t i) = Some m then
       let t1 = t(i := (t i)\<lparr>parent := Some init\<rparr>)
       in if state (t1 i) = ZOMBIE then wakeup1 (ChProc init) t1 else t1
     else t)"

lemma hand_over_fields:
  "parent (hand_over m i c t p) = (if p = c \<and> parent (t c) = Some m then Some i else parent (t p))"
  "chan (hand_over m i c t p) = chan (t p)"
  "state (hand_over m i c t p) = state (t p) \<or> state (t p) = SLEEPING \<and> state (hand_over m i c t p) = RUNNABLE"
  by (auto simp: hand_over_def Let_def wakeup1_eq)

lemma fold_hand_over:
  "let r = fold (hand_over m i) cs t in
    parent (r p) = (if p \<in> set cs \<and> parent (t p) = Some m then Some i else parent (t p)) \<and>
    chan (r p) = chan (t p) \<and>
    (state (r p) = state (t p) \<or> state (t p) = SLEEPING \<and> state (r p) = RUNNABLE) \<and>
    (i < NPROC \<longrightarrow> (\<exists>c \<in> set cs. parent (t c) = Some m \<and> state (t c) = ZOMBIE) \<longrightarrow> \<not> waiting r i)"
proof (induction cs arbitrary: t p)
  case (Cons c cs)
  let ?t = "hand_over m i c t"
  note ih = Cons.IH [of ?t, unfolded Let_def]
  have z: "\<not> waiting ?t i" if "i < NPROC" "parent (t c) = Some m" "state (t c) = ZOMBIE"
    using that by (simp add: hand_over_def Let_def waiting_def wakeup1_eq)
  have keep: "\<not> waiting (fold (hand_over m i) cs ?t) i" if "\<not> waiting ?t i"
    using that ih [of i] by (auto simp: waiting_def)
  have zs: "state (?t d) = ZOMBIE" if "state (t d) = ZOMBIE" for d
    using hand_over_fields(3) [of m i c t d] that by auto
  have "\<not> waiting (fold (hand_over m i) (c # cs) t) i"
    if "i < NPROC" "d \<in> set (c # cs)" "parent (t d) = Some m" "state (t d) = ZOMBIE" for d
  proof (cases "d = c")
    case True
    then show ?thesis using keep [OF z] that by simp
  next
    case False
    then have "d \<in> set cs" "parent (?t d) = Some m" using that by (simp_all add: hand_over_fields(1))
    then show ?thesis using ih [of p] zs [OF that(4)] that(1) by auto
  qed
  moreover have "parent (fold (hand_over m i) cs ?t p) =
      (if p \<in> set (c # cs) \<and> parent (t p) = Some m then Some i else parent (t p))"
    using ih [of p] by (auto simp: hand_over_fields(1))
  moreover have "chan (fold (hand_over m i) cs ?t p) = chan (t p)" using ih [of p] by (simp add: hand_over_fields(2))
  moreover have "state (fold (hand_over m i) cs ?t p) = state (t p) \<or>
      state (t p) = SLEEPING \<and> state (fold (hand_over m i) cs ?t p) = RUNNABLE"
    using ih [of p] hand_over_fields(3) [of m i c t p] by auto
  ultimately show ?case unfolding Let_def by (simp del: split_paired_Ex) blast
qed simp

lemma reparent_fold: "reparent m i t = fold (hand_over m i) [0..<NPROC] t"
  unfolding reparent_def hand_over_def [abs_def] by (rule refl)

text \<open>The process table that \<open>exit\<close> leaves: the parent woken, the children handed over, a zombie.\<close>

definition parent_woken :: "nat \<Rightarrow> ptab \<Rightarrow> ptab" where
  "parent_woken m t = (let t' = t(m := (t m)\<lparr>cwd := None\<rparr>) in
     case parent (t m) of None \<Rightarrow> t' | Some p \<Rightarrow> wakeup1 (ChProc p) t')"

lemma exit_table:
  assumes "exit k = Inr k'" "cur k = Some m" "initproc k = Some i"
  shows "i \<noteq> m \<and> (\<exists>t1 t5. woken (ptable k) t1 \<and> t5 = reparent m i (parent_woken m t1) \<and>
    ptable k' = t5(m := (t5 m)\<lparr>state := ZOMBIE\<rparr>))"
proof -
  have ne: "i \<noteq> m" using assms by (auto simp: exit_def)
  let ?rest = "\<lambda>k2. let k3 = upd_proc (me k2) (\<lambda>q. q\<lparr>cwd := None\<rparr>) k2;
                k4 = (case parent (myproc k3) of None \<Rightarrow> k3 | Some p \<Rightarrow> wakeup (ChProc p) k3);
                k5 = (case initproc k4 of None \<Rightarrow> k4
                      | Some i \<Rightarrow> k4\<lparr>ptable := reparent (me k4) i (ptable k4)\<rparr>)
            in Inr (upd_proc (me k5) (\<lambda>q. q\<lparr>state := ZOMBIE\<rparr>) k5)"
  define tl :: "kernel \<Rightarrow> kernel result" where "tl = ?rest"
  have "cur k \<noteq> initproc k" using ne assms(2,3) by simp
  from assms(1) [unfolded exit_def if_not_P [OF this] bindE_Inr_iff, folded tl_def] obtain k1 where
    k1: "close_files [0..<NOFILE] k = Inr k1" and
    r1: "(case cwd (myproc k1) of None \<Rightarrow> Inl (OutOfBounds ''cwd'') | Some c \<Rightarrow> bindE (do_fs (iput c) k1) tl) = Inr k'"
    by blast
  from r1 obtain c where "bindE (do_fs (iput c) k1) tl = Inr k'" by (cases "cwd (myproc k1)") simp_all
  then obtain k2 where k2: "do_fs (iput c) k1 = Inr k2" and k': "tl k2 = Inr k'"
    unfolding bindE_Inr_iff by blast
  note w1 = close_files_woken [OF k1]
  have s2: "ptable k2 = ptable k1" "cur k2 = Some m" "initproc k2 = Some i"
    using k2 w1 assms(2,3) by (auto simp: do_fs_def res_simps)
  define t3 where "t3 = (ptable k1)(m := (ptable k1 m)\<lparr>cwd := None\<rparr>)"
  define t4 where "t4 = parent_woken m (ptable k1)"
  define t5 where "t5 = reparent m i t4"
  define k3 where "k3 = upd_proc (me k2) (\<lambda>q. q\<lparr>cwd := None\<rparr>) k2"
  define k4 where "k4 = (case parent (myproc k3) of None \<Rightarrow> k3 | Some p \<Rightarrow> wakeup (ChProc p) k3)"
  define k5 where "k5 = (case initproc k4 of None \<Rightarrow> k4 | Some i \<Rightarrow> k4\<lparr>ptable := reparent (me k4) i (ptable k4)\<rparr>)"
  have k'5: "k' = upd_proc (me k5) (\<lambda>q. q\<lparr>state := ZOMBIE\<rparr>) k5"
    using k' unfolding tl_def Let_def k3_def [symmetric] k4_def [symmetric] k5_def [symmetric] by simp
  have s3: "ptable k3 = t3" "cur k3 = Some m" "initproc k3 = Some i" "parent (t3 m) = parent (ptable k1 m)"
    by (simp_all add: k3_def t3_def s2)
  have s4: "ptable k4 = t4" "cur k4 = Some m" "initproc k4 = Some i"
    unfolding k4_def t4_def parent_woken_def Let_def t3_def [symmetric] by (cases "parent (ptable k1 m)"; simp add: s3 wakeup_def)+
  have "ptable k5 = t5" "cur k5 = Some m" unfolding k5_def t5_def by (simp_all add: s4)
  then have pk: "ptable k' = t5(m := (t5 m)\<lparr>state := ZOMBIE\<rparr>)" by (simp add: k'5)
  then show ?thesis using ne w1 t5_def [unfolded t4_def] by blast
qed

text \<open>C19: A process that exits closes its files and becomes a zombie; its parent, if it is asleep in
  \<open>wait\<close>, is made runnable; all its children are handed to \<open>init\<close>, which is not left asleep in \<open>wait\<close> when
  one of them is a zombie already. So no wakeup is lost.\<close>

theorem exit_hands_over:
  assumes "exit k = Inr k'" "cur k = Some m" "initproc k = Some i" "m < NPROC" "i < NPROC"
  shows "state (ptable k' m) = ZOMBIE \<and>
    (\<forall>p < NPROC. parent (ptable k m) = Some p \<longrightarrow> p \<noteq> m \<longrightarrow> state (ptable k p) = SLEEPING \<longrightarrow>
       chan (ptable k p) = Some (ChProc p) \<longrightarrow> state (ptable k' p) = RUNNABLE) \<and>
    (\<forall>c < NPROC. parent (ptable k c) = Some m \<longrightarrow> parent (ptable k' c) = Some i) \<and>
    ((\<exists>c < NPROC. c \<noteq> m \<and> parent (ptable k c) = Some m \<and> state (ptable k c) = ZOMBIE) \<longrightarrow>
       \<not> (state (ptable k' i) = SLEEPING \<and> chan (ptable k' i) = Some (ChProc i)))"
proof -
  obtain t1 t5 where ne: "i \<noteq> m" and w1: "woken (ptable k) t1" and t5: "t5 = reparent m i (parent_woken m t1)"
    and pk: "ptable k' = t5(m := (t5 m)\<lparr>state := ZOMBIE\<rparr>)"
    using exit_table [OF assms(1-3)] by blast
  let ?t3 = "t1(m := (t1 m)\<lparr>cwd := None\<rparr>)" and ?t4 = "parent_woken m t1"
  have w3: "woken (ptable k) ?t3" using w1 by (auto simp: woken_def)
  have "woken ?t3 ?t4" by (auto simp: parent_woken_def Let_def split: option.splits)
  then have w4: "woken (ptable k) ?t4" by (rule woken_trans [OF w3])
  note t5 = fold_hand_over [of m i "[0..<NPROC]" ?t4, folded reparent_fold, folded t5, unfolded Let_def]
  have "state (ptable k' p) = RUNNABLE"
    if p: "p < NPROC" "parent (ptable k m) = Some p" "p \<noteq> m" "waiting (ptable k) p" for p
  proof -
    have "parent (t1 m) = Some p" using w1 p(2) by (simp add: woken_def)
    then have "?t4 = wakeup1 (ChProc p) ?t3" by (simp add: parent_woken_def)
    moreover have "state (?t3 p) = SLEEPING \<or> state (?t3 p) = RUNNABLE" "chan (?t3 p) = Some (ChProc p)"
      using w3 [unfolded woken_def, rule_format, of p] p(4) by (auto simp: waiting_def)
    ultimately have "state (?t4 p) = RUNNABLE" using p(1) by (auto simp: wakeup1_eq)
    then show ?thesis using t5 [of p] p(3) by (auto simp: pk)
  qed
  moreover have "parent (ptable k' c) = Some i" if "c < NPROC" "parent (ptable k c) = Some m" for c
    using t5 [of c] that w4 by (auto simp: pk woken_def)
  moreover have "\<not> waiting (ptable k') i"
    if "c < NPROC" "parent (ptable k c) = Some m" "state (ptable k c) = ZOMBIE" for c
  proof -
    have "parent (?t4 c) = Some m" "state (?t4 c) = ZOMBIE" using that w4 [unfolded woken_def, rule_format, of c] by auto
    then have "\<not> waiting t5 i" using t5 [of i] that(1) assms(5) by auto
    then show ?thesis using ne by (simp add: pk waiting_def)
  qed
  ultimately show ?thesis by (auto simp: pk waiting_def)
qed

text \<open>Process 1 exits with a sleeping parent, process 2, and a zombie child, process 3; process 0 is \<open>init\<close>.\<close>

definition family :: kernel where
  "family = empty_kernel\<lparr>ptable := (\<lambda>_. empty_proc)
       (0 := empty_proc\<lparr>state := SLEEPING, chan := Some (ChProc 0)\<rparr>,
        1 := empty_proc\<lparr>state := RUNNING, parent := Some 2, cwd := Some 0\<rparr>,
        2 := empty_proc\<lparr>state := SLEEPING, chan := Some (ChProc 2)\<rparr>,
        3 := empty_proc\<lparr>state := ZOMBIE, parent := Some 1\<rparr>),
     cur := Some 1, initproc := Some 0\<rparr>"

theorem exit_hands_over_witness:
  "\<exists>k'. exit family = Inr k' \<and> state (ptable k' 1) = ZOMBIE \<and> state (ptable k' 2) = RUNNABLE \<and>
     parent (ptable k' 3) = Some 0"
proof -
  have c: "close_files fds family = Inr family" for fds
    by (induction fds) (simp_all add: family_def empty_proc_def)
  have "iput 0 (fs family) = Inr ((fs family)\<lparr>icache := (icache (fs family))(0 := (icache (fs family) 0)\<lparr>iref := - 1\<rparr>)\<rparr>)"
    by (simp add: iput_def family_def empty_kernel_def)
  moreover have f: "cur family = Some 1" "initproc family = Some 0" "cwd (ptable family 1) = Some 0"
    "parent (ptable family 1) = Some 2" "parent (ptable family 3) = Some 1" "state (ptable family 2) = SLEEPING"
    "chan (ptable family 2) = Some (ChProc 2)"
    by (simp_all add: family_def)
  ultimately have "\<exists>k'. exit family = Inr k'" by (simp add: exit_def c do_fs_def Let_def)
  then obtain k' where e: "exit family = Inr k'" by blast
  show ?thesis
    using exit_hands_over [OF e f(1,2)] e f by (auto simp: NPROC_def)
qed

section \<open>Killing pid 0\<close>

lemma allocproc_fields:
  assumes "allocproc k = Inr (r, k')" "find_unused (ptable k) = Some p"
  shows "killed (ptable k' q) = killed (ptable k q)" and "r = Some np \<Longrightarrow> np = p"
    and "q \<noteq> p \<Longrightarrow> ptable k' q = ptable k q"
  using assms by (auto simp: allocproc_def Let_def with_km_def res_simps split: if_splits)

lemma dup_files_killed: "dup_files is np k = Inr k' \<Longrightarrow> killed (ptable k' q) = killed (ptable k q)"
proof (induction "is" arbitrary: k)
  case (Cons i js)
  show ?case
  proof (cases "ofile (myproc k) i")
    case (Some f)
    with Cons.prems obtain k1 where k1: "filedup f k = Inr k1"
        "dup_files js np (upd_proc np (\<lambda>q. q\<lparr>ofile := (ofile q)(i := Some f)\<rparr>) k1) = Inr k'"
      by (auto simp: res_simps)
    have "ptable k1 = ptable k" using k1(1) by (auto simp: filedup_def split: if_splits)
    then show ?thesis using Cons.IH [OF k1(2)] by simp
  qed (use Cons in auto)
qed simp

text \<open>Who is marked killed, as an assertion that memory and file system leave alone.\<close>

definition marks :: "(nat \<Rightarrow> bool) \<Rightarrow> kernel \<Rightarrow> bool" where
  "marks K k \<longleftrightarrow> (\<forall>q. killed (ptable k q) = K q)"

interpretation marked: kernel_mem "marks K" for K
  by unfold_locales (simp_all add: marks_def)

lemma marks_upd: "marks K k \<Longrightarrow> (\<And>q. killed (f q) = killed q) \<Longrightarrow> marks K (upd_proc p f k)"
  by (simp add: marks_def)

lemma fork_marks:
  assumes "marks K k"
  shows "keeps (marks K) (fork k)"
proof -
  note rules = marked.bind_ok [where K = K] marked.with_ok [where K = K] marked.I_fs [where K = K]
  have a: "keeps (marks K) (allocproc k)"
    unfolding allocproc_def Let_def using assms
    by (auto intro!: marked.bind_ok marked.with_ok marked.I_km marks_upd split: option.splits) (simp_all add: marks_def)
  have d: "Ok (marks K) (dup_files is np k1)" if "marks K k1" for "is" np k1
    using that dup_files_killed [of "is" np k1] by (auto simp: Ok_def marks_def)
  show ?thesis
    unfolding fork_def Let_def
    by (auto intro!: rules a d marks_upd split: option.splits)
qed

text \<open>C22: \<open>kill(0)\<close> finds a free entry of the process table, whose pid is 0, and marks it killed; nothing
  resets the mark, so the next process that is created in the entry, by \<open>fork\<close> as well, is killed
  before it ever runs.\<close>

theorem kill_zero_kills_next_process:
  assumes "\<forall>i < NPROC. pid (ptable k i) = 0 \<longleftrightarrow> state (ptable k i) = UNUSED" "find_unused (ptable k) = Some p"
    and "k1 = k\<lparr>ptable := snd (kill 0 (ptable k))\<rparr>"
  shows "fst (kill 0 (ptable k)) = 0 \<and>
    (\<forall>np k2. allocproc k1 = Inr (Some np, k2) \<longrightarrow> np = p \<and> killed (ptable k2 np)) \<and>
    (\<forall>r k2. fork k1 = Inr (r, k2) \<longrightarrow> killed (ptable k2 p))"
proof -
  have p: "p < NPROC" "state (ptable k p) = UNUSED" using find_unusedD [OF assms(2)] by auto
  have "find (\<lambda>i. pid (ptable k i) = 0) [0..<NPROC] = Some p"
    using assms(1,2) unfolding find_unused_def by (auto simp: find_Some_iff)
  then have kill: "kill 0 (ptable k) = (0, (ptable k)(p := (ptable k p)\<lparr>killed := True\<rparr>))"
    using p(2) by (simp add: kill_def)
  then have k1: "ptable k1 = (ptable k)(p := (ptable k p)\<lparr>killed := True\<rparr>)" by (simp add: assms(3))
  have "find_unused (ptable k1) = find_unused (ptable k)"
    unfolding find_unused_def k1 by (rule arg_cong2 [of _ _ _ _ find]) auto
  then have u: "find_unused (ptable k1) = Some p" using assms(2) by simp
  have "killed (ptable k1 p)" by (simp add: k1)
  then have "killed (ptable k2 p)" if "fork k1 = Inr (r, k2)" for r k2
    using OkD [OF fork_marks that, of "\<lambda>q. killed (ptable k1 q)"] by (simp add: marks_def)
  moreover have "np = p \<and> killed (ptable k2 np)" if "allocproc k1 = Inr (Some np, k2)" for np k2
    using allocproc_fields(1,2) [OF that u] \<open>killed (ptable k1 p)\<close> by auto
  ultimately show ?thesis by (simp add: kill)
qed

text \<open>With one free page: after \<open>kill(0)\<close> the new process is entry 0, and it is marked.\<close>

definition one_page :: kernel where
  "one_page = empty_kernel\<lparr>km := \<lparr>freelist = 0x300000, free_pages = 1, ref_cnt = (\<lambda>_. 0), phys = (\<lambda>_ _. 0)\<rparr>\<rparr>"

theorem kill_zero_kills_next_process_witness:
  "\<exists>k2. allocproc (one_page\<lparr>ptable := snd (kill 0 (ptable one_page))\<rparr>) = Inr (Some 0, k2) \<and> killed (ptable k2 0)"
proof -
  have u: "find_unused (ptable one_page) = Some 0" "\<forall>i < NPROC. pid (ptable one_page i) = 0 \<longleftrightarrow> state (ptable one_page i) = UNUSED"
    by (simp_all add: find_unused_def one_page_def empty_kernel_def empty_proc_def NPROC_def upt_conv_Cons)
  note t = kill_zero_kills_next_process [OF u(2,1) refl]
  let ?k = "one_page\<lparr>ptable := snd (kill 0 (ptable one_page))\<rparr>"
  have "kalloc (km ?k) = Inr (0x300000, (km ?k)\<lparr>freelist := 0, ref_cnt := (\<lambda>_. 0)(768 := 1), free_pages := 0\<rparr>)"
    by (simp add: kalloc_def one_page_def pfn_def PGSIZE_def NFRAMES_def guardE_def)
  moreover have "find_unused (ptable ?k) = Some 0"
    by (simp add: find_unused_def one_page_def empty_kernel_def empty_proc_def NPROC_def upt_conv_Cons kill_def)
  ultimately have "\<exists>np k2. allocproc ?k = Inr (Some np, k2)"
    by (simp add: allocproc_def with_km_def Let_def)
  then show ?thesis using t by metis
qed

section \<open>A failing exec\<close>

definition same_tables :: "ptab \<Rightarrow> (nat \<Rightarrow> kfile) \<Rightarrow> kernel \<Rightarrow> bool" where
  "same_tables T F k \<longleftrightarrow> ptable k = T \<and> ftable k = F"

interpretation tables: kernel_mem "same_tables T F" for T F
  by unfold_locales (simp_all add: same_tables_def)

lemma fails_keep: "keeps I m \<Longrightarrow> Ok (\<lambda>(r, k). r = - 1 \<longrightarrow> I k) m"
  by (erule Ok_mono) auto

lemma exec_commit_fails: "same_tables T F k \<Longrightarrow>
    Ok (\<lambda>(r, k'). r = - 1 \<longrightarrow> same_tables T F k') (exec_commit d s entry path argv k)"
proof -
  note rules = tables.bind_ok [where T = T and F = F] tables.with_ok [where T = T and F = F]
    tables.push_args_ok [where T = T and F = F] fails_keep [OF tables.exec_bad_ok [where T = T and F = F]]
  have e: "Ok (\<lambda>(r :: int, k'). r = - 1 \<longrightarrow> same_tables T F k') (bindE m (\<lambda>k5. Inr (0, k5)))" for m :: "kernel result"
    by (cases m) simp_all
  show "same_tables T F k \<Longrightarrow> ?thesis"
    unfolding exec_commit_def Let_def by (auto intro!: e rules split: option.splits)
qed

text \<open>C21: When \<open>exec\<close> fails, for whatever reason and however far it came, the process table and the open files
  are what they were: the caller keeps its page directory, size, registers, name and descriptors.\<close>

theorem exec_failure_changes_nothing:
  assumes "exec path argv k = Inr (- 1, k')"
  shows "ptable k' = ptable k \<and> ftable k' = ftable k"
proof -
  let ?t = "ptable k" and ?f = "ftable k"
  note rules = tables.bind_ok [where T = ?t and F = ?f] tables.with_ok [where T = ?t and F = ?f]
    tables.load_segments_ok [where T = ?t and F = ?f] fails_keep [OF tables.exec_bad_ok [where T = ?t and F = ?f]]
  have "same_tables ?t ?f k" by (simp add: same_tables_def)
  then have "Ok (\<lambda>(r, k'). r = - 1 \<longrightarrow> same_tables ?t ?f k') (exec path argv k)"
    unfolding exec_def Let_def by (auto intro!: rules exec_commit_fails split: option.splits)
  then show ?thesis using assms by (auto simp: Ok_def same_tables_def)
qed

text \<open>A file of four bytes is no program.\<close>

definition shell_kernel :: kernel where
  "shell_kernel = empty_kernel\<lparr>fs := demo_fs\<lparr>icache := (\<lambda>_. demo_inode\<lparr>iref := 1, iflags := 2\<rparr>)\<rparr>,
     ptable := (\<lambda>_. empty_proc\<lparr>cwd := Some 0\<rparr>), cur := Some 0\<rparr>"

theorem exec_failure_changes_nothing_witness:
  "\<exists>k'. exec [] [] shell_kernel = Inr (- 1, k') \<and> ptable k' = ptable shell_kernel"
proof -
  define s where "s = fs shell_kernel"
  let ?ip = "demo_inode\<lparr>iref := 2, iflags := 3\<rparr>"
  define s2 where "s2 = s\<lparr>icache := (icache s)(0 := ?ip)\<rparr>"
  have p: "fs shell_kernel = s" "myproc shell_kernel = empty_proc\<lparr>cwd := Some 0\<rparr>" "devr shell_kernel = (\<lambda>_. None)"
    by (simp_all add: s_def shell_kernel_def empty_kernel_def)
  have ic: "icache s 0 = demo_inode\<lparr>iref := 1, iflags := 2\<rparr>" by (simp add: s_def shell_kernel_def)
  have n: "namei 0 [] s = Inr (Some 0, s\<lparr>icache := (icache s)(0 := (icache s 0)\<lparr>iref := 2\<rparr>)\<rparr>)"
    by (simp add: namei_def namex_def namex_loop.simps [of "[]"] skipelem_def idup_def ic)
  have l: "ilock 0 (s\<lparr>icache := (icache s)(0 := (icache s 0)\<lparr>iref := 2\<rparr>)\<rparr>) = Inr s2"
    by (simp add: ilock_def ic s2_def I_BUSY_def I_VALID_def Let_def)
  have b: "length (blocks s2 1 30) = 512" by (simp add: s2_def s_def shell_kernel_def demo_fs_def BSIZE_def)
  have "bmap 0 (0 div 512) s2 = Inr (30, s2)"
    by (simp add: bmap_def s2_def demo_inode_def NDIRECT_def)
  then have r: "readi (\<lambda>_. None) 0 0 52 s2 = Inr (Some (take 4 (blocks s2 1 30)), s2)"
    by (simp add: readi_def Let_def s2_def demo_inode_def T_FILE_def T_DEV_def readi_loop.simps [of "4"]
        readi_loop.simps [of "3"] chunk_def BSIZE_def)
  obtain s3 where u: "iunlockput 0 s2 = Inr s3"
    by (simp add: iunlockput_def iunlock_def iput_def s2_def I_BUSY_def I_VALID_def)
  have "\<exists>k'. exec [] [] shell_kernel = Inr (- 1, k')"
    by (simp add: exec_def with_fs_def do_fs_def p n l r u b exec_bad_def Let_def)
  then show ?thesis using exec_failure_changes_nothing by blast
qed

section \<open>Negative lengths\<close>

text \<open>C23: \<open>argptr\<close> adds the length without looking at its sign, so the length -1 of a read passes for every
  pointer into the process but 0, while \<open>readi\<close> takes it for 2 ^ 32 - 1 and returns the whole file from offset 0:
  the kernel writes past the end of the process.\<close>

theorem argptr_negative_length:
  assumes "argint n k = Inr (Some p)" "0 < p" "p < sz (myproc k)"
    and "mapped s i N" "itype (icache s i) \<noteq> T_DEV" "unat (isize (icache s i)) \<le> N * BSIZE"
  shows "argptr n (- 1) k = Inr (Some p) \<and>
    readi dr i 0 (- 1) s = Inr (Some (map (file_byte s i) [0..<unat (isize (icache s i))]), s)"
proof -
  have "unat p \<noteq> 0" using assms(2) by (simp add: word_less_nat_alt)
  then have "unat (p + - 1) = unat p - 1" by (simp add: unat_minus_one unat_eq_0)
  then have "\<not> p + - 1 > sz (myproc k)" using assms(3) by (simp add: word_less_nat_alt)
  then have "argptr n (- 1) k = Inr (Some p)" using assms(1,3) by (simp add: argptr_def)
  moreover have "readi dr i 0 (- 1) s = readi dr i 0 (isize (icache s i)) s"
  proof (cases "isize (icache s i) = - 1")
    case False
    then have "isize (icache s i) < - 1" by (simp add: word_order.not_eq_extremum)
    then show ?thesis using assms(5) by (simp add: readi_def)
  qed simp
  ultimately show ?thesis
    using readi_mapped [OF assms(4,5), of 0 "unat (isize (icache s i))" dr] assms(6) by simp
qed

text \<open>A read with length -1 at address 100 of a process of one page, of a file of four bytes.\<close>

definition reader :: kernel where
  "reader = empty_kernel\<lparr>cur := Some 0,
     km := \<lparr>freelist = 0, free_pages = 0, ref_cnt = (\<lambda>_. 0),
       phys = (\<lambda>_ _. 0)(0x300000 := (\<lambda>_. 0)(0 := 0x301007), 0x301000 := (\<lambda>_. 0)(0 := 0x302007),
         0x302000 := (\<lambda>_. 0)(2 := 4095))\<rparr>,
     ptable := (\<lambda>_. empty_proc\<lparr>sz := 4096, pgdir := 0x300000\<rparr>)\<rparr>"

theorem argptr_negative_length_witness:
  "argptr 1 (- 1) reader = Inr (Some 4095) \<and>
    readi (\<lambda>_. None) 0 0 (- 1) demo_fs = Inr (Some (map (file_byte demo_fs 0) [0..<4]), demo_fs)"
proof -
  let ?m = "phys (km reader)"
  have m: "?m 0x300000 0 = 0x301007" "?m 0x301000 0 = 0x302007" "?m 0x302000 2 = 4095"
    "sz (myproc reader) = 4096" "pgdir (myproc reader) = 0x300000" "esp (tf (myproc reader)) = 0"
    by (simp_all add: reader_def empty_kernel_def empty_proc_def)
  have a: "PTE_ADDR 0x301007 = 0x301000" "PTE_ADDR 0x302007 = 0x302000" "(0x301007 :: u32) AND PTE_P \<noteq> 0"
    "(0x302007 :: u32) AND PTE_P \<noteq> 0"
    by (simp_all add: PTE_ADDR_def PTE_P_def)
  have l: "user_load 0x300000 v (km reader) = Inr (ucast (drop_bit (8 * (unat v mod 4)) (4095 :: u32)))"
    if "v \<in> {8, 9, 10, 11}" for v
    using that by (auto simp: user_load_def walkpgdir_def PDX_def PTX_def m a load_byte_def)
  have "user_loads 0x300000 8 (Suc (Suc (Suc (Suc 0)))) (km reader) = Inr [255, 15, 0, 0]"
    by (simp add: l)
  then have "user_loads 0x300000 8 4 (km reader) = Inr [255, 15, 0, 0]" by (simp add: numeral_eq_Suc)
  then have "argint 1 reader = Inr (Some 4095)"
    by (simp add: argint_def fetchint_def m ld32_def)
  moreover have "mapped demo_fs 0 1" using demo_fs_ok by (simp add: file_ok_def)
  ultimately show ?thesis
    using argptr_negative_length [of 1 reader 4095 demo_fs 0 1 "\<lambda>_. None"]
    by (simp add: reader_def empty_kernel_def demo_fs_def demo_inode_def T_FILE_def T_DEV_def BSIZE_def)
qed

end
