(* ===== verification/Rpc.thy ===== *)
theory Rpc
  imports Prelude
begin

text \<open>
  Remote procedure calls over UDP: \<open>P8_Distributed_Systems\<close>. The server (\<open>server.c\<close>, \<open>server_functions.c\<close>) handles
  each packet in a thread. The main loop waits for the thread unless the request is \<open>idle\<close>; then it goes on and
  receives the next packet into the buffer that the thread reads. \<open>thread_step\<close> and the record \<open>node\<close> model the threads
  with any interleaving of their pieces, \<open>serve\<close> is a thread that runs alone. The client (\<open>client.c\<close>) retries
  over a network that loses packets; the sockets of \<open>udp.c\<close> are not modelled. C \<open>int\<close>s are 32-bit words
  compared as signed numbers.
\<close>

definition NUMKEYS :: int where "NUMKEYS = 1024"
definition NCLIENTS :: nat where "NCLIENTS = 100"

record table_entry =
  client_id :: u32
  seq_num :: u32
  finished :: bool
  res :: u32

record request =
  opcode :: u32
  r_client :: u32
  r_seq :: u32
  r_time :: u32
  r_key :: u32
  r_value :: u32

record feedback =
  f_client :: u32
  f_seq :: u32
  ack :: u32
  return_val :: u32

record server =
  table :: "nat \<Rightarrow> table_entry"
  datastore :: "nat \<Rightarrow> u32"

section \<open>The server\<close>

text \<open>The bounds test lets the key \<open>NUMKEYS\<close> through, one past the array.\<close>

definition get :: "u32 \<Rightarrow> server \<Rightarrow> u32 result" where
  "get k s = (if sint k > NUMKEYS \<or> sint k < 0 then Inr (- 1)
     else if sint k = NUMKEYS then Inl (OutOfBounds ''datastore'')
     else Inr (datastore s (unat k)))"

definition put :: "u32 \<Rightarrow> u32 \<Rightarrow> server \<Rightarrow> (u32 \<times> server) result" where
  "put k v s = (if sint k > NUMKEYS \<or> sint k < 0 then Inr (- 1, s)
     else if sint k = NUMKEYS then Inl (OutOfBounds ''datastore'')
     else Inr (0, s\<lparr>datastore := (datastore s)(unat k := v)\<rparr>))"

definition server_init :: "server \<Rightarrow> server" where
  "server_init s = s\<lparr>table := (\<lambda>i. if i < NCLIENTS
     then \<lparr>client_id = - 1, seq_num = - 1, finished = False, res = - 1\<rparr> else table s i)\<rparr>"

section \<open>A server thread\<close>

text \<open>What the thread of a packet does, in pieces that end where another thread may come in between. All the
  threads read the request through a pointer to the one buffer of the main loop, so every piece takes the
  request as it is in the buffer at that time.\<close>

datatype phase =
    Looking                      \<comment> \<open>about to search the table\<close>
  | Deciding u32 u32 nat u32     \<comment> \<open>the ids in \<open>fdbk\<close>, \<open>found_idx\<close> and \<open>temp_seqnum\<close> are set\<close>
  | Calling nat                  \<comment> \<open>the request is new and its number is in the table\<close>
  | Asleep nat                   \<comment> \<open>in \<open>idle\<close>\<close>
  | Ended

text \<open>What the server does that can be seen: it calls a service for a request, or sends a reply.\<close>

datatype event = Ran request | Sent feedback

text \<open>The search of the table: the entry of the client or the first free one; \<open>None\<close> is index -1.\<close>

definition find_entry :: "u32 \<Rightarrow> server \<Rightarrow> nat option" where
  "find_entry c s = find (\<lambda>i. client_id (table s i) = - 1 \<or> client_id (table s i) = c) [0..<NCLIENTS]"

definition upd_entry :: "nat \<Rightarrow> (table_entry \<Rightarrow> table_entry) \<Rightarrow> server \<Rightarrow> server" where
  "upd_entry i f s = s\<lparr>table := (table s)(i := f (table s i))\<rparr>"

definition look_up :: "request \<Rightarrow> server \<Rightarrow> (phase \<times> event list \<times> server) result" where
  "look_up r s = (case find_entry (r_client r) s of
     None \<Rightarrow> Inl (OutOfBounds ''table'')
   | Some i \<Rightarrow>
       let s1 = upd_entry i (\<lambda>e. e\<lparr>client_id := r_client r\<rparr>) s
       in Inr (Deciding (r_client r) (r_seq r) i (seq_num (table s1 i)), [], s1))"

definition decide :: "request \<Rightarrow> u32 \<Rightarrow> u32 \<Rightarrow> nat \<Rightarrow> u32 \<Rightarrow> server \<Rightarrow> (phase \<times> event list \<times> server) result" where
  "decide r fc fs i temp_seqnum s =
     (if sint temp_seqnum > sint (r_seq r) then Inr (Ended, [], s)
      else if temp_seqnum = r_seq r then
        Inr (Ended, [Sent (if finished (table s i)
               then \<lparr>f_client = fc, f_seq = fs, ack = 0, return_val = res (table s i)\<rparr>
               else \<lparr>f_client = fc, f_seq = fs, ack = 1, return_val = - 1\<rparr>)], s)
      else Inr (Calling i, [], upd_entry i (\<lambda>e. e\<lparr>finished := False, seq_num := r_seq r\<rparr>) s))"

text \<open>The call of the service; an \<open>idle\<close> request leaves its thread asleep.\<close>

definition execute :: "request \<Rightarrow> nat \<Rightarrow> server \<Rightarrow> (phase \<times> event list \<times> server) result" where
  "execute r i s =
     (if opcode r = 0 then Inr (Asleep i, [Ran r], s)
      else if opcode r = 1 then
        bindE (get (r_key r) s) (\<lambda>v. Inr (Ended, [Ran r], upd_entry i (\<lambda>e. e\<lparr>finished := True, res := v\<rparr>) s))
      else
        bindE (put (r_key r) (r_value r) s) (\<lambda>(v, s1).
        Inr (Ended, [Ran r], upd_entry i (\<lambda>e. e\<lparr>finished := True, res := v\<rparr>) s1)))"

definition idle_done :: "nat \<Rightarrow> server \<Rightarrow> server" where
  "idle_done i s = upd_entry i (\<lambda>e. e\<lparr>finished := True\<rparr>) s"

fun thread_step :: "request \<Rightarrow> phase \<Rightarrow> server \<Rightarrow> (phase \<times> event list \<times> server) result" where
  "thread_step r Looking s = look_up r s"
| "thread_step r (Deciding fc fs i t) s = decide r fc fs i t s"
| "thread_step r (Calling i) s = execute r i s"
| "thread_step r (Asleep i) s = Inr (Ended, [], idle_done i s)"
| "thread_step r Ended s = Inr (Ended, [], s)"

text \<open>The whole thread when nothing comes in between, up to its end or, of an \<open>idle\<close> request, to its sleep.\<close>

definition settled :: "phase \<Rightarrow> bool" where
  "settled ph \<longleftrightarrow> (case ph of Asleep i \<Rightarrow> True | Ended \<Rightarrow> True | _ \<Rightarrow> False)"

definition go_on :: "request \<Rightarrow> phase \<times> event list \<times> server \<Rightarrow> (phase \<times> event list \<times> server) result" where
  "go_on r = (\<lambda>(ph, es, s). if settled ph then Inr (ph, es, s)
     else bindE (thread_step r ph s) (\<lambda>(ph', es', s'). Inr (ph', es @ es', s')))"

definition serve :: "request \<Rightarrow> server \<Rightarrow> (phase \<times> event list \<times> server) result" where
  "serve r s = bindE (thread_step r Looking s) (\<lambda>x. bindE (go_on r x) (go_on r))"

section \<open>The main loop\<close>

record node =
  srv :: server
  packet :: request           \<comment> \<open>\<open>recent_packet\<close>\<close>
  threads :: "phase list"
  joining :: "nat option"     \<comment> \<open>the thread that the main loop waits for in \<open>pthread_join\<close>\<close>

definition main_start :: "server \<Rightarrow> request \<Rightarrow> node" where
  \<comment> \<open>the globals and the buffer have any contents\<close>
  "main_start s r = \<lparr>srv = server_init s, packet = r, threads = [], joining = None\<rparr>"

definition receive :: "request \<Rightarrow> node \<Rightarrow> node" where
  "receive r n = n\<lparr>packet := r, threads := threads n @ [Looking],
     joining := (if opcode r \<noteq> 0 then Some (length (threads n)) else None)\<rparr>"

definition run_thread :: "nat \<Rightarrow> node \<Rightarrow> (event list \<times> node) result" where
  "run_thread i n = bindE (thread_step (packet n) (threads n ! i) (srv n)) (\<lambda>(ph, es, s).
     Inr (es, n\<lparr>srv := s, threads := (threads n)[i := ph],
       joining := (if joining n = Some i \<and> ph = Ended then None else joining n)\<rparr>))"

section \<open>The client\<close>

record rpc_connection =
  c_seq :: u32
  c_id :: u32

definition RPC_init :: "u32 \<Rightarrow> rpc_connection" where
  \<comment> \<open>the result of \<open>rand()\<close> is the client's id\<close>
  "RPC_init rnd = \<lparr>c_seq = 0, c_id = rnd\<rparr>"

datatype outcome = Returned u32 | Died | Waiting

text \<open>One attempt of a call: whether the packet and whether the reply gets lost on the way, and whether the
  threads that are asleep on the server wake up before it. The world of a call is the server and the
  entries whose threads are asleep.\<close>

record attempt =
  lost :: bool
  reply_lost :: bool
  woken :: bool

type_synonym world = "server \<times> nat list"

definition replied :: "event list \<Rightarrow> feedback option" where
  "replied es = (case concat (map (\<lambda>e. case e of Sent f \<Rightarrow> [f] | Ran r \<Rightarrow> []) es) of [] \<Rightarrow> None | f # _ \<Rightarrow> Some f)"

definition exchange :: "request \<Rightarrow> attempt \<Rightarrow> world \<Rightarrow> (feedback option \<times> event list \<times> world) result" where
  "exchange r a = (\<lambda>(s, sleeping).
     let (s1, sleeping1) = (if woken a then (fold idle_done sleeping s, []) else (s, sleeping)) in
     if lost a then Inr (None, [], (s1, sleeping1))
     else bindE (serve r s1) (\<lambda>(ph, es, s2).
       Inr (if reply_lost a then None else replied es, es,
         (s2, case ph of Asleep i \<Rightarrow> sleeping1 @ [i] | _ \<Rightarrow> sleeping1))))"

text \<open>The loop of \<open>send_req_with_retry\<close> over the attempts; the list ends where the observation does.\<close>

fun send_loop :: "nat \<Rightarrow> rpc_connection \<Rightarrow> request \<Rightarrow> attempt list \<Rightarrow> world \<Rightarrow>
    (outcome \<times> rpc_connection \<times> event list \<times> world) result" where
  "send_loop retry c r [] w = Inr (if retry = 5 then Died else Waiting, c, [], w)"
| "send_loop retry c r (a # as) w =
     (if retry = 5 then Inr (Died, c, [], w)
      else bindE (exchange r a w) (\<lambda>(f, es, w1).
        bindE (case f of
            None \<Rightarrow> send_loop (retry + 1) c r as w1
          | Some fb \<Rightarrow>
              if c_id c = f_client fb \<and> c_seq c = f_seq fb then
                if ack fb \<noteq> 0 then send_loop 0 c r as w1
                else Inr (Returned (return_val fb), c\<lparr>c_seq := c_seq c + 1\<rparr>, [], w1)
              else send_loop (retry + 1) c r as w1)
          (\<lambda>(out, c1, es1, w2). Inr (out, c1, es @ es1, w2))))"

declare send_loop.simps [simp del]

definition send_req_with_retry :: "rpc_connection \<Rightarrow> request \<Rightarrow> attempt list \<Rightarrow> world \<Rightarrow>
    (outcome \<times> rpc_connection \<times> event list \<times> world) result" where
  "send_req_with_retry c r as w = send_loop 0 c r as w"

definition idle_req :: "rpc_connection \<Rightarrow> u32 \<Rightarrow> request" where
  "idle_req c t = \<lparr>opcode = 0, r_client = c_id c, r_seq = c_seq c, r_time = t, r_key = - 1, r_value = - 1\<rparr>"

definition get_req :: "rpc_connection \<Rightarrow> u32 \<Rightarrow> request" where
  "get_req c k = \<lparr>opcode = 1, r_client = c_id c, r_seq = c_seq c, r_time = - 1, r_key = k, r_value = - 1\<rparr>"

definition put_req :: "rpc_connection \<Rightarrow> u32 \<Rightarrow> u32 \<Rightarrow> request" where
  "put_req c k v = \<lparr>opcode = 2, r_client = c_id c, r_seq = c_seq c, r_time = - 1, r_key = k, r_value = v\<rparr>"

definition RPC_idle :: "rpc_connection \<Rightarrow> u32 \<Rightarrow> attempt list \<Rightarrow> world \<Rightarrow>
    (outcome \<times> rpc_connection \<times> event list \<times> world) result" where
  \<comment> \<open>the value returned is dropped\<close>
  "RPC_idle c t as w = send_req_with_retry c (idle_req c t) as w"

definition RPC_get :: "rpc_connection \<Rightarrow> u32 \<Rightarrow> attempt list \<Rightarrow> world \<Rightarrow>
    (outcome \<times> rpc_connection \<times> event list \<times> world) result" where
  "RPC_get c k as w = send_req_with_retry c (get_req c k) as w"

definition RPC_put :: "rpc_connection \<Rightarrow> u32 \<Rightarrow> u32 \<Rightarrow> attempt list \<Rightarrow> world \<Rightarrow>
    (outcome \<times> rpc_connection \<times> event list \<times> world) result" where
  "RPC_put c k v as w = send_req_with_retry c (put_req c k v) as w"

end
