(* ===== verification/Rpc_Spec.thy ===== *)
theory Rpc_Spec
  imports Rpc
begin

text \<open>
  What the remote procedure calls of \<open>P8_Distributed_Systems\<close> promise over a network that loses packets: the
  server calls its services at most once for a request, if the threads of \<open>idle\<close> requests are asleep before
  the next packet comes; and a call of the client that returns was executed exactly once.
\<close>

section \<open>Runs of the server\<close>

text \<open>All runs of the server on any sequence of packets and with any interleaving of its threads, with the
  events that happened. In a \<open>prompt\<close> run a packet is received only when every thread has ended or is asleep
  in \<open>idle\<close>. The main loop waits for the threads of other requests anyway.\<close>

inductive node_run :: "bool \<Rightarrow> node \<Rightarrow> event list \<Rightarrow> bool" for prompt where
  start: "node_run prompt (main_start s r) []"
| receive: "node_run prompt n log \<Longrightarrow> joining n = None \<Longrightarrow> (prompt \<longrightarrow> (\<forall>ph \<in> set (threads n). settled ph)) \<Longrightarrow>
    node_run prompt (receive r n) log"
| step: "node_run prompt n log \<Longrightarrow> i < length (threads n) \<Longrightarrow> run_thread i n = Inr (es, n') \<Longrightarrow>
    node_run prompt n' (log @ es)"

text \<open>The requests for which a service was called, and the numbers of those of one client.\<close>

definition calls :: "event list \<Rightarrow> request list" where
  "calls es = concat (map (\<lambda>e. case e of Ran r \<Rightarrow> [r] | Sent f \<Rightarrow> []) es)"

definition seqs :: "u32 \<Rightarrow> event list \<Rightarrow> int list" where
  "seqs c es = map (sint \<circ> r_seq) (filter (\<lambda>r. r_client r = c) (calls es))"

lemma calls_simps [simp]:
  "calls [] = []" "calls (Ran r # es) = r # calls es" "calls (Sent f # es) = calls es"
  "calls (es @ es') = calls es @ calls es'"
  by (simp_all add: calls_def)

lemma seqs_simps [simp]: "seqs c [] = []" "seqs c (es @ es') = seqs c es @ seqs c es'"
    "seqs c (Ran r # es) = (if r_client r = c then sint (r_seq r) # seqs c es else seqs c es)"
    "seqs c (Sent f # es) = seqs c es"
  by (simp_all add: seqs_def)

section \<open>The table of the clients\<close>

lemma find_entry_Some:
  "find_entry c s = Some i \<Longrightarrow> i < NCLIENTS \<and> (client_id (table s i) = - 1 \<or> client_id (table s i) = c) \<and>
    (\<forall>j < i. client_id (table s j) \<noteq> - 1 \<and> client_id (table s j) \<noteq> c)"
  by (auto simp: find_entry_def find_Some_iff)

lemma find_entry_SomeI:
  "i < NCLIENTS \<Longrightarrow> client_id (table s i) = - 1 \<or> client_id (table s i) = c \<Longrightarrow>
    (\<And>j. j < i \<Longrightarrow> client_id (table s j) \<noteq> - 1 \<and> client_id (table s j) \<noteq> c) \<Longrightarrow> find_entry c s = Some i"
  unfolding find_entry_def find_Some_iff by (intro exI [of _ i]) simp

lemma find_entry_cong:
  "(\<And>j. client_id (table s' j) = client_id (table s j)) \<Longrightarrow> find_entry c s' = find_entry c s"
  by (simp add: find_entry_def)

lemma find_entry_None:
  "find_entry c s = None \<longleftrightarrow> (\<forall>i < NCLIENTS. client_id (table s i) \<noteq> - 1 \<and> client_id (table s i) \<noteq> c)"
  by (auto simp: find_entry_def find_None_iff)

lemma upd_entry_simps [simp]:
  "table (upd_entry i f s) = (table s)(i := f (table s i))" "datastore (upd_entry i f s) = datastore s"
  by (simp_all add: upd_entry_def)

lemma upd_entry_same: "f (table s i) = table s i \<Longrightarrow> upd_entry i f s = s"
  by (simp add: upd_entry_def)

lemma sint_eq: "sint a = sint b \<longleftrightarrow> a = (b :: u32)"
  by (auto intro: signed_word_eqI)

text \<open>Client \<open>c\<close> owns entry \<open>k\<close>.\<close>

definition owns :: "u32 \<Rightarrow> nat \<Rightarrow> server \<Rightarrow> bool" where
  "owns c k s \<longleftrightarrow> find_entry c s = Some k \<and> client_id (table s k) = c"

lemma owns_cong: "(\<And>j. client_id (table s' j) = client_id (table s j)) \<Longrightarrow> owns c k s' = owns c k s"
  using find_entry_cong [of s' s c] by (simp add: owns_def)

lemma owns_found: "owns c k s \<Longrightarrow> find_entry c s = Some i \<longleftrightarrow> i = k"
  by (auto simp: owns_def)

text \<open>Giving the entry found for a client to the client keeps what the others own.\<close>

lemma owns_upd:
  assumes "find_entry d s = Some i" and "client_id e = d" and "table s' = (table s)(i := e)"
  shows "owns d i s'" and "owns c k s \<Longrightarrow> c \<noteq> - 1 \<Longrightarrow> owns c k s'"
proof -
  note i = find_entry_Some [OF assms(1)]
  show "owns d i s'" unfolding owns_def
    by (intro conjI find_entry_SomeI) (use i assms(2,3) in auto)
  assume o: "owns c k s" and c: "c \<noteq> - 1"
  then have k: "k < NCLIENTS" "client_id (table s k) = c"
    "\<forall>j < k. client_id (table s j) \<noteq> - 1 \<and> client_id (table s j) \<noteq> c"
    using find_entry_Some [of c s k] by (auto simp: owns_def)
  show "owns c k s'" unfolding owns_def
    by (intro conjI find_entry_SomeI) (use i k c assms(2,3) in auto)
qed

section \<open>At most once\<close>

text \<open>The numbers of the calls made for a client increase and are at most the number in its entry.\<close>

definition logged :: "server \<Rightarrow> event list \<Rightarrow> bool" where
  "logged s log \<longleftrightarrow> (\<forall>c. c \<noteq> - 1 \<longrightarrow> sorted_wrt (<) (seqs c log) \<and>
     (\<forall>n \<in> set (seqs c log). \<exists>k. owns c k s \<and> n \<le> sint (seq_num (table s k))))"

text \<open>What a thread that is not asleep yet knows of the table.\<close>

fun knows :: "request \<Rightarrow> server \<Rightarrow> event list \<Rightarrow> phase \<Rightarrow> bool" where
  "knows r s log (Deciding fc fs i t) \<longleftrightarrow> owns (r_client r) i s \<and> t = seq_num (table s i)"
| "knows r s log (Calling i) \<longleftrightarrow> owns (r_client r) i s \<and> seq_num (table s i) = r_seq r \<and>
     (r_client r \<noteq> - 1 \<longrightarrow> (\<forall>n \<in> set (seqs (r_client r) log). n < sint (r_seq r)))"
| "knows r s log _ \<longleftrightarrow> True"

definition wf_node :: "node \<Rightarrow> event list \<Rightarrow> bool" where
  "wf_node n log \<longleftrightarrow> logged (srv n) log \<and> (\<forall>ph \<in> set (threads n). knows (packet n) (srv n) log ph) \<and>
     (\<forall>i < length (threads n). \<forall>j < length (threads n). \<not> settled (threads n ! i) \<longrightarrow>
        \<not> settled (threads n ! j) \<longrightarrow> i = j)"

lemma logged_same:
  assumes "logged s log" and "\<And>j. client_id (table s' j) = client_id (table s j)"
    and "\<And>j. seq_num (table s' j) = seq_num (table s j)"
  shows "logged s' log"
  using assms(1) owns_cong [of s' s] assms(2,3) by (simp add: logged_def)

lemma logged_upd:
  assumes "logged s log" and "find_entry d s = Some i" and "client_id e = d" and "table s' = (table s)(i := e)"
    and "sint (seq_num (table s i)) \<le> sint (seq_num e)"
  shows "logged s' log"
  unfolding logged_def
proof (intro allI impI conjI ballI)
  fix c :: u32 and n
  assume c: "c \<noteq> - 1"
  then show "sorted_wrt (<) (seqs c log)" using assms(1) by (simp add: logged_def)
  assume "n \<in> set (seqs c log)"
  then obtain k where k: "owns c k s" "n \<le> sint (seq_num (table s k))"
    using assms(1) c by (auto simp: logged_def)
  show "\<exists>k. owns c k s' \<and> n \<le> sint (seq_num (table s' k))"
    using owns_upd(2) [OF assms(2-4) k(1) c] k(2) assms(4,5) by (intro exI [of _ k]) auto
qed

lemma logged_below:
  "logged s log \<Longrightarrow> owns c k s \<Longrightarrow> c \<noteq> - 1 \<Longrightarrow> n \<in> set (seqs c log) \<Longrightarrow> n \<le> sint (seq_num (table s k))"
  unfolding logged_def owns_def by fastforce

lemma logged_Sent [simp]: "logged s (log @ [Sent f]) = logged s log"
  by (simp add: logged_def)

text \<open>One piece of a thread, with the request in the buffer.\<close>

lemma thread_step_ok:
  assumes "thread_step r ph s = Inr (ph', es, s')" and "logged s log" and "knows r s log ph"
  shows "logged s' (log @ es) \<and> knows r s' (log @ es) ph' \<and> (settled ph \<longrightarrow> settled ph')"
proof (cases ph)
  case Looking
  obtain i where i: "find_entry (r_client r) s = Some i" "ph' = Deciding (r_client r) (r_seq r) i (seq_num (table s i))"
    "es = []" "s' = upd_entry i (\<lambda>e. e\<lparr>client_id := r_client r\<rparr>) s"
    using assms(1) Looking by (auto simp: look_up_def Let_def split: option.splits)
  have t: "table s' = (table s)(i := (table s i)\<lparr>client_id := r_client r\<rparr>)" by (simp add: i)
  show ?thesis using logged_upd [OF assms(2) i(1) _ t] owns_upd(1) [OF i(1) _ t] i t Looking
    by (simp add: settled_def)
next
  case (Deciding fc fs i tmp)
  have o: "owns (r_client r) i s" "tmp = seq_num (table s i)" using assms(3) Deciding by simp_all
  show ?thesis
  proof (cases "sint (r_seq r) \<le> sint tmp")
    case True
    then show ?thesis using assms Deciding by (auto simp: decide_def settled_def sint_eq split: if_splits)
  next
    case False
    then have ne: "tmp \<noteq> r_seq r" by auto
    have e: "ph' = Calling i" "es = []" "s' = upd_entry i (\<lambda>e. e\<lparr>finished := False, seq_num := r_seq r\<rparr>) s"
      using assms(1) Deciding False ne by (auto simp: decide_def)
    have t: "table s' = (table s)(i := (table s i)\<lparr>finished := False, seq_num := r_seq r\<rparr>)" by (simp add: e)
    have f: "find_entry (r_client r) s = Some i" "client_id (table s i) = r_client r" using o by (simp_all add: owns_def)
    have "logged s' log" by (rule logged_upd [OF assms(2) f(1) _ t]) (use f(2) o(2) False in simp_all)
    moreover have "owns (r_client r) i s'" by (rule owns_upd(1) [OF f(1) _ t]) (simp add: f(2))
    moreover have "n < sint (r_seq r)" if "r_client r \<noteq> - 1" "n \<in> set (seqs (r_client r) log)" for n
      using logged_below [OF assms(2) o(1) that] o(2) False by simp
    ultimately show ?thesis using e Deciding by (auto simp: settled_def)
  qed
next
  case (Calling i)
  have o: "owns (r_client r) i s" "seq_num (table s i) = r_seq r"
    "r_client r \<noteq> - 1 \<longrightarrow> (\<forall>n \<in> set (seqs (r_client r) log). n < sint (r_seq r))" using assms(3) Calling by simp_all
  have e: "es = [Ran r]" "settled ph'" "knows r s' (log @ es) ph'"
    "\<And>j. client_id (table s' j) = client_id (table s j)" "\<And>j. seq_num (table s' j) = seq_num (table s j)"
    using assms(1) Calling
    by (auto simp: execute_def get_def put_def settled_def bindE_Inr_iff split: if_splits prod.splits)
  note l = logged_same [OF assms(2) e(4,5)]
  have oc: "owns c k s' = owns c k s" for c k by (rule owns_cong) (rule e(4))
  have "logged s' (log @ [Ran r])"
    unfolding logged_def
  proof (intro allI impI conjI ballI)
    fix c :: u32 and n
    assume c: "c \<noteq> - 1"
    show "sorted_wrt (<) (seqs c (log @ [Ran r]))"
      using l c o(3) by (auto simp: logged_def sorted_wrt_append)
    assume "n \<in> set (seqs c (log @ [Ran r]))"
    then consider "n \<in> set (seqs c log)" | "c = r_client r" "n = sint (r_seq r)" by (auto split: if_splits)
    then show "\<exists>k. owns c k s' \<and> n \<le> sint (seq_num (table s' k))"
    proof cases
      case 1
      then show ?thesis using l c by (simp add: logged_def)
    next
      case 2
      then show ?thesis using o(1,2) by (intro exI [of _ i]) (simp add: oc e(5))
    qed
  qed
  then show ?thesis using e by simp
next
  case (Asleep i)
  then have "es = []" "ph' = Ended" "\<And>j. client_id (table s' j) = client_id (table s j)"
    "\<And>j. seq_num (table s' j) = seq_num (table s j)"
    using assms(1) by (auto simp: idle_done_def)
  then show ?thesis using logged_same [OF assms(2)] by (simp add: settled_def)
next
  case Ended
  then show ?thesis using assms by simp
qed

text \<open>A thread that wakes up or has ended does not disturb what another one knows.\<close>

lemma settled_step:
  assumes "thread_step r ph s = Inr (ph', es, s')" and "settled ph"
  shows "es = []" and "knows r' s' log q = knows r' s log q"
proof -
  have e: "es = []" "\<And>j. client_id (table s' j) = client_id (table s j)" "\<And>j. seq_num (table s' j) = seq_num (table s j)"
    using assms by (cases ph; auto simp: settled_def idle_done_def)+
  then show "es = []" by simp
  have "owns c k s' = owns c k s" for c k by (rule owns_cong) (rule e(2))
  then show "knows r' s' log q = knows r' s log q" by (cases q) (simp_all add: e(3))
qed

lemma settled_knows: "settled ph \<Longrightarrow> knows r s log ph"
  by (cases ph) (simp_all add: settled_def)

lemma wf_node_step:
  assumes w: "wf_node n log" and i: "i < length (threads n)" and st: "run_thread i n = Inr (es, n')"
  shows "wf_node n' (log @ es)"
proof -
  let ?ph = "threads n ! i"
  obtain ph' s' where t: "thread_step (packet n) ?ph (srv n) = Inr (ph', es, s')"
    and n': "srv n' = s'" "threads n' = (threads n)[i := ph']" "packet n' = packet n"
    using st by (auto simp: run_thread_def bindE_Inr_iff)
  have k: "knows (packet n) (srv n) log q" if "q \<in> set (threads n)" for q using w that by (simp add: wf_node_def)
  note ok = thread_step_ok [OF t _ k [OF nth_mem [OF i]]]
  have l: "logged (srv n) log" using w by (simp add: wf_node_def)
  have others: "knows (packet n) s' (log @ es) (threads n ! j)" if "j < length (threads n)" "j \<noteq> i" for j
  proof (cases "settled ?ph")
    case True
    from settled_step [OF t True] show ?thesis using k [OF nth_mem [OF that(1)]] by simp
  next
    case False
    then have "settled (threads n ! j)" using w i that by (auto simp: wf_node_def)
    then show ?thesis by (rule settled_knows)
  qed
  have "knows (packet n) s' (log @ es) q" if "q \<in> set (threads n')" for q
    using that ok [OF l] others i by (auto simp: n' in_set_conv_nth nth_list_update split: if_splits)
  moreover have "\<forall>a < length (threads n'). \<forall>b < length (threads n'). \<not> settled (threads n' ! a) \<longrightarrow>
      \<not> settled (threads n' ! b) \<longrightarrow> a = b"
    using w ok [OF l] i by (auto simp: n' wf_node_def nth_list_update)
  ultimately show ?thesis using ok [OF l] by (simp add: wf_node_def n')
qed

lemma node_run_wf: "node_run True n log \<Longrightarrow> wf_node n log"
proof (induction rule: node_run.induct)
  case (start s r)
  then show ?case by (simp add: wf_node_def main_start_def logged_def)
next
  case (receive n log r)
  then have all: "\<And>i. i < length (threads n) \<Longrightarrow> settled (threads n ! i)" by simp
  show ?case unfolding wf_node_def
  proof (intro conjI ballI allI impI)
    show "logged (srv (Rpc.receive r n)) log" using receive.IH by (simp add: wf_node_def Rpc.receive_def)
  next
    fix ph assume "ph \<in> set (threads (Rpc.receive r n))"
    then show "knows (packet (Rpc.receive r n)) (srv (Rpc.receive r n)) log ph"
      using receive.hyps(3) by (auto simp: Rpc.receive_def intro: settled_knows)
  next
    fix i j
    assume "i < length (threads (Rpc.receive r n))" "j < length (threads (Rpc.receive r n))"
      "\<not> settled (threads (Rpc.receive r n) ! i)" "\<not> settled (threads (Rpc.receive r n) ! j)"
    then show "i = j" using all by (auto simp: Rpc.receive_def nth_append less_Suc_eq split: if_splits)
  qed
next
  case (step n log i es n')
  then show ?case using wf_node_step by blast
qed

text \<open>C24: whatever packets arrive, duplicated, late or reordered, and however the threads that are asleep in
  \<open>idle\<close> come in between: if every such thread has reached its sleep before the next packet is received, the
  server calls its services for a client with strictly increasing sequence numbers, so never twice for
  one request.\<close>

theorem at_most_once:
  assumes "node_run True n log" and "c \<noteq> - 1"
  shows "sorted_wrt (<) (map (sint \<circ> r_seq) (filter (\<lambda>r. r_client r = c) (calls log)))"
  using node_run_wf [OF assms(1)] assms(2) by (simp add: wf_node_def logged_def seqs_def)

text \<open>The assumption is needed: the thread of an \<open>idle\<close> request that is slow to start finds the next request
  in the buffer, and two threads that look up its entry before either stores the number both call the service.\<close>

definition new_server :: server where
  "new_server = server_init \<lparr>table = (\<lambda>_. \<lparr>client_id = 0, seq_num = 0, finished = False, res = 0\<rparr>), datastore = (\<lambda>_. 0)\<rparr>"

lemma init_new: "server_init new_server = new_server"
  by (simp add: new_server_def server_init_def cong: if_cong)

lemma find_entry_new: "find_entry c new_server = Some 0"
  by (rule find_entry_SomeI) (simp_all add: new_server_def server_init_def NCLIENTS_def)

lemma entry_new: "table new_server 0 = \<lparr>client_id = - 1, seq_num = - 1, finished = False, res = - 1\<rparr>"
  by (simp add: new_server_def server_init_def NCLIENTS_def)

lemma find_entry_first: "client_id (table s 0) = c \<Longrightarrow> find_entry c s = Some 0"
  by (rule find_entry_SomeI) (simp_all add: NCLIENTS_def)

lemma run_thread_eq:
  "thread_step (packet n) (threads n ! i) (srv n) = Inr (ph, es, s) \<Longrightarrow>
    run_thread i n = Inr (es, n\<lparr>srv := s, threads := (threads n)[i := ph],
      joining := (if joining n = Some i \<and> ph = Ended then None else joining n)\<rparr>)"
  by (simp add: run_thread_def)

lemma idle_race_calls_twice:
  defines "A \<equiv> idle_req \<lparr>c_seq = 0, c_id = 7\<rparr> 3" and "B \<equiv> put_req \<lparr>c_seq = 0, c_id = 8\<rparr> 1 42"
  shows "\<exists>n log. node_run False n log \<and> calls log = [B, B]"
proof -
  define e where "e = \<lparr>client_id = 8 :: u32, seq_num = - 1, finished = False, res = - 1\<rparr>"
  define s1 where "s1 = upd_entry 0 (\<lambda>_. e) new_server"
  define s2 where "s2 = upd_entry 0 (\<lambda>_. e\<lparr>seq_num := 0\<rparr>) new_server"
  define s3 where "s3 = upd_entry 0 (\<lambda>_. e\<lparr>seq_num := 0, finished := True, res := 0\<rparr>)
    (new_server\<lparr>datastore := (datastore new_server)(1 := 42)\<rparr>)"
  define N where "N s ts = \<lparr>srv = s, packet = B, threads = ts, joining = Some 1\<rparr>" for s ts
  define w where "w = Deciding 8 0 0 (- 1)"
  have B: "r_client B = 8" "r_seq B = 0" "opcode B = 2" "r_key B = 1" "r_value B = 42" "opcode A = 0"
    by (simp_all add: A_def B_def put_req_def idle_req_def)
  have l: "look_up B new_server = Inr (w, [], s1)" "look_up B s1 = Inr (w, [], s1)"
    using find_entry_first [of s1 8]
    by (simp_all add: look_up_def B find_entry_new upd_entry_def entry_new s1_def w_def e_def Let_def)
  have d: "decide B 8 0 0 (- 1) s1 = Inr (Calling 0, [], s2)" "decide B 8 0 0 (- 1) s2 = Inr (Calling 0, [], s2)"
    by (simp_all add: decide_def B s1_def s2_def upd_entry_def e_def)
  have x: "execute B 0 s2 = Inr (Ended, [Ran B], s3)" "execute B 0 s3 = Inr (Ended, [Ran B], s3)"
    by (simp_all add: execute_def B put_def NUMKEYS_def s2_def s3_def upd_entry_def e_def)
  have "node_run False (main_start new_server A) []" by (rule node_run.start)
  from node_run.receive [OF node_run.receive [OF this, of A], of B]
  have "node_run False (N new_server [Looking, Looking]) []"
    by (simp add: N_def main_start_def Rpc.receive_def B init_new)
  from node_run.step [OF this, of 0 "[]" "N s1 [w, Looking]"] have "node_run False (N s1 [w, Looking]) []"
    by (simp add: run_thread_eq N_def l)
  from node_run.step [OF this, of 1 "[]" "N s1 [w, w]"] have "node_run False (N s1 [w, w]) []"
    by (simp add: run_thread_eq N_def l w_def)
  from node_run.step [OF this, of 0 "[]" "N s2 [Calling 0, w]"] have "node_run False (N s2 [Calling 0, w]) []"
    by (simp add: run_thread_eq N_def d w_def)
  from node_run.step [OF this, of 1 "[]" "N s2 [Calling 0, Calling 0]"]
  have "node_run False (N s2 [Calling 0, Calling 0]) []" by (simp add: run_thread_eq N_def d w_def)
  from node_run.step [OF this, of 0 "[Ran B]" "N s3 [Ended, Calling 0]"]
  have r: "node_run False (N s3 [Ended, Calling 0]) [Ran B]" by (simp add: run_thread_eq N_def x)
  obtain n where "run_thread 1 (N s3 [Ended, Calling 0]) = Inr ([Ran B], n)"
    by (simp add: run_thread_def N_def x)
  from node_run.step [OF r _ this] have "node_run False n [Ran B, Ran B]" by (simp add: N_def)
  then show ?thesis by force
qed

section \<open>A thread that runs alone\<close>

lemma serve_found:
  assumes "find_entry (r_client r) s = Some i"
  shows "serve r s = (let s1 = upd_entry i (\<lambda>e. e\<lparr>client_id := r_client r\<rparr>) s; e = table s1 i in
     if sint (seq_num e) > sint (r_seq r) then Inr (Ended, [], s1)
     else if seq_num e = r_seq r then
       Inr (Ended, [Sent (if finished e
              then \<lparr>f_client = r_client r, f_seq = r_seq r, ack = 0, return_val = res e\<rparr>
              else \<lparr>f_client = r_client r, f_seq = r_seq r, ack = 1, return_val = - 1\<rparr>)], s1)
     else execute r i (upd_entry i (\<lambda>e. e\<lparr>finished := False, seq_num := r_seq r\<rparr>) s1))"
  using assms
  by (auto simp: serve_def go_on_def look_up_def decide_def execute_def settled_def Let_def bindE_assoc
      split: prod.splits intro!: bindE_cong)

lemma serve_ends: "serve r s = Inr (ph, es, s') \<Longrightarrow> ph = Ended \<or> opcode r = 0 \<and> (\<exists>i. ph = Asleep i)"
proof (cases "find_entry (r_client r) s")
  case None
  moreover assume "serve r s = Inr (ph, es, s')"
  ultimately show ?thesis by (simp add: serve_def look_up_def)
next
  case (Some i)
  moreover assume "serve r s = Inr (ph, es, s')"
  ultimately show ?thesis
    by (auto simp: serve_found [OF Some] Let_def execute_def bindE_Inr_iff split: if_splits prod.splits)
qed

text \<open>The threaded server does what \<open>serve\<close> says when it is left alone with a packet.\<close>

lemma run_last:
  assumes "node_run p n log" and "threads n = ts @ [ph]" and "thread_step (packet n) ph (srv n) = Inr (ph', es, s')"
    and "joining n = None \<or> joining n = Some (length ts)"
  shows "\<exists>n'. node_run p n' (log @ es) \<and> srv n' = s' \<and> threads n' = ts @ [ph'] \<and> packet n' = packet n \<and>
    joining n' = (if ph' = Ended then None else joining n)"
proof -
  have "run_thread (length ts) n = Inr (es, n\<lparr>srv := s', threads := ts @ [ph'],
      joining := (if joining n = Some (length ts) \<and> ph' = Ended then None else joining n)\<rparr>)"
    using assms(2,3) by (simp add: run_thread_def)
  from node_run.step [OF assms(1) _ this] show ?thesis using assms(2,4) by force
qed

lemma run_go_on:
  assumes "node_run p n log" and "threads n = ts @ [ph]" and "go_on (packet n) (ph, es, srv n) = Inr (ph', es', s')"
    and "joining n = None \<or> joining n = Some (length ts)" and "ph = Ended \<longrightarrow> joining n = None"
  shows "\<exists>n' es1. es' = es @ es1 \<and> node_run p n' (log @ es1) \<and> srv n' = s' \<and> threads n' = ts @ [ph'] \<and>
    packet n' = packet n \<and> joining n' = (if ph' = Ended then None else joining n)"
proof (cases "settled ph")
  case True
  then show ?thesis using assms by (intro exI [of _ n] exI [of _ "[]"]) (auto simp: go_on_def)
next
  case False
  then obtain es1 where "thread_step (packet n) ph (srv n) = Inr (ph', es1, s')" "es' = es @ es1"
    using assms(3) by (auto simp: go_on_def bindE_Inr_iff)
  then show ?thesis using run_last [OF assms(1,2) _ assms(4)] by blast
qed

lemma serve_in_run:
  assumes "node_run p n log" and "joining n = None" and "\<forall>ph \<in> set (threads n). settled ph"
    and "serve r (srv n) = Inr (ph, es, s')"
  shows "\<exists>n'. node_run p n' (log @ es) \<and> srv n' = s' \<and> threads n' = threads n @ [ph] \<and> joining n' = None"
proof -
  obtain p1 e1 s1 p2 e2 s2 where st: "thread_step r Looking (srv n) = Inr (p1, e1, s1)"
    "go_on r (p1, e1, s1) = Inr (p2, e2, s2)" "go_on r (p2, e2, s2) = Inr (ph, es, s')"
    using assms(4) by (auto simp: serve_def bindE_Inr_iff)
  define J where "J = (if opcode r \<noteq> 0 then Some (length (threads n)) else None)"
  have e1: "e1 = []" using st(1) by (auto simp: look_up_def Let_def split: option.splits)
  have r0: "node_run p (Rpc.receive r n) log" using assms(1-3) by (intro node_run.receive) auto
  have "\<exists>n1. node_run p n1 (log @ e1) \<and> srv n1 = s1 \<and> threads n1 = threads n @ [p1] \<and> packet n1 = r \<and>
      joining n1 = (if p1 = Ended then None else J)"
    using run_last [OF r0, of "threads n" Looking p1 e1 s1] st(1) by (auto simp: Rpc.receive_def J_def)
  then obtain n1 where n1: "node_run p n1 log" "srv n1 = s1" "threads n1 = threads n @ [p1]" "packet n1 = r"
      "joining n1 = (if p1 = Ended then None else J)" using e1 by auto
  have "go_on (packet n1) (p1, e1, srv n1) = Inr (p2, e2, s2)" using st(2) n1 by simp
  moreover have "joining n1 = None \<or> joining n1 = Some (length (threads n))" using n1(5) by (simp add: J_def)
  ultimately obtain n2 where n2: "node_run p n2 (log @ e2)" "srv n2 = s2"
      "threads n2 = threads n @ [p2]" "packet n2 = r" "joining n2 = (if p2 = Ended then None else joining n1)"
    using run_go_on [OF n1(1,3), of e1 p2 e2 s2] n1 e1 by auto
  have "go_on (packet n2) (p2, e2, srv n2) = Inr (ph, es, s')" using st(3) n2 by simp
  moreover have "joining n2 = None \<or> joining n2 = Some (length (threads n))" using n2(5) n1(5) by (simp add: J_def)
  ultimately obtain n3 where "node_run p n3 (log @ es)" "srv n3 = s'"
      "threads n3 = threads n @ [ph]" "joining n3 = (if ph = Ended then None else joining n2)"
    using run_go_on [OF n2(1,3), of e2 ph es s'] n2 by auto
  moreover have "ph = Ended \<or> J = None" using serve_ends [OF assms(4)] by (auto simp: J_def)
  ultimately show ?thesis using n2(5) n1(5) by (auto split: if_splits)
qed

section \<open>Exactly once\<close>

text \<open>A packet makes the server execute its request when its sequence number is new to the client's
  entry of the table.\<close>

definition fresh :: "request \<Rightarrow> server \<Rightarrow> bool" where
  "fresh r s = (case find_entry (r_client r) s of None \<Rightarrow> False
     | Some i \<Rightarrow> sint (seq_num (table s i)) < sint (r_seq r))"

text \<open>What one execution of a request returns and makes of the data; an \<open>idle\<close> request leaves the result of the
  entry as it was.\<close>

definition effect :: "request \<Rightarrow> server \<Rightarrow> (u32 \<times> (nat \<Rightarrow> u32)) result" where
  "effect r s =
     (if opcode r = 0 then Inr (case find_entry (r_client r) s of Some i \<Rightarrow> res (table s i) | None \<Rightarrow> 0, datastore s)
      else if opcode r = 1 then bindE (get (r_key r) s) (\<lambda>v. Inr (v, datastore s))
      else bindE (put (r_key r) (r_value r) s) (\<lambda>(v, s'). Inr (v, datastore s')))"

text \<open>How far the server is with a request, and the world of the call at that stage.\<close>

datatype stage = Unseen | Running | Served

fun at_stage :: "request \<Rightarrow> server \<Rightarrow> u32 \<Rightarrow> (nat \<Rightarrow> u32) \<Rightarrow> stage \<Rightarrow> world \<Rightarrow> bool" where
  "at_stage r s0 v d Unseen (s, sleeping) \<longleftrightarrow> s = s0 \<and> sleeping = []"
| "at_stage r s0 v d Running (s, sleeping) \<longleftrightarrow> datastore s = d \<and> (\<exists>i. sleeping = [i] \<and> owns (r_client r) i s \<and>
     seq_num (table s i) = r_seq r \<and> \<not> finished (table s i) \<and> res (table s i) = v)"
| "at_stage r s0 v d Served (s, sleeping) \<longleftrightarrow> datastore s = d \<and> sleeping = [] \<and> (\<exists>i. owns (r_client r) i s \<and>
     seq_num (table s i) = r_seq r \<and> finished (table s i) \<and> res (table s i) = v)"

definition wake :: "stage \<Rightarrow> attempt \<Rightarrow> stage" where
  "wake st a = (if st = Running \<and> woken a then Served else st)"

definition next_stage :: "bool \<Rightarrow> stage \<Rightarrow> attempt \<Rightarrow> stage" where
  "next_stage idle st a = (if st = Unseen \<and> \<not> lost a then if idle then Running else Served else st)"

datatype answer = Silent | Ack | Result

definition answer_of :: "stage \<Rightarrow> attempt \<Rightarrow> answer" where
  "answer_of st a = (if lost a \<or> reply_lost a then Silent
     else case st of Unseen \<Rightarrow> Silent | Running \<Rightarrow> Ack | Served \<Rightarrow> Result)"

definition feedback_of :: "request \<Rightarrow> u32 \<Rightarrow> answer \<Rightarrow> feedback option" where
  "feedback_of r v x = (case x of Silent \<Rightarrow> None
     | Ack \<Rightarrow> Some \<lparr>f_client = r_client r, f_seq = r_seq r, ack = 1, return_val = - 1\<rparr>
     | Result \<Rightarrow> Some \<lparr>f_client = r_client r, f_seq = r_seq r, ack = 0, return_val = v\<rparr>)"

lemma serve_fresh:
  assumes "fresh r s" and "effect r s = Inr (v, d)"
  shows "\<exists>i s'. serve r s = Inr (if opcode r = 0 then Asleep i else Ended, [Ran r], s') \<and>
    at_stage r s v d (if opcode r = 0 then Running else Served) (s', if opcode r = 0 then [i] else [])"
proof -
  obtain i where fe: "find_entry (r_client r) s = Some i" and lt: "sint (seq_num (table s i)) < sint (r_seq r)"
    using assms(1) by (auto simp: fresh_def split: option.splits)
  define e where "e = \<lparr>client_id = r_client r, seq_num = r_seq r, finished = opcode r \<noteq> 0, res = v\<rparr>"
  obtain ti where ti: "table s i = ti" by simp
  define s' where "s' = s\<lparr>table := (table s)(i := e), datastore := d\<rparr>"
  have "seq_num ti \<noteq> r_seq r" "sint (seq_num ti) < sint (r_seq r)" using lt by (auto simp: ti)
  then have "serve r s = Inr (if opcode r = 0 then Asleep i else Ended, [Ran r], s')"
    using assms(2) by (cases ti) (auto simp: serve_found [OF fe] fe ti Let_def execute_def effect_def get_def put_def
        upd_entry_def e_def s'_def split: if_splits)
  moreover have "owns (r_client r) i s'" by (rule owns_upd(1) [OF fe]) (simp_all add: e_def s'_def)
  moreover have "table s' i = e" "datastore s' = d" by (simp_all add: s'_def)
  ultimately show ?thesis by (intro exI [of _ i] exI [of _ s'] conjI) (auto simp: e_def)
qed

lemma serve_known:
  assumes "owns (r_client r) i s" and "seq_num (table s i) = r_seq r"
  shows "serve r s = Inr (Ended, [Sent (if finished (table s i)
      then \<lparr>f_client = r_client r, f_seq = r_seq r, ack = 0, return_val = res (table s i)\<rparr>
      else \<lparr>f_client = r_client r, f_seq = r_seq r, ack = 1, return_val = - 1\<rparr>)], s)"
proof -
  have "upd_entry i (\<lambda>e. e\<lparr>client_id := r_client r\<rparr>) s = s"
    using assms(1) by (intro upd_entry_same) (auto simp: owns_def)
  then show ?thesis using assms by (simp add: serve_found owns_def Let_def)
qed

text \<open>One attempt of the client, at any stage.\<close>

lemma wake_ok:
  assumes "at_stage r s0 v d st (s, sleeping)" and "woken a"
  shows "at_stage r s0 v d (wake st a) (fold idle_done sleeping s, [])"
proof (cases st)
  case Running
  then obtain i where i: "datastore s = d" "sleeping = [i]" "owns (r_client r) i s" "seq_num (table s i) = r_seq r"
    "res (table s i) = v" using assms(1) by auto
  have "owns (r_client r) i (idle_done i s) = owns (r_client r) i s" by (rule owns_cong) (simp add: idle_done_def)
  then show ?thesis using i Running assms(2) by (auto simp: wake_def idle_done_def)
qed (use assms in \<open>simp_all add: wake_def\<close>)

lemma exchange_ok:
  assumes w: "at_stage r s0 v d st w" and fr: "fresh r s0" and ef: "effect r s0 = Inr (v, d)"
  shows "\<exists>es w'. exchange r a w = Inr (feedback_of r v (answer_of (wake st a) a), es, w') \<and>
    at_stage r s0 v d (next_stage (opcode r = 0) (wake st a) a) w' \<and>
    calls es = (if st = Unseen \<and> \<not> lost a then [r] else [])"
proof -
  obtain s sl where ws: "w = (s, sl)" by fastforce
  obtain s1 sl1 where s1: "(if woken a then (fold idle_done sl s, []) else (s, sl)) = (s1, sl1)" by fastforce
  have st1: "at_stage r s0 v d (wake st a) (s1, sl1)"
    using wake_ok [of r s0 v d st s sl a] w ws s1 by (cases "woken a") (auto simp: wake_def)
  have un: "wake st a = Unseen \<longleftrightarrow> st = Unseen" by (simp add: wake_def)
  have ex: "exchange r a w = (if lost a then Inr (None, [], (s1, sl1))
     else bindE (serve r s1) (\<lambda>(ph, es, s2).
       Inr (if reply_lost a then None else replied es, es, (s2, case ph of Asleep i \<Rightarrow> sl1 @ [i] | _ \<Rightarrow> sl1))))"
    unfolding exchange_def ws using s1 by (simp add: Let_def)
  show ?thesis
  proof (cases "lost a")
    case True
    then show ?thesis using ex st1 by (simp add: answer_of_def feedback_of_def next_stage_def)
  next
    case False
    show ?thesis
    proof (cases "wake st a")
      case Unseen
      then have "s1 = s0" "sl1 = []" using st1 by simp_all
      then obtain i s' where "serve r s1 = Inr (if opcode r = 0 then Asleep i else Ended, [Ran r], s')"
        "at_stage r s0 v d (if opcode r = 0 then Running else Served) (s', if opcode r = 0 then [i] else [])"
        using serve_fresh [OF fr ef] by blast
      then show ?thesis using ex False Unseen un \<open>sl1 = []\<close>
        by (cases "opcode r = 0") (simp_all add: answer_of_def feedback_of_def next_stage_def replied_def)
    next
      case Running
      then obtain i where i: "owns (r_client r) i s1" "seq_num (table s1 i) = r_seq r" "\<not> finished (table s1 i)"
        using st1 by auto
      then show ?thesis using ex False Running un st1 serve_known [OF i(1,2)]
        by (simp add: answer_of_def feedback_of_def next_stage_def replied_def)
    next
      case Served
      then obtain i where i: "owns (r_client r) i s1" "seq_num (table s1 i) = r_seq r" "finished (table s1 i)"
        "res (table s1 i) = v" using st1 by auto
      then show ?thesis using ex False Served un st1 serve_known [OF i(1,2)]
        by (simp add: answer_of_def feedback_of_def next_stage_def replied_def)
    qed
  qed
qed

text \<open>The client's loop over the answers alone.\<close>

fun answers :: "bool \<Rightarrow> stage \<Rightarrow> attempt list \<Rightarrow> answer list" where
  "answers idle st [] = []"
| "answers idle st (a # as) = answer_of (wake st a) a # answers idle (next_stage idle (wake st a) a) as"

fun patience :: "nat \<Rightarrow> u32 \<Rightarrow> answer list \<Rightarrow> outcome" where
  "patience n v [] = (if n = 5 then Died else Waiting)"
| "patience n v (x # xs) = (if n = 5 then Died
     else case x of Silent \<Rightarrow> patience (n + 1) v xs | Ack \<Rightarrow> patience 0 v xs | Result \<Rightarrow> Returned v)"

definition reached :: "nat \<Rightarrow> attempt list \<Rightarrow> bool" where
  \<comment> \<open>one of the attempts before the client gives up for the first time arrives\<close>
  "reached n as \<longleftrightarrow> (\<exists>a \<in> set (take (5 - n) as). \<not> lost a)"

lemma send_loop_ok:
  assumes fr: "fresh r s0" and ef: "effect r s0 = Inr (v, d)" and id: "r_client r = c_id c" "r_seq r = c_seq c"
  shows "at_stage r s0 v d st w \<Longrightarrow> n \<le> 5 \<Longrightarrow> \<exists>es w'.
    send_loop n c r as w = Inr (patience n v (answers (opcode r = 0) st as),
      if patience n v (answers (opcode r = 0) st as) = Returned v then c\<lparr>c_seq := c_seq c + 1\<rparr> else c, es, w') \<and>
    calls es = (if st = Unseen \<and> reached n as then [r] else []) \<and>
    datastore (fst w') = (if st = Unseen \<and> \<not> reached n as then datastore s0 else d)"
proof (induction as arbitrary: n st w)
  case Nil
  then show ?case by (cases w; cases st) (auto simp: send_loop.simps reached_def)
next
  case (Cons a as)
  show ?case
  proof (cases "n = 5")
    case True
    then show ?thesis using Cons.prems by (cases w; cases st) (auto simp: send_loop.simps reached_def)
  next
    case False
    then have n: "n < 5" using Cons.prems(2) by simp
    let ?st = "next_stage (opcode r = 0) (wake st a) a"
    obtain es w1 where x: "exchange r a w = Inr (feedback_of r v (answer_of (wake st a) a), es, w1)"
      "at_stage r s0 v d ?st w1" "calls es = (if st = Unseen \<and> \<not> lost a then [r] else [])"
      using exchange_ok [OF Cons.prems(1) fr ef] by blast
    have rc: "reached n (a # as) \<longleftrightarrow> \<not> lost a \<or> reached (n + 1) as"
      using n by (simp add: reached_def take_Cons')
    have sl: "?st = Unseen \<longleftrightarrow> st = Unseen \<and> lost a" by (auto simp: next_stage_def wake_def)
    note e = send_loop.simps(2) [of n c r a as w]
    show ?thesis
    proof (cases "answer_of (wake st a) a")
      case Silent
      obtain es' w' where "send_loop (n + 1) c r as w1 = Inr (patience (n + 1) v (answers (opcode r = 0) ?st as),
        if patience (n + 1) v (answers (opcode r = 0) ?st as) = Returned v then c\<lparr>c_seq := c_seq c + 1\<rparr> else c, es', w')"
        "calls es' = (if ?st = Unseen \<and> reached (n + 1) as then [r] else [])"
        "datastore (fst w') = (if ?st = Unseen \<and> \<not> reached (n + 1) as then datastore s0 else d)"
        using Cons.IH [OF x(2), of "n + 1"] n by auto
      then show ?thesis using e x(1,3) Silent False rc sl by (auto simp: feedback_of_def)
    next
      case Ack
      then have "\<not> lost a" "st \<noteq> Unseen" by (auto simp: answer_of_def wake_def split: if_splits)
      moreover obtain es' w' where "send_loop 0 c r as w1 = Inr (patience 0 v (answers (opcode r = 0) ?st as),
        if patience 0 v (answers (opcode r = 0) ?st as) = Returned v then c\<lparr>c_seq := c_seq c + 1\<rparr> else c, es', w')"
        "calls es' = (if ?st = Unseen \<and> reached 0 as then [r] else [])"
        "datastore (fst w') = (if ?st = Unseen \<and> \<not> reached 0 as then datastore s0 else d)"
        using Cons.IH [OF x(2), of 0] by auto
      ultimately show ?thesis using e x(1,3) Ack False sl id by (auto simp: feedback_of_def)
    next
      case Result
      then have s: "\<not> lost a" "st \<noteq> Unseen" "wake st a = Served"
        by (auto simp: answer_of_def wake_def split: if_splits stage.splits)
      then have "datastore (fst w1) = d" using x(2) by (cases w1) (simp add: next_stage_def)
      then show ?thesis using e x(1,3) Result False s id by (auto simp: feedback_of_def)
    qed
  qed
qed

text \<open>When the client gives up, seen from the list of all answers.\<close>

definition five_silent :: "(nat \<Rightarrow> bool) \<Rightarrow> nat \<Rightarrow> bool" where
  "five_silent silent k \<longleftrightarrow> 5 \<le> k \<and> (\<forall>j. k \<le> j + 5 \<and> j < k \<longrightarrow> silent j)"

definition verdict :: "u32 \<Rightarrow> answer list \<Rightarrow> outcome" where
  "verdict v xs = (if \<exists>k \<le> length xs. five_silent (\<lambda>j. xs ! j = Silent) k \<and> (\<forall>j < k. xs ! j \<noteq> Result) then Died
     else if \<exists>k < length xs. xs ! k = Result then Returned v else Waiting)"

lemma verdict_after_ack:
  assumes "length ys \<le> 4" and "Result \<notin> set ys"
  shows "verdict v (ys @ Ack # xs) = verdict v xs"
proof -
  let ?zs = "ys @ Ack # xs" and ?m = "Suc (length ys)"
  have z: "?zs ! (?m + j) = xs ! j" for j by (simp add: nth_append)
  have y: "j < ?m \<Longrightarrow> ?zs ! j \<noteq> Result" for j
    using assms(2) by (cases "j = length ys") (auto simp: nth_append in_set_conv_nth)
  have a: "?zs ! length ys = Ack" by simp
  have split: "P j \<longleftrightarrow> j < ?m \<and> P j \<or> (\<exists>i. j = ?m + i \<and> P (?m + i))" for P and j :: nat
    by (metis le_add_diff_inverse not_less)
  have five: "five_silent (\<lambda>j. ?zs ! j = Silent) k \<longleftrightarrow> (\<exists>i. k = ?m + i \<and> five_silent (\<lambda>j. xs ! j = Silent) i)" for k
  proof
    assume f: "five_silent (\<lambda>j. ?zs ! j = Silent) k"
    have "\<not> (k \<le> length ys + 5 \<and> length ys < k)" using f a unfolding five_silent_def by (metis answer.distinct(1))
    moreover have "5 \<le> k" using f by (simp add: five_silent_def)
    ultimately have k: "?m + 5 \<le> k" using assms(1) by linarith
    then obtain i where i: "k = ?m + i" by (metis add_leD1 le_add_diff_inverse)
    have "xs ! j = Silent" if "i \<le> j + 5" "j < i" for j
    proof -
      have "k \<le> (?m + j) + 5 \<and> ?m + j < k" using that i by simp
      then have "?zs ! (?m + j) = Silent" using f unfolding five_silent_def by blast
      then show ?thesis by (simp only: z)
    qed
    then have "five_silent (\<lambda>j. xs ! j = Silent) i" using k i by (simp add: five_silent_def)
    then show "\<exists>i. k = ?m + i \<and> five_silent (\<lambda>j. xs ! j = Silent) i" using i by blast
  next
    assume "\<exists>i. k = ?m + i \<and> five_silent (\<lambda>j. xs ! j = Silent) i"
    then obtain i where i: "k = ?m + i" "five_silent (\<lambda>j. xs ! j = Silent) i" by blast
    have "?zs ! j = Silent" if "k \<le> j + 5" "j < k" for j
    proof -
      have "?m \<le> j" using that(1) i by (simp add: five_silent_def)
      then obtain l where l: "j = ?m + l" by (metis le_add_diff_inverse)
      have "i \<le> l + 5 \<and> l < i" using that l i(1) by simp
      then have "xs ! l = Silent" using i(2) by (simp add: five_silent_def)
      then show ?thesis unfolding l z .
    qed
    then show "five_silent (\<lambda>j. ?zs ! j = Silent) k" using i by (simp add: five_silent_def)
  qed
  have no: "(\<forall>j < ?m + i. ?zs ! j \<noteq> Result) \<longleftrightarrow> (\<forall>j < i. xs ! j \<noteq> Result)" for i
    using y z by (metis add_less_cancel_left le_add_diff_inverse not_less)
  have len: "?m + i \<le> length ?zs \<longleftrightarrow> i \<le> length xs" "?m + i < length ?zs \<longleftrightarrow> i < length xs" for i by simp_all
  have "(\<exists>k \<le> length ?zs. five_silent (\<lambda>j. ?zs ! j = Silent) k \<and> (\<forall>j < k. ?zs ! j \<noteq> Result)) \<longleftrightarrow>
      (\<exists>k \<le> length xs. five_silent (\<lambda>j. xs ! j = Silent) k \<and> (\<forall>j < k. xs ! j \<noteq> Result))"
    unfolding five using no len(1) by blast
  moreover have "(\<exists>k < length ?zs. ?zs ! k = Result) \<longleftrightarrow> (\<exists>k < length xs. xs ! k = Result)"
    using y z len(2) by (metis le_add_diff_inverse not_less)
  ultimately show ?thesis unfolding verdict_def by (simp only:)
qed

lemma verdict_by:
  assumes "\<And>k. k < length xs \<Longrightarrow> xs ! k = Silent \<longleftrightarrow> \<not> h k" and "\<And>k. k < length xs \<Longrightarrow> xs ! k = Result \<longleftrightarrow> f k"
  shows "verdict v xs = (if \<exists>k \<le> length xs. 5 \<le> k \<and> (\<forall>j < k. k \<le> j + 5 \<longrightarrow> \<not> h j) \<and> (\<forall>j < k. \<not> f j) then Died
    else if \<exists>k < length xs. f k then Returned v else Waiting)"
proof -
  have "five_silent (\<lambda>j. xs ! j = Silent) k \<and> (\<forall>j < k. xs ! j \<noteq> Result) \<longleftrightarrow>
      5 \<le> k \<and> (\<forall>j < k. k \<le> j + 5 \<longrightarrow> \<not> h j) \<and> (\<forall>j < k. \<not> f j)" if "k \<le> length xs" for k
    using assms that by (auto simp: five_silent_def)
  then have "(\<exists>k \<le> length xs. five_silent (\<lambda>j. xs ! j = Silent) k \<and> (\<forall>j < k. xs ! j \<noteq> Result)) \<longleftrightarrow>
      (\<exists>k \<le> length xs. 5 \<le> k \<and> (\<forall>j < k. k \<le> j + 5 \<longrightarrow> \<not> h j) \<and> (\<forall>j < k. \<not> f j))" by meson
  moreover have "(\<exists>k < length xs. xs ! k = Result) \<longleftrightarrow> (\<exists>k < length xs. f k)" using assms(2) by meson
  ultimately show ?thesis unfolding verdict_def by (simp only:)
qed

lemma verdict_silent: "n \<le> 4 \<Longrightarrow> verdict v (replicate n Silent) = Waiting"
  by (auto simp: verdict_def five_silent_def)

lemma patience_verdict: "n \<le> 5 \<Longrightarrow> patience n v xs = verdict v (replicate n Silent @ xs)"
proof (induction xs arbitrary: n)
  case Nil
  have "five_silent (\<lambda>j. replicate 5 Silent ! j = Silent) 5" by (auto simp: five_silent_def)
  then have "verdict v (replicate 5 Silent) = Died" unfolding verdict_def by force
  then show ?case using Nil verdict_silent [of n v] by (cases "n = 5") auto
next
  case (Cons x xs)
  show ?case
  proof (cases "n = 5")
    case True
    have "(replicate 5 Silent @ x # xs) ! j = Silent" if "j < 5" for j using that by (simp add: nth_append)
    then have "five_silent (\<lambda>j. (replicate 5 Silent @ x # xs) ! j = Silent) 5"
      "\<forall>j < 5. (replicate 5 Silent @ x # xs) ! j \<noteq> Result" by (auto simp: five_silent_def)
    then have "verdict v (replicate 5 Silent @ x # xs) = Died"
      unfolding verdict_def by (metis (no_types, lifting) True if_P le_add1 length_append length_replicate)
    then show ?thesis using True by simp
  next
    case False
    then have n: "n \<le> 4" using Cons.prems by simp
    show ?thesis
    proof (cases x)
      case Silent
      have "patience n v (x # xs) = patience (n + 1) v xs" using False Silent by simp
      also have "\<dots> = verdict v (replicate (n + 1) Silent @ xs)" using Cons.IH [of "n + 1"] n by simp
      also have "replicate (n + 1) Silent @ xs = replicate n Silent @ x # xs"
        using Silent by (simp add: replicate_append_same)
      finally show ?thesis .
    next
      case Ack
      then show ?thesis
        using Cons.IH [of 0] verdict_after_ack [of "replicate n Silent" v xs] n False by simp
    next
      case Result
      let ?zs = "replicate n Silent @ Result # xs"
      have "?zs ! n = Result" by (simp add: nth_append)
      have "\<not> (five_silent (\<lambda>j. ?zs ! j = Silent) k \<and> (\<forall>j < k. ?zs ! j \<noteq> Result))" for k
      proof
        assume f: "five_silent (\<lambda>j. ?zs ! j = Silent) k \<and> (\<forall>j < k. ?zs ! j \<noteq> Result)"
        then have "n < k" using n by (simp add: five_silent_def)
        then show False using f \<open>?zs ! n = Result\<close> by blast
      qed
      moreover have "\<exists>k < length ?zs. ?zs ! k = Result" using \<open>?zs ! n = Result\<close> by (intro exI [of _ n]) simp
      ultimately show ?thesis using False Result unfolding verdict_def by auto
    qed
  qed
qed

text \<open>What an attempt brings, in terms of all that happened to the attempts: whether an earlier one arrived,
  whether the service is done, whether there is a reply, and whether it is the result.\<close>

definition arrived :: "attempt list \<Rightarrow> nat \<Rightarrow> bool" where
  "arrived as k \<longleftrightarrow> (\<exists>j < k. \<not> lost (as ! j))"

definition done_at :: "bool \<Rightarrow> attempt list \<Rightarrow> nat \<Rightarrow> bool" where
  "done_at idle as k \<longleftrightarrow> arrived as k \<and> (idle \<longrightarrow> (\<exists>j \<le> k. woken (as ! j) \<and> arrived as j))"

definition heard :: "attempt list \<Rightarrow> nat \<Rightarrow> bool" where
  "heard as k \<longleftrightarrow> \<not> lost (as ! k) \<and> \<not> reply_lost (as ! k) \<and> arrived as k"

lemma stage_at:
  "k \<le> length as \<Longrightarrow> fold (\<lambda>a st. next_stage idle (wake st a) a) (take k as) Unseen =
    (if \<not> arrived as k then Unseen
     else if idle \<and> \<not> (\<exists>j < k. woken (as ! j) \<and> arrived as j) then Running else Served)"
proof (induction k)
  case (Suc k)
  then show ?case
    by (simp add: take_Suc_conv_app_nth) (auto simp: next_stage_def wake_def arrived_def less_Suc_eq)
qed (simp add: arrived_def)

lemma nth_answers:
  "k < length as \<Longrightarrow> answers idle st as ! k =
    answer_of (wake (fold (\<lambda>a st. next_stage idle (wake st a) a) (take k as) st) (as ! k)) (as ! k)"
proof (induction as arbitrary: k st)
  case (Cons a as)
  then show ?case by (cases k) simp_all
qed simp

lemma length_answers [simp]: "length (answers idle st as) = length as"
  by (induction as arbitrary: st) simp_all

lemma answers_at:
  assumes "k < length as"
  shows "answers idle Unseen as ! k = (if \<not> heard as k then Silent else if done_at idle as k then Result else Ack)"
  unfolding nth_answers [OF assms] stage_at [OF less_imp_le [OF assms]]
  by (auto simp: answer_of_def wake_def heard_def done_at_def le_less)

section \<open>Properties of a call\<close>

text \<open>C25: a call of any of the three services with a new sequence number, over any sequence of attempts. The
  client dies when five attempts in a row bring no reply before one brings the result; it returns when an
  attempt brings the result, which takes an attempt after the first that arrived (this one is not
  answered), for \<open>idle\<close> one after the thread woke up. The value is that of the one execution. The server
  calls the service exactly once if one of the first five attempts arrives, however many arrive, and not at
  all otherwise.\<close>

theorem call_executes_exactly_once:
  assumes "fresh r s" and "effect r s = Inr (v, d)" and "r_client r = c_id c" and "r_seq r = c_seq c"
  shows "\<exists>out es w. send_req_with_retry c r as (s, []) =
      Inr (out, if out = Returned v then c\<lparr>c_seq := c_seq c + 1\<rparr> else c, es, w) \<and>
    out = (if \<exists>k \<le> length as. 5 \<le> k \<and> (\<forall>j < k. k \<le> j + 5 \<longrightarrow> \<not> heard as j) \<and>
             (\<forall>j < k. \<not> (heard as j \<and> done_at (opcode r = 0) as j)) then Died
           else if \<exists>k < length as. heard as k \<and> done_at (opcode r = 0) as k then Returned v
           else Waiting) \<and>
    calls es = (if \<exists>a \<in> set (take 5 as). \<not> lost a then [r] else []) \<and>
    datastore (fst w) = (if \<exists>a \<in> set (take 5 as). \<not> lost a then d else datastore s)"
proof -
  let ?xs = "answers (opcode r = 0) Unseen as"
  have x: "?xs ! k = Silent \<longleftrightarrow> \<not> heard as k" "?xs ! k = Result \<longleftrightarrow> heard as k \<and> done_at (opcode r = 0) as k"
    if "k < length as" for k
    using answers_at [OF that, of "opcode r = 0"] by simp_all
  have p: "patience 0 v ?xs = (if \<exists>k \<le> length as. 5 \<le> k \<and> (\<forall>j < k. k \<le> j + 5 \<longrightarrow> \<not> heard as j) \<and>
             (\<forall>j < k. \<not> (heard as j \<and> done_at (opcode r = 0) as j)) then Died
           else if \<exists>k < length as. heard as k \<and> done_at (opcode r = 0) as k then Returned v
           else Waiting)"
    unfolding patience_verdict [OF le0] replicate_0 append_Nil
    by (rule verdict_by [of ?xs "heard as" "\<lambda>k. heard as k \<and> done_at (opcode r = 0) as k" v, unfolded length_answers])
      (simp_all only: x)
  have "at_stage r s v d Unseen (s, [])" by simp
  from send_loop_ok [OF assms this le0, of as] obtain es w where l: "send_loop 0 c r as (s, []) =
      Inr (patience 0 v ?xs, if patience 0 v ?xs = Returned v then c\<lparr>c_seq := c_seq c + 1\<rparr> else c, es, w)"
    "calls es = (if Unseen = Unseen \<and> reached 0 as then [r] else [])"
    "datastore (fst w) = (if Unseen = Unseen \<and> \<not> reached 0 as then datastore s else d)" by blast
  show ?thesis
  proof (intro exI [of _ "patience 0 v ?xs"] exI [of _ es] exI [of _ w] conjI)
    show "calls es = (if \<exists>a \<in> set (take 5 as). \<not> lost a then [r] else [])"
      "datastore (fst w) = (if \<exists>a \<in> set (take 5 as). \<not> lost a then d else datastore s)"
      using l(2,3) by (simp_all add: reached_def)
  qed (simp_all only: send_req_with_retry_def l(1) p)
qed

lemma fresh_new: "0 \<le> sint (r_seq r) \<Longrightarrow> fresh r new_server"
  by (simp add: fresh_def find_entry_new entry_new)

theorem call_executes_exactly_once_witness:
  "\<exists>c es w. RPC_put \<lparr>c_seq = 0, c_id = 7\<rparr> 3 42
      [\<lparr>lost = True, reply_lost = False, woken = False\<rparr>, \<lparr>lost = False, reply_lost = False, woken = False\<rparr>,
       \<lparr>lost = False, reply_lost = True, woken = False\<rparr>, \<lparr>lost = False, reply_lost = False, woken = False\<rparr>]
      (new_server, []) = Inr (Returned 0, c, es, w) \<and>
    calls es = [put_req \<lparr>c_seq = 0, c_id = 7\<rparr> 3 42] \<and> datastore (fst w) 3 = 42"
proof -
  let ?c = "\<lparr>c_seq = 0, c_id = 7\<rparr>" and ?r = "put_req \<lparr>c_seq = 0, c_id = 7\<rparr> 3 42"
  define as where "as = [\<lparr>lost = True, reply_lost = False, woken = False\<rparr>, \<lparr>lost = False, reply_lost = False, woken = False\<rparr>,
       \<lparr>lost = False, reply_lost = True, woken = False\<rparr>, \<lparr>lost = False, reply_lost = False, woken = False\<rparr>]"
  have f: "fresh ?r new_server" by (rule fresh_new) (simp add: put_req_def)
  have e: "effect ?r new_server = Inr (0, (datastore new_server)(3 := 42))"
    by (simp add: effect_def put_req_def put_def NUMKEYS_def)
  have r: "opcode ?r \<noteq> 0" "r_client ?r = c_id ?c" "r_seq ?r = c_seq ?c" by (simp_all add: put_req_def)
  have "arrived as 3" unfolding arrived_def by (intro exI [of _ 1]) (simp add: as_def)
  then have l: "\<exists>k < length as. heard as k \<and> done_at (opcode ?r = 0) as k"
    using r by (intro exI [of _ 3]) (simp add: heard_def done_at_def as_def)
  have n: "\<not> (\<exists>k \<le> length as. 5 \<le> k \<and> P k)" for P by (auto simp: as_def)
  have t: "\<exists>a \<in> set (take 5 as). \<not> lost a" by (simp add: as_def)
  obtain out es w where "send_req_with_retry ?c ?r as (new_server, []) =
      Inr (out, if out = Returned 0 then ?c\<lparr>c_seq := c_seq ?c + 1\<rparr> else ?c, es, w)"
    "out = Returned 0" "calls es = [?r]" "datastore (fst w) = (datastore new_server)(3 := 42)"
    using call_executes_exactly_once [OF f e r(2,3), of as] unfolding if_not_P [OF n] if_P [OF l] if_P [OF t] by blast
  then show ?thesis unfolding RPC_put_def as_def by auto
qed

theorem at_most_once_witness:
  "\<exists>n log. node_run True n log \<and> calls log = [get_req \<lparr>c_seq = 0, c_id = 7\<rparr> 3, get_req \<lparr>c_seq = 1, c_id = 7\<rparr> 3] \<and>
    sorted_wrt (<) (map (sint \<circ> r_seq) (filter (\<lambda>r. r_client r = 7) (calls log)))"
proof -
  let ?r = "get_req \<lparr>c_seq = 0, c_id = 7\<rparr> 3" and ?q = "get_req \<lparr>c_seq = 1, c_id = 7\<rparr> 3"
  have g: "opcode ?r \<noteq> 0" "opcode ?q \<noteq> 0" by (simp_all add: get_req_def)
  have e: "effect ?r s = Inr (datastore s 3, datastore s)" "effect ?q s = Inr (datastore s 3, datastore s)" for s
    by (simp_all add: effect_def get_req_def get_def NUMKEYS_def)
  have "fresh ?r new_server" by (rule fresh_new) (simp add: get_req_def)
  from serve_fresh [OF this e(1)] g obtain s1 where s1: "serve ?r new_server = Inr (Ended, [Ran ?r], s1)"
    "\<exists>i. owns 7 i s1 \<and> seq_num (table s1 i) = 0" by (auto simp: get_req_def)
  then have "fresh ?q s1" by (auto simp: fresh_def owns_def get_req_def)
  from serve_fresh [OF this e(2)] g obtain s2 where s2: "serve ?q s1 = Inr (Ended, [Ran ?q], s2)" by auto
  let ?n = "main_start new_server ?r"
  have n0: "node_run True ?n []" by (rule node_run.start)
  have "joining ?n = None" "\<forall>ph \<in> set (threads ?n). settled ph" "srv ?n = new_server"
    by (simp_all add: main_start_def init_new)
  with serve_in_run [OF n0, of ?r Ended "[Ran ?r]" s1] s1(1) obtain n1 where
    n1: "node_run True n1 [Ran ?r]" "joining n1 = None" "threads n1 = [Ended]" "srv n1 = s1"
    by (auto simp: main_start_def)
  with serve_in_run [OF n1(1,2), of ?q Ended "[Ran ?q]" s2] s2 obtain n2 where
    n2: "node_run True n2 [Ran ?r, Ran ?q]" by (auto simp: settled_def)
  from at_most_once [OF n2, of 7] n2 show ?thesis by (intro exI [of _ n2] exI [of _ "[Ran ?r, Ran ?q]"]) simp
qed

section \<open>Memory safety\<close>

text \<open>C26: The server leaves its arrays in exactly two cases: a new client when a hundred others have
  entries (the index of the table is then -1), and a fresh request with the key 1024, which the bounds
  test lets through.\<close>

theorem server_memory_errors:
  "(\<exists>e. serve r s = Inl e) \<longleftrightarrow>
     (\<forall>i < NCLIENTS. client_id (table s i) \<noteq> - 1 \<and> client_id (table s i) \<noteq> r_client r) \<or>
     fresh r s \<and> opcode r \<noteq> 0 \<and> sint (r_key r) = NUMKEYS"
proof (cases "find_entry (r_client r) s")
  case None
  then show ?thesis using find_entry_None [of "r_client r" s] by (simp add: serve_def look_up_def)
next
  case (Some i)
  then have n: "\<not> (\<forall>i < NCLIENTS. client_id (table s i) \<noteq> - 1 \<and> client_id (table s i) \<noteq> r_client r)"
    using find_entry_None [of "r_client r" s] by simp
  have "fresh r s \<longleftrightarrow> sint (seq_num (table s i)) < sint (r_seq r)" by (simp add: fresh_def Some)
  moreover have "sint (seq_num (table s i)) = sint (r_seq r) \<longleftrightarrow> seq_num (table s i) = r_seq r"
    by (rule sint_eq)
  ultimately show ?thesis unfolding if_not_P [OF n]
    using n by (auto simp: serve_found [OF Some] Let_def execute_def get_def put_def res_simps NUMKEYS_def)
qed

theorem server_memory_errors_witness:
  "\<exists>e. serve (put_req \<lparr>c_seq = 0, c_id = 7\<rparr> 1024 42) new_server = Inl e"
proof -
  have "fresh (put_req \<lparr>c_seq = 0, c_id = 7\<rparr> 1024 42) new_server"
    by (rule fresh_new) (simp add: put_req_def)
  then show ?thesis
    using server_memory_errors [of "put_req \<lparr>c_seq = 0, c_id = 7\<rparr> 1024 42" new_server]
    by (simp add: put_req_def NUMKEYS_def)
qed

end
