(* ===== verification/Sh.thy ===== *)
theory Sh
  imports Prelude "HOL-Library.Char_ord"
begin

text \<open>
  The shell \<open>user/sh.c\<close>: the tokenizer, the recursive descent parser and \<open>runcmd\<close>. The line is the
  string \<open>buf\<close> without its final NUL; a \<open>char *\<close> into it is a position, \<open>length buf\<close> being \<open>es\<close>. The
  words of a command are pairs of positions (\<open>argv[i]\<close>, \<open>eargv[i]\<close>) until \<open>nulterminate\<close> cuts the line.
\<close>

definition MAXARGS :: nat where "MAXARGS = 10"

abbreviation NUL :: char where "NUL \<equiv> CHR 0x00"

type_synonym span = "nat \<times> nat"

datatype 'w cmd =
    EXEC "'w list"
  | REDIR "'w cmd" 'w int nat
  | PIPE "'w cmd" "'w cmd"
  | LIST "'w cmd" "'w cmd"
  | BACK "'w cmd"

text \<open>The flags of \<open>open\<close> in \<open>fcntl.h\<close>.\<close>

definition RDONLY :: int where "RDONLY = 0"
definition WRONLY_CREATE :: int where "WRONLY_CREATE = 0x201"

section \<open>Tokens\<close>

definition whitespace :: string where
  "whitespace = [CHR '' '', CHR 0x09, CHR 0x0D, CHR 0x0A, CHR 0x0B]"

definition symbols :: string where "symbols = ''<|>&;()''"

definition at :: "string \<Rightarrow> nat \<Rightarrow> char" where
  "at buf s = (if s < length buf then buf ! s else NUL)"

function skip :: "(char \<Rightarrow> bool) \<Rightarrow> string \<Rightarrow> nat \<Rightarrow> nat" where
  "skip P buf s = (if s < length buf \<and> P (buf ! s) then skip P buf (s + 1) else s)"
  by pat_completeness auto

termination by (relation "measure (\<lambda>(P, buf, s). length buf - s)") auto

declare skip.simps [simp del]

definition blank :: "char \<Rightarrow> bool" where "blank c \<longleftrightarrow> c \<in> set whitespace"

definition word_char :: "char \<Rightarrow> bool" where
  "word_char c \<longleftrightarrow> c \<notin> set whitespace \<and> c \<notin> set symbols"

text \<open>The token, where it starts and ends, and the position behind it and the blanks that follow.\<close>

definition gettoken :: "string \<Rightarrow> nat \<Rightarrow> char \<times> nat \<times> nat \<times> nat" where
  "gettoken buf ps =
     (let q = skip blank buf ps;
          c = at buf q;
          (ret, s) =
            (if c = NUL then (c, q)
             else if c \<in> set ''|();&<'' then (c, q + 1)
             else if c = CHR ''>'' then
               (if at buf (q + 1) = CHR ''>'' then (CHR ''+'', q + 2) else (c, q + 1))
             else (CHR ''a'', skip word_char buf q))
      in (ret, q, s, skip blank buf s))"

definition peek :: "string \<Rightarrow> nat \<Rightarrow> string \<Rightarrow> bool \<times> nat" where
  "peek buf ps toks =
     (let s = skip blank buf ps in (at buf s \<noteq> NUL \<and> at buf s \<in> set toks, s))"

abbreviation after :: "char \<times> nat \<times> nat \<times> nat \<Rightarrow> nat" where "after t \<equiv> snd (snd (snd t))"

section \<open>Progress of the tokenizer\<close>

lemma skip_ge: "s \<le> skip P buf s"
  by (induction P buf s rule: skip.induct) (subst skip.simps, auto)

lemma skip_le: "s \<le> length buf \<Longrightarrow> skip P buf s \<le> length buf"
  by (induction P buf s rule: skip.induct) (subst skip.simps, auto)

lemma skip_stop: "skip P buf s < length buf \<Longrightarrow> \<not> P (buf ! skip P buf s)"
  by (induction P buf s rule: skip.induct) (subst (asm) skip.simps, subst skip.simps, auto split: if_splits)

lemma skip_all: "s \<le> i \<Longrightarrow> i < skip P buf s \<Longrightarrow> i < length buf \<and> P (buf ! i)"
proof (induction P buf s rule: skip.induct)
  case (1 P buf s)
  show ?case
  proof (cases "s < length buf \<and> P (buf ! s)")
    case True
    then show ?thesis using 1 by (cases "i = s") (auto simp: skip.simps [of P buf s])
  next
    case False
    then show ?thesis using 1 by (auto simp: skip.simps [of P buf s])
  qed
qed

lemma skip_step: "s < length buf \<Longrightarrow> P (buf ! s) \<Longrightarrow> s < skip P buf s"
  using skip_ge [of "s + 1" P buf] by (subst skip.simps) simp

lemma at_NUL: "length buf \<le> s \<Longrightarrow> at buf s = NUL"
  by (simp add: at_def)

lemma at_nonNUL: "at buf s \<noteq> NUL \<Longrightarrow> s < length buf \<and> at buf s = buf ! s"
  by (auto simp: at_def split: if_splits)

lemma NUL_word: "word_char NUL \<and> \<not> blank NUL"
  by (simp add: word_char_def blank_def whitespace_def symbols_def)

lemma peek_fst: "fst (peek buf ps toks) \<Longrightarrow> snd (peek buf ps toks) < length buf"
  by (auto simp: peek_def Let_def dest: at_nonNUL)

lemma peek_snd: "ps \<le> length buf \<Longrightarrow> ps \<le> snd (peek buf ps toks) \<and> snd (peek buf ps toks) \<le> length buf"
  by (simp add: peek_def Let_def skip_ge skip_le)

lemma gettoken_end:
  assumes "gettoken buf ps = (ret, q, s, s')" and "ps \<le> length buf"
  shows "ps \<le> q \<and> q \<le> s \<and> s \<le> s' \<and> s' \<le> length buf \<and> (at buf q \<noteq> NUL \<longrightarrow> q < s)"
proof -
  have q: "q = skip blank buf ps" and s': "s' = skip blank buf s"
    using assms(1) by (auto simp: gettoken_def Let_def split: prod.splits)
  have ql: "ps \<le> q" "q \<le> length buf" unfolding q using assms(2) by (simp_all add: skip_ge skip_le)
  have "q \<le> s \<and> s \<le> length buf \<and> (at buf q \<noteq> NUL \<longrightarrow> q < s)"
  proof (cases "at buf q = NUL")
    case True
    then show ?thesis using assms(1) ql by (auto simp: gettoken_def q Let_def split: prod.splits)
  next
    case False
    note c = at_nonNUL [OF False]
    have nb: "\<not> blank (at buf q)" using skip_stop [of blank buf ps] c by (simp add: q)
    have s: "s = q + 1 \<or> s = q + 2 \<and> at buf (q + 1) = CHR ''>'' \<or>
        s = skip word_char buf q \<and> word_char (at buf q)"
      using assms(1) False nb
      by (auto simp: gettoken_def q [symmetric] Let_def word_char_def blank_def symbols_def split: if_splits prod.splits)
    moreover have "at buf (q + 1) = CHR ''>'' \<Longrightarrow> q + 1 < length buf" by (simp add: at_def split: if_splits)
    ultimately show ?thesis using c skip_step [of q buf word_char] skip_le [of q buf word_char] by auto
  qed
  then show ?thesis using ql skip_ge [of s blank buf] skip_le [of s buf blank] s' by auto
qed

lemma after_le: "ps \<le> length buf \<Longrightarrow> ps \<le> after (gettoken buf ps) \<and> after (gettoken buf ps) \<le> length buf"
  using gettoken_end [of buf ps] by (cases "gettoken buf ps") fastforce

lemma after_less:
  assumes "fst (peek buf ps toks)"
  shows "snd (peek buf ps toks) < after (gettoken buf (snd (peek buf ps toks)))"
proof -
  let ?s = "snd (peek buf ps toks)"
  have s: "?s < length buf" using peek_fst [OF assms] .
  have "skip blank buf ?s = ?s"
    using skip_stop [of blank buf ps] s by (subst skip.simps) (simp add: peek_def Let_def)
  moreover have "at buf ?s \<noteq> NUL" using assms by (simp add: peek_def Let_def)
  ultimately show ?thesis
    using gettoken_end [of buf ?s] s
    by (cases "gettoken buf ?s") (fastforce simp: gettoken_def Let_def split: prod.splits)
qed

section \<open>The parser\<close>

text \<open>A redirection as \<open>parseredirs\<close> wraps it around the command parsed so far. \<open>parseexec\<close> goes on
  to fill the \<open>execcmd\<close> inside its wrappers through the pointer \<open>cmd\<close>: the redirections are
  collected here and wrapped around the finished \<open>EXEC\<close>.\<close>

type_synonym redir = "span \<times> int \<times> nat"

definition redirs :: "redir list \<Rightarrow> span cmd \<Rightarrow> span cmd" where
  "redirs rs c = foldl (\<lambda>c (f, mode, fd). REDIR c f mode fd) c rs"

definition redir_of :: "char \<Rightarrow> span \<Rightarrow> redir list" where
  "redir_of tok f = (if tok = CHR ''<'' then [(f, RDONLY, 0)]
     else if tok = CHR ''>'' \<or> tok = CHR ''+'' then [(f, WRONLY_CREATE, 1)] else [])"

function parseredirs :: "string \<Rightarrow> redir list \<Rightarrow> nat \<Rightarrow> (redir list \<times> nat) result" where
  "parseredirs buf rs s =
     (if \<not> fst (peek buf s ''<>'') then Inr (rs, snd (peek buf s ''<>''))
      else let s1 = snd (peek buf s ''<>'');
               tok = fst (gettoken buf s1);
               (kind, q, eq, s3) = gettoken buf (after (gettoken buf s1))
           in if kind \<noteq> CHR ''a'' then Inl (Panic ''missing file for redirection'')
              else parseredirs buf (rs @ redir_of tok (q, eq)) s3)"
  by pat_completeness auto

termination
proof (relation "measure (\<lambda>(buf, rs, s). length buf - s)")
  fix buf :: string and rs :: "redir list" and s s1 tok x kind y q z eq s3
  assume a: "\<not> \<not> fst (peek buf s ''<>'')" "s1 = snd (peek buf s ''<>'')"
    "tok = fst (gettoken buf s1)" "x = gettoken buf (after (gettoken buf s1))" "(kind, y) = x" "(q, z) = y" "(eq, s3) = z"
  have "s1 < after (gettoken buf s1)" using a after_less [of buf s "''<>''"] by simp
  moreover have "s \<le> s1" "s1 < length buf" using a peek_fst [of buf s "''<>''"] by (auto simp: peek_def Let_def skip_ge)
  moreover have "after (gettoken buf s1) \<le> after x" "after x \<le> length buf"
    using a(4) after_le [of s1 buf] after_le [of "after (gettoken buf s1)" buf] \<open>s1 < length buf\<close> by auto
  moreover have "after x = s3" by (simp flip: a(5,6,7))
  ultimately show "((buf, rs @ redir_of tok (q, eq), s3), (buf, rs, s)) \<in> measure (\<lambda>(buf, rs, s). length buf - s)"
    by simp
qed simp

declare parseredirs.simps [simp del]

text \<open>The loop over \<open>&\<close> of \<open>parseline\<close>.\<close>

function backs :: "string \<Rightarrow> span cmd \<Rightarrow> nat \<Rightarrow> span cmd \<times> nat" where
  "backs buf c s = (if fst (peek buf s ''&'')
     then backs buf (BACK c) (after (gettoken buf (snd (peek buf s ''&''))))
     else (c, snd (peek buf s ''&'')))"
  by pat_completeness auto

termination
proof (relation "measure (\<lambda>(buf, c, s). length buf - s)")
  fix buf :: string and c s
  assume b: "fst (peek buf s ''&'')"
  have "s \<le> snd (peek buf s ''&'')" by (simp add: peek_def Let_def skip_ge)
  then show "((buf, BACK c, after (gettoken buf (snd (peek buf s ''&'')))), buf, c, s)
      \<in> measure (\<lambda>(buf, c, s). length buf - s)"
    using after_less [OF b] peek_fst [OF b] by simp
qed simp

declare backs.simps [simp del]

text \<open>The loop of \<open>parseexec\<close> over words and redirections.\<close>

function exec_words :: "string \<Rightarrow> span list \<Rightarrow> redir list \<Rightarrow> nat \<Rightarrow> (span cmd \<times> nat) result" where
  "exec_words buf argv rs s =
     (if fst (peek buf s ''|)&;'') then Inr (redirs rs (EXEC argv), snd (peek buf s ''|)&;''))
      else let (tok, q, eq, s2) = gettoken buf (snd (peek buf s ''|)&;'')) in
           if tok = NUL then Inr (redirs rs (EXEC argv), s2)
           else if tok \<noteq> CHR ''a'' then Inl (Panic ''syntax'')
           else if length argv + 1 \<ge> MAXARGS then Inl (Panic ''too many args'')
           else (case parseredirs buf rs s2 of Inl e \<Rightarrow> Inl e
             | Inr (rs', s3) \<Rightarrow> exec_words buf (argv @ [(q, eq)]) rs' s3))"
  by pat_completeness auto

termination by (relation "measure (\<lambda>(buf, argv, rs, s). MAXARGS - length argv)") auto

declare exec_words.simps [simp del]

fun parseline :: "nat \<Rightarrow> string \<Rightarrow> nat \<Rightarrow> (span cmd \<times> nat) result"
  and parsepipe :: "nat \<Rightarrow> string \<Rightarrow> nat \<Rightarrow> (span cmd \<times> nat) result"
  and parseexec :: "nat \<Rightarrow> string \<Rightarrow> nat \<Rightarrow> (span cmd \<times> nat) result"
  and parseblock :: "nat \<Rightarrow> string \<Rightarrow> nat \<Rightarrow> (span cmd \<times> nat) result" where
  "parseline 0 buf s = Inl NoFuel"
| "parseline (Suc n) buf s =
     bindE (parsepipe n buf s) (\<lambda>(c, s1).
       let (c', s2) = backs buf c s1; (b, s3) = peek buf s2 '';'' in
       if b then bindE (parseline n buf (after (gettoken buf s3))) (\<lambda>(c2, s4). Inr (LIST c' c2, s4))
       else Inr (c', s3))"
| "parsepipe 0 buf s = Inl NoFuel"
| "parsepipe (Suc n) buf s =
     bindE (parseexec n buf s) (\<lambda>(c, s1).
       let (b, s2) = peek buf s1 ''|'' in
       if b then bindE (parsepipe n buf (after (gettoken buf s2))) (\<lambda>(c2, s3). Inr (PIPE c c2, s3))
       else Inr (c, s2))"
| "parseexec 0 buf s = Inl NoFuel"
| "parseexec (Suc n) buf s =
     (let (b, s1) = peek buf s ''('' in
      if b then parseblock n buf s1
      else bindE (parseredirs buf [] s1) (\<lambda>(rs, s2). exec_words buf [] rs s2))"
| "parseblock 0 buf s = Inl NoFuel"
| "parseblock (Suc n) buf s =
     (let (b, s1) = peek buf s ''('' in
      if \<not> b then Inl (Panic ''parseblock'')
      else bindE (parseline n buf (after (gettoken buf s1))) (\<lambda>(c, s2).
        let (b2, s3) = peek buf s2 '')'' in
        if \<not> b2 then Inl (Panic ''syntax - missing )'')
        else bindE (parseredirs buf [] (after (gettoken buf s3))) (\<lambda>(rs, s4).
          Inr (redirs rs c, s4))))"

text \<open>The end of each word in the line is overwritten; \<open>es\<close> holds the NUL of the line already.\<close>

fun nulterminate :: "span cmd \<Rightarrow> string \<Rightarrow> string" where
  "nulterminate (EXEC ws) buf = fold (\<lambda>(q, eq) b. b[eq := NUL]) ws buf"
| "nulterminate (REDIR c f mode fd) buf = (nulterminate c buf)[snd f := NUL]"
| "nulterminate (PIPE l r) buf = nulterminate r (nulterminate l buf)"
| "nulterminate (LIST l r) buf = nulterminate r (nulterminate l buf)"
| "nulterminate (BACK c) buf = nulterminate c buf"

definition parsecmd :: "nat \<Rightarrow> string \<Rightarrow> (span cmd \<times> string) result" where
  "parsecmd fuel buf =
     bindE (parseline fuel buf 0) (\<lambda>(c, s).
       if snd (peek buf s '''') \<noteq> length buf then Inl (Panic ''syntax'')
       else Inr (c, nulterminate c buf))"

section \<open>Running commands\<close>

text \<open>What a process asks the kernel for, and how it goes on with the answer: \<open>runcmd\<close> never returns,
  so it is the program of the rest of the process. \<open>Fork\<close> has the rest for a failed fork, for the child
  and for the parent.\<close>

datatype prog =
    Exit
  | Exec string "string list" prog
  | Print string prog
  | Close nat prog
  | Open string int "int \<Rightarrow> prog"
  | Dup nat prog
  | Pipe "(nat \<times> nat) option \<Rightarrow> prog"
  | Fork prog prog prog
  | Wait prog
  | Chdir string "int \<Rightarrow> prog"

definition cstr :: "string \<Rightarrow> nat \<Rightarrow> string" where
  "cstr buf q = takeWhile (\<lambda>c. c \<noteq> NUL) (drop q buf)"

definition panic :: "string \<Rightarrow> prog" where
  "panic s = Print (s @ [CHR 0x0A]) Exit"

definition fork1 :: "prog \<Rightarrow> prog \<Rightarrow> prog" where
  "fork1 child parent = Fork (panic ''fork'') child parent"

fun runcmd :: "string \<Rightarrow> span cmd \<Rightarrow> prog" where
  "runcmd buf (EXEC ws) =
     (case ws of [] \<Rightarrow> Exit
      | (q, eq) # _ \<Rightarrow> Exec (cstr buf q) (map (\<lambda>(q, eq). cstr buf q) ws)
          (Print (''exec '' @ cstr buf q @ '' failed'' @ [CHR 0x0A]) Exit))"
| "runcmd buf (REDIR c f mode fd) =
     Close fd (Open (cstr buf (fst f)) mode (\<lambda>r.
       if r < 0 then Print (''open '' @ cstr buf (fst f) @ '' failed'' @ [CHR 0x0A]) Exit
       else runcmd buf c))"
| "runcmd buf (LIST l r) = fork1 (runcmd buf l) (Wait (runcmd buf r))"
| "runcmd buf (PIPE l r) = Pipe (\<lambda>p. case p of
       None \<Rightarrow> panic ''pipe''
     | Some (p0, p1) \<Rightarrow>
         fork1 (Close 1 (Dup p1 (Close p0 (Close p1 (runcmd buf l)))))
           (fork1 (Close 0 (Dup p0 (Close p0 (Close p1 (runcmd buf r)))))
             (Close p0 (Close p1 (Wait (Wait Exit))))))"
| "runcmd buf (BACK c) = fork1 (runcmd buf c) Exit"

text \<open>The main loop over the lines that \<open>getcmd\<close> reads. The child of a line that does not parse
  prints the message and exits. The panic of \<open>parsecmd\<close> itself, when the parser stopped before
  the end of the line, first prints what is left over; the panics inside \<open>parseline\<close> do not get there.\<close>

definition leftovers :: "nat \<Rightarrow> string \<Rightarrow> string option" where
  "leftovers fuel buf =
     (case parseline fuel buf 0 of
        Inl _ \<Rightarrow> None
      | Inr (c, s) \<Rightarrow> let s1 = snd (peek buf s '''') in
          if s1 = length buf then None else Some (cstr buf s1))"

definition child_of_line :: "nat \<Rightarrow> string \<Rightarrow> prog" where
  "child_of_line fuel line =
     (case parsecmd fuel line of Inr (c, buf) \<Rightarrow> runcmd buf c
      | Inl (Panic s) \<Rightarrow>
          (case leftovers fuel line of
             None \<Rightarrow> panic s
           | Some rest \<Rightarrow> Print (''leftovers: '' @ rest @ [CHR 0x0A]) (panic s))
      | Inl _ \<Rightarrow> Exit)"

fun sh_main :: "string list \<Rightarrow> prog" where
  "sh_main [] = Exit"
| "sh_main (line # lines) =
     (if line = [] then Exit
      else if at line 0 = CHR ''c'' \<and> at line 1 = CHR ''d'' \<and> at line 2 = CHR '' '' then
        let dir = drop 3 (butlast line) in
        Chdir dir (\<lambda>r. if r < 0 then Print (''cannot cd '' @ dir @ [CHR 0x0A]) (sh_main lines) else sh_main lines)
      else fork1 (child_of_line (4 * length line + 4) line) (Wait (sh_main lines)))"

end
