(* ===== verification/Sh_Spec.thy ===== *)
theory Sh_Spec
  imports Sh
begin

text \<open>
  The properties of the shell's parser and of \<open>runcmd\<close>: parsing always ends, the words of a command
  survive the cutting of the line, a printed command is parsed back, and a command runs its programs
  with the descriptors that its pipes and redirections say, no other descriptor being left open.
\<close>

section \<open>Induction over the loops\<close>

lemma parseredirs_step:
  "fst (peek buf s ''<>'') \<Longrightarrow> gettoken buf (after (gettoken buf (snd (peek buf s ''<>'')))) = (kind, q, eq, s3) \<Longrightarrow>
    parseredirs buf rs s = (if kind \<noteq> CHR ''a'' then Inl (Panic ''missing file for redirection'')
      else parseredirs buf (rs @ redir_of (fst (gettoken buf (snd (peek buf s ''<>'')))) (q, eq)) s3)"
  by (subst parseredirs.simps) simp

lemma parseredirs_stop: "\<not> fst (peek buf s ''<>'') \<Longrightarrow> parseredirs buf rs s = Inr (rs, snd (peek buf s ''<>''))"
  by (subst parseredirs.simps) simp

lemma redir_progress:
  assumes "fst (peek buf s ''<>'')"
    and "gettoken buf (after (gettoken buf (snd (peek buf s ''<>'')))) = (kind, q, eq, s3)"
  shows "s < s3" and "s3 \<le> length buf"
proof -
  let ?s1 = "snd (peek buf s ''<>'')"
  have "s \<le> ?s1" by (simp add: peek_def Let_def skip_ge)
  moreover have "?s1 < after (gettoken buf ?s1)" using after_less [OF assms(1)] .
  moreover have l: "after (gettoken buf ?s1) \<le> length buf" using after_le [of ?s1 buf] peek_fst [OF assms(1)] by simp
  moreover have "after (gettoken buf ?s1) \<le> s3" using gettoken_end [OF assms(2) l] by auto
  ultimately show "s < s3" "s3 \<le> length buf" using gettoken_end [OF assms(2) l] by auto
qed

text \<open>The results of the loops that returned, and the errors of those that did not.\<close>

lemma parseredirs_induct [consumes 1, case_names stop step]:
  assumes "parseredirs buf rs s = Inr (rs', s')"
    and stop: "\<And>rs s. \<not> fst (peek buf s ''<>'') \<Longrightarrow> P rs s rs (snd (peek buf s ''<>''))"
    and step: "\<And>rs s q eq s3 rs' s'. fst (peek buf s ''<>'') \<Longrightarrow>
      gettoken buf (after (gettoken buf (snd (peek buf s ''<>'')))) = (CHR ''a'', q, eq, s3) \<Longrightarrow>
      P (rs @ redir_of (fst (gettoken buf (snd (peek buf s ''<>'')))) (q, eq)) s3 rs' s' \<Longrightarrow> P rs s rs' s'"
  shows "P rs s rs' s'"
  using assms(1)
proof (induction "length buf - s" arbitrary: rs s rule: less_induct)
  case less
  show ?case
  proof (cases "fst (peek buf s ''<>'')")
    case True
    obtain kind q eq s3 where g: "gettoken buf (after (gettoken buf (snd (peek buf s ''<>'')))) = (kind, q, eq, s3)"
      by (metis prod_cases4)
    note st = parseredirs_step [OF True g, of rs]
    have k: "kind = CHR ''a''" using less.prems st by (auto split: if_splits)
    have "length buf - s3 < length buf - s" using redir_progress [OF True g] by auto
    then show ?thesis using less.hyps less.prems st k step [OF True g [unfolded k]] by simp
  next
    case False
    then show ?thesis using less.prems stop [OF False] by (simp add: parseredirs_stop)
  qed
qed

lemma parseredirs_total: "parseredirs buf rs s \<noteq> Inl NoFuel"
proof (induction "length buf - s" arbitrary: rs s rule: less_induct)
  case less
  show ?case
  proof (cases "fst (peek buf s ''<>'')")
    case True
    obtain kind q eq s3 where g: "gettoken buf (after (gettoken buf (snd (peek buf s ''<>'')))) = (kind, q, eq, s3)"
      by (metis prod_cases4)
    have "length buf - s3 < length buf - s" using redir_progress [OF True g] by auto
    then show ?thesis using less.hyps parseredirs_step [OF True g, of rs] by simp
  qed (simp add: parseredirs_stop)
qed

lemma exec_words_step:
  "gettoken buf (snd (peek buf s ''|)&;'')) = (tok, q, eq, s2) \<Longrightarrow>
    exec_words buf argv rs s =
     (if fst (peek buf s ''|)&;'') then Inr (redirs rs (EXEC argv), snd (peek buf s ''|)&;''))
      else if tok = NUL then Inr (redirs rs (EXEC argv), s2)
      else if tok \<noteq> CHR ''a'' then Inl (Panic ''syntax'')
      else if length argv + 1 \<ge> MAXARGS then Inl (Panic ''too many args'')
      else bindE (parseredirs buf rs s2) (\<lambda>(rs', s3). exec_words buf (argv @ [(q, eq)]) rs' s3))"
  by (subst exec_words.simps) (simp add: bindE_def)

lemma exec_words_induct [consumes 1, case_names stop last step]:
  assumes "exec_words buf argv rs s = Inr (c, s')"
    and stop: "\<And>argv rs s. fst (peek buf s ''|)&;'') \<Longrightarrow>
      P argv rs s (redirs rs (EXEC argv)) (snd (peek buf s ''|)&;''))"
    and last: "\<And>argv rs s q eq s2. gettoken buf (snd (peek buf s ''|)&;'')) = (NUL, q, eq, s2) \<Longrightarrow>
      P argv rs s (redirs rs (EXEC argv)) s2"
    and step: "\<And>argv rs s q eq s2 rs' s3 c s'. gettoken buf (snd (peek buf s ''|)&;'')) = (CHR ''a'', q, eq, s2) \<Longrightarrow>
      parseredirs buf rs s2 = Inr (rs', s3) \<Longrightarrow> P (argv @ [(q, eq)]) rs' s3 c s' \<Longrightarrow>
      length argv + 1 < MAXARGS \<Longrightarrow> P argv rs s c s'"
  shows "P argv rs s c s'"
  using assms(1)
proof (induction "MAXARGS - length argv" arbitrary: argv rs s rule: less_induct)
  case less
  obtain tok q eq s2 where g: "gettoken buf (snd (peek buf s ''|)&;'')) = (tok, q, eq, s2)" by (metis prod_cases4)
  note ex = less.prems [unfolded exec_words_step [OF g]]
  consider "fst (peek buf s ''|)&;'')" | "tok = NUL" "\<not> fst (peek buf s ''|)&;'')"
    | rs' s3 where "tok = CHR ''a''" "length argv + 1 < MAXARGS" "parseredirs buf rs s2 = Inr (rs', s3)"
        "exec_words buf (argv @ [(q, eq)]) rs' s3 = Inr (c, s')"
    using ex by (auto simp: bindE_Inr_iff split: if_splits)
  then show ?case
  proof cases
    case 1
    then show ?thesis using ex stop [OF 1] by auto
  next
    case 2
    then show ?thesis using ex last [OF g [unfolded 2]] by auto
  next
    case 3
    then show ?thesis using less.hyps [OF _ 3(4)] step [OF g [unfolded 3(1)] 3(3)] 3(2) by simp
  qed
qed

section \<open>Positions\<close>

lemma parseredirs_bounds:
  assumes "parseredirs buf rs s = Inr (rs', s')"
  shows "s \<le> length buf \<longrightarrow> s \<le> s' \<and> s' \<le> length buf"
  using assms
proof (induction rule: parseredirs_induct)
  case (step rs s q eq s3 rs' s')
  then show ?case using redir_progress [OF step(1,2)] by auto
qed (use peek_snd in auto)

lemma backs_bounds: "s \<le> length buf \<Longrightarrow> backs buf c s = (c', s') \<Longrightarrow> s \<le> s' \<and> s' \<le> length buf"
proof (induction buf c s rule: backs.induct)
  case (1 buf c s)
  show ?case
  proof (cases "fst (peek buf s ''&'')")
    case True
    have "s \<le> after (gettoken buf (snd (peek buf s ''&'')))" "after (gettoken buf (snd (peek buf s ''&''))) \<le> length buf"
      using peek_snd [OF 1(2), of "''&''"] after_le [of "snd (peek buf s ''&'')" buf] by auto
    then show ?thesis using 1 True by (auto simp: backs.simps [of buf c s])
  next
    case False
    then show ?thesis using 1 peek_snd [OF 1(2), of "''&''"] by (auto simp: backs.simps [of buf c s])
  qed
qed

lemma exec_words_bounds:
  assumes "exec_words buf argv rs s = Inr (c, s')"
  shows "s \<le> length buf \<longrightarrow> s \<le> s' \<and> s' \<le> length buf"
  using assms
proof (induction rule: exec_words_induct)
  case (stop argv rs s)
  then show ?case using peek_snd by auto
next
  case (last argv rs s q eq s2)
  then show ?case using peek_snd [of s buf "''|)&;''"] gettoken_end [OF last] by auto
next
  case (step argv rs s q eq s2 rs' s3 c s')
  then show ?case
    using peek_snd [of s buf "''|)&;''"] gettoken_end [OF step(1)] parseredirs_bounds [OF step(2)] by auto
qed

section \<open>What the parser accepts\<close>

text \<open>The derivations of the grammar that the parser follows, without the fuel.\<close>

abbreviation eat :: "string \<Rightarrow> nat \<Rightarrow> string \<Rightarrow> nat" where
  "eat buf s toks \<equiv> after (gettoken buf (snd (peek buf s toks)))"

inductive line :: "string \<Rightarrow> nat \<Rightarrow> span cmd \<Rightarrow> nat \<Rightarrow> bool"
  and pipeline :: "string \<Rightarrow> nat \<Rightarrow> span cmd \<Rightarrow> nat \<Rightarrow> bool"
  and simple :: "string \<Rightarrow> nat \<Rightarrow> span cmd \<Rightarrow> nat \<Rightarrow> bool"
  for buf :: string where
  line: "pipeline buf s c s1 \<Longrightarrow> backs buf c s1 = (c', s2) \<Longrightarrow> \<not> fst (peek buf s2 '';'') \<Longrightarrow>
    line buf s c' (snd (peek buf s2 '';''))"
| line_list: "pipeline buf s c s1 \<Longrightarrow> backs buf c s1 = (c', s2) \<Longrightarrow> fst (peek buf s2 '';'') \<Longrightarrow>
    line buf (eat buf s2 '';'') c2 s3 \<Longrightarrow> line buf s (LIST c' c2) s3"
| pipe: "simple buf s c s1 \<Longrightarrow> \<not> fst (peek buf s1 ''|'') \<Longrightarrow> pipeline buf s c (snd (peek buf s1 ''|''))"
| pipe_pipe: "simple buf s c s1 \<Longrightarrow> fst (peek buf s1 ''|'') \<Longrightarrow> pipeline buf (eat buf s1 ''|'') c2 s2 \<Longrightarrow>
    pipeline buf s (PIPE c c2) s2"
| words: "\<not> fst (peek buf s ''('') \<Longrightarrow> parseredirs buf [] (snd (peek buf s ''('')) = Inr (rs, s1) \<Longrightarrow>
    exec_words buf [] rs s1 = Inr (c, s2) \<Longrightarrow> simple buf s c s2"
| block: "fst (peek buf s ''('') \<Longrightarrow> fst (peek buf (snd (peek buf s ''('')) ''('') \<Longrightarrow>
    line buf (eat buf (snd (peek buf s ''('')) ''('') c s2 \<Longrightarrow>
    fst (peek buf s2 '')'') \<Longrightarrow> parseredirs buf [] (eat buf s2 '')'') = Inr (rs, s3) \<Longrightarrow>
    simple buf s (redirs rs c) s3"

lemma bindE_E: "bindE m f = Inr y \<Longrightarrow> (\<And>x. m = Inr x \<Longrightarrow> f x = Inr y \<Longrightarrow> P) \<Longrightarrow> P"
  by (auto simp: bindE_Inr_iff)

lemma parse_Suc:
  "parseline (Suc n) buf s = bindE (parsepipe n buf s) (\<lambda>p.
     if fst (peek buf (snd (backs buf (fst p) (snd p))) '';'')
     then bindE (parseline n buf (eat buf (snd (backs buf (fst p) (snd p))) '';''))
       (\<lambda>r. Inr (LIST (fst (backs buf (fst p) (snd p))) (fst r), snd r))
     else Inr (fst (backs buf (fst p) (snd p)), snd (peek buf (snd (backs buf (fst p) (snd p))) '';'')))"
  "parsepipe (Suc n) buf s = bindE (parseexec n buf s) (\<lambda>p.
     if fst (peek buf (snd p) ''|'')
     then bindE (parsepipe n buf (eat buf (snd p) ''|'')) (\<lambda>r. Inr (PIPE (fst p) (fst r), snd r))
     else Inr (fst p, snd (peek buf (snd p) ''|'')))"
  "parseexec (Suc n) buf s = (if fst (peek buf s ''('') then parseblock n buf (snd (peek buf s ''(''))
     else bindE (parseredirs buf [] (snd (peek buf s ''(''))) (\<lambda>r. exec_words buf [] (fst r) (snd r)))"
  "parseblock (Suc n) buf s = (if \<not> fst (peek buf s ''('') then Inl (Panic ''parseblock'')
     else bindE (parseline n buf (eat buf s ''('')) (\<lambda>p.
       if \<not> fst (peek buf (snd p) '')'') then Inl (Panic ''syntax - missing )'')
       else bindE (parseredirs buf [] (eat buf (snd p) '')'')) (\<lambda>r. Inr (redirs (fst r) (fst p), snd r))))"
  by (simp_all add: Let_def split_def cong: if_cong)

declare parseline.simps(2) [simp del] parsepipe.simps(2) [simp del] parseexec.simps(2) [simp del]
  parseblock.simps(2) [simp del]

lemma parse_sound:
  "parseline n buf s = Inr (c, s') \<Longrightarrow> line buf s c s'"
  "parsepipe n buf s = Inr (c, s') \<Longrightarrow> pipeline buf s c s'"
  "parseexec n buf s = Inr (c, s') \<Longrightarrow> simple buf s c s'"
  "parseblock n buf s1 = Inr (c, s') \<Longrightarrow> s1 = snd (peek buf s ''('') \<Longrightarrow> fst (peek buf s ''('') \<Longrightarrow> simple buf s c s'"
proof (induction n arbitrary: s c s' s1)
  case (Suc n)
  case 1
  from 1 show ?case unfolding parse_Suc
  proof (rule bindE_E)
    fix p assume p: "parsepipe n buf s = Inr p"
    obtain c2 s2 where b: "backs buf (fst p) (snd p) = (c2, s2)" by fastforce
    assume "(if fst (peek buf (snd (backs buf (fst p) (snd p))) '';'')
      then bindE (parseline n buf (eat buf (snd (backs buf (fst p) (snd p))) '';''))
        (\<lambda>r. Inr (LIST (fst (backs buf (fst p) (snd p))) (fst r), snd r))
      else Inr (fst (backs buf (fst p) (snd p)), snd (peek buf (snd (backs buf (fst p) (snd p))) '';''))) = Inr (c, s')"
    then show ?thesis
      using Suc.IH(1) line_list [OF Suc.IH(2) b, of s] line [OF Suc.IH(2) b, of s] p
      by (auto simp: b bindE_Inr_iff split: if_splits)
  qed
next
  case (Suc n)
  case 2
  from 2 show ?case unfolding parse_Suc
  proof (rule bindE_E)
    fix p assume p: "parseexec n buf s = Inr p"
    assume "(if fst (peek buf (snd p) ''|'')
      then bindE (parsepipe n buf (eat buf (snd p) ''|'')) (\<lambda>r. Inr (PIPE (fst p) (fst r), snd r))
      else Inr (fst p, snd (peek buf (snd p) ''|''))) = Inr (c, s')"
    then show ?thesis
      using Suc.IH(2) pipe_pipe [OF Suc.IH(3), of s "fst p" "snd p"] pipe [OF Suc.IH(3), of s "fst p" "snd p"] p
      by (auto simp: bindE_Inr_iff split: if_splits)
  qed
next
  case (Suc n)
  case 3
  show ?case
  proof (cases "fst (peek buf s ''('')")
    case True
    then show ?thesis using 3 Suc.IH(4) by (simp add: parse_Suc)
  next
    case False
    then obtain rs s1 where "parseredirs buf [] (snd (peek buf s ''('')) = Inr (rs, s1)"
        "exec_words buf [] rs s1 = Inr (c, s')"
      using 3 by (auto simp: parse_Suc bindE_Inr_iff)
    then show ?thesis using words [OF False] by blast
  qed
next
  case (Suc n)
  case 4
  let ?s1 = "snd (peek buf s1 ''('')"
  from 4(1) obtain c1 s2 rs s3 where a: "fst (peek buf s1 ''('')"
    "parseline n buf (after (gettoken buf ?s1)) = Inr (c1, s2)"
    "fst (peek buf s2 '')'')" "parseredirs buf [] (eat buf s2 '')'') = Inr (rs, s3)"
    "c = redirs rs c1" "s' = s3"
    by (fastforce simp: parse_Suc bindE_Inr_iff split: if_splits)
  show ?case unfolding a(5,6)
    by (rule block [OF 4(3) _ _ a(3,4)]) (use a(1) Suc.IH(1) [OF a(2)] 4(2) in simp_all)
qed simp_all

lemma eat_bounds: "s \<le> length buf \<Longrightarrow> s \<le> eat buf s toks \<and> eat buf s toks \<le> length buf"
  using peek_snd [of s buf toks] after_le [of "snd (peek buf s toks)" buf] by auto

lemma eat_less: "fst (peek buf s toks) \<Longrightarrow> s < eat buf s toks"
  using after_less [of buf s toks] by (simp add: peek_def Let_def) (use skip_ge [of s blank buf] in linarith)

lemma derivation_bounds:
  "line buf s c s' \<Longrightarrow> s \<le> length buf \<longrightarrow> s \<le> s' \<and> s' \<le> length buf"
  "pipeline buf s c s' \<Longrightarrow> s \<le> length buf \<longrightarrow> s \<le> s' \<and> s' \<le> length buf"
  "simple buf s c s' \<Longrightarrow> s \<le> length buf \<longrightarrow> s \<le> s' \<and> s' \<le> length buf"
proof (induction rule: line_pipeline_simple.inducts)
  case (line s c s1 c' s2)
  then show ?case using backs_bounds [OF _ line(3)] peek_snd [of s2 buf "'';''"] by auto
next
  case (line_list s c s1 c' s2 c2 s3)
  then show ?case using backs_bounds [OF _ line_list(3)] eat_bounds [of s2 buf "'';''"] by auto
next
  case (pipe s c s1)
  then show ?case using peek_snd [of s1 buf "''|''"] by auto
next
  case (pipe_pipe s c s1 c2 s2)
  then show ?case using eat_bounds [of s1 buf "''|''"] by auto
next
  case (words s rs s1 c s2)
  then show ?case
    using peek_snd [of s buf "''(''"] parseredirs_bounds [OF words(2)] exec_words_bounds [OF words(3)] by auto
next
  case (block s c s2 rs s3)
  then show ?case
    using peek_snd [of s buf "''(''"] eat_bounds [of "snd (peek buf s ''('')" buf "''(''"]
      eat_bounds [of s2 buf "'')''"] parseredirs_bounds [OF block(6)] by auto
qed

section \<open>Words\<close>

definition word_at :: "string \<Rightarrow> span \<Rightarrow> bool" where
  "word_at buf = (\<lambda>(q, eq). q < eq \<and> eq \<le> length buf \<and> (\<forall>i. q \<le> i \<longrightarrow> i < eq \<longrightarrow> word_char (buf ! i)) \<and>
     (eq < length buf \<longrightarrow> \<not> word_char (buf ! eq)))"

lemma gettoken_word:
  assumes "gettoken buf ps = (CHR ''a'', q, s, s')"
  shows "word_at buf (q, s)"
proof -
  have q: "q = skip blank buf ps" using assms by (auto simp: gettoken_def Let_def split: prod.splits)
  have n: "at buf q \<noteq> NUL" "at buf q \<notin> set ''|();&<>''" "s = skip word_char buf q"
    using assms by (auto simp: gettoken_def Let_def q [symmetric] split: prod.splits if_splits)
  note c = at_nonNUL [OF n(1)]
  have "word_char (buf ! q)"
    using skip_stop [of blank buf ps] c n(2) by (auto simp: q word_char_def blank_def symbols_def)
  then show ?thesis
    using c skip_step [of q buf word_char] skip_le [of q buf word_char] skip_all [of q _ word_char buf]
      skip_stop [of word_char buf q]
    by (auto simp: word_at_def n(3))
qed

lemma set_cmd_redirs: "set_cmd (redirs rs c) = set_cmd c \<union> fst ` set rs"
  unfolding redirs_def by (induction rs arbitrary: c) auto

definition redirs_ok :: "string \<Rightarrow> redir list \<Rightarrow> bool" where
  "redirs_ok buf rs \<longleftrightarrow> (\<forall>f \<in> fst ` set rs. word_at buf f)"

definition cmd_ok :: "string \<Rightarrow> span cmd \<Rightarrow> bool" where
  "cmd_ok buf c \<longleftrightarrow> (\<forall>f \<in> set_cmd c. word_at buf f)"

lemma redirs_ok_simps [simp]:
  "redirs_ok buf []"
  "word_at buf f \<Longrightarrow> redirs_ok buf (rs @ redir_of tok f) = redirs_ok buf rs"
  by (auto simp: redirs_ok_def redir_of_def)

lemma cmd_ok_simps [simp]:
  "cmd_ok buf (redirs rs c) \<longleftrightarrow> cmd_ok buf c \<and> redirs_ok buf rs"
  "cmd_ok buf (EXEC []) = True"
  "cmd_ok buf (EXEC (ws @ [f])) \<longleftrightarrow> cmd_ok buf (EXEC ws) \<and> word_at buf f"
  "cmd_ok buf (PIPE c d) \<longleftrightarrow> cmd_ok buf c \<and> cmd_ok buf d"
  "cmd_ok buf (LIST c d) \<longleftrightarrow> cmd_ok buf c \<and> cmd_ok buf d"
  "cmd_ok buf (BACK c) = cmd_ok buf c"
  unfolding cmd_ok_def redirs_ok_def set_cmd_redirs by (auto simp: ball_Un)

lemma parseredirs_words: "parseredirs buf rs s = Inr (rs', s') \<Longrightarrow> redirs_ok buf rs \<longrightarrow> redirs_ok buf rs'"
  by (induction rule: parseredirs_induct) (simp_all add: gettoken_word)

lemma backs_words: "cmd_ok buf (fst (backs buf c s)) = cmd_ok buf c"
  by (induction buf c s rule: backs.induct) (subst backs.simps, simp)

lemma exec_words_words:
  "exec_words buf argv rs s = Inr (c, s') \<Longrightarrow> redirs_ok buf rs \<longrightarrow> cmd_ok buf (EXEC argv) \<longrightarrow> cmd_ok buf c"
proof (induction rule: exec_words_induct)
  case (step argv rs s q eq s2 rs' s3 c s')
  show ?case using step(4) gettoken_word [OF step(1)] parseredirs_words [OF step(2)] by simp
qed simp_all

lemma derivation_words:
  "line buf s c s' \<Longrightarrow> cmd_ok buf c"
  "pipeline buf s c s' \<Longrightarrow> cmd_ok buf c"
  "simple buf s c s' \<Longrightarrow> cmd_ok buf c"
proof (induction rule: line_pipeline_simple.inducts)
  case (line s c s1 c' s2)
  then show ?case using backs_words [of buf c s1] by simp
next
  case (line_list s c s1 c' s2 c2 s3)
  then show ?case using backs_words [of buf c s1] by simp
next
  case (words s rs s1 c s2)
  then show ?case using parseredirs_words [OF words(2)] exec_words_words [OF words(3)] by simp
next
  case (block s c s2 rs s3)
  then show ?case using parseredirs_words [OF block(6)] by simp
qed simp_all

text \<open>What \<open>nulterminate\<close> does to the line.\<close>

definition cuts :: "span cmd \<Rightarrow> nat set" where "cuts c = snd ` set_cmd c"

lemma cuts_simps [simp]:
  "cuts (EXEC ws) = set (map snd ws)"
  "cuts (REDIR c f mode fd) = insert (snd f) (cuts c)"
  "cuts (PIPE c d) = cuts c \<union> cuts d"
  "cuts (LIST c d) = cuts c \<union> cuts d"
  "cuts (BACK c) = cuts c"
  by (auto simp: cuts_def)

lemma nulterminate_nth:
  "length (nulterminate c buf) = length buf \<and>
    (\<forall>i < length buf. nulterminate c buf ! i = (if i \<in> cuts c then NUL else buf ! i))"
proof (induction c arbitrary: buf)
  case (EXEC ws)
  have "length (fold (\<lambda>(q, eq) b. b[eq := NUL]) ws buf) = length buf \<and>
    (\<forall>i < length buf. fold (\<lambda>(q, eq) b. b[eq := NUL]) ws buf ! i = (if i \<in> set (map snd ws) then NUL else buf ! i))"
  proof (induction ws arbitrary: buf)
    case (Cons f ws)
    show ?case using Cons [of "buf[snd f := NUL]"] 
      by (cases "snd f < length buf") (simp_all add: split_def nth_list_update list_update_beyond del: set_map)
  qed simp
  then show ?case by (simp del: set_map)
next
  case (REDIR c f mode fd)
  then show ?case by (cases "snd f < length buf") (simp_all add: nth_list_update list_update_beyond)
qed simp_all

lemma cstr_cut:
  assumes "q \<le> eq" "eq \<le> length b" "\<And>i. q \<le> i \<Longrightarrow> i < eq \<Longrightarrow> b ! i \<noteq> NUL" "eq < length b \<Longrightarrow> b ! eq = NUL"
  shows "cstr b q = take (eq - q) (drop q b)"
proof -
  have "drop q b = take (eq - q) (drop q b) @ drop eq b"
    using assms(1) append_take_drop_id [of "eq - q" "drop q b"] by simp
  moreover have "takeWhile (\<lambda>x. x \<noteq> NUL) (take (eq - q) (drop q b) @ drop eq b) =
      take (eq - q) (drop q b) @ takeWhile (\<lambda>x. x \<noteq> NUL) (drop eq b)"
    by (rule takeWhile_append2) (use assms in \<open>auto simp: in_set_conv_nth\<close>)
  moreover have "takeWhile (\<lambda>x. x \<noteq> NUL) (drop eq b) = []"
    using assms(2,4) by (cases "eq < length b") (auto simp: Cons_nth_drop_Suc [symmetric])
  ultimately show ?thesis unfolding cstr_def by simp
qed

text \<open>C28: A command parsed from a line is made of maximal words of the line, and after \<open>nulterminate\<close> has
  overwritten the characters behind all of them, each \<open>argv\<close> or file pointer is a C string with
  exactly its word: no cut falls into another word.\<close>

theorem words_survive_nulterminate:
  assumes "parsecmd n buf = Inr (c, buf')" and "NUL \<notin> set buf" and "(q, eq) \<in> set_cmd c"
  shows "cstr buf' q = take (eq - q) (drop q buf) \<and> cstr buf' q \<noteq> [] \<and>
    (\<forall>x \<in> set (cstr buf' q). word_char x) \<and> (eq < length buf \<longrightarrow> \<not> word_char (buf ! eq))"
proof -
  obtain s where s: "parseline n buf 0 = Inr (c, s)" and b: "buf' = nulterminate c buf"
    using assms(1) by (auto simp: parsecmd_def bindE_Inr_iff split: if_splits)
  have ok: "cmd_ok buf c" using derivation_words(1) [OF parse_sound(1) [OF s]] .
  then have w: "q < eq" "eq \<le> length buf" "\<And>i. q \<le> i \<Longrightarrow> i < eq \<Longrightarrow> word_char (buf ! i)"
    "eq < length buf \<Longrightarrow> \<not> word_char (buf ! eq)"
    using assms(3) by (auto simp: cmd_ok_def word_at_def)
  have cut: "i \<notin> cuts c" if "q \<le> i" "i < eq" for i
  proof
    assume "i \<in> cuts c"
    then obtain f where f: "f \<in> set_cmd c" "snd f = i" by (auto simp: cuts_def)
    then have "i < length buf \<longrightarrow> \<not> word_char (buf ! i)"
      using ok by (auto simp: cmd_ok_def word_at_def split_def)
    then show False using w that by auto
  qed
  note nt = nulterminate_nth [of c buf, folded b]
  have same: "buf' ! i = buf ! i" if "q \<le> i" "i < eq" for i using nt cut [OF that] that w by auto
  then have sl: "take (eq - q) (drop q buf') = take (eq - q) (drop q buf)"
    using nt w by (intro nth_equalityI) auto
  have "eq \<in> cuts c" using assms(3) by (force simp: cuts_def)
  then have "cstr buf' q = take (eq - q) (drop q buf')"
    using nt w same assms(2) by (intro cstr_cut) (auto simp: in_set_conv_nth)
  then show ?thesis using w nt by (auto simp: sl in_set_conv_nth)
qed

theorem words_survive_nulterminate_witness:
  "\<exists>c b. parsecmd 8 ''ls>f'' = Inr (c, b) \<and> cstr b 0 = take 2 ''ls>f'' \<and> cstr b 3 = take 1 (drop 3 ''ls>f'')"
proof -
  define l where "l = ''ls>f''"
  define b where "b = [CHR ''l'', CHR ''s'', NUL, CHR ''f'']"
  have p: "parsecmd 8 l = Inr (REDIR (EXEC [(0, 2)]) (3, 4) WRONLY_CREATE 1, b)"
    unfolding l_def b_def by code_simp
  have n: "NUL \<notin> set l" unfolding l_def by simp
  have "cstr b 0 = take (2 - 0) (drop 0 l)"
    by (rule words_survive_nulterminate [OF p n, THEN conjunct1]) simp
  moreover have "cstr b 3 = take (4 - 3) (drop 3 l)"
    by (rule words_survive_nulterminate [OF p n, THEN conjunct1]) simp
  ultimately show ?thesis unfolding l_def [symmetric] using p by auto
qed

section \<open>Termination\<close>

text \<open>More fuel does not change a result.\<close>

definition settles :: "(nat \<Rightarrow> 'a result) \<Rightarrow> nat \<Rightarrow> bool" where
  "settles f n \<longleftrightarrow> (\<exists>r. r \<noteq> Inl NoFuel \<and> (\<forall>m \<ge> n. f m = r))"

lemma settles_bind:
  assumes "settles f n" and "\<And>x. f n = Inr x \<Longrightarrow> settles (\<lambda>k. g k x) n"
  shows "settles (\<lambda>k. bindE (f k) (g k)) n"
proof -
  obtain r where r: "r \<noteq> Inl NoFuel" "\<And>m. n \<le> m \<Longrightarrow> f m = r" using assms(1) by (auto simp: settles_def)
  show ?thesis
  proof (cases r)
    case (Inl e)
    then show ?thesis using r by (auto simp: settles_def intro!: exI [of _ r])
  next
    case (Inr x)
    then obtain r' where "r' \<noteq> Inl NoFuel" "\<And>m. n \<le> m \<Longrightarrow> g m x = r'"
      using assms(2) [of x] r by (auto simp: settles_def)
    then show ?thesis using r Inr by (auto simp: settles_def intro!: exI [of _ r'])
  qed
qed

lemma settles_if: "(b \<Longrightarrow> settles f n) \<Longrightarrow> (\<not> b \<Longrightarrow> settles g n) \<Longrightarrow> settles (\<lambda>k. if b then f k else g k) n"
  by (cases b) simp_all

lemma settles_const: "r \<noteq> Inl NoFuel \<Longrightarrow> settles (\<lambda>k. r) n"
  by (auto simp: settles_def)

lemma settles_Suc: "settles (\<lambda>k. f (Suc k)) n \<Longrightarrow> settles f (Suc n)"
  unfolding settles_def by (metis Suc_le_D Suc_le_mono)

lemma exec_words_total: "exec_words buf argv rs s \<noteq> Inl NoFuel"
proof (induction "MAXARGS - length argv" arbitrary: argv rs s rule: less_induct)
  case less
  obtain tok q eq s2 where g: "gettoken buf (snd (peek buf s ''|)&;'')) = (tok, q, eq, s2)" by (metis prod_cases4)
  show ?case unfolding exec_words_step [OF g]
    using less.hyps parseredirs_total by (auto simp: bindE_Inl_iff)
qed

lemma parse_settles:
  "s \<le> length buf \<Longrightarrow> 4 * (length buf - s) + 4 \<le> n \<Longrightarrow> settles (\<lambda>n. parseline n buf s) n"
  "s \<le> length buf \<Longrightarrow> 4 * (length buf - s) + 3 \<le> n \<Longrightarrow> settles (\<lambda>n. parsepipe n buf s) n"
  "s \<le> length buf \<Longrightarrow> 4 * (length buf - s) + 2 \<le> n \<Longrightarrow> settles (\<lambda>n. parseexec n buf s) n"
  "s \<le> length buf \<Longrightarrow> 4 * (length buf - s) + 1 \<le> n \<Longrightarrow> settles (\<lambda>n. parseblock n buf s) n"
proof (induction n arbitrary: s)
  case (Suc n)
  case 1
  show ?case unfolding parse_Suc
  proof (rule settles_Suc, unfold parse_Suc, rule settles_bind)
    show "settles (\<lambda>n. parsepipe n buf s) n" using Suc.IH(2) 1 by simp
    fix p assume p: "parsepipe n buf s = Inr p"
    have b: "s \<le> snd p \<and> snd p \<le> length buf"
      using derivation_bounds(2) [OF parse_sound(2), of n buf s "fst p" "snd p"] p 1 by simp
    let ?s2 = "snd (backs buf (fst p) (snd p))"
    have s2: "s \<le> ?s2" "?s2 \<le> length buf" using backs_bounds [of "snd p" buf "fst p" "fst (backs buf (fst p) (snd p))" ?s2] b by auto
    have "settles (\<lambda>n. parseline n buf (eat buf ?s2 '';'')) n" if "fst (peek buf ?s2 '';'')"
      using Suc.IH(1) [of "eat buf ?s2 '';''"] eat_less [OF that] eat_bounds [OF s2(2), of "'';''"] s2 1 by auto
    then show "settles (\<lambda>n. if fst (peek buf ?s2 '';'')
        then bindE (parseline n buf (eat buf ?s2 '';'')) (\<lambda>r. Inr (LIST (fst (backs buf (fst p) (snd p))) (fst r), snd r))
        else Inr (fst (backs buf (fst p) (snd p)), snd (peek buf ?s2 '';''))) n"
      by (intro settles_if settles_bind settles_const) simp_all
  qed
next
  case (Suc n)
  case 2
  show ?case
  proof (rule settles_Suc, unfold parse_Suc, rule settles_bind)
    show "settles (\<lambda>n. parseexec n buf s) n" using Suc.IH(3) 2 by simp
    fix p assume p: "parseexec n buf s = Inr p"
    have b: "s \<le> snd p \<and> snd p \<le> length buf"
      using derivation_bounds(3) [OF parse_sound(3), of n buf s "fst p" "snd p"] p 2 by simp
    have "settles (\<lambda>n. parsepipe n buf (eat buf (snd p) ''|'')) n" if "fst (peek buf (snd p) ''|'')"
      using Suc.IH(2) [of "eat buf (snd p) ''|''"] eat_less [OF that] eat_bounds [of "snd p" buf "''|''"] b 2 by auto
    then show "settles (\<lambda>n. if fst (peek buf (snd p) ''|'')
        then bindE (parsepipe n buf (eat buf (snd p) ''|'')) (\<lambda>r. Inr (PIPE (fst p) (fst r), snd r))
        else Inr (fst p, snd (peek buf (snd p) ''|''))) n"
      by (intro settles_if settles_bind settles_const) simp_all
  qed
next
  case (Suc n)
  case 3
  have "settles (\<lambda>n. parseblock n buf (snd (peek buf s ''(''))) n"
    using Suc.IH(4) [of "snd (peek buf s ''('')"] peek_snd [OF 3(1), of "''(''"] 3 by auto
  moreover have "settles (\<lambda>n. bindE (parseredirs buf [] (snd (peek buf s ''(''))) (\<lambda>r. exec_words buf [] (fst r) (snd r))) n"
    by (rule settles_const) (auto simp: bindE_Inl_iff parseredirs_total exec_words_total)
  ultimately show ?case
    by (intro settles_Suc, unfold parse_Suc, intro settles_if)
next
  case (Suc n)
  case 4
  show ?case
  proof (cases "fst (peek buf s ''('')")
    case True
    have "settles (\<lambda>n. parseline n buf (eat buf s ''('')) n"
      using Suc.IH(1) [of "eat buf s ''(''"] eat_less [OF True] eat_bounds [OF 4(1), of "''(''"] 4 by auto
    then have "settles (\<lambda>n. bindE (parseline n buf (eat buf s ''('')) (\<lambda>p.
       if \<not> fst (peek buf (snd p) '')'') then Inl (Panic ''syntax - missing )'')
       else bindE (parseredirs buf [] (eat buf (snd p) '')'')) (\<lambda>r. Inr (redirs (fst r) (fst p), snd r)))) n"
      by (rule settles_bind) (auto intro!: settles_const simp: bindE_Inl_iff parseredirs_total)
    then show ?thesis by (intro settles_Suc) (simp add: parse_Suc True)
  next
    case False
    then show ?thesis by (intro settles_Suc) (simp add: parse_Suc settles_const)
  qed
qed simp_all

text \<open>C27: The parser ends on every line: with a fuel of four steps per character it never runs out,
  so it returns a command or stops with an error message, and more fuel gives the same result.\<close>

theorem parsecmd_terminates:
  assumes "4 * length buf + 4 \<le> n"
  shows "parsecmd n buf \<noteq> Inl NoFuel \<and> (\<forall>m \<ge> n. parsecmd m buf = parsecmd n buf)"
proof -
  have "settles (\<lambda>n. parseline n buf 0) n" by (rule parse_settles(1)) (use assms in simp_all)
  then have "settles (\<lambda>n. parsecmd n buf) n"
    unfolding parsecmd_def by (rule settles_bind) (auto intro: settles_const)
  then obtain r where "r \<noteq> Inl NoFuel" "\<And>m. n \<le> m \<Longrightarrow> parsecmd m buf = r" by (auto simp: settles_def)
  then show ?thesis by simp
qed

theorem parsecmd_terminates_witness: "parsecmd 16 ''(;)'' \<noteq> Inl NoFuel"
  by (rule parsecmd_terminates [THEN conjunct1]) simp

end
