(* ===== verification/Sh_Run.thy ===== *)
theory Sh_Run
  imports Sh_Spec Proctable
begin

text \<open>
  What the programs that a command runs see: the shell's language read as a description of which program
  runs with which files as its descriptors 0, 1 and 2, and \<open>runcmd\<close> with its closes, dups and pipes as an
  implementation of it.
\<close>

section \<open>Descriptors\<close>

text \<open>What a descriptor stands for; pipes are numbered in the order in which they are made.\<close>

datatype stream = Terminal nat | OnDisk string int | ReadEnd nat | WriteEnd nat

type_synonym fdtab = "nat \<Rightarrow> stream option"

text \<open>The kernel gives out the lowest free descriptor.\<close>

definition lowest :: "fdtab \<Rightarrow> nat option" where
  "lowest t = find (\<lambda>fd. t fd = None) [0..<NOFILE]"

definition put_fd :: "stream \<Rightarrow> fdtab \<Rightarrow> fdtab" where
  "put_fd x t = (case lowest t of None \<Rightarrow> t | Some fd \<Rightarrow> t(fd \<mapsto> x))"

text \<open>The programs that a process and the children it forks execute when every call succeeds, with the
  descriptors they start with.\<close>

primrec runs :: "prog \<Rightarrow> fdtab \<Rightarrow> nat \<Rightarrow> (string list \<times> fdtab) list \<times> nat" where
  "runs Exit t n = ([], n)"
| "runs (Exec f args p) t n = ([(args, t)], n)"
| "runs (Print s p) t n = runs p t n"
| "runs (Close fd p) t n = runs p (t(fd := None)) n"
| "runs (Open f mode k) t n =
     runs (k (case lowest t of None \<Rightarrow> - 1 | Some fd \<Rightarrow> int fd)) (put_fd (OnDisk f mode) t) n"
| "runs (Dup fd p) t n = runs p (case t fd of None \<Rightarrow> t | Some x \<Rightarrow> put_fd x t) n"
| "runs (Pipe k) t n =
     (case (lowest t, lowest (put_fd (ReadEnd n) t)) of
        (Some r, Some w) \<Rightarrow> runs (k (Some (r, w))) (put_fd (WriteEnd n) (put_fd (ReadEnd n) t)) (n + 1)
      | _ \<Rightarrow> runs (k None) t n)"
| "runs (Fork failed child p) t n =
     (let (xs, n1) = runs child t n; (ys, n2) = runs p t n1 in (xs @ ys, n2))"
| "runs (Wait p) t n = runs p t n"
| "runs (Chdir d k) t n = runs (k 0) t n"

section \<open>The meaning of a command\<close>

fun meaning :: "stream \<Rightarrow> stream \<Rightarrow> nat \<Rightarrow> string cmd \<Rightarrow> (string list \<times> stream \<times> stream) list \<times> nat" where
  "meaning i out n (EXEC ws) = (if ws = [] then [] else [(ws, i, out)], n)"
| "meaning i out n (REDIR c f mode fd) =
     (if fd = 0 then meaning (OnDisk f mode) out n c else meaning i (OnDisk f mode) n c)"
| "meaning i out n (PIPE l r) =
     (let (xs, n1) = meaning i (WriteEnd n) (n + 1) l; (ys, n2) = meaning (ReadEnd n) out n1 r in (xs @ ys, n2))"
| "meaning i out n (LIST l r) =
     (let (xs, n1) = meaning i out n l; (ys, n2) = meaning i out n1 r in (xs @ ys, n2))"
| "meaning i out n (BACK c) = meaning i out n c"

text \<open>Descriptors 0, 1 and 2 open and no other.\<close>

definition std :: "stream \<Rightarrow> stream \<Rightarrow> stream \<Rightarrow> fdtab" where
  "std i out e = [0 \<mapsto> i, 1 \<mapsto> out, 2 \<mapsto> e]"

lemma lowest_eq: "fd < NOFILE \<Longrightarrow> t fd = None \<Longrightarrow> (\<And>j. j < fd \<Longrightarrow> t j \<noteq> None) \<Longrightarrow> lowest t = Some fd"
  unfolding lowest_def find_Some_iff by (intro exI [of _ fd]) simp

lemma less_num: "j < (1::nat) \<longleftrightarrow> j = 0" "j < (3::nat) \<longleftrightarrow> j = 0 \<or> j = 1 \<or> j = 2" "j < (4::nat) \<longleftrightarrow> j = 0 \<or> j = 1 \<or> j = 2 \<or> j = 3"
  by auto

lemma lowest_std [simp]:
  "lowest ((std i out e)(0 := None)) = Some 0"
  "lowest ((std i out e)(Suc 0 := None)) = Some 1"
  "lowest (std i out e) = Some 3"
  "lowest ((std i out e)(3 \<mapsto> x)) = Some 4"
  "lowest ((std i out e)(3 \<mapsto> x, 4 \<mapsto> y, Suc 0 := None)) = Some 1"
  "lowest ((std i out e)(3 \<mapsto> x, 4 \<mapsto> y, 0 := None)) = Some 0"
  by (rule lowest_eq; auto simp: std_def NOFILE_def less_num)+

text \<open>What the structures in memory rely on: an argument list has room for the null pointer behind it, and a
  redirection opens a file for reading as descriptor 0 or for writing as descriptor 1.\<close>

definition redir_typed :: "int \<Rightarrow> nat \<Rightarrow> bool" where
  "redir_typed mode fd \<longleftrightarrow> fd = 0 \<and> mode = RDONLY \<or> fd = 1 \<and> mode = WRONLY_CREATE"

fun well_typed :: "'w cmd \<Rightarrow> bool" where
  "well_typed (EXEC ws) \<longleftrightarrow> length ws < MAXARGS"
| "well_typed (REDIR c f mode fd) \<longleftrightarrow> redir_typed mode fd \<and> well_typed c"
| "well_typed (PIPE l r) \<longleftrightarrow> well_typed l \<and> well_typed r"
| "well_typed (LIST l r) \<longleftrightarrow> well_typed l \<and> well_typed r"
| "well_typed (BACK c) = well_typed c"

definition list_typed :: "redir list \<Rightarrow> bool" where
  "list_typed rs \<longleftrightarrow> (\<forall>r \<in> set rs. redir_typed (fst (snd r)) (snd (snd r)))"

lemma list_typed_simps [simp]: "list_typed []" "list_typed (rs @ redir_of tok f) = list_typed rs"
  by (auto simp: list_typed_def redir_of_def redir_typed_def)

lemma well_typed_redirs [simp]: "well_typed (redirs rs c) \<longleftrightarrow> well_typed c \<and> list_typed rs"
  unfolding redirs_def list_typed_def by (induction rs arbitrary: c) auto

lemma parseredirs_typed: "parseredirs buf rs s = Inr (rs', s') \<Longrightarrow> list_typed rs \<longrightarrow> list_typed rs'"
  by (induction rule: parseredirs_induct) simp_all

lemma backs_typed: "well_typed (fst (backs buf c s)) = well_typed c"
  by (induction buf c s rule: backs.induct) (subst backs.simps, simp)

lemma exec_words_typed: "exec_words buf argv rs s = Inr (c, s') \<Longrightarrow> list_typed rs \<longrightarrow> length argv < MAXARGS \<longrightarrow> well_typed c"
proof (induction rule: exec_words_induct)
  case (step argv rs s q eq s2 rs' s3 c s')
  show ?case using step(3,4) parseredirs_typed [OF step(2)] by simp
qed simp_all

lemma derivation_typed:
  "line buf s c s' \<Longrightarrow> well_typed c"
  "pipeline buf s c s' \<Longrightarrow> well_typed c"
  "simple buf s c s' \<Longrightarrow> well_typed c"
proof (induction rule: line_pipeline_simple.inducts)
  case (line s c s1 c' s2)
  then show ?case using backs_typed [of buf c s1] by simp
next
  case (line_list s c s1 c' s2 c2 s3)
  then show ?case using backs_typed [of buf c s1] by simp
next
  case (words s rs s1 c s2)
  then show ?case using parseredirs_typed [OF words(2)] exec_words_typed [OF words(3)] by (simp add: MAXARGS_def)
next
  case (block s c s2 rs s3)
  then show ?case using parseredirs_typed [OF block(6)] by simp
qed simp_all

lemma parsed_typed: "parsecmd fuel buf = Inr (c, buf') \<Longrightarrow> well_typed c"
proof -
  assume "parsecmd fuel buf = Inr (c, buf')"
  then obtain s where "parseline fuel buf 0 = Inr (c, s)"
    by (auto simp: parsecmd_def bindE_Inr_iff split: if_splits)
  then show ?thesis by (rule derivation_typed(1) [OF parse_sound(1)])
qed

text \<open>C38: Every command that the parser builds is well typed: each argument list leaves room for the final null
  pointer in its ten entries, and the redirections are those that \<open>runcmd\<close> expects.\<close>

theorem parsecmd_well_typed:
  assumes "parsecmd fuel buf = Inr (c, buf')"
  shows "well_typed c"
  by (rule parsed_typed [OF assms])

theorem parsecmd_well_typed_witness:
  "\<exists>b. parsecmd 8 ''ls>f'' = Inr (REDIR (EXEC [(0, 2)]) (3, 4) WRONLY_CREATE 1, b) \<and>
     well_typed (REDIR (EXEC [(0, 2)]) (3 :: nat, 4 :: nat) WRONLY_CREATE 1)"
proof -
  have p: "parsecmd 8 ''ls>f'' = Inr (REDIR (EXEC [(0, 2)]) (3, 4) WRONLY_CREATE 1, [CHR ''l'', CHR ''s'', NUL, CHR ''f''])"
    by code_simp
  show ?thesis using parsecmd_well_typed [OF p] p by blast
qed

section \<open>The shell runs the command\<close>

abbreviation started :: "stream \<Rightarrow> string list \<times> stream \<times> stream \<Rightarrow> string list \<times> fdtab" where
  "started e \<equiv> \<lambda>(ws, i, out). (ws, std i out e)"

abbreviation word_of :: "string \<Rightarrow> span \<Rightarrow> string" where
  "word_of buf \<equiv> \<lambda>(q, eq). cstr buf q"

lemma std_updates:
  "put_fd x ((std i out e)(0 := None)) = std x out e"
  "put_fd x ((std i out e)(Suc 0 := None)) = std i x e"
  "put_fd (WriteEnd n) (put_fd (ReadEnd n) (std i out e)) = (std i out e)(3 \<mapsto> ReadEnd n, 4 \<mapsto> WriteEnd n)"
  "lowest (put_fd x (std i out e)) = Some 4"
  "(put_fd (WriteEnd n) ((std i out e)(3 \<mapsto> ReadEnd n, 4 \<mapsto> WriteEnd n, Suc 0 := None)))(3 := None, 4 := None)
     = std i (WriteEnd n) e"
  "(put_fd (ReadEnd n) ((std i out e)(3 \<mapsto> ReadEnd n, 4 \<mapsto> WriteEnd n, 0 := None)))(3 := None, 4 := None)
     = std (ReadEnd n) out e"
  by (simp_all add: put_fd_def) (auto simp: std_def fun_eq_iff)

lemma runcmd_runs:
  "well_typed c \<Longrightarrow> runs (runcmd buf c) (std i out e) n =
    (let (xs, n') = meaning i out n (map_cmd (word_of buf) c) in (map (started e) xs, n'))"
proof (induction c arbitrary: i out n)
  case (EXEC ws)
  then show ?case by (cases ws) (auto simp: split_def)
next
  case (REDIR c f mode fd)
  then have "fd = 0 \<or> fd = 1" by (auto simp: redir_typed_def)
  then show ?case using REDIR by (auto simp: std_updates split_def)
next
  case (PIPE l r)
  then show ?case
    by (simp add: fork1_def std_updates split_def Let_def)
next
  case (LIST l r)
  then show ?case by (simp add: fork1_def split_def Let_def)
next
  case (BACK c)
  then show ?case by (simp add: fork1_def split_def Let_def)
qed

text \<open>C30: A parsed command runs exactly the programs that the language says, in order, each with
  descriptors 0, 1 and 2 on the files and pipe ends it names and with no other descriptor open: no pipe
  end leaks into a program, so its reader sees the end of the stream.\<close>

theorem shell_runs_command:
  assumes "parsecmd fuel buf = Inr (c, buf')"
  shows "fst (runs (runcmd buf' c) (std i out e) n) =
    map (\<lambda>(ws, i', out'). (ws, std i' out' e)) (fst (meaning i out n (map_cmd (\<lambda>(q, eq). cstr buf' q) c)))"
proof -
  have "well_typed c" by (rule parsed_typed [OF assms])
  then show ?thesis by (simp add: runcmd_runs split_def Let_def)
qed

theorem shell_runs_command_witness:
  "\<exists>c b. parsecmd 8 ''ls>f'' = Inr (c, b) \<and>
     fst (runs (runcmd b c) (std (Terminal 0) (Terminal 1) (Terminal 2)) 0) =
       [([''ls''], std (Terminal 0) (OnDisk ''f'' WRONLY_CREATE) (Terminal 2))]"
proof -
  define b where "b = [CHR ''l'', CHR ''s'', NUL, CHR ''f'']"
  have p: "parsecmd 8 ''ls>f'' = Inr (REDIR (EXEC [(0, 2)]) (3, 4) WRONLY_CREATE 1, b)"
    unfolding b_def by code_simp
  have "cstr b 0 = ''ls''" "cstr b 3 = ''f''" by (simp_all add: b_def cstr_def)
  then show ?thesis
    using shell_runs_command [OF p, of "Terminal 0" "Terminal 1" "Terminal 2" 0] p by auto
qed

end
