(* ===== verification/Sh_Print.thy ===== *)
theory Sh_Print
  imports Sh_Spec
begin

text \<open>
  A printer for the commands of the shell, and the proof that the parser reads back what it prints.
\<close>

section \<open>The printer\<close>

fun print :: "string cmd \<Rightarrow> string" where
  "print (EXEC ws) = concat (map (\<lambda>w. w @ '' '') ws)"
| "print (REDIR c f mode fd) = ''('' @ print c @ '')'' @ (if fd = 0 then ''<'' else ''>'') @ f"
| "print (PIPE l r) = ''('' @ print l @ '')|('' @ print r @ '')''"
| "print (LIST l r) = ''('' @ print l @ '');('' @ print r @ '')''"
| "print (BACK c) = ''('' @ print c @ '')&''"

definition is_word :: "string \<Rightarrow> bool" where
  "is_word w \<longleftrightarrow> w \<noteq> [] \<and> (\<forall>c \<in> set w. word_char c \<and> c \<noteq> NUL)"

fun printable :: "string cmd \<Rightarrow> bool" where
  "printable (EXEC ws) \<longleftrightarrow> length ws < MAXARGS \<and> (\<forall>w \<in> set ws. is_word w)"
| "printable (REDIR c f mode fd) \<longleftrightarrow> printable c \<and> is_word f \<and>
     (fd = 0 \<and> mode = RDONLY \<or> fd = 1 \<and> mode = WRONLY_CREATE)"
| "printable (PIPE l r) \<longleftrightarrow> printable l \<and> printable r"
| "printable (LIST l r) \<longleftrightarrow> printable l \<and> printable r"
| "printable (BACK c) \<longleftrightarrow> printable c"

section \<open>Reading a printed text\<close>

text \<open>What is left of the line at a position.\<close>

lemma at_drop: "drop s buf = x # xs \<Longrightarrow> at buf s = x \<and> s < length buf \<and> drop (s + 1) buf = xs"
  by (auto simp: at_def nth_via_drop drop_Suc [symmetric] tl_drop [symmetric] simp flip: drop_Suc)
     (metis drop_all length_greater_0_conv linorder_not_less list.distinct(1) list.sel(3) tl_drop drop_Suc)+

lemma at_end: "drop s buf = [] \<Longrightarrow> at buf s = NUL"
  by (simp add: at_def)

lemma skip_none: "drop s buf = [] \<or> \<not> P (hd (drop s buf)) \<Longrightarrow> skip P buf s = s"
  by (subst skip.simps) (auto simp: hd_drop_conv_nth)

lemma skip_word:
  "drop s buf = w @ rest \<Longrightarrow> \<forall>c \<in> set w. P c \<Longrightarrow> rest = [] \<or> \<not> P (hd rest) \<Longrightarrow> skip P buf s = s + length w"
proof (induction w arbitrary: s)
  case Nil
  then show ?case using skip_none [of s buf P] by simp
next
  case (Cons c w)
  then have "at buf s = c" "s < length buf" "drop (s + 1) buf = w @ rest"
    using at_drop [of s buf c "w @ rest"] by auto
  then show ?case using Cons by (subst skip.simps) (auto simp: at_def)
qed

definition solid :: "string \<Rightarrow> bool" where
  "solid xs \<longleftrightarrow> xs = [] \<or> \<not> blank (hd xs) \<and> hd xs \<noteq> NUL"

definition closed :: "string \<Rightarrow> bool" where
  "closed xs \<longleftrightarrow> xs = [] \<or> hd xs = CHR '')''"

lemma closed_solid: "closed xs \<Longrightarrow> solid xs"
  by (auto simp: closed_def solid_def blank_def whitespace_def)

lemma peek_solid:
  assumes "solid (drop s buf)"
  shows "peek buf s toks = (drop s buf \<noteq> [] \<and> hd (drop s buf) \<in> set toks, s)"
proof -
  have "skip blank buf s = s" by (rule skip_none) (use assms in \<open>auto simp: solid_def\<close>)
  moreover have "at buf s = (if drop s buf = [] then NUL else hd (drop s buf))"
    by (auto simp: at_def hd_drop_conv_nth)
  ultimately show ?thesis using assms by (auto simp: peek_def Let_def solid_def)
qed

lemma gettoken_symbol:
  assumes "drop s buf = x # xs" and "x \<in> set ''|();&<>''" and "solid xs" and "x = CHR ''>'' \<longrightarrow> xs = [] \<or> hd xs \<noteq> CHR ''>''"
  shows "gettoken buf s = (x, s, s + 1, s + 1)"
proof -
  have a: "at buf s = x" "s < length buf" "drop (s + 1) buf = xs" using at_drop [OF assms(1)] by auto
  have "skip blank buf s = s"
    by (rule skip_none) (use assms(1,2) in \<open>auto simp: blank_def whitespace_def\<close>)
  moreover have "skip blank buf (s + 1) = s + 1"
    by (rule skip_none, unfold a(3)) (use assms(3) in \<open>auto simp: solid_def\<close>)
  moreover have "x = CHR ''>'' \<longrightarrow> at buf (s + 1) \<noteq> CHR ''>''"
    using assms(4) a by (cases xs) (auto simp: at_end dest: at_drop)
  ultimately show ?thesis using assms(2) a(1) by (auto simp: gettoken_def Let_def)
qed

lemma gettoken_is_word:
  assumes "drop s buf = w @ rest" and "is_word w" and "rest = [] \<or> \<not> word_char (hd rest)"
  shows "gettoken buf s = (CHR ''a'', s, s + length w, skip blank buf (s + length w))"
proof -
  obtain c w' where w: "w = c # w'" using assms(2) by (cases w) (auto simp: is_word_def)
  have c: "word_char c" "c \<noteq> NUL" using assms(2) by (auto simp: w is_word_def)
  have a: "at buf s = c" using at_drop [of s buf c "w' @ rest"] assms(1) by (simp add: w)
  have "skip blank buf s = s"
    by (rule skip_none) (use assms(1) c in \<open>auto simp: w blank_def word_char_def\<close>)
  moreover have "skip word_char buf s = s + length w"
    by (rule skip_word [OF assms(1)]) (use assms in \<open>auto simp: is_word_def\<close>)
  moreover have "c \<notin> set ''|();&<>''" using c(1) by (auto simp: word_char_def symbols_def)
  ultimately show ?thesis using a c(2) by (auto simp: gettoken_def Let_def)
qed

lemma after_gettoken_symbol:
  "drop s buf = x # xs \<Longrightarrow> x \<in> set ''|();&<>'' \<Longrightarrow> solid xs \<Longrightarrow>
    x = CHR ''>'' \<longrightarrow> xs = [] \<or> hd xs \<noteq> CHR ''>'' \<Longrightarrow> after (gettoken buf s) = s + 1"
  by (simp add: gettoken_symbol)

lemma parseredirs_none:
  "solid (drop s buf) \<Longrightarrow> drop s buf = [] \<or> hd (drop s buf) \<notin> set ''<>'' \<Longrightarrow> parseredirs buf rs s = Inr (rs, s)"
  using parseredirs_stop [of buf s rs] by (auto simp: peek_solid)

section \<open>Every derivation is found\<close>

lemma parse_complete:
  "line buf s c s' \<Longrightarrow> \<exists>N. \<forall>n \<ge> N. parseline n buf s = Inr (c, s')"
  "pipeline buf s c s' \<Longrightarrow> \<exists>N. \<forall>n \<ge> N. parsepipe n buf s = Inr (c, s')"
  "simple buf s c s' \<Longrightarrow> \<exists>N. \<forall>n \<ge> N. parseexec n buf s = Inr (c, s')"
proof (induction rule: line_pipeline_simple.inducts)
  case (line s c s1 c' s2)
  then obtain N where N: "\<And>n. N \<le> n \<Longrightarrow> parsepipe n buf s = Inr (c, s1)" by blast
  have "parseline n buf s = Inr (c', snd (peek buf s2 '';''))" if "Suc N \<le> n" for n
    using that N line(3,4) by (cases n) (simp_all add: parse_Suc)
  then show ?case by blast
next
  case (line_list s c s1 c' s2 c2 s3)
  then obtain N M where N: "\<And>n. N \<le> n \<Longrightarrow> parsepipe n buf s = Inr (c, s1)"
    "\<And>n. M \<le> n \<Longrightarrow> parseline n buf (eat buf s2 '';'') = Inr (c2, s3)" by blast
  have "parseline n buf s = Inr (LIST c' c2, s3)" if "Suc (max N M) \<le> n" for n
    using that N line_list(3,4) by (cases n) (simp_all add: parse_Suc)
  then show ?case by blast
next
  case (pipe s c s1)
  then obtain N where N: "\<And>n. N \<le> n \<Longrightarrow> parseexec n buf s = Inr (c, s1)" by blast
  have "parsepipe n buf s = Inr (c, snd (peek buf s1 ''|''))" if "Suc N \<le> n" for n
    using that N pipe(3) by (cases n) (simp_all add: parse_Suc)
  then show ?case by blast
next
  case (pipe_pipe s c s1 c2 s2)
  then obtain N M where N: "\<And>n. N \<le> n \<Longrightarrow> parseexec n buf s = Inr (c, s1)"
    "\<And>n. M \<le> n \<Longrightarrow> parsepipe n buf (eat buf s1 ''|'') = Inr (c2, s2)" by blast
  have "parsepipe n buf s = Inr (PIPE c c2, s2)" if "Suc (max N M) \<le> n" for n
    using that N pipe_pipe(3) by (cases n) (simp_all add: parse_Suc)
  then show ?case by blast
next
  case (words s rs s1 c s2)
  have "parseexec n buf s = Inr (c, s2)" if "Suc 0 \<le> n" for n
    using that words by (cases n) (simp_all add: parse_Suc)
  then show ?case by blast
next
  case (block s c s2 rs s3)
  then obtain N where N: "\<And>n. N \<le> n \<Longrightarrow> parseline n buf (eat buf (snd (peek buf s ''('')) ''('') = Inr (c, s2)" by blast
  have "parseexec n buf s = Inr (redirs rs c, s3)" if "Suc (Suc N) \<le> n" for n
  proof -
    obtain m where "n = Suc (Suc m)" "N \<le> m" using \<open>Suc (Suc N) \<le> n\<close> by (metis Suc_le_D Suc_le_mono)
    then show ?thesis using N block(1,2,5,6) by (simp add: parse_Suc)
  qed
  then show ?case by blast
qed

section \<open>Printing and parsing\<close>

abbreviation text_of :: "string \<Rightarrow> span \<Rightarrow> string" where
  "text_of buf \<equiv> \<lambda>(q, eq). take (eq - q) (drop q buf)"

abbreviation parsed :: "string \<Rightarrow> span cmd \<Rightarrow> string cmd" where
  "parsed buf \<equiv> map_cmd (text_of buf)"

lemma map_cmd_redirs: "map_cmd f (redirs [(x, mode, fd)] c) = REDIR (map_cmd f c) (f x) mode fd"
  by (simp add: redirs_def)

lemma redirs_Nil [simp]: "redirs [] c = c"
  by (simp add: redirs_def)

lemma drop_append_more: "drop s buf = xs @ ys \<Longrightarrow> drop (s + length xs) buf = ys"
  by (metis add.commute append_eq_conv_conj drop_drop)

lemma text_of_word: "drop s buf = w @ rest \<Longrightarrow> text_of buf (s, s + length w) = w"
  by simp

lemma simple_pipeline:
  "simple buf s c s1 \<Longrightarrow> solid (drop s1 buf) \<Longrightarrow> drop s1 buf = [] \<or> hd (drop s1 buf) \<noteq> CHR ''|'' \<Longrightarrow>
    pipeline buf s c s1"
  using pipe [of buf s c s1] by (auto simp: peek_solid)

lemma pipeline_line:
  assumes "pipeline buf s c s1" and "closed (drop s1 buf)"
  shows "line buf s c s1"
proof -
  have p: "peek buf s1 toks = (drop s1 buf \<noteq> [] \<and> hd (drop s1 buf) \<in> set toks, s1)" for toks
    using peek_solid closed_solid assms(2) by blast
  have "backs buf c s1 = (c, s1)"
    using assms(2) by (subst backs.simps) (auto simp: p closed_def)
  from line [OF assms(1) this] show ?thesis using assms(2) by (auto simp: p closed_def)
qed

text \<open>The words of a simple command, each followed by a blank.\<close>

lemma solid_words:
  "\<forall>w \<in> set ws. is_word w \<Longrightarrow> closed rest \<Longrightarrow> solid (concat (map (\<lambda>w. w @ '' '') ws) @ rest) \<and>
    (ws \<noteq> [] \<longrightarrow> word_char (hd (concat (map (\<lambda>w. w @ '' '') ws) @ rest)))"
  using closed_solid [of rest]
  by (cases ws) (auto simp: is_word_def solid_def blank_def word_char_def hd_append)

lemma exec_words_print:
  "drop s buf = concat (map (\<lambda>w. w @ '' '') ws) @ rest \<Longrightarrow> closed rest \<Longrightarrow> \<forall>w \<in> set ws. is_word w \<Longrightarrow>
    length argv + length ws < MAXARGS \<Longrightarrow>
    \<exists>argv'. exec_words buf argv [] s = Inr (EXEC (argv @ argv'), s + length (concat (map (\<lambda>w. w @ '' '') ws))) \<and>
      map (text_of buf) argv' = ws"
proof (induction ws arbitrary: s argv)
  case Nil
  obtain tok q eq s2 where g: "gettoken buf (snd (peek buf s ''|)&;'')) = (tok, q, eq, s2)" by (metis prod_cases4)
  have p: "peek buf s ''|)&;'' = (rest \<noteq> [], s)"
    using Nil peek_solid [of s buf "''|)&;''"] closed_solid [of rest] by (auto simp: closed_def)
  have e: "tok = NUL \<and> s2 = s" if "rest = []"
  proof -
    have "skip blank buf s = s" by (rule skip_none) (use Nil that in simp)
    then show ?thesis using g Nil that by (auto simp: p gettoken_def Let_def at_end)
  qed
  show ?case using e unfolding exec_words_step [OF g] by (cases "rest = []") (simp_all add: p)
next
  case (Cons w ws)
  let ?more = "concat (map (\<lambda>w. w @ '' '') ws) @ rest"
  have dr: "drop s buf = w @ '' '' @ ?more" using Cons.prems(1) by simp
  have w: "is_word w" using Cons.prems(3) by simp
  have sol: "solid (drop s buf)" "word_char (hd (drop s buf))" "drop s buf \<noteq> []"
    using solid_words [OF Cons.prems(3,2)] Cons.prems(1) by auto
  have p: "peek buf s ''|)&;'' = (False, s)"
    using peek_solid [OF sol(1), of "''|)&;''"] sol(2) by (auto simp: word_char_def symbols_def)
  define s' where "s' = s + length w + 1"
  have s': "drop s' buf = ?more" using drop_append_more [of s buf "w @ '' ''" ?more] dr by (simp add: s'_def)
  have sm: "solid ?more" "?more = [] \<or> hd ?more \<notin> set ''<>''"
    using solid_words [of ws rest] Cons.prems(2,3)
    by (cases ws; auto simp: closed_def word_char_def symbols_def)+
  have "skip blank buf (s + length w) = s + length w + length '' ''"
    by (rule skip_word [of _ _ "'' ''" ?more])
      (use drop_append_more [OF dr] sm(1) in \<open>auto simp: solid_def blank_def whitespace_def\<close>)
  then have g: "gettoken buf (snd (peek buf s ''|)&;'')) = (CHR ''a'', s, s + length w, s')"
    using gettoken_is_word [OF dr w] by (simp add: p s'_def word_char_def whitespace_def)
  have r: "parseredirs buf [] s' = Inr ([], s')" by (rule parseredirs_none) (use sm s' in auto)
  obtain argv' where "exec_words buf (argv @ [(s, s + length w)]) [] s' =
      Inr (EXEC ((argv @ [(s, s + length w)]) @ argv'), s' + length (concat (map (\<lambda>w. w @ '' '') ws)))"
    "map (text_of buf) argv' = ws"
    using Cons.IH [OF s' Cons.prems(2), of "argv @ [(s, s + length w)]"] Cons.prems(3,4) by auto
  then show ?case
    using Cons.prems(4) dr unfolding exec_words_step [OF g]
    by (intro exI [of _ "(s, s + length w) # argv'"]) (simp add: p r [unfolded s'_def, simplified] s'_def)
qed

lemma line_EXEC:
  assumes "drop s buf = print (EXEC ws) @ rest" and "closed rest" and "printable (EXEC ws)"
  shows "\<exists>c'. line buf s c' (s + length (print (EXEC ws))) \<and> parsed buf c' = EXEC ws"
proof -
  have ws: "\<forall>w \<in> set ws. is_word w" "length [] + length ws < MAXARGS" using assms(3) by auto
  obtain argv' where ex: "exec_words buf [] [] s = Inr (EXEC argv', s + length (print (EXEC ws)))"
    "map (text_of buf) argv' = ws"
    using exec_words_print [of s buf ws rest "[]"] assms ws by auto
  note so = solid_words [OF ws(1) assms(2)]
  have d: "solid (drop s buf)" "drop s buf = [] \<or> hd (drop s buf) \<notin> set ''<>(''"
    using so assms(1,2) by (cases ws; auto simp: closed_def word_char_def symbols_def)+
  have p: "peek buf s ''('' = (False, s)" using peek_solid [OF d(1), of "''(''"] d(2) by auto
  have r: "parseredirs buf [] s = Inr ([], s)" by (rule parseredirs_none) (use d in auto)
  have "simple buf s (EXEC argv') (s + length (print (EXEC ws)))"
    by (rule words) (use ex(1) in \<open>simp_all add: p r\<close>)
  moreover have rest: "drop (s + length (print (EXEC ws))) buf = rest" using drop_append_more [OF assms(1)] .
  ultimately have "line buf s (EXEC argv') (s + length (print (EXEC ws)))"
    using assms(2) by (intro pipeline_line simple_pipeline) (auto simp: closed_solid closed_def)
  then show ?thesis using ex(2) by auto
qed

text \<open>A printed command in parentheses and the redirections behind it.\<close>

definition reads :: "string \<Rightarrow> string cmd \<Rightarrow> bool" where
  "reads buf c \<longleftrightarrow> (\<forall>s rest. drop s buf = print c @ rest \<longrightarrow> closed rest \<longrightarrow>
     (\<exists>c'. line buf s c' (s + length (print c)) \<and> parsed buf c' = c))"

lemma solid_print: "printable c \<Longrightarrow> closed rest \<Longrightarrow> solid (print c @ rest)"
  using solid_words by (cases c) (auto simp: solid_def blank_def whitespace_def)

lemma simple_block:
  assumes "reads buf c" and "printable c" and "drop s buf = ''('' @ print c @ '')'' @ rest"
    and "solid rest"
    and "parseredirs buf [] (s + length (print c) + 2) = Inr (rs, s3)"
  shows "\<exists>c'. simple buf s (redirs rs c') s3 \<and> parsed buf c' = c"
proof -
  let ?e = "s + 1 + length (print c)"
  have d0: "drop s buf = CHR ''('' # print c @ CHR '')'' # rest" using assms(3) by simp
  have d1: "drop (s + 1) buf = print c @ CHR '')'' # rest" using at_drop [OF d0] by simp
  have cl: "closed (CHR '')'' # rest)" by (simp add: closed_def)
  obtain c' where c': "line buf (s + 1) c' ?e" "parsed buf c' = c"
    using assms(1) d1 cl unfolding reads_def by (metis (no_types, lifting))
  have d2: "drop ?e buf = CHR '')'' # rest" using drop_append_more [OF d1] .
  have p: "peek buf s ''('' = (True, s)" using peek_solid [of s buf "''(''"] d0 by (simp add: solid_def blank_def whitespace_def)
  have e: "after (gettoken buf s) = s + 1"
    by (rule after_gettoken_symbol [OF d0])
      (use solid_print [OF assms(2) cl] in auto)
  have p2: "peek buf ?e '')'' = (True, ?e)" using peek_solid [of ?e buf "'')''"] d2 at_drop [OF d2] by (simp add: solid_def blank_def whitespace_def)
  have e2: "after (gettoken buf ?e) = s + length (print c) + 2"
    using after_gettoken_symbol [OF d2] assms(4) by auto
  have "simple buf s (redirs rs c') s3"
    by (rule block [of _ _ _ ?e]) (use p e p2 e2 c' assms(5) in auto)
  then show ?thesis using c'(2) by blast
qed

lemma simple_plain_block:
  assumes "reads buf c" and "printable c" and "drop s buf = ''('' @ print c @ '')'' @ rest"
    and "solid rest" and "rest = [] \<or> hd rest \<notin> set ''<>''"
  shows "\<exists>c'. simple buf s c' (s + length (print c) + 2) \<and> parsed buf c' = c \<and>
    drop (s + length (print c) + 2) buf = rest"
proof -
  have d: "drop (s + length (print c) + 2) buf = rest"
    using drop_append_more [of s buf "''('' @ print c @ '')''" rest] assms(3) by simp
  have "parseredirs buf [] (s + length (print c) + 2) = Inr ([], s + length (print c) + 2)"
    by (rule parseredirs_none) (use d assms(4,5) in auto)
  from simple_block [OF assms(1-4) this] show ?thesis using d by auto
qed

lemma line_REDIR:
  assumes "reads buf c" and "printable (REDIR c f mode fd)" and "drop s buf = print (REDIR c f mode fd) @ rest"
    and "closed rest"
  shows "\<exists>c'. line buf s c' (s + length (print (REDIR c f mode fd))) \<and> parsed buf c' = REDIR c f mode fd"
proof -
  define x where "x = (if fd = 0 then CHR ''<'' else CHR ''>'')"
  have w: "printable c" "is_word f" and fd: "redir_of x g = [(g, mode, fd)]" for g
    using assms(2) by (auto simp: x_def redir_of_def)
  have wf: "f \<noteq> []" "word_char (hd f)" "hd f \<noteq> NUL" using w(2) by (cases f; auto simp: is_word_def)+
  have d0: "drop s buf = ''('' @ print c @ '')'' @ (x # f @ rest)" using assms(3) by (simp add: x_def)
  let ?e = "s + length (print c) + 2"
  have d1: "drop ?e buf = x # f @ rest"
    using drop_append_more [of s buf "''('' @ print c @ '')''"] d0 by simp
  then have d2: "drop (?e + 1) buf = f @ rest" using at_drop by blast
  have sf: "solid (f @ rest)" "hd (f @ rest) \<noteq> CHR ''>''"
    using wf by (auto simp: solid_def blank_def word_char_def symbols_def)
  have sx: "solid (x # f @ rest)" by (simp add: x_def solid_def blank_def whitespace_def)
  have p: "peek buf ?e ''<>'' = (True, ?e)" using peek_solid [of ?e buf "''<>''"] d1 sx by (auto simp: x_def)
  have g1: "gettoken buf ?e = (x, ?e, ?e + 1, ?e + 1)"
    by (rule gettoken_symbol [OF d1 _ sf(1)]) (use sf(2) in \<open>auto simp: x_def\<close>)
  let ?s3 = "?e + 1 + length f"
  have d3: "drop ?s3 buf = rest" using drop_append_more [OF d2] .
  have "skip blank buf ?s3 = ?s3"
    by (rule skip_none) (use d3 closed_solid [OF assms(4)] in \<open>auto simp: solid_def\<close>)
  then have g2: "gettoken buf (?e + 1) = (CHR ''a'', ?e + 1, ?s3, ?s3)"
    using gettoken_is_word [OF d2 w(2)] assms(4) by (auto simp: closed_def word_char_def symbols_def)
  have "parseredirs buf ([] @ redir_of x (?e + 1, ?s3)) ?s3 = Inr ([] @ redir_of x (?e + 1, ?s3), ?s3)"
    by (rule parseredirs_none) (use d3 closed_solid assms(4) in \<open>auto simp: closed_def\<close>)
  then have "parseredirs buf [] ?e = Inr ([((?e + 1, ?s3), mode, fd)], ?s3)"
    using parseredirs_step [of buf ?e "CHR ''a''" "?e + 1" ?s3 ?s3 "[]"] p g1 g2 fd by simp
  from simple_block [OF assms(1) w(1) d0 sx this] obtain c' where
    c': "simple buf s (redirs [((?e + 1, ?s3), mode, fd)] c') ?s3" "parsed buf c' = c" by blast
  have "line buf s (redirs [((?e + 1, ?s3), mode, fd)] c') ?s3"
    using c'(1) assms(4) d3 by (intro pipeline_line simple_pipeline) (auto simp: closed_solid closed_def)
  moreover have "parsed buf (redirs [((?e + 1, ?s3), mode, fd)] c') = REDIR c f mode fd"
    using d2 c'(2) by (simp add: redirs_def)
  moreover have "?s3 = s + length (print (REDIR c f mode fd))" by simp
  ultimately show ?thesis by (metis (no_types, lifting))
qed

lemma line_PIPE:
  assumes "reads buf l" "reads buf r" and "printable (PIPE l r)" and "drop s buf = print (PIPE l r) @ rest"
    and "closed rest"
  shows "\<exists>c'. line buf s c' (s + length (print (PIPE l r))) \<and> parsed buf c' = PIPE l r"
proof -
  let ?more = "''('' @ print r @ '')'' @ rest"
  have d0: "drop s buf = ''('' @ print l @ '')'' @ (CHR ''|'' # ?more)" using assms(4) by simp
  have so: "solid (CHR ''|'' # ?more)" "solid ?more" by (simp_all add: solid_def blank_def whitespace_def)
  define k where k: "k = s + length (print l) + 2"
  obtain l' where l': "simple buf s l' k" "parsed buf l' = l" "drop k buf = CHR ''|'' # ?more"
    using simple_plain_block [OF assms(1) _ d0 so(1), folded k] assms(3) by auto
  have p: "peek buf k ''|'' = (True, k)" using peek_solid [of k buf "''|''"] l'(3) so(1) at_drop [OF l'(3)] by simp
  have e: "after (gettoken buf k) = k + 1" by (rule after_gettoken_symbol [OF l'(3) _ so(2)]) simp_all
  have d1: "drop (k + 1) buf = ?more" using at_drop [OF l'(3)] by simp
  define j where j: "j = k + 1 + length (print r) + 2"
  obtain r' where r': "simple buf (k + 1) r' j" "parsed buf r' = r" "drop j buf = rest"
    using simple_plain_block [OF assms(2) _ d1 closed_solid [OF assms(5)], folded j] assms(3,5) by (auto simp: closed_def)
  have "pipeline buf (k + 1) r' j"
    using r'(1,3) assms(5) by (intro simple_pipeline) (auto simp: closed_solid closed_def)
  then have "pipeline buf s (PIPE l' r') j" using pipe_pipe [OF l'(1)] by (simp add: p e)
  then have "line buf s (PIPE l' r') j" by (rule pipeline_line) (simp add: r'(3) assms(5))
  moreover have "j = s + length (print (PIPE l r))" by (simp add: k j)
  ultimately show ?thesis using l'(2) r'(2) by (intro exI [of _ "PIPE l' r'"]) (simp only: cmd.map simp_thms)
qed

lemma backs_none:
  "solid (drop s buf) \<Longrightarrow> drop s buf = [] \<or> hd (drop s buf) \<noteq> CHR ''&'' \<Longrightarrow> backs buf c s = (c, s)"
  by (subst backs.simps) (auto simp: peek_solid)

lemma line_LIST:
  assumes "reads buf l" "reads buf r" and "printable (LIST l r)" and "drop s buf = print (LIST l r) @ rest"
    and "closed rest"
  shows "\<exists>c'. line buf s c' (s + length (print (LIST l r))) \<and> parsed buf c' = LIST l r"
proof -
  let ?more = "''('' @ print r @ '')'' @ rest"
  have d0: "drop s buf = ''('' @ print l @ '')'' @ (CHR '';'' # ?more)" using assms(4) by simp
  have so: "solid (CHR '';'' # ?more)" "solid ?more" by (simp_all add: solid_def blank_def whitespace_def)
  define k where k: "k = s + length (print l) + 2"
  obtain l' where l': "simple buf s l' k" "parsed buf l' = l" "drop k buf = CHR '';'' # ?more"
    using simple_plain_block [OF assms(1) _ d0 so(1), folded k] assms(3) by auto
  have p: "peek buf k '';'' = (True, k)" using peek_solid [of k buf "'';''"] l'(3) so(1) at_drop [OF l'(3)] by simp
  have e: "after (gettoken buf k) = k + 1" by (rule after_gettoken_symbol [OF l'(3) _ so(2)]) simp_all
  have d1: "drop (k + 1) buf = ?more" using at_drop [OF l'(3)] by simp
  define j where j: "j = k + 1 + length (print r) + 2"
  obtain r' where r': "simple buf (k + 1) r' j" "parsed buf r' = r" "drop j buf = rest"
    using simple_plain_block [OF assms(2) _ d1 closed_solid [OF assms(5)], folded j] assms(3,5) by (auto simp: closed_def)
  have "line buf (k + 1) r' j"
    using r'(1,3) assms(5) by (intro pipeline_line simple_pipeline) (auto simp: closed_solid closed_def)
  moreover have "pipeline buf s l' k" using l'(1,3) so(1) by (intro simple_pipeline) auto
  moreover have "backs buf l' k = (l', k)" by (rule backs_none) (use l'(3) so(1) in auto)
  ultimately have "line buf s (LIST l' r') j" using line_list by (simp add: p e)
  moreover have "j = s + length (print (LIST l r))" by (simp add: k j)
  ultimately show ?thesis using l'(2) r'(2) by (intro exI [of _ "LIST l' r'"]) (simp only: cmd.map simp_thms)
qed

lemma line_BACK:
  assumes "reads buf c" and "printable c" and "drop s buf = print (BACK c) @ rest" and "closed rest"
  shows "\<exists>c'. line buf s c' (s + length (print (BACK c))) \<and> parsed buf c' = BACK c"
proof -
  have d0: "drop s buf = ''('' @ print c @ '')'' @ (CHR ''&'' # rest)" using assms(3) by simp
  have so: "solid (CHR ''&'' # rest)" "solid rest"
    using closed_solid [OF assms(4)] by (simp_all add: solid_def blank_def whitespace_def)
  define k where k: "k = s + length (print c) + 2"
  obtain c' where c': "simple buf s c' k" "parsed buf c' = c" "drop k buf = CHR ''&'' # rest"
    using simple_plain_block [OF assms(1,2) d0 so(1), folded k] by auto
  have p: "peek buf k ''&'' = (True, k)" using peek_solid [of k buf "''&''"] c'(3) so(1) at_drop [OF c'(3)] by simp
  have e: "after (gettoken buf k) = k + 1" by (rule after_gettoken_symbol [OF c'(3) _ so(2)]) simp_all
  have d1: "drop (k + 1) buf = rest" using at_drop [OF c'(3)] by simp
  have "backs buf (BACK c') (k + 1) = (BACK c', k + 1)"
    by (rule backs_none) (use d1 so(2) assms(4) in \<open>auto simp: closed_def\<close>)
  then have b: "backs buf c' k = (BACK c', k + 1)" by (subst backs.simps) (simp add: p e)
  have pl: "pipeline buf s c' k" using c'(1,3) so(1) by (intro simple_pipeline) auto
  have "peek buf (k + 1) '';'' = (False, k + 1)"
    using peek_solid [of "k + 1" buf "'';''"] d1 so(2) assms(4) by (auto simp: closed_def)
  then have "line buf s (BACK c') (k + 1)" using line [OF pl b] by simp
  moreover have "k + 1 = s + length (print (BACK c))" by (simp add: k)
  ultimately show ?thesis using c'(2) by (intro exI [of _ "BACK c'"]) (simp only: cmd.map simp_thms)
qed

lemma reads_print: "printable c \<Longrightarrow> reads buf c"
proof (induction c)
  case (EXEC ws)
  then show ?case using line_EXEC unfolding reads_def by blast
next
  case (REDIR c f mode fd)
  then have "reads buf c" by simp
  from line_REDIR [OF this REDIR.prems] show ?case unfolding reads_def [of _ "REDIR c f mode fd"] by blast
next
  case (PIPE l r)
  then have "reads buf l" "reads buf r" by simp_all
  from line_PIPE [OF this PIPE.prems] show ?case unfolding reads_def [of _ "PIPE l r"] by blast
next
  case (LIST l r)
  then have "reads buf l" "reads buf r" by simp_all
  from line_LIST [OF this LIST.prems] show ?case unfolding reads_def [of _ "LIST l r"] by blast
next
  case (BACK c)
  then have "reads buf c" "printable c" by simp_all
  from line_BACK [OF this] show ?case unfolding reads_def [of _ "BACK c"] by blast
qed

text \<open>C29: The parser is the inverse of the printer: a line that prints a command, of any nesting of
  pipes, lists, background jobs and redirections with up to nine words each, is parsed into exactly that
  command.\<close>

theorem parse_print:
  assumes "printable c" and "4 * length (print c) + 4 \<le> n"
  shows "\<exists>c' buf'. parsecmd n (print c) = Inr (c', buf') \<and>
    map_cmd (\<lambda>(q, eq). take (eq - q) (drop q (print c))) c' = c"
proof -
  let ?b = "print c"
  obtain c' where l: "line ?b 0 c' (length ?b)" and p: "parsed ?b c' = c"
    using reads_print [OF assms(1), of ?b, unfolded reads_def, rule_format, of 0 "[]"] by (auto simp: closed_def)
  obtain N where N: "\<And>m. N \<le> m \<Longrightarrow> parseline m ?b 0 = Inr (c', length ?b)"
    using parse_complete(1) [OF l] by blast
  obtain r where "\<And>m. n \<le> m \<Longrightarrow> parseline m ?b 0 = r"
    using parse_settles(1) [of 0 ?b n] assms(2) by (auto simp: settles_def)
  then have "parseline n ?b 0 = Inr (c', length ?b)" using N [of "max N n"] by (metis max.cobounded1 max.cobounded2 order_refl)
  moreover have "peek ?b (length ?b) [] = (False, length ?b)" by (simp add: peek_solid solid_def)
  ultimately have "parsecmd n ?b = Inr (c', nulterminate c' ?b)" by (simp add: parsecmd_def)
  then show ?thesis using p by blast
qed

theorem parse_print_witness:
  "\<exists>c' buf'. parsecmd 80 ''((ls -l )|(wc ))&'' = Inr (c', buf') \<and>
    map_cmd (\<lambda>(q, eq). take (eq - q) (drop q ''((ls -l )|(wc ))&'')) c' =
      BACK (PIPE (EXEC [''ls'', ''-l'']) (EXEC [''wc'']))"
proof -
  let ?c = "BACK (PIPE (EXEC [''ls'', ''-l'']) (EXEC [''wc'']))"
  have "printable ?c" by (simp add: is_word_def word_char_def whitespace_def symbols_def MAXARGS_def)
  moreover have e: "print ?c = ''((ls -l )|(wc ))&''" by simp
  moreover have "4 * length ''((ls -l )|(wc ))&'' + 4 \<le> 80" by simp
  ultimately show ?thesis using parse_print [of ?c 80, unfolded e] by blast
qed

end
