(* ===== verification/Runscan.thy ===== *)
theory Runscan
  imports Bytes
begin

text \<open>
  The JPEG recovery tool \<open>P7_File_Systems\<close> (\<open>runscan.c\<close>, \<open>read_ext2.c\<close>) on an image of an ext2 file
  system: the files of the output directory are a map from names to contents. Reading past the end of
  the image leaves the rest of the buffer as it was; a fresh buffer is taken as zeros. What lies behind
  a buffer on the stack, which the program reads in places, is the argument \<open>stack\<close>. Creating and opening
  the output files is taken to succeed.
\<close>

type_synonym image = "u8 list"
type_synonym files = "u8 list \<Rightarrow> u8 list option"

definition str :: "string \<Rightarrow> u8 list" where "str = map of_char"

fun dec :: "nat \<Rightarrow> string" where
  "dec n = (if n < 10 then [char_of (48 + n)] else dec (n div 10) @ [char_of (48 + n mod 10)])"

declare dec.simps [simp del]

definition read_at :: "image \<Rightarrow> nat \<Rightarrow> nat \<Rightarrow> u8 list \<Rightarrow> u8 list" where
  "read_at img off n buf = (let xs = take n (drop off img) in xs @ drop (length xs) buf)"

section \<open>The structures on disk\<close>

definition EXT2_SUPER_MAGIC :: u16 where "EXT2_SUPER_MAGIC = 0xEF53"
definition EXT2_NDIR_BLOCKS :: nat where "EXT2_NDIR_BLOCKS = 12"
definition EXT2_IND_BLOCK :: nat where "EXT2_IND_BLOCK = 12"
definition EXT2_DIND_BLOCK :: nat where "EXT2_DIND_BLOCK = 13"
definition BASE_OFFSET :: nat where "BASE_OFFSET = 1024"

record ext2_super_block =
  s_blocks_count :: u32
  s_log_block_size :: u32
  s_blocks_per_group :: u32
  s_inodes_per_group :: u32
  s_magic :: u16
  s_inode_size :: u16

definition get_super_block :: "u8 list \<Rightarrow> ext2_super_block" where
  "get_super_block b = \<lparr>s_blocks_count = ld32 b 4, s_log_block_size = ld32 b 24,
     s_blocks_per_group = ld32 b 32, s_inodes_per_group = ld32 b 40, s_magic = ld16 b 56,
     s_inode_size = ld16 b 88\<rparr>"

record ext2_inode =
  i_mode :: u16
  i_uid :: u16
  i_size :: u32
  i_links_count :: u16
  i_block :: "u32 list"

definition get_inode :: "u8 list \<Rightarrow> ext2_inode" where
  "get_inode b = \<lparr>i_mode = ld16 b 0, i_uid = ld16 b 2, i_size = ld32 b 4, i_links_count = ld16 b 26,
     i_block = ld32s b 40 15\<rparr>"

definition S_ISREG :: "u16 \<Rightarrow> bool" where "S_ISREG m \<longleftrightarrow> m AND 0xF000 = 0x8000"
definition S_ISDIR :: "u16 \<Rightarrow> bool" where "S_ISDIR m \<longleftrightarrow> m AND 0xF000 = 0x4000"

text \<open>The global variables of \<open>read_ext2.c\<close>.\<close>

record ext2 =
  block_size :: u32
  inodes_per_block :: u32
  itable_blocks :: u32
  blocks_per_group :: u32
  num_groups :: u32
  inodes_per_group :: u32

text \<open>The product is taken in 32 bits.\<close>

definition BLOCK_OFFSET :: "ext2 \<Rightarrow> u32 \<Rightarrow> nat" where
  "BLOCK_OFFSET g b = unat (b * block_size g)"

definition read_super :: "image \<Rightarrow> ext2_super_block" where
  "read_super img = get_super_block (read_at img BASE_OFFSET 1024 (replicate 1024 0))"

definition ext2_read_init :: "image \<Rightarrow> ext2 result" where
  "ext2_read_init img =
     (let super = read_super img;
          bs = push_bit (unat (s_log_block_size super)) 1024 :: u32;
          per_block = bs div ucast (s_inode_size super)
      in if s_magic super \<noteq> EXT2_SUPER_MAGIC then Inl (Panic ''read_super_block: Not a Ext2 filesystem'')
         else if s_inode_size super = 0 \<or> per_block = 0 \<or> s_blocks_per_group super = 0 then Inl DivZero
         else Inr \<lparr>block_size = bs, inodes_per_block = per_block,
           itable_blocks = s_inodes_per_group super div per_block,
           blocks_per_group = s_blocks_per_group super,
           num_groups = (s_blocks_count super + s_blocks_per_group super - 1) div s_blocks_per_group super,
           inodes_per_group = s_inodes_per_group super\<rparr>)"

text \<open>The group descriptors; the macro \<open>BLOCK_OFFSET(BASE_OFFSET + 1)\<close> has no parentheses around its
  argument and comes out as \<open>BASE_OFFSET + 1 * block_size\<close>.\<close>

definition read_group_descs :: "image \<Rightarrow> ext2 \<Rightarrow> u32 list" where
  \<comment> \<open>the field \<open>bg_inode_table\<close> of each group\<close>
  "read_group_descs img g =
     (let n = unat (num_groups g);
          b = read_at img (BASE_OFFSET + unat (block_size g)) (32 * n) (replicate (32 * n) 0)
      in map (\<lambda>k. ld32 b (32 * k + 8)) [0..<n])"

definition locate_inode_table :: "ext2 \<Rightarrow> u32 list \<Rightarrow> nat \<Rightarrow> nat result" where
  "locate_inode_table g groups n =
     (if n < length groups then Inr (BLOCK_OFFSET g (groups ! n)) else Inl (OutOfBounds ''groups''))"

definition read_inode :: "image \<Rightarrow> nat \<Rightarrow> int \<Rightarrow> u16 \<Rightarrow> ext2_inode" where
  "read_inode img offset inode_no isz =
     get_inode (read_at img (nat (int offset + (inode_no - 1) * int (unat isz))) 128 (replicate 128 0))"

definition read_block :: "image \<Rightarrow> ext2 \<Rightarrow> u32 \<Rightarrow> u8 list \<Rightarrow> u8 list" where
  "read_block img g b buf = read_at img (BLOCK_OFFSET g b) (unat (block_size g)) buf"

definition new_buffer :: "ext2 \<Rightarrow> u8 list" where
  "new_buffer g = replicate (unat (block_size g)) 0"

section \<open>Recovering a file\<close>

definition is_jpg_block :: "u8 list \<Rightarrow> bool" where
  "is_jpg_block buffer \<longleftrightarrow> buffer ! 0 = 0xff \<and> buffer ! 1 = 0xd8 \<and> buffer ! 2 = 0xff \<and>
     (buffer ! 3 = 0xe0 \<or> buffer ! 3 = 0xe1 \<or> buffer ! 3 = 0xe8)"

record copy =
  copied :: u32
  buffer :: "u8 list"
  jpg :: "u8 list"

text \<open>The loop over an array of block pointers, of which \<open>limit\<close> are used. After a full block the next
  pointer is fetched before the bounds are tested: \<open>ptr\<close> is also asked for index \<open>limit\<close>.\<close>

function copy_blocks :: "image \<Rightarrow> ext2 \<Rightarrow> u32 \<Rightarrow> (nat \<Rightarrow> u32) \<Rightarrow> nat \<Rightarrow> nat \<Rightarrow> copy \<Rightarrow> copy" where
  "copy_blocks img g len ptr limit idx c =
     (if copied c < len \<and> idx < limit then
        let write_len = (if copied c + block_size g > len then len - copied c else block_size g);
            c1 = c\<lparr>copied := copied c + write_len, jpg := jpg c @ take (unat write_len) (buffer c)\<rparr>
        in if write_len = block_size g
           then copy_blocks img g len ptr limit (idx + 1) (c1\<lparr>buffer := read_block img g (ptr (idx + 1)) (buffer c)\<rparr>)
           else copy_blocks img g len ptr limit idx c1
      else c)"
  by pat_completeness auto

termination
  by (relation "measure (\<lambda>(img, g, size, ptr, limit, idx, c). 2 * (limit - idx) + (if copied c < size then 1 else 0))")
    (auto split: if_splits)

declare copy_blocks.simps [simp del]

text \<open>The pointers of an indirect block, and behind them what the stack holds.\<close>

definition pointers :: "u8 list \<Rightarrow> u32 \<Rightarrow> nat \<Rightarrow> u32" where
  "pointers b stack k = (if 4 * k + 4 \<le> length b then ld32 b (4 * k) else stack)"

definition copy_direct :: "image \<Rightarrow> ext2 \<Rightarrow> ext2_inode \<Rightarrow> copy \<Rightarrow> copy" where
  "copy_direct img g ino c = copy_blocks img g (i_size ino) (\<lambda>k. i_block ino ! k) EXT2_NDIR_BLOCKS 0 c"

definition copy_indirect :: "image \<Rightarrow> ext2 \<Rightarrow> u32 \<Rightarrow> u32 \<Rightarrow> u32 \<Rightarrow> copy \<Rightarrow> copy" where
  "copy_indirect img g len blockno stack c =
     (let ind_block = pointers (read_block img g blockno (new_buffer g)) stack
      in copy_blocks img g len ind_block (unat (block_size g) div 4) 0
           (c\<lparr>buffer := read_block img g (ind_block 0) (buffer c)\<rparr>))"

function copy_double :: "image \<Rightarrow> ext2 \<Rightarrow> u32 \<Rightarrow> (nat \<Rightarrow> u32) \<Rightarrow> u32 \<Rightarrow> nat \<Rightarrow> copy \<Rightarrow> copy" where
  "copy_double img g len outer stack idx c =
     (if copied c < len \<and> idx < unat (block_size g) div 4
      then copy_double img g len outer stack (idx + 1) (copy_indirect img g len (outer idx) stack c)
      else c)"
  by pat_completeness auto

termination
  by (relation "measure (\<lambda>(img, g, size, outer, stack, idx, c). unat (block_size g) div 4 - idx)") auto

declare copy_double.simps [simp del]

definition recover :: "image \<Rightarrow> ext2 \<Rightarrow> ext2_inode \<Rightarrow> u32 \<Rightarrow> u8 list \<Rightarrow> u8 list" where
  "recover img g ino stack buf =
     (let c1 = copy_direct img g ino \<lparr>copied = 0, buffer = buf, jpg = []\<rparr>;
          c2 = (if copied c1 < i_size ino
                then copy_indirect img g (i_size ino) (i_block ino ! EXT2_IND_BLOCK) stack c1 else c1);
          c3 = (if copied c2 < i_size ino
                then copy_double img g (i_size ino)
                  (pointers (read_block img g (i_block ino ! EXT2_DIND_BLOCK) (new_buffer g)) stack) stack 0 c2
                else c2)
      in jpg c3)"

section \<open>Directories\<close>

text \<open>The entries of a directory block from an offset on: the inode number and the name as a C string,
  \<open>name_len\<close> bytes copied by \<open>strncpy\<close> and terminated. The entries are found by the lengths of the names,
  not by \<open>rec_len\<close>, and the last one may reach behind the block.\<close>

definition next_offset :: "nat \<Rightarrow> nat \<Rightarrow> nat" where
  "next_offset offset name_len =
     (let o1 = offset + 8 + name_len in if o1 mod 4 = 0 then o1 else o1 + 4 - o1 mod 4)"

function dir_entries :: "u8 list \<Rightarrow> u8 list \<Rightarrow> nat \<Rightarrow> (u32 \<times> u8 list) list" where
  "dir_entries buf stack offset =
     (if offset < length buf then
        let m = buf @ stack; name_len = unat (m ! (offset + 6))
        in (ld32 m offset, takeWhile (\<lambda>b. b \<noteq> 0) (take name_len (drop (offset + 8) m)))
           # dir_entries buf stack (next_offset offset name_len)
      else [])"
  by pat_completeness auto

termination
  by (relation "measure (\<lambda>(buf, stack, offset). length buf - offset)") (auto simp: next_offset_def Let_def)

declare dir_entries.simps [simp del]

section \<open>The program\<close>

record scan =
  out :: files
  inode_is_jpg :: "bool list"
  top_secret :: "u32 option"

definition file_name :: "u8 list \<Rightarrow> nat \<Rightarrow> string \<Rightarrow> u8 list" where
  "file_name dir n suffix = dir @ str (''/file-'' @ dec n @ suffix)"

definition details :: "ext2_inode \<Rightarrow> u8 list" where
  "details ino = str (dec (unat (i_links_count ino)) @ [CHR 0x0A] @ dec (unat (i_size ino)) @ [CHR 0x0A]
     @ dec (unat (i_uid ino)))"

definition total_inodes :: "ext2 \<Rightarrow> nat" where
  "total_inodes g = unat (num_groups g * inodes_per_group g + 1)"

text \<open>A regular file that starts with the magic numbers is copied out with its details.\<close>

definition scan_file :: "image \<Rightarrow> ext2 \<Rightarrow> u8 list \<Rightarrow> u32 \<Rightarrow> nat \<Rightarrow> ext2_inode \<Rightarrow> u8 list \<Rightarrow> scan \<Rightarrow> scan" where
  "scan_file img g dir stk n ino buf s =
     (if is_jpg_block buf
      then s\<lparr>inode_is_jpg := (inode_is_jpg s)[n := True],
             out := (out s)(file_name dir n ''.jpg'' \<mapsto> recover img g ino stk buf,
               file_name dir n ''-details.txt'' \<mapsto> details ino)\<rparr>
      else s)"

definition scan_dir :: "ext2 \<Rightarrow> u8 list \<Rightarrow> u8 list \<Rightarrow> scan \<Rightarrow> scan" where
  "scan_dir g stack buf s = fold (\<lambda>(i, name) s.
     if unat i \<le> total_inodes g \<and> name = str ''top_secret'' then s\<lparr>top_secret := Some i\<rparr> else s)
     (dir_entries buf stack 24) s"

definition scan_inode :: "image \<Rightarrow> ext2 \<Rightarrow> u16 \<Rightarrow> u8 list \<Rightarrow> u8 list \<Rightarrow> nat \<Rightarrow> nat \<Rightarrow> nat \<Rightarrow> scan \<Rightarrow> scan" where
  "scan_inode img g isz dir stack table ngroup i s =
     (let ino = read_inode img table (int i) isz;
          buf = read_block img g (i_block ino ! 0) (new_buffer g)
      in if S_ISREG (i_mode ino)
         then scan_file img g dir (ld32 stack 0) (ngroup * unat (inodes_per_group g) + i) ino buf s
         else if S_ISDIR (i_mode ino) then scan_dir g stack buf s
         else s)"

text \<open>Both loops over all the inodes of all groups.\<close>

definition for_inodes :: "image \<Rightarrow> ext2 \<Rightarrow> (nat \<Rightarrow> nat \<Rightarrow> nat \<Rightarrow> 's \<Rightarrow> 's result) \<Rightarrow> 's \<Rightarrow> 's result" where
  "for_inodes img g f s =
     fold (\<lambda>n r. bindE r (\<lambda>s. bindE (locate_inode_table g (read_group_descs img g) n) (\<lambda>table.
       fold (\<lambda>i r. bindE r (f table n i)) [1..<unat (inodes_per_group g) + 1] (Inr s))))
       [0..<unat (num_groups g)] (Inr s)"

text \<open>A recovered file is copied, byte by byte, to its name in a directory; the index \<open>total_inodes\<close> is one
  past the array.\<close>

definition copy_file :: "u8 list \<Rightarrow> u8 list \<Rightarrow> files \<Rightarrow> files" where
  "copy_file old new fs = (case fs old of None \<Rightarrow> fs | Some xs \<Rightarrow> fs(new \<mapsto> xs))"

fun recover_names :: "ext2 \<Rightarrow> u8 list \<Rightarrow> bool \<Rightarrow> (u32 \<times> u8 list) list \<Rightarrow> scan \<Rightarrow> scan result" where
  "recover_names g dir clear [] s = Inr s"
| "recover_names g dir clear ((i, name) # es) s =
     (if unat i \<le> total_inodes g \<and> name \<noteq> [] then
        if unat i \<ge> length (inode_is_jpg s) then Inl (OutOfBounds ''inode_is_jpg'')
        else if inode_is_jpg s ! unat i then
          recover_names g dir clear es
            (s\<lparr>inode_is_jpg := (if clear then (inode_is_jpg s)[unat i := False] else inode_is_jpg s),
               out := copy_file (file_name dir (unat i) ''.jpg'') (dir @ str ''/'' @ name) (out s)\<rparr>)
        else recover_names g dir clear es s
      else recover_names g dir clear es s)"

definition remove_others :: "u8 list \<Rightarrow> scan \<Rightarrow> scan" where
  "remove_others dir s = s\<lparr>out := fold (\<lambda>i fs. if inode_is_jpg s ! i
     then fs(file_name dir i ''.jpg'' := None, file_name dir i ''-details.txt'' := None) else fs)
     [0..<length (inode_is_jpg s)] (out s)\<rparr>"

definition recover_secret :: "image \<Rightarrow> ext2 \<Rightarrow> u16 \<Rightarrow> u8 list \<Rightarrow> u8 list \<Rightarrow> u32 \<Rightarrow> scan \<Rightarrow> scan result" where
  "recover_secret img g isz dir stack i s =
     (if inodes_per_group g = 0 then Inl DivZero else
      bindE (locate_inode_table g (read_group_descs img g) (unat (i div inodes_per_group g))) (\<lambda>table.
        let ino = read_inode img table (int (unat (i mod inodes_per_group g))) isz;
            buf = read_block img g (i_block ino ! 0) (new_buffer g)
        in bindE (recover_names g dir True (dir_entries buf stack 24) s) (\<lambda>s1. Inr (remove_others dir s1))))"

definition recover_all :: "image \<Rightarrow> ext2 \<Rightarrow> u16 \<Rightarrow> u8 list \<Rightarrow> u8 list \<Rightarrow> scan \<Rightarrow> scan result" where
  "recover_all img g isz dir stack = for_inodes img g (\<lambda>table n i s.
     let ino = read_inode img table (int i) isz;
         buf = read_block img g (i_block ino ! 0) (new_buffer g)
     in if S_ISDIR (i_mode ino) then recover_names g dir False (dir_entries buf stack 24) s else Inr s)"

definition runscan :: "image \<Rightarrow> u8 list \<Rightarrow> u8 list \<Rightarrow> files result" where
  "runscan img dir stack =
     bindE (ext2_read_init img) (\<lambda>g.
       let isz = s_inode_size (read_super img);
           s0 = \<lparr>out = Map.empty, inode_is_jpg = replicate (total_inodes g) False, top_secret = None\<rparr>
       in bindE (for_inodes img g (\<lambda>table n i s. Inr (scan_inode img g isz dir stack table n i s)) s0) (\<lambda>s.
       bindE (case top_secret s of
           Some i \<Rightarrow> recover_secret img g isz dir stack i s
         | None \<Rightarrow> recover_all img g isz dir stack s) (\<lambda>s'. Inr (out s'))))"

end
