(* ===== verification/Runscan_Spec.thy ===== *)
theory Runscan_Spec
  imports Runscan
begin

text \<open>
  What the recovery of \<open>P7_File_Systems\<close> gives back: the blocks of a file in the order of its direct,
  indirect and double indirect pointers, cut to its size.
\<close>

section \<open>Blocks of the image\<close>


definition bsize :: "ext2 \<Rightarrow> nat" where "bsize g = unat (block_size g)"

definition blk :: "image \<Rightarrow> ext2 \<Rightarrow> u32 \<Rightarrow> u8 list" where
  "blk img g b = take (bsize g) (drop (BLOCK_OFFSET g b) img)"

definition in_image :: "image \<Rightarrow> ext2 \<Rightarrow> u32 \<Rightarrow> bool" where
  "in_image img g b \<longleftrightarrow> BLOCK_OFFSET g b + bsize g \<le> length img"

lemma length_blk: "in_image img g b \<Longrightarrow> length (blk img g b) = bsize g"
  by (simp add: blk_def in_image_def)

lemma read_block_blk: "in_image img g b \<Longrightarrow> length buf = bsize g \<Longrightarrow> read_block img g b buf = blk img g b"
  by (simp add: read_block_def read_at_def blk_def in_image_def bsize_def Let_def)

lemma length_read_block: "length buf = bsize g \<Longrightarrow> length (read_block img g b buf) = bsize g"
  by (simp add: read_block_def read_at_def Let_def bsize_def)

definition pending :: "image \<Rightarrow> ext2 \<Rightarrow> (nat \<Rightarrow> u32) \<Rightarrow> nat \<Rightarrow> nat \<Rightarrow> u8 list" where
  "pending img g ptr limit idx = concat (map (\<lambda>k. blk img g (ptr k)) [idx..<limit])"

text \<open>How far a copy has come: \<open>copied\<close> bytes, and a buffer of the right length.\<close>

definition advanced :: "ext2 \<Rightarrow> u32 \<Rightarrow> copy \<Rightarrow> u8 list \<Rightarrow> copy \<Rightarrow> bool" where
  "advanced g len c xs c' \<longleftrightarrow>
     jpg c' = jpg c @ take (unat len - unat (copied c)) xs \<and>
     unat (copied c') = unat (copied c) + min (unat len - unat (copied c)) (length xs) \<and>
     length (buffer c') = bsize g"

lemma length_pending:
  "(\<And>k. idx \<le> k \<Longrightarrow> k < limit \<Longrightarrow> in_image img g (ptr k)) \<Longrightarrow>
    length (pending img g ptr limit idx) = (limit - idx) * bsize g"
proof -
  assume a: "\<And>k. idx \<le> k \<Longrightarrow> k < limit \<Longrightarrow> in_image img g (ptr k)"
  have "map (\<lambda>k. length (blk img g (ptr k))) [idx..<limit] = map (\<lambda>k. bsize g) [idx..<limit]"
    by (rule map_cong) (auto simp: a length_blk)
  then have "(\<Sum>k\<leftarrow>[idx..<limit]. length (blk img g (ptr k))) = (\<Sum>k\<leftarrow>[idx..<limit]. bsize g)" by (rule arg_cong)
  also have "\<dots> = (limit - idx) * bsize g" by (simp add: sum_list_triv)
  finally show ?thesis by (simp add: pending_def length_concat o_def)
qed

lemma copy_blocks_stop: "\<not> (copied c < len \<and> idx < limit) \<Longrightarrow> copy_blocks img g len ptr limit idx c = c"
  by (subst copy_blocks.simps, subst if_not_P) simp_all

lemma pending_step:
  "idx < limit \<Longrightarrow> pending img g ptr limit idx = blk img g (ptr idx) @ pending img g ptr limit (idx + 1)"
  by (simp add: pending_def upt_conv_Cons)

lemma copy_blocks_ok:
  assumes "unat len + bsize g < 2 ^ 32" and "bsize g > 0"
    and "\<And>k. idx \<le> k \<Longrightarrow> k < limit \<Longrightarrow> in_image img g (ptr k)"
    and "idx < limit \<Longrightarrow> copied c < len \<Longrightarrow> buffer c = blk img g (ptr idx)"
    and "length (buffer c) = bsize g"
  shows "advanced g len c (pending img g ptr limit idx) (copy_blocks img g len ptr limit idx c)"
  using assms(3-5)
proof (induction "limit - idx" arbitrary: idx c)
  case 0
  then show ?case by (simp add: copy_blocks_stop pending_def advanced_def)
next
  case (Suc n)
  have idx: "idx < limit" using Suc.hyps(2) by simp
  show ?case
  proof (cases "copied c < len")
    case False
    then show ?thesis
      using Suc.prems(3) by (simp add: copy_blocks_stop advanced_def word_le_nat_alt not_less)
  next
    case True
    let ?A = "unat (copied c)"
    have A: "?A < unat len" using True by (simp add: word_less_nat_alt)
    have sum: "unat (copied c + block_size g) = ?A + bsize g"
      using A assms(1) by (simp add: unat_word_ariths bsize_def)
    have buf: "buffer c = blk img g (ptr idx)" using Suc.prems(2) idx True by simp
    show ?thesis
    proof (cases "copied c + block_size g > len")
      case True
      then have lt: "unat len < ?A + bsize g" using sum by (simp add: word_less_nat_alt)
      have wl: "unat (len - copied c) = unat len - ?A"
        using A by (simp add: unat_sub_if_size word_le_nat_alt)
      have ne: "len - copied c \<noteq> block_size g" using wl lt A by (auto simp: bsize_def)
      have "copy_blocks img g len ptr limit idx c = c\<lparr>copied := len, jpg := jpg c @ take (unat len - ?A) (buffer c)\<rparr>"
        using \<open>copied c < len\<close> idx True ne
        by (subst copy_blocks.simps) (simp add: Let_def wl copy_blocks_stop)
      moreover have "take (unat len - ?A) (pending img g ptr limit idx) = take (unat len - ?A) (buffer c)"
        using lt Suc.prems(3) unfolding pending_step [OF idx] buf by simp
      moreover have "unat len - ?A \<le> length (pending img g ptr limit idx)"
        using lt Suc.prems(3) unfolding pending_step [OF idx] by (simp flip: buf)
      ultimately show ?thesis using A Suc.prems(3) by (simp add: advanced_def min_def)
    next
      case False
      then have le: "?A + bsize g \<le> unat len" using sum by (simp add: word_less_nat_alt)
      let ?c = "c\<lparr>copied := copied c + block_size g, jpg := jpg c @ buffer c,
        buffer := read_block img g (ptr (idx + 1)) (buffer c)\<rparr>"
      have st: "copy_blocks img g len ptr limit idx c = copy_blocks img g len ptr limit (idx + 1) ?c"
        using \<open>copied c < len\<close> idx False Suc.prems(3)
        by (subst copy_blocks.simps) (simp add: Let_def bsize_def)
      have "advanced g len ?c (pending img g ptr limit (idx + 1)) (copy_blocks img g len ptr limit (idx + 1) ?c)"
        by (rule Suc.hyps(1))
          (use Suc.hyps(2) Suc.prems in \<open>auto simp: read_block_blk length_read_block\<close>)
      then show ?thesis
        using le Suc.prems(3) sum unfolding st pending_step [OF idx] advanced_def
        by (auto simp: buf [symmetric] min_def)
    qed
  qed
qed

section \<open>Levels of indirection\<close>

lemma advanced_le: "advanced g len c xs c' \<Longrightarrow> unat (copied c) \<le> unat len \<Longrightarrow> unat (copied c') \<le> unat len"
  by (auto simp: advanced_def)

lemma advanced_append:
  assumes "advanced g len c xs c1" and "advanced g len c1 ys c2" and "unat (copied c) \<le> unat len"
  shows "advanced g len c (xs @ ys) c2"
  using assms by (auto simp: advanced_def min_def)

lemma advanced_done:
  assumes "advanced g len c xs c1" and "\<not> copied c1 < len"
  shows "advanced g len c (xs @ ys) c1"
  using assms by (auto simp: advanced_def min_def word_less_nat_alt split: if_splits)

definition table :: "image \<Rightarrow> ext2 \<Rightarrow> u32 \<Rightarrow> nat \<Rightarrow> u32" where
  "table img g b k = ld32 (blk img g b) (4 * k)"

abbreviation per_block :: "ext2 \<Rightarrow> nat" where "per_block g \<equiv> bsize g div 4"

definition indirect :: "image \<Rightarrow> ext2 \<Rightarrow> u32 \<Rightarrow> u8 list" where
  "indirect img g b = pending img g (table img g b) (per_block g) 0"

definition indirect_ok :: "image \<Rightarrow> ext2 \<Rightarrow> u32 \<Rightarrow> bool" where
  "indirect_ok img g b \<longleftrightarrow> in_image img g b \<and> (\<forall>k < per_block g. in_image img g (table img g b k))"

lemma pointers_table:
  "in_image img g b \<Longrightarrow> k < per_block g \<Longrightarrow> pointers (read_block img g b (new_buffer g)) stk k = table img g b k"
proof -
  assume "in_image img g b" and "k < per_block g"
  moreover have "4 * k + 4 \<le> bsize g" using \<open>k < per_block g\<close> by linarith
  ultimately show ?thesis
    by (simp add: pointers_def table_def read_block_blk new_buffer_def length_blk bsize_def [symmetric])
qed

lemma pending_cong:
  "(\<And>k. idx \<le> k \<Longrightarrow> k < limit \<Longrightarrow> ptr k = ptr' k) \<Longrightarrow> pending img g ptr limit idx = pending img g ptr' limit idx"
  unfolding pending_def by (rule arg_cong [where f = concat]) simp

lemma copy_indirect_ok:
  assumes "unat len + bsize g < 2 ^ 32" and "bsize g > 0" and ok: "indirect_ok img g b" and "length (buffer c) = bsize g"
  shows "advanced g len c (indirect img g b) (copy_indirect img g len b stk c)"
proof -
  let ?p = "pointers (read_block img g b (new_buffer g)) stk"
  let ?c = "c\<lparr>buffer := read_block img g (?p 0) (buffer c)\<rparr>"
  have p: "?p k = table img g b k" if "k < per_block g" for k
    using ok that by (simp add: indirect_ok_def pointers_table)
  have "advanced g len ?c (pending img g ?p (per_block g) 0) (copy_blocks img g len ?p (per_block g) 0 ?c)"
    by (rule copy_blocks_ok [OF assms(1,2)])
      (use ok assms(4) in \<open>auto simp: p indirect_ok_def read_block_blk length_read_block\<close>)
  moreover have "pending img g ?p (per_block g) 0 = indirect img g b"
    unfolding indirect_def by (rule pending_cong) (simp add: p)
  ultimately show ?thesis by (simp add: advanced_def copy_indirect_def Let_def bsize_def)
qed

lemma copy_double_stop:
  "\<not> (copied c < len \<and> idx < per_block g) \<Longrightarrow> copy_double img g len outer stk idx c = c"
  by (subst copy_double.simps, subst if_not_P) (simp_all add: bsize_def)

lemma copy_double_step:
  "copied c < len \<Longrightarrow> idx < per_block g \<Longrightarrow> copy_double img g len outer stk idx c =
    copy_double img g len outer stk (idx + 1) (copy_indirect img g len (outer idx) stk c)"
  by (subst copy_double.simps) (simp add: bsize_def)

lemma copy_double_ok:
  assumes "unat len + bsize g < 2 ^ 32" and "bsize g > 0"
    and "\<And>k. k < per_block g \<Longrightarrow> indirect_ok img g (outer k)" and "length (buffer c) = bsize g"
    and "unat (copied c) \<le> unat len"
  shows "advanced g len c (concat (map (\<lambda>k. indirect img g (outer k)) [idx..<per_block g]))
    (copy_double img g len outer stk idx c)"
  using assms(4,5)
proof (induction "per_block g - idx" arbitrary: idx c)
  case 0
  then show ?case by (simp add: copy_double_stop advanced_def)
next
  case (Suc n)
  have idx: "idx < per_block g" using Suc.hyps(2) by simp
  show ?case
  proof (cases "copied c < len")
    case False
    then show ?thesis using Suc.prems by (simp add: copy_double_stop advanced_def word_less_nat_alt)
  next
    case True
    let ?c = "copy_indirect img g len (outer idx) stk c"
    have a: "advanced g len c (indirect img g (outer idx)) ?c"
      by (rule copy_indirect_ok [OF assms(1,2) assms(3) [OF idx] Suc.prems(1)])
    have "advanced g len ?c (concat (map (\<lambda>k. indirect img g (outer k)) [idx + 1..<per_block g]))
        (copy_double img g len outer stk (idx + 1) ?c)"
      by (rule Suc.hyps(1)) (use Suc.hyps(2) a advanced_le [OF a Suc.prems(2)] in \<open>auto simp: advanced_def\<close>)
    from advanced_append [OF a this Suc.prems(2)] show ?thesis
      using idx by (simp add: copy_double_step [OF True idx] upt_conv_Cons)
  qed
qed

section \<open>The recovered file\<close>

text \<open>The blocks of a file in their order.\<close>

definition file_data :: "image \<Rightarrow> ext2 \<Rightarrow> ext2_inode \<Rightarrow> u8 list" where
  "file_data img g ino =
     concat (map (\<lambda>k. blk img g (i_block ino ! k)) [0..<12]) @
     indirect img g (i_block ino ! 12) @
     concat (map (\<lambda>k. indirect img g (table img g (i_block ino ! 13) k)) [0..<per_block g])"

text \<open>The blocks that a file of its size needs lie in the image.\<close>

definition intact :: "image \<Rightarrow> ext2 \<Rightarrow> ext2_inode \<Rightarrow> bool" where
  "intact img g ino \<longleftrightarrow>
     (\<forall>k < 12. in_image img g (i_block ino ! k)) \<and>
     (unat (i_size ino) > 12 * bsize g \<longrightarrow> indirect_ok img g (i_block ino ! 12)) \<and>
     (unat (i_size ino) > (12 + per_block g) * bsize g \<longrightarrow> in_image img g (i_block ino ! 13) \<and>
        (\<forall>k < per_block g. indirect_ok img g (table img g (i_block ino ! 13) k)))"

definition direct :: "image \<Rightarrow> ext2 \<Rightarrow> ext2_inode \<Rightarrow> u8 list" where
  "direct img g ino = concat (map (\<lambda>k. blk img g (i_block ino ! k)) [0..<12])"

lemma length_direct: "intact img g ino \<Longrightarrow> length (direct img g ino) = 12 * bsize g"
  using length_pending [of 0 12 img g "\<lambda>k. i_block ino ! k"] by (simp add: pending_def direct_def intact_def)

lemma length_indirect: "indirect_ok img g b \<Longrightarrow> length (indirect img g b) = per_block g * bsize g"
  using length_pending [of 0 "per_block g" img g "table img g b"] by (simp add: indirect_def indirect_ok_def)

definition start :: "image \<Rightarrow> ext2 \<Rightarrow> ext2_inode \<Rightarrow> copy" where
  "start img g ino = \<lparr>copied = 0, buffer = blk img g (i_block ino ! 0), jpg = []\<rparr>"

lemma copy_direct_ok:
  assumes "intact img g ino" and "0 < bsize g" and "unat (i_size ino) + bsize g < 2 ^ 32"
  shows "advanced g (i_size ino) (start img g ino) (direct img g ino) (copy_direct img g ino (start img g ino))"
  unfolding copy_direct_def direct_def pending_def [symmetric] EXT2_NDIR_BLOCKS_def
  by (rule copy_blocks_ok [OF assms(3,2)]) (use assms(1) in \<open>simp_all add: intact_def start_def length_blk\<close>)

lemma second_level:
  assumes "intact img g ino" and "0 < bsize g" and "unat (i_size ino) + bsize g < 2 ^ 32"
    and a: "advanced g (i_size ino) (start img g ino) (direct img g ino) c"
  shows "advanced g (i_size ino) (start img g ino) (direct img g ino @ indirect img g (i_block ino ! 12))
    (if copied c < i_size ino then copy_indirect img g (i_size ino) (i_block ino ! 12) stk c else c)"
proof (cases "copied c < i_size ino")
  case True
  then have "12 * bsize g < unat (i_size ino)"
    using a length_direct [OF assms(1)] by (simp add: advanced_def start_def word_less_nat_alt min_def split: if_splits)
  then have ok: "indirect_ok img g (i_block ino ! 12)" using assms(1) by (simp add: intact_def)
  have "length (buffer c) = bsize g" using a by (simp add: advanced_def)
  from advanced_append [OF a copy_indirect_ok [OF assms(3,2) ok this]] show ?thesis
    unfolding if_P [OF True] by (simp add: start_def)
next
  case False
  from advanced_done [OF a False] show ?thesis unfolding if_not_P [OF False] .
qed

lemma third_level:
  assumes "intact img g ino" and "0 < bsize g" and "unat (i_size ino) + bsize g < 2 ^ 32"
    and a: "advanced g (i_size ino) (start img g ino) (direct img g ino @ indirect img g (i_block ino ! 12)) c"
  shows "advanced g (i_size ino) (start img g ino) (file_data img g ino)
    (if copied c < i_size ino
     then copy_double img g (i_size ino) (pointers (read_block img g (i_block ino ! 13) (new_buffer g)) stk) stk 0 c
     else c)"
proof (cases "copied c < i_size ino")
  case True
  let ?p = "pointers (read_block img g (i_block ino ! 13) (new_buffer g)) stk"
  have lt: "length (direct img g ino @ indirect img g (i_block ino ! 12)) < unat (i_size ino)"
    using a True by (simp add: advanced_def start_def word_less_nat_alt min_def split: if_splits)
  then have "indirect_ok img g (i_block ino ! 12)" using assms(1) length_direct [OF assms(1)] by (simp add: intact_def)
  then have "(12 + per_block g) * bsize g < unat (i_size ino)"
    using lt length_direct [OF assms(1)] by (simp add: length_indirect algebra_simps)
  then have dbl: "in_image img g (i_block ino ! 13)" "\<And>k. k < per_block g \<Longrightarrow> indirect_ok img g (table img g (i_block ino ! 13) k)"
    using assms(1) by (simp_all add: intact_def)
  have p: "?p k = table img g (i_block ino ! 13) k" if "k < per_block g" for k
    by (rule pointers_table [OF dbl(1) that])
  have "advanced g (i_size ino) c (concat (map (\<lambda>k. indirect img g (?p k)) [0..<per_block g]))
      (copy_double img g (i_size ino) ?p stk 0 c)"
    by (rule copy_double_ok [OF assms(3,2)])
      (use dbl(2) p a advanced_le [OF a] in \<open>simp_all add: advanced_def start_def\<close>)
  moreover have "map (\<lambda>k. indirect img g (?p k)) [0..<per_block g] =
      map (\<lambda>k. indirect img g (table img g (i_block ino ! 13) k)) [0..<per_block g]"
    by (rule map_cong) (simp_all add: p)
  ultimately show ?thesis
    using advanced_append [OF a] True by (simp add: start_def file_data_def direct_def)
next
  case False
  from advanced_done [OF a False] show ?thesis
    unfolding if_not_P [OF False] by (simp add: file_data_def direct_def)
qed

text \<open>C31: A file whose blocks are intact is recovered exactly: the output is the first \<open>i_size\<close> bytes of
  its 12 direct, indirect and double indirect blocks, whatever lies behind the arrays on the stack. What
  a triple indirect block would hold is silently left off.\<close>

theorem recover_exact:
  assumes "intact img g ino" and "0 < bsize g" and "unat (i_size ino) + bsize g < 2 ^ 32"
  shows "recover img g ino stk (blk img g (i_block ino ! 0)) = take (unat (i_size ino)) (file_data img g ino)"
proof -
  note lv = third_level [OF assms second_level [OF assms copy_direct_ok [OF assms]], where stk = stk]
  have "jpg (start img g ino) = []" and "unat (copied (start img g ino)) = 0" by (simp_all add: start_def)
  note jpg = lv [unfolded advanced_def this append_Nil diff_zero, THEN conjunct1]
  show ?thesis
    unfolding recover_def Let_def EXT2_IND_BLOCK_def EXT2_DIND_BLOCK_def start_def [symmetric] by (rule jpg)
qed

text \<open>A file of five bytes on an image of two blocks of four bytes, its second block behind the first.\<close>

theorem recover_exact_witness:
  "recover [0, 1, 2, 3, 4, 5, 6, 7]
     \<lparr>block_size = 4, inodes_per_block = 1, itable_blocks = 1, blocks_per_group = 2, num_groups = 1, inodes_per_group = 1\<rparr>
     \<lparr>i_mode = 0x81A4, i_uid = 0, i_size = 5, i_links_count = 1, i_block = [1, 0, 0, 0, 0, 0, 0, 0, 0, 0, 0, 0, 0, 0, 0]\<rparr>
     99 [4, 5, 6, 7] = [4, 5, 6, 7, 0]"
proof -
  let ?img = "[0, 1, 2, 3, 4, 5, 6, 7] :: image"
  let ?g = "\<lparr>block_size = 4, inodes_per_block = 1, itable_blocks = 1, blocks_per_group = 2, num_groups = 1, inodes_per_group = 1\<rparr>"
  let ?ino = "\<lparr>i_mode = 0x81A4, i_uid = 0, i_size = 5, i_links_count = 1, i_block = [1, 0, 0, 0, 0, 0, 0, 0, 0, 0, 0, 0, 0, 0, 0]\<rparr>"
  have b: "bsize ?g = 4" by (simp add: bsize_def)
  have bl: "blk ?img ?g 1 = [4, 5, 6, 7]" "blk ?img ?g 0 = [0, 1, 2, 3]" by (simp_all add: blk_def bsize_def BLOCK_OFFSET_def)
  have "in_image ?img ?g 0" "in_image ?img ?g 1" by (simp_all add: in_image_def bsize_def BLOCK_OFFSET_def)
  then have "\<forall>p \<in> set (i_block ?ino). in_image ?img ?g p" by simp
  then have "in_image ?img ?g (i_block ?ino ! k)" if "k < length (i_block ?ino)" for k
    using nth_mem [OF that] by blast
  moreover have l: "length (i_block ?ino) = 15" "i_size ?ino = 5" by simp_all
  ultimately have "\<forall>k < 12. in_image ?img ?g (i_block ?ino ! k)" by simp
  then have ok: "intact ?img ?g ?ino" unfolding intact_def b l by simp
  have "take 5 (direct ?img ?g ?ino) = [4, 5, 6, 7, 0]"
    by (simp add: direct_def upt_rec bl)
  moreover have "length (direct ?img ?g ?ino) = 48" using length_direct [OF ok] b by simp
  ultimately have "take 5 (file_data ?img ?g ?ino) = [4, 5, 6, 7, 0]"
    unfolding file_data_def direct_def [symmetric] take_append by simp
  moreover have "unat (i_size ?ino) = 5" "i_block ?ino ! 0 = 1" by simp_all
  ultimately show ?thesis using recover_exact [OF ok, of 99] unfolding b by (simp only:) (simp add: bl)
qed

end
