(* ===== verification/Grep.thy ===== *)
theory Grep
  imports Prelude
begin

text \<open>
  \<open>user/grep.c\<close>: the matcher of Kernighan and Pike and the loop over the lines of a file. Patterns and
  lines are strings without their final NUL; the buffer of \<open>grep\<close> is a byte function over all offsets,
  what is behind its 1024 bytes included, as \<open>strchr\<close> and \<open>read\<close> do not stop there.
\<close>

section \<open>The matcher\<close>

function matchhere :: "string \<Rightarrow> string \<Rightarrow> bool"
  and matchstar :: "char \<Rightarrow> string \<Rightarrow> string \<Rightarrow> bool" where
  "matchhere re line =
     (case re of
        [] \<Rightarrow> True
      | c # re1 \<Rightarrow>
          (case re1 of
             d # re2 \<Rightarrow>
               if d = CHR ''*'' then matchstar c re2 line
               else (case line of [] \<Rightarrow> False | t # line1 \<Rightarrow>
                 if c = CHR ''.'' \<or> c = t then matchhere re1 line1 else False)
           | [] \<Rightarrow>
               if c = CHR ''$'' then line = []
               else (case line of [] \<Rightarrow> False | t # line1 \<Rightarrow>
                 if c = CHR ''.'' \<or> c = t then matchhere re1 line1 else False)))"
| "matchstar c re line =
     (if matchhere re line then True
      else case line of [] \<Rightarrow> False
        | t # line1 \<Rightarrow> if t = c \<or> c = CHR ''.'' then matchstar c re line1 else False)"
  by pat_completeness auto

termination
  by (relation "measure (\<lambda>x. case x of Inl (re, line) \<Rightarrow> 2 * (length re + length line)
    | Inr (c, re, line) \<Rightarrow> 2 * (length re + length line) + 1)") auto

declare matchhere.simps [simp del] matchstar.simps [simp del]

fun match_from :: "string \<Rightarrow> string \<Rightarrow> bool" where
  \<comment> \<open>the loop of \<open>match\<close>, the empty rest included\<close>
  "match_from re line = (if matchhere re line then True
     else case line of [] \<Rightarrow> False | t # line1 \<Rightarrow> match_from re line1)"

declare match_from.simps [simp del]

definition match :: "string \<Rightarrow> string \<Rightarrow> bool" where
  "match re line = (case re of c # re1 \<Rightarrow> if c = CHR ''^'' then matchhere re1 line else match_from re line
     | [] \<Rightarrow> match_from re line)"

section \<open>The language of a pattern\<close>

text \<open>The elements of a pattern: a character or dot, one of these with a star, and a final \<open>$\<close>.\<close>

datatype elem = One char | Star char | End

fun elems :: "string \<Rightarrow> elem list" where
  "elems [] = []"
| "elems [c] = (if c = CHR ''$'' then [End] else [One c])"
| "elems (c # d # re) = (if d = CHR ''*'' then Star c # elems re else One c # elems (d # re))"

definition accepts_char :: "char \<Rightarrow> char \<Rightarrow> bool" where
  "accepts_char c t \<longleftrightarrow> c = CHR ''.'' \<or> c = t"

text \<open>The texts that an element list describes; what follows them in the line is free but for \<open>End\<close>.\<close>

fun lang :: "elem list \<Rightarrow> string set" where
  "lang [] = {[]}"
| "lang (One c # es) = {t # u | t u. accepts_char c t \<and> u \<in> lang es}"
| "lang (Star c # es) = {s @ u | s u. (\<forall>t \<in> set s. accepts_char c t) \<and> u \<in> lang es}"
| "lang (End # es) = {[]}"

definition starts_with :: "elem list \<Rightarrow> string \<Rightarrow> bool" where
  "starts_with es line \<longleftrightarrow> (\<exists>u v. line = u @ v \<and> u \<in> lang es \<and> (End \<in> set es \<longrightarrow> v = []))"

lemma starts_with_Nil: "starts_with [] line" and starts_with_End: "starts_with (End # es) line \<longleftrightarrow> line = []"
  by (simp_all add: starts_with_def)

lemma starts_withI: "line = u @ v \<Longrightarrow> u \<in> lang es \<Longrightarrow> End \<in> set es \<longrightarrow> v = [] \<Longrightarrow> starts_with es line"
  unfolding starts_with_def by blast

lemma starts_withE:
  assumes "starts_with es line"
  obtains u v where "line = u @ v" "u \<in> lang es" "End \<in> set es \<longrightarrow> v = []"
  using assms unfolding starts_with_def by blast

lemma lang_One: "x \<in> lang (One c # es) \<longleftrightarrow> (\<exists>t u. x = t # u \<and> accepts_char c t \<and> u \<in> lang es)"
  and lang_Star: "x \<in> lang (Star c # es) \<longleftrightarrow>
    x \<in> lang es \<or> (\<exists>t u. x = t # u \<and> accepts_char c t \<and> u \<in> lang (Star c # es))"
proof -
  show "x \<in> lang (One c # es) \<longleftrightarrow> (\<exists>t u. x = t # u \<and> accepts_char c t \<and> u \<in> lang es)" by simp
  have "x \<in> lang (Star c # es)" if "x \<in> lang es" using that by force
  moreover have "t # u \<in> lang (Star c # es)" if "accepts_char c t" and u: "u \<in> lang (Star c # es)" for t u
  proof -
    obtain s w where "u = s @ w" "\<forall>t \<in> set s. accepts_char c t" "w \<in> lang es"
      using u unfolding lang.simps by blast
    then have "t # u = (t # s) @ w \<and> (\<forall>t \<in> set (t # s). accepts_char c t) \<and> w \<in> lang es" using that(1) by simp
    then show ?thesis unfolding lang.simps by blast
  qed
  moreover have "x \<in> lang es \<or> (\<exists>t u. x = t # u \<and> accepts_char c t \<and> u \<in> lang (Star c # es))"
    if x: "x \<in> lang (Star c # es)"
  proof -
    obtain s w where s: "x = s @ w" "\<forall>t \<in> set s. accepts_char c t" "w \<in> lang es"
      using x unfolding lang.simps by blast
    show ?thesis
    proof (cases s)
      case Nil
      then show ?thesis using s by (intro disjI1) (simp only: append_Nil)
    next
      case (Cons t s')
      then have "\<exists>s u. s' @ w = s @ u \<and> (\<forall>t \<in> set s. accepts_char c t) \<and> u \<in> lang es"
        using s(2,3) by (intro exI [of _ s'] exI [of _ w]) simp
      then have "s' @ w \<in> lang (Star c # es)" by (simp only: lang.simps mem_Collect_eq)
      then show ?thesis using s(1,2) Cons by (intro disjI2 exI [of _ t] exI [of _ "s' @ w"]) simp
    qed
  qed
  ultimately show "x \<in> lang (Star c # es) \<longleftrightarrow>
    x \<in> lang es \<or> (\<exists>t u. x = t # u \<and> accepts_char c t \<and> u \<in> lang (Star c # es))" by blast
qed

declare lang.simps(2,3) [simp del]

lemma starts_with_One:
  "starts_with (One c # es) line \<longleftrightarrow> (\<exists>t rest. line = t # rest \<and> accepts_char c t \<and> starts_with es rest)"
proof
  assume "starts_with (One c # es) line"
  then show "\<exists>t rest. line = t # rest \<and> accepts_char c t \<and> starts_with es rest"
  proof (rule starts_withE)
    fix u v assume s: "line = u @ v" "u \<in> lang (One c # es)" "End \<in> set (One c # es) \<longrightarrow> v = []"
    then obtain t w where u: "u = t # w" "accepts_char c t" "w \<in> lang es" unfolding lang_One by blast
    then have "starts_with es (w @ v)" using s(3) by (intro starts_withI [OF refl]) simp_all
    then show ?thesis using s(1) u by simp
  qed
next
  assume "\<exists>t rest. line = t # rest \<and> accepts_char c t \<and> starts_with es rest"
  then obtain t rest where r: "line = t # rest" "accepts_char c t" "starts_with es rest" by blast
  from r(3) show "starts_with (One c # es) line"
  proof (rule starts_withE)
    fix u v assume "rest = u @ v" "u \<in> lang es" "End \<in> set es \<longrightarrow> v = []"
    then show ?thesis using r(1,2) by (intro starts_withI [of _ "t # u" v]) (auto simp: lang_One)
  qed
qed

lemma starts_with_Star:
  "starts_with (Star c # es) line \<longleftrightarrow>
     starts_with es line \<or> (\<exists>t rest. line = t # rest \<and> accepts_char c t \<and> starts_with (Star c # es) rest)"
proof
  assume "starts_with (Star c # es) line"
  then show "starts_with es line \<or> (\<exists>t rest. line = t # rest \<and> accepts_char c t \<and> starts_with (Star c # es) rest)"
  proof (rule starts_withE)
    fix u v assume s: "line = u @ v" "u \<in> lang (Star c # es)" and e: "End \<in> set (Star c # es) \<longrightarrow> v = []"
    from s(2) show ?thesis
    proof (subst (asm) lang_Star, elim disjE exE conjE)
      assume "u \<in> lang es"
      then have "starts_with es line" using e by (intro starts_withI [OF s(1)]) simp_all
      then show ?thesis by (rule disjI1)
    next
      fix t w assume u: "u = t # w" "accepts_char c t" "w \<in> lang (Star c # es)"
      have "starts_with (Star c # es) (w @ v)" by (rule starts_withI [OF refl u(3) e])
      then show ?thesis using s(1) u by simp
    qed
  qed
next
  assume "starts_with es line \<or> (\<exists>t rest. line = t # rest \<and> accepts_char c t \<and> starts_with (Star c # es) rest)"
  then show "starts_with (Star c # es) line"
  proof (elim disjE exE conjE)
    assume "starts_with es line"
    then show ?thesis
    proof (rule starts_withE)
      fix u v assume s: "line = u @ v" "u \<in> lang es" "End \<in> set es \<longrightarrow> v = []"
      then have "u \<in> lang (Star c # es)" using lang_Star by blast
      then show ?thesis using s by (intro starts_withI [OF s(1)]) simp_all
    qed
  next
    fix t rest assume r: "line = t # rest" "accepts_char c t" "starts_with (Star c # es) rest"
    from r(3) show ?thesis
    proof (rule starts_withE)
      fix u v assume s: "rest = u @ v" "u \<in> lang (Star c # es)" "End \<in> set (Star c # es) \<longrightarrow> v = []"
      then have "t # u \<in> lang (Star c # es)" using r(2) lang_Star [of "t # u"] by blast
      then show ?thesis using s r(1) by (intro starts_withI [of _ "t # u" v]) simp_all
    qed
  qed
qed

lemma matchhere_elems:
  "matchhere re line = starts_with (elems re) line"
  "matchstar c re line = starts_with (Star c # elems re) line"
proof (induction re line and c re line rule: matchhere_matchstar.induct)
  case (1 re line)
  show ?case
  proof (cases re rule: elems.cases)
    case 1
    then show ?thesis by (simp add: matchhere.simps starts_with_Nil)
  next
    case (2 c)
    then show ?thesis using "1.IH"
      by (subst matchhere.simps) (cases line; auto simp: starts_with_Nil starts_with_End starts_with_One accepts_char_def)
  next
    case (3 c d re')
    then show ?thesis using "1.IH"
      by (subst matchhere.simps) (cases line; auto simp: starts_with_Nil starts_with_End starts_with_One accepts_char_def)
  qed
next
  case (2 c re line)
  then show ?case
    by (subst matchstar.simps, subst starts_with_Star) (cases line; auto simp: accepts_char_def)
qed

text \<open>C32: The matcher decides the language of the pattern: an anchored pattern matches the beginning of
  the line, any other one some part of it, where a dot stands for every character, a starred character for
  any number of them and a final dollar for the end of the line.\<close>

theorem match_language:
  "match re line \<longleftrightarrow> (case re of
      c # re1 \<Rightarrow> if c = CHR ''^'' then starts_with (elems re1) line else (\<exists>u v. line = u @ v \<and> starts_with (elems re) v)
    | [] \<Rightarrow> True)"
proof -
  have "match_from re line \<longleftrightarrow> (\<exists>u v. line = u @ v \<and> starts_with (elems re) v)" for re
  proof (induction line)
    case Nil
    then show ?case by (simp add: match_from.simps matchhere_elems)
  next
    case (Cons t line)
    have "(\<exists>u v. t # line = u @ v \<and> starts_with (elems re) v) \<longleftrightarrow>
        starts_with (elems re) (t # line) \<or> (\<exists>u v. line = u @ v \<and> starts_with (elems re) v)"
      by (metis append_Cons append_Nil list.exhaust list.inject)
    then show ?case using Cons by (simp add: match_from.simps [of re "t # line"] matchhere_elems)
  qed
  then show ?thesis by (cases re) (auto simp: match_def matchhere_elems starts_with_Nil)
qed

section \<open>The loop over the lines\<close>

definition BUFSIZE :: nat where "BUFSIZE = 1024"

type_synonym buffer = "nat \<Rightarrow> char"

abbreviation NL :: char where "NL \<equiv> CHR 0x0A"

text \<open>\<open>strchr(p, '\n')\<close>: it goes on to the first NUL, past the end of the buffer when there is none.\<close>

definition strchr_nl :: "buffer \<Rightarrow> nat \<Rightarrow> nat option result" where
  "strchr_nl buf p = (case find (\<lambda>i. buf i = CHR 0x00 \<or> buf i = NL) [p..<BUFSIZE] of
     None \<Rightarrow> Inl (OutOfBounds ''buf'')
   | Some q \<Rightarrow> Inr (if buf q = NL then Some q else None))"

lemma strchr_nl_bounds: "strchr_nl buf p = Inr (Some q) \<Longrightarrow> p \<le> q \<and> q < BUFSIZE"
  by (auto simp: strchr_nl_def find_Some_iff split: option.splits if_splits)

text \<open>The inner loop: the newline of a line that does not match stays overwritten. The result is the
  buffer, the final \<open>p\<close> and what was written.\<close>

function print_lines :: "string \<Rightarrow> buffer \<Rightarrow> nat \<Rightarrow> string \<Rightarrow> (buffer \<times> nat \<times> string) result" where
  "print_lines pattern buf p out =
     (case strchr_nl buf p of
        Inl e \<Rightarrow> Inl e
      | Inr None \<Rightarrow> Inr (buf, p, out)
      | Inr (Some q) \<Rightarrow>
          if match pattern (map buf [p..<q])
          then print_lines pattern buf (q + 1) (out @ map buf [p..<q] @ [NL])
          else print_lines pattern (buf(q := CHR 0x00)) (q + 1) out)"
  by pat_completeness auto

termination by (relation "measure (\<lambda>(pattern, buf, p, out). BUFSIZE - p)") (auto dest!: strchr_nl_bounds)

declare print_lines.simps [simp del]

definition put_bytes :: "buffer \<Rightarrow> nat \<Rightarrow> string \<Rightarrow> buffer" where
  "put_bytes buf m xs = (\<lambda>i. if m \<le> i \<and> i < m + length xs then xs ! (i - m) else buf i)"

text \<open>\<open>grep\<close> on what the successive calls of \<open>read\<close> return.\<close>

fun grep :: "string \<Rightarrow> string list \<Rightarrow> buffer \<Rightarrow> int \<Rightarrow> string \<Rightarrow> (int \<times> string) result" where
  "grep pattern [] buf m out = Inr (m, out)"
| "grep pattern (xs # reads) buf m out =
     (if xs = [] then Inr (m, out)
      else if m < 0 \<or> m + int (length xs) > int BUFSIZE then Inl (OutOfBounds ''buf'')
      else
        let m1 = m + int (length xs) in
        bindE (print_lines pattern (put_bytes buf (nat m) xs) 0 out) (\<lambda>(buf1, p, out1).
          let m2 = (if p = 0 then 0 else m1);
              m3 = (if m2 > 0 then m2 - int p else m2);
              buf2 = (if m2 > 0 then put_bytes buf1 0 (map buf1 [p..<p + nat m3]) else buf1)
          in grep pattern reads buf2 m3 out1))"

definition empty_buffer :: buffer where "empty_buffer = (\<lambda>_. CHR 0x00)"

text \<open>The lines of a text, without the rest behind the last newline.\<close>

function full_lines :: "string \<Rightarrow> string list" where
  "full_lines s = (if NL \<in> set s
     then takeWhile (\<lambda>c. c \<noteq> NL) s # full_lines (tl (dropWhile (\<lambda>c. c \<noteq> NL) s)) else [])"
  by pat_completeness auto

termination
proof (relation "measure length")
  fix s :: string assume "NL \<in> set s"
  moreover have "length (dropWhile (\<lambda>c. c \<noteq> NL) s) \<le> length s" by (rule length_dropWhile_le)
  ultimately show "(tl (dropWhile (\<lambda>c. c \<noteq> NL) s), s) \<in> measure length" by (cases s) (auto simp: length_dropWhile_le less_Suc_eq_le dest: order_trans [OF _ length_dropWhile_le])
qed simp

declare full_lines.simps [simp del]

section \<open>A file that one call of read returns\<close>

abbreviation with_newlines :: "string list \<Rightarrow> string" where
  "with_newlines ls \<equiv> concat (map (\<lambda>l. l @ [NL]) ls)"

definition holds_text :: "buffer \<Rightarrow> nat \<Rightarrow> string \<Rightarrow> bool" where
  \<comment> \<open>the string \<open>s\<close> with its final NUL is at \<open>p\<close>, inside the buffer\<close>
  "holds_text buf p s \<longleftrightarrow> (\<forall>i < length s. buf (p + i) = s ! i) \<and> buf (p + length s) = CHR 0x00 \<and>
     CHR 0x00 \<notin> set s \<and> p + length s < BUFSIZE"

lemma holds_text_drop:
  assumes "holds_text buf p s" "k \<le> length s"
  shows "holds_text buf (p + k) (drop k s)"
  using assms by (auto simp: holds_text_def add.assoc dest: in_set_dropD)

lemma holds_text_update: "holds_text buf p s \<Longrightarrow> q < p \<Longrightarrow> holds_text (buf(q := c)) p s"
  by (auto simp: holds_text_def)

lemma holds_text_nth:
  assumes "holds_text buf p s" "p \<le> i" "i < p + length s"
  shows "buf i \<in> set s" "buf i \<noteq> CHR 0x00"
proof -
  obtain k where k: "i = p + k" "k < length s" using assms by (metis le_iff_add nat_add_left_cancel_less)
  then show "buf i \<in> set s" using assms(1) by (metis holds_text_def nth_mem)
  then show "buf i \<noteq> CHR 0x00" using assms(1) by (metis holds_text_def)
qed

lemma line_simps [simp]:
  "NL \<notin> set l \<Longrightarrow> dropWhile (\<lambda>c. c \<noteq> NL) (l @ NL # s) = NL # s"
  "NL \<notin> set l \<Longrightarrow> takeWhile (\<lambda>c. c \<noteq> NL) (l @ NL # s) = l"
  by (induction l) auto

lemma find_upt:
  assumes "p \<le> q" "q < n" "P q" "\<And>i. p \<le> i \<Longrightarrow> i < q \<Longrightarrow> \<not> P i"
  shows "find P [p..<n] = Some q"
  unfolding find_Some_iff using assms by (intro exI [of _ "q - p"]) auto

lemma strchr_nl_none:
  assumes "holds_text buf p s" "NL \<notin> set s"
  shows "strchr_nl buf p = Inr None"
proof -
  have "find (\<lambda>i. buf i = CHR 0x00 \<or> buf i = NL) [p..<BUFSIZE] = Some (p + length s)"
  proof (rule find_upt)
    fix i assume "p \<le> i" "i < p + length s"
    then show "\<not> (buf i = CHR 0x00 \<or> buf i = NL)" using assms(2) holds_text_nth [OF assms(1)] by metis
  qed (use assms in \<open>simp_all add: holds_text_def\<close>)
  then show ?thesis using assms by (simp add: strchr_nl_def holds_text_def)
qed

lemma strchr_nl_some:
  assumes "holds_text buf p (l @ NL # s)" "NL \<notin> set l"
  shows "strchr_nl buf p = Inr (Some (p + length l))" "map buf [p..<p + length l] = l"
proof -
  have all: "buf (p + k) = (l @ NL # s) ! k" if "k < length (l @ NL # s)" for k
    using assms(1) that by (simp only: holds_text_def)
  have b: "buf (p + k) = l ! k" if "k < length l" for k using all [of k] that by (simp add: nth_append)
  have nl: "buf (p + length l) = NL" using all [of "length l"] by simp
  have "find (\<lambda>i. buf i = CHR 0x00 \<or> buf i = NL) [p..<BUFSIZE] = Some (p + length l)"
  proof (rule find_upt)
    fix i assume i: "p \<le> i" "i < p + length l"
    then obtain k where k: "i = p + k" "k < length l" by (metis le_iff_add nat_add_left_cancel_less)
    then have "buf i \<in> set l" using b [of k] by (metis nth_mem)
    then show "\<not> (buf i = CHR 0x00 \<or> buf i = NL)" using assms holds_text_nth(2) [OF assms(1) i(1)] i by auto
  qed (use assms nl in \<open>simp_all add: holds_text_def\<close>)
  then show "strchr_nl buf p = Inr (Some (p + length l))" by (simp add: strchr_nl_def nl)
  show "map buf [p..<p + length l] = l" by (rule nth_equalityI) (simp_all add: b)
qed

lemma full_lines_app: "NL \<notin> set l \<Longrightarrow> full_lines (l @ NL # s) = l # full_lines s"
  by (subst full_lines.simps) simp

lemma full_lines_none: "NL \<notin> set s \<Longrightarrow> full_lines s = []"
  by (subst full_lines.simps) simp

lemma lines_induct [case_names none some]:
  assumes "\<And>s. NL \<notin> set s \<Longrightarrow> P s"
    and "\<And>l s. NL \<notin> set l \<Longrightarrow> P s \<Longrightarrow> P (l @ NL # s)"
  shows "P s"
proof (induction s rule: full_lines.induct)
  case (1 s)
  show ?case
  proof (cases "NL \<in> set s")
    case True
    obtain l s' where s: "s = l @ NL # s'" "NL \<notin> set l" using split_list_first [OF True] by blast
    then show ?thesis using assms(2) [OF s(2), of s'] "1.IH" [OF True] by simp
  qed (rule assms(1))
qed

lemma print_lines_text:
  "holds_text buf p s \<Longrightarrow>
     \<exists>buf1. print_lines pattern buf p out =
       Inr (buf1, p + length (with_newlines (full_lines s)),
         out @ with_newlines (filter (match pattern) (full_lines s))) \<and>
       (list_all (match pattern) (full_lines s) \<longrightarrow> buf1 = buf)"
proof (induction s arbitrary: buf p out rule: lines_induct)
  case (none s)
  then show ?case using strchr_nl_none [of buf p s] by (simp add: print_lines.simps full_lines_none)
next
  case (some l s)
  note c = strchr_nl_some [OF some.prems some.hyps]
  have h: "holds_text buf (p + length l + 1) s"
    using holds_text_drop [OF some.prems, of "length l + 1"] by (simp add: add.assoc)
  have h': "holds_text (buf(p + length l := CHR 0x00)) (p + length l + 1) s"
    by (rule holds_text_update [OF h]) simp
  show ?case
  proof (cases "match pattern l")
    case True
    then show ?thesis using some.IH [OF h, of "out @ l @ [NL]"] c full_lines_app [OF some.hyps, of s]
      by (subst print_lines.simps) (simp add: add.assoc)
  next
    case False
    obtain buf1 where "print_lines pattern (buf(p + length l := CHR 0x00)) (p + length l + 1) out =
        Inr (buf1, p + length l + 1 + length (with_newlines (full_lines s)),
          out @ with_newlines (filter (match pattern) (full_lines s)))"
      using some.IH [OF h', of out] by metis
    then show ?thesis using False c full_lines_app [OF some.hyps, of s]
      by (subst print_lines.simps) (simp add: add.assoc del: fun_upd_apply)
  qed
qed

lemma length_full_lines: "length (with_newlines (full_lines s)) \<le> length s"
  by (induction s rule: lines_induct) (simp_all add: full_lines_none full_lines_app)

lemma full_lines_last: "s \<noteq> [] \<Longrightarrow> last s = NL \<Longrightarrow> with_newlines (full_lines s) = s"
proof (induction s rule: lines_induct)
  case (none s)
  then show ?case using last_in_set [of s] by simp
next
  case (some l s)
  then show ?case by (cases "s = []") (simp_all add: full_lines_app full_lines_none)
qed

text \<open>On a file that one call of read returns whole, shorter than the buffer and without NUL bytes,
  grep writes exactly the complete lines that match, in their order, each with its newline.\<close>

theorem grep_one_read:
  assumes "length xs < BUFSIZE" "CHR 0x00 \<notin> set xs"
  shows "\<exists>m. grep pattern [xs, []] empty_buffer 0 [] =
    Inr (m, with_newlines (filter (match pattern) (full_lines xs)))"
proof (cases "xs = []")
  case False
  have "holds_text (put_bytes empty_buffer 0 xs) 0 xs"
    using assms by (simp add: holds_text_def put_bytes_def empty_buffer_def)
  from print_lines_text [OF this, of pattern "[]"] obtain buf1 where
    b: "print_lines pattern (put_bytes empty_buffer 0 xs) 0 [] =
      Inr (buf1, length (with_newlines (full_lines xs)), with_newlines (filter (match pattern) (full_lines xs)))"
    by (metis add_0 append_Nil)
  then show ?thesis using False assms(1) length_full_lines [of xs] by (simp add: Let_def b)
qed (simp add: full_lines.simps BUFSIZE_def)

theorem grep_one_read_witness:
  "\<exists>m. grep ''b*c'' [''abc'' @ [NL] @ ''b'' @ [NL], []] empty_buffer 0 [] = Inr (m, ''abc'' @ [NL])"
proof -
  have "full_lines (''abc'' @ [NL] @ ''b'' @ [NL]) = [''abc'', ''b'']"
    using full_lines_app [of "''abc''" "''b'' @ [NL]"] full_lines_app [of "''b''" "[]"]
    by (simp add: full_lines_none)
  moreover have "match ''b*c'' ''abc''" by (simp add: match_def match_from.simps matchhere.simps matchstar.simps)
  moreover have "\<not> match ''b*c'' ''b''" by (simp add: match_def match_from.simps matchhere.simps matchstar.simps)
  ultimately show ?thesis
    using grep_one_read [of "''abc'' @ [NL] @ ''b'' @ [NL]" "''b*c''"] by (simp add: BUFSIZE_def)
qed

section \<open>A second, shorter read\<close>

text \<open>When a read ends with a newline and the next one is shorter, the lines that it does not overwrite
  are still in the buffer, which has no NUL behind the new bytes: they are written a second time, the count
  turns negative, and whatever the following read returns goes before the buffer.\<close>

theorem grep_stale_lines:
  assumes "length xs < BUFSIZE" "CHR 0x00 \<notin> set xs" "last xs = NL" "list_all (match pattern) (full_lines xs)"
    and "ys \<noteq> []" "length ys < length xs" "CHR 0x00 \<notin> set ys"
  shows "grep pattern [xs, ys, zs] empty_buffer 0 [] =
    (if zs = [] then Inr (int (length ys) - int (length xs),
       xs @ with_newlines (filter (match pattern) (full_lines (ys @ drop (length ys) xs))))
     else Inl (OutOfBounds ''buf''))"
proof -
  let ?b = "put_bytes empty_buffer 0 xs" and ?s = "ys @ drop (length ys) xs"
  have ne: "xs \<noteq> []" using assms(6) by auto
  have x: "with_newlines (full_lines xs) = xs" by (rule full_lines_last [OF ne assms(3)])
  have y: "with_newlines (full_lines ?s) = ?s" by (rule full_lines_last) (use assms(3,6) in simp_all)
  have f: "filter (match pattern) (full_lines xs) = full_lines xs"
    using assms(4) by (simp add: list_all_iff filter_id_conv)
  have "holds_text ?b 0 xs" using assms by (simp add: holds_text_def put_bytes_def empty_buffer_def)
  from print_lines_text [OF this, of pattern "[]"] have 1:
    "print_lines pattern ?b 0 [] = Inr (?b, length xs, xs)"
    using assms(4) by (auto simp: f x)
  have "holds_text (put_bytes ?b 0 ys) 0 ?s"
    using assms(1,2,6,7) by (auto simp: holds_text_def put_bytes_def empty_buffer_def nth_append dest: in_set_dropD)
  from print_lines_text [OF this, of pattern xs] obtain b2 where 2:
    "print_lines pattern (put_bytes ?b 0 ys) 0 xs =
      Inr (b2, length xs, xs @ with_newlines (filter (match pattern) (full_lines ?s)))"
    using assms(6) y by auto
  have put: "put_bytes ?b 0 [] = ?b" by (simp add: put_bytes_def)
  show ?thesis using assms(1,5,6) ne by (simp add: Let_def 1 2 put)
qed

theorem grep_stale_lines_witness:
  "grep [] [''ab'' @ [NL], ''c'' @ [NL], ''d''] empty_buffer 0 [] = Inl (OutOfBounds ''buf'')"
proof -
  have "full_lines (''ab'' @ [NL]) = [''ab'']" using full_lines_app [of "''ab''" "[]"] by (simp add: full_lines_none)
  moreover have "match [] ''ab''" by (simp add: match_def match_from.simps matchhere.simps)
  ultimately show ?thesis
    using grep_stale_lines [of "''ab'' @ [NL]" "[]" "''c'' @ [NL]" "''d''"] by (simp add: BUFSIZE_def)
qed

end
