(* ===== verification/Libc.thy ===== *)
theory Libc
  imports Prelude
begin

text \<open>
  The functions of the C library that the programs for Unix use: \<open>strtok\<close>, \<open>atoi\<close> and \<open>fgets\<close>, on strings
  without their final NUL.
\<close>

section \<open>Strings\<close>

abbreviation NL :: char where "NL \<equiv> CHR 0x0A"

definition blanks :: string where "blanks = [CHR '' '', CHR 0x09, NL]"

text \<open>All tokens that \<open>strtok\<close> finds, one call after the other.\<close>

function strtok :: "string \<Rightarrow> string \<Rightarrow> string list" where
  "strtok d s =
     (let s1 = dropWhile (\<lambda>c. c \<in> set d) s in
      if s1 = [] then []
      else takeWhile (\<lambda>c. c \<notin> set d) s1 # strtok d (dropWhile (\<lambda>c. c \<notin> set d) s1))"
  by pat_completeness auto

termination
proof (relation "measure (\<lambda>(d, s). length s)")
  fix d s s1 :: string
  assume s1: "s1 = dropWhile (\<lambda>c. c \<in> set d) s" and ne: "s1 \<noteq> []"
  have "hd s1 \<notin> set d" using hd_dropWhile [of "\<lambda>c. c \<in> set d" s] ne s1 by simp
  then have "length (dropWhile (\<lambda>c. c \<notin> set d) s1) < length s1"
    using ne length_dropWhile_le [of "\<lambda>c. c \<notin> set d" "tl s1"] by (cases s1) simp_all
  also have "\<dots> \<le> length s" unfolding s1 by (rule length_dropWhile_le)
  finally show "((d, dropWhile (\<lambda>c. c \<notin> set d) s1), (d, s)) \<in> measure (\<lambda>(d, s). length s)" by simp
qed simp

declare strtok.simps [simp del]

definition digit_val :: "char \<Rightarrow> int" where
  "digit_val c = int (of_char c) - 48"

definition atoi :: "string \<Rightarrow> int" where
  \<comment> \<open>\<open>(int) strtol(s, NULL, 10)\<close>\<close>
  "atoi s =
     (let s1 = dropWhile (\<lambda>c. c \<in> set (blanks @ [CHR 0x0B, CHR 0x0C, CHR 0x0D])) s;
          neg = (s1 \<noteq> [] \<and> hd s1 = CHR ''-'');
          s2 = (if s1 \<noteq> [] \<and> hd s1 \<in> {CHR ''-'', CHR ''+''} then tl s1 else s1);
          v = foldl (\<lambda>v c. 10 * v + digit_val c) 0 (takeWhile (\<lambda>c. 0 \<le> digit_val c \<and> digit_val c \<le> 9) s2);
          x = (if neg then - v else v)
      in signed_take_bit 31 (max (- (2 ^ 63)) (min (2 ^ 63 - 1) x)))"

text \<open>What the functions on C strings see of an array of characters: the part up to its first NUL.\<close>

definition c_string :: "string \<Rightarrow> string" where
  "c_string s = takeWhile (\<lambda>c. c \<noteq> CHR 0x00) s"

lemma length_c_string: "length (c_string s) \<le> length s"
  unfolding c_string_def by (rule length_takeWhile_le)

section \<open>Streams\<close>

text \<open>\<open>fgets(buf, n, f)\<close>: the characters up to and with the next newline, but less than \<open>n\<close>, and the rest.\<close>

definition line_length :: "string \<Rightarrow> nat" where
  "line_length s = (let k = length (takeWhile (\<lambda>c. c \<noteq> NL) s) in if k < length s then k + 1 else k)"

definition fgets :: "nat \<Rightarrow> string \<Rightarrow> (string \<times> string) option" where
  "fgets n s = (if s = [] then None
     else Some (take (min (n - 1) (line_length s)) s, drop (min (n - 1) (line_length s)) s))"

lemma line_length_pos: "s \<noteq> [] \<Longrightarrow> 0 < line_length s"
  by (cases s) (auto simp: line_length_def Let_def)

lemma fgets_shorter: "fgets n s = Some (l, s') \<Longrightarrow> 1 < n \<Longrightarrow> length s' < length s"
  using line_length_pos [of s] by (auto simp: fgets_def split: if_splits)

lemma line_length_NL: "NL \<notin> set l \<Longrightarrow> line_length (l @ NL # s) = length l + 1"
proof -
  assume "NL \<notin> set l"
  then have "takeWhile (\<lambda>c. c \<noteq> NL) (l @ NL # s) = l" by (induction l) auto
  then show ?thesis by (simp add: line_length_def Let_def)
qed

lemma fgets_line:
  assumes "NL \<notin> set l" "length l + 1 < n"
  shows "fgets n (l @ NL # s) = Some (l @ [NL], s)"
  using assms by (simp add: fgets_def line_length_NL min_absorb2)

lemma fgets_Nil [simp]: "fgets n [] = None"
  by (simp add: fgets_def)

end
