(* ===== verification/Smash.thy ===== *)
theory Smash
  imports Libc
begin

text \<open>
  The Unix shell \<open>P3_Unix_Shell/smash.c\<close>. What it asks the operating system for is a parameter, the record
  \<open>sys\<close> over the states \<open>'w\<close> of the world; what it does is the list of events it gives back. A child is
  described by the program it executes and the descriptors it starts it with. The allocations that the
  program checks for failure can fail, the others succeed.
\<close>

section \<open>Words and commands\<close>

text \<open>Splitting fails early, before the array exists, or late, when the copy of a token cannot be made.\<close>

datatype split = Early | Late | Tokens "string list"

definition split_at :: "string \<Rightarrow> (string \<Rightarrow> bool) \<Rightarrow> string \<Rightarrow> split" where
  "split_at d dup line =
     (if \<not> dup line then Early
      else if list_all dup (strtok d line) then Tokens (strtok d line) else Late)"

definition lexer :: "(string \<Rightarrow> bool) \<Rightarrow> string \<Rightarrow> split" where
  "lexer = split_at blanks"

definition split_cmds :: "(string \<Rightarrow> bool) \<Rightarrow> string \<Rightarrow> split" where
  "split_cmds = split_at '';''"

text \<open>The loop that removes extra white space, with the flags \<open>prev_is_space\<close> and \<open>all_space\<close>.\<close>

fun squeeze :: "bool \<Rightarrow> bool \<Rightarrow> string \<Rightarrow> string \<Rightarrow> string \<times> bool" where
  "squeeze prev all cmd [] = (cmd, all)"
| "squeeze prev all cmd (c # s) =
     (if c \<in> set blanks
      then squeeze True all (if \<not> all \<and> \<not> prev then cmd @ [c] else cmd) s
      else squeeze False False (cmd @ [c]) s)"

text \<open>The loop that takes white space off the end. With no other character it goes on before the block;
  \<open>before\<close> is the byte in front of it. Only with a blank there something is written outside.\<close>

definition trim :: "char \<Rightarrow> string \<Rightarrow> string result" where
  "trim before cmd =
     (let cmd1 = rev (dropWhile (\<lambda>c. c \<in> set blanks) (rev cmd)) in
      if cmd1 = [] \<and> before \<in> set blanks then Inl (OutOfBounds ''cmd'') else Inr cmd1)"

section \<open>Pipelines\<close>

text \<open>The loop over the arguments that takes them apart at the bars.\<close>

fun pipe_cmds :: "string list \<Rightarrow> string list \<Rightarrow> string list list" where
  "pipe_cmds cmd [] = [cmd]"
| "pipe_cmds cmd (a # as) = (if a \<noteq> ''|'' then pipe_cmds (cmd @ [a]) as else cmd # pipe_cmds [] as)"

definition num_pipes :: "string list \<Rightarrow> nat" where
  "num_pipes args = length (filter (\<lambda>a. a = ''|'') args)"

text \<open>The arguments without the redirection, and its file; \<open>None\<close> for a redirection that is not
  the last but one of at least three words.\<close>

definition redirect :: "string list \<Rightarrow> (string list \<times> string option) option" where
  "redirect args =
     (case find (\<lambda>i. args ! i = ''>'') [0..<length args] of
        None \<Rightarrow> Some (args, None)
      | Some i \<Rightarrow>
          if int i \<noteq> int (length args) - 2 \<or> i = 0 \<or> args ! (i + 1) = ''>'' then None
          else Some (take (length args - 2) args, Some (args ! (length args - 1))))"

text \<open>Descriptors of a process, and the lowest free one, below the limit on open files.\<close>

datatype stream = Std nat | ReadEnd nat | WriteEnd nat | OutFile string

type_synonym fdtab = "nat \<Rightarrow> stream option"

definition OPEN_MAX :: nat where "OPEN_MAX = 1024"

definition lowest :: "fdtab \<Rightarrow> nat option" where
  "lowest t = find (\<lambda>fd. t fd = None) [0..<OPEN_MAX]"

text \<open>What happened to a child: it executes a program, or writes the error message and exits.\<close>

datatype child = Execs "string list" fdtab | Fails fdtab

datatype event = Out string | Err | Start child | Wait | Exit int

record 'w sys =
  dup_ok :: "string \<Rightarrow> bool"
  before :: "string \<Rightarrow> char"
  chdir :: "string \<Rightarrow> 'w \<Rightarrow> 'w option"
  getcwd :: "'w \<Rightarrow> string option"
  access :: "string \<Rightarrow> 'w \<Rightarrow> bool"
  can_exec :: "string \<Rightarrow> 'w \<Rightarrow> bool"
  can_open :: "string \<Rightarrow> 'w \<Rightarrow> bool"
  fork_ok :: "nat \<Rightarrow> 'w \<Rightarrow> bool"
  finish :: "child list \<Rightarrow> 'w \<Rightarrow> 'w"

text \<open>The pipes; one that cannot be made leaves its two entries of \<open>pipefds\<close> as they were, undefined.\<close>

fun make_pipes :: "nat \<Rightarrow> nat \<Rightarrow> fdtab \<Rightarrow> fdtab \<times> nat option list \<times> event list" where
  "make_pipes k 0 t = (t, [], [])"
| "make_pipes k (Suc n) t =
     (case lowest t of
        None \<Rightarrow> let (t', fds, es) = make_pipes (Suc k) n t in (t', None # None # fds, Err # es)
      | Some r \<Rightarrow>
        (case lowest (t(r \<mapsto> ReadEnd k)) of
           None \<Rightarrow> let (t', fds, es) = make_pipes (Suc k) n t in (t', None # None # fds, Err # es)
         | Some w \<Rightarrow>
             let (t', fds, es) = make_pipes (Suc k) n (t(r \<mapsto> ReadEnd k, w \<mapsto> WriteEnd k))
             in (t', Some r # Some w # fds, es)))"

definition the_fd :: "nat option \<Rightarrow> nat result" where
  "the_fd x = (case x of None \<Rightarrow> Inl (OutOfBounds ''pipefds'') | Some fd \<Rightarrow> Inr fd)"

fun close_all :: "nat option list \<Rightarrow> fdtab \<Rightarrow> fdtab result" where
  "close_all [] t = Inr t"
| "close_all (x # xs) t = bindE (the_fd x) (\<lambda>fd. close_all xs (t(fd := None)))"

definition child :: "'w sys \<Rightarrow> 'w \<Rightarrow> fdtab \<Rightarrow> nat option list \<Rightarrow> nat \<Rightarrow> nat \<Rightarrow> string list \<Rightarrow> string option \<Rightarrow> child result" where
  "child sys w t pipefds np idx argv redirect_file =
     bindE (if idx \<noteq> np then bindE (the_fd (pipefds ! (idx * 2 + 1))) (\<lambda>fd. Inr (t(1 := t fd))) else Inr t) (\<lambda>t1.
     bindE (if idx \<noteq> 0 then bindE (the_fd (pipefds ! (idx * 2 - 2))) (\<lambda>fd. Inr (t1(0 := t1 fd))) else Inr t1) (\<lambda>t2.
     bindE (close_all pipefds t2) (\<lambda>t3.
       case redirect_file of
         None \<Rightarrow> Inr (if can_exec sys (hd argv) w then Execs argv t3 else Fails t3)
       | Some f \<Rightarrow>
           (case lowest t3 of
              None \<Rightarrow> Inr (Fails t3)
            | Some newfd \<Rightarrow>
                if \<not> can_open sys f w then Inr (Fails t3)
                else
                  let t4 = t3(newfd \<mapsto> OutFile f, 1 \<mapsto> OutFile f, 2 \<mapsto> OutFile f, newfd := None)
                  in Inr (if can_exec sys (hd argv) w then Execs argv t4 else Fails t4)))))"

text \<open>The loop over the commands of a pipeline, and the whole of it; \<open>pipe_cmd_args[0]\<close> of a command
  without words was never written.\<close>

fun stages :: "'w sys \<Rightarrow> 'w \<Rightarrow> fdtab \<Rightarrow> nat option list \<Rightarrow> nat \<Rightarrow> nat \<Rightarrow> string list list \<Rightarrow> event list result" where
  "stages sys w t pipefds np idx [] = Inr []"
| "stages sys w t pipefds np idx (cmd # cmds) =
     (if cmd = [] then Inl (OutOfBounds ''pipe_cmd_args'')
      else if \<not> access sys (hd cmd) w then Inr [Err]
      else case redirect cmd of
        None \<Rightarrow> Inr [Err]
      | Some (argv, redirect_file) \<Rightarrow>
          bindE (if fork_ok sys idx w
            then bindE (child sys w t pipefds np idx argv redirect_file) (\<lambda>c. Inr (Start c))
            else Inr Err) (\<lambda>e.
          bindE (stages sys w t pipefds np (idx + 1) cmds) (\<lambda>es. Inr (e # es))))"

definition started :: "event list \<Rightarrow> child list" where
  "started es = concat (map (\<lambda>e. case e of Start c \<Rightarrow> [c] | _ \<Rightarrow> []) es)"

definition pipeline :: "'w sys \<Rightarrow> fdtab \<Rightarrow> string list \<Rightarrow> 'w \<Rightarrow> (event list \<times> fdtab \<times> 'w) result" where
  "pipeline sys t args w =
     (let np = num_pipes args; (t1, pipefds, es1) = make_pipes 0 np t in
      bindE (stages sys w t1 pipefds np 0 (pipe_cmds [] args)) (\<lambda>es2.
      bindE (close_all pipefds t1) (\<lambda>t2.
        Inr (es1 @ es2 @ replicate (length (started es2)) Wait, t2, finish sys (started es2) w))))"

section \<open>Commands\<close>

text \<open>\<open>pwd\<close> doubles its buffer until the name of the directory and its NUL fit.\<close>

function cwd_size :: "string \<Rightarrow> nat \<Rightarrow> nat" where
  "cwd_size dir sz = (if sz = 0 \<or> length dir + 1 \<le> sz then sz else cwd_size dir (sz * 2))"
  by pat_completeness auto

termination by (relation "measure (\<lambda>(dir, sz). length dir + 1 - sz)") auto

definition pwd :: "'w sys \<Rightarrow> 'w \<Rightarrow> event list" where
  "pwd sys w = (case getcwd sys w of None \<Rightarrow> [Err]
     | Some dir \<Rightarrow> [Out (take (cwd_size dir 1 - 1) dir), Out [NL]])"

text \<open>One turn of the loop of a command. The last component tells whether the shell exits.\<close>

type_synonym 'w outcome = "event list \<times> fdtab \<times> 'w \<times> bool"

definition execute :: "'w sys \<Rightarrow> string list \<Rightarrow> fdtab \<Rightarrow> 'w \<Rightarrow> 'w outcome result" where
  "execute sys args t w =
     (if hd args = ''exit'' then
        (if length args \<noteq> 1 then Inr ([Err], t, w, False) else Inr ([Exit 0], t, w, True))
      else if hd args = ''cd'' then
        (if length args \<noteq> 2 then Inr ([Err], t, w, False)
         else case chdir sys (args ! 1) w of
           None \<Rightarrow> Inr ([Err], t, w, False) | Some w' \<Rightarrow> Inr ([], t, w', False))
      else if hd args = ''pwd'' then
        (if length args \<noteq> 1 then Inr ([Err], t, w, False) else Inr (pwd sys w, t, w, False))
      else bindE (pipeline sys t args w) (\<lambda>(es, t', w'). Inr (es, t', w', False)))"

fun repeat_cmd :: "'w sys \<Rightarrow> string list \<Rightarrow> nat \<Rightarrow> fdtab \<Rightarrow> 'w \<Rightarrow> 'w outcome result" where
  "repeat_cmd sys args 0 t w = Inr ([], t, w, False)"
| "repeat_cmd sys args (Suc n) t w =
     bindE (execute sys args t w) (\<lambda>(es, t1, w1, stop).
       if stop then Inr (es, t1, w1, True)
       else bindE (repeat_cmd sys args n t1 w1) (\<lambda>(es', t2, w2, stop'). Inr (es @ es', t2, w2, stop')))"

definition run_args :: "'w sys \<Rightarrow> string list \<Rightarrow> fdtab \<Rightarrow> 'w \<Rightarrow> 'w outcome result" where
  "run_args sys args t w =
     (if hd args = ''loop'' then
        (if length args < 3 then Inr ([Err], t, w, False)
         else let loop_cnt = atoi (args ! 1) in
           if loop_cnt = 0 then Inr ([Err], t, w, False)
           else repeat_cmd sys (drop 2 args) (nat loop_cnt) t w)
      else repeat_cmd sys args 1 t w)"

definition run_cmd :: "'w sys \<Rightarrow> string \<Rightarrow> fdtab \<Rightarrow> 'w \<Rightarrow> 'w outcome result" where
  "run_cmd sys cmd_string t w =
     (let (cmd, all_space) = squeeze False True [] cmd_string in
      bindE (trim (before sys cmd_string) cmd) (\<lambda>cmd1.
        if all_space then Inr ([], t, w, False)
        else case lexer (dup_ok sys) cmd1 of
          Early \<Rightarrow> Inl (OutOfBounds ''args'')
        | Late \<Rightarrow> Inr ([Err], t, w, False)
        | Tokens args \<Rightarrow> run_args sys args t w))"

fun run_cmds :: "'w sys \<Rightarrow> string list \<Rightarrow> fdtab \<Rightarrow> 'w \<Rightarrow> 'w outcome result" where
  "run_cmds sys [] t w = Inr ([], t, w, False)"
| "run_cmds sys (cmd # cmds) t w =
     bindE (run_cmd sys cmd t w) (\<lambda>(es, t1, w1, stop).
       if stop then Inr (es, t1, w1, True)
       else bindE (run_cmds sys cmds t1 w1) (\<lambda>(es', t2, w2, stop'). Inr (es @ es', t2, w2, stop')))"

definition run_line :: "'w sys \<Rightarrow> string \<Rightarrow> fdtab \<Rightarrow> 'w \<Rightarrow> 'w outcome result" where
  "run_line sys line t w =
     (case split_cmds (dup_ok sys) line of
        Early \<Rightarrow> Inl (OutOfBounds ''cmds'')
      | Late \<Rightarrow> Inr ([Err], t, w, False)
      | Tokens cmds \<Rightarrow> run_cmds sys cmds t w)"

section \<open>The main loop\<close>

text \<open>What \<open>getline\<close> returns: a line, with its newline but for the last one of the input, or a failure.
  After a line without newline the end of the input has been seen.\<close>

definition ends_input :: "string \<Rightarrow> bool" where
  "ends_input line \<longleftrightarrow> line = [] \<or> last line \<noteq> NL"

definition prompt :: event where "prompt = Out ''smash> ''"

fun smash_loop :: "'w sys \<Rightarrow> string option list \<Rightarrow> fdtab \<Rightarrow> 'w \<Rightarrow> event list result" where
  "smash_loop sys [] t w = Inr [prompt, Exit 0]"
| "smash_loop sys (None # input) t w = bindE (smash_loop sys input t w) (\<lambda>es. Inr (prompt # Err # es))"
| "smash_loop sys (Some line # input) t w =
     (if ends_input line then Inr [prompt, Exit 0]
      else bindE (run_line sys line t w) (\<lambda>(es, t1, w1, stop).
        if stop then Inr (prompt # es)
        else bindE (smash_loop sys input t1 w1) (\<lambda>es'. Inr (prompt # es @ es'))))"

definition smash_main :: "'w sys \<Rightarrow> nat \<Rightarrow> string option list \<Rightarrow> fdtab \<Rightarrow> 'w \<Rightarrow> event list result" where
  "smash_main sys argc input t w =
     bindE (smash_loop sys input t w) (\<lambda>es. Inr (if argc > 1 then Err # es else es))"

end
