(* ===== verification/Smash_Spec.thy ===== *)
theory Smash_Spec
  imports Smash
begin

text \<open>
  What the shell of \<open>P3_Unix_Shell\<close> makes of a line: the words of its commands do not depend on the white
  space that it cleans up, and the programs of a pipeline get the descriptors that they should have.
\<close>

section \<open>Tokens\<close>

lemma strtok_Nil [simp]: "strtok d [] = []"
  by (simp add: strtok.simps)

lemma strtok_delim [simp]: "c \<in> set d \<Longrightarrow> strtok d (c # s) = strtok d s"
  by (subst strtok.simps, subst (2) strtok.simps) simp

lemma strtok_word:
  assumes "c \<notin> set d"
  shows "strtok d (c # s) =
    (c # takeWhile (\<lambda>c. c \<notin> set d) s) # strtok d (dropWhile (\<lambda>c. c \<notin> set d) s)"
  using assms by (subst strtok.simps) simp

lemma strtok_induct [case_names Nil delim word]:
  assumes "P []" and "\<And>c s. c \<in> set d \<Longrightarrow> P s \<Longrightarrow> P (c # s)"
    and "\<And>c s. c \<notin> set d \<Longrightarrow> P (dropWhile (\<lambda>c. c \<notin> set d) s) \<Longrightarrow> P (c # s)"
  shows "P s"
proof (induction "length s" arbitrary: s rule: less_induct)
  case less
  show ?case
  proof (cases s)
    case Nil
    then show ?thesis using assms(1) by simp
  next
    case (Cons c s')
    have "length (dropWhile (\<lambda>c. c \<notin> set d) s') < length s"
      using length_dropWhile_le [of "\<lambda>c. c \<notin> set d" s'] by (simp add: Cons less_Suc_eq_le)
    then show ?thesis using assms(2,3) less Cons by (cases "c \<in> set d") simp_all
  qed
qed

lemma strtok_cut: "c \<in> set d \<Longrightarrow> strtok d (a @ c # b) = strtok d a @ strtok d b"
proof (induction a rule: strtok_induct [where d = d])
  case (word x a)
  show ?case
  proof (cases "\<exists>y \<in> set a. y \<in> set d")
    case True
    then show ?thesis using word
      by (auto simp: strtok_word [of x] takeWhile_append dropWhile_append)
  next
    case False
    then have tw: "takeWhile (\<lambda>c. c \<notin> set d) a = a" "dropWhile (\<lambda>c. c \<notin> set d) a = []"
      by (simp_all add: takeWhile_eq_all_conv)
    show ?thesis using word(1,3) False
      by (simp add: tw strtok_word [of x] takeWhile_append dropWhile_append)
  qed
qed simp_all

lemma strtok_all_delims: "strtok d s = [] \<longleftrightarrow> set s \<subseteq> set d"
  by (induction s rule: strtok_induct [where d = d]) (simp_all add: strtok_word)

lemma strtok_trailing: "set b \<subseteq> set d \<Longrightarrow> strtok d (a @ b) = strtok d a"
  by (cases b) (simp_all add: strtok_cut strtok_all_delims)

section \<open>White space\<close>

lemma squeeze_words:
  "all \<longrightarrow> cmd = [] \<Longrightarrow> prev \<longrightarrow> cmd = [] \<or> last cmd \<in> set blanks \<Longrightarrow>
   strtok blanks (fst (squeeze prev all cmd s)) = strtok blanks (cmd @ s)"
proof (induction s arbitrary: prev all cmd)
  case (Cons c s)
  show ?case
  proof (cases "c \<in> set blanks")
    case True
    have drop: "strtok blanks (cmd @ c # s) = strtok blanks (cmd @ s)" if "cmd = [] \<or> last cmd \<in> set blanks"
    proof (cases cmd rule: rev_cases)
      case (snoc a x)
      then have "strtok blanks (cmd @ c # s) = strtok blanks a @ strtok blanks (c # s)"
        and "strtok blanks (cmd @ s) = strtok blanks a @ strtok blanks s"
        using that strtok_cut [of x blanks a "c # s"] strtok_cut [of x blanks a s] by simp_all
      then show ?thesis using True by simp
    qed (use True in simp)
    then show ?thesis using True Cons.prems Cons.IH [of all "cmd @ [c]" True] Cons.IH [of all cmd True] by auto
  qed (use Cons.IH [of False "cmd @ [c]" False] in simp)
qed simp

lemma squeeze_all: "snd (squeeze prev all cmd s) \<longleftrightarrow> all \<and> set s \<subseteq> set blanks"
  by (induction s arbitrary: prev all cmd) auto

lemma trim_words: "trim b cmd = Inr cmd' \<Longrightarrow> strtok blanks cmd' = strtok blanks cmd"
proof -
  assume "trim b cmd = Inr cmd'"
  then have c: "cmd' = rev (dropWhile (\<lambda>c. c \<in> set blanks) (rev cmd))"
    by (simp add: trim_def Let_def split: if_splits)
  have "cmd = cmd' @ rev (takeWhile (\<lambda>c. c \<in> set blanks) (rev cmd))"
    unfolding c by (metis rev_append rev_rev_ident takeWhile_dropWhile_id)
  moreover have "set (rev (takeWhile (\<lambda>c. c \<in> set blanks) (rev cmd))) \<subseteq> set blanks"
    by (auto dest: set_takeWhileD)
  ultimately show ?thesis using strtok_trailing by metis
qed

text \<open>The commands of a line, each as its words.\<close>

definition commands :: "string \<Rightarrow> string list list" where
  "commands line = filter (\<lambda>ws. ws \<noteq> []) (map (strtok blanks) (strtok '';'' line))"

fun run_words :: "'w sys \<Rightarrow> string list list \<Rightarrow> fdtab \<Rightarrow> 'w \<Rightarrow> 'w outcome result" where
  "run_words sys [] t w = Inr ([], t, w, False)"
| "run_words sys (ws # wss) t w =
     bindE (run_args sys ws t w) (\<lambda>(es, t1, w1, stop).
       if stop then Inr (es, t1, w1, True)
       else bindE (run_words sys wss t1 w1) (\<lambda>(es', t2, w2, stop'). Inr (es @ es', t2, w2, stop')))"

lemma run_cmd_words:
  assumes "\<And>s. dup_ok sys s" "\<And>s. before sys s \<notin> set blanks"
  shows "run_cmd sys s t w =
    (if strtok blanks s = [] then Inr ([], t, w, False) else run_args sys (strtok blanks s) t w)"
proof -
  let ?q = "squeeze False True [] s"
  obtain cmd where cmd: "trim (before sys s) (fst ?q) = Inr cmd"
    using assms(2) by (simp add: trim_def Let_def)
  have w: "strtok blanks cmd = strtok blanks s"
    using trim_words [OF cmd] squeeze_words [of True "[]" False s] by simp
  show ?thesis
    using cmd w squeeze_all [of False True "[]" s] assms(1)
    by (simp add: run_cmd_def lexer_def split_at_def split_def strtok_all_delims list_all_iff)
qed

text \<open>C33: When memory suffices, a line is run as its commands one after the other, each with exactly the words
  between the white space: cleaning it up first changes nothing, and commands without words are passed over.\<close>

theorem line_runs_its_words:
  assumes "\<And>s. dup_ok sys s" "\<And>s. before sys s \<notin> set blanks"
  shows "run_line sys line t w = run_words sys (commands line) t w"
proof -
  have "run_cmds sys cmds t w = run_words sys (filter (\<lambda>ws. ws \<noteq> []) (map (strtok blanks) cmds)) t w" for cmds
  proof (induction cmds arbitrary: t w)
    case (Cons c cmds)
    then show ?case
      by (simp add: run_cmd_words [OF assms] bindE_def split_def split: sum.splits)
  qed simp
  then show ?thesis
    using assms(1) by (simp add: run_line_def split_cmds_def split_at_def commands_def list_all_iff)
qed

section \<open>The descriptors of a pipeline\<close>

definition std :: fdtab where
  "std = (\<lambda>fd. if fd < 3 then Some (Std fd) else None)"

text \<open>The shell's descriptors while \<open>n\<close> pipes are open.\<close>

definition with_pipes :: "nat \<Rightarrow> fdtab" where
  "with_pipes n = (\<lambda>fd. if fd < 3 then Some (Std fd)
     else if fd < 3 + 2 * n then Some (if even fd then WriteEnd ((fd - 3) div 2) else ReadEnd ((fd - 3) div 2))
     else None)"

lemma with_pipes_0 [simp]: "with_pipes 0 = std"
  by (auto simp: with_pipes_def std_def)

lemma lowest_free: "fd < OPEN_MAX \<Longrightarrow> t fd = None \<Longrightarrow> (\<And>j. j < fd \<Longrightarrow> t j \<noteq> None) \<Longrightarrow> lowest t = Some fd"
  unfolding lowest_def find_Some_iff by (intro exI [of _ fd]) simp

lemma with_pipes_Suc: "(with_pipes k)(3 + 2 * k \<mapsto> ReadEnd k, 4 + 2 * k \<mapsto> WriteEnd k) = with_pipes (Suc k)"
proof
  fix fd
  consider "fd < 3 + 2 * k" | "fd = 3 + 2 * k" | "fd = 4 + 2 * k" | "fd > 4 + 2 * k" by linarith
  then show "((with_pipes k)(3 + 2 * k \<mapsto> ReadEnd k, 4 + 2 * k \<mapsto> WriteEnd k)) fd = with_pipes (Suc k) fd"
    by cases (auto simp: with_pipes_def)
qed

lemma make_pipes_all:
  "3 + 2 * (k + n) \<le> OPEN_MAX \<Longrightarrow>
     make_pipes k n (with_pipes k) = (with_pipes (k + n), map Some [3 + 2 * k..<3 + 2 * (k + n)], [])"
proof (induction n arbitrary: k)
  case (Suc n)
  have "lowest (with_pipes k) = Some (3 + 2 * k)"
    by (rule lowest_free) (use Suc.prems in \<open>auto simp: with_pipes_def\<close>)
  moreover have "lowest ((with_pipes k)(3 + 2 * k \<mapsto> ReadEnd k)) = Some (4 + 2 * k)"
    by (rule lowest_free) (use Suc.prems in \<open>auto simp: with_pipes_def\<close>)
  moreover have "[3 + 2 * k..<3 + 2 * (k + Suc n)] = (3 + 2 * k) # (4 + 2 * k) # [3 + 2 * Suc k..<3 + 2 * (Suc k + n)]"
    by (simp add: upt_conv_Cons)
  ultimately show ?case using Suc.IH [of "Suc k"] Suc.prems by (simp add: with_pipes_Suc)
qed simp

lemma close_all_upt:
  "close_all (map Some [a..<b]) t = Inr (\<lambda>fd. if a \<le> fd \<and> fd < b then None else t fd)"
proof (induction "b - a" arbitrary: a t)
  case (Suc n)
  then have "a < b" by simp
  then have u: "[a..<b] = a # [Suc a..<b]" by (rule upt_conv_Cons)
  show ?case unfolding u list.map close_all.simps the_fd_def option.case bindE_simps
    using Suc(2) by (subst Suc.hyps(1)) (auto simp: fun_eq_iff)
qed (auto simp: fun_eq_iff)

lemma close_pipes: "close_all (map Some [3..<3 + 2 * n]) (with_pipes n) = Inr std"
  unfolding close_all_upt by (auto simp: with_pipes_def std_def)

text \<open>What program \<open>i\<close> of a pipeline with \<open>n\<close> bars should have: its input from the pipe before it, its
  output to the pipe behind it, or output and errors in the file.\<close>

definition stage_fds :: "nat \<Rightarrow> nat \<Rightarrow> string option \<Rightarrow> fdtab" where
  "stage_fds n i f =
     [0 \<mapsto> (if i = 0 then Std 0 else ReadEnd (i - 1)),
      1 \<mapsto> (case f of Some p \<Rightarrow> OutFile p | None \<Rightarrow> if i = n then Std 1 else WriteEnd i),
      2 \<mapsto> (case f of Some p \<Rightarrow> OutFile p | None \<Rightarrow> Std 2)]"

definition stage :: "nat \<Rightarrow> nat \<Rightarrow> string list \<Rightarrow> child" where
  "stage n i cmd = (case redirect cmd of Some (argv, f) \<Rightarrow> Execs argv (stage_fds n i f) | None \<Rightarrow> Execs [] Map.empty)"

text \<open>The system lets every child be made, opens every file and executes every program.\<close>

definition willing :: "'w sys \<Rightarrow> 'w \<Rightarrow> bool" where
  "willing sys w \<longleftrightarrow> (\<forall>f. can_exec sys f w) \<and> (\<forall>f. can_open sys f w) \<and> (\<forall>i. fork_ok sys i w)"

lemma willing_simps [simp]:
  assumes "willing sys w"
  shows "can_exec sys f w" "can_open sys f w" "fork_ok sys i w"
  using assms by (simp_all add: willing_def)

lemma child_stage:
  assumes ok: "willing sys w" and i: "i \<le> n"
  shows "child sys w (with_pipes n) (map Some [3..<3 + 2 * n]) n i argv f = Inr (Execs argv (stage_fds n i f))"
proof -
  let ?p = "map Some [3..<3 + 2 * n]"
  have out: "?p ! (i * 2 + 1) = Some (4 + 2 * i)" if "i \<noteq> n" using that i by simp
  have "i * 2 - 2 < 2 * n" if "i \<noteq> 0" using that i by linarith
  then have inp: "?p ! (i * 2 - 2) = Some (1 + 2 * i)" if "i \<noteq> 0" using that by simp
  define t1 where "t1 = (if i \<noteq> n then (with_pipes n)(1 := with_pipes n (4 + 2 * i)) else with_pipes n)"
  define t2 where "t2 = (if i \<noteq> 0 then t1(0 := t1 (1 + 2 * i)) else t1)"
  have r: "t1 (1 + 2 * i) = Some (ReadEnd (i - 1))" if "i \<noteq> 0"
    using that i by (auto simp: t1_def with_pipes_def)
  have fds: "(\<lambda>fd. if 3 \<le> fd \<and> fd < 3 + 2 * n then None else t2 fd) = stage_fds n i None" (is "?t3 = _")
  proof
    fix fd :: nat
    consider "fd = (0::nat)" | "fd = 1" | "fd = 2" | "fd \<ge> 3" by linarith
    then show "?t3 fd = stage_fds n i None fd"
      using r i by cases (auto simp: t2_def t1_def stage_fds_def with_pipes_def)
  qed
  have low: "lowest (stage_fds n i None) = Some 3"
    by (rule lowest_free) (auto simp: stage_fds_def OPEN_MAX_def less_Suc_eq numeral_eq_Suc)
  have out_file: "(stage_fds n i None)(Suc 0 \<mapsto> OutFile p, 2 \<mapsto> OutFile p, 3 := None) = stage_fds n i (Some p)" for p
    by (auto simp: stage_fds_def)
  have 1: "(if i \<noteq> n then bindE (the_fd (?p ! (i * 2 + 1))) (\<lambda>fd. Inr ((with_pipes n)(1 := with_pipes n fd)))
      else Inr (with_pipes n)) = Inr t1"
    using out by (simp add: t1_def the_fd_def)
  have 2: "(if i \<noteq> 0 then bindE (the_fd (?p ! (i * 2 - 2))) (\<lambda>fd. Inr (t1(0 := t1 fd))) else Inr t1) = Inr t2"
    using inp by (simp add: t2_def the_fd_def)
  show ?thesis
    unfolding child_def 1 2 bindE_simps close_all_upt fds
    by (cases f) (simp_all add: ok low out_file Let_def)
qed

text \<open>A command that the loop accepts: it has a word, its program exists, its redirection is right.\<close>

definition sound :: "'w sys \<Rightarrow> 'w \<Rightarrow> string list \<Rightarrow> bool" where
  "sound sys w cmd \<longleftrightarrow> cmd \<noteq> [] \<and> access sys (hd cmd) w \<and> redirect cmd \<noteq> None"

lemma length_pipe_cmds: "length (pipe_cmds cmd args) = num_pipes args + 1"
  by (induction cmd args rule: pipe_cmds.induct) (simp_all add: num_pipes_def)

lemma stages_run:
  assumes ok: "willing sys w"
  shows "i + length cmds \<le> n + 1 \<Longrightarrow>
    stages sys w (with_pipes n) (map Some [3..<3 + 2 * n]) n i cmds =
      (let good = takeWhile (sound sys w) cmds; rest = drop (length good) cmds in
       if rest \<noteq> [] \<and> hd rest = [] then Inl (OutOfBounds ''pipe_cmd_args'')
       else Inr (map (\<lambda>(j, c). Start (stage n (i + j) c)) (enumerate 0 good) @ (if rest = [] then [] else [Err])))"
proof (induction cmds arbitrary: i)
  case (Cons c cmds)
  show ?case
  proof (cases "sound sys w c")
    case True
    then obtain argv f where r: "redirect c = Some (argv, f)" by (auto simp: sound_def)
    have s: "stage n i c = Execs argv (stage_fds n i f)" by (simp add: stage_def r)
    have e: "enumerate (Suc 0) xs = map (\<lambda>(j, x). (Suc j, x)) (enumerate 0 xs)" for xs :: "string list list"
      by (auto simp: enumerate_Suc_eq)
    show ?thesis using True Cons.prems Cons.IH [of "Suc i"] child_stage [OF ok, of i n argv f]
      by (auto simp: ok r s sound_def Let_def e split_def)
  next
    case False
    then show ?thesis by (auto simp: sound_def split: option.splits)
  qed
qed simp

lemma started_map:
  "started (map (\<lambda>x. Start (g x)) xs) = map g xs"
  "started (map (\<lambda>x. Start (g x)) xs @ [Err]) = map g xs"
  by (induction xs) (auto simp: started_def)

text \<open>C34: In a pipeline the programs before the first faulty command start, each with its input from the pipe
  before it and its output into the pipe behind it or into its file, and with no other descriptor open; the
  shell waits for as many as it started and has its own descriptors back. A faulty command is answered by one error
  message, except that a command without words makes the shell read a pointer that was never written.\<close>

theorem pipeline_descriptors:
  assumes "willing sys w" "num_pipes args \<le> 510"
  shows "pipeline sys std args w =
    (let cmds = pipe_cmds [] args; good = takeWhile (sound sys w) cmds; rest = drop (length good) cmds;
         children = map (\<lambda>(i, c). stage (num_pipes args) i c) (enumerate 0 good)
     in if rest \<noteq> [] \<and> hd rest = [] then Inl (OutOfBounds ''pipe_cmd_args'')
        else Inr (map Start children @ (if rest = [] then [] else [Err]) @ replicate (length good) Wait,
                  std, finish sys children w))"
proof -
  let ?n = "num_pipes args" and ?c = "pipe_cmds [] args"
  have m: "make_pipes 0 ?n std = (with_pipes ?n, map Some [3..<3 + 2 * ?n], [])"
    using make_pipes_all [of 0 ?n] assms(2) by (simp add: OPEN_MAX_def)
  have "0 + length ?c \<le> ?n + 1" by (simp add: length_pipe_cmds)
  note r = stages_run [OF assms(1) this]
  show ?thesis
    unfolding pipeline_def m Let_def prod.case r [unfolded Let_def]
    by (simp add: close_pipes started_map split_def comp_def)
qed

section \<open>Descriptors between commands\<close>

lemma pipeline_restores:
  assumes "num_pipes args \<le> 510" "pipeline sys std args w = Inr (es, t, w')"
  shows "t = std"
proof -
  have "make_pipes 0 (num_pipes args) std =
      (with_pipes (num_pipes args), map Some [3..<3 + 2 * num_pipes args], [])"
    using make_pipes_all [of 0 "num_pipes args"] assms(1) by (simp add: OPEN_MAX_def)
  then show ?thesis using assms(2) by (auto simp: pipeline_def Let_def close_pipes res_simps)
qed

lemma execute_restores:
  assumes "num_pipes args \<le> 510" "execute sys args std w = Inr (es, t, w', stop)"
  shows "t = std"
  using assms(2) pipeline_restores [OF assms(1)]
  by (auto simp: execute_def res_simps split: if_splits option.splits)

lemma repeat_restores:
  assumes "num_pipes args \<le> 510"
  shows "repeat_cmd sys args n std w = Inr (es, t, w', stop) \<Longrightarrow> t = std"
proof (induction n arbitrary: w es)
  case (Suc n)
  then show ?case using execute_restores [OF assms] by (fastforce simp: res_simps split: if_splits)
qed simp

lemma run_args_restores:
  assumes "num_pipes args \<le> 510" "run_args sys args std w = Inr (es, t, w', stop)"
  shows "t = std"
proof -
  have "num_pipes (drop 2 args) \<le> num_pipes args"
    unfolding num_pipes_def by (metis append_take_drop_id filter_append length_append le_add2)
  then show ?thesis
    using assms repeat_restores [of "drop 2 args"] repeat_restores [of args]
    by (auto simp: run_args_def Let_def simp del: repeat_cmd.simps split: if_splits)
qed

text \<open>No line leaks a descriptor: whatever fails on the way, before the next line the shell has its three
  standard descriptors and no other.\<close>

theorem lines_leak_no_descriptors:
  assumes "\<And>s. dup_ok sys s" "\<And>s. before sys s \<notin> set blanks"
    and "list_all (\<lambda>ws. num_pipes ws \<le> 510) (commands line)"
    and "run_line sys line std w = Inr (es, t, w', stop)"
  shows "t = std"
proof -
  have "run_words sys wss std w = Inr (es, t, w', stop) \<Longrightarrow> list_all (\<lambda>ws. num_pipes ws \<le> 510) wss \<Longrightarrow> t = std" for wss
  proof (induction wss arbitrary: w es)
    case (Cons ws wss)
    then show ?case using run_args_restores [of ws] by (fastforce simp: res_simps split: if_splits)
  qed simp
  then show ?thesis using assms(3,4) unfolding line_runs_its_words [OF assms(1,2)] by blast
qed

section \<open>A small system\<close>

definition small_sys :: "nat sys" where
  "small_sys = \<lparr>dup_ok = \<lambda>_. True, before = \<lambda>_. CHR 0x00, chdir = \<lambda>_ _. None, getcwd = \<lambda>_. Some ''/'',
     access = \<lambda>f _. f \<noteq> ''x'', can_exec = \<lambda>_ _. True, can_open = \<lambda>_ _. True, fork_ok = \<lambda>_ _. True,
     finish = \<lambda>cs w. w + length cs\<rparr>"

lemma small_sys_ok: "dup_ok small_sys s" "before small_sys s \<notin> set blanks" "willing small_sys w"
  by (simp_all add: small_sys_def blanks_def willing_def)

theorem line_runs_its_words_witness:
  "run_line small_sys '' exit  a ; pwd'' std 0 = Inr ([Err, Out ''/'', Out [NL]], std, 0, False)"
proof -
  have c: "commands '' exit  a ; pwd'' = [[''exit'', ''a''], [''pwd'']]"
    by (simp add: commands_def strtok.simps blanks_def)
  show ?thesis
    unfolding line_runs_its_words [OF small_sys_ok(1,2)] c
    by (simp add: run_args_def execute_def pwd_def small_sys_def)
qed

lemma small_redirects:
  "redirect [''a''] = Some ([''a''], None)" "redirect [''b'', ''>'', ''f''] = Some ([''b''], Some ''f'')"
  by code_simp+

theorem pipeline_descriptors_witness:
  "pipeline small_sys std [''a'', ''|'', ''b'', ''>'', ''f''] 0 = Inr (
     [Start (Execs [''a''] [0 \<mapsto> Std 0, 1 \<mapsto> WriteEnd 0, 2 \<mapsto> Std 2]),
      Start (Execs [''b''] [0 \<mapsto> ReadEnd 0, 1 \<mapsto> OutFile ''f'', 2 \<mapsto> OutFile ''f'']), Wait, Wait], std, 2) \<and>
   pipeline small_sys std [''a'', ''|''] 0 = Inl (OutOfBounds ''pipe_cmd_args'')"
proof -
  have n: "num_pipes [''a'', ''|'', ''b'', ''>'', ''f''] = 1" "num_pipes [''a'', ''|''] = 1"
    by (simp_all add: num_pipes_def)
  have g: "sound small_sys 0 [''a'']" "sound small_sys 0 [''b'', ''>'', ''f'']" "\<not> sound small_sys 0 []"
    by (simp_all add: sound_def small_redirects) (simp_all add: small_sys_def)
  show ?thesis
    using pipeline_descriptors [OF small_sys_ok(3), of "[''a'', ''|'', ''b'', ''>'', ''f'']" 0]
      pipeline_descriptors [OF small_sys_ok(3), of "[''a'', ''|'']" 0]
    by (simp add: n g stage_def small_redirects stage_fds_def Let_def) (simp add: small_sys_def)
qed

theorem lines_leak_no_descriptors_witness:
  "\<exists>es w' stop. run_line small_sys ''pwd'' std 0 = Inr (es, std, w', stop)"
proof -
  have c: "commands ''pwd'' = [[''pwd'']]" by (simp add: commands_def strtok.simps blanks_def)
  have "run_line small_sys ''pwd'' std 0 = Inr (pwd small_sys 0, std, 0, False)"
    unfolding line_runs_its_words [OF small_sys_ok(1,2)] c by (simp add: run_args_def execute_def)
  then obtain es t w' stop where r: "run_line small_sys ''pwd'' std 0 = Inr (es, t, w', stop)" by blast
  have "t = std" by (rule lines_leak_no_descriptors [OF small_sys_ok(1,2) _ r]) (simp add: c num_pipes_def)
  then show ?thesis using r by blast
qed

end
