(* ===== verification/Fortune.thy ===== *)
theory Fortune
  imports Libc
begin

text \<open>
  The fortune teller \<open>P1_Fortune_Teller/badger_fortune.c\<close>. The file system is a map from names to contents and
  a set of names that can be opened for writing; a stream is the rest of its contents. The result is what goes
  to the standard output and to the output file, and the exit code. \<open>getopt\<close> is that of the GNU library, which
  moves the arguments that are no options to the end.
\<close>

section \<open>The arguments\<close>

text \<open>One call of \<open>getopt\<close> with the option string \<open>:f:n:b:o:\<close>, at argument \<open>i\<close> with the arguments \<open>rest\<close> from
  there and those passed over. The value is what it returns with \<open>optarg\<close> or \<open>optopt\<close>, then \<open>optind\<close> and
  the arguments to go on with; \<open>Done\<close> has the final \<open>optind\<close> and the arguments then at the end.\<close>

datatype got = Done nat "string list" | Opt char string | Missing char | Unknown

definition is_option :: "string \<Rightarrow> bool" where
  "is_option a \<longleftrightarrow> length a > 1 \<and> hd a = CHR ''-''"

fun getopt :: "nat \<Rightarrow> string list \<Rightarrow> string list \<Rightarrow> got \<times> nat \<times> string list \<times> string list" where
  "getopt i [] passed = (Done (i - length passed) passed, i, [], passed)"
| "getopt i (a # rest) passed =
     (if a = ''--'' then (Done (i + 1 - length passed) (passed @ rest), i + 1, [], passed)
      else if \<not> is_option a then getopt (i + 1) rest (passed @ [a])
      else if a ! 1 \<notin> set ''fnbo'' then (Unknown, (if length a = 2 then i + 1 else i), rest, passed)
      else if length a > 2 then (Opt (a ! 1) (drop 2 a), i + 1, rest, passed)
      else case rest of [] \<Rightarrow> (Missing (a ! 1), i + 1, [], passed)
        | b # rest' \<Rightarrow> (Opt (a ! 1) b, i + 2, rest', passed))"

lemma getopt_shorter:
  "getopt i rest passed = (Opt c x, i', rest', passed') \<Longrightarrow> length rest' < length rest"
  by (induction i rest passed rule: getopt.induct) (fastforce split: if_splits list.splits)+

text \<open>The first argument at an odd place that does not begin with a dash.\<close>

definition invalid_flag :: "string list \<Rightarrow> nat option" where
  "invalid_flag argv = find (\<lambda>i. odd i \<and> \<not> (argv ! i \<noteq> [] \<and> hd (argv ! i) = CHR ''-'')) [1..<length argv]"

record disk =
  contents :: "string \<Rightarrow> string option"
  writable :: "string \<Rightarrow> bool"

record opts =
  fp :: "string option"
  bp :: "string option"
  op :: "string option"
  number :: int
  is_n :: bool
  is_b :: bool

text \<open>How the program ends before it writes anything else: with a message and the code 1.\<close>

abbreviation "bad_flags \<equiv> ''ERROR: Invalid Flag Types''"
abbreviation "bad_number \<equiv> ''ERROR: Invalid Fortune Number''"
abbreviation "no_fortunes \<equiv> ''ERROR: No fortune file was provided''"
abbreviation "n_with_b \<equiv> ''ERROR: You can't specify a specific fortune number in conjunction with batch mode''"
abbreviation "b_with_n \<equiv> ''ERROR: You can't use batch mode when specifying a fortune number using -n''"

text \<open>The character that \<open>fgetc\<close> returns is stored in a \<open>char\<close>: the byte 255 is taken for the end.\<close>

definition seems_empty :: "string \<Rightarrow> bool" where
  "seems_empty s \<longleftrightarrow> s = [] \<or> hd s = CHR 0xFF"

definition option :: "disk \<Rightarrow> char \<Rightarrow> string \<Rightarrow> opts \<Rightarrow> string + (opts \<times> disk)" where
  "option d c optarg st =
     (if c = CHR ''f'' then
        (case contents d optarg of None \<Rightarrow> Inl ''ERROR: Can't open fortune file''
         | Some s \<Rightarrow> if seems_empty s then Inl ''ERROR: Fortune File Empty'' else Inr (st\<lparr>fp := Some s\<rparr>, d))
      else if c = CHR ''n'' then
        (if is_b st then Inl n_with_b
         else if atoi optarg \<le> 0 then Inl bad_number
         else Inr (st\<lparr>is_n := True, number := atoi optarg\<rparr>, d))
      else if c = CHR ''b'' then
        (if is_n st then Inl b_with_n
         else case contents d optarg of None \<Rightarrow> Inl ''ERROR: Can't open batch file''
         | Some s \<Rightarrow> if seems_empty s then Inl ''ERROR: Batch File Empty''
             else Inr (st\<lparr>is_b := True, bp := Some s\<rparr>, d))
      else if writable d optarg then Inr (st\<lparr>op := Some optarg\<rparr>, d\<lparr>contents := (contents d)(optarg \<mapsto> [])\<rparr>)
      else Inr (st\<lparr>op := None\<rparr>, d))"

definition missing :: "char \<Rightarrow> opts \<Rightarrow> string" where
  "missing c st = (if c = CHR ''b'' \<and> is_n st then b_with_n
     else if c = CHR ''n'' \<and> is_b st then n_with_b else no_fortunes)"

function options :: "nat option \<Rightarrow> nat \<Rightarrow> string list \<Rightarrow> string list \<Rightarrow> disk \<Rightarrow> opts \<Rightarrow>
    string + (opts \<times> disk \<times> nat \<times> string list)" where
  "options invalid i rest passed d st =
     (case getopt i rest passed of (got, optind, rest', passed') \<Rightarrow>
        (case got of
           Done k last_args \<Rightarrow> Inr (st, d, k, last_args)
         | Opt c optarg \<Rightarrow>
             if (case invalid of None \<Rightarrow> False | Some v \<Rightarrow> optind > v) \<and> c \<noteq> CHR ''f'' then Inl bad_flags
             else bindE (option d c optarg st) (\<lambda>(st', d'). options invalid optind rest' passed' d' st')
         | Missing c \<Rightarrow>
             if (case invalid of None \<Rightarrow> False | Some v \<Rightarrow> optind > v) then Inl bad_flags else Inl (missing c st)
         | Unknown \<Rightarrow> Inl bad_flags))"
  by pat_completeness auto

termination
proof (relation "measure (\<lambda>(invalid, i, rest, passed, d, st). length rest)", goal_cases)
  case (2 invalid i rest passed d st x y xa ya xb yb c optarg)
  then have "getopt i rest passed = (Opt c optarg, xa, xb, yb)" by simp
  then show ?case using getopt_shorter by simp
qed simp

declare options.simps [simp del]

definition start_opts :: opts where
  "start_opts = \<lparr>fp = None, bp = None, op = None, number = - 1, is_n = False, is_b = False\<rparr>"

definition parse_args :: "disk \<Rightarrow> string list \<Rightarrow> string + (opts \<times> disk)" where
  "parse_args d argv =
     (let invalid = invalid_flag argv in
      bindE (options invalid 1 (tl argv) [] d start_opts) (\<lambda>(st, d', optind, last_args).
        if (case invalid of None \<Rightarrow> False | Some v \<Rightarrow> optind \<ge> v) then Inl bad_flags
        else if length argv = 6 \<and> (if last_args = [] then last argv else last last_args) \<noteq> ''-f'' then Inl bad_flags
        else if fp st = None then Inl no_fortunes
        else Inr (st, d')))"

section \<open>Reading the fortunes\<close>

abbreviation mark :: string where "mark \<equiv> ''%'' @ [NL]"

text \<open>The loop over the lines: the count of marks, the fortune being read, and the finished ones. The arrays
  have \<open>f_max_size\<close> bytes, the final NUL included; \<open>strcat\<close> takes a line up to its first NUL.\<close>

function read_fortunes :: "nat \<Rightarrow> nat \<Rightarrow> nat \<Rightarrow> string \<Rightarrow> string option list \<Rightarrow> string \<Rightarrow>
    (string \<times> string option list) result" where
  "read_fortunes f_max_size f_cnt cnt temp fortunes file_rest =
     (if f_max_size \<le> 1 then Inr (temp, fortunes)
      else case fgets f_max_size file_rest of
        None \<Rightarrow> Inr (temp, fortunes)
      | Some (buffer, rest) \<Rightarrow>
          if cnt > f_cnt then Inr (temp, fortunes)
          else if take 2 buffer = mark then
            (if cnt = 0 then read_fortunes f_max_size f_cnt 1 temp fortunes rest
             else read_fortunes f_max_size f_cnt (cnt + 1) [] (fortunes[cnt - 1 := Some temp]) rest)
          else if length temp + length (c_string buffer) < f_max_size
          then read_fortunes f_max_size f_cnt cnt (temp @ c_string buffer) fortunes rest
          else Inl (OutOfBounds ''temp''))"
  by pat_completeness auto

termination
  by (relation "measure (\<lambda>(f_max_size, f_cnt, cnt, temp, fortunes, r). length r)")
     (auto dest: sym fgets_shorter)

declare read_fortunes.simps [simp del]

definition max_size :: "string \<Rightarrow> int" where
  "max_size int_buffer = max 3 (atoi int_buffer + 1)"

text \<open>The fortunes; a table of no or less than no entries is written outside.\<close>

definition fortune_table :: "int \<Rightarrow> string \<Rightarrow> string \<Rightarrow> string option list result" where
  "fortune_table f_cnt first_line rest =
     (let (int_buffer, rest') = (case fgets 20 rest of None \<Rightarrow> (first_line, rest) | Some x \<Rightarrow> x) in
      if f_cnt \<le> 0 then Inl (OutOfBounds ''fortunes'')
      else bindE (read_fortunes (nat (max_size int_buffer)) (nat f_cnt) 0 [] (replicate (nat f_cnt) None) rest')
        (\<lambda>(temp, fortunes). Inr (fortunes[nat f_cnt - 1 := Some temp])))"

section \<open>Answers\<close>

definition fortune :: "string option list \<Rightarrow> int \<Rightarrow> string result" where
  \<comment> \<open>an entry that was never written holds whatever the heap does\<close>
  "fortune fortunes n = (case fortunes ! nat (n - 1) of None \<Rightarrow> Inl (OutOfBounds ''fortunes'') | Some s \<Rightarrow> Inr s)"

datatype dest = Stdout | Outfile string

definition dest_of :: "opts \<Rightarrow> dest" where
  "dest_of st = (case op st of None \<Rightarrow> Stdout | Some f \<Rightarrow> Outfile f)"

function batch :: "opts \<Rightarrow> string option list \<Rightarrow> string \<Rightarrow> (dest \<times> string) list result" where
  "batch st fortunes r =
     (case fgets 20 r of
        None \<Rightarrow> Inr []
      | Some (int_buffer, rest) \<Rightarrow>
          let num = atoi int_buffer in
          bindE (if num \<le> 0 \<or> num > int (length fortunes) then Inr (Stdout, bad_number @ [NL, NL])
            else bindE (fortune fortunes num) (\<lambda>s. Inr (dest_of st, s @ [NL, NL]))) (\<lambda>x.
          bindE (batch st fortunes rest) (\<lambda>xs. Inr (x # xs))))"
  by pat_completeness auto

termination by (relation "measure (\<lambda>(st, fortunes, r). length r)") (auto dest: sym fgets_shorter)

declare batch.simps [simp del]

definition usage :: string where
  "usage = ''USAGE: '' @ [NL, CHR 0x09] @
     ''badger-fortune -f <file> -n <number> (optionally: -o <output file>) '' @ [NL, CHR 0x09, CHR 0x09] @
     '' OR '' @ [NL, CHR 0x09] @ ''badger-fortune -f <file> -b <batch file> (optionally: -o <output file>)'' @ [NL]"

definition message :: "string \<Rightarrow> (dest \<times> string) list \<times> int" where
  "message s = ([(Stdout, s @ [NL])], 1)"

definition badger_fortune :: "disk \<Rightarrow> string list \<Rightarrow> ((dest \<times> string) list \<times> int) result" where
  "badger_fortune d argv =
     (if length argv < 5 then Inr ([(Stdout, usage)], 1)
      else case parse_args d argv of
        Inl msg \<Rightarrow> Inr (message msg)
      | Inr (st, d') \<Rightarrow>
          (case fgets 20 (the (fp st)) of
             None \<Rightarrow> Inl (OutOfBounds ''int_buffer'')
           | Some (first_line, rest) \<Rightarrow>
               let f_cnt = atoi first_line in
               if number st > f_cnt then Inr (message bad_number)
               else bindE (fortune_table f_cnt first_line rest) (\<lambda>fortunes.
                 if is_n st then bindE (fortune fortunes (number st)) (\<lambda>s. Inr ([(dest_of st, s)], 0))
                 else (case bp st of None \<Rightarrow> Inl (OutOfBounds ''bp'')
                   | Some b \<Rightarrow> bindE (batch st fortunes b) (\<lambda>xs. Inr (xs, 0))))))"

end
