(* ===== verification/Fortune_Spec.thy ===== *)
theory Fortune_Spec
  imports Fortune
begin

text \<open>
  What the fortune teller answers on a file in the right format, for every command line that it accepts.
\<close>

section \<open>Files in the right format\<close>

definition lines_text :: "string list \<Rightarrow> string" where
  "lines_text ls = concat (map (\<lambda>l. l @ [NL]) ls)"

lemma lines_text_simps [simp]: "lines_text [] = []" "lines_text (l # ls) = l @ NL # lines_text ls"
  by (simp_all add: lines_text_def)

text \<open>What is told of the lines: each up to its first NUL, if it has one.\<close>

definition told :: "string list \<Rightarrow> string" where
  "told ls = concat (map (\<lambda>l. c_string (l @ [NL])) ls)"

lemma told_simps [simp]: "told [] = []" "told (l # ls) = c_string (l @ [NL]) @ told ls"
  by (simp_all add: told_def)

text \<open>A fortune is a list of lines, none of them a percent sign alone, that fits the size in the file.\<close>

definition fits :: "nat \<Rightarrow> string list \<Rightarrow> bool" where
  "fits sz ls \<longleftrightarrow> list_all (\<lambda>l. NL \<notin> set l \<and> l \<noteq> ''%'') ls \<and> length (lines_text ls) < sz"

text \<open>The fortunes of a file, each after its mark; \<open>marked\<close> tells whether one more mark follows the last.\<close>

definition body :: "bool \<Rightarrow> string list list \<Rightarrow> string" where
  "body marked fs = concat (map (\<lambda>f. mark @ lines_text f) fs) @ (if marked then mark else [])"

definition fortune_file :: "string \<Rightarrow> string \<Rightarrow> bool \<Rightarrow> string list list \<Rightarrow> string" where
  "fortune_file l1 l2 marked fs = l1 @ [NL] @ l2 @ [NL] @ body marked fs"

definition well_formed :: "string \<Rightarrow> string \<Rightarrow> string list list \<Rightarrow> bool" where
  "well_formed l1 l2 fs \<longleftrightarrow> fs \<noteq> [] \<and> atoi (l1 @ [NL]) = int (length fs) \<and>
     NL \<notin> set l1 \<and> length l1 < 19 \<and> NL \<notin> set l2 \<and> length l2 < 19 \<and>
     list_all (fits (nat (max_size (l2 @ [NL])))) fs"

text \<open>What the program keeps of them: the mark behind the last fortune makes it empty.\<close>

definition kept :: "bool \<Rightarrow> string list list \<Rightarrow> string list" where
  "kept marked fs = (if marked then map told (butlast fs) @ [[]] else map told fs)"

section \<open>The reading loop\<close>

lemma read_mark:
  assumes "3 \<le> sz" "cnt \<le> k"
  shows "read_fortunes sz k cnt temp F (mark @ r) =
    (if cnt = 0 then read_fortunes sz k 1 temp F r
     else read_fortunes sz k (cnt + 1) [] (F[cnt - 1 := Some temp]) r)"
proof -
  have "fgets sz (mark @ r) = Some (mark, r)" using fgets_line [of "''%''" sz r] assms by simp
  then show ?thesis using assms by (subst read_fortunes.simps) simp
qed

lemma read_lines:
  assumes "3 \<le> sz" "cnt \<le> k"
  shows "list_all (\<lambda>l. NL \<notin> set l \<and> l \<noteq> ''%'') ls \<Longrightarrow> length temp + length (lines_text ls) < sz \<Longrightarrow>
    read_fortunes sz k cnt temp F (lines_text ls @ r) = read_fortunes sz k cnt (temp @ told ls) F r"
proof (induction ls arbitrary: temp)
  case (Cons l ls)
  have f: "fgets sz (l @ NL # lines_text ls @ r) = Some (l @ [NL], lines_text ls @ r)"
    using fgets_line [of l sz "lines_text ls @ r"] Cons.prems by simp
  have m: "take 2 (l @ [NL]) \<noteq> mark"
    using Cons.prems(1) by (cases l; cases "tl l") auto
  have c: "length (c_string (l @ [NL])) \<le> length l + 1" using length_c_string [of "l @ [NL]"] by simp
  have "read_fortunes sz k cnt temp F (l @ NL # lines_text ls @ r) =
      read_fortunes sz k cnt (temp @ c_string (l @ [NL])) F (lines_text ls @ r)"
    using assms Cons.prems m c by (subst read_fortunes.simps) (simp add: f)
  then show ?case using Cons.IH [of "temp @ c_string (l @ [NL])"] Cons.prems c by simp
qed simp

lemma read_end: "read_fortunes sz k cnt temp F [] = Inr (temp, F)"
  by (subst read_fortunes.simps) simp

lemma read_body:
  assumes "3 \<le> sz"
  shows "list_all (fits sz) (f # fs) \<Longrightarrow> j + length (f # fs) = length F \<Longrightarrow>
    \<exists>temp F'. read_fortunes sz (length F) (Suc j) [] F (lines_text f @ body marked fs) = Inr (temp, F') \<and>
      F'[length F - 1 := Some temp] = take j F @ map Some (kept marked (f # fs))"
proof (induction fs arbitrary: f j F)
  case Nil
  have f: "read_fortunes sz (length F) (Suc j) [] F (lines_text f @ body marked []) =
      read_fortunes sz (length F) (Suc j) (told f) F (body marked [])"
    using read_lines [of sz "Suc j" "length F" f "[]"] assms Nil.prems by (simp add: fits_def)
  have F: "F[j := x] = take j F @ [x]" for x
    using Nil.prems by (simp add: upd_conv_take_nth_drop)
  show ?case
  proof (cases marked)
    case True
    have "read_fortunes sz (length F) (Suc j) (told f) F (body marked []) =
        Inr ([], F[j := Some (told f)])"
      using read_mark [of sz "Suc j" "length F" "told f" F "[]"] assms Nil.prems True
      by (simp add: body_def read_end)
    moreover have "length F - 1 = j" using Nil.prems by simp
    ultimately show ?thesis unfolding f using True by (simp add: kept_def F [symmetric])
  next
    case False
    moreover have "length F - 1 = j" using Nil.prems by simp
    ultimately show ?thesis unfolding f by (simp add: kept_def F [symmetric] body_def read_end)
  qed
next
  case (Cons g fs)
  have b: "body marked (g # fs) = mark @ lines_text g @ body marked fs" by (simp add: body_def)
  have "read_fortunes sz (length F) (Suc j) [] F (lines_text f @ body marked (g # fs)) =
      read_fortunes sz (length F) (Suc (Suc j)) [] (F[j := Some (told f)]) (lines_text g @ body marked fs)"
    using read_lines [of sz "Suc j" "length F" f "[]" F "body marked (g # fs)"]
      read_mark [of sz "Suc j" "length F" "told f" F "lines_text g @ body marked fs"] assms Cons.prems
    unfolding b by (simp add: fits_def)
  moreover have "take (Suc j) (F[j := Some (told f)]) = take j F @ [Some (told f)]"
    using Cons.prems(2) by (simp add: take_Suc_conv_app_nth)
  moreover have "kept marked (f # g # fs) = told f # kept marked (g # fs)" by (simp add: kept_def)
  ultimately show ?case
    using Cons.IH [of g "Suc j" "F[j := Some (told f)]"] Cons.prems by simp
qed

lemma table_ok:
  assumes "well_formed l1 l2 fs"
  shows "fortune_table (int (length fs)) (l1 @ [NL]) (l2 @ [NL] @ body marked fs) = Inr (map Some (kept marked fs))"
proof -
  obtain f fs' where fs: "fs = f # fs'" using assms by (cases fs) (auto simp: well_formed_def)
  let ?sz = "nat (max_size (l2 @ [NL]))" and ?F = "replicate (length fs) (None :: string option)"
  have sz: "3 \<le> ?sz" by (simp add: max_size_def)
  have g: "fgets 20 (l2 @ NL # body marked fs) = Some (l2 @ [NL], body marked fs)"
    using assms by (intro fgets_line) (simp_all add: well_formed_def)
  have "body marked fs = mark @ lines_text f @ body marked fs'" by (simp add: body_def fs)
  then have "read_fortunes ?sz (length fs) 0 [] ?F (body marked fs) =
      read_fortunes ?sz (length fs) (Suc 0) [] ?F (lines_text f @ body marked fs')"
    using read_mark [OF sz, of 0] by simp
  moreover obtain temp F' where
    "read_fortunes ?sz (length fs) (Suc 0) [] ?F (lines_text f @ body marked fs') = Inr (temp, F')"
    "F'[length fs - 1 := Some temp] = map Some (kept marked fs)"
    using read_body [OF sz, of f fs' 0 ?F marked] assms by (auto simp: well_formed_def fs)
  moreover have "nat (int (length fs)) = length fs" "\<not> int (length fs) \<le> 0" using fs by simp_all
  ultimately show ?thesis by (simp only: fortune_table_def append_Cons append_Nil g option.case Let_def prod.case if_False bindE_simps)
qed

lemma length_kept: "fs \<noteq> [] \<Longrightarrow> length (kept marked fs) = length fs"
  by (simp add: kept_def)

section \<open>Options\<close>

definition opts_ok :: "opts \<Rightarrow> bool" where
  "opts_ok st \<longleftrightarrow> (if is_n st then 0 < number st else number st = - 1)"

lemma option_ok: "option d c x st = Inr (st', d') \<Longrightarrow> opts_ok st \<Longrightarrow> opts_ok st'"
  by (auto simp: option_def opts_ok_def split: if_splits option.splits)

lemma options_ok:
  "options invalid i rest passed d st = Inr (st', d', k, xs) \<Longrightarrow> opts_ok st \<Longrightarrow> opts_ok st'"
proof (induction invalid i rest passed d st rule: options.induct)
  case (1 invalid i rest passed d st)
  then show ?case
    unfolding options.simps [of invalid i rest passed d st]
    by (fastforce simp: res_simps split: prod.splits got.splits if_splits dest: option_ok)
qed

lemma parse_args_ok:
  assumes "parse_args d argv = Inr (st, d')"
  shows "opts_ok st" "fp st \<noteq> None"
proof -
  obtain k xs where o: "options (invalid_flag argv) 1 (tl argv) [] d start_opts = Inr (st, d', k, xs)"
    using assms by (auto simp: parse_args_def Let_def res_simps split: if_splits)
  show "opts_ok st" by (rule options_ok [OF o]) (simp add: opts_ok_def start_opts_def)
  show "fp st \<noteq> None" using assms o by (auto simp: parse_args_def Let_def split: if_splits)
qed

section \<open>Answers\<close>

text \<open>The answer to a line of the batch file.\<close>

definition answer :: "dest \<Rightarrow> string list \<Rightarrow> string \<Rightarrow> dest \<times> string" where
  "answer out fs l = (let n = atoi l in
     if n \<le> 0 \<or> n > int (length fs) then (Stdout, bad_number @ [NL, NL])
     else (out, fs ! nat (n - 1) @ [NL, NL]))"

lemma fortune_kept:
  assumes "0 < n" "n \<le> int (length fs)"
  shows "fortune (map Some fs) n = Inr (fs ! nat (n - 1))"
proof -
  have "nat (n - 1) < length fs" using assms by linarith
  then show ?thesis by (simp add: fortune_def)
qed

lemma batch_ok:
  "list_all (\<lambda>l. NL \<notin> set l \<and> length l < 19) ls \<Longrightarrow>
     batch st (map Some fs) (lines_text ls) = Inr (map (\<lambda>l. answer (dest_of st) fs (l @ [NL])) ls)"
proof (induction ls)
  case (Cons l ls)
  have f: "fgets 20 (l @ NL # lines_text ls) = Some (l @ [NL], lines_text ls)"
    using Cons.prems by (intro fgets_line) simp_all
  have "batch st (map Some fs) (l @ NL # lines_text ls) =
      Inr (answer (dest_of st) fs (l @ [NL]) # map (\<lambda>l. answer (dest_of st) fs (l @ [NL])) ls)"
    using Cons fortune_kept [of "atoi (l @ [NL])" fs]
    by (subst batch.simps) (simp add: f answer_def Let_def)
  then show ?case by simp
qed (subst batch.simps, simp)

text \<open>C35: Whatever options are accepted, on a fortune file in the right format the program answers with the
  fortunes that follow the marks of the file: the one asked for, or one for each line of the batch file, with an error
  for each bad number. Only a file with one more mark behind its last fortune loses that one, and without
  \<open>-n\<close> and \<open>-b\<close> the program reads through a null pointer.\<close>

theorem fortunes_are_told:
  assumes args: "5 \<le> length argv" "parse_args d argv = Inr (st, d')"
    and "fp st = Some (fortune_file l1 l2 marked fs)" "well_formed l1 l2 fs"
    and b: "\<And>b. bp st = Some b \<Longrightarrow> b = lines_text ls \<and> list_all (\<lambda>l. NL \<notin> set l \<and> length l < 19) ls"
  shows "badger_fortune d argv =
    (if number st > int (length fs) then Inr (message bad_number)
     else if is_n st then Inr ([(dest_of st, kept marked fs ! nat (number st - 1))], 0)
     else if bp st = None then Inl (OutOfBounds ''bp'')
     else Inr (map (\<lambda>l. answer (dest_of st) (kept marked fs) (l @ [NL])) ls, 0))"
proof -
  have ne: "fs \<noteq> []" and n: "atoi (l1 @ [NL]) = int (length fs)" using assms(4) by (simp_all add: well_formed_def)
  have f: "fgets 20 (fortune_file l1 l2 marked fs) = Some (l1 @ [NL], l2 @ [NL] @ body marked fs)"
    using assms(4) fgets_line [of l1 20 "l2 @ [NL] @ body marked fs"]
    by (simp add: fortune_file_def well_formed_def)
  have len: "length (kept marked fs) = length fs" by (rule length_kept [OF ne])
  have o: "is_n st \<Longrightarrow> 0 < number st" using parse_args_ok(1) [OF args(2)] by (simp add: opts_ok_def)
  show ?thesis
    using args assms(3) o b batch_ok [of ls st "kept marked fs"] fortune_kept [of "number st" "kept marked fs"]
    by (auto simp: badger_fortune_def f n table_ok [OF assms(4)] len Let_def simp del: append.simps split: option.splits)
qed

section \<open>An example\<close>

definition two_fortunes :: disk where
  "two_fortunes = \<lparr>contents = [''f'' \<mapsto> fortune_file ''2'' ''9'' False [[''one''], [''two'']]], writable = \<lambda>_. True\<rparr>"

lemma atoi_two: "atoi ''2'' = 2" "atoi (''2'' @ [NL]) = 2" "atoi (''9'' @ [NL]) = 9"
  by (simp_all add: atoi_def digit_val_def blanks_def Let_def signed_take_bit_int_eq_self)

lemma two_fortunes_args:
  "parse_args two_fortunes [''p'', ''-f'', ''f'', ''-n'', ''2''] =
     Inr (start_opts\<lparr>fp := Some (fortune_file ''2'' ''9'' False [[''one''], [''two'']]), is_n := True, number := 2\<rparr>, two_fortunes)"
proof -
  have i: "invalid_flag [''p'', ''-f'', ''f'', ''-n'', ''2''] = None"
    by (simp add: invalid_flag_def find_None_iff)
  have "options None 1 [''-f'', ''f'', ''-n'', ''2''] [] two_fortunes start_opts =
      Inr (start_opts\<lparr>fp := Some (fortune_file ''2'' ''9'' False [[''one''], [''two'']]), is_n := True, number := 2\<rparr>,
        two_fortunes, 5, [])"
    by (simp add: options.simps is_option_def option_def start_opts_def two_fortunes_def)
       (simp add: atoi_two seems_empty_def fortune_file_def)
  then show ?thesis by (simp add: parse_args_def i Let_def)
qed

theorem fortunes_are_told_witness:
  "badger_fortune two_fortunes [''p'', ''-f'', ''f'', ''-n'', ''2''] = Inr ([(Stdout, ''two'' @ [NL])], 0)"
proof -
  have "well_formed ''2'' ''9'' [[''one''], [''two'']]"
    by (simp add: well_formed_def atoi_two [simplified] fits_def max_size_def)
  then show ?thesis
    using fortunes_are_told [OF _ two_fortunes_args, of "''2''" "''9''" False "[[''one''], [''two'']]" "[]"]
    by (simp add: start_opts_def dest_of_def kept_def c_string_def)
qed

end
