(* ===== verification/Umalloc.thy ===== *)
theory Umalloc
  imports Prelude
begin

text \<open>
  The memory allocator of user programs, \<open>user/umalloc.c\<close>, after Kernighan and Ritchie. Addresses and sizes are
  natural numbers with the wrap-around at 32 bits written out; a header has 8 bytes and is found through
  its address. The loops walk a circular list that a program can corrupt, so they are partial; the
  theory \<open>Umalloc_Spec\<close> shows that they end.
\<close>

definition W :: nat where "W = 2 ^ 32"

record heap =
  ptr :: "nat \<Rightarrow> nat"
  size_of :: "nat \<Rightarrow> nat"
  base :: nat          \<comment> \<open>\<open>&base\<close>\<close>
  freep :: nat         \<comment> \<open>0 is the null pointer\<close>
  brk :: nat           \<comment> \<open>the size of the process\<close>
  limit :: nat         \<comment> \<open>what it can grow to\<close>

definition set_ptr :: "nat \<Rightarrow> nat \<Rightarrow> heap \<Rightarrow> heap" where
  "set_ptr p x h = h\<lparr>ptr := (ptr h)(p := x)\<rparr>"

definition set_size :: "nat \<Rightarrow> nat \<Rightarrow> heap \<Rightarrow> heap" where
  "set_size p x h = h\<lparr>size_of := (size_of h)(p := x)\<rparr>"

text \<open>Pointer arithmetic on headers.\<close>

definition hplus :: "nat \<Rightarrow> nat \<Rightarrow> nat" where
  "hplus p n = (p + 8 * n) mod W"

section \<open>The kernel's part\<close>

text \<open>\<open>sbrk(n)\<close> as \<open>growproc\<close> does it: the old size, or -1; the argument is signed.\<close>

definition sbrk :: "nat \<Rightarrow> heap \<Rightarrow> nat \<times> heap" where
  "sbrk n h =
     (if n < 2 ^ 31 then
        (if brk h + n \<le> limit h then (brk h, h\<lparr>brk := brk h + n\<rparr>) else (W - 1, h))
      else let b = (brk h + n) mod W in
        if b = 0 then (W - 1, h) else (brk h, if b < brk h then h\<lparr>brk := b\<rparr> else h))"

section \<open>Giving back\<close>

partial_function (option) free_scan :: "heap \<Rightarrow> nat \<Rightarrow> nat \<Rightarrow> nat option" where
  "free_scan h bp p =
     (if bp > p \<and> bp < ptr h p then Some p
      else if p \<ge> ptr h p \<and> (bp > p \<or> bp < ptr h p) then Some p
      else free_scan h bp (ptr h p))"

definition join_next :: "nat \<Rightarrow> nat \<Rightarrow> heap \<Rightarrow> heap" where
  "join_next bp p h =
     (if hplus bp (size_of h bp) = ptr h p
      then let h1 = set_size bp ((size_of h bp + size_of h (ptr h p)) mod W) h in set_ptr bp (ptr h1 (ptr h1 p)) h1
      else set_ptr bp (ptr h p) h)"

definition join_prev :: "nat \<Rightarrow> nat \<Rightarrow> heap \<Rightarrow> heap" where
  "join_prev bp p h =
     (if hplus p (size_of h p) = bp
      then let h1 = set_size p ((size_of h p + size_of h bp) mod W) h in set_ptr p (ptr h1 bp) h1
      else set_ptr p bp h)"

definition free :: "nat \<Rightarrow> heap \<Rightarrow> heap option" where
  "free ap h =
     (let bp = (ap + W - 8) mod W in
      case free_scan h bp (freep h) of
        None \<Rightarrow> None
      | Some p \<Rightarrow> Some ((join_prev bp p (join_next bp p h))\<lparr>freep := p\<rparr>))"

section \<open>Taking\<close>

definition morecore :: "nat \<Rightarrow> heap \<Rightarrow> (nat \<times> heap) option" where
  "morecore nu h =
     (let nu = (if nu < 4096 then 4096 else nu); (p, h1) = sbrk ((nu * 8) mod W) h in
      if p = W - 1 then Some (0, h1)
      else case free (hplus p 1) (set_size p nu h1) of None \<Rightarrow> None | Some h2 \<Rightarrow> Some (freep h2, h2))"

definition take_block :: "nat \<Rightarrow> nat \<Rightarrow> nat \<Rightarrow> heap \<Rightarrow> nat \<times> heap" where
  "take_block nunits prevp p h =
     (if size_of h p = nunits then (hplus p 1, (set_ptr prevp (ptr h p) h)\<lparr>freep := prevp\<rparr>)
      else let h1 = set_size p (size_of h p - nunits) h; p' = hplus p (size_of h1 p); h2 = set_size p' nunits h1
        in (hplus p' 1, h2\<lparr>freep := prevp\<rparr>))"

partial_function (option) malloc_loop :: "nat \<Rightarrow> nat \<Rightarrow> nat \<Rightarrow> heap \<Rightarrow> (nat \<times> heap) option" where
  "malloc_loop nunits prevp p h =
     (if size_of h p \<ge> nunits then Some (take_block nunits prevp p h)
      else if p = freep h then
        (case morecore nunits h of None \<Rightarrow> None
         | Some (p', h') \<Rightarrow> if p' = 0 then Some (0, h') else malloc_loop nunits p' (ptr h' p') h')
      else malloc_loop nunits p (ptr h p) h)"

definition nunits :: "nat \<Rightarrow> nat" where
  "nunits nbytes = ((nbytes + 8 - 1) mod W) div 8 + 1"

definition start_list :: "heap \<Rightarrow> heap" where
  "start_list h = (if freep h = 0 then (set_size (base h) 0 (set_ptr (base h) (base h) h))\<lparr>freep := base h\<rparr> else h)"

definition malloc :: "nat \<Rightarrow> heap \<Rightarrow> (nat \<times> heap) option" where
  "malloc nbytes h =
     (let h1 = start_list h in malloc_loop (nunits nbytes) (freep h1) (ptr h1 (freep h1)) h1)"

end
