(* ===== verification/Umalloc_Spec.thy ===== *)
theory Umalloc_Spec
  imports Umalloc
begin

text \<open>
  The allocator of user programs keeps its free blocks on a circular list in the order of their addresses,
  no two of them touching. Over any run of calls the blocks it has given out are disjoint from each other and
  from the free ones, and every call returns.
\<close>

lemma heap_simps [simp]:
  "ptr (set_ptr p x h) = (ptr h)(p := x)" "size_of (set_ptr p x h) = size_of h"
  "ptr (set_size p x h) = ptr h" "size_of (set_size p x h) = (size_of h)(p := x)"
  "base (set_ptr p x h) = base h" "base (set_size p x h) = base h"
  "freep (set_ptr p x h) = freep h" "freep (set_size p x h) = freep h"
  "brk (set_ptr p x h) = brk h" "brk (set_size p x h) = brk h"
  "limit (set_ptr p x h) = limit h" "limit (set_size p x h) = limit h"
  by (simp_all add: set_ptr_def set_size_def)

section \<open>The list\<close>

fun linked :: "heap \<Rightarrow> nat list \<Rightarrow> nat \<Rightarrow> bool" where
  "linked h [] z = True"
| "linked h (p # ps) z \<longleftrightarrow> ptr h p = (case ps of [] \<Rightarrow> z | q # _ \<Rightarrow> q) \<and> linked h ps z"

lemma hlinked_append:
  "linked h (xs @ ys) z \<longleftrightarrow> linked h xs (case ys of [] \<Rightarrow> z | y # _ \<Rightarrow> y) \<and> linked h ys z"
proof (induction xs)
  case (Cons x xs)
  then show ?case by (cases xs; cases ys) auto
qed simp

lemma hlinked_cong: "(\<And>p. p \<in> set ps \<Longrightarrow> ptr h' p = ptr h p) \<Longrightarrow> linked h' ps z = linked h ps z"
  by (induction ps) auto

definition spaced :: "heap \<Rightarrow> nat list \<Rightarrow> bool" where
  "spaced h ps \<longleftrightarrow> sorted_wrt (\<lambda>p q. p + 8 * size_of h p < q) ps"

definition ring :: "heap \<Rightarrow> nat list \<Rightarrow> bool" where
  "ring h qs \<longleftrightarrow> linked h (base h # qs) (base h) \<and> spaced h (base h # qs) \<and> size_of h (base h) = 0 \<and>
     freep h \<in> set (base h # qs) \<and> 0 < base h \<and> base h + 8 \<le> brk h \<and> brk h \<le> limit h \<and> limit h < W - 1 \<and>
     (\<forall>q \<in> set qs. base h + 8 \<le> q \<and> 1 \<le> size_of h q \<and> q + 8 * size_of h q \<le> brk h)"

lemma spaced_distinct: "spaced h ps \<Longrightarrow> sorted_wrt (<) ps"
  unfolding spaced_def by (erule sorted_wrt_mono_rel [rotated]) auto

lemma ring_sorted: "ring h qs \<Longrightarrow> sorted_wrt (<) (base h # qs)"
  unfolding ring_def by (blast intro: spaced_distinct)

section \<open>Walking the list\<close>

definition stops :: "heap \<Rightarrow> nat \<Rightarrow> nat \<Rightarrow> bool" where
  "stops h bp p \<longleftrightarrow> p < bp \<and> bp < ptr h p \<or> ptr h p \<le> p \<and> (p < bp \<or> bp < ptr h p)"

lemma free_scan_list:
  "linked h (p # rs) z \<Longrightarrow> \<exists>x \<in> set (p # rs). stops h bp x \<Longrightarrow>
     \<exists>x \<in> set (p # rs). stops h bp x \<and> free_scan h bp p = Some x"
proof (induction rs arbitrary: p)
  case Nil
  then show ?case by (subst free_scan.simps) (auto simp: stops_def)
next
  case (Cons q rs)
  show ?case
  proof (cases "stops h bp p")
    case True
    then show ?thesis by (subst free_scan.simps) (auto simp: stops_def)
  next
    case False
    then have "free_scan h bp p = free_scan h bp q"
      using Cons.prems(1) by (subst free_scan.simps) (auto simp: stops_def)
    then show ?thesis using Cons False by auto
  qed
qed

lemma rotate_linked:
  assumes "linked h (xs @ p # ys) z" "z = hd (xs @ [p])"
  shows "linked h (p # ys @ xs) p"
  using assms by (cases xs; cases ys) (auto simp: hlinked_append split: list.splits)

lemma stops_between:
  assumes "ring h qs" "base h # qs = xs @ p # ys" "base h < bp" "bp \<notin> set qs"
  shows "stops h bp p \<longleftrightarrow> p < bp \<and> (\<forall>y \<in> set ys. bp < y)"
proof -
  have s: "sorted_wrt (<) (xs @ p # ys)" using ring_sorted [OF assms(1)] assms(2) by simp
  have "linked h (xs @ p # ys) (base h)" using assms(1,2) by (simp add: ring_def)
  then have n: "ptr h p = (case ys of [] \<Rightarrow> base h | y # _ \<Rightarrow> y)" by (simp add: hlinked_append)
  have b: "base h \<le> p" using ring_sorted [OF assms(1)] assms(2) by (cases xs) auto
  show ?thesis
  proof (cases ys)
    case Nil
    then show ?thesis using n b assms(3) by (auto simp: stops_def)
  next
    case (Cons y ys')
    then have "p < y" "\<forall>x \<in> set ys'. y < x" using s by (auto simp: sorted_wrt_append)
    then show ?thesis using n Cons by (auto simp: stops_def)
  qed
qed

lemma free_scan_ring:
  assumes "ring h qs" "base h < bp" "bp \<notin> set qs"
  obtains xs p ys where "free_scan h bp (freep h) = Some p" "base h # qs = xs @ p # ys"
    "p < bp" "\<forall>y \<in> set ys. bp < y"
proof -
  let ?ps = "base h # qs"
  obtain as bs where f: "?ps = as @ freep h # bs"
    using assms(1) split_list [of "freep h" ?ps] by (auto simp: ring_def)
  have l: "linked h (freep h # bs @ as) (freep h)"
  proof (rule rotate_linked)
    show "linked h (as @ freep h # bs) (base h)" using assms(1) f by (simp add: ring_def)
    show "base h = hd (as @ [freep h])" using f by (cases as) auto
  qed
  have sp: "sorted_wrt (<) ?ps" by (rule ring_sorted [OF assms(1)])
  obtain a b where ab: "?ps = a @ b" "a \<noteq> []" "\<forall>q \<in> set a. q < bp" "b = [] \<or> \<not> hd b < bp"
  proof
    show "?ps = takeWhile (\<lambda>q. q < bp) ?ps @ dropWhile (\<lambda>q. q < bp) ?ps" by simp
    show "takeWhile (\<lambda>q. q < bp) ?ps \<noteq> []" using assms(2) by simp
    show "\<forall>q \<in> set (takeWhile (\<lambda>q. q < bp) ?ps). q < bp" using set_takeWhileD by fastforce
    show "dropWhile (\<lambda>q. q < bp) ?ps = [] \<or> \<not> hd (dropWhile (\<lambda>q. q < bp) ?ps) < bp"
      using hd_dropWhile [of "\<lambda>q. q < bp" ?ps] by blast
  qed
  then have e: "?ps = butlast a @ last a # b" by simp
  have last: "last a < bp" using ab(2,3) by simp
  have b: "\<forall>y \<in> set b. bp < y"
  proof (cases b)
    case (Cons y ys)
    have "y \<in> set ?ps" unfolding ab(1) Cons by simp
    then have "y \<noteq> bp" using assms(2,3) by auto
    moreover have "sorted_wrt (<) (y # ys)" using sp unfolding ab(1) Cons by (simp add: sorted_wrt_append)
    ultimately show ?thesis using ab(4) Cons by auto
  qed simp
  have "stops h bp (last a)" using stops_between [OF assms(1) e assms(2,3)] last b by simp
  moreover have "last a \<in> set (freep h # bs @ as)"
  proof -
    have "last a \<in> set ?ps" unfolding ab(1) using ab(2) by simp
    then show ?thesis unfolding f by auto
  qed
  ultimately obtain x where x: "x \<in> set (freep h # bs @ as)" "stops h bp x" "free_scan h bp (freep h) = Some x"
    using free_scan_list [OF l, of bp] by blast
  then have "x \<in> set ?ps" unfolding f by auto
  then obtain xs ys where "?ps = xs @ x # ys" by (meson split_list)
  then show ?thesis using that x stops_between [OF assms(1) _ assms(2,3)] by blast
qed

section \<open>Giving a block back\<close>

definition block :: "heap \<Rightarrow> nat \<Rightarrow> nat set" where
  "block h p = {p..<p + 8 * size_of h p}"

definition blocks :: "heap \<Rightarrow> nat list \<Rightarrow> nat set" where
  "blocks h ps = (\<Union>p \<in> set ps. block h p)"

lemma blocks_simps [simp]: "blocks h [] = {}" "blocks h (p # ps) = block h p \<union> blocks h ps"
  "blocks h (ps @ qs) = blocks h ps \<union> blocks h qs"
  by (auto simp: blocks_def)

lemma blocks_cong: "(\<And>p. p \<in> set ps \<Longrightarrow> size_of h' p = size_of h p) \<Longrightarrow> blocks h' ps = blocks h ps"
  by (auto simp: blocks_def block_def)

lemma spaced_Cons: "spaced h (p # ps) \<longleftrightarrow> (\<forall>q \<in> set ps. p + 8 * size_of h p < q) \<and> spaced h ps"
  by (simp add: spaced_def)

lemma spaced_cong: "(\<And>p. p \<in> set ps \<Longrightarrow> size_of h' p = size_of h p) \<Longrightarrow> spaced h' ps = spaced h ps"
  by (induction ps) (auto simp: spaced_Cons, simp_all add: spaced_def)

lemma hplus_small: "p + 8 * n < W \<Longrightarrow> hplus p n = p + 8 * n"
  by (simp add: hplus_def)

lemma join_next_ok:
  assumes l: "linked h (p # ys) b" and s: "spaced h ys" and n: "\<forall>y \<in> set ys. bp + 8 * size_of h bp \<le> y"
    and bp: "b < bp" "1 \<le> size_of h bp" "bp + 8 * size_of h bp < W" "bp \<noteq> p"
    and y: "\<forall>y \<in> set ys. y + 8 * size_of h y < W"
  obtains ys' where "linked (join_next bp p h) (bp # ys') b" "spaced (join_next bp p h) (bp # ys')"
    "set ys' \<subseteq> set ys" "blocks (join_next bp p h) (bp # ys') = blocks h (bp # ys)"
    "\<And>x. x \<noteq> bp \<Longrightarrow> ptr (join_next bp p h) x = ptr h x" "\<And>x. x \<noteq> bp \<Longrightarrow> size_of (join_next bp p h) x = size_of h x"
    "size_of h bp \<le> size_of (join_next bp p h) bp"
    "\<And>m. bp + 8 * size_of h bp \<le> m \<Longrightarrow> (\<forall>y \<in> set ys. y + 8 * size_of h y \<le> m) \<Longrightarrow>
       bp + 8 * size_of (join_next bp p h) bp \<le> m"
proof (cases "\<exists>y ys'. ys = y # ys' \<and> bp + 8 * size_of h bp = y")
  case True
  then obtain ys' where ys: "ys = (bp + 8 * size_of h bp) # ys'" (is "_ = ?y # _") by auto
  have y': "?y + 8 * size_of h ?y < W" using y ys by simp
  then have m: "(size_of h bp + size_of h ?y) mod W = size_of h bp + size_of h ?y" by (intro mod_less) simp
  have nin: "bp \<notin> set ys'" using n bp(2) ys by force
  have j: "join_next bp p h = set_ptr bp (ptr h ?y) (set_size bp (size_of h bp + size_of h ?y) h)"
    using l ys bp(2,4) by (simp add: join_next_def hplus_small [OF bp(3)] m Let_def)
  show ?thesis
  proof (rule that [of ys'])
    show "linked (join_next bp p h) (bp # ys') b"
      using l ys nin by (auto simp: j intro: hlinked_cong [THEN iffD2])
    have "spaced (join_next bp p h) ys' = spaced h ys'" using nin by (intro spaced_cong) (auto simp: j)
    then show "spaced (join_next bp p h) (bp # ys')" using s ys by (auto simp: spaced_Cons j add.assoc)
    have "blocks (join_next bp p h) ys' = blocks h ys'" using nin by (intro blocks_cong) (auto simp: j)
    then show "blocks (join_next bp p h) (bp # ys') = blocks h (bp # ys)"
      using ys by (auto simp: j block_def)
    show "bp + 8 * size_of (join_next bp p h) bp \<le> m"
      if "bp + 8 * size_of h bp \<le> m" "\<forall>y \<in> set ys. y + 8 * size_of h y \<le> m" for m
      using that(2) by (simp add: ys j)
  qed (auto simp: ys j)
next
  case False
  have "ptr h p \<noteq> bp + 8 * size_of h bp" using l False bp(1) by (cases ys) auto
  then have j: "join_next bp p h = set_ptr bp (ptr h p) h"
    using bp(3) by (simp add: join_next_def hplus_small)
  have nin: "bp \<notin> set ys" using n bp(2) by force
  have lt: "\<forall>y \<in> set ys. bp + 8 * size_of h bp < y"
  proof (cases ys)
    case (Cons y ys')
    then have "bp + 8 * size_of h bp < y" "\<forall>x \<in> set ys'. y < x" using n s False by (auto simp: spaced_Cons intro: le_neq_implies_less)
    then show ?thesis using Cons by auto
  qed simp
  show ?thesis
  proof (rule that [of ys])
    show "linked (join_next bp p h) (bp # ys) b" using l nin by (auto simp: j intro: hlinked_cong [THEN iffD2])
    show "spaced (join_next bp p h) (bp # ys)" using lt s spaced_cong [of ys "join_next bp p h" h] by (simp add: spaced_Cons j)
    show "blocks (join_next bp p h) (bp # ys) = blocks h (bp # ys)" by (intro blocks_cong) (simp add: j)
  qed (simp_all add: j)
qed

lemma join_prev_ok:
  assumes l: "linked h (bp # ys) b" and s: "spaced h (bp # ys)" and e: "p + 8 * size_of h p \<le> bp"
    and p: "p \<noteq> bp" "p \<notin> set ys" "bp + 8 * size_of h bp < W"
  obtains zs where "zs = ys \<or> zs = bp # ys" "linked (join_prev bp p h) (p # zs) b" "spaced (join_prev bp p h) (p # zs)"
    "blocks (join_prev bp p h) (p # zs) = blocks h (p # bp # ys)"
    "\<And>x. x \<noteq> p \<Longrightarrow> ptr (join_prev bp p h) x = ptr h x" "\<And>x. x \<noteq> p \<Longrightarrow> size_of (join_prev bp p h) x = size_of h x"
    "zs = ys \<Longrightarrow> size_of (join_prev bp p h) p = size_of h p + size_of h bp \<and> p + 8 * size_of h p = bp"
    "zs = bp # ys \<Longrightarrow> size_of (join_prev bp p h) p = size_of h p"
proof (cases "p + 8 * size_of h p = bp")
  case True
  have m: "(size_of h p + size_of h bp) mod W = size_of h p + size_of h bp" using True p(3) by (intro mod_less) simp
  have "hplus p (size_of h p) = bp" using True p(3) by (simp add: hplus_small)
  then have j: "join_prev bp p h = set_ptr p (ptr h bp) (set_size p (size_of h p + size_of h bp) h)"
    by (simp add: join_prev_def Let_def m)
  have c: "linked (join_prev bp p h) ys b = linked h ys b" "spaced (join_prev bp p h) ys = spaced h ys"
    "blocks (join_prev bp p h) ys = blocks h ys"
    using p(2) by (intro hlinked_cong spaced_cong blocks_cong; auto simp: j)+
  show ?thesis
  proof (rule that [of ys])
    show "linked (join_prev bp p h) (p # ys) b" using l by (simp add: c) (simp add: j)
    show "spaced (join_prev bp p h) (p # ys)" using s True
      by (simp add: spaced_Cons c) (auto simp: j add.assoc [symmetric])
    show "blocks (join_prev bp p h) (p # ys) = blocks h (p # bp # ys)"
    proof -
      have sz: "size_of (join_prev bp p h) p = size_of h p + size_of h bp" by (simp add: j)
      have "block (join_prev bp p h) p = block h p \<union> block h bp" unfolding block_def sz using True by auto
      then show ?thesis by (simp add: c Un_assoc)
    qed
  qed (use True in \<open>simp_all add: j\<close>)
next
  case False
  have j: "join_prev bp p h = set_ptr p bp h"
    using False e p(3) by (simp add: join_prev_def hplus_small)
  show ?thesis
  proof (rule that [of "bp # ys"])
    show "linked (join_prev bp p h) (p # bp # ys) b"
      using l p hlinked_cong [of ys "join_prev bp p h" h b] by (simp add: j) (metis)
    have "p + 8 * size_of h p < bp" using e False by simp
    moreover have "spaced (join_prev bp p h) (bp # ys) = spaced h (bp # ys)" by (rule spaced_cong) (simp add: j)
    ultimately show "spaced (join_prev bp p h) (p # bp # ys)" using s by (auto simp: spaced_Cons j)
    show "blocks (join_prev bp p h) (p # bp # ys) = blocks h (p # bp # ys)" by (rule blocks_cong) (simp add: j)
  qed (simp_all add: j)
qed

text \<open>A block that is not on the list and touches none that is.\<close>

definition fits :: "heap \<Rightarrow> nat list \<Rightarrow> nat \<Rightarrow> bool" where
  "fits h qs bp \<longleftrightarrow> base h + 8 \<le> bp \<and> 1 \<le> size_of h bp \<and> bp + 8 * size_of h bp \<le> brk h \<and>
     block h bp \<inter> blocks h qs = {}"

lemma fits_sep:
  assumes "ring h qs" "fits h qs bp" "q \<in> set qs"
  shows "q + 8 * size_of h q \<le> bp \<or> bp + 8 * size_of h bp \<le> q" "bp \<noteq> q"
proof -
  have q: "1 \<le> size_of h q" using assms(1,3) by (simp add: ring_def)
  have d: "block h bp \<inter> block h q = {}" using assms(2,3) by (auto simp: fits_def blocks_def)
  have b: "1 \<le> size_of h bp" using assms(2) by (simp add: fits_def)
  show "bp \<noteq> q"
  proof
    assume "bp = q"
    then have "q \<in> block h bp \<inter> block h q" using q by (simp add: block_def)
    then show False using d by simp
  qed
  show "q + 8 * size_of h q \<le> bp \<or> bp + 8 * size_of h bp \<le> q"
  proof (rule ccontr)
    assume "\<not> ?thesis"
    then have "max bp q \<in> block h bp \<inter> block h q" using q b by (auto simp: block_def max_def)
    then show False using d by simp
  qed
qed

lemma free_ok:
  assumes r: "ring h qs" and f: "fits h qs bp"
  obtains h' qs' where "free (bp + 8) h = Some h'" "ring h' qs'" "blocks h' qs' = block h bp \<union> blocks h qs"
    "\<And>x. x \<notin> set (bp # qs) \<Longrightarrow> size_of h' x = size_of h x" "\<exists>q \<in> set qs'. size_of h bp \<le> size_of h' q"
    "base h' = base h" "brk h' = brk h" "limit h' = limit h"
proof -
  let ?b = "base h"
  have bp: "?b + 8 \<le> bp" "1 \<le> size_of h bp" "bp + 8 * size_of h bp \<le> brk h" using f by (simp_all add: fits_def)
  have W: "brk h < W" "size_of h ?b = 0" using r unfolding ring_def by linarith+
  have nin: "bp \<notin> set qs" using fits_sep(2) [OF r f] by blast
  obtain xs p ys where p: "free_scan h bp (freep h) = Some p" "?b # qs = xs @ p # ys" "p < bp" "\<forall>y \<in> set ys. bp < y"
  proof (rule free_scan_ring [OF r _ nin])
    show "?b < bp" using bp(1) by simp
  qed
  have mem: "x \<in> set (xs @ p # ys) \<Longrightarrow> x = ?b \<or> x \<in> set qs" for x unfolding p(2) [symmetric] by auto
  have ys: "set ys \<subseteq> set qs" using p(2) by (cases xs) auto
  have l: "linked h (xs @ p # ys) ?b" and s: "spaced h (xs @ p # ys)" using r unfolding p(2) [symmetric] by (simp_all add: ring_def)
  have ends: "y + 8 * size_of h y \<le> brk h" if "y \<in> set (xs @ p # ys)" for y
    using mem [OF that] r W by (auto simp: ring_def)
  have above: "\<forall>y \<in> set ys. bp + 8 * size_of h bp \<le> y"
    using fits_sep(1) [OF r f] ys p(4) by fastforce
  have below: "p + 8 * size_of h p \<le> bp"
    using mem [of p] fits_sep(1) [OF r f, of p] p(3) W(2) bp(1) by auto
  let ?h1 = "join_next bp p h"
  obtain ys' where j1: "linked ?h1 (bp # ys') ?b" "spaced ?h1 (bp # ys')" "set ys' \<subseteq> set ys"
    "blocks ?h1 (bp # ys') = blocks h (bp # ys)" "\<And>x. x \<noteq> bp \<Longrightarrow> ptr ?h1 x = ptr h x"
    "\<And>x. x \<noteq> bp \<Longrightarrow> size_of ?h1 x = size_of h x" "size_of h bp \<le> size_of ?h1 bp"
    "\<And>m. bp + 8 * size_of h bp \<le> m \<Longrightarrow> \<forall>y \<in> set ys. y + 8 * size_of h y \<le> m \<Longrightarrow> bp + 8 * size_of ?h1 bp \<le> m"
  proof (rule join_next_ok [of h p ys ?b bp])
    show "linked h (p # ys) ?b" "spaced h ys" using l s by (simp_all add: hlinked_append spaced_def sorted_wrt_append)
    show "\<forall>y \<in> set ys. y + 8 * size_of h y < W" using ends W(1) by (fastforce intro: le_less_trans)
  qed (use above bp p(3) W(1) in \<open>auto intro: le_less_trans\<close>)
  have end1: "bp + 8 * size_of ?h1 bp \<le> brk h" using bp(3) ends by (intro j1(8)) simp_all
  have p1: "size_of ?h1 p = size_of h p" using j1(6) p(3) by simp
  let ?h2 = "join_prev bp p ?h1"
  obtain zs where j2: "zs = ys' \<or> zs = bp # ys'" "linked ?h2 (p # zs) ?b" "spaced ?h2 (p # zs)"
    "blocks ?h2 (p # zs) = blocks ?h1 (p # bp # ys')" "\<And>x. x \<noteq> p \<Longrightarrow> ptr ?h2 x = ptr ?h1 x"
    "\<And>x. x \<noteq> p \<Longrightarrow> size_of ?h2 x = size_of ?h1 x"
    "zs = ys' \<Longrightarrow> size_of ?h2 p = size_of ?h1 p + size_of ?h1 bp \<and> p + 8 * size_of ?h1 p = bp"
    "zs = bp # ys' \<Longrightarrow> size_of ?h2 p = size_of ?h1 p"
  proof (rule join_prev_ok [of ?h1 bp ys' ?b p])
    show "p \<notin> set ys'" using j1(3) p(3,4) by (meson less_asym subsetD)
  qed (use j1(1,2) below p(3) p1 end1 W(1) in auto)
  let ?h' = "?h2\<lparr>freep := p\<rparr>"
  define qs' where "qs' = tl (xs @ p # zs)"
  have ps': "?b # qs' = xs @ p # zs" unfolding qs'_def using p(2) by (cases xs) auto
  have xlt: "x + 8 * size_of h x < p" if "x \<in> set xs" for x using s that by (simp add: spaced_def sorted_wrt_append)
  have xs: "size_of ?h2 x = size_of h x" "ptr ?h2 x = ptr h x" if "x \<in> set xs" for x
    using j1(5,6) j2(5,6) xlt [OF that] p(3) by simp_all
  have zlt: "\<forall>z \<in> set zs. p < z" using j2(3) by (auto simp: spaced_Cons)
  have zmem: "z \<in> set zs \<Longrightarrow> z = bp \<or> z \<in> set ys'" for z using j2(1) by auto
  have zsz: "size_of ?h2 z = size_of ?h1 z" if "z \<in> set zs" for z using j2(6) zlt that by fastforce
  have base2: "base ?h2 = ?b" "brk ?h2 = brk h" "limit ?h2 = limit h"
    by (simp_all add: join_prev_def join_next_def Let_def)
  have lk: "linked ?h' (?b # qs') ?b"
  proof -
    have "linked ?h2 xs p" using l xs hlinked_cong [of xs ?h2 h p] by (simp add: hlinked_append)
    then have "linked ?h2 (xs @ p # zs) ?b" using j2(2) by (simp add: hlinked_append)
    then show ?thesis unfolding ps' by (subst hlinked_cong) simp_all
  qed
  have sp: "spaced ?h' (?b # qs')"
  proof -
    have "spaced ?h2 xs" using s xs spaced_cong [of xs ?h2 h] by (simp add: spaced_def sorted_wrt_append)
    then have "spaced ?h2 (xs @ p # zs)"
      using j2(3) xs(1) xlt zlt by (fastforce simp: spaced_def sorted_wrt_append)
    then show ?thesis unfolding ps' by (subst spaced_cong) simp_all
  qed
  have b0: "size_of ?h2 ?b = 0"
  proof (cases xs)
    case Nil
    then have pb: "p = ?b" using p(2) by simp
    then have "zs \<noteq> ys'" using j2(7) p1 W(2) bp(1) by auto
    then show ?thesis using j2(1,8) p1 W(2) pb by simp
  qed (use p(2) xs W(2) in auto)
  have good: "?b + 8 \<le> q \<and> 1 \<le> size_of ?h2 q \<and> q + 8 * size_of ?h2 q \<le> brk h" if q: "q \<in> set qs'" for q
  proof -
    have old: "?b + 8 \<le> q \<and> 1 \<le> size_of h q \<and> q + 8 * size_of h q \<le> brk h" if "q \<in> set qs" for q
      using r that by (simp add: ring_def)
    have "q \<noteq> ?b" using spaced_distinct [OF sp] q by auto
    have "q \<in> set (xs @ p # zs)" unfolding ps' [symmetric] using q by simp
    then consider "q \<in> set xs" | "q = p" | "q = bp" "q \<in> set zs" | "q \<in> set ys'" "q \<in> set zs" using zmem by auto
    then show ?thesis
    proof cases
      case 1
      then show ?thesis using mem [of q] \<open>q \<noteq> ?b\<close> old xs by simp
    next
      case 2
      then have "?b + 8 \<le> q \<and> 1 \<le> size_of h q \<and> q + 8 * size_of h q \<le> brk h" using mem [of q] \<open>q \<noteq> ?b\<close> old by simp
      then show ?thesis using j2(1,7,8) p1 2 end1 by (auto simp: add_mult_distrib2)
    next
      case 3
      then show ?thesis using zsz bp j1(7) end1 by auto
    next
      case 4
      then have "q \<in> set qs" "q \<noteq> bp" using j1(3) ys nin by auto
      then show ?thesis using old zsz 4 j1(6) by simp
    qed
  qed
  show ?thesis
  proof (rule that)
    have "(bp + 8 + W - 8) mod W = bp" using bp(3) W(1) by (simp add: mod_less)
    then show "free (bp + 8) h = Some ?h'" by (simp add: free_def p(1))
    show "ring ?h' qs'"
      using lk sp b0 good base2 r ps' by (auto simp: ring_def)
    have "blocks ?h' qs' = blocks ?h2 (?b # qs')"
      using b0 by (simp add: block_def) (simp add: blocks_def block_def)
    also have "\<dots> = blocks h xs \<union> blocks ?h1 (p # bp # ys')" unfolding ps' using j2(4) xs blocks_cong [of xs ?h2 h] by simp
    also have "\<dots> = blocks h xs \<union> block h p \<union> blocks h (bp # ys)" using j1(4) p1 by (auto simp: block_def)
    also have "\<dots> = block h bp \<union> blocks h (?b # qs)" unfolding p(2) by auto
    also have "\<dots> = block h bp \<union> blocks h qs" using W(2) by (simp add: block_def)
    finally show "blocks ?h' qs' = block h bp \<union> blocks h qs" .
    show "size_of ?h' x = size_of h x" if "x \<notin> set (bp # qs)" for x
    proof (cases "x = p")
      case True
      then have "x = ?b" using mem [of p] that by auto
      then show ?thesis using b0 W(2) by simp
    next
      case False
      then show ?thesis using j2(6) j1(6) that by simp
    qed
    show "\<exists>q \<in> set qs'. size_of h bp \<le> size_of ?h' q"
    proof (cases "zs = ys'")
      case True
      then have "p \<noteq> ?b" using j2(7) p1 W(2) bp(1) by auto
      moreover have "p \<in> set (?b # qs')" unfolding ps' by simp
      ultimately show ?thesis using j2(7) True j1(7) by (intro bexI [of _ p]) auto
    next
      case False
      then have z: "zs = bp # ys'" using j2(1) by simp
      have "bp \<in> set (?b # qs')" unfolding ps' z by simp
      then show ?thesis using zsz [of bp] z j1(7) bp(1) by (intro bexI [of _ bp]) auto
    qed
  qed (simp_all add: base2)
qed

section \<open>Taking a block\<close>

lemma successor:
  assumes "linked h ps z" "q \<in> set ps" "ptr h q = p" "p \<noteq> z"
  obtains xs ys where "ps = xs @ q # p # ys"
proof -
  obtain xs ys where ps: "ps = xs @ q # ys" using assms(2) by (meson split_list)
  then have "ptr h q = (case ys of [] \<Rightarrow> z | y # _ \<Rightarrow> y)" using assms(1) by (simp add: hlinked_append)
  then show ?thesis using that assms(3,4) ps by (cases ys) auto
qed

lemma take_exact:
  assumes r: "ring h qs" and q: "q \<in> set (base h # qs)" "ptr h q = p" and p: "p \<in> set qs"
  obtains qs' where "ring ((set_ptr q (ptr h p) h)\<lparr>freep := q\<rparr>) qs'" "set qs' = set qs - {p}"
proof -
  let ?b = "base h" and ?h = "(set_ptr q (ptr h p) h)\<lparr>freep := q\<rparr>"
  have "p \<noteq> ?b" using ring_sorted [OF r] p by auto
  moreover have l: "linked h (?b # qs) ?b" and s: "spaced h (?b # qs)" using r by (simp_all add: ring_def)
  ultimately obtain xs ys where xy: "?b # qs = xs @ q # p # ys" using successor [OF l q] by blast
  define qs' where "qs' = tl (xs @ q # ys)"
  have qs': "?b # qs' = xs @ q # ys" unfolding qs'_def using xy by (cases xs) auto
  have d: "distinct (xs @ q # p # ys)"
    using ring_sorted [OF r] unfolding xy by (metis strict_sorted_iff)
  have "set qs' = set (?b # qs') - {?b}"
    using d xy qs' by (cases xs) auto
  moreover have "set (?b # qs') = set (?b # qs) - {p}" unfolding qs' xy using d by auto
  moreover have "set qs = set (?b # qs) - {?b}" using ring_sorted [OF r] by auto
  ultimately have set: "set qs' = set qs - {p}" using \<open>p \<noteq> ?b\<close> by blast
  have "linked ?h (xs @ q # ys) ?b"
  proof -
    have "linked h xs q" "linked h ys ?b" "ptr h p = (case ys of [] \<Rightarrow> ?b | y # _ \<Rightarrow> y)"
      using l unfolding xy by (simp_all add: hlinked_append)
    moreover have "linked ?h xs q = linked h xs q" "linked ?h ys ?b = linked h ys ?b"
      using d by (intro hlinked_cong; auto)+
    ultimately show ?thesis by (simp add: hlinked_append)
  qed
  moreover have "spaced ?h (xs @ q # ys)"
    using s unfolding xy by (simp add: spaced_def sorted_wrt_append)
  ultimately have "linked ?h (?b # qs') ?b" "spaced ?h (?b # qs')" by (simp_all only: qs')
  moreover have "q \<in> set (?b # qs')" unfolding qs' by simp
  ultimately have "ring ?h qs'" using r set by (simp add: ring_def)
  then show ?thesis using that set by blast
qed

lemma ring_shrink:
  assumes r: "ring h qs" and q: "q \<in> set (base h # qs)" and p: "p \<in> set qs" and n: "1 \<le> n" "n < size_of h p"
    and bp: "bp = p + 8 * (size_of h p - n)"
  shows "ring ((set_size bp n (set_size p (size_of h p - n) h))\<lparr>freep := q\<rparr>) qs" (is "ring ?h qs")
    and "bp \<notin> set (base h # qs)"
proof -
  have s: "spaced h (base h # qs)" using r by (simp add: ring_def)
  have p': "base h + 8 \<le> p" "p + 8 * size_of h p \<le> brk h" using r p by (auto simp: ring_def)
  have sep: "x + 8 * size_of h x < y \<or> y + 8 * size_of h y < x \<or> x = y" if "x \<in> set (base h # qs)" "y \<in> set (base h # qs)" for x y
    using s that unfolding spaced_def
    by (metis (no_types, lifting) in_set_conv_nth linorder_neqE_nat sorted_wrt_iff_nth_less)
  have "p < bp" "bp < p + 8 * size_of h p" using n bp by auto
  then show nin: "bp \<notin> set (base h # qs)" using sep [of p bp] p by auto
  have "linked ?h (base h # qs) (base h)" using r by (subst hlinked_cong [of _ _ h]) (simp_all add: ring_def)
  moreover have "spaced ?h (base h # qs)"
    using s nin unfolding spaced_def by (elim sorted_wrt_mono_rel [rotated]) auto
  moreover have "p \<noteq> base h" "bp \<noteq> base h" using p'(1) nin by auto
  ultimately show "ring ?h qs" using r q n nin by (auto simp: ring_def)
qed

lemma take_ok:
  assumes r: "ring h qs" and q: "q \<in> set (base h # qs)" "ptr h q = p" and p: "p \<in> set qs"
    and n: "1 \<le> n" "n \<le> size_of h p"
  obtains bp h' qs' where "take_block n q p h = (bp + 8, h')" "ring h' qs'" "fits h' qs' bp" "size_of h' bp = n"
    "block h' bp \<subseteq> blocks h qs" "blocks h' qs' \<subseteq> blocks h qs"
    "\<And>x. x \<notin> blocks h qs \<Longrightarrow> size_of h' x = size_of h x"
    "base h' = base h" "brk h' = brk h" "limit h' = limit h"
proof -
  have p': "base h + 8 \<le> p" "p + 8 * size_of h p \<le> brk h" "brk h < W"
    using r p unfolding ring_def by (auto intro: le_less_trans)
  have inb: "block h x \<subseteq> blocks h qs" if "x \<in> set qs" for x using that by (auto simp: blocks_def)
  have sep: "block h x \<inter> block h y = {}" if "x \<in> set qs" "y \<in> set qs" "x \<noteq> y" for x y
  proof -
    have "x + 8 * size_of h x < y \<or> y + 8 * size_of h y < x"
      using r that unfolding ring_def spaced_def
      by (metis (no_types, lifting) in_set_conv_nth linorder_neqE_nat sorted_wrt_iff_nth_less list.set_intros(2))
    then show ?thesis by (auto simp: block_def)
  qed
  show ?thesis
  proof (cases "size_of h p = n")
    case True
    obtain qs' where qs': "ring ((set_ptr q (ptr h p) h)\<lparr>freep := q\<rparr>) qs'" "set qs' = set qs - {p}"
      using take_exact [OF r q p] by blast
    have blk: "block ((set_ptr q (ptr h p) h)\<lparr>freep := q\<rparr>) x = block h x" for x by (simp add: block_def)
    have "block h p \<inter> block h y = {}" if "y \<in> set qs'" for y using sep [OF p, of y] that qs'(2) by auto
    then have dis: "block h p \<inter> blocks ((set_ptr q (ptr h p) h)\<lparr>freep := q\<rparr>) qs' = {}"
      by (auto simp: blocks_def blk)
    show ?thesis
    proof (rule that [OF _ qs'(1)])
      show "take_block n q p h = (p + 8, (set_ptr q (ptr h p) h)\<lparr>freep := q\<rparr>)"
        using True p' n by (simp add: take_block_def hplus_small)
      show "fits ((set_ptr q (ptr h p) h)\<lparr>freep := q\<rparr>) qs' p"
        using p' n True dis by (simp add: fits_def blk)
    qed (use True p inb qs'(2) in \<open>auto simp: blocks_def block_def\<close>)
  next
    case False
    define bp where "bp = p + 8 * (size_of h p - n)"
    let ?h = "(set_size bp n (set_size p (size_of h p - n) h))\<lparr>freep := q\<rparr>"
    have lt: "n < size_of h p" using n(2) False by simp
    have e: "bp + 8 * n = p + 8 * size_of h p" "p < bp" using lt by (simp_all add: bp_def)
    note sh = ring_shrink [OF r q(1) p n(1) lt bp_def]
    have bb: "block ?h bp \<subseteq> block h p" using e by (auto simp: block_def)
    have pp: "block ?h p = block h p - block ?h bp" using e by (auto simp: block_def bp_def)
    have other: "block ?h x = block h x" if "x \<in> set qs" "x \<noteq> p" for x using that sh(2) by (auto simp: block_def)
    show ?thesis
    proof (rule that [OF _ sh(1)])
      show "take_block n q p h = (bp + 8, ?h)"
        using lt p' n(1) e by (simp add: take_block_def hplus_small Let_def bp_def)
      have "block ?h bp \<inter> block ?h x = {}" if "x \<in> set qs" for x
        using bb pp sep [OF p that] other [OF that] by (cases "x = p") auto
      then show "fits ?h qs bp" using p' e n by (auto simp: fits_def blocks_def)
      show "block ?h bp \<subseteq> blocks h qs" using bb inb [OF p] by blast
      show "blocks ?h qs \<subseteq> blocks h qs"
      proof
        fix x assume "x \<in> blocks ?h qs"
        then obtain y where "y \<in> set qs" "x \<in> block ?h y" by (auto simp: blocks_def)
        then show "x \<in> blocks h qs" using pp other [of y] inb [of y] by (cases "y = p") auto
      qed
      show "size_of ?h x = size_of h x" if "x \<notin> blocks h qs" for x
      proof -
        have "p \<in> block h p" "bp \<in> block h p" using lt e n(1) by (auto simp: block_def)
        then show ?thesis using that inb [OF p] by auto
      qed
    qed simp_all
  qed
qed

section \<open>The search\<close>

lemma malloc_lap:
  "linked h rs z \<Longrightarrow> rs \<noteq> [] \<Longrightarrow> ptr h prevp = hd rs \<Longrightarrow> prevp \<in> S \<Longrightarrow> set rs \<subseteq> S \<Longrightarrow>
   last rs = freep h \<Longrightarrow> freep h \<notin> set (butlast rs) \<Longrightarrow>
     (\<exists>q \<in> S. \<exists>p \<in> set rs. ptr h q = p \<and> n \<le> size_of h p \<and>
        malloc_loop n prevp (hd rs) h = Some (take_block n q p h)) \<or>
     (\<forall>p \<in> set rs. size_of h p < n) \<and>
        malloc_loop n prevp (hd rs) h = (case morecore n h of None \<Rightarrow> None
          | Some (p', h') \<Rightarrow> if p' = 0 then Some (0, h') else malloc_loop n p' (ptr h' p') h')"
proof (induction rs arbitrary: prevp)
  case (Cons p rs)
  show ?case
  proof (cases "n \<le> size_of h p")
    case True
    then show ?thesis using Cons.prems by (subst (1) malloc_loop.simps) (auto intro!: bexI [of _ prevp])
  next
    case False
    show ?thesis
    proof (cases "rs = []")
      case True
      then show ?thesis using False Cons.prems
        by (intro disjI2 conjI) (simp, subst malloc_loop.simps, simp)
    next
      case ne: False
      then have "p \<noteq> freep h" "ptr h p = hd rs" using Cons.prems(1,7) by (auto split: list.splits)
      moreover from this have "malloc_loop n prevp p h = malloc_loop n p (hd rs) h"
        using False by (simp add: malloc_loop.simps [of n prevp p h])
      ultimately show ?thesis using Cons.IH [of p] Cons.prems ne False by auto
    qed
  qed
qed simp

lemma malloc_search:
  assumes "ring h qs" "1 \<le> n"
  shows "(\<exists>q \<in> set (base h # qs). \<exists>p \<in> set qs. ptr h q = p \<and> n \<le> size_of h p \<and>
        malloc_loop n (freep h) (ptr h (freep h)) h = Some (take_block n q p h)) \<or>
     (\<forall>p \<in> set qs. size_of h p < n) \<and>
        malloc_loop n (freep h) (ptr h (freep h)) h = (case morecore n h of None \<Rightarrow> None
          | Some (p', h') \<Rightarrow> if p' = 0 then Some (0, h') else malloc_loop n p' (ptr h' p') h')"
proof -
  let ?ps = "base h # qs" and ?f = "freep h"
  obtain as bs where f: "?ps = as @ ?f # bs"
    using assms(1) split_list [of ?f ?ps] by (auto simp: ring_def)
  have d: "distinct ?ps" using ring_sorted [OF assms(1)] by (metis strict_sorted_iff)
  have b0: "size_of h (base h) = 0" using assms(1) by (simp add: ring_def)
  have "linked h (?f # bs @ as) ?f"
  proof (rule rotate_linked)
    show "linked h (as @ ?f # bs) (base h)" using assms(1) f by (simp add: ring_def)
    show "base h = hd (as @ [?f])" using f by (cases as) auto
  qed
  then have r: "linked h (bs @ as) ?f" "ptr h ?f = (case bs @ as of [] \<Rightarrow> ?f | q # _ \<Rightarrow> q)" by simp_all
  have "linked h ((bs @ as) @ [?f]) (ptr h ?f)" using r(1) by (subst hlinked_append) simp
  then have l: "linked h (bs @ as @ [?f]) (ptr h ?f)" by simp
  have hd: "ptr h ?f = hd (bs @ as @ [?f])" using r(2) by (cases bs; cases as) simp_all
  have s: "set (bs @ as @ [?f]) = set ?ps" unfolding f by auto
  have nb: "?f \<notin> set (butlast (bs @ as @ [?f]))" using d unfolding f by (simp add: butlast_append)
  have mem: "?f \<in> set ?ps" unfolding f by simp
  have sub: "set (bs @ as @ [?f]) \<subseteq> set ?ps" by (simp only: s order_refl)
  have ne: "bs @ as @ [?f] \<noteq> []" and last: "last (bs @ as @ [?f]) = ?f" by simp_all
  have lap: "(\<exists>q \<in> set ?ps. \<exists>p \<in> set ?ps. ptr h q = p \<and> n \<le> size_of h p \<and>
        malloc_loop n ?f (ptr h ?f) h = Some (take_block n q p h)) \<or>
     (\<forall>p \<in> set ?ps. size_of h p < n) \<and>
        malloc_loop n ?f (ptr h ?f) h = (case morecore n h of None \<Rightarrow> None
          | Some (p', h') \<Rightarrow> if p' = 0 then Some (0, h') else malloc_loop n p' (ptr h' p') h')"
    using malloc_lap [OF l ne hd mem sub last nb, of n] by (simp only: hd [symmetric] s)
  have in_qs: "p \<in> set qs" if "p \<in> set ?ps" "n \<le> size_of h p" for p using that b0 assms(2) by auto
  from lap show ?thesis
  proof (elim disjE bexE conjE)
    fix q p assume "q \<in> set ?ps" "p \<in> set ?ps" "ptr h q = p" "n \<le> size_of h p"
      "malloc_loop n ?f (ptr h ?f) h = Some (take_block n q p h)"
    then show ?thesis using in_qs by (intro disjI1 bexI [of _ q] bexI [of _ p] conjI) assumption+
  next
    assume "\<forall>p \<in> set ?ps. size_of h p < n"
      and "malloc_loop n ?f (ptr h ?f) h = (case morecore n h of None \<Rightarrow> None
          | Some (p', h') \<Rightarrow> if p' = 0 then Some (0, h') else malloc_loop n p' (ptr h' p') h')"
    then show ?thesis by (intro disjI2 conjI) simp_all
  qed
qed

definition live :: "heap \<Rightarrow> nat list \<Rightarrow> nat set \<Rightarrow> bool" where
  "live h qs L \<longleftrightarrow> (\<forall>b \<in> L. fits h qs b) \<and> (\<forall>b \<in> L. \<forall>c \<in> L. b \<noteq> c \<longrightarrow> block h b \<inter> block h c = {})"

lemma live_head: "live h qs L \<Longrightarrow> b \<in> L \<Longrightarrow> b \<in> block h b \<and> b \<notin> blocks h qs"
proof -
  assume "live h qs L" "b \<in> L"
  then have f: "1 \<le> size_of h b" "block h b \<inter> blocks h qs = {}" by (simp_all add: live_def fits_def)
  then have "b \<in> block h b" by (simp add: block_def)
  then show ?thesis using f(2) by blast
qed

lemma live_free:
  assumes r: "ring h qs" and l: "live h qs L" and b: "bp \<in> L"
  obtains h' qs' where "free (bp + 8) h = Some h'" "ring h' qs'" "live h' qs' (L - {bp})"
    "\<And>x. x \<in> L - {bp} \<Longrightarrow> size_of h' x = size_of h x" "\<exists>q \<in> set qs'. size_of h bp \<le> size_of h' q"
    "base h' = base h" "brk h' = brk h" "limit h' = limit h"
proof -
  have "fits h qs bp" using l b by (simp add: live_def)
  then obtain h' qs' where h': "free (bp + 8) h = Some h'" "ring h' qs'" "blocks h' qs' = block h bp \<union> blocks h qs"
    "\<And>x. x \<notin> set (bp # qs) \<Longrightarrow> size_of h' x = size_of h x" "\<exists>q \<in> set qs'. size_of h bp \<le> size_of h' q"
    "base h' = base h" "brk h' = brk h" "limit h' = limit h"
    using free_ok [OF r] by metis
  have sz: "size_of h' x = size_of h x" if "x \<in> L - {bp}" for x
    using fits_sep(2) [OF r, of x x] l that by (intro h'(4)) (auto simp: live_def)
  then have blk: "block h' x = block h x" if "x \<in> L - {bp}" for x using that by (simp add: block_def)
  have "live h' qs' (L - {bp})"
    unfolding live_def
  proof (intro conjI ballI impI)
    fix x assume x: "x \<in> L - {bp}"
    then have "fits h qs x" "block h x \<inter> block h bp = {}" using l b by (auto simp: live_def)
    then show "fits h' qs' x" using sz [OF x] blk [OF x] h'(3,6,7) by (auto simp: fits_def)
  next
    fix x y assume "x \<in> L - {bp}" "y \<in> L - {bp}" "x \<noteq> y"
    then show "block h' x \<inter> block h' y = {}" using l blk by (auto simp: live_def)
  qed
  then show ?thesis using that h' sz by blast
qed

lemma live_take:
  assumes r: "ring h qs" and l: "live h qs L" and q: "q \<in> set (base h # qs)" "ptr h q = p" and p: "p \<in> set qs"
    and n: "1 \<le> n" "n \<le> size_of h p"
  obtains bp h' qs' where "take_block n q p h = (bp + 8, h')" "ring h' qs'" "live h' qs' (insert bp L)" "bp \<notin> L"
    "size_of h' bp = n" "\<And>x. x \<in> L \<Longrightarrow> size_of h' x = size_of h x"
    "base h' = base h" "brk h' = brk h" "limit h' = limit h"
proof -
  obtain bp h' qs' where h': "take_block n q p h = (bp + 8, h')" "ring h' qs'" "fits h' qs' bp" "size_of h' bp = n"
    "block h' bp \<subseteq> blocks h qs" "blocks h' qs' \<subseteq> blocks h qs"
    "\<And>x. x \<notin> blocks h qs \<Longrightarrow> size_of h' x = size_of h x"
    "base h' = base h" "brk h' = brk h" "limit h' = limit h"
    using take_ok [OF r q p n] by metis
  have sz: "size_of h' x = size_of h x" if "x \<in> L" for x using live_head [OF l that] h'(7) by blast
  then have blk: "block h' x = block h x" if "x \<in> L" for x using that by (simp add: block_def)
  have out: "block h x \<inter> blocks h qs = {}" if "x \<in> L" for x using l that by (simp add: live_def fits_def)
  have "bp \<in> block h' bp" using h'(4) n(1) by (simp add: block_def)
  then have nin: "bp \<notin> L" using live_head [OF l] h'(5) by blast
  have "live h' qs' (insert bp L)"
    unfolding live_def
  proof (intro conjI ballI impI)
    fix x assume "x \<in> insert bp L"
    then consider "x = bp" | "x \<in> L" by blast
    then show "fits h' qs' x"
    proof cases
      case 2
      then have "block h x \<inter> blocks h' qs' = {}" "fits h qs x" using out h'(6) l by (blast, simp add: live_def)
      then show ?thesis using 2 sz blk h'(8,9) by (simp add: fits_def)
    qed (use h'(3) in simp)
  next
    fix x y assume "x \<in> insert bp L" "y \<in> insert bp L" "x \<noteq> y"
    then show "block h' x \<inter> block h' y = {}" using l blk out h'(5) by (auto simp: live_def) blast+
  qed
  then show ?thesis using that h' sz nin by blast
qed

lemma live_grow:
  assumes r: "ring h qs" and l: "live h qs L" and k: "1 \<le> k" "brk h + 8 * k \<le> limit h"
  defines "h' \<equiv> set_size (brk h) k (h\<lparr>brk := brk h + 8 * k\<rparr>)"
  shows "ring h' qs" "live h' qs (insert (brk h) L)" "brk h \<notin> L"
proof -
  have q: "x \<noteq> brk h" if "x \<in> set (base h # qs)" for x using r that by (fastforce simp: ring_def)
  then have sz: "size_of h' x = size_of h x" if "x \<in> set (base h # qs)" for x using that by (simp add: h'_def)
  have le: "blocks h qs \<subseteq> {..<brk h}" using r by (fastforce simp: ring_def blocks_def block_def)
  have bl: "blocks h' qs = blocks h qs" using sz by (intro blocks_cong) simp
  show "ring h' qs"
  proof -
    have "linked h' (base h # qs) (base h)" using r by (subst hlinked_cong [of _ _ h]) (simp_all add: ring_def h'_def)
    moreover have "spaced h' (base h # qs)" using r sz by (subst spaced_cong [of _ _ h]) (simp_all add: ring_def)
    ultimately show ?thesis using r sz k by (auto simp: ring_def h'_def)
  qed
  have L: "b < brk h \<and> block h b \<subseteq> {..<brk h}" if "b \<in> L" for b
    using l that by (force simp: live_def fits_def block_def)
  show nin: "brk h \<notin> L" using L by blast
  have szL: "size_of h' b = size_of h b" if "b \<in> L" for b using L [OF that] by (simp add: h'_def)
  then have blL: "block h' b = block h b" if "b \<in> L" for b using that by (simp add: block_def)
  have new: "block h' (brk h) = {brk h..<brk h + 8 * k}" by (simp add: block_def h'_def)
  show "live h' qs (insert (brk h) L)"
    unfolding live_def
  proof (intro conjI ballI impI)
    fix x assume "x \<in> insert (brk h) L"
    then consider "x = brk h" | "x \<in> L" by blast
    then show "fits h' qs x"
    proof cases
      case 1
      have "block h' (brk h) \<inter> blocks h' qs = {}" unfolding new bl using le by auto
      then show ?thesis unfolding 1 using r k by (simp add: fits_def ring_def h'_def)
    next
      case 2
      then have "fits h qs x" using l by (simp add: live_def)
      then show ?thesis using szL [OF 2] blL [OF 2] bl by (simp add: fits_def) (simp add: h'_def)
    qed
  next
    fix x y assume "x \<in> insert (brk h) L" "y \<in> insert (brk h) L" "x \<noteq> y"
    then consider "x = brk h" "y \<in> L" | "x \<in> L" "y = brk h" | "x \<in> L" "y \<in> L" by blast
    then show "block h' x \<inter> block h' y = {}"
    proof cases
      case 1
      then show ?thesis using L [of y] blL [of y] new by auto
    next
      case 2
      then show ?thesis using L [of x] blL [of x] new by auto
    next
      case 3
      then show ?thesis using l blL \<open>x \<noteq> y\<close> by (simp add: live_def)
    qed
  qed
qed

lemma morecore_ok:
  assumes r: "ring h qs" and l: "live h qs L" and n: "8 * n < 2 ^ 31"
  shows "morecore n h = Some (0, h) \<or>
    (\<exists>h' qs'. morecore n h = Some (freep h', h') \<and> freep h' \<noteq> 0 \<and> ring h' qs' \<and> live h' qs' L \<and>
       (\<forall>x \<in> L. size_of h' x = size_of h x) \<and> (\<exists>q \<in> set qs'. n \<le> size_of h' q) \<and> base h' = base h \<and> limit h' = limit h \<and> brk h \<le> brk h')"
proof -
  define k where "k = (if n < 4096 then 4096 else n)"
  have k: "1 \<le> k" "n \<le> k" "k * 8 < 2 ^ 31" using n by (auto simp: k_def)
  then have kmod: "(k * 8) mod W = k * 8" by (simp add: W_def)
  then have m: "morecore n h = (let (p, h1) = sbrk (k * 8) h in
      if p = W - 1 then Some (0, h1)
      else case free (hplus p 1) (set_size p k h1) of None \<Rightarrow> None | Some h2 \<Rightarrow> Some (freep h2, h2))"
    by (simp only: morecore_def Let_def k_def [symmetric] kmod)
  show ?thesis
  proof (cases "brk h + 8 * k \<le> limit h")
    case False
    then have "sbrk (k * 8) h = (W - 1, h)" using k(3) by (simp add: sbrk_def mult.commute)
    then show ?thesis by (simp add: m)
  next
    case True
    let ?h = "set_size (brk h) k (h\<lparr>brk := brk h + 8 * k\<rparr>)"
    have W: "limit h < W - 1" using r by (simp add: ring_def)
    have s: "sbrk (k * 8) h = (brk h, h\<lparr>brk := brk h + 8 * k\<rparr>)" using k(3) True by (simp add: sbrk_def mult.commute)
    have p: "hplus (brk h) 1 = brk h + 8" "brk h \<noteq> W - 1" using True W k(1) by (simp_all add: hplus_small)
    note g = live_grow [OF r l k(1) True]
    have L: "insert (brk h) L - {brk h} = L" using g(3) by blast
    obtain h' qs' where h': "free (brk h + 8) ?h = Some h'" "ring h' qs'" "live h' qs' L"
      "\<And>x. x \<in> L \<Longrightarrow> size_of h' x = size_of ?h x" "\<exists>q \<in> set qs'. size_of ?h (brk h) \<le> size_of h' q"
      "base h' = base ?h" "brk h' = brk ?h" "limit h' = limit ?h"
      using live_free [OF g(1,2), of "brk h"] unfolding L by blast
    have "freep h' \<noteq> 0" using h'(2) by (auto simp: ring_def)
    moreover have "morecore n h = Some (freep h', h')" using h'(1) p by (simp add: m s)
    moreover have "\<exists>q \<in> set qs'. n \<le> size_of h' q" using h'(5) k(2) by (auto intro: order_trans)
    moreover have "\<forall>x \<in> L. size_of h' x = size_of h x" using h'(4) g(3) by auto
    ultimately show ?thesis using h'(2,3,6,7,8) by (intro disjI2 exI [of _ h'] exI [of _ qs']) simp
  qed
qed

definition allocated :: "heap \<Rightarrow> nat set \<Rightarrow> nat \<Rightarrow> (nat \<times> heap) option \<Rightarrow> bool" where
  "allocated h L n r \<longleftrightarrow> (\<exists>a h' qs'. r = Some (a, h') \<and> ring h' qs' \<and>
     (\<forall>x \<in> L. size_of h' x = size_of h x) \<and> base h' = base h \<and> limit h' = limit h \<and>
     (a = 0 \<and> live h' qs' L \<or> (\<exists>bp. a = bp + 8 \<and> bp \<notin> L \<and> size_of h' bp = n \<and> live h' qs' (insert bp L))))"

lemma allocated_take:
  assumes h1: "ring h1 qs1" "live h1 qs1 L" "\<forall>x \<in> L. size_of h1 x = size_of h x" "base h1 = base h" "limit h1 = limit h"
    and q: "q \<in> set (base h1 # qs1)" "p \<in> set qs1" "ptr h1 q = p" "n \<le> size_of h1 p" and n: "1 \<le> n"
  shows "allocated h L n (Some (take_block n q p h1))"
proof -
  obtain bp h2 qs2 where "take_block n q p h1 = (bp + 8, h2)" "ring h2 qs2" "live h2 qs2 (insert bp L)" "bp \<notin> L"
    "size_of h2 bp = n" "\<And>x. x \<in> L \<Longrightarrow> size_of h2 x = size_of h1 x" "base h2 = base h1" "limit h2 = limit h1"
    using live_take [OF h1(1,2) q(1,3,2) n q(4)] by metis
  then show ?thesis unfolding allocated_def
    using h1(3,4,5) by (intro exI [of _ "bp + 8"] exI [of _ h2] exI [of _ qs2]) simp
qed

lemma malloc_loop_ok:
  assumes r: "ring h qs" and l: "live h qs L" and n: "1 \<le> n" "8 * n < 2 ^ 31"
  shows "allocated h L n (malloc_loop n (freep h) (ptr h (freep h)) h)"
  using malloc_search [OF r n(1)]
proof (elim disjE bexE conjE)
  fix q p assume q: "q \<in> set (base h # qs)" "p \<in> set qs" "ptr h q = p" "n \<le> size_of h p"
    and m: "malloc_loop n (freep h) (ptr h (freep h)) h = Some (take_block n q p h)"
  show ?thesis unfolding m by (rule allocated_take [OF r l _ refl refl q n(1)]) simp
next
  assume m: "malloc_loop n (freep h) (ptr h (freep h)) h = (case morecore n h of None \<Rightarrow> None
        | Some (p', h') \<Rightarrow> if p' = 0 then Some (0, h') else malloc_loop n p' (ptr h' p') h')"
  from morecore_ok [OF r l n(2)] show ?thesis
  proof (elim disjE exE conjE)
    assume "morecore n h = Some (0, h)"
    then have "malloc_loop n (freep h) (ptr h (freep h)) h = Some (0, h)" using m by simp
    then show ?thesis unfolding allocated_def using r l by (intro exI [of _ 0] exI [of _ h] exI [of _ qs]) simp
  next
    fix h1 qs1
    assume h1: "morecore n h = Some (freep h1, h1)" "freep h1 \<noteq> 0" "ring h1 qs1" "live h1 qs1 L"
      "\<forall>x \<in> L. size_of h1 x = size_of h x" "base h1 = base h" "limit h1 = limit h"
      and big: "\<exists>q \<in> set qs1. n \<le> size_of h1 q"
    have m1: "malloc_loop n (freep h) (ptr h (freep h)) h = malloc_loop n (freep h1) (ptr h1 (freep h1)) h1"
      using m h1(1,2) by simp
    obtain q p where q: "q \<in> set (base h1 # qs1)" "p \<in> set qs1" "ptr h1 q = p" "n \<le> size_of h1 p"
      and m2: "malloc_loop n (freep h1) (ptr h1 (freep h1)) h1 = Some (take_block n q p h1)"
    proof -
      have "\<not> (\<forall>p \<in> set qs1. size_of h1 p < n)" using big by (auto simp: not_less)
      then show thesis using malloc_search [OF h1(3) n(1)] that by blast
    qed
    show ?thesis unfolding m1 m2 by (rule allocated_take [OF h1(3-7) q n(1)])
  qed
qed

section \<open>Programs\<close>

text \<open>A program that allocates and frees. \<open>asked\<close> maps the addresses that it has and did not free to the
  bytes it asked for there; it frees nothing else.\<close>

datatype call = Malloc nat | Free nat

fun run :: "call list \<Rightarrow> heap \<Rightarrow> (nat \<Rightarrow> nat option) \<Rightarrow> (heap \<times> (nat \<Rightarrow> nat option)) option" where
  "run [] h asked = Some (h, asked)"
| "run (Malloc n # cs) h asked =
     (case malloc n h of None \<Rightarrow> None
      | Some (a, h') \<Rightarrow> run cs h' (if a = 0 then asked else asked(a \<mapsto> n)))"
| "run (Free a # cs) h asked =
     (if asked a = None then run cs h asked
      else case free a h of None \<Rightarrow> None | Some h' \<Rightarrow> run cs h' (asked(a := None)))"

definition headers :: "(nat \<Rightarrow> nat option) \<Rightarrow> nat set" where
  "headers asked = (\<lambda>a. a - 8) ` dom asked"

text \<open>Before the first call the list is the null pointer; \<open>base\<close> is below the heap.\<close>

definition fresh :: "heap \<Rightarrow> bool" where
  "fresh h \<longleftrightarrow> freep h = 0 \<and> 0 < base h \<and> base h + 8 \<le> brk h \<and> brk h \<le> limit h \<and> limit h < W - 1"

definition keeps :: "heap \<Rightarrow> nat list \<Rightarrow> (nat \<Rightarrow> nat option) \<Rightarrow> bool" where
  "keeps h qs asked \<longleftrightarrow> ring h qs \<and> live h qs (headers asked) \<and>
     (\<forall>a n. asked a = Some n \<longrightarrow> 8 \<le> a \<and> n + 8 \<le> 8 * size_of h (a - 8))"

definition good_heap :: "heap \<Rightarrow> (nat \<Rightarrow> nat option) \<Rightarrow> bool" where
  "good_heap h asked \<longleftrightarrow> fresh h \<and> asked = Map.empty \<or> (\<exists>qs. keeps h qs asked)"

lemma good_start:
  assumes "good_heap h asked"
  obtains qs where "keeps (start_list h) qs asked"
proof (cases "freep h = 0")
  case True
  then have f: "fresh h" "asked = Map.empty" using assms by (auto simp: good_heap_def keeps_def ring_def)
  then have "keeps (start_list h) [] asked"
    by (simp add: keeps_def ring_def live_def headers_def start_list_def fresh_def spaced_def)
  then show ?thesis by (rule that)
next
  case False
  then show ?thesis using assms that by (auto simp: good_heap_def fresh_def start_list_def)
qed

lemma nunits_ok:
  assumes "n + 15 < 2 ^ 31"
  shows "1 \<le> nunits n" "8 * nunits n < 2 ^ 31" "n + 8 \<le> 8 * nunits n"
proof -
  have "(n + 8 - 1) mod W = n + 7" using assms by (simp add: W_def)
  then have "nunits n = (n + 7) div 8 + 1" by (simp add: nunits_def)
  then show "1 \<le> nunits n" "8 * nunits n < 2 ^ 31" "n + 8 \<le> 8 * nunits n" using assms by presburger+
qed

lemma headers_mem: "asked a = Some k \<Longrightarrow> a - 8 \<in> headers asked"
  by (force simp: headers_def)

lemma malloc_good:
  assumes g: "good_heap h asked" and n: "n + 15 < 2 ^ 31"
  shows "\<exists>a h'. malloc n h = Some (a, h') \<and> good_heap h' (if a = 0 then asked else asked(a \<mapsto> n)) \<and> asked a = None"
proof -
  obtain qs where k: "keeps (start_list h) qs asked" using good_start [OF g] by blast
  then have q: "ring (start_list h) qs" "live (start_list h) qs (headers asked)"
    and old: "\<And>a k. asked a = Some k \<Longrightarrow> 8 \<le> a \<and> k + 8 \<le> 8 * size_of (start_list h) (a - 8)"
    by (simp_all add: keeps_def)
  obtain a h' qs' where m: "malloc n h = Some (a, h')" "ring h' qs'"
    "\<forall>x \<in> headers asked. size_of h' x = size_of (start_list h) x"
    "a = 0 \<and> live h' qs' (headers asked) \<or>
     (\<exists>bp. a = bp + 8 \<and> bp \<notin> headers asked \<and> size_of h' bp = nunits n \<and> live h' qs' (insert bp (headers asked)))"
    using malloc_loop_ok [OF q nunits_ok(1,2) [OF n]] by (auto simp: malloc_def allocated_def Let_def)
  have sz: "size_of h' (a - 8) = size_of (start_list h) (a - 8)" if "asked a = Some k" for a k
    using m(3) headers_mem [of asked, OF that] by simp
  have "keeps h' qs' (if a = 0 then asked else asked(a \<mapsto> n)) \<and> asked a = None"
  proof (cases "a = 0")
    case True
    then show ?thesis using m(2,4) old sz by (fastforce simp: keeps_def)
  next
    case False
    then obtain bp where bp: "a = bp + 8" "bp \<notin> headers asked" "size_of h' bp = nunits n" "live h' qs' (insert bp (headers asked))"
      using m(4) by auto
    have hd: "headers (asked(a \<mapsto> n)) = insert bp (headers asked)" using bp(1) by (auto simp: headers_def)
    have "asked a = None" using headers_mem [of asked a] bp(1,2) by (cases "asked a") auto
    moreover have "keeps h' qs' (asked(a \<mapsto> n))"
      unfolding keeps_def hd using bp m(2) old sz nunits_ok(3) [OF n] by auto
    ultimately show ?thesis using False by simp
  qed
  then show ?thesis using m(1) by (auto simp: good_heap_def)
qed

lemma free_good:
  assumes g: "good_heap h asked" and a: "asked a = Some n"
  shows "\<exists>h'. free a h = Some h' \<and> good_heap h' (asked(a := None))"
proof -
  obtain qs where q: "ring h qs" "live h qs (headers asked)"
    and old: "\<And>a k. asked a = Some k \<Longrightarrow> 8 \<le> a \<and> k + 8 \<le> 8 * size_of h (a - 8)"
    using g a by (auto simp: good_heap_def keeps_def)
  have a8: "a - 8 + 8 = a" using old [OF a] by simp
  obtain h' qs' where h': "free a h = Some h'" "ring h' qs'" "live h' qs' (headers asked - {a - 8})"
    "\<And>x. x \<in> headers asked - {a - 8} \<Longrightarrow> size_of h' x = size_of h x"
    using live_free [OF q headers_mem [of asked, OF a]] unfolding a8 by metis
  have diff: "b - 8 \<in> headers asked - {a - 8}" if "asked b = Some k" "b \<noteq> a" for b k
    using old [OF a] old [OF that(1)] headers_mem [of asked b k] that by auto
  have "headers (asked(a := None)) = headers asked - {a - 8}"
  proof
    show "headers (asked(a := None)) \<subseteq> headers asked - {a - 8}"
      using diff by (auto simp: headers_def split: if_splits)
  qed (auto simp: headers_def)
  then have "keeps h' qs' (asked(a := None))"
    unfolding keeps_def using h'(2,3,4) old diff by auto
  then show ?thesis using h'(1) by (auto simp: good_heap_def)
qed

lemma good_disjoint:
  assumes "good_heap h asked" "asked a = Some n"
  shows "base h + 16 \<le> a" "a + n \<le> brk h" "asked b = Some m \<Longrightarrow> a \<noteq> b \<Longrightarrow> {a..<a + n} \<inter> {b..<b + m} = {}"
proof -
  obtain qs where l: "live h qs (headers asked)"
    and old: "\<And>a k. asked a = Some k \<Longrightarrow> 8 \<le> a \<and> k + 8 \<le> 8 * size_of h (a - 8)"
    using assms by (auto simp: good_heap_def keeps_def)
  have "fits h qs (a - 8)" using l headers_mem [of asked, OF assms(2)] by (simp add: live_def)
  then have f: "base h + 8 \<le> a - 8" "a - 8 + 8 * size_of h (a - 8) \<le> brk h" by (simp_all add: fits_def)
  show "base h + 16 \<le> a" "a + n \<le> brk h" using f old [OF assms(2)] by linarith+
  have sub: "{a..<a + n} \<subseteq> block h (a - 8)" if "asked a = Some n" for a n using old [OF that] by (auto simp: block_def)
  show "{a..<a + n} \<inter> {b..<b + m} = {}" if "asked b = Some m" "a \<noteq> b"
  proof -
    have "a - 8 \<noteq> b - 8" using old [OF assms(2)] old [OF that(1)] that(2) by linarith
    then have "block h (a - 8) \<inter> block h (b - 8) = {}"
      using l headers_mem [of asked, OF assms(2)] headers_mem [of asked, OF that(1)] by (simp add: live_def)
    then show ?thesis using sub [OF assms(2)] sub [OF that(1)] by blast
  qed
qed

text \<open>C36: Whatever a program allocates and frees, with requests below two gigabytes: every call returns, and
  the regions it holds are above the allocator's own data, inside the process, as long as asked for and
  disjoint from each other.\<close>

theorem allocated_regions_disjoint:
  assumes "fresh h" "list_all (\<lambda>c. case c of Malloc n \<Rightarrow> n + 15 < 2 ^ 31 | Free a \<Rightarrow> True) cs"
  shows "\<exists>h' asked. run cs h Map.empty = Some (h', asked) \<and>
    (\<forall>a n. asked a = Some n \<longrightarrow> base h' + 16 \<le> a \<and> a + n \<le> brk h') \<and>
    (\<forall>a n b m. asked a = Some n \<and> asked b = Some m \<and> a \<noteq> b \<longrightarrow> {a..<a + n} \<inter> {b..<b + m} = {})"
proof -
  have "good_heap h asked \<Longrightarrow> \<exists>h' asked'. run cs h asked = Some (h', asked') \<and> good_heap h' asked'" for asked
    using assms(2)
  proof (induction cs arbitrary: h asked)
    case (Cons c cs)
    show ?case
    proof (cases c)
      case (Malloc n)
      then show ?thesis using Cons malloc_good [of h asked n] by fastforce
    next
      case (Free a)
      then show ?thesis using Cons free_good [of h asked a] by (cases "asked a") fastforce+
    qed
  qed simp
  moreover have "good_heap h Map.empty" using assms(1) by (simp add: good_heap_def)
  ultimately obtain h' asked where r: "run cs h Map.empty = Some (h', asked)" "good_heap h' asked" by blast
  show ?thesis using r good_disjoint [OF r(2)] by (intro exI [of _ h'] exI [of _ asked]) blast
qed

definition small_heap :: heap where
  "small_heap = \<lparr>ptr = \<lambda>_. 0, size_of = \<lambda>_. 0, base = 0x900, freep = 0, brk = 0x1000, limit = 0xA0000\<rparr>"

theorem allocated_regions_disjoint_witness:
  "\<exists>h asked. run [Malloc 10, Malloc 70000, Free 0x8FF8, Malloc 3] small_heap Map.empty = Some (h, asked) \<and>
    (\<forall>a n. asked a = Some n \<longrightarrow> base h + 16 \<le> a \<and> a + n \<le> brk h)"
proof -
  have "fresh small_heap" by (simp add: fresh_def small_heap_def W_def)
  then show ?thesis
    using allocated_regions_disjoint [of small_heap "[Malloc 10, Malloc 70000, Free 0x8FF8, Malloc 3]"] by auto
qed

end
