(* ===== verification/Console.thy ===== *)
theory Console
  imports Ring
begin

text \<open>
  The console, \<open>kernel/console.c\<close>: the screen of the CGA adapter, and the input line that is edited in a ring
  buffer between what was committed and what is being typed. A key is the byte that the driver returns. What
  a key prints is a list of the characters given to \<open>consputc\<close>.
\<close>

section \<open>The screen\<close>

text \<open>The cells of the screen's memory and the cursor. Writing a cell outside the 25 lines is an error.\<close>

record cga =
  crt :: "nat \<Rightarrow> u16"
  cursor :: nat

datatype glyph = Glyph u8 | Backspace

definition CELLS :: nat where "CELLS = 2000"

definition put_cell :: "nat \<Rightarrow> u16 \<Rightarrow> (nat \<Rightarrow> u16) \<Rightarrow> (nat \<Rightarrow> u16) result" where
  "put_cell i x m = (if i < CELLS then Inr (m(i := x)) else Inl (OutOfBounds ''crt''))"

definition scroll :: "nat \<Rightarrow> (nat \<Rightarrow> u16) \<Rightarrow> (nat \<Rightarrow> u16)" where
  \<comment> \<open>the lines move up by one, and the cells from the new cursor to the end of the 24 lines are cleared\<close>
  "scroll pos m = (\<lambda>i. if pos \<le> i \<and> i < 24 * 80 then 0 else if i < 23 * 80 then m (i + 80) else m i)"

definition cgaputc :: "glyph \<Rightarrow> cga \<Rightarrow> cga result" where
  "cgaputc c s =
     bindE (case c of
        Glyph b \<Rightarrow>
          if b = 10 then Inr (cursor s + (80 - cursor s mod 80), crt s)
          else bindE (put_cell (cursor s) (ucast b OR 0x0700) (crt s)) (\<lambda>m. Inr (cursor s + 1, m))
      | Backspace \<Rightarrow> Inr (cursor s - 1, crt s)) (\<lambda>(pos, m).
     let (pos1, m1) = (if pos div 80 \<ge> 24 then (pos - 80, scroll (pos - 80) m) else (pos, m)) in
     bindE (put_cell pos1 0x0720 m1) (\<lambda>m2. Inr \<lparr>crt = m2, cursor = pos1\<rparr>))"

fun put_all :: "glyph list \<Rightarrow> cga \<Rightarrow> cga result" where
  "put_all [] s = Inr s"
| "put_all (c # cs) s = bindE (cgaputc c s) (put_all cs)"

section \<open>The input buffer\<close>

definition INPUT_BUF :: nat where "INPUT_BUF = 128"

record input =
  ibuf :: "nat \<Rightarrow> u8"
  ir :: u32     \<comment> \<open>read index\<close>
  iw :: u32     \<comment> \<open>write index\<close>
  ie :: u32     \<comment> \<open>edit index\<close>

abbreviation NL :: u8 where "NL \<equiv> 10"
abbreviation CR :: u8 where "CR \<equiv> 13"
abbreviation ctl_D :: u8 where "ctl_D \<equiv> 4"
abbreviation ctl_H :: u8 where "ctl_H \<equiv> 8"
abbreviation ctl_P :: u8 where "ctl_P \<equiv> 16"
abbreviation ctl_U :: u8 where "ctl_U \<equiv> 21"
abbreviation DEL :: u8 where "DEL \<equiv> 127"

definition at_index :: "input \<Rightarrow> u32 \<Rightarrow> u8" where
  "at_index s i = ibuf s (unat i mod INPUT_BUF)"

function kill_line :: "input \<Rightarrow> input \<times> glyph list" where
  "kill_line s =
     (if ie s \<noteq> iw s \<and> at_index s (ie s - 1) \<noteq> NL
      then let (s', out) = kill_line (s\<lparr>ie := ie s - 1\<rparr>) in (s', Backspace # out)
      else (s, []))"
  by pat_completeness auto

termination
proof (relation "measure (\<lambda>s. unat (ie s - iw s))", goal_cases)
  case (2 s)
  then have "Suc (unat (ie s - 1 - iw s)) = unat (ie s - iw s)" by (intro unat_diff_Suc(2)) auto
  then show ?case by simp
qed simp

declare kill_line.simps [simp del]

text \<open>What one key does, what it prints, and whether it wakes the readers; \<open>^P\<close> only lists the processes.\<close>

definition console_key :: "u8 \<Rightarrow> input \<Rightarrow> input \<times> glyph list \<times> bool" where
  "console_key c s =
     (if c = ctl_P then (s, [], False)
      else if c = ctl_U then let (s', out) = kill_line s in (s', out, False)
      else if c = ctl_H \<or> c = DEL then
        (if ie s \<noteq> iw s then (s\<lparr>ie := ie s - 1\<rparr>, [Backspace], False) else (s, [], False))
      else if c \<noteq> 0 \<and> ie s - ir s < of_nat INPUT_BUF then
        let c = (if c = CR then NL else c);
            s1 = s\<lparr>ibuf := (ibuf s)(unat (ie s) mod INPUT_BUF := c), ie := ie s + 1\<rparr>
        in if c = NL \<or> c = ctl_D \<or> ie s1 = ir s1 + of_nat INPUT_BUF
           then (s1\<lparr>iw := ie s1\<rparr>, [Glyph c], True) else (s1, [Glyph c], False)
      else (s, [], False))"

text \<open>All keys that the driver has.\<close>

fun consoleintr :: "u8 list \<Rightarrow> input \<Rightarrow> input \<times> glyph list \<times> bool" where
  "consoleintr [] s = (s, [], False)"
| "consoleintr (c # cs) s =
     (let (s1, out1, w1) = console_key c s; (s2, out2, w2) = consoleintr cs s1 in (s2, out1 @ out2, w1 \<or> w2))"

section \<open>Reading\<close>

text \<open>A read ends with bytes, is killed, or sleeps with the bytes it has stored and the count still wanted; it
  goes on from there when it is woken.\<close>

datatype outcome = Got "u8 list" | Killed | Asleep "u8 list" nat

fun read_input :: "nat \<Rightarrow> nat \<Rightarrow> bool \<Rightarrow> u8 list \<Rightarrow> input \<Rightarrow> outcome \<times> input" where
  "read_input target 0 kd dst s = (Got dst, s)"
| "read_input target (Suc n) kd dst s =
     (if ir s = iw s then (if kd then Killed else Asleep dst (Suc n), s)
      else let c = at_index s (ir s); s1 = s\<lparr>ir := ir s + 1\<rparr> in
        if c = ctl_D then (Got dst, if Suc n < target then s1\<lparr>ir := ir s1 - 1\<rparr> else s1)
        else if c = NL then (Got (dst @ [c]), s1)
        else read_input target n kd (dst @ [c]) s1)"

definition consoleread :: "int \<Rightarrow> bool \<Rightarrow> input \<Rightarrow> outcome \<times> input" where
  "consoleread n kd s = read_input (nat n) (nat n) kd [] s"

definition consolewrite :: "u8 list \<Rightarrow> cga \<Rightarrow> (int \<times> cga) result" where
  "consolewrite bs s = bindE (put_all (map Glyph bs) s) (\<lambda>s'. Inr (int (length bs), s'))"

section \<open>The screen stays inside its memory\<close>

definition cga_finish :: "nat \<Rightarrow> (nat \<Rightarrow> u16) \<Rightarrow> cga result" where
  "cga_finish pos m =
     (let (pos1, m1) = (if pos div 80 \<ge> 24 then (pos - 80, scroll (pos - 80) m) else (pos, m)) in
     bindE (put_cell pos1 0x0720 m1) (\<lambda>m2. Inr \<lparr>crt = m2, cursor = pos1\<rparr>))"

lemma cga_finish_ok: "pos \<le> 1920 \<Longrightarrow> \<exists>s'. cga_finish pos m = Inr s' \<and> cursor s' < 1920"
proof -
  assume pos: "pos \<le> 1920"
  have d: "24 \<le> pos div 80 \<longleftrightarrow> 1920 \<le> pos" by (simp add: less_eq_div_iff_mult_less_eq)
  show ?thesis
  proof (cases "1920 \<le> pos")
    case True
    then have "pos = 1920" using pos by simp
    then show ?thesis by (simp add: cga_finish_def put_cell_def CELLS_def)
  next
    case False
    then show ?thesis by (simp add: cga_finish_def d put_cell_def CELLS_def)
  qed
qed

lemma cgaputc_ok:
  assumes "cursor s < 1920"
  shows "\<exists>s'. cgaputc c s = Inr s' \<and> cursor s' < 1920"
proof -
  have "cursor s div 80 < 24" using assms by (simp add: div_less_iff_less_mult)
  moreover have "cursor s mod 80 < 80" by simp
  moreover have "cursor s = 80 * (cursor s div 80) + cursor s mod 80" by simp
  ultimately have nl: "cursor s + (80 - cursor s mod 80) \<le> 1920" by linarith
  show ?thesis
    unfolding cgaputc_def cga_finish_def [symmetric]
    using assms cga_finish_ok nl by (cases c) (simp_all add: put_cell_def CELLS_def)
qed

lemma put_all_ok: "cursor s < 1920 \<Longrightarrow> \<exists>s'. put_all cs s = Inr s' \<and> cursor s' < 1920"
proof (induction cs arbitrary: s)
  case (Cons c cs)
  then show ?case using cgaputc_ok [of s c] by fastforce
qed simp

end
