(* ===== verification/Console_Spec.thy ===== *)
theory Console_Spec
  imports Console
begin

text \<open>
  The input of the console as a line editor: the committed bytes and the line being typed are two lists. The
  ring buffer with its three wrapping indices implements it, for every sequence of keys and reads.
\<close>

section \<open>The line editor\<close>

type_synonym editor = "u8 list \<times> u8 list"   \<comment> \<open>committed, and the line that can still be edited\<close>

definition press :: "u8 \<Rightarrow> editor \<Rightarrow> editor \<times> glyph list \<times> bool" where
  "press c e = (case e of (q, l) \<Rightarrow>
     if c = ctl_P then ((q, l), [], False)
     else if c = ctl_U then ((q, []), replicate (length l) Backspace, False)
     else if c = ctl_H \<or> c = DEL then ((q, butlast l), (if l = [] then [] else [Backspace]), False)
     else if c \<noteq> 0 \<and> length q + length l < INPUT_BUF then
       let c = (if c = CR then NL else c) in
       if c = NL \<or> c = ctl_D \<or> length q + length l + 1 = INPUT_BUF
       then ((q @ l @ [c], []), [Glyph c], True) else ((q, l @ [c]), [Glyph c], False)
     else ((q, l), [], False))"

fun deliver :: "nat \<Rightarrow> nat \<Rightarrow> bool \<Rightarrow> u8 list \<Rightarrow> u8 list \<Rightarrow> outcome \<times> u8 list" where
  "deliver target 0 kd dst q = (Got dst, q)"
| "deliver target (Suc n) kd dst [] = (if kd then Killed else Asleep dst (Suc n), [])"
| "deliver target (Suc n) kd dst (c # q) =
     (if c = ctl_D then (Got dst, if Suc n < target then c # q else q)
      else if c = NL then (Got (dst @ [c]), q)
      else deliver target n kd (dst @ [c]) q)"

text \<open>What happens at the console, and what can be seen of it.\<close>

datatype action = Key u8 | Read nat nat bool "u8 list"

datatype seen = Printed "glyph list" bool | Outcome outcome

fun edits :: "action list \<Rightarrow> editor \<Rightarrow> seen list" where
  "edits [] e = []"
| "edits (Key c # as) e = (let (e', out, wake) = press c e in Printed out wake # edits as e')"
| "edits (Read target n kd dst # as) e =
     (let (r, q) = deliver target n kd dst (fst e) in Outcome r # edits as (q, snd e))"

fun runs_console :: "action list \<Rightarrow> input \<Rightarrow> seen list" where
  "runs_console [] s = []"
| "runs_console (Key c # as) s = (let (s', out, wake) = console_key c s in Printed out wake # runs_console as s')"
| "runs_console (Read target n kd dst # as) s =
     (let (r, s') = read_input target n kd dst s in Outcome r # runs_console as s')"

section \<open>The buffer implements it\<close>

interpretation ir: ring_buffer INPUT_BUF
  by unfold_locales (simp_all add: INPUT_BUF_def)

definition committed :: "input \<Rightarrow> u8 list" where
  "committed s = contents INPUT_BUF (ibuf s) (ir s) (iw s)"

definition typed :: "input \<Rightarrow> u8 list" where
  "typed s = contents INPUT_BUF (ibuf s) (iw s) (ie s)"

definition editor_of :: "input \<Rightarrow> editor" where
  "editor_of s = (committed s, typed s)"

definition wf_input :: "input \<Rightarrow> bool" where
  "wf_input s \<longleftrightarrow> unat (iw s - ir s) + unat (ie s - iw s) = unat (ie s - ir s) \<and>
     unat (ie s - ir s) \<le> INPUT_BUF \<and> NL \<notin> set (typed s)"

lemma lengths [simp]: "length (committed s) = unat (iw s - ir s)" "length (typed s) = unat (ie s - iw s)"
  by (simp_all add: committed_def typed_def)

lemma typed_Nil: "typed s = [] \<longleftrightarrow> ie s = iw s"
  by (auto simp: typed_def contents_Nil)

lemma erase:
  assumes wf: "wf_input s" and ne: "ie s \<noteq> iw s"
  defines "s' \<equiv> s\<lparr>ie := ie s - 1\<rparr>"
  shows "wf_input s'" "committed s' = committed s" "typed s = typed s' @ [at_index s (ie s - 1)]"
proof -
  show t: "typed s = typed s' @ [at_index s (ie s - 1)]"
    using ir.contents_unpush [of "iw s" "ie s" "ibuf s"] ne by (simp add: typed_def s'_def at_index_def)
  show "committed s' = committed s" by (simp add: committed_def s'_def)
  have "unat (ie s - iw s) \<noteq> 0" using ne by (simp add: unat_eq_0)
  then have "ie s \<noteq> ir s" using wf by (auto simp: wf_input_def)
  then have "Suc (unat (ie s - 1 - iw s)) = unat (ie s - iw s)" "Suc (unat (ie s - 1 - ir s)) = unat (ie s - ir s)"
    using ne by (auto intro: unat_diff_Suc(2))
  then show "wf_input s'" using wf t by (auto simp: wf_input_def s'_def)
qed

lemma kill_line_ok:
  "wf_input s \<Longrightarrow> kill_line s = (s', out) \<Longrightarrow>
     wf_input s' \<and> committed s' = committed s \<and> typed s' = [] \<and> out = replicate (length (typed s)) Backspace"
proof (induction s arbitrary: s' out rule: kill_line.induct)
  case (1 s)
  show ?case
  proof (cases "ie s = iw s")
    case True
    then show ?thesis using "1.prems" by (subst (asm) kill_line.simps) (auto simp: typed_Nil)
  next
    case False
    note e = erase [OF "1.prems"(1) False]
    have nl: "at_index s (ie s - 1) \<noteq> NL" using "1.prems"(1) e(3) by (auto simp: wf_input_def)
    obtain s1 out1 where k: "kill_line (s\<lparr>ie := ie s - 1\<rparr>) = (s1, out1)" by fastforce
    have "kill_line s = (s1, Backspace # out1)" using False nl k by (subst kill_line.simps) simp
    moreover have "length (typed s) = Suc (length (typed (s\<lparr>ie := ie s - 1\<rparr>)))" using e(3) by simp
    ultimately show ?thesis using "1.IH" [OF _ e(1) k] False nl "1.prems"(2) e(2) by simp
  qed
qed

lemma type_char:
  fixes c :: u8
  assumes wf: "wf_input s" and room: "unat (ie s - ir s) < INPUT_BUF"
  defines "s1 \<equiv> s\<lparr>ibuf := (ibuf s)(unat (ie s) mod INPUT_BUF := c), ie := ie s + 1\<rparr>"
  shows "committed s1 = committed s" "typed s1 = typed s @ [c]" "unat (ie s1 - ir s1) = Suc (unat (ie s - ir s))"
    "unat (ie s1 - iw s1) = Suc (unat (ie s - iw s))"
    "committed (s1\<lparr>iw := ie s1\<rparr>) = committed s @ typed s @ [c]"
proof -
  have le: "unat (iw s - ir s) \<le> unat (ie s - ir s)" "unat (ie s - iw s) < INPUT_BUF"
    "unat (iw s - ir s) + unat (ie s - iw s) = unat (ie s - ir s)"
    using wf room by (simp_all add: wf_input_def)
  show c: "committed s1 = committed s"
    using ir.contents_keep [OF room le(1)] by (simp add: committed_def s1_def)
  show t: "typed s1 = typed s @ [c]"
    using ir.contents_push(1) [OF le(2)] by (simp add: typed_def s1_def)
  show f: "unat (ie s1 - ir s1) = Suc (unat (ie s - ir s))" "unat (ie s1 - iw s1) = Suc (unat (ie s - iw s))"
    using ir.contents_push(2) [OF room] ir.contents_push(2) [OF le(2)] by (simp_all add: s1_def)
  have "unat (iw s1 - ir s1) + unat (ie s1 - iw s1) = unat (ie s1 - ir s1)"
    using le(3) f by (simp add: s1_def)
  then have "committed (s1\<lparr>iw := ie s1\<rparr>) = committed s1 @ typed s1"
    using ir.contents_append [of "iw s1" "ir s1" "ie s1" "ibuf s1"] by (simp add: committed_def typed_def)
  then show "committed (s1\<lparr>iw := ie s1\<rparr>) = committed s @ typed s @ [c]" by (simp add: c t)
qed

lemma full_iff:
  "ie s - ir s < of_nat INPUT_BUF \<longleftrightarrow> unat (ie s - ir s) < INPUT_BUF"
  "ie s = ir s + of_nat INPUT_BUF \<longleftrightarrow> unat (ie s - ir s) = INPUT_BUF"
proof -
  have u: "unat (of_nat INPUT_BUF :: u32) = INPUT_BUF" by (simp add: INPUT_BUF_def)
  show "ie s - ir s < of_nat INPUT_BUF \<longleftrightarrow> unat (ie s - ir s) < INPUT_BUF"
    by (simp add: word_less_nat_alt u)
  have "ie s = ir s + of_nat INPUT_BUF \<longleftrightarrow> ie s - ir s = of_nat INPUT_BUF" by (simp add: diff_eq_eq add.commute)
  also have "\<dots> \<longleftrightarrow> unat (ie s - ir s) = INPUT_BUF" by (simp add: word_unat_eq_iff u)
  finally show "ie s = ir s + of_nat INPUT_BUF \<longleftrightarrow> unat (ie s - ir s) = INPUT_BUF" .
qed

lemma key_ok:
  assumes wf: "wf_input s" and k: "console_key c s = (s', out, wake)"
  shows "wf_input s' \<and> press c (editor_of s) = (editor_of s', out, wake)"
proof -
  have len: "unat (iw s - ir s) + unat (ie s - iw s) = unat (ie s - ir s)" using wf by (simp add: wf_input_def)
  consider "c = ctl_P" | "c = ctl_U" | "c = ctl_H \<or> c = DEL" | "c \<notin> {ctl_P, ctl_U, ctl_H, DEL}" by blast
  then show ?thesis
  proof cases
    case 1
    then show ?thesis using k wf by (simp add: console_key_def press_def editor_of_def)
  next
    case 2
    then obtain out' where "kill_line s = (s', out')" "out = out'" "\<not> wake" using k
      by (auto simp: console_key_def split: prod.splits)
    then show ?thesis using kill_line_ok [OF wf, of s' out'] 2 by (simp add: press_def editor_of_def)
  next
    case 3
    then have ne: "c \<noteq> ctl_P" "c \<noteq> ctl_U" by auto
    show ?thesis
    proof (cases "ie s = iw s")
      case True
      then show ?thesis using k wf 3 ne by (simp add: console_key_def press_def editor_of_def typed_Nil [THEN iffD2])
    next
      case False
      note e = erase [OF wf False]
      then show ?thesis using k 3 ne False by (auto simp: console_key_def press_def editor_of_def)
    qed
  next
    case 4
    show ?thesis
    proof (cases "c \<noteq> 0 \<and> unat (ie s - ir s) < INPUT_BUF")
      case False
      then show ?thesis using k wf 4 by (auto simp: console_key_def press_def editor_of_def full_iff len)
    next
      case True
      define d where "d = (if c = CR then NL else c)"
      define s1 where "s1 = s\<lparr>ibuf := (ibuf s)(unat (ie s) mod INPUT_BUF := d), ie := ie s + 1\<rparr>"
      have room: "unat (ie s - ir s) < INPUT_BUF" using True by simp
      have i: "ir s1 = ir s" "iw s1 = iw s" "ie s1 = ie s + 1" by (simp_all add: s1_def)
      note t = type_char [OF wf room, of d, folded s1_def]
      define commit where "commit \<longleftrightarrow> d = NL \<or> d = ctl_D \<or> unat (ie s1 - ir s1) = INPUT_BUF"
      have s': "s' = (if commit then s1\<lparr>iw := ie s1\<rparr> else s1)" "out = [Glyph d]" "wake = commit"
        using k 4 True full_iff(2) [of s1, unfolded i]
        by (auto simp: console_key_def full_iff(1) d_def [symmetric] s1_def [symmetric] commit_def Let_def i split: if_splits)
      have p: "press c (editor_of s) = (if commit then ((committed s @ typed s @ [d], []), [Glyph d], True)
          else ((committed s, typed s @ [d]), [Glyph d], False))"
        using 4 True len t(3) by (auto simp: press_def editor_of_def d_def [symmetric] commit_def Let_def)
      show ?thesis
      proof (cases commit)
        case True
        have "typed (s1\<lparr>iw := ie s1\<rparr>) = []" by (simp add: typed_def)
        moreover have "wf_input (s1\<lparr>iw := ie s1\<rparr>)"
          using t(3) room by (simp add: wf_input_def calculation)
        ultimately show ?thesis using p s' t(5) True by (simp add: editor_of_def)
      next
        case False
        then have "d \<noteq> NL" by (simp add: commit_def)
        then have "wf_input s1" using wf room t len by (simp add: wf_input_def i)
        then show ?thesis using p s' t(1,2) False by (simp add: editor_of_def)
      qed
    qed
  qed
qed

lemma pop_input:
  assumes wf: "wf_input s" and ne: "ir s \<noteq> iw s"
  defines "s1 \<equiv> s\<lparr>ir := ir s + 1\<rparr>"
  shows "wf_input s1" "committed s = at_index s (ir s) # committed s1" "typed s1 = typed s"
proof -
  show "committed s = at_index s (ir s) # committed s1"
    using ir.contents_pop [OF ne, of "ibuf s"] by (simp add: committed_def at_index_def s1_def)
  show t: "typed s1 = typed s" by (simp add: typed_def s1_def)
  have "unat (iw s - ir s) \<noteq> 0" using ne by (simp add: unat_eq_0)
  then have "ir s \<noteq> ie s" using wf by (auto simp: wf_input_def)
  then have "Suc (unat (iw s - (ir s + 1))) = unat (iw s - ir s)" "Suc (unat (ie s - (ir s + 1))) = unat (ie s - ir s)"
    using ne by (auto intro: unat_diff_Suc(1))
  then show "wf_input s1" using wf t by (simp add: wf_input_def s1_def)
qed

lemma line_read_ok:
  "wf_input s \<Longrightarrow> read_input target n kd dst s = (r, s') \<Longrightarrow>
     wf_input s' \<and> typed s' = typed s \<and> deliver target n kd dst (committed s) = (r, committed s')"
proof (induction target n kd dst s arbitrary: r s' rule: read_input.induct)
  case (2 target n kd dst s)
  show ?case
  proof (cases "ir s = iw s")
    case True
    then have "committed s = []" by (simp add: committed_def)
    then show ?thesis using 2 True by auto
  next
    case False
    note p = pop_input [OF "2.prems"(1) False]
    show ?thesis
    proof (cases "at_index s (ir s) = ctl_D \<or> at_index s (ir s) = NL")
      case True
      then show ?thesis using "2.prems" False p by (auto simp: Let_def)
    next
      case stop: False
      then have "read_input target n kd (dst @ [at_index s (ir s)]) (s\<lparr>ir := ir s + 1\<rparr>) = (r, s')"
        using "2.prems"(2) False by (simp add: Let_def)
      then show ?thesis using "2.IH" [OF False refl refl _ _ p(1)] stop p(2,3) by simp
    qed
  qed
qed simp

text \<open>C37: For every sequence of keys and reads, whatever the values of the wrapping indices at the start, the
  console shows and delivers exactly what a line editor does: a line can be edited until its newline, \<open>^D\<close> or the
  full buffer commits it, and readers get the committed bytes in order, a line at a time.\<close>

theorem console_is_line_editor:
  assumes "ir s = ie s" "iw s = ie s"
  shows "runs_console acts s = edits acts ([], [])"
proof -
  have "wf_input s \<Longrightarrow> runs_console acts s = edits acts (editor_of s)" for s
  proof (induction acts s rule: runs_console.induct)
    case (2 c as s)
    obtain s' out wake where k: "console_key c s = (s', out, wake)" by (metis prod_cases3)
    then show ?case using key_ok [OF "2.prems" k] "2.IH" [of "(s', out, wake)" s' "(out, wake)" out wake] by simp
  next
    case (3 target n kd dst as s)
    obtain r s' where k: "read_input target n kd dst s = (r, s')" by fastforce
    then show ?case using line_read_ok [OF "3.prems" k] "3.IH" [of "(r, s')" r s'] by (simp add: editor_of_def)
  qed simp
  moreover have "wf_input s" "editor_of s = ([], [])"
    using assms by (simp_all add: wf_input_def typed_def committed_def editor_of_def)
  ultimately show ?thesis by simp
qed

theorem console_is_line_editor_witness:
  "runs_console [Key 97, Key 98, Key ctl_H, Key CR, Read 3 3 False []] \<lparr>ibuf = \<lambda>_. 0, ir = -2, iw = -2, ie = -2\<rparr> =
     [Printed [Glyph 97] False, Printed [Glyph 98] False, Printed [Backspace] False, Printed [Glyph NL] True,
      Outcome (Got [97, NL])]"
  by (subst console_is_line_editor) (simp_all add: press_def INPUT_BUF_def numeral_3_eq_3)

text \<open>Printing never writes outside the screen's memory, and leaves the cursor on its 24 lines.\<close>

theorem console_output_in_screen:
  assumes "cursor s < 1920"
  shows "\<exists>s'. consolewrite bytes s = Inr (int (length bytes), s') \<and> cursor s' < 1920"
  using put_all_ok [OF assms, of "map Glyph bytes"] by (auto simp: consolewrite_def)

end
