(* ===== verification/Printf.thy ===== *)
theory Printf
  imports Libc
begin

text \<open>
  Formatted output: \<open>printf\<close> of the user library, \<open>user/printf.c\<close>, and \<open>cprintf\<close> of the kernel,
  \<open>kernel/console.c\<close>. The arguments are the 32-bit words behind the format on the stack; taking more than
  there are reads whatever is next to them. A string argument is looked up in the memory, a function from addresses to
  the text there. The result is what is printed.
\<close>

definition digit :: "string \<Rightarrow> u32 \<Rightarrow> char" where
  "digit digits d = digits ! unat d"

abbreviation upper :: string where "upper \<equiv> ''0123456789ABCDEF''"
abbreviation lower :: string where "lower \<equiv> ''0123456789abcdef''"

text \<open>The loop over the digits, the last one first, into a buffer of 16 bytes.\<close>

function put_digits :: "string \<Rightarrow> u32 \<Rightarrow> u32 \<Rightarrow> string \<Rightarrow> string result" where
  "put_digits digits base x buf =
     (if base \<le> 1 then Inl NoFuel
      else if length buf \<ge> 16 then Inl (OutOfBounds ''buf'')
      else let buf1 = buf @ [digit digits (x mod base)] in
        if x div base \<noteq> 0 then put_digits digits base (x div base) buf1 else Inr buf1)"
  by pat_completeness auto

termination by (relation "measure (\<lambda>(digits, base, x, buf). 16 - length buf)") auto

declare put_digits.simps [simp del]

definition printint :: "string \<Rightarrow> u32 \<Rightarrow> u32 \<Rightarrow> bool \<Rightarrow> string result" where
  "printint digits xx base sg =
     (let neg = (sg \<and> sint xx < 0); x = (if neg then - xx else xx) in
      bindE (put_digits digits base x []) (\<lambda>buf.
        if neg then
          if length buf \<ge> 16 then Inl (OutOfBounds ''buf'') else Inr (rev (buf @ ''-''))
        else Inr (rev buf)))"

definition string_arg :: "(u32 \<Rightarrow> string) \<Rightarrow> u32 \<Rightarrow> string" where
  "string_arg mem a = (if a = 0 then ''(null)'' else mem a)"

text \<open>The user's \<open>printf\<close>; \<open>percent\<close> is the state after a percent sign.\<close>

fun printf :: "(u32 \<Rightarrow> string) \<Rightarrow> bool \<Rightarrow> string \<Rightarrow> u32 list \<Rightarrow> string result" where
  "printf mem percent [] ap = Inr []"
| "printf mem False (c # fmt) ap =
     (if c = CHR ''%'' then printf mem True fmt ap
      else bindE (printf mem False fmt ap) (\<lambda>out. Inr (c # out)))"
| "printf mem True (c # fmt) ap =
     (if c = CHR ''d'' \<or> c = CHR ''x'' \<or> c = CHR ''p'' \<or> c = CHR ''s'' \<or> c = CHR ''c'' then
        (case ap of [] \<Rightarrow> Inl (OutOfBounds ''ap'')
         | a # ap' \<Rightarrow>
             bindE (if c = CHR ''d'' then printint upper a 10 True
               else if c = CHR ''x'' \<or> c = CHR ''p'' then printint upper a 16 False
               else if c = CHR ''s'' then Inr (string_arg mem a)
               else Inr [char_of (unat a mod 256)]) (\<lambda>s.
             bindE (printf mem False fmt ap') (\<lambda>out. Inr (s @ out))))
      else bindE (printf mem False fmt ap) (\<lambda>out.
        Inr ((if c = CHR ''%'' then [c] else [CHR ''%'', c]) @ out)))"

text \<open>The kernel's \<open>cprintf\<close> has no \<open>%c\<close>.\<close>

fun cprintf :: "(u32 \<Rightarrow> string) \<Rightarrow> string \<Rightarrow> u32 list \<Rightarrow> string result" where
  "cprintf mem [] argp = Inr []"
| "cprintf mem [c] argp = Inr (if c = CHR ''%'' then [] else [c])"
| "cprintf mem (c # d # fmt) argp =
     (if c \<noteq> CHR ''%'' then bindE (cprintf mem (d # fmt) argp) (\<lambda>out. Inr (c # out))
      else if d = CHR ''d'' \<or> d = CHR ''x'' \<or> d = CHR ''p'' \<or> d = CHR ''s'' then
        (case argp of [] \<Rightarrow> Inl (OutOfBounds ''ap'')
         | a # argp' \<Rightarrow>
             bindE (if d = CHR ''d'' then printint lower a 10 True
               else if d = CHR ''x'' \<or> d = CHR ''p'' then printint lower a 16 False
               else Inr (string_arg mem a)) (\<lambda>s.
             bindE (cprintf mem fmt argp') (\<lambda>out. Inr (s @ out))))
      else bindE (cprintf mem fmt argp) (\<lambda>out.
        Inr ((if d = CHR ''%'' then ''%'' else [CHR ''%'', d]) @ out)))"

section \<open>Numbers\<close>

definition digit_value :: "char \<Rightarrow> nat" where
  "digit_value c = (let n = of_char c in if n < 58 then n - 48 else if n < 97 then n - 55 else n - 87)"

definition value_of :: "nat \<Rightarrow> string \<Rightarrow> nat" where
  \<comment> \<open>the number that upper or lower case digits denote\<close>
  "value_of b s = foldl (\<lambda>v c. b * v + digit_value c) 0 s"

lemma digit_values:
  assumes "d < 16" "digits = upper \<or> digits = lower"
  shows "value_of b [digits ! d] = d \<and> (d \<noteq> 0 \<longrightarrow> digits ! d \<noteq> CHR ''0'')"
proof -
  have "d = 0 \<or> d = 1 \<or> d = 2 \<or> d = 3 \<or> d = 4 \<or> d = 5 \<or> d = 6 \<or> d = 7 \<or> d = 8 \<or> d = 9 \<or> d = 10 \<or>
      d = 11 \<or> d = 12 \<or> d = 13 \<or> d = 14 \<or> d = 15"
    using assms(1) by presburger
  then have "digit_value (digits ! d) = d \<and> (d \<noteq> 0 \<longrightarrow> digits ! d \<noteq> CHR ''0'')"
    using assms(2) by (elim disjE; simp add: digit_value_def)
  then show ?thesis by (simp add: value_of_def)
qed

lemma value_of_snoc: "value_of b (s @ [c]) = b * value_of b s + value_of b [c]"
  by (simp add: value_of_def)

text \<open>A number below \<open>B ^ (k + 1)\<close> has at most \<open>k + 1\<close> digits.\<close>

lemma put_digits_ok:
  assumes d: "digits = upper \<or> digits = lower" and b: "unat base = B" "1 < B" "B \<le> 16"
  shows "unat x < B ^ (k + 1) \<Longrightarrow> length buf + k < 16 \<Longrightarrow>
    \<exists>s. put_digits digits base x buf = Inr (buf @ s) \<and> length s \<le> k + 1 \<and> s \<noteq> [] \<and>
      value_of B (rev s) = unat x \<and> (s = [digits ! 0] \<or> last s \<noteq> CHR ''0'')"
proof (induction k arbitrary: x buf)
  case 0
  have nb: "\<not> base \<le> 1" using b by (simp add: word_le_nat_alt)
  have x: "x div base = 0" "unat (x mod base) = unat x"
    using 0 b by (simp_all add: word_unat_eq_iff unat_div unat_mod)
  then have "put_digits digits base x buf = Inr (buf @ [digits ! unat x])"
    using 0 nb by (subst put_digits.simps) (simp add: digit_def)
  then show ?case using digit_values [of "unat x" digits B] 0 b d by (cases "unat x = 0") auto
next
  case (Suc k)
  have nb: "\<not> base \<le> 1" using b by (simp add: word_le_nat_alt)
  have q: "unat (x div base) = unat x div B" "unat (x mod base) = unat x mod B"
    using b by (simp_all add: unat_div unat_mod)
  have lt: "unat x mod B < 16" using b mod_less_divisor [of B "unat x"] by linarith
  define c where "c = digits ! (unat x mod B)"
  have dc: "digit digits (x mod base) = c" by (simp add: digit_def q c_def)
  show ?case
  proof (cases "x div base = 0")
    case True
    then have "unat x < B" using q(1) b by (simp add: div_eq_0_iff)
    moreover have "put_digits digits base x buf = Inr (buf @ [c])"
      using Suc.prems nb True by (subst put_digits.simps) (simp add: dc)
    ultimately show ?thesis using digit_values [of "unat x" digits B] b d
      by (cases "unat x = 0") (auto simp: c_def)
  next
    case False
    have "unat (x div base) < B ^ (k + 1)"
      using Suc.prems(1) b unfolding q by (simp add: div_less_iff_less_mult mult.commute)
    then obtain s where s: "put_digits digits base (x div base) (buf @ [c]) = Inr ((buf @ [c]) @ s)"
      "length s \<le> k + 1" "value_of B (rev s) = unat (x div base)" "s = [digits ! 0] \<or> last s \<noteq> CHR ''0''"
      using Suc.IH [of "x div base" "buf @ [c]"] Suc.prems(2) by auto
    have "s \<noteq> []" using s(3) False by (auto simp: value_of_def unat_eq_0)
    have "put_digits digits base x buf = put_digits digits base (x div base) (buf @ [c])"
      using Suc.prems nb False by (subst put_digits.simps) (simp add: dc)
    moreover have "value_of B (rev (c # s)) = unat x"
      using digit_values [OF lt d, of B] s(3) unfolding rev.simps value_of_snoc by (simp add: c_def q)
    moreover have "s \<noteq> [digits ! 0]"
    proof
      assume "s = [digits ! 0]"
      then have "unat (x div base) = 0" using s(3) digit_values [of 0 digits B] d by simp
      then show False using False by (simp add: unat_eq_0)
    qed
    ultimately show ?thesis using s \<open>s \<noteq> []\<close> by (intro exI [of _ "c # s"]) simp
  qed
qed

lemma unat_uminus_neg:
  fixes x :: u32
  assumes "sint x < 0"
  shows "int (unat (- x)) = - sint x"
proof -
  have "uint (word_of_int k :: u32) = k mod 2 ^ 32" for k by (simp add: unsigned_of_int take_bit_eq_mod)
  from this [of "- sint x"] have "uint (- x) = (- sint x) mod 2 ^ 32" by simp
  moreover have "- sint x \<le> 2 ^ 31" using sint_greater_eq [of x] by simp
  ultimately show ?thesis using assms by simp
qed

text \<open>Printing a number in base 10 or 16: with a sign exactly when it is negative, without leading
  zeros, the digits denote its absolute value, and the 16 bytes of the buffer are enough.\<close>

theorem printed_number:
  assumes "digits = upper \<or> digits = lower" "base = 10 \<and> B = 10 \<or> base = 16 \<and> B = 16"
  shows "\<exists>s. printint digits x base sg =
      Inr ((if sg \<and> sint x < 0 then ''-'' else []) @ s) \<and>
    int (value_of B s) = (if sg then \<bar>sint x\<bar> else uint x) \<and> (s = ''0'' \<or> hd s \<noteq> CHR ''0'')"
proof -
  define y where "y = (if sg \<and> sint x < 0 then - x else x)"
  have "unat y < 10 ^ (9 + 1) \<and> unat y < 16 ^ (7 + 1)" 
  proof -
    have "unat y < 2 ^ 32" using unsigned_less [of y] by simp
    then show ?thesis by simp
  qed
  then obtain s where s: "put_digits digits base y [] = Inr s" "length s \<le> 10" "s \<noteq> []" "value_of B (rev s) = unat y"
      "s = [digits ! 0] \<or> last s \<noteq> CHR ''0''"
    using assms put_digits_ok [OF assms(1), of base 10 y 9 "[]"] put_digits_ok [OF assms(1), of base 16 y 7 "[]"] by fastforce
  have y: "int (unat y) = (if sg then \<bar>sint x\<bar> else uint x)"
    using sint_nonneg [of x] unat_uminus_neg [of x] by (auto simp: y_def)
  have "hd (rev s) = last s" using s(3) by (simp add: hd_rev)
  moreover have "digits ! 0 = CHR ''0''" using assms(1) by auto
  moreover have "printint digits x base sg = Inr ((if sg \<and> sint x < 0 then ''-'' else []) @ rev s)"
    using s(1,2) by (simp add: printint_def y_def Let_def)
  ultimately show ?thesis using s(4,5) y by (intro exI [of _ "rev s"]) auto
qed

section \<open>The two printers\<close>

text \<open>Formats without hexadecimal numbers and \<open>%c\<close>; the first argument is the state after a percent sign.\<close>

fun plain :: "bool \<Rightarrow> string \<Rightarrow> bool" where
  "plain percent [] = True"
| "plain False (c # fmt) = plain (c = CHR ''%'') fmt"
| "plain True (c # fmt) \<longleftrightarrow> c \<notin> set ''xpc'' \<and> plain False fmt"

lemma decimal_case: "printint upper a 10 sg = printint lower a 10 sg"
proof -
  have same: "digit upper (x mod 10) = digit lower (x mod 10)" for x
  proof -
    have "upper ! d = lower ! d" if "d < 10" for d :: nat
    proof -
      have "d = 0 \<or> d = 1 \<or> d = 2 \<or> d = 3 \<or> d = 4 \<or> d = 5 \<or> d = 6 \<or> d = 7 \<or> d = 8 \<or> d = 9"
        using that by presburger
      then show ?thesis by (elim disjE) simp_all
    qed
    then have "upper ! (unat x mod 10) = lower ! (unat x mod 10)" by simp
    then show ?thesis by (simp add: digit_def unat_mod)
  qed
  have "put_digits upper b x buf = put_digits lower b x buf" if "b = 10" for b x buf
    using that
  proof (induction upper b x buf rule: put_digits.induct)
    case (1 base x buf)
    then show ?case
      by (subst (1 2) put_digits.simps) (simp add: same Let_def)
  qed
  then show ?thesis by (simp add: printint_def)
qed

text \<open>On plain formats the kernel and the user library print the same.\<close>

theorem printers_agree: "plain False fmt \<Longrightarrow> cprintf mem fmt ap = printf mem False fmt ap"
proof (induction mem fmt ap rule: cprintf.induct)
  case (3 mem c d fmt argp)
  then show ?case by (cases "c = CHR ''%''") (auto simp: decimal_case cong: bindE_cong split: list.splits)
qed simp_all

theorem printers_agree_witness: "cprintf (\<lambda>_. ''x'') ''%d%%'' [7] = printf (\<lambda>_. ''x'') False ''%d%%'' [7]"
  by (rule printers_agree) simp

end
