(* ===== verification/Mkfs.thy ===== *)
theory Mkfs
  imports Fs
begin

text \<open>
  The builder of file system images, \<open>tools/mkfs.c\<close>: a program of the host that writes a superblock, inodes,
  directories, file contents and the bitmap into an image file, for the kernel's \<open>Fs\<close> to read. The
  image is the list of its sectors. The host's directory tree is a value: what \<open>readdir\<close>, \<open>open\<close> and
  \<open>read\<close> return. A failed read of the image and a failed assertion end the program: \<open>Panic\<close>.
\<close>

section \<open>The image\<close>

record mk =
  img :: "u8 list list"
  sb :: superblock
  freeblock :: u32
  usedblocks :: u32
  bitblocks :: u32
  freeinode :: u32

definition zeroes :: "u8 list" where "zeroes = replicate 512 0"

text \<open>The conversion to the byte order of the disk, on a little endian host.\<close>

definition xshort :: "u16 \<Rightarrow> u16" where
  "xshort x = ld16 [ucast x, ucast (drop_bit 8 x)] 0"

definition xint :: "u32 \<Rightarrow> u32" where
  "xint x = ld32 [ucast x, ucast (drop_bit 8 x), ucast (drop_bit 16 x), ucast (drop_bit 24 x)] 0"

text \<open>A write behind the end of the file fills the gap with zeroes; a read there returns less than a sector.\<close>

definition wsect :: "u32 \<Rightarrow> u8 list \<Rightarrow> mk \<Rightarrow> mk" where
  "wsect sec buf s =
     s\<lparr>img := (if unat sec < length (img s) then (img s)[unat sec := buf]
       else img s @ replicate (unat sec - length (img s)) zeroes @ [buf])\<rparr>"

definition rsect :: "u32 \<Rightarrow> mk \<Rightarrow> u8 list result" where
  "rsect sec s = (if unat sec < length (img s) then Inr (img s ! unat sec) else Inl (Panic ''read''))"

definition i2b :: "u32 \<Rightarrow> u32" where
  "i2b ino = ino div of_nat IPB + 2"

definition winode :: "u32 \<Rightarrow> dinode \<Rightarrow> mk \<Rightarrow> mk result" where
  "winode ino ip s =
     bindE (rsect (i2b ino) s) (\<lambda>buf. Inr (wsect (i2b ino) (put_dinode buf (unat (ino mod of_nat IPB)) ip) s))"

definition rinode :: "u32 \<Rightarrow> mk \<Rightarrow> dinode result" where
  "rinode ino s = bindE (rsect (i2b ino) s) (\<lambda>buf. Inr (get_dinode buf (unat (ino mod of_nat IPB))))"

section \<open>Superblock, inodes and bitmap\<close>

definition mkfs :: "u32 \<Rightarrow> u32 \<Rightarrow> u32 \<Rightarrow> mk \<Rightarrow> mk result" where
  "mkfs nb ni sz s =
     (let bits = sz div (512 * 8) + 1;
          used = ni div of_nat IPB + 3 + bits;
          s1 = s\<lparr>sb := \<lparr>sb_size = xint sz, nblocks = xint nb, ninodes = xint ni\<rparr>,
                 bitblocks := bits, usedblocks := used, freeblock := used\<rparr> in
      if nb + used \<noteq> sz then Inl (Panic ''assert'')
      else
        let s2 = fold (\<lambda>i. wsect (of_nat i) zeroes) [0..<unat (nb + used)] s1;
            buf = st32 (st32 (st32 zeroes 0 (sb_size (sb s2))) 4 (nblocks (sb s2))) 8 (ninodes (sb s2))
        in Inr (wsect 1 buf s2))"

definition ialloc :: "u16 \<Rightarrow> mk \<Rightarrow> (u32 \<times> mk) result" where
  "ialloc t s =
     (let ino = freeinode s; s1 = s\<lparr>freeinode := ino + 1\<rparr>;
          din = \<lparr>d_type = xshort t, d_major = 0, d_minor = 0, d_nlink = xshort 1, d_size = xint 0,
                 d_addrs = replicate (NDIRECT + 1) 0\<rparr>
      in bindE (winode ino din s1) (\<lambda>s2. Inr (ino, s2)))"

definition balloc :: "u32 \<Rightarrow> mk \<Rightarrow> mk result" where
  "balloc used s =
     (if 512 * 8 \<le> sint used then Inl (Panic ''assert'')
      else Inr (wsect (200 div of_nat IPB + 3) (fold (\<lambda>i buf. mark_used buf i) [0..<nat (sint used)] zeroes) s))"

section \<open>Appending to a file\<close>

definition take_block :: "mk \<Rightarrow> mk" where
  "take_block s = s\<lparr>freeblock := freeblock s + 1, usedblocks := usedblocks s + 1\<rparr>"

text \<open>The sector of block \<open>fbn\<close> of a file, which is allocated when there is none yet, and the indirect block
  likewise. The inode is the caller's copy.\<close>

definition data_block :: "u32 \<Rightarrow> dinode \<Rightarrow> mk \<Rightarrow> (u32 \<times> dinode \<times> mk) result" where
  "data_block fbn din s =
     (if fbn < of_nat NDIRECT then
        let (din1, s1) =
          (if xint (d_addrs din ! unat fbn) = 0
           then (din\<lparr>d_addrs := (d_addrs din)[unat fbn := xint (freeblock s)]\<rparr>, take_block s) else (din, s))
        in Inr (xint (d_addrs din1 ! unat fbn), din1, s1)
      else
        let (din1, s1) =
          (if xint (d_addrs din ! NDIRECT) = 0
           then (din\<lparr>d_addrs := (d_addrs din)[NDIRECT := xint (freeblock s)]\<rparr>, take_block s) else (din, s));
          k = unat fbn - NDIRECT
        in
        bindE (rsect (xint (d_addrs din1 ! NDIRECT)) s1) (\<lambda>indirect.
        if ld32 indirect (4 * k) = 0 then
          let indirect1 = st32 indirect (4 * k) (xint (freeblock s1))
          in Inr (xint (ld32 indirect1 (4 * k)), din1, wsect (xint (d_addrs din1 ! NDIRECT)) indirect1 (take_block s1))
        else Inr (xint (ld32 indirect (4 * k)), din1, s1)))"

lemma chunk_positive: "(unat ((off :: u32) div 512) + 1) * 512 - unat off > 0"
proof -
  have "unat (off div 512) = unat off div 512" by (simp add: unat_div)
  moreover have "unat off < (unat off div 512 + 1) * 512" by (simp add: dividend_less_div_times)
  ultimately show ?thesis by simp
qed

function iappend_loop :: "u8 list \<Rightarrow> u32 \<Rightarrow> dinode \<Rightarrow> mk \<Rightarrow> (u32 \<times> dinode \<times> mk) result" where
  "iappend_loop p off din s =
     (if p = [] then Inr (off, din, s)
      else
        let fbn = off div 512 in
        if of_nat MAXFILE \<le> fbn then Inl (Panic ''assert'')
        else
          bindE (data_block fbn din s) (\<lambda>(x, din1, s1).
          let n1 = min (length p) ((unat fbn + 1) * 512 - unat off) in
          bindE (rsect x s1) (\<lambda>buf.
          iappend_loop (drop n1 p) (off + of_nat n1) din1
            (wsect x (splice buf (unat off - unat fbn * 512) (take n1 p)) s1))))"
  by pat_completeness auto

termination
proof (relation "measure (\<lambda>(p, off, din, s). length p)", goal_cases)
  case (2 p off din s fbn x a y d b n1 buf)
  then show ?case using chunk_positive [of off] by (cases p) auto
qed simp

declare iappend_loop.simps [simp del]

definition iappend :: "u32 \<Rightarrow> u8 list \<Rightarrow> mk \<Rightarrow> mk result" where
  "iappend ino p s =
     bindE (rinode ino s) (\<lambda>din.
     bindE (iappend_loop p (xint (d_size din)) din s) (\<lambda>(off, din1, s1).
     winode ino (din1\<lparr>d_size := xint off\<rparr>) s1))"

section \<open>Directories\<close>

text \<open>An entry of a directory of the host cannot be opened, is a file with what the calls of \<open>read\<close> return,
  or a directory with its entries in the order of \<open>readdir\<close>, if it can be listed.\<close>

datatype hnode =
    Unopenable
  | File "u8 list list"
  | Dir "(u8 list \<times> hnode) list option"

type_synonym hdir = "(u8 list \<times> hnode) list option"

abbreviation entries_size :: "(u8 list \<times> hnode) list \<Rightarrow> nat" where
  "entries_size \<equiv> size_list (size_prod (\<lambda>_. 0) size)"

definition DOT :: "u8 list" where "DOT = [46]"
definition DOTDOT :: "u8 list" where "DOTDOT = [46, 46]"

definition dirent :: "u32 \<Rightarrow> u8 list \<Rightarrow> u8 list" where
  "dirent ino name = st16 [0, 0] 0 (xshort (ucast ino)) @ pad_name name"

fun append_all :: "u32 \<Rightarrow> u8 list list \<Rightarrow> mk \<Rightarrow> mk result" where
  "append_all ino [] s = Inr s"
| "append_all ino (b # bs) s = bindE (iappend ino b s) (append_all ino bs)"

text \<open>The size of a directory is raised to the end of the block behind its last entry.\<close>

definition fix_size :: "u32 \<Rightarrow> mk \<Rightarrow> mk result" where
  "fix_size ino s =
     bindE (rinode ino s) (\<lambda>din.
     let off = (xint (d_size din) div of_nat BSIZE + 1) * of_nat BSIZE
     in winode ino (din\<lparr>d_size := xint off\<rparr>) s)"

function (sequential) add_dir :: "hdir \<Rightarrow> u32 \<Rightarrow> u32 \<Rightarrow> mk \<Rightarrow> (int \<times> mk) result"
and add_entries :: "(u8 list \<times> hnode) list \<Rightarrow> u32 \<Rightarrow> mk \<Rightarrow> (int \<times> mk) result" where
  "add_dir cur_dir cur parent s =
     bindE (iappend cur (dirent cur DOT) s) (\<lambda>s1.
     bindE (iappend cur (dirent parent DOTDOT) s1) (\<lambda>s2.
     case cur_dir of
       None \<Rightarrow> Inr (0, s2)
     | Some es \<Rightarrow>
         bindE (add_entries es cur s2) (\<lambda>(r, s3).
         if r \<noteq> 0 then Inr (r, s3) else bindE (fix_size cur s3) (\<lambda>s4. Inr (0, s4)))))"
| "add_entries [] cur s = Inr (0, s)"
| "add_entries ((name, e) # es) cur s =
     (if name = DOT \<or> name = DOTDOT then add_entries es cur s
      else case e of
        Unopenable \<Rightarrow> Inr (-1, s)
      | Dir d \<Rightarrow>
          bindE (ialloc T_DIR s) (\<lambda>(child, s1).
          bindE (add_dir d child cur s1) (\<lambda>(r, s2).
          if r \<noteq> 0 then Inr (r, s2)
          else bindE (iappend cur (dirent child name) s2) (add_entries es cur)))
      | File chunks \<Rightarrow>
          bindE (ialloc T_FILE s) (\<lambda>(child, s1).
          bindE (append_all child chunks s1) (\<lambda>s2.
          bindE (iappend cur (dirent child name) s2) (add_entries es cur))))"
  by pat_completeness auto

termination
  by (relation "measure (\<lambda>x. case x of Inl (d, _) \<Rightarrow> size_option entries_size d | Inr (es, _) \<Rightarrow> entries_size es)") auto

declare add_dir.simps [simp del] add_entries.simps [simp del]

text \<open>The program; the image file is empty at first.\<close>

definition start :: mk where
  "start = \<lparr>img = [], sb = \<lparr>sb_size = 0, nblocks = 0, ninodes = 0\<rparr>, freeblock = 0, usedblocks = 0, bitblocks = 0,
     freeinode = 1\<rparr>"

definition mkfs_main :: "hdir \<Rightarrow> mk result" where
  "mkfs_main root_dir =
     bindE (mkfs 995 200 1024 start) (\<lambda>s1.
     bindE (ialloc T_DIR s1) (\<lambda>(root, s2).
     if root \<noteq> 1 then Inl (Panic ''assert'')
     else
       bindE (add_dir root_dir root root s2) (\<lambda>(r, s3).
       if r \<noteq> 0 then Inl (Panic ''failure'') else balloc (usedblocks s3) s3)))"

end
