(* ===== verification/Mkfs_Spec.thy ===== *)
theory Mkfs_Spec
  imports Mkfs Fs_Blocks Fs_Files
begin

text \<open>
  What the image builder promises: \<open>iappend\<close> appends to the bytes of one inode and leaves the others alone.
  The block addresses of an inode are numbered by the order in which they are allocated, its keys: the direct
  addresses 0 to 11, the indirect block 12, then the addresses in the indirect block. The ghost state is the
  number of keys in use and the bytes of every inode.
\<close>

lemma xint [simp]: "xint x = x" and xshort [simp]: "xshort y = y"
  using bytes_of_word32 [of x] byte_of_word16 [of y]
  by (simp_all add: xint_def xshort_def ld32_def ld16_def)

lemma zero_words [simp]: "i + 4 \<le> 512 \<Longrightarrow> ld32 zeroes i = 0" "i < 512 \<Longrightarrow> zeroes ! i = 0" "length zeroes = 512"
  by (simp_all add: zeroes_def ld32_def)

section \<open>The layout\<close>

definition key :: "nat \<Rightarrow> nat" where
  "key j = (if j < 12 then j else j + 1)"

lemma key_eq [simp]: "key i = key j \<longleftrightarrow> i = j"
  by (auto simp: key_def split: if_splits)

lemma key_12 [simp]: "key i \<noteq> 12" "12 \<noteq> key i"
  by (auto simp: key_def)

definition bno :: "u8 list list \<Rightarrow> dinode \<Rightarrow> nat \<Rightarrow> u32" where
  "bno im d k = (if k \<le> 12 then d_addrs d ! k else ld32 (im ! unat (d_addrs d ! 12)) (4 * (k - 13)))"

text \<open>One inode with \<open>K\<close> keys below the first free block \<open>fb\<close>; the image; and all inodes below \<open>fi\<close>.\<close>

definition inode_ok :: "u8 list list \<Rightarrow> u32 \<Rightarrow> dinode \<Rightarrow> nat \<Rightarrow> bool" where
  "inode_ok im fb d K \<longleftrightarrow> length (d_addrs d) = 13 \<and> K \<le> 141 \<and>
     (\<forall>k < K. 29 \<le> unat (bno im d k) \<and> unat (bno im d k) < unat fb) \<and>
     (\<forall>k. K \<le> k \<and> k \<le> 140 \<and> (k \<le> 12 \<or> 12 < K) \<longrightarrow> bno im d k = 0)"

definition image_ok :: "u8 list list \<Rightarrow> u32 \<Rightarrow> bool" where
  "image_ok im fb \<longleftrightarrow> length im = 1024 \<and> (\<forall>b < 1024. length (im ! b) = 512) \<and> 29 \<le> unat fb \<and> unat fb \<le> 1024 \<and>
     (\<forall>b. unat fb \<le> b \<and> b < 1024 \<longrightarrow> im ! b = zeroes)"

definition layout :: "u8 list list \<Rightarrow> (nat \<Rightarrow> dinode) \<Rightarrow> (nat \<Rightarrow> nat) \<Rightarrow> nat \<Rightarrow> u32 \<Rightarrow> bool" where
  "layout im D K fi fb \<longleftrightarrow> image_ok im fb \<and> (\<forall>n < fi. inode_ok im fb (D n) (K n)) \<and>
     (\<forall>n < fi. \<forall>m < fi. \<forall>k < K n. \<forall>l < K m. bno im (D n) k = bno im (D m) l \<longrightarrow> n = m \<and> k = l)"

definition holds :: "u8 list list \<Rightarrow> (nat \<Rightarrow> dinode) \<Rightarrow> (nat \<Rightarrow> nat) \<Rightarrow> (nat \<Rightarrow> u8 list) \<Rightarrow> nat \<Rightarrow> bool" where
  "holds im D K c fi \<longleftrightarrow> (\<forall>n < fi.
     (\<forall>q j. key q < K n \<longrightarrow> j < 512 \<longrightarrow> im ! unat (bno im (D n) (key q)) ! j =
       (if 512 * q + j < length (c n) then c n ! (512 * q + j) else 0)) \<and>
     (\<forall>q. 512 * q < length (c n) \<longrightarrow> key q < K n))"

lemma layoutD:
  assumes "layout im D K fi fb" "n < fi"
  shows "image_ok im fb" "inode_ok im fb (D n) (K n)" "length (d_addrs (D n)) = 13" "K n \<le> 141"
    and "k < K n \<Longrightarrow> 29 \<le> unat (bno im (D n) k) \<and> unat (bno im (D n) k) < unat fb"
    and "K n \<le> k \<Longrightarrow> k \<le> 140 \<Longrightarrow> k \<le> 12 \<or> 12 < K n \<Longrightarrow> bno im (D n) k = 0"
    and "m < fi \<Longrightarrow> k < K n \<Longrightarrow> l < K m \<Longrightarrow> bno im (D n) k = bno im (D m) l \<longleftrightarrow> n = m \<and> k = l"
  using assms unfolding layout_def inode_ok_def by blast+

lemma layoutI:
  assumes "image_ok im fb" "\<And>n. n < fi \<Longrightarrow> inode_ok im fb (D n) (K n)"
    and "\<And>n m k l. n < fi \<Longrightarrow> m < fi \<Longrightarrow> k < K n \<Longrightarrow> l < K m \<Longrightarrow>
      bno im (D n) k = bno im (D m) l \<Longrightarrow> n = m \<and> k = l"
  shows "layout im D K fi fb"
  unfolding layout_def using assms by blast

lemma layout_sizes:
  assumes "layout im D K fi fb"
  shows "length im = 1024" "b < 1024 \<Longrightarrow> length (im ! b) = 512" "29 \<le> unat fb" "unat fb \<le> 1024"
    and "unat fb \<le> b \<Longrightarrow> b < 1024 \<Longrightarrow> im ! b = zeroes"
  using assms unfolding layout_def image_ok_def by blast+

lemma inode_ok_more: "inode_ok im fb d K \<Longrightarrow> unat fb \<le> unat fb' \<Longrightarrow> inode_ok im fb' d K"
  unfolding inode_ok_def using order_less_le_trans by blast

lemma inode_ok_cong:
  assumes "inode_ok im fb d K" "\<And>k. k \<le> 140 \<Longrightarrow> k \<le> 12 \<or> 12 < K \<Longrightarrow> bno im' d k = bno im d k"
  shows "inode_ok im' fb d K"
proof -
  have "k \<le> 140 \<and> (k \<le> 12 \<or> 12 < K)" if "k < K" for k using that assms(1) by (auto simp: inode_ok_def)
  then show ?thesis using assms unfolding inode_ok_def by metis
qed

text \<open>The next key of an inode gets the first free block; nothing else changes.\<close>

lemma layout_grow:
  assumes L: "layout im D K fi fb" and n: "n < fi" and fb: "unat fb < 1024" and K: "K n \<le> 140"
    and d: "length (d_addrs d) = 13" "bno im' d (K n) = fb"
      "\<And>k. k < K n \<Longrightarrow> bno im' d k = bno im (D n) k"
      "\<And>k. K n < k \<Longrightarrow> k \<le> 140 \<Longrightarrow> k \<le> 12 \<or> 12 < K n + 1 \<Longrightarrow> bno im' d k = 0"
    and o: "\<And>m k. m < fi \<Longrightarrow> m \<noteq> n \<Longrightarrow> k \<le> 140 \<Longrightarrow> k \<le> 12 \<or> 12 < K m \<Longrightarrow> bno im' (D m) k = bno im (D m) k"
    and im: "image_ok im' fb"
  shows "layout im' (D(n := d)) (K(n := K n + 1)) fi (fb + 1)"
proof -
  have u: "unat (fb + 1) = unat fb + 1" using fb by (simp add: unat_word_ariths)
  note nL = layoutD [OF L n]
  have img: "image_ok im' (fb + 1)" using im fb unfolding image_ok_def u by auto
  have rng: "k < K m \<Longrightarrow> m < fi \<Longrightarrow> k \<le> 140 \<and> (k \<le> 12 \<or> 12 < K m)" for k m
    using layoutD(4) [OF L, of m] by auto
  have new: "inode_ok im' (fb + 1) d (K n + 1)"
  proof -
    have "29 \<le> unat (bno im' d k) \<and> unat (bno im' d k) < unat fb + 1" if "k < K n + 1" for k
    proof (cases "k = K n")
      case True
      then show ?thesis using d(2) layout_sizes(3) [OF L] by simp
    next
      case False
      then have "k < K n" using that by simp
      then show ?thesis using d(3) nL(5) by fastforce
    qed
    moreover have "bno im' d k = 0" if "K n + 1 \<le> k \<and> k \<le> 140 \<and> (k \<le> 12 \<or> 12 < K n + 1)" for k
      using that d(4) [of k] by simp
    ultimately show ?thesis using d(1) K unfolding inode_ok_def u by simp
  qed
  have old: "inode_ok im' (fb + 1) (D m) (K m)" if "m < fi" "m \<noteq> n" for m
    using inode_ok_more [OF inode_ok_cong [OF layoutD(2) [OF L that(1)] o [OF that]], of "fb + 1"] u by simp
  have inj: "(n1 = m \<and> k = l)"
    if "n1 < fi" "m < fi" "k < (K(n := K n + 1)) n1" "l < (K(n := K n + 1)) m"
      "bno im' ((D(n := d)) n1) k = bno im' ((D(n := d)) m) l" for n1 m k l
  proof -
    define B where "B x j = (if x = n \<and> j = K n then fb else bno im (D x) j)" for x j
    have B: "bno im' ((D(n := d)) x) j = B x j" if "x < fi" "j < (K(n := K n + 1)) x" for x j
      using that d(2,3) o [of x j] rng [of j x] by (cases "x = n"; cases "j = K n") (auto simp: B_def)
    have low: "unat (B x j) < unat fb" if "x < fi" "j < (K(n := K n + 1)) x" "\<not> (x = n \<and> j = K n)" for x j
      using that layoutD(5) [OF L that(1), of j] by (auto simp: B_def split: if_splits)
    have e: "B n1 k = B m l" using that B by simp
    show ?thesis
    proof (cases "(n1 = n \<and> k = K n) \<or> (m = n \<and> l = K n)")
      case True
      then show ?thesis using e low [OF that(1,3)] low [OF that(2,4)] by (auto simp: B_def split: if_splits)
    next
      case False
      then have "k < K n1" "l < K m" using that(3,4) by (auto split: if_splits)
      then show ?thesis using e False layoutD(7) [OF L that(1,2), of k l] by (auto simp: B_def)
    qed
  qed
  have ok: "inode_ok im' (fb + 1) ((D(n := d)) m) ((K(n := K n + 1)) m)" if "m < fi" for m
    using new old that by (cases "m = n") simp_all
  show ?thesis by (rule layoutI [OF img ok inj])
qed

lemma holdsD:
  assumes "holds im D K c fi" "n < fi"
  shows "key q < K n \<Longrightarrow> j < 512 \<Longrightarrow> im ! unat (bno im (D n) (key q)) ! j =
       (if 512 * q + j < length (c n) then c n ! (512 * q + j) else 0)"
    and "512 * q < length (c n) \<Longrightarrow> key q < K n"
  using assms unfolding holds_def by blast+

lemma holdsI:
  assumes "\<And>n q j. n < fi \<Longrightarrow> key q < K n \<Longrightarrow> j < 512 \<Longrightarrow> im ! unat (bno im (D n) (key q)) ! j =
       (if 512 * q + j < length (c n) then c n ! (512 * q + j) else 0)"
    and "\<And>n q. n < fi \<Longrightarrow> 512 * q < length (c n) \<Longrightarrow> key q < K n"
  shows "holds im D K c fi"
  unfolding holds_def using assms by blast

lemma holds_grow:
  assumes L: "layout im D K fi fb" and H: "holds im D K c fi" and n: "n < fi"
    and d: "bno im' d (K n) = fb" "\<And>k. k < K n \<Longrightarrow> bno im' d k = bno im (D n) k"
    and o: "\<And>m k. m < fi \<Longrightarrow> m \<noteq> n \<Longrightarrow> k \<le> 140 \<Longrightarrow> k \<le> 12 \<or> 12 < K m \<Longrightarrow> bno im' (D m) k = bno im (D m) k"
    and data: "\<And>m q. m < fi \<Longrightarrow> key q < K m \<Longrightarrow> im' ! unat (bno im (D m) (key q)) = im ! unat (bno im (D m) (key q))"
    and z: "im' ! unat fb = zeroes"
  shows "holds im' (D(n := d)) (K(n := K n + 1)) c fi"
proof (rule holdsI, goal_cases)
  case (1 m q j)
  show ?case
  proof (cases "m = n \<and> key q = K n")
    case True
    then have "\<not> 512 * q < length (c n)" using holdsD(2) [OF H n, of q] by auto
    then show ?thesis using True d(1) z 1(3) by simp
  next
    case False
    then have k: "key q < K m" using 1(2) by (cases "m = n") auto
    then have "key q \<le> 140" "key q \<le> 12 \<or> 12 < K m" using layoutD(4) [OF L 1(1)] by auto
    then have "bno im' ((D(n := d)) m) (key q) = bno im (D m) (key q)"
      using d(2) [of "key q"] k o [OF 1(1)] by (cases "m = n") auto
    then show ?thesis using holdsD(1) [OF H 1(1) k 1(3)] data [OF 1(1) k] by simp
  qed
next
  case (2 m q)
  then show ?case using holdsD(2) [OF H 2] by (cases "m = n") auto
qed

lemma grow_direct:
  assumes L: "layout im D K fi fb" and H: "holds im D K c fi" and n: "n < fi" and k: "K n \<le> 12" and fb: "unat fb < 1024"
  defines "d \<equiv> (D n)\<lparr>d_addrs := (d_addrs (D n))[K n := fb]\<rparr>"
  shows "layout im (D(n := d)) (K(n := K n + 1)) fi (fb + 1)" "holds im (D(n := d)) (K(n := K n + 1)) c fi"
proof -
  have len: "length (d_addrs (D n)) = 13" by (rule layoutD(3) [OF L n])
  have d1: "bno im d (K n) = fb" and d2: "\<And>j. j < K n \<Longrightarrow> bno im d j = bno im (D n) j"
    using k len by (simp_all add: d_def bno_def)
  have z: "im ! unat fb = zeroes" using layout_sizes(5) [OF L] fb by simp
  have d3: "bno im d j = 0" if "K n < j" "j \<le> 140" "j \<le> 12 \<or> 12 < K n + 1" for j
  proof (cases "j \<le> 12")
    case True
    have "bno im (D n) j = 0" using layoutD(6) [OF L n, of j] that True by simp
    then show ?thesis using True that(1) by (simp add: d_def bno_def)
  next
    case False
    then have "K n = 12" using that k by simp
    then show ?thesis using False that(2) len z by (simp add: d_def bno_def)
  qed
  have im: "image_ok im fb" by (rule layoutD(1) [OF L n])
  show "layout im (D(n := d)) (K(n := K n + 1)) fi (fb + 1)"
    by (rule layout_grow [OF L n fb _ _ d1 d2 d3 _ im]) (use k len in \<open>simp_all add: d_def\<close>)
  show "holds im (D(n := d)) (K(n := K n + 1)) c fi"
    by (rule holds_grow [OF L H n d1 d2 _ _ z]) simp_all
qed

text \<open>The indirect block of an inode is no other block in use.\<close>

lemma not_indirect:
  assumes L: "layout im D K fi fb" and n: "n < fi" "12 < K n" and m: "m < fi"
  shows "l < K m \<Longrightarrow> \<not> (m = n \<and> l = 12) \<Longrightarrow> unat (bno im (D m) l) \<noteq> unat (d_addrs (D n) ! 12)"
  unfolding word_unat_eq_iff [symmetric]
  using layoutD(7) [OF L m n(1), of l 12] n(2) by (auto simp: bno_def [of im "D n" 12])

lemma grow_indirect:
  assumes L: "layout im D K fi fb" and H: "holds im D K c fi" and n: "n < fi" and k: "12 < K n" "K n \<le> 140"
    and fb: "unat fb < 1024"
  defines "ind \<equiv> unat (d_addrs (D n) ! 12)"
  defines "im' \<equiv> im[ind := st32 (im ! ind) (4 * (K n - 13)) fb]"
  shows "layout im' D (K(n := K n + 1)) fi (fb + 1)" "holds im' D (K(n := K n + 1)) c fi"
proof -
  have e: "bno im (D n) 12 = d_addrs (D n) ! 12" by (simp add: bno_def)
  then have i: "29 \<le> ind" "ind < unat fb" using layoutD(5) [OF L n k(1)] by (simp_all add: ind_def)
  have sz: "length im = 1024" "length (im ! ind) = 512" using layout_sizes [OF L] i fb by auto
  have new: "im' ! ind = st32 (im ! ind) (4 * (K n - 13)) fb" using sz i fb by (simp add: im'_def)
  have other: "im' ! b = im ! b" if "b \<noteq> ind" for b using that by (simp add: im'_def)
  have d1: "bno im' (D n) (K n) = fb" using k sz by (simp add: bno_def ind_def [symmetric] new)
  have oth: "bno im' (D n) j = bno im (D n) j" if "j \<noteq> K n" "j \<le> 140" for j
  proof -
    have "4 * (j - 13) + 4 \<le> 4 * (K n - 13) \<or> 4 * (K n - 13) + 4 \<le> 4 * (j - 13)" if "12 < j" 
      using that \<open>j \<noteq> K n\<close> k by linarith
    then show ?thesis by (auto simp: bno_def ind_def [symmetric] new ld_st_other)
  qed
  have d2: "\<And>j. j < K n \<Longrightarrow> bno im' (D n) j = bno im (D n) j" using oth k by simp
  have d3: "\<And>j. K n < j \<Longrightarrow> j \<le> 140 \<Longrightarrow> j \<le> 12 \<or> 12 < K n + 1 \<Longrightarrow> bno im' (D n) j = 0"
    using oth layoutD(6) [OF L n] k by simp
  have o: "bno im' (D m) j = bno im (D m) j" if "m < fi" "m \<noteq> n" "j \<le> 140" "j \<le> 12 \<or> 12 < K m" for m j
  proof -
    have "unat (d_addrs (D m) ! 12) \<noteq> ind" if "12 < K m"
      using not_indirect [OF L n k(1) \<open>m < fi\<close> that] \<open>m \<noteq> n\<close> by (simp add: bno_def ind_def)
    then show ?thesis using that(4) by (auto simp: bno_def other)
  qed
  have im: "image_ok im' fb"
    using layoutD(1) [OF L n] i fb sz unfolding image_ok_def by (auto simp: im'_def nth_list_update)
  have dn: "D(n := D n) = D" by simp
  have "layout im' (D(n := D n)) (K(n := K n + 1)) fi (fb + 1)"
    by (rule layout_grow [OF L n fb k(2) layoutD(3) [OF L n] d1]) (use d2 d3 o im in auto)
  then show "layout im' D (K(n := K n + 1)) fi (fb + 1)" by (simp only: dn)
  have data: "im' ! unat (bno im (D m) (key q)) = im ! unat (bno im (D m) (key q))"
    if "m < fi" "key q < K m" for m q
    using not_indirect [OF L n k(1) that] other by (simp add: ind_def)
  have z: "im' ! unat fb = zeroes" using layout_sizes(5) [OF L] fb i other by simp
  have "holds im' (D(n := D n)) (K(n := K n + 1)) c fi"
    by (rule holds_grow [OF L H n d1 _ _ _ z]) (use d2 o data in auto)
  then show "holds im' D (K(n := K n + 1)) c fi" by (simp only: dn)
qed

text \<open>Writing a data block of an inode.\<close>

lemma layout_cong:
  assumes L: "layout im D K fi fb" and im: "image_ok im' fb"
    and o: "\<And>m k. m < fi \<Longrightarrow> k \<le> 140 \<Longrightarrow> k \<le> 12 \<or> 12 < K m \<Longrightarrow> bno im' (D' m) k = bno im (D m) k"
    and d: "\<And>m. m < fi \<Longrightarrow> length (d_addrs (D' m)) = 13"
  shows "layout im' D' K fi fb"
proof (rule layoutI [OF im])
  have r: "bno im' (D' m) k = bno im (D m) k" if "m < fi" "k < K m" for m k
    using that o [of m k] layoutD(4) [OF L that(1)] by (cases "k \<le> 12") auto
  show "inode_ok im' fb (D' m) (K m)" if "m < fi" for m
    using layoutD(2) [OF L that] layoutD(4) [OF L that] o [OF that] r [OF that] d [OF that]
    unfolding inode_ok_def by simp
  show "n = m \<and> k = l"
    if "n < fi" "m < fi" "k < K n" "l < K m" "bno im' (D' n) k = bno im' (D' m) l" for n m k l
    using that r layoutD(7) [OF L that(1-4)] by simp
qed

lemma write_data:
  assumes L: "layout im D K fi fb" and H: "holds im D K c fi" and n: "n < fi" and q: "key q < K n"
    and x: "length x = 512"
    and cn: "length (c n) \<le> length cn" "\<And>r. 512 * r < length cn \<Longrightarrow> key r < K n"
      "\<And>j. j < 512 \<Longrightarrow> x ! j = (if 512 * q + j < length cn then cn ! (512 * q + j) else 0)"
      "\<And>r j. r \<noteq> q \<Longrightarrow> j < 512 \<Longrightarrow> 512 * r + j < length cn \<Longrightarrow> 512 * r + j < length (c n) \<and> cn ! (512 * r + j) = c n ! (512 * r + j)"
  defines "im' \<equiv> im[unat (bno im (D n) (key q)) := x]"
  shows "layout im' D K fi fb" "holds im' D K (c(n := cn)) fi"
proof -
  let ?b = "unat (bno im (D n) (key q))"
  have b: "29 \<le> ?b" "?b < unat fb" "?b < 1024"
    using layoutD(5) [OF L n q] layout_sizes(4) [OF L] by auto
  have new: "im' ! ?b = x" using layout_sizes(1) [OF L] b by (simp add: im'_def)
  have other: "im' ! a = im ! a" if "a \<noteq> ?b" for a using that by (simp add: im'_def)
  have o: "bno im' (D m) k = bno im (D m) k" if "m < fi" "k \<le> 140" "k \<le> 12 \<or> 12 < K m" for m k
  proof -
    have "unat (d_addrs (D m) ! 12) \<noteq> ?b" if "12 < K m"
      using not_indirect [OF L \<open>m < fi\<close> that n q] by simp
    then show ?thesis using that(3) by (auto simp: bno_def other)
  qed
  have im: "image_ok im' fb"
    using layoutD(1) [OF L n] b x unfolding image_ok_def by (auto simp: im'_def nth_list_update)
  show "layout im' D K fi fb" by (rule layout_cong [OF L im o layoutD(3) [OF L]])
  have r: "bno im' (D m) k = bno im (D m) k" if "m < fi" "k < K m" for m k
    using that o [of m k] layoutD(4) [OF L that(1)] by (cases "k \<le> 12") auto
  show "holds im' D K (c(n := cn)) fi"
  proof (rule holdsI, goal_cases)
    case (1 m p j)
    show ?case
    proof (cases "m = n \<and> p = q")
      case True
      then show ?thesis using r [OF n q] new cn(3) 1(3) by simp
    next
      case False
      then have "unat (bno im (D m) (key p)) \<noteq> ?b"
        unfolding word_unat_eq_iff [symmetric] using layoutD(7) [OF L 1(1) n 1(2) q] by auto
      then have "im' ! unat (bno im' (D m) (key p)) ! j =
          (if 512 * p + j < length (c m) then c m ! (512 * p + j) else 0)"
        using r [OF 1(1,2)] other holdsD(1) [OF H 1] by simp
      then show ?thesis using False cn(1) cn(4) [of p j] 1(3) by auto
    qed
  next
    case (2 m p)
    then show ?case using holdsD(2) [OF H 2(1), of p] cn(2) [of p] by (cases "m = n") auto
  qed
qed

section \<open>Inodes on the image\<close>

definition disk :: "u8 list list \<Rightarrow> nat \<Rightarrow> dinode" where
  "disk im n = get_dinode (im ! (n div 8 + 2)) (n mod 8)"

lemma i2b_nat: "unat ino < 208 \<Longrightarrow> unat (i2b ino) = unat ino div 8 + 2 \<and> unat ino div 8 + 2 < 29 \<and> unat (ino mod of_nat IPB) = unat ino mod 8"
proof -
  assume "unat ino < 208"
  moreover from this have "unat ino div 8 < 26" by (simp add: div_less_iff_less_mult)
  ultimately show ?thesis by (simp add: i2b_def IPB_def unat_word_ariths unat_div unat_mod)
qed

lemma rinode_ok:
  assumes "length (img s) = 1024" "unat ino < 208"
  shows "rinode ino s = Inr (disk (img s) (unat ino))"
  using assms i2b_nat [OF assms(2)] by (simp add: rinode_def rsect_def disk_def)

lemma winode_ok:
  assumes im: "length (img s) = 1024" "\<And>b. b < 1024 \<Longrightarrow> length (img s ! b) = 512" and n: "unat ino < 208"
    and v: "length (d_addrs v) = 13"
  obtains im' where "winode ino v s = Inr (s\<lparr>img := im'\<rparr>)"
    "disk im' = (disk (img s))(unat ino := v)" "length im' = 1024"
    "\<And>b. b < 1024 \<Longrightarrow> length (im' ! b) = 512" "\<And>b. 29 \<le> b \<Longrightarrow> im' ! b = img s ! b" "im' ! 1 = img s ! 1"
proof -
  let ?b = "unat ino div 8 + 2"
  let ?im = "(img s)[?b := put_dinode (img s ! ?b) (unat ino mod 8) v]"
  have w: "winode ino v s = Inr (s\<lparr>img := ?im\<rparr>)"
    using im(1) i2b_nat [OF n] by (simp add: winode_def rsect_def wsect_def)
  have b: "?b < 29" using i2b_nat [OF n] by simp
  then have x: "length (img s ! ?b) = BSIZE" using im(2) by (simp add: BSIZE_def)
  have vv: "length (d_addrs v) = NDIRECT + 1" using v by (simp add: NDIRECT_def)
  have m8: "unat ino mod 8 < IPB" by (simp add: IPB_def)
  have d: "disk ?im m = ((disk (img s))(unat ino := v)) m" for m
  proof (cases "m div 8 = unat ino div 8")
    case False
    then show ?thesis by (auto simp: disk_def)
  next
    case True
    then have e: "?im ! (m div 8 + 2) = put_dinode (img s ! ?b) (unat ino mod 8) v" using b im(1) by simp
    have "m = unat ino \<longleftrightarrow> m mod 8 = unat ino mod 8" using True by (metis div_mult_mod_eq)
    then show ?thesis
      unfolding fun_upd_apply disk_def e
      using put_dinode_same(1) [OF x m8 vv] put_dinode_other [OF _ vv, of "m mod 8" "unat ino mod 8" "img s ! ?b"] True
      by auto
  qed
  have "\<And>b. b < 1024 \<Longrightarrow> length (?im ! b) = 512"
    using im(2) b put_dinode_same(2) [OF x m8 vv] by (auto simp: nth_list_update BSIZE_def im(1))
  with d b im(1) show ?thesis by (intro that [OF w]) auto
qed

section \<open>Finding a data block\<close>

definition opened :: "mk \<Rightarrow> nat \<Rightarrow> (nat \<Rightarrow> dinode) \<Rightarrow> (nat \<Rightarrow> nat) \<Rightarrow> (nat \<Rightarrow> u8 list) \<Rightarrow> nat \<Rightarrow> bool" where
  \<comment> \<open>the inodes are those of the image, but for the caller's copy of inode \<open>n\<close>\<close>
  "opened s n D K c fi \<longleftrightarrow> layout (img s) D K fi (freeblock s) \<and> holds (img s) D K c fi \<and>
     (\<forall>m < fi. m \<noteq> n \<longrightarrow> D m = disk (img s) m) \<and> usedblocks s = freeblock s"

definition frame :: "nat \<Rightarrow> mk \<Rightarrow> (nat \<Rightarrow> dinode) \<Rightarrow> mk \<Rightarrow> (nat \<Rightarrow> dinode) \<Rightarrow> bool" where
  "frame n s D s' D' \<longleftrightarrow> freeinode s' = freeinode s \<and> (\<forall>b < 29. img s' ! b = img s ! b) \<and>
     (\<forall>m. m \<noteq> n \<longrightarrow> D' m = D m) \<and> (\<exists>as. D' n = (D n)\<lparr>d_addrs := as\<rparr>)"

lemma frame_refl [simp]: "frame n s D s D"
proof -
  have "D n = (D n)\<lparr>d_addrs := d_addrs (D n)\<rparr>" by simp
  then show ?thesis unfolding frame_def by blast
qed

lemma frame_trans: "frame n s D s1 D1 \<Longrightarrow> frame n s1 D1 s2 D2 \<Longrightarrow> frame n s D s2 D2"
  by (auto simp: frame_def)

lemma disk_low: "\<forall>b < 29. im' ! b = im ! b \<Longrightarrow> m < 208 \<Longrightarrow> disk im' m = disk im m"
  by (simp add: disk_def div_less_iff_less_mult)

lemma nonzero: "layout im D K fi fb \<Longrightarrow> n < fi \<Longrightarrow> k < K n \<Longrightarrow> bno im (D n) k \<noteq> 0"
  using layoutD(5) [of im D K fi fb n k] by auto

lemma direct_ok:
  assumes O: "opened s n D K c fi" and n: "n < fi" and k: "k \<le> 12" "k \<le> K n"
    and room: "unat (freeblock s) + (Suc k - K n) \<le> 1024"
  obtains D' s' where
    "(if d_addrs (D n) ! k = 0 then ((D n)\<lparr>d_addrs := (d_addrs (D n))[k := freeblock s]\<rparr>, take_block s) else (D n, s)) = (D' n, s')"
    "opened s' n D' (K(n := max (K n) (Suc k))) c fi" "unat (freeblock s') = unat (freeblock s) + (Suc k - K n)"
    "frame n s D s' D'"
proof -
  have L: "layout (img s) D K fi (freeblock s)" and H: "holds (img s) D K c fi"
    and o: "\<forall>m < fi. m \<noteq> n \<longrightarrow> D m = disk (img s) m" and u: "usedblocks s = freeblock s"
    using O by (simp_all add: opened_def)
  have b: "bno (img s) (D n) k = d_addrs (D n) ! k" using k by (simp add: bno_def)
  show ?thesis
  proof (cases "K n = k")
    case True
    have kn: "K n \<le> 12" and fb: "unat (freeblock s) < 1024" using k room True by auto
    note g = grow_direct [OF L H n kn fb]
    have z: "d_addrs (D n) ! k = 0" using layoutD(6) [OF L n, of k] b True k by simp
    let ?D = "D(n := (D n)\<lparr>d_addrs := (d_addrs (D n))[k := freeblock s]\<rparr>)"
    show ?thesis
    proof (rule that [of ?D "take_block s"])
      show "opened (take_block s) n ?D (K(n := max (K n) (Suc k))) c fi"
        using g True o u by (simp add: opened_def take_block_def)
      show "unat (freeblock (take_block s)) = unat (freeblock s) + (Suc k - K n)"
        using fb True by (simp add: take_block_def unat_word_ariths)
      show "frame n s D (take_block s) ?D" by (auto simp: frame_def take_block_def)
    qed (simp add: z)
  next
    case False
    then have "k < K n" using k by simp
    then have nz: "d_addrs (D n) ! k \<noteq> 0" using nonzero [OF L n] b by metis
    have "K(n := max (K n) (Suc k)) = K" using \<open>k < K n\<close> by auto
    then show ?thesis using that [of D s] nz O \<open>k < K n\<close> by simp
  qed
qed

lemma indirect_ok:
  assumes O: "opened s n D K c fi" and n: "n < fi" and fi: "fi \<le> 208" and k: "12 < k" "k \<le> 140" "k \<le> K n" "12 < K n"
    and room: "unat (freeblock s) + (Suc k - K n) \<le> 1024"
  defines "ind \<equiv> d_addrs (D n) ! 12" and "x \<equiv> img s ! unat (d_addrs (D n) ! 12)"
  obtains s' where
    "rsect ind s = Inr x"
    "(if ld32 x (4 * (k - 13)) = 0 then
        let y = st32 x (4 * (k - 13)) (freeblock s) in (ld32 y (4 * (k - 13)), wsect ind y (take_block s))
      else (ld32 x (4 * (k - 13)), s)) = (bno (img s') (D n) k, s')"
    "opened s' n D (K(n := max (K n) (Suc k))) c fi" "unat (freeblock s') = unat (freeblock s) + (Suc k - K n)"
    "frame n s D s' D"
proof -
  have L: "layout (img s) D K fi (freeblock s)" and H: "holds (img s) D K c fi"
    and o: "\<forall>m < fi. m \<noteq> n \<longrightarrow> D m = disk (img s) m" and u: "usedblocks s = freeblock s"
    using O by (simp_all add: opened_def)
  have b: "bno (img s) (D n) k = ld32 x (4 * (k - 13))" using k by (simp add: bno_def x_def)
  have i: "29 \<le> unat ind" "unat ind < unat (freeblock s)"
    using layoutD(5) [OF L n k(4)] by (simp_all add: bno_def ind_def)
  then have i1024: "unat ind < 1024" using layout_sizes(4) [OF L] by simp
  have len: "length (img s) = 1024" "length x = 512" using layout_sizes [OF L] i1024 by (simp_all add: x_def ind_def)
  have r: "rsect ind s = Inr x" using i1024 len by (simp add: rsect_def x_def ind_def)
  show ?thesis
  proof (cases "K n = k")
    case True
    have fb: "unat (freeblock s) < 1024" and kn: "12 < K n" "K n \<le> 140" using k room True by auto
    note g = grow_indirect [OF L H n kn fb]
    let ?s = "wsect ind (st32 x (4 * (k - 13)) (freeblock s)) (take_block s)"
    have im: "img ?s = (img s)[unat ind := st32 x (4 * (k - 13)) (freeblock s)]"
      "freeblock ?s = freeblock s + 1" "usedblocks ?s = usedblocks s + 1" "freeinode ?s = freeinode s"
      using len i1024 by (simp_all add: wsect_def take_block_def)
    have z: "ld32 x (4 * (k - 13)) = 0" using layoutD(6) [OF L n, of k] b True k by simp
    have low: "\<forall>b < 29. img ?s ! b = img s ! b" using i by (simp add: im)
    have e: "bno (img ?s) (D n) k = ld32 (st32 x (4 * (k - 13)) (freeblock s)) (4 * (k - 13))"
      using k i1024 len unfolding im by (simp add: bno_def ind_def)
    show ?thesis
    proof (rule that [OF r])
      show "opened ?s n D (K(n := max (K n) (Suc k))) c fi"
        using g True o u fi disk_low [OF low] unfolding opened_def im by (simp add: x_def ind_def)
      show "unat (freeblock ?s) = unat (freeblock s) + (Suc k - K n)"
        using fb True by (simp add: im unat_word_ariths)
      show "frame n s D ?s D" using low by (auto simp: frame_def im intro: exI [of _ "d_addrs (D n)"])
    qed (simp add: z e Let_def)
  next
    case False
    then have kn: "k < K n" using k by simp
    then have "ld32 x (4 * (k - 13)) \<noteq> 0" using nonzero [OF L n] b by metis
    moreover have "K(n := max (K n) (Suc k)) = K" using kn by auto
    ultimately show ?thesis using that [OF r] O kn b by simp
  qed
qed

lemma data_block_ok:
  assumes O: "opened s n D K c fi" and n: "n < fi" and fi: "fi \<le> 208" and q: "unat fbn < 140"
    and k: "K n = key (unat fbn) \<or> K n = Suc (key (unat fbn)) \<or> unat fbn = 12 \<and> K n = 12"
    and room: "unat (freeblock s) + (Suc (key (unat fbn)) - K n) \<le> 1024"
  obtains D' s' where "data_block fbn (D n) s = Inr (bno (img s') (D' n) (key (unat fbn)), D' n, s')"
    "opened s' n D' (K(n := Suc (key (unat fbn)))) c fi"
    "unat (freeblock s') = unat (freeblock s) + (Suc (key (unat fbn)) - K n)" "frame n s D s' D'"
proof (cases "fbn < of_nat NDIRECT")
  case True
  then have q12: "unat fbn < 12" by (simp add: NDIRECT_def word_less_nat_alt)
  then have key: "key (unat fbn) = unat fbn" by (simp add: key_def)
  then have kk: "unat fbn \<le> 12" "unat fbn \<le> K n" using k q12 by auto
  obtain D' s' where d: "(if d_addrs (D n) ! unat fbn = 0
      then ((D n)\<lparr>d_addrs := (d_addrs (D n))[unat fbn := freeblock s]\<rparr>, take_block s) else (D n, s)) = (D' n, s')"
    "opened s' n D' (K(n := max (K n) (Suc (unat fbn)))) c fi"
    "unat (freeblock s') = unat (freeblock s) + (Suc (unat fbn) - K n)" "frame n s D s' D'"
    using direct_ok [OF O n kk] room key by metis
  have m: "max (K n) (Suc (unat fbn)) = Suc (unat fbn)" using k key q12 by auto
  have "D' n = (if d_addrs (D n) ! unat fbn = 0 then (D n)\<lparr>d_addrs := (d_addrs (D n))[unat fbn := freeblock s]\<rparr> else D n)"
    "s' = (if d_addrs (D n) ! unat fbn = 0 then take_block s else s)"
    using d(1) by (auto split: if_splits)
  then have "data_block fbn (D n) s = Inr (bno (img s') (D' n) (key (unat fbn)), D' n, s')"
    using True q12 by (simp add: data_block_def bno_def key)
  then show ?thesis using that d(2-4) by (simp add: key m)
next
  case False
  then have q12: "12 \<le> unat fbn" by (simp add: NDIRECT_def word_less_nat_alt)
  then have key: "key (unat fbn) = Suc (unat fbn)" by (simp add: key_def)
  then have kk: "(12 :: nat) \<le> 12" "12 \<le> K n" and r1: "unat (freeblock s) + (Suc 12 - K n) \<le> 1024"
    using k q12 room by auto
  obtain D1 s1 where d: "(if d_addrs (D n) ! 12 = 0
      then ((D n)\<lparr>d_addrs := (d_addrs (D n))[12 := freeblock s]\<rparr>, take_block s) else (D n, s)) = (D1 n, s1)"
    "opened s1 n D1 (K(n := max (K n) (Suc 12))) c fi"
    "unat (freeblock s1) = unat (freeblock s) + (Suc 12 - K n)" "frame n s D s1 D1"
    using direct_ok [OF O n kk r1] by metis
  let ?K = "K(n := max (K n) (Suc 12))" and ?k = "Suc (unat fbn)"
  have k1: "12 < ?k" "?k \<le> 140" "?k \<le> ?K n" "12 < ?K n" using q12 q k key by auto
  have r2: "unat (freeblock s1) + (Suc ?k - ?K n) \<le> 1024"
    and fb: "Suc 12 - K n + (Suc ?k - ?K n) = Suc ?k - K n" using d(3) room key k q12 by auto
  let ?x = "img s1 ! unat (d_addrs (D1 n) ! 12)"
  obtain s' where e: "rsect (d_addrs (D1 n) ! 12) s1 = Inr ?x"
    "(if ld32 ?x (4 * (?k - 13)) = 0 then
        let y = st32 ?x (4 * (?k - 13)) (freeblock s1) in (ld32 y (4 * (?k - 13)), wsect (d_addrs (D1 n) ! 12) y (take_block s1))
      else (ld32 ?x (4 * (?k - 13)), s1)) = (bno (img s') (D1 n) ?k, s')"
    "opened s' n D1 (?K(n := max (?K n) (Suc ?k))) c fi" "unat (freeblock s') = unat (freeblock s1) + (Suc ?k - ?K n)"
    "frame n s1 D1 s' D1"
    using indirect_ok [OF d(2) n fi k1 r2] by metis
  have "data_block fbn (D n) s = Inr (bno (img s') (D1 n) (key (unat fbn)), D1 n, s')"
    unfolding data_block_def xint NDIRECT_def d(1)
    using False e(1,2) by (auto simp: key NDIRECT_def Let_def split: if_splits)
  moreover have "?K(n := max (?K n) (Suc ?k)) = K(n := Suc ?k)" using k key q12 by auto
  moreover have "unat (freeblock s') = unat (freeblock s) + (Suc ?k - K n)" using d(3) e(4) fb by linarith
  ultimately show ?thesis using that e(3) frame_trans [OF d(4) e(5)] by (simp add: key)
qed

section \<open>Appending\<close>

definition kcount :: "nat \<Rightarrow> nat" where
  \<comment> \<open>the blocks of a file of this length, the indirect one included\<close>
  "kcount len = (let B = (len + 511) div 512 in if B \<le> 12 then B else B + 1)"

lemma ceil_block:
  fixes len m :: nat
  assumes "len mod 512 + m \<le> 512"
  shows "(len + m + 511) div 512 = len div 512 + (if len mod 512 + m = 0 then 0 else 1)"
proof -
  have "len + m + 511 = 512 * (len div 512) + (len mod 512 + m + 511)" by simp
  then have "(len + m + 511) div 512 = len div 512 + (len mod 512 + m + 511) div 512"
    by (metis div_mult_self4 zero_neq_numeral)
  moreover have "(len mod 512 + m + 511) div 512 = (if len mod 512 + m = 0 then 0 else 1)"
    using assms by (auto intro!: div_nat_eqI)
  ultimately show ?thesis by simp
qed

lemma kcount_cases:
  "kcount len = key (len div 512) \<or> kcount len = Suc (key (len div 512)) \<or> len div 512 = 12 \<and> kcount len = 12"
proof -
  have "(len + 511) div 512 = len div 512 \<or> (len + 511) div 512 = Suc (len div 512)"
    using ceil_block [of len 0] mod_less_divisor [of 512 len] by (simp add: less_imp_le split: if_splits)
  then show ?thesis by (auto simp: kcount_def key_def Let_def)
qed

lemma kcount_step: "0 < m \<Longrightarrow> len mod 512 + m \<le> 512 \<Longrightarrow> kcount (len + m) = Suc (key (len div 512))"
proof -
  assume "0 < m" "len mod 512 + m \<le> 512"
  then have "(len + m + 511) div 512 = Suc (len div 512)" by (simp add: ceil_block)
  then show ?thesis by (auto simp: kcount_def key_def Let_def)
qed

lemma kcount_mono: "a \<le> b \<Longrightarrow> kcount a \<le> kcount b"
proof -
  assume "a \<le> b"
  then have "(a + 511) div 512 \<le> (b + 511) div 512" by (intro div_le_mono) simp
  then show ?thesis by (auto simp: kcount_def Let_def)
qed

lemma kcount_0 [simp]: "kcount 0 = 0"
  by (simp add: kcount_def)

lemma kcount_more: "512 * q < len \<Longrightarrow> key q < kcount len"
proof -
  assume "512 * q < len"
  then have "Suc q \<le> (len + 511) div 512" by (simp add: less_eq_div_iff_mult_less_eq)
  then show ?thesis by (auto simp: kcount_def key_def Let_def)
qed

lemma opened_write:
  assumes O: "opened s n D K c fi" and n: "n < fi" and fi: "fi \<le> 208"
    and off: "off = length (c n)" and K: "K n = kcount (off + length p)" and p: "p \<noteq> []" "off mod 512 + length p \<le> 512"
  defines "x \<equiv> bno (img s) (D n) (key (off div 512))"
  defines "s' \<equiv> wsect x (splice (img s ! unat x) (off mod 512) p) s"
  shows "rsect x s = Inr (img s ! unat x)" "opened s' n D K (c(n := c n @ p)) fi" "frame n s D s' D"
    "freeblock s' = freeblock s"
proof -
  have L: "layout (img s) D K fi (freeblock s)" and H: "holds (img s) D K c fi"
    and o: "\<forall>m < fi. m \<noteq> n \<longrightarrow> D m = disk (img s) m" and u: "usedblocks s = freeblock s"
    using O by (simp_all add: opened_def)
  let ?q = "off div 512"
  have q: "key ?q < K n" using K kcount_step [of "length p" off] p by simp
  have x: "29 \<le> unat x" "unat x < 1024" and len: "length (img s) = 1024" "length (img s ! unat x) = 512"
    using layoutD(5) [OF L n q] layout_sizes [OF L] by (auto simp: x_def)
  show "rsect x s = Inr (img s ! unat x)" using x len by (simp add: rsect_def)
  have off_split: "off = 512 * ?q + off mod 512" by simp
  let ?y = "splice (img s ! unat x) (off mod 512) p"
  have y: "length ?y = 512" using p len by simp
  have cells: "?y ! j = (if 512 * ?q + j < length (c n @ p) then (c n @ p) ! (512 * ?q + j) else 0)" if j: "j < 512" for j
  proof -
    have old: "img s ! unat x ! j = (if 512 * ?q + j < off then c n ! (512 * ?q + j) else 0)"
      using holdsD(1) [OF H n q j] by (simp add: x_def off)
    have "512 * ?q + j < off \<longleftrightarrow> j < off mod 512" "512 * ?q + j - off = j - off mod 512"
      "512 * ?q + j < off + length p \<longleftrightarrow> j < off mod 512 + length p"
      using off_split by linarith+
    then show ?thesis using old nth_splice [of "off mod 512" p "img s ! unat x" j] p len j
      by (auto simp: nth_append off [symmetric])
  qed
  have elsewhere: "512 * r + j < length (c n) \<and> (c n @ p) ! (512 * r + j) = c n ! (512 * r + j)"
    if r: "r \<noteq> ?q" "j < 512" "512 * r + j < length (c n @ p)" for r j
  proof -
    have "off + length p \<le> 512 * ?q + 512" using p off_split by linarith
    then have "512 * r + j < 512 * ?q + 512" using r(3) off by simp
    then have "r < ?q" using r(1) by linarith
    then have "512 * r + j < 512 * ?q" using r(2) by linarith
    then show ?thesis using off_split off by (simp add: nth_append)
  qed
  have more: "key r < K n" if "512 * r < length (c n @ p)" for r
    using kcount_more [OF that] K off by simp
  note w = write_data [OF L H n q y _ more cells elsewhere, folded x_def]
  have im: "img s' = (img s)[unat x := ?y]" "freeblock s' = freeblock s" "usedblocks s' = usedblocks s" "freeinode s' = freeinode s"
    using x len by (simp_all add: s'_def wsect_def)
  have low: "\<forall>b < 29. img s' ! b = img s ! b" using x by (simp add: im)
  show "opened s' n D K (c(n := c n @ p)) fi"
    using w o u disk_low [OF low] fi unfolding opened_def im by simp
  show "frame n s D s' D" using low by (auto simp: frame_def im intro: exI [of _ "d_addrs (D n)"])
  show "freeblock s' = freeblock s" by (rule im)
qed

lemma iappend_loop_ok:
  assumes "opened s n D K c fi" "n < fi" "fi \<le> 208" "K n = kcount (length (c n))" "length (c n) + length p \<le> 71680"
    and "unat (freeblock s) + (kcount (length (c n) + length p) - kcount (length (c n))) \<le> 1024"
  shows "\<exists>D' s'. iappend_loop p (of_nat (length (c n))) (D n) s = Inr (of_nat (length (c n) + length p), D' n, s') \<and>
    opened s' n D' (K(n := kcount (length (c n) + length p))) (c(n := c n @ p)) fi \<and>
    unat (freeblock s') = unat (freeblock s) + (kcount (length (c n) + length p) - kcount (length (c n))) \<and>
    frame n s D s' D'"
  using assms
proof (induction "length p" arbitrary: p s D K c rule: less_induct)
  case less
  let ?off = "length (c n)"
  show ?case
  proof (cases "p = []")
    case True
    have "K(n := kcount ?off) = K" "c(n := c n) = c" using less.prems(4) by auto
    then show ?thesis using True less.prems(1) by (intro exI [of _ D] exI [of _ s]) (simp add: iappend_loop.simps)
  next
    case False
    let ?w = "of_nat ?off :: u32" and ?q = "?off div 512"
    define m where "m = min (length p) (512 - ?off mod 512)"
    have m: "0 < m" "m \<le> length p" "?off mod 512 + m \<le> 512" using False by (auto simp: m_def)
    have lp: "0 < length p" using False by simp
    have off: "unat ?w = ?off" using less.prems(5) by (intro unat_of_nat_small) simp
    have fbn: "unat (?w div 512) = ?q" by (simp add: unat_div off)
    have "?off < 71680" using less.prems(5) lp by linarith
    then have q: "?q < 140" by (simp add: div_less_iff_less_mult)
    have n1: "min (length p) ((unat (?w div 512) + 1) * 512 - unat ?w) = m"
      unfolding fbn off m_def using minus_mod_eq_mult_div [of ?off 512] by (simp add: algebra_simps)
    have km: "kcount (?off + m) = Suc (key ?q)" by (rule kcount_step [OF m(1,3)])
    have mono: "kcount ?off \<le> kcount (?off + m)" "kcount (?off + m) \<le> kcount (?off + length p)"
      using m by (simp_all add: kcount_mono)
    have room: "unat (freeblock s) + (Suc (key (unat (?w div 512))) - K n) \<le> 1024"
      using less.prems(4,6) mono km fbn by simp
    have kc: "K n = key (unat (?w div 512)) \<or> K n = Suc (key (unat (?w div 512))) \<or> unat (?w div 512) = 12 \<and> K n = 12"
      unfolding fbn less.prems(4) by (rule kcount_cases)
    obtain D1 s1 where d: "data_block (?w div 512) (D n) s = Inr (bno (img s1) (D1 n) (key ?q), D1 n, s1)"
      "opened s1 n D1 (K(n := Suc (key ?q))) c fi"
      "unat (freeblock s1) = unat (freeblock s) + (Suc (key ?q) - K n)" "frame n s D s1 D1"
      using data_block_ok [OF less.prems(1-3) _ kc room] q unfolding fbn by metis
    let ?K = "K(n := Suc (key ?q))" and ?x = "bno (img s1) (D1 n) (key ?q)"
    define s2 where "s2 = wsect ?x (splice (img s1 ! unat ?x) (?off mod 512) (take m p)) s1"
    have kk: "?K n = kcount (?off + length (take m p))" "take m p \<noteq> []" "?off mod 512 + length (take m p) \<le> 512"
      using m km by auto
    note w = opened_write [OF d(2) less.prems(2,3) refl kk, folded s2_def]
    let ?c = "c(n := c n @ take m p)"
    have len: "length (?c n) = ?off + m" "length (?c n) + length (drop m p) = ?off + length p" using m by auto
    have a: "length (drop m p) < length p" "?K n = kcount (length (?c n))" "length (?c n) + length (drop m p) \<le> 71680"
      using m lp less.prems(5) km by (auto simp: len)
    have b: "unat (freeblock s2) + (kcount (length (?c n) + length (drop m p)) - kcount (length (?c n))) \<le> 1024"
      using less.prems(4,6) mono d(3) km by (simp add: len(2) w(4) m(2))
    obtain D' s' where e: "iappend_loop (drop m p) (of_nat (length (?c n))) (D1 n) s2 =
        Inr (of_nat (length (?c n) + length (drop m p)), D' n, s')"
      "opened s' n D' (?K(n := kcount (length (?c n) + length (drop m p)))) (?c(n := ?c n @ drop m p)) fi"
      "unat (freeblock s') = unat (freeblock s2) + (kcount (length (?c n) + length (drop m p)) - kcount (length (?c n)))"
      "frame n s2 D1 s' D'"
      using less.hyps [OF a(1) w(2) less.prems(2,3) a(2,3) b] by blast
    have ww: "?w + of_nat m = of_nat (length (?c n))" using m(2) by simp
    have "iappend_loop p ?w (D n) s = iappend_loop (drop m p) (of_nat (length (?c n))) (D1 n) s2"
    proof -
      have lim: "\<not> of_nat MAXFILE \<le> ?w div 512"
        using q fbn by (simp add: word_le_nat_alt MAXFILE_def NDIRECT_def NINDIRECT_def)
      have sp: "unat ?w - unat (?w div 512) * 512 = ?off mod 512" unfolding fbn off by (simp add: minus_div_mult_eq_mod)
      show ?thesis
        using False lim d(1) w(1) by (subst iappend_loop.simps) (simp only: Let_def n1 sp ww bindE_simps prod.case if_False s2_def)
    qed
    moreover have "?c(n := ?c n @ drop m p) = c(n := c n @ p)" by simp
    moreover have "?K(n := kcount (length (?c n) + length (drop m p))) = K(n := kcount (?off + length p))" unfolding len(2) by simp
    moreover have "unat (freeblock s') = unat (freeblock s) + (kcount (?off + length p) - kcount ?off)"
      using e(3) d(3) mono km less.prems(4) by (simp add: len(2) w(4) m(2))
    ultimately show ?thesis
      using e(1,2) frame_trans [OF d(4) frame_trans [OF w(3) e(4)]] unfolding len(2) by metis
  qed
qed

section \<open>The abstract image\<close>

record afile =
  a_type :: u16
  a_bytes :: "u8 list"
  a_size :: nat

abbreviation kb :: "afile \<Rightarrow> nat" where "kb f \<equiv> kcount (length (a_bytes f))"

abbreviation bytes_of :: "afile list \<Rightarrow> nat \<Rightarrow> u8 list" where "bytes_of a n \<equiv> a_bytes (a ! n)"

abbreviation keys_of :: "afile list \<Rightarrow> nat \<Rightarrow> nat" where "keys_of a n \<equiv> kb (a ! n)"

definition total_keys :: "afile list \<Rightarrow> nat" where "total_keys a = sum_list (map kb a)"

definition fits :: "afile list \<Rightarrow> bool" where
  "fits a \<longleftrightarrow> length a \<le> 208 \<and> (\<forall>f \<in> set a. length (a_bytes f) \<le> 71680) \<and> 29 + total_keys a \<le> 1024"

definition superblock_bytes :: "u8 list" where
  "superblock_bytes = st32 (st32 (st32 zeroes 0 1024) 4 995) 8 200"

definition represents :: "mk \<Rightarrow> afile list \<Rightarrow> bool" where
  "represents s a \<longleftrightarrow>
     length a \<le> 208 \<and> unat (freeinode s) = length a \<and> unat (freeblock s) = 29 + total_keys a \<and>
     usedblocks s = freeblock s \<and> img s ! 1 = superblock_bytes \<and>
     layout (img s) (disk (img s)) (keys_of a) (length a) (freeblock s) \<and>
     holds (img s) (disk (img s)) (keys_of a) (bytes_of a) (length a) \<and>
     (\<forall>n < length a. d_type (disk (img s) n) = a_type (a ! n) \<and> unat (d_size (disk (img s) n)) = a_size (a ! n) \<and>
       (n \<noteq> 0 \<longrightarrow> d_nlink (disk (img s) n) = 1))"

lemma holds_cong:
  assumes H: "holds im D K c fi"
    and o: "\<And>m k. m < fi \<Longrightarrow> k < K m \<Longrightarrow> bno im' (D' m) k = bno im (D m) k"
    and d: "\<And>m q. m < fi \<Longrightarrow> key q < K m \<Longrightarrow> im' ! unat (bno im (D m) (key q)) = im ! unat (bno im (D m) (key q))"
  shows "holds im' D' K c fi"
proof (rule holdsI, goal_cases)
  case (1 n q j)
  then show ?case using holdsD(1) [OF H 1] o [OF 1(1,2)] d [OF 1(1,2)] by simp
next
  case (2 n q)
  then show ?case by (rule holdsD(2) [OF H])
qed

text \<open>Keys and bytes matter below \<open>fi\<close> only.\<close>

lemma layout_keys:
  "layout im D K fi fb \<Longrightarrow> (\<And>m. m < fi \<Longrightarrow> K' m = K m) \<Longrightarrow> layout im D K' fi fb"
  by (simp add: layout_def)

lemma holds_keys:
  "holds im D K c fi \<Longrightarrow> (\<And>m. m < fi \<Longrightarrow> K' m = K m) \<Longrightarrow> (\<And>m. m < fi \<Longrightarrow> c' m = c m) \<Longrightarrow> holds im D K' c' fi"
  by (simp add: holds_def)

text \<open>Writing the caller's copy of an inode back.\<close>

lemma close_inode:
  assumes O: "opened s n D K c fi" and n: "n < fi" and fi: "fi \<le> 208" and ino: "unat ino = n"
    and v: "d_addrs v = d_addrs (D n)"
  obtains im' where "winode ino v s = Inr (s\<lparr>img := im'\<rparr>)" "im' ! 1 = img s ! 1"
    "layout im' (disk im') K fi (freeblock s)" "holds im' (disk im') K c fi"
    "disk im' = (disk (img s))(n := v)"
proof -
  have L: "layout (img s) D K fi (freeblock s)" and H: "holds (img s) D K c fi"
    and o: "\<forall>m < fi. m \<noteq> n \<longrightarrow> D m = disk (img s) m"
    using O by (simp_all add: opened_def)
  have len: "length (d_addrs v) = 13" using layoutD(3) [OF L n] v by simp
  have n208: "unat ino < 208" using ino n fi by simp
  obtain im' where w: "winode ino v s = Inr (s\<lparr>img := im'\<rparr>)" "disk im' = (disk (img s))(unat ino := v)"
    "length im' = 1024" "\<And>b. b < 1024 \<Longrightarrow> length (im' ! b) = 512" "\<And>b. 29 \<le> b \<Longrightarrow> im' ! b = img s ! b" "im' ! 1 = img s ! 1"
    using winode_ok [OF layout_sizes(1) [OF L] layout_sizes(2) [OF L] n208 len] by metis
  have da: "d_addrs (disk im' m) = d_addrs (D m)" if "m < fi" for m
    using that o v by (simp add: w(2) ino)
  have bno: "bno im' (disk im' m) k = bno (img s) (D m) k" if "m < fi" "k \<le> 12 \<or> 12 < K m" for m k
  proof -
    have "29 \<le> unat (d_addrs (D m) ! 12)" if "12 < K m"
      using layoutD(5) [OF L \<open>m < fi\<close> that] by (simp add: bno_def)
    then show ?thesis using that da [OF that(1)] w(5) by (auto simp: bno_def)
  qed
  have im: "image_ok im' (freeblock s)"
    using layoutD(1) [OF L n] w(3-5) unfolding image_ok_def by auto
  show ?thesis
  proof (rule that [OF w(1,6)])
    show "layout im' (disk im') K fi (freeblock s)"
      by (rule layout_cong [OF L im bno]) (use da layoutD(3) [OF L] in simp_all)
    show "holds im' (disk im') K c fi"
    proof (rule holds_cong [OF H])
      show "bno im' (disk im' m) k = bno (img s) (D m) k" if "m < fi" "k < K m" for m k
        using that bno [of m k] by (cases "k \<le> 12") auto
      show "im' ! unat (bno (img s) (D m) (key q)) = img s ! unat (bno (img s) (D m) (key q))"
        if "m < fi" "key q < K m" for m q
        using layoutD(5) [OF L that] w(5) by simp
    qed
  qed (simp add: w(2) ino)
qed

lemma total_keys_update:
  "n < length a \<Longrightarrow> kb (a ! n) \<le> kb f \<Longrightarrow> total_keys (a[n := f]) = total_keys a + (kb f - kb (a ! n))"
proof -
  assume a: "n < length a" "kb (a ! n) \<le> kb f"
  have "kb (a ! n) \<le> total_keys a" unfolding total_keys_def using a by (intro member_le_sum_list) simp_all
  then show ?thesis using a unfolding total_keys_def by (simp add: map_update sum_list_update)
qed

definition app_file :: "u8 list \<Rightarrow> afile \<Rightarrow> afile" where
  "app_file p f = f\<lparr>a_bytes := a_bytes f @ p, a_size := length (a_bytes f) + length p\<rparr>"

theorem iappend_appends:
  assumes R: "represents s a" and n: "unat ino < length a" and sz: "a_size (a ! unat ino) = length (bytes_of a (unat ino))"
    and fits: "fits (a[unat ino := app_file p (a ! unat ino)])"
  shows "\<exists>s'. iappend ino p s = Inr s' \<and> represents s' (a[unat ino := app_file p (a ! unat ino)])"
proof -
  let ?n = "unat ino" and ?D = "disk (img s)" and ?K = "keys_of a" and ?c = "bytes_of a" and ?fi = "length a"
  let ?f = "app_file p (a ! ?n)"
  let ?off = "length (?c ?n)"
  have O: "opened s ?n ?D ?K ?c ?fi" and fi: "?fi \<le> 208" and sz': "unat (d_size (?D ?n)) = ?off"
    using R n sz by (simp_all add: represents_def opened_def)
  have L: "layout (img s) ?D ?K ?fi (freeblock s)" using O by (simp add: opened_def)
  have le: "kb (a ! ?n) \<le> kb ?f" by (simp add: app_file_def kcount_mono)
  have tot: "total_keys (a[?n := ?f]) = total_keys a + (kb ?f - kb (a ! ?n))" by (rule total_keys_update [OF n le])
  have "?f \<in> set (a[?n := ?f])" using n by (simp add: set_update_memI)
  then have lim: "?off + length p \<le> 71680" using fits by (auto simp: fits_def app_file_def)
  have fb: "unat (freeblock s) = 29 + total_keys a" using R by (simp add: represents_def)
  have room: "unat (freeblock s) + (kcount (?off + length p) - kcount ?off) \<le> 1024"
    using fits tot unfolding fits_def fb by (simp add: app_file_def)
  obtain D' s1 where l: "iappend_loop p (of_nat ?off) (?D ?n) s = Inr (of_nat (?off + length p), D' ?n, s1)"
    "opened s1 ?n D' (?K(?n := kcount (?off + length p))) (?c(?n := ?c ?n @ p)) ?fi"
    "unat (freeblock s1) = unat (freeblock s) + (kcount (?off + length p) - kcount ?off)" "frame ?n s ?D s1 D'"
    using iappend_loop_ok [OF O n fi refl lim room] by blast
  have off: "of_nat ?off = d_size (?D ?n)"
    using sz' lim by (simp add: word_unat_eq_iff unat_of_nat_small)
  let ?v = "(D' ?n)\<lparr>d_size := of_nat (?off + length p)\<rparr>"
  have va: "d_addrs ?v = d_addrs (D' ?n)" by simp
  obtain im' where w: "winode ino ?v s1 = Inr (s1\<lparr>img := im'\<rparr>)" "im' ! 1 = img s1 ! 1"
    "layout im' (disk im') (?K(?n := kcount (?off + length p))) ?fi (freeblock s1)"
    "holds im' (disk im') (?K(?n := kcount (?off + length p))) (?c(?n := ?c ?n @ p)) ?fi"
    "disk im' = (disk (img s1))(?n := ?v)"
    using close_inode [OF l(2) n fi refl va] by metis
  let ?s = "s1\<lparr>img := im'\<rparr>" and ?a = "a[?n := ?f]"
  have run: "iappend ino p s = Inr ?s"
    using rinode_ok [of s ino] layout_sizes(1) [OF L] n fi l(1) w(1) by (simp add: iappend_def off)
  have kk: "\<And>m. m < ?fi \<Longrightarrow> keys_of ?a m = (?K(?n := kcount (?off + length p))) m"
    and cc: "\<And>m. m < ?fi \<Longrightarrow> bytes_of ?a m = (?c(?n := ?c ?n @ p)) m"
    by (simp_all add: nth_list_update app_file_def)
  have L': "layout im' (disk im') (keys_of ?a) ?fi (freeblock s1)"
    by (rule layout_keys [OF w(3) kk])
  have H': "holds im' (disk im') (keys_of ?a) (bytes_of ?a) ?fi"
    by (rule holds_keys [OF w(4) kk cc])
  have "represents ?s ?a"
    unfolding represents_def
  proof (intro conjI)
    show "\<forall>m < length ?a. d_type (disk (img ?s) m) = a_type (?a ! m) \<and> unat (d_size (disk (img ?s) m)) = a_size (?a ! m) \<and>
        (m \<noteq> 0 \<longrightarrow> d_nlink (disk (img ?s) m) = 1)"
    proof (intro allI impI)
      fix m assume m: "m < length ?a"
      have low: "\<forall>b < 29. img s1 ! b = img s ! b" and Dn: "\<exists>as. D' ?n = (?D ?n)\<lparr>d_addrs := as\<rparr>"
        using l(4) by (auto simp: frame_def)
      have same: "disk (img s1) m = ?D m" using disk_low [OF low] m fi by simp
      have old: "d_type (?D m) = a_type (a ! m)" "unat (d_size (?D m)) = a_size (a ! m)" "m \<noteq> 0 \<longrightarrow> d_nlink (?D m) = 1"
        using R m by (simp_all add: represents_def)
      show "d_type (disk (img ?s) m) = a_type (?a ! m) \<and> unat (d_size (disk (img ?s) m)) = a_size (?a ! m) \<and>
        (m \<noteq> 0 \<longrightarrow> d_nlink (disk (img ?s) m) = 1)"
      proof (cases "m = ?n")
        case True
        have u: "unat (of_nat (?off + length p) :: u32) = ?off + length p"
          using lim by (intro unat_of_nat_small) simp
        show ?thesis using old Dn n unfolding True by (auto simp: w(5) app_file_def u simp del: of_nat_add)
      next
        case False
        then show ?thesis using old same by (simp add: w(5))
      qed
    qed
    show "unat (freeblock ?s) = 29 + total_keys ?a" using l(3) fb tot by (simp add: app_file_def)
    show "img ?s ! 1 = superblock_bytes" using w(2) l(4) R by (simp add: frame_def represents_def)
  qed (use R l(2,4) L' H' in \<open>simp_all add: represents_def opened_def frame_def\<close>)
  then show ?thesis using run by blast
qed

end
