(* ===== verification/Mkfs_Tree.thy ===== *)
theory Mkfs_Tree
  imports Mkfs_Spec
begin

text \<open>
  The image that \<open>mkfs\<close> builds from a directory tree of the host: the inodes are the nodes of the tree in
  preorder. Then what the kernel finds on such an image.
\<close>

section \<open>What the image shall hold\<close>

definition new_file :: "u16 \<Rightarrow> afile" where
  "new_file t = \<lparr>a_type = t, a_bytes = [], a_size = 0\<rparr>"

definition dots :: "nat \<Rightarrow> nat \<Rightarrow> u8 list" where
  "dots n parent = dirent (of_nat n) DOT @ dirent (of_nat parent) DOTDOT"

definition sized :: "u16 \<Rightarrow> u8 list \<Rightarrow> afile" where
  "sized t bs = \<lparr>a_type = t, a_bytes = bs, a_size = length bs\<rparr>"

text \<open>The inodes of the subtree of a node with number \<open>n\<close>; of the entries whose first has number \<open>m\<close>; and
  the entries' bytes in the directory.\<close>

function (sequential) flat :: "hnode \<Rightarrow> nat \<Rightarrow> nat \<Rightarrow> afile list"
and flat_list :: "(u8 list \<times> hnode) list \<Rightarrow> nat \<Rightarrow> nat \<Rightarrow> afile list"
and entry_bytes :: "(u8 list \<times> hnode) list \<Rightarrow> nat \<Rightarrow> nat \<Rightarrow> u8 list" where
  "flat Unopenable n parent = []"
| "flat (File chunks) n parent = [sized T_FILE (concat chunks)]"
| "flat (Dir None) n parent = [sized T_DIR (dots n parent)]"
| "flat (Dir (Some es)) n parent =
     (let bs = dots n parent @ entry_bytes es (Suc n) n in
      \<lparr>a_type = T_DIR, a_bytes = bs, a_size = (length bs div 512 + 1) * 512\<rparr> # flat_list es (Suc n) n)"
| "flat_list [] m parent = []"
| "flat_list ((name, e) # es) m parent =
     (if name = DOT \<or> name = DOTDOT then flat_list es m parent
      else let fs = flat e m parent in fs @ flat_list es (m + length fs) parent)"
| "entry_bytes [] m parent = []"
| "entry_bytes ((name, e) # es) m parent =
     (if name = DOT \<or> name = DOTDOT then entry_bytes es m parent
      else dirent (of_nat m) name @ entry_bytes es (m + length (flat e m parent)) parent)"
  by pat_completeness auto

termination
  by (relation "measure (\<lambda>x. case x of Inl (e, _) \<Rightarrow> 2 * size e
      | Inr (Inl (es, _)) \<Rightarrow> 2 * entries_size es + 1 | Inr (Inr (es, _)) \<Rightarrow> 2 * entries_size es + 1)") auto

function (sequential) openable :: "hnode \<Rightarrow> bool" where
  "openable Unopenable = False"
| "openable (File chunks) = True"
| "openable (Dir None) = True"
| "openable (Dir (Some es)) = (\<forall>(name, e) \<in> set es. name = DOT \<or> name = DOTDOT \<or> openable e)"
  by pat_completeness auto

termination
proof (relation "measure size", goal_cases)
  case (2 es x name e)
  then show ?case by (induction es) auto
qed simp

definition image_of :: "hdir \<Rightarrow> afile list" where
  "image_of root = new_file 0 # flat (Dir root) 1 1"

section \<open>Steps of the builder on the abstract image\<close>

text \<open>An earlier image has no more inodes and no longer files.\<close>

definition earlier :: "afile list \<Rightarrow> afile list \<Rightarrow> bool" where
  "earlier a b \<longleftrightarrow> length a \<le> length b \<and>
     (\<forall>n < length a. length (a_bytes (a ! n)) \<le> length (a_bytes (b ! n)))"

lemma earlier_refl [simp]: "earlier a a" by (simp add: earlier_def)

lemma earlier_trans: "earlier a b \<Longrightarrow> earlier b c \<Longrightarrow> earlier a c"
  unfolding earlier_def using order_trans order_less_le_trans by meson

lemma earlier_append [simp]: "earlier a (a @ b)"
  by (simp add: earlier_def nth_append)

lemma earlier_app_file: "earlier a (a[n := app_file p (a ! n)])"
proof -
  have "length (bytes_of a m) \<le> length (bytes_of (a[n := app_file p (a ! n)]) m)" if "m < length a" for m
    using that by (cases "m = n") (simp_all add: app_file_def)
  then show ?thesis by (simp add: earlier_def)
qed

lemma total_keys_mono: "earlier a b \<Longrightarrow> total_keys a \<le> total_keys b"
proof -
  assume e: "earlier a b"
  have "total_keys a = (\<Sum>i<length a. kb (a ! i))"
    by (simp add: total_keys_def sum_list_sum_nth atLeast0LessThan)
  also have "\<dots> \<le> (\<Sum>i<length a. kb (b ! i))"
    using e by (intro sum_mono) (simp add: earlier_def kcount_mono)
  also have "\<dots> \<le> (\<Sum>i<length b. kb (b ! i))"
    using e by (intro sum_mono2) (auto simp: earlier_def)
  also have "\<dots> = total_keys b" by (simp add: total_keys_def sum_list_sum_nth atLeast0LessThan)
  finally show ?thesis .
qed

lemma fits_earlier: "fits b \<Longrightarrow> earlier a b \<Longrightarrow> fits a"
proof -
  assume f: "fits b" and e: "earlier a b"
  have "length (a_bytes x) \<le> 71680" if "x \<in> set a" for x
  proof -
    obtain n where n: "n < length a" "x = a ! n" using \<open>x \<in> set a\<close> by (auto simp: in_set_conv_nth)
    then have "length (a_bytes x) \<le> length (a_bytes (b ! n))" "n < length b" using e by (auto simp: earlier_def)
    moreover from this have "b ! n \<in> set b" by simp
    ultimately show ?thesis using f unfolding fits_def by (meson order_trans)
  qed
  then show ?thesis using f e total_keys_mono [OF e] by (auto simp: fits_def earlier_def)
qed

lemma represents_facts:
  assumes "represents s a"
  shows "length a \<le> 208" "unat (freeinode s) = length a" "unat (freeblock s) = 29 + total_keys a"
    and "opened s n (disk (img s)) (keys_of a) (bytes_of a) (length a)"
    and "layout (img s) (disk (img s)) (keys_of a) (length a) (freeblock s)"
    and "holds (img s) (disk (img s)) (keys_of a) (bytes_of a) (length a)"
    and "usedblocks s = freeblock s" "img s ! 1 = superblock_bytes" "length (img s) = 1024"
    and "m < length a \<Longrightarrow> d_type (disk (img s) m) = a_type (a ! m)"
    and "m < length a \<Longrightarrow> unat (d_size (disk (img s) m)) = a_size (a ! m)"
    and "m < length a \<Longrightarrow> m \<noteq> 0 \<Longrightarrow> d_nlink (disk (img s) m) = 1"
  using assms layout_sizes(1) unfolding represents_def opened_def by blast+

text \<open>A new inode.\<close>

lemma ialloc_ok:
  assumes R: "represents s a" and a: "a \<noteq> []" and fits: "fits (a @ [new_file t])"
  shows "\<exists>s'. ialloc t s = Inr (freeinode s, s') \<and> represents s' (a @ [new_file t])"
proof -
  let ?n = "length a" and ?b = "a @ [new_file t]"
  let ?v = "\<lparr>d_type = t, d_major = 0, d_minor = 0, d_nlink = 1, d_size = 0, d_addrs = replicate 13 0\<rparr>"
  let ?s1 = "s\<lparr>freeinode := freeinode s + 1\<rparr>"
  note f = represents_facts [OF R]
  have n: "unat (freeinode s) = ?n" "?n < 208" using f(2) fits by (simp_all add: fits_def)
  then have n208: "unat (freeinode s) < 208" by simp
  have len: "length (img ?s1) = 1024" "\<And>b. b < 1024 \<Longrightarrow> length (img ?s1 ! b) = 512" "length (d_addrs ?v) = 13"
    using layout_sizes [OF f(5)] by simp_all
  obtain im' where w: "winode (freeinode s) ?v ?s1 = Inr (?s1\<lparr>img := im'\<rparr>)" "disk im' = (disk (img s))(?n := ?v)"
    "length im' = 1024" "\<And>b. b < 1024 \<Longrightarrow> length (im' ! b) = 512" "\<And>b. 29 \<le> b \<Longrightarrow> im' ! b = img s ! b" "im' ! 1 = img s ! 1"
    using winode_ok [OF len(1,2) n208 len(3)] n by auto
  let ?s = "?s1\<lparr>img := im'\<rparr>"
  have run: "ialloc t s = Inr (freeinode s, ?s)"
    using w(1) by (simp add: ialloc_def Let_def NDIRECT_def eval_nat_numeral)
  have kk: "keys_of ?b m = keys_of a m" "bytes_of ?b m = bytes_of a m" "disk im' m = disk (img s) m" if "m < ?n" for m
    using that by (simp_all add: nth_append w(2))
  have kn: "keys_of ?b ?n = 0" "bytes_of ?b ?n = []" "disk im' ?n = ?v" by (simp_all add: new_file_def w(2))
  have bno: "bno im' (disk im' m) k = bno (img s) (disk (img s) m) k"
    if "m < ?n" "k \<le> 12 \<or> 12 < keys_of a m" for m k
  proof -
    have "29 \<le> unat (d_addrs (disk (img s) m) ! 12)" if "12 < keys_of a m"
      using layoutD(5) [OF f(5) \<open>m < ?n\<close> that] by (simp add: bno_def)
    then show ?thesis using that kk(3) [OF that(1)] w(5) by (auto simp: bno_def)
  qed
  have bno': "bno im' (disk im' m) k = bno (img s) (disk (img s) m) k" if "m < ?n" "k < keys_of a m" for m k
    using bno [of m k] that by (cases "k \<le> 12") auto
  have im: "image_ok im' (freeblock s)"
    using f(5) w(3-5) unfolding layout_def image_ok_def by auto
  have old: "layout im' (disk im') (keys_of a) ?n (freeblock s)"
    by (rule layout_cong [OF f(5) im bno]) (use kk(3) layoutD(3) [OF f(5)] in simp_all)
  have L: "layout im' (disk im') (keys_of ?b) (length ?b) (freeblock s)"
  proof (rule layoutI [OF im])
    show "inode_ok im' (freeblock s) (disk im' m) (keys_of ?b m)" if "m < length ?b" for m
    proof (cases "m = ?n")
      case True
      then show ?thesis using kn by (simp add: inode_ok_def bno_def)
    next
      case False
      then show ?thesis using layoutD(2) [OF old, of m] kk that by simp
    qed
    show "p = m \<and> k = l" if "p < length ?b" "m < length ?b" "k < keys_of ?b p" "l < keys_of ?b m"
      "bno im' (disk im' p) k = bno im' (disk im' m) l" for p m k l
    proof -
      have "p < ?n" "m < ?n" using that(1-4) kn by (metis less_antisym length_append_singleton not_less_zero)+
      then show ?thesis using layoutD(7) [OF old, of p m k l] that(3-5) kk by simp
    qed
  qed
  have "holds im' (disk im') (keys_of a) (bytes_of a) ?n"
    by (rule holds_cong [OF f(6) bno']) (use w(5) layoutD(5) [OF f(5)] in simp_all)
  then have H: "holds im' (disk im') (keys_of ?b) (bytes_of ?b) (length ?b)"
    unfolding holds_def using kk kn by (simp add: less_Suc_eq all_conj_distrib)
  have "represents ?s ?b"
    unfolding represents_def
  proof (intro conjI)
    show "unat (freeinode ?s) = length ?b" using n by (simp add: unat_word_ariths)
    show "unat (freeblock ?s) = 29 + total_keys ?b" using f(3) by (simp add: total_keys_def new_file_def)
    show "\<forall>m < length ?b. d_type (disk (img ?s) m) = a_type (?b ! m) \<and> unat (d_size (disk (img ?s) m)) = a_size (?b ! m) \<and>
       (m \<noteq> 0 \<longrightarrow> d_nlink (disk (img ?s) m) = 1)"
      using f(10-12) by (simp add: less_Suc_eq all_conj_distrib w(2) nth_append new_file_def)
  qed (use n f w(6) L H in simp_all)
  then show ?thesis using run by blast
qed

lemma fix_size_ok:
  assumes R: "represents s a" and n: "unat ino < length a" and small: "a_size (a ! unat ino) \<le> 71680"
  shows "\<exists>s'. fix_size ino s = Inr s' \<and>
    represents s' (a[unat ino := (a ! unat ino)\<lparr>a_size := (a_size (a ! unat ino) div 512 + 1) * 512\<rparr>])"
proof -
  let ?n = "unat ino" and ?D = "disk (img s)"
  let ?f = "(a ! ?n)\<lparr>a_size := (a_size (a ! ?n) div 512 + 1) * 512\<rparr>"
  let ?a = "a[?n := ?f]"
  note f = represents_facts [OF R]
  let ?v = "(?D ?n)\<lparr>d_size := (d_size (?D ?n) div of_nat BSIZE + 1) * of_nat BSIZE\<rparr>"
  have va: "d_addrs ?v = d_addrs (?D ?n)" by simp
  obtain im' where w: "winode ino ?v s = Inr (s\<lparr>img := im'\<rparr>)" "im' ! 1 = img s ! 1"
    "layout im' (disk im') (keys_of a) (length a) (freeblock s)"
    "holds im' (disk im') (keys_of a) (bytes_of a) (length a)"
    "disk im' = (disk (img s))(?n := ?v)"
    using close_inode [OF f(4) n f(1) refl va] by metis
  have run: "fix_size ino s = Inr (s\<lparr>img := im'\<rparr>)"
    using rinode_ok [of s ino] f(1,9) n w(1) by (simp add: fix_size_def)
  have "a_size (a ! ?n) div 512 \<le> 140" using div_le_mono [OF small, of 512] by simp
  then have sz: "unat ((d_size (?D ?n) div of_nat BSIZE + 1) * of_nat BSIZE) = (a_size (a ! ?n) div 512 + 1) * 512"
    using f(11) [OF n] by (simp add: BSIZE_def unat_word_ariths unat_div)
  have kk: "keys_of ?a m = keys_of a m" "bytes_of ?a m = bytes_of a m" if "m < length a" for m
    using that by (cases "m = ?n"; simp)+
  have tk: "total_keys ?a = total_keys a" using total_keys_update [OF n, of ?f] by simp
  have "represents (s\<lparr>img := im'\<rparr>) ?a"
    unfolding represents_def
  proof (intro conjI)
    show "layout (img (s\<lparr>img := im'\<rparr>)) (disk (img (s\<lparr>img := im'\<rparr>))) (keys_of ?a) (length ?a) (freeblock (s\<lparr>img := im'\<rparr>))"
      using layout_keys [OF w(3) kk(1)] by simp
    show "holds (img (s\<lparr>img := im'\<rparr>)) (disk (img (s\<lparr>img := im'\<rparr>))) (keys_of ?a) (bytes_of ?a) (length ?a)"
      using holds_keys [OF w(4) kk] by simp
    show "\<forall>m < length ?a. d_type (disk (img (s\<lparr>img := im'\<rparr>)) m) = a_type (?a ! m) \<and>
       unat (d_size (disk (img (s\<lparr>img := im'\<rparr>)) m)) = a_size (?a ! m) \<and>
       (m \<noteq> 0 \<longrightarrow> d_nlink (disk (img (s\<lparr>img := im'\<rparr>)) m) = 1)"
    proof (intro allI impI)
      fix m assume "m < length ?a"
      then show "d_type (disk (img (s\<lparr>img := im'\<rparr>)) m) = a_type (?a ! m) \<and>
       unat (d_size (disk (img (s\<lparr>img := im'\<rparr>)) m)) = a_size (?a ! m) \<and>
       (m \<noteq> 0 \<longrightarrow> d_nlink (disk (img (s\<lparr>img := im'\<rparr>)) m) = 1)"
        using f(10-12) [of m] sz by (cases "m = ?n") (simp_all add: w(5))
    qed
  qed (use f w(2) tk in simp_all)
  then show ?thesis using run by blast
qed

section \<open>The tree is built in preorder\<close>

lemma app_file_twice [simp]: "app_file q (app_file p f) = app_file (p @ q) f"
  by (simp add: app_file_def)

lemma app_file_new: "app_file p (new_file t) = sized t p" "app_file q (sized t p) = sized t (p @ q)"
  by (simp_all add: app_file_def new_file_def sized_def)

lemma app_file_size [simp]: "a_size (app_file p f) = length (a_bytes (app_file p f))"
  by (simp add: app_file_def)

lemma app_file_nil: "a_size f = length (a_bytes f) \<Longrightarrow> app_file [] f = f"
  by (simp add: app_file_def)

lemma append_all_ok:
  "represents s a \<Longrightarrow> unat ino < length a \<Longrightarrow> a_size (a ! unat ino) = length (bytes_of a (unat ino)) \<Longrightarrow>
    fits (a[unat ino := app_file (concat bs) (a ! unat ino)]) \<Longrightarrow>
    \<exists>s'. append_all ino bs s = Inr s' \<and> represents s' (a[unat ino := app_file (concat bs) (a ! unat ino)])"
proof (induction bs arbitrary: s a)
  case Nil
  then show ?case by (simp add: app_file_nil)
next
  case (Cons b bs)
  let ?n = "unat ino"
  let ?a = "a[?n := app_file b (a ! ?n)]"
  have e: "?a[?n := app_file (concat bs) (?a ! ?n)] = a[?n := app_file (concat (b # bs)) (a ! ?n)]"
    using Cons.prems(2) by simp
  have "fits ?a"
    by (rule fits_earlier [OF Cons.prems(4)]) (use earlier_app_file [of ?a ?n "concat bs"] in \<open>simp only: e\<close>)
  then obtain s1 where s1: "iappend ino b s = Inr s1" "represents s1 ?a"
    using iappend_appends [OF Cons.prems(1-3)] by blast
  show ?case using Cons.IH [OF s1(2)] Cons.prems s1(1) unfolding e by simp
qed

lemma flat_nonempty: "openable e \<Longrightarrow> flat e n p \<noteq> []"
  by (cases e rule: openable.cases) (simp_all add: Let_def)

lemma earlier_grow: "earlier a (a[n := app_file p (a ! n)] @ rest)"
  by (rule earlier_trans [OF earlier_app_file earlier_append])

lemma earlier_mid: "length (a_bytes x) \<le> length (a_bytes y) \<Longrightarrow> earlier (a @ x # b) (a @ y # b)"
  by (auto simp: earlier_def nth_append nth_Cons split: nat.split)

lemma new_file_size: "a_size (new_file t) = length (a_bytes (new_file t))" "a_size (sized t p) = length (a_bytes (sized t p))"
  by (simp_all add: new_file_def sized_def)

text \<open>One entry, after its inodes are there.\<close>

lemma entry_ok:
  assumes R: "represents s (a @ fs)" and n: "unat cur < length a" and sz: "a_size (a ! unat cur) = length (bytes_of a (unat cur))"
    and F: "fits (a[unat cur := app_file (dirent child name @ q) (a ! unat cur)] @ fs @ rest)"
  shows "\<exists>s'. iappend cur (dirent child name) s = Inr s' \<and>
    represents s' (a[unat cur := app_file (dirent child name) (a ! unat cur)] @ fs)"
proof -
  let ?n = "unat cur"
  let ?b = "a[?n := app_file (dirent child name) (a ! ?n)] @ fs"
  have e: "(a @ fs)[?n := app_file (dirent child name) ((a @ fs) ! ?n)] = ?b"
    using n by (simp add: list_update_append nth_append)
  have "?b[?n := app_file q (?b ! ?n)] @ rest = a[?n := app_file (dirent child name @ q) (a ! ?n)] @ fs @ rest"
    using n by (simp add: list_update_append nth_append)
  then have "earlier ?b (a[?n := app_file (dirent child name @ q) (a ! ?n)] @ fs @ rest)"
    using earlier_grow [of ?b ?n q rest] by (simp only:)
  then have "fits ?b" by (rule fits_earlier [OF F])
  then show ?thesis using iappend_appends [OF R, of cur "dirent child name"] n sz unfolding e by (simp add: nth_append)
qed

lemma add_dir_ok:
  "represents s (a0 @ [new_file T_DIR]) \<Longrightarrow> unat cur = length a0 \<Longrightarrow> a0 \<noteq> [] \<Longrightarrow> openable (Dir d) \<Longrightarrow>
     fits (a0 @ flat (Dir d) (length a0) (unat parent)) \<Longrightarrow>
     \<exists>s'. add_dir d cur parent s = Inr (0, s') \<and> represents s' (a0 @ flat (Dir d) (length a0) (unat parent))"
  "represents s a \<Longrightarrow> unat cur < length a \<Longrightarrow> a_size (a ! unat cur) = length (bytes_of a (unat cur)) \<Longrightarrow>
     openable (Dir (Some es)) \<Longrightarrow>
     fits (a[unat cur := app_file (entry_bytes es (length a) (unat cur)) (a ! unat cur)] @ flat_list es (length a) (unat cur)) \<Longrightarrow>
     \<exists>s'. add_entries es cur s = Inr (0, s') \<and>
       represents s' (a[unat cur := app_file (entry_bytes es (length a) (unat cur)) (a ! unat cur)] @ flat_list es (length a) (unat cur))"
proof (induction d cur parent s and es cur s arbitrary: a0 and a rule: add_dir_add_entries.induct)
  case (1 d cur parent s)
  let ?n = "unat cur"
  have cur: "of_nat ?n = cur" "of_nat (unat parent) = parent" by simp_all
  let ?D = "sized T_DIR (dots ?n (unat parent))"
  have dots: "sized T_DIR (dirent cur DOT) = app_file (dirent cur DOT) (new_file T_DIR)"
    "?D = app_file (dirent parent DOTDOT) (sized T_DIR (dirent cur DOT))"
    by (simp_all add: app_file_new dots_def)
  let ?F = "a0 @ flat (Dir d) (length a0) (unat parent)"
  have n: "length a0 = ?n" using "1.prems"(2) by simp
  have D_F: "earlier (a0 @ [?D]) ?F"
  proof (cases d)
    case None
    then show ?thesis by (simp add: n)
  next
    case (Some es)
    then show ?thesis by (auto simp: earlier_def nth_append n sized_def Let_def nth_Cons split: nat.split)
  qed
  have f2: "fits (a0 @ [?D])" by (rule fits_earlier [OF "1.prems"(5) D_F])
  have "earlier (a0 @ [sized T_DIR (dirent cur DOT)]) (a0 @ [?D])"
    by (simp add: earlier_def nth_append sized_def dots_def)
  from fits_earlier [OF f2 this] have f1: "fits (a0 @ [sized T_DIR (dirent cur DOT)])" .
  have at: "(a0 @ [x])[?n := y] = a0 @ [y]" "(a0 @ [x]) ! ?n = x" "?n < length (a0 @ [x])" for x y
    by (simp_all add: n [symmetric])
  obtain s1 where s1: "iappend cur (dirent cur DOT) s = Inr s1" "represents s1 (a0 @ [sized T_DIR (dirent cur DOT)])"
    using iappend_appends [OF "1.prems"(1) at(3), unfolded at, OF new_file_size(1), of "dirent cur DOT"] f1
    unfolding dots(1) by blast
  obtain s2 where s2: "iappend cur (dirent parent DOTDOT) s1 = Inr s2" "represents s2 (a0 @ [?D])"
    using iappend_appends [OF s1(2) at(3), unfolded at, OF new_file_size(2), of "dirent parent DOTDOT"] f2
    unfolding dots(2) by blast
  show ?case
  proof (cases d)
    case None
    then show ?thesis using s1(1) s2 by (simp add: add_dir.simps n)
  next
    case (Some es)
    let ?bs = "dots ?n (unat parent) @ entry_bytes es (Suc ?n) ?n"
    have app: "(a0 @ [?D])[?n := app_file (entry_bytes es (Suc ?n) ?n) ((a0 @ [?D]) ! ?n)] = a0 @ [sized T_DIR ?bs]"
      unfolding at app_file_new ..
    have lenL: "length (a0 @ [?D]) = Suc ?n" by (simp add: n)
    have sz: "a_size ((a0 @ [?D]) ! ?n) = length (bytes_of (a0 @ [?D]) ?n)" unfolding at by (rule new_file_size(2))
    have opn: "openable (Dir (Some es))" using "1.prems"(4) by (simp add: Some)
    have F: "?F = (a0 @ [(sized T_DIR ?bs)\<lparr>a_size := (length ?bs div 512 + 1) * 512\<rparr>]) @ flat_list es (Suc ?n) ?n"
      by (simp add: Some n Let_def sized_def)
    have e: "earlier ((a0 @ [sized T_DIR ?bs]) @ flat_list es (Suc ?n) ?n) ?F"
      unfolding F by (simp add: earlier_mid sized_def)
    have f3: "fits ((a0 @ [sized T_DIR ?bs]) @ flat_list es (Suc ?n) ?n)" by (rule fits_earlier [OF "1.prems"(5) e])
    obtain s3 where s3: "add_entries es cur s2 = Inr (0, s3)"
      "represents s3 ((a0 @ [sized T_DIR ?bs]) @ flat_list es (Suc ?n) ?n)"
      using "1.IH" [OF s1(1) s2(1) Some s2(2) at(3) sz opn] f3 unfolding lenL app by blast
    let ?X = "(a0 @ [sized T_DIR ?bs]) @ flat_list es (Suc ?n) ?n"
    have x: "?n < length ?X" "?X ! ?n = sized T_DIR ?bs" by (simp_all add: n [symmetric])
    have "sized T_DIR ?bs \<in> set ?X" by simp
    then have "length ?bs \<le> 71680" using f3 by (auto simp: fits_def sized_def)
    then have "a_size (?X ! ?n) \<le> 71680" unfolding x(2) by (simp add: sized_def)
    moreover have "?X[?n := (sized T_DIR ?bs)\<lparr>a_size := (a_size (sized T_DIR ?bs) div 512 + 1) * 512\<rparr>] = ?F"
      unfolding F by (simp add: list_update_append n [symmetric] sized_def)
    ultimately obtain s4 where "fix_size cur s3 = Inr s4" "represents s4 ?F"
      using fix_size_ok [OF s3(2) x(1)] unfolding x(2) by auto
    then show ?thesis using s1(1) s2(1) s3(1) Some by (simp add: add_dir.simps)
  qed
next
  case (2 cur s)
  then show ?case by (simp add: add_entries.simps app_file_nil)
next
  case (3 name e es cur s)
  let ?n = "unat cur" and ?m = "length a"
  show ?case
  proof (cases "name = DOT \<or> name = DOTDOT")
    case True
    then show ?thesis using 3 by (simp add: add_entries.simps)
  next
    case False
    have opn: "openable e" "openable (Dir (Some es))" using "3.prems"(4) False by auto
    define fs where "fs = flat e ?m ?n"
    have fs: "fs \<noteq> []" using flat_nonempty [OF opn(1)] by (simp add: fs_def)
    let ?E = "dirent (of_nat ?m) name"
    let ?a2 = "a[?n := app_file ?E (a ! ?n)] @ fs"
    have l2: "length ?a2 = ?m + length fs" by simp
    have n2: "?n < length ?a2" "?a2 ! ?n = app_file ?E (a ! ?n)" using "3.prems"(2) by (simp_all add: nth_append)
    define F where "F = a[?n := app_file (entry_bytes ((name, e) # es) ?m ?n) (a ! ?n)] @ flat_list ((name, e) # es) ?m ?n"
    have F: "F = a[?n := app_file (?E @ entry_bytes es (length ?a2) ?n) (a ! ?n)] @ fs @ flat_list es (length ?a2) ?n"
      using False by (simp add: F_def fs_def Let_def)
    have F2: "?a2[?n := app_file (entry_bytes es (length ?a2) ?n) (?a2 ! ?n)] @ flat_list es (length ?a2) ?n = F"
      unfolding F n2 using "3.prems"(2) by (simp add: list_update_append)
    have fit: "fits F" using "3.prems"(5) by (simp add: F_def)
    have e2: "earlier ?a2 F" unfolding F2 [symmetric] by (rule earlier_grow)
    have e1: "earlier (a @ fs) ?a2"
      using earlier_app_file [of a ?n ?E] by (auto simp: earlier_def nth_append)
    have fit1: "fits (a @ fs)" by (rule fits_earlier [OF fit earlier_trans [OF e1 e2]])
    have rest: "\<exists>s'. add_entries ((name, e) # es) cur s = Inr (0, s') \<and> represents s' F"
      if s2: "add_entries ((name, e) # es) cur s = bindE (iappend cur ?E s2) (add_entries es cur)"
        and R2: "represents s2 (a @ fs)"
        and IH: "\<And>s3. iappend cur ?E s2 = Inr s3 \<Longrightarrow> represents s3 ?a2 \<Longrightarrow> 
            \<exists>s'. add_entries es cur s3 = Inr (0, s') \<and> represents s' F" for s2
    proof -
      obtain s3 where s3: "iappend cur ?E s2 = Inr s3" "represents s3 ?a2"
        using entry_ok [OF R2 "3.prems"(2,3) fit [unfolded F]] by blast
      then show ?thesis using IH [OF s3] s2 by simp
    qed
    have a: "a \<noteq> []" using "3.prems"(2) by auto
    note fi1 = represents_facts(2) [OF "3.prems"(1)]
    have "of_nat ?m = freeinode s" unfolding fi1 [symmetric] by simp
    note fi = fi1 this
    have new: "fits (a @ [new_file t])" for t
    proof (rule fits_earlier [OF fit1])
      show "earlier (a @ [new_file t]) (a @ fs)"
        using fs by (auto simp: earlier_def nth_append new_file_def less_Suc_eq Suc_le_eq)
    qed
    have sz2: "a_size (?a2 ! ?n) = length (bytes_of ?a2 ?n)" unfolding n2 by simp
    have "\<exists>s'. add_entries ((name, e) # es) cur s = Inr (0, s') \<and> represents s' F"
    proof (cases e)
      case Unopenable
      then show ?thesis using opn by simp
    next
      case (File chunks)
      obtain s1 where s1: "ialloc T_FILE s = Inr (freeinode s, s1)" "represents s1 (a @ [new_file T_FILE])"
        using ialloc_ok [OF "3.prems"(1) a new] by blast
      have up: "(a @ [new_file T_FILE])[unat (freeinode s) := app_file (concat chunks) ((a @ [new_file T_FILE]) ! unat (freeinode s))] = a @ fs"
        by (simp add: fi(1) app_file_new fs_def File)
      obtain s2 where s2: "append_all (freeinode s) chunks s1 = Inr s2" "represents s2 (a @ fs)"
        using append_all_ok [OF s1(2), of "freeinode s" chunks] fit1 unfolding up by (auto simp: fi(1) new_file_def)
      show ?thesis
      proof (rule rest [OF _ s2(2)])
        show "add_entries ((name, e) # es) cur s = bindE (iappend cur ?E s2) (add_entries es cur)"
          using False File s1(1) s2(1) by (simp add: add_entries.simps fi(2))
        fix s3 assume s3: "iappend cur ?E s2 = Inr s3" "represents s3 ?a2"
        show "\<exists>s'. add_entries es cur s3 = Inr (0, s') \<and> represents s' F"
          using "3.IH"(2) [OF False File s1(1) refl s2(1) s3(1) [unfolded fi(2)] s3(2) n2(1) sz2 opn(2), unfolded F2] fit by blast
      qed
    next
      case (Dir d)
      have zero: "\<not> (0 :: int) \<noteq> 0" by simp
      obtain s1 where s1: "ialloc T_DIR s = Inr (freeinode s, s1)" "represents s1 (a @ [new_file T_DIR])"
        using ialloc_ok [OF "3.prems"(1) a new] by blast
      have up: "a @ flat (Dir d) (length a) (unat cur) = a @ fs" by (simp add: fs_def Dir)
      obtain s2 where s2: "add_dir d (freeinode s) cur s1 = Inr (0, s2)" "represents s2 (a @ fs)"
        using "3.IH"(3) [OF False Dir s1(1) refl s1(2) fi(1) a] opn(1) fit1 Dir unfolding up by auto
      show ?thesis
      proof (rule rest [OF _ s2(2)])
        show "add_entries ((name, e) # es) cur s = bindE (iappend cur ?E s2) (add_entries es cur)"
          using False Dir s1(1) s2(1) by (simp add: add_entries.simps fi(2))
        fix s3 assume s3: "iappend cur ?E s2 = Inr s3" "represents s3 ?a2"
        show "\<exists>s'. add_entries es cur s3 = Inr (0, s') \<and> represents s' F"
          using "3.IH"(4) [OF False Dir s1(1) refl s2(1) refl zero s3(1) [unfolded fi(2)] s3(2) n2(1) sz2 opn(2), unfolded F2] fit by blast
      qed
    qed
    then show ?thesis by (simp add: F_def)
  qed
qed

section \<open>The whole program\<close>

lemma zero_image:
  "n \<le> 1024 \<Longrightarrow> img s = [] \<Longrightarrow> fold (\<lambda>i. wsect (of_nat i) zeroes) [0..<n] s = s\<lparr>img := replicate n zeroes\<rparr>"
proof (induction n)
  case (Suc n)
  have u: "unat (of_nat n :: u32) = n" using Suc.prems(1) by (intro unat_of_nat_small) simp
  show ?case using Suc by (simp add: wsect_def u replicate_append_same)
qed simp

lemma ipb: "200 div of_nat IPB = (25 :: u32)"
  unfolding IPB_def by simp

lemma mkfs_ok:
  "\<exists>s. mkfs 995 200 1024 start = Inr s \<and> represents s [new_file 0] \<and> unat (freeinode s) = 1"
proof -
  define im where "im = (replicate 1024 zeroes)[1 := superblock_bytes]"
  let ?s = "\<lparr>img = im, sb = \<lparr>sb_size = 1024, nblocks = 995, ninodes = 200\<rparr>, freeblock = 29, usedblocks = 29,
     bitblocks = 1, freeinode = 1\<rparr>"
  have run: "mkfs 995 200 1024 start = Inr ?s"
  proof -
    have bits: "1024 div (512 * 8) + 1 = (1 :: u32)" by simp
    have st: "img (start\<lparr>sb := a, bitblocks := b, usedblocks := c, freeblock := d\<rparr>) = []" for a b c d
      by (simp add: start_def)
    show ?thesis
      unfolding mkfs_def Let_def bits ipb xint
      by (simp add: zero_image st) (simp add: start_def wsect_def im_def superblock_bytes_def)
  qed
  have sl: "length superblock_bytes = 512" by (simp add: superblock_bytes_def)
  have z: "im ! b = zeroes" if "1 < b" "b < 1024" for b using that by (simp add: im_def)
  have d0: "disk im 0 = \<lparr>d_type = 0, d_major = 0, d_minor = 0, d_nlink = 0, d_size = 0, d_addrs = replicate 13 0\<rparr>"
  proof -
    have "ld32s zeroes 12 13 = replicate 13 0" by (rule nth_equalityI) (simp_all add: ld32s_def)
    then show ?thesis by (simp add: disk_def z get_dinode_def NDIRECT_def ld16_def)
  qed
  have im: "image_ok im 29"
    using z by (auto simp: image_ok_def im_def nth_list_update sl)
  have "layout im (disk im) (keys_of [new_file 0]) (length [new_file 0]) 29"
    by (rule layoutI [OF im]) (simp_all add: d0 inode_ok_def bno_def new_file_def)
  moreover have "holds im (disk im) (keys_of [new_file 0]) (bytes_of [new_file 0]) (length [new_file 0])"
    by (simp add: holds_def new_file_def)
  ultimately have "represents ?s [new_file 0]"
    using d0 by (simp add: represents_def total_keys_def new_file_def im_def)
  then show ?thesis using run by auto
qed

lemma balloc_keeps:
  assumes R: "represents s a" and fb: "unat (usedblocks s) \<le> 1024"
  shows "\<exists>s'. balloc (usedblocks s) s = Inr s' \<and> represents s' a \<and>
    img s' ! 28 = fold (\<lambda>i buf. mark_used buf i) [0..<unat (freeblock s)] zeroes \<and> freeblock s' = freeblock s"
proof -
  note f = represents_facts [OF R]
  let ?u = "unat (usedblocks s)"
  let ?x = "fold (\<lambda>i buf. mark_used buf i) [0..<?u] zeroes"
  have si: "sint (usedblocks s) = int ?u" using fb by (intro sint_small) simp
  have sec: "200 div of_nat IPB + 3 = (28 :: u32)" unfolding ipb by simp
  define im where "im = (img s)[28 := ?x]"
  have run: "balloc (usedblocks s) s = Inr (s\<lparr>img := im\<rparr>)"
  proof -
    have "int ?u \<le> int 1024" using fb by (simp only: of_nat_le_iff)
    then have "\<not> 512 * 8 \<le> int ?u" by linarith
    then show ?thesis using f(9) unfolding balloc_def si sec by (simp add: wsect_def im_def)
  qed
  have lx: "length ?x = 512"
  proof -
    have "length (fold (\<lambda>i buf. mark_used buf i) xs buf) = length buf" for xs and buf :: "u8 list"
      by (induction xs arbitrary: buf) (simp_all add: mark_used_def)
    then show ?thesis by simp
  qed
  have other: "im ! b = img s ! b" if "b \<noteq> 28" for b using that by (simp add: im_def)
  have disk: "disk im m = disk (img s) m" if "m < length a" for m
  proof -
    have "m div 8 < 26" using that f(1) by (simp add: div_less_iff_less_mult)
    then show ?thesis using other by (simp add: disk_def)
  qed
  have bno: "bno im (disk im m) k = bno (img s) (disk (img s) m) k"
    if "m < length a" "k \<le> 12 \<or> 12 < keys_of a m" for m k
  proof -
    have "29 \<le> unat (d_addrs (disk (img s) m) ! 12)" if "12 < keys_of a m"
      using layoutD(5) [OF f(5) \<open>m < length a\<close> that] by (simp add: bno_def)
    then show ?thesis using that disk [OF that(1)] other by (auto simp: bno_def)
  qed
  have bno': "bno im (disk im m) k = bno (img s) (disk (img s) m) k" if "m < length a" "k < keys_of a m" for m k
    using bno [of m k] that by (cases "k \<le> 12") auto
  have io: "image_ok (img s) (freeblock s)" using f(5) by (simp add: layout_def)
  then have im: "image_ok im (freeblock s)"
    using lx unfolding image_ok_def im_def by (auto simp: nth_list_update)
  have L: "layout im (disk im) (keys_of a) (length a) (freeblock s)"
    by (rule layout_cong [OF f(5) im bno]) (use disk layoutD(3) [OF f(5)] in simp_all)
  have H: "holds im (disk im) (keys_of a) (bytes_of a) (length a)"
  proof (rule holds_cong [OF f(6) bno'])
    show "im ! unat (bno (img s) (disk (img s) m) (key q)) = img s ! unat (bno (img s) (disk (img s) m) (key q))"
      if "m < length a" "key q < keys_of a m" for m q
      using layoutD(5) [OF f(5) that] other by auto
  qed
  have "represents (s\<lparr>img := im\<rparr>) a"
    using L H f(1-3,7,8) f(10-12) disk other unfolding represents_def by simp
  then show ?thesis using run f(7,9) by (auto simp: im_def)
qed

theorem mkfs_builds:
  assumes "openable (Dir root)" "fits (image_of root)"
  shows "\<exists>s. mkfs_main root = Inr s \<and> represents s (image_of root) \<and>
    img s ! 28 = fold (\<lambda>i buf. mark_used buf i) [0..<unat (freeblock s)] zeroes"
proof -
  obtain s1 where s1: "mkfs 995 200 1024 start = Inr s1" "represents s1 [new_file 0]" "unat (freeinode s1) = 1"
    using mkfs_ok by blast
  have fi: "freeinode s1 = 1" using s1(3) by (simp add: word_unat_eq_iff)
  have ne: "flat (Dir root) 1 1 \<noteq> []" by (rule flat_nonempty [OF assms(1)])
  then have "earlier ([new_file 0] @ [new_file T_DIR]) (image_of root)"
    by (cases "flat (Dir root) 1 1") (auto simp: earlier_def image_of_def less_Suc_eq new_file_def)
  then have "fits ([new_file 0] @ [new_file T_DIR])" by (rule fits_earlier [OF assms(2)])
  then obtain s2 where s2: "ialloc T_DIR s1 = Inr (1, s2)" "represents s2 ([new_file 0] @ [new_file T_DIR])"
    using ialloc_ok [OF s1(2), of T_DIR] fi by auto
  have one: "unat (1 :: u32) = length [new_file 0]" by simp
  have im: "[new_file 0] @ flat (Dir root) (length [new_file 0]) (unat (1 :: u32)) = image_of root"
    by (simp add: image_of_def)
  obtain s3 where s3: "add_dir root 1 1 s2 = Inr (0, s3)" "represents s3 (image_of root)"
    using add_dir_ok(1) [OF s2(2) one _ assms(1), of 1] assms(2) unfolding im by auto
  have "unat (usedblocks s3) \<le> 1024"
    using represents_facts(3,7) [OF s3(2)] assms(2) by (simp add: fits_def)
  then obtain s4 where "balloc (usedblocks s3) s3 = Inr s4" "represents s4 (image_of root)"
    "img s4 ! 28 = fold (\<lambda>i buf. mark_used buf i) [0..<unat (freeblock s3)] zeroes" "freeblock s4 = freeblock s3"
    using balloc_keeps [OF s3(2)] by auto
  then show ?thesis using s1(1) s2(1) s3(1) by (simp add: mkfs_main_def)
qed

end
