(* ===== verification/Mkfs_Read.thy ===== *)
theory Mkfs_Read
  imports Mkfs_Tree
begin

text \<open>
  What the kernel's file system finds on an image that \<open>mkfs\<close> built: the superblock, the bitmap, the bytes
  of every file through \<open>readi\<close> and the entries of every directory through \<open>dirlookup\<close>.
\<close>

section \<open>The image as a disk\<close>

definition on_disk :: "fsys \<Rightarrow> u8 list list \<Rightarrow> bool" where
  "on_disk k im \<longleftrightarrow> (\<forall>b. length (blocks k 1 b) = BSIZE) \<and> (\<forall>b < 1024. blocks k 1 (of_nat b) = im ! b)"

lemma on_diskD:
  assumes "on_disk k im" "unat b < 1024"
  shows "blocks k 1 b = im ! unat b"
  using assms(1) [unfolded on_disk_def, THEN conjunct2, rule_format, OF assms(2)] by simp

lemma disk_inode_image:
  assumes "on_disk k im" "n < 208"
  shows "disk_inode k 1 (of_nat n) = disk im n"
proof -
  have u: "unat (of_nat n :: u32) = n" using assms(2) by (intro unat_of_nat_small) simp
  have "n div 8 < 26" using assms(2) by (simp add: div_less_iff_less_mult)
  then have "unat (IBLOCK (of_nat n)) = n div 8 + 2" by (simp add: IBLOCK_def unat_word_ariths unat_div u)
  then show ?thesis using on_diskD [OF assms(1), of "IBLOCK (of_nat n)"] \<open>n div 8 < 26\<close>
    by (simp add: disk_inode_def disk_def slot_def u IPB_def)
qed

lemma superblock_read: "on_disk k im \<Longrightarrow> im ! 1 = superblock_bytes \<Longrightarrow>
    readsb 1 k = \<lparr>sb_size = 1024, nblocks = 995, ninodes = 200\<rparr>"
  using on_diskD [of k im 1] by (simp add: readsb_def superblock_bytes_def ld_st_other)

lemma bitmap_read:
  assumes D: "on_disk k im" and sb: "im ! 1 = superblock_bytes"
    and bm: "im ! 28 = fold (\<lambda>i buf. mark_used buf i) [0..<u] zeroes" and u: "u \<le> 4096" and b: "unat b < 4096"
  shows "block_used k 1 b \<longleftrightarrow> unat b < u"
proof -
  have "unat (BBLOCK b 200) = 28" using b BBLOCK_nat [of 200 b] by simp
  then have x: "blocks k 1 (BBLOCK b (ninodes (readsb 1 k))) = fold (\<lambda>i buf. mark_used buf i) [0..<u] zeroes"
    using on_diskD [OF D, of "BBLOCK b 200"] bm superblock_read [OF D sb] by simp
  have m: "length (fold (\<lambda>i buf. mark_used buf i) [0..<n] zeroes) = 512 \<and>
      (\<forall>j < 4096. bit_free (fold (\<lambda>i buf. mark_used buf i) [0..<n] zeroes) j \<longleftrightarrow> n \<le> j)" if "n \<le> 4096" for n
    using that
  proof (induction n)
    case 0
    then show ?case by (simp add: bit_free_iff div_less_iff_less_mult)
  next
    case (Suc n)
    then show ?case using bit_free_mark(1) [of n "fold (\<lambda>i buf. mark_used buf i) [0..<n] zeroes"]
      by (auto simp: mark_used_def [of _ n])
  qed
  show ?thesis using m [OF u] b unfolding block_used_def x BPB_def by (simp add: not_le)
qed

section \<open>The bytes of an inode\<close>

definition cached :: "fsys \<Rightarrow> nat \<Rightarrow> nat \<Rightarrow> bool" where
  \<comment> \<open>entry \<open>i\<close> of the inode cache is inode \<open>n\<close> of device 1 as the disk has it\<close>
  "cached k i n \<longleftrightarrow> idev (icache k i) = 1 \<and> dinode_of (icache k i) = disk_inode k 1 (of_nat n)"

definition data_blocks :: "nat \<Rightarrow> nat" where
  "data_blocks len = (len + 511) div 512"

lemma key_data: "key q < kcount len \<longleftrightarrow> q < data_blocks len"
  by (auto simp: key_def kcount_def data_blocks_def Let_def)

lemma inode_mapped:
  assumes R: "represents s a" and D: "on_disk k (img s)" and C: "cached k i n" and n: "n < length a"
  defines "N \<equiv> data_blocks (length (bytes_of a n))"
  shows "mapped k i N" "\<And>x. x < 512 * N \<Longrightarrow> file_byte k i x = (if x < length (bytes_of a n) then bytes_of a n ! x else 0)"
    and "length (bytes_of a n) \<le> 512 * N" "itype (icache k i) = a_type (a ! n)" "unat (isize (icache k i)) = a_size (a ! n)"
proof -
  note f = represents_facts [OF R]
  let ?d = "disk (img s) n" and ?K = "keys_of a n"
  have di: "dinode_of (icache k i) = ?d" and dev: "idev (icache k i) = 1"
    using C disk_inode_image [OF D] f(1) n by (simp_all add: cached_def)
  then have ad: "addrs (icache k i) = d_addrs ?d" "itype (icache k i) = d_type ?d" "isize (icache k i) = d_size ?d"
    unfolding di [symmetric] by (simp_all add: dinode_of_def)
  have K: "key q < ?K \<longleftrightarrow> q < N" for q by (simp add: key_data N_def)
  have low: "29 \<le> unat (bno (img s) ?d j)" "unat (bno (img s) ?d j) < 1024" if "j < ?K" for j
    using layoutD(5) [OF f(5) n that] layout_sizes(4) [OF f(5)] by auto
  have N: "NDIRECT < N \<longleftrightarrow> 12 < ?K" by (auto simp: N_def data_blocks_def kcount_def NDIRECT_def Let_def)
  have b12: "bno (img s) ?d 12 = d_addrs ?d ! 12" by (simp add: bno_def)
  have bo: "block_of k i q = bno (img s) ?d (key q)" if "q < N" for q
  proof (cases "q < 12")
    case True
    then show ?thesis by (simp add: block_of_def bno_def key_def ad NDIRECT_def)
  next
    case False
    then have "12 < ?K" using that N by (simp add: NDIRECT_def)
    then have "unat (d_addrs ?d ! 12) < 1024" using low(2) b12 by metis
    then have "blocks k 1 (d_addrs ?d ! 12) = img s ! unat (d_addrs ?d ! 12)" by (rule on_diskD [OF D])
    then show ?thesis using False by (simp add: block_of_def bno_def key_def ad dev NDIRECT_def)
  qed
  have nz: "bno (img s) ?d j \<noteq> 0" if "j < ?K" for j using low(1) [OF that] by auto
  show "mapped k i N"
    unfolding mapped_def
  proof (intro conjI allI impI)
    show "N \<le> MAXFILE"
      using layoutD(4) [OF f(5) n] by (auto simp: N_def data_blocks_def kcount_def Let_def MAXFILE_def NDIRECT_def NINDIRECT_def split: if_splits)
    show "length (blocks k (idev (icache k i)) b) = BSIZE" for b using D by (simp add: on_disk_def dev)
    show "block_of k i q \<noteq> 0" if "q < N" for q using that nz K by (simp add: bo)
    show "block_of k i q \<noteq> addrs (icache k i) ! NDIRECT" if "q < N" "NDIRECT < N" for q
      using layoutD(7) [OF f(5) n n, of "key q" 12] that K N b12 by (simp add: bo ad NDIRECT_def)
    show "addrs (icache k i) ! NDIRECT \<noteq> 0" if "NDIRECT < N"
      using that N nz [of 12] b12 by (simp add: ad NDIRECT_def)
    show "inj_on (block_of k i) {..<N}"
      using layoutD(7) [OF f(5) n n] K by (auto simp: inj_on_def bo)
  qed
  show "file_byte k i x = (if x < length (bytes_of a n) then bytes_of a n ! x else 0)" if "x < 512 * N" for x
  proof -
    have q: "x div 512 < N" using that by (simp add: div_less_iff_less_mult mult.commute)
    have "blocks k 1 (bno (img s) ?d (key (x div 512))) = img s ! unat (bno (img s) ?d (key (x div 512)))"
      using low(2) K q by (intro on_diskD [OF D]) simp
    then show ?thesis
      using holdsD(1) [OF f(6) n, of "x div 512" "x mod 512"] K q by (simp add: file_byte_def bo dev BSIZE_def)
  qed
  show "length (bytes_of a n) \<le> 512 * N" unfolding N_def data_blocks_def
    using mult_div_mod_eq [of 512 "length (bytes_of a n) + 511"] mod_less_divisor [of 512 "length (bytes_of a n) + 511"]
    by linarith
  show "itype (icache k i) = a_type (a ! n)" "unat (isize (icache k i)) = a_size (a ! n)"
    using f(10,11) [OF n] by (simp_all add: ad)
qed

lemma image_readi:
  assumes R: "represents s a" and D: "on_disk k (img s)" and C: "cached k i n" and n: "n < length a"
    and t: "a_type (a ! n) \<noteq> T_DEV" and sz: "length (bytes_of a n) \<le> a_size (a ! n)"
  shows "readi dr i 0 (of_nat (length (bytes_of a n))) k = Inr (Some (bytes_of a n), k)"
proof -
  note m = inode_mapped [OF R D C n]
  let ?L = "length (bytes_of a n)"
  have "map (file_byte k i) [unat (0 :: u32)..<unat (0 :: u32) + ?L] = bytes_of a n"
    using m(2,3) by (intro nth_equalityI) simp_all
  then show ?thesis
    using readi_mapped [OF m(1), of 0 ?L dr] m(3-5) t sz by (simp add: BSIZE_def mult.commute)
qed

section \<open>Directory entries\<close>

definition cname :: "u8 list \<Rightarrow> u8 list" where
  "cname x = takeWhile (\<lambda>c. c \<noteq> 0) (take DIRSIZ x)"

lemma strncmp_eq:
  "n \<le> length xs \<Longrightarrow> n \<le> length ys \<Longrightarrow> strncmp n (cptr_list xs) (cptr_list ys) = 0 \<longleftrightarrow>
     takeWhile (\<lambda>c. c \<noteq> 0) (take n xs) = takeWhile (\<lambda>c. c \<noteq> 0) (take n ys)"
proof (induction n arbitrary: xs ys)
  case (Suc n)
  then obtain x xs' y ys' where l: "xs = x # xs'" "ys = y # ys'" by (metis Suc_le_length_iff)
  have s: "cptr_list (z # zs) \<circ> Suc = cptr_list zs" for z zs by (rule ext) (simp add: cptr_list_def)
  have h: "cptr_list (z # zs) 0 = z" for z zs by (simp add: cptr_list_def)
  have z: "int (unat x) - int (unat y) = 0 \<longleftrightarrow> x = y" by (simp add: word_uint_eq_iff)
  show ?case
  proof (cases "x = y")
    case True
    then show ?thesis using Suc.IH [of xs' ys'] Suc.prems by (simp add: l s h)
  next
    case False
    then have "strncmp (Suc n) (cptr_list xs) (cptr_list ys) \<noteq> 0" using z by (simp only: strncmp.simps l h) simp
    then show ?thesis using False by (auto simp add: l)
  qed
qed simp

lemma namecmp_eq: "DIRSIZ \<le> length s \<Longrightarrow> DIRSIZ \<le> length t \<Longrightarrow> namecmp s t = 0 \<longleftrightarrow> cname s = cname t"
  by (simp add: namecmp_def cname_def strncmp_eq)

lemma length_pad [simp]: "length (pad_name nm) = DIRSIZ"
proof -
  have "length (takeWhile (\<lambda>c. c \<noteq> 0) (take DIRSIZ nm)) \<le> DIRSIZ"
    using length_takeWhile_le [of "\<lambda>c. c \<noteq> 0" "take DIRSIZ nm"] by simp
  then show ?thesis by (simp add: pad_name_def Let_def)
qed

lemma cname_pad [simp]: "cname (pad_name nm) = cname nm"
proof -
  let ?t = "takeWhile (\<lambda>c. c \<noteq> 0) (take DIRSIZ nm)"
  have l: "length (?t @ replicate (DIRSIZ - length ?t) 0) = DIRSIZ" using length_pad [of nm] by (simp add: pad_name_def Let_def)
  have "\<forall>x \<in> set ?t. x \<noteq> 0" by (auto dest: set_takeWhileD)
  then have "takeWhile (\<lambda>c. c \<noteq> 0) (?t @ replicate m 0) = ?t" for m
    by (cases m) (simp_all add: takeWhile_append2)
  then show ?thesis using l by (simp add: cname_def pad_name_def Let_def)
qed

definition matches :: "u8 list \<Rightarrow> u8 list \<Rightarrow> nat \<Rightarrow> bool" where
  \<comment> \<open>entry \<open>e\<close> of a directory with these bytes is in use and has the name\<close>
  "matches name B e \<longleftrightarrow> ld16 B (16 * e) \<noteq> 0 \<and> cname name = cname (take DIRSIZ (drop (16 * e + 2) B))"

lemma block_entry:
  assumes x: "length x = 512" "\<And>j. j < 512 \<Longrightarrow> 512 * q + j < length B \<Longrightarrow> x ! j = B ! (512 * q + j)"
    and e: "16 * e + 16 \<le> length B" "e div 32 = q"
  shows "de_inum x (e mod 32) = ld16 B (16 * e)" "de_name x (e mod 32) = take DIRSIZ (drop (16 * e + 2) B)"
proof -
  have s: "16 * e = 512 * q + 16 * (e mod 32)" using e(2) mult_div_mod_eq [of 32 e] by linarith
  have m: "e mod 32 < 32" by simp
  have b: "x ! (16 * (e mod 32) + j) = B ! (16 * e + j)" if "j < 16" for j
  proof -
    have "16 * (e mod 32) + j < 512" using that m by linarith
    moreover have "512 * q + (16 * (e mod 32) + j) = 16 * e + j" using s by linarith
    ultimately show ?thesis using x(2) [of "16 * (e mod 32) + j"] e(1) that by (simp only:)
  qed
  show "de_inum x (e mod 32) = ld16 B (16 * e)" using b [of 0] b [of 1] by (simp add: de_inum_def ld16_def)
  show "de_name x (e mod 32) = take DIRSIZ (drop (16 * e + 2) B)"
  proof (rule nth_equalityI)
    have "16 * (e mod 32) + 16 \<le> 512" using m by linarith
    then show "length (de_name x (e mod 32)) = length (take DIRSIZ (drop (16 * e + 2) B))"
      using x(1) e(1) by (simp add: de_name_def DIRSIZ_def)
    fix j assume "j < length (de_name x (e mod 32))"
    then have "j < 14" by (simp add: de_name_def DIRSIZ_def)
    then show "de_name x (e mod 32) ! j = take DIRSIZ (drop (16 * e + 2) B) ! j"
      using b [of "j + 2"] x(1) e(1) m by (simp add: de_name_def DIRSIZ_def add.commute add.left_commute)
  qed
qed

lemma find_first:
  assumes "P e" "e < n" "\<And>j. j < e \<Longrightarrow> \<not> P j"
  shows "find P [0..<n] = Some e"
  unfolding find_Some_iff using assms by (intro exI [of _ e]) simp

text \<open>The loop of \<open>dirlookup\<close> from block \<open>q\<close> on finds the first entry with the name.\<close>

lemma dirlookup_loop_found:
  assumes M: "mapped k i N" and B: "\<And>x. x < length B \<Longrightarrow> file_byte k i x = B ! x"
    and e: "16 * e + 16 \<le> length B" "length B \<le> 512 * N" "matches name B e" "\<And>j. j < e \<Longrightarrow> \<not> matches name B j"
    and sz: "length B \<le> unat (isize (icache k i))" and nm: "DIRSIZ \<le> length name"
  shows "q \<le> e div 32 \<Longrightarrow> e div 32 - q < fuel \<Longrightarrow>
    dirlookup_loop fuel i name (of_nat (512 * q)) k =
      bindE (iget (idev (icache k i)) (ucast (ld16 B (16 * e))) k) (\<lambda>(j, s2). Inr (Some (j, of_nat (16 * e)), s2))"
proof (induction fuel arbitrary: q)
  case (Suc fuel)
  have N: "N \<le> 140" using M by (simp add: mapped_def MAXFILE_def NDIRECT_def NINDIRECT_def)
  have eq: "512 * (e div 32) \<le> 16 * e" by linarith
  have q512: "512 * q \<le> 512 * (e div 32)" using Suc.prems(1) by simp
  then have ql: "512 * q < length B" using e(1) eq by linarith
  then have q: "q < N" using e(2) by linarith
  have off: "unat (of_nat (512 * q) :: u32) = 512 * q" using q N by (intro unat_of_nat_small) simp
  have lt: "of_nat (512 * q) < isize (icache k i)" using ql sz by (simp add: word_less_nat_alt off del: of_nat_mult)
  have dq: "unat (of_nat (512 * q) div 512 :: u32) = q" by (simp add: unat_div off del: of_nat_mult)
  have bm: "bmap i (of_nat (512 * q) div 512) k = Inr (block_of k i q, k)"
    using bmap_mapped [OF M, of "of_nat (512 * q) div 512"] q unfolding dq by simp
  define x where "x = blocks k (idev (icache k i)) (block_of k i q)"
  have lx: "length x = 512" using M by (simp add: mapped_def x_def BSIZE_def)
  have xb: "x ! j = B ! (512 * q + j)" if "j < 512" "512 * q + j < length B" for j
  proof -
    have "(512 * q + j) div 512 = q" "(512 * q + j) mod 512 = j" using that(1) by simp_all
    then show ?thesis using B [OF that(2)] by (simp add: file_byte_def x_def BSIZE_def)
  qed
  let ?P = "\<lambda>kk. de_inum x kk \<noteq> 0 \<and> namecmp name (de_name x kk) = 0"
  have P: "?P (f mod 32) \<longleftrightarrow> matches name B f" if "16 * f + 16 \<le> length B" "f div 32 = q" for f
  proof -
    have "length (de_name x (f mod 32)) = DIRSIZ"
      using block_entry(2) [OF lx xb that] that(1) by (simp add: DIRSIZ_def)
    then show ?thesis using namecmp_eq [OF nm, of "de_name x (f mod 32)"] block_entry [OF lx xb that]
      by (simp add: matches_def)
  qed
  have step: "dirlookup_loop (Suc fuel) i name (of_nat (512 * q)) k =
      (case find ?P [0..<32] of Some kk \<Rightarrow> bindE (iget (idev (icache k i)) (ucast (de_inum x kk)) k) (\<lambda>(j, s2).
                        Inr (Some (j, of_nat (512 * q) + of_nat (16 * kk)), s2))
            | None \<Rightarrow> dirlookup_loop fuel i name (of_nat (512 * q) + 512) k)"
    by (subst dirlookup_loop.simps) (simp only: lt if_True nat.case bm bindE_simps prod.case Let_def x_def)
  show ?case
  proof (cases "q = e div 32")
    case True
    have f1: "find ?P [0..<32] = Some (e mod 32)"
    proof (rule find_first)
      show "?P (e mod 32)" using P [OF e(1)] True e(3) by simp
      fix j assume j: "j < e mod 32"
      have d: "(32 * q + j) div 32 = q" "(32 * q + j) mod 32 = j" using j by simp_all
      have "32 * q + j < e" using j True mult_div_mod_eq [of 32 e] by linarith
      then show "\<not> ?P j" using P [of "32 * q + j"] d e(1,4) by simp
    qed simp
    have "512 * q + 16 * (e mod 32) = 16 * e" using True mult_div_mod_eq [of 32 e] by linarith
    then have "of_nat (512 * q + 16 * (e mod 32)) = (of_nat (16 * e) :: u32)" by (simp only:)
    then have f2: "of_nat (512 * q) + of_nat (16 * (e mod 32)) = (of_nat (16 * e) :: u32)" by (simp only: of_nat_add)
    have f3: "de_inum x (e mod 32) = ld16 B (16 * e)"
      by (rule block_entry(1) [OF lx _ e(1) True [symmetric]]) (rule xb)
    show ?thesis unfolding step f1 by (simp only: option.case f2 f3)
  next
    case False
    then have qe: "Suc q \<le> e div 32" using Suc.prems(1) by simp
    have "find ?P [0..<32] = None"
    proof -
      have "\<not> ?P j" if "j < 32" for j
      proof -
        have d: "(32 * q + j) div 32 = q" "(32 * q + j) mod 32 = j" using that by simp_all
        have "32 * Suc q \<le> 32 * (e div 32)" using qe by (rule mult_le_mono2)
        then have "32 * q + j < e" using that mult_div_mod_eq [of 32 e] unfolding mult_Suc_right by linarith
        then show "\<not> ?P j" using P [of "32 * q + j"] d e(1,4) by simp
      qed
      then show ?thesis by (simp add: find_None_iff)
    qed
    moreover have "of_nat (512 * q) + 512 = (of_nat (512 * Suc q) :: u32)" by simp
    ultimately show ?thesis unfolding step using Suc.IH [OF qe] Suc.prems(2) qe by (simp add: add.commute del: of_nat_mult)
  qed
qed simp

lemma image_dirlookup:
  assumes R: "represents s a" and D: "on_disk k (img s)" and C: "cached k i n" and n: "n < length a"
    and t: "a_type (a ! n) = T_DIR" and sz: "length (bytes_of a n) \<le> a_size (a ! n)" "a_size (a ! n) < 2 ^ 31"
    and e: "16 * e + 16 \<le> length (bytes_of a n)" "matches name (bytes_of a n) e" "\<And>j. j < e \<Longrightarrow> \<not> matches name (bytes_of a n) j"
    and nm: "DIRSIZ \<le> length name"
  shows "dirlookup i name k =
    bindE (iget 1 (ucast (ld16 (bytes_of a n) (16 * e))) k) (\<lambda>(j, k'). Inr (Some (j, of_nat (16 * e)), k'))"
proof -
  note m = inode_mapped [OF R D C n]
  have B: "file_byte k i x = bytes_of a n ! x" if "x < length (bytes_of a n)" for x using m(2,3) that by simp
  have szi: "length (bytes_of a n) \<le> unat (isize (icache k i))" using m(5) sz by simp
  have fuel: "e div 32 - 0 < unat (isize (icache k i)) div BSIZE + 1"
  proof -
    have "16 * e div 512 \<le> unat (isize (icache k i)) div 512" using e(1) szi by (intro div_le_mono) linarith
    moreover have "16 * e div 512 = e div 32" by simp
    ultimately show ?thesis by (simp add: BSIZE_def)
  qed
  have dev: "idev (icache k i) = 1" using C by (simp add: cached_def)
  show ?thesis
    using dirlookup_loop_found [OF m(1) B e(1) m(3) e(2,3) szi nm _ fuel] m(4) t dev by (simp add: dirlookup_def)
qed

section \<open>The tree of the host in the image\<close>

function (sequential) nodes :: "hnode \<Rightarrow> nat"
and nodes_list :: "(u8 list \<times> hnode) list \<Rightarrow> nat" where
  "nodes Unopenable = 0"
| "nodes (File chunks) = 1"
| "nodes (Dir None) = 1"
| "nodes (Dir (Some es)) = Suc (nodes_list es)"
| "nodes_list [] = 0"
| "nodes_list ((name, e) # es) =
     (if name = DOT \<or> name = DOTDOT then nodes_list es else nodes e + nodes_list es)"
  by pat_completeness auto

termination
  by (relation "measure (\<lambda>x. case x of Inl e \<Rightarrow> size e | Inr es \<Rightarrow> entries_size es)") auto

lemma nodes_flat:
  "length (flat e n p) = nodes e" "length (flat_list es m p) = nodes_list es"
  by (induction e and es arbitrary: n p and m p rule: nodes_nodes_list.induct) (simp_all add: Let_def)

text \<open>The number and the node that a path of names leads to.\<close>

function (sequential) locate :: "hnode \<Rightarrow> nat \<Rightarrow> u8 list list \<Rightarrow> (nat \<times> hnode) option"
and find_entry :: "(u8 list \<times> hnode) list \<Rightarrow> nat \<Rightarrow> u8 list \<Rightarrow> u8 list list \<Rightarrow> (nat \<times> hnode) option" where
  "locate e n [] = Some (n, e)"
| "locate (Dir (Some es)) n (nm # path) = find_entry es (Suc n) nm path"
| "locate e n (nm # path) = None"
| "find_entry [] m nm path = None"
| "find_entry ((name, e) # es) m nm path =
     (if name = DOT \<or> name = DOTDOT then find_entry es m nm path
      else if cname name = cname nm then locate e m path
      else find_entry es (m + nodes e) nm path)"
  by pat_completeness auto

termination
  by (relation "measure (\<lambda>x. case x of Inl (e, _) \<Rightarrow> size e | Inr (es, _) \<Rightarrow> entries_size es)") auto

lemma flat_at:
  "locate e n path = Some (c, node) \<Longrightarrow> openable e \<Longrightarrow> n \<le> c \<and> openable node \<and>
     (\<exists>p. c - n < length (flat e n q) \<and> flat e n q ! (c - n) = hd (flat node c p))"
  "find_entry es m nm path = Some (c, node) \<Longrightarrow> openable (Dir (Some es)) \<Longrightarrow> m \<le> c \<and> openable node \<and>
     (\<exists>p. c - m < length (flat_list es m q) \<and> flat_list es m q ! (c - m) = hd (flat node c p))"
proof (induction e n path and es m nm path arbitrary: q and q rule: locate_find_entry.induct)
  case (1 e n)
  then have "e = node" "c = n" "flat e n q \<noteq> []" using flat_nonempty [of e n q] by auto
  then have "flat e n q ! (c - n) = hd (flat node c q)" "c - n < length (flat e n q)" by (simp_all add: hd_conv_nth)
  then show ?case using \<open>c = n\<close> \<open>e = node\<close> 1(2) by blast
next
  case (2 es n nm path)
  have "find_entry es (Suc n) nm path = Some (c, node)" using 2(2) by simp
  from 2(1) [OF this 2(3), of n] obtain p where p: "Suc n \<le> c" "openable node"
    "c - Suc n < length (flat_list es (Suc n) n)" "flat_list es (Suc n) n ! (c - Suc n) = hd (flat node c p)" by blast
  moreover have "c - n = Suc (c - Suc n)" using p(1) by simp
  ultimately show ?case by (auto simp: Let_def)
next
  case (5 name e es m nm path)
  consider "name = DOT \<or> name = DOTDOT" | "\<not> (name = DOT \<or> name = DOTDOT)" "cname name = cname nm"
    | "\<not> (name = DOT \<or> name = DOTDOT)" "cname name \<noteq> cname nm" by blast
  then show ?case
  proof cases
    case 1
    then show ?thesis using 5(1) [OF 1] 5(4,5) by simp
  next
    case 2
    then have "locate e m path = Some (c, node)" "openable e" using 5(4,5) by auto
    from 5(2) [OF 2 this, of q] obtain p where "m \<le> c" "openable node" "c - m < length (flat e m q)"
      "flat e m q ! (c - m) = hd (flat node c p)" by blast
    then show ?thesis using 2(1) by (auto simp: Let_def nth_append)
  next
    case 3
    then have "find_entry es (m + nodes e) nm path = Some (c, node)" "openable (Dir (Some es))" using 5(4,5) by auto
    from 5(3) [OF 3 this, of q] obtain p where "m + nodes e \<le> c" "openable node"
      "c - (m + nodes e) < length (flat_list es (m + nodes e) q)"
      "flat_list es (m + nodes e) q ! (c - (m + nodes e)) = hd (flat node c p)" by blast
    then show ?thesis using 3(1) by (auto simp: Let_def nth_append nodes_flat)
  qed
qed simp_all

lemma image_at:
  assumes "locate (Dir root) 1 path = Some (c, node)" "openable (Dir root)"
  shows "0 < c \<and> c < length (image_of root) \<and> (\<exists>p. image_of root ! c = hd (flat node c p)) \<and> openable node"
  using flat_at(1) [OF assms, of 1] by (auto simp: image_of_def nth_Cons split: nat.split)

section \<open>Entries of a directory\<close>

lemma length_dirent [simp]: "length (dirent ino nm) = 16"
  by (simp add: dirent_def DIRSIZ_def)

lemma matches_append:
  assumes d: "length d = 16"
  shows "matches name (d @ B) (Suc e) \<longleftrightarrow> matches name B e"
    and "ld16 (d @ B) (16 * Suc e) = ld16 B (16 * e)"
proof -
  have n: "(d @ B) ! (16 + x) = B ! x" for x using d by (simp add: nth_append)
  show l: "ld16 (d @ B) (16 * Suc e) = ld16 B (16 * e)"
    using n [of "16 * e"] n [of "16 * e + 1"] by (simp add: ld16_def add.assoc)
  have "drop (16 * Suc e + 2) (d @ B) = drop (16 * e + 2) B" using d by simp
  then show "matches name (d @ B) (Suc e) \<longleftrightarrow> matches name B e" unfolding matches_def l by simp
qed

lemma matches_first:
  "ld16 (dirent ino nm @ B) 0 = ucast ino"
  "matches name (dirent ino nm @ B) 0 \<longleftrightarrow> ucast ino \<noteq> (0 :: u16) \<and> cname name = cname nm"
proof -
  show l: "ld16 (dirent ino nm @ B) 0 = ucast ino"
  proof -
    have "ld16 (st16 [0, 0] 0 (ucast ino)) 0 = ucast ino" by simp
    then show ?thesis by (simp add: dirent_def ld16_def st16_def)
  qed
  have "take DIRSIZ (drop 2 (dirent ino nm @ B)) = pad_name nm"
    by (simp add: dirent_def st16_def)
  then show "matches name (dirent ino nm @ B) 0 \<longleftrightarrow> ucast ino \<noteq> (0 :: u16) \<and> cname name = cname nm"
    unfolding matches_def mult_0_right add_0_left l by (simp only: cname_pad)
qed

lemma entry_found:
  assumes "find_entry es m nm [] = Some (c, node)" "0 < m" "m + nodes_list es \<le> 208"
    and "cname nm \<noteq> cname DOT" "cname nm \<noteq> cname DOTDOT"
  shows "\<exists>e. 16 * e + 16 \<le> length (entry_bytes es m q) \<and> matches nm (entry_bytes es m q) e \<and>
    (\<forall>j < e. \<not> matches nm (entry_bytes es m q) j) \<and> ld16 (entry_bytes es m q) (16 * e) = of_nat c"
  using assms(1-3)
proof (induction es arbitrary: m)
  case (Cons x es)
  obtain name e where x: "x = (name, e)" by fastforce
  show ?case
  proof (cases "name = DOT \<or> name = DOTDOT")
    case True
    then show ?thesis using Cons by (simp add: x)
  next
    case False
    let ?d = "dirent (of_nat m) name" and ?B = "entry_bytes es (m + nodes e) q"
    have B: "entry_bytes (x # es) m q = ?d @ ?B" using False by (simp add: x nodes_flat)
    have u: "unat (of_nat m :: u32) = m" using Cons.prems(3) by (intro unat_of_nat_small) simp
    have "ucast (of_nat m :: u32) = (of_nat (unat (of_nat m :: u32)) :: u16)" by (simp only: of_nat_unat)
    then have m16: "ucast (of_nat m :: u32) = (of_nat m :: u16)" unfolding u .
    have nz: "(of_nat m :: u16) \<noteq> 0"
    proof -
      have "m < 2 ^ 16" using Cons.prems(3) by simp
      then have "unat (of_nat m :: u16) = m" unfolding unsigned_of_nat of_nat_id by (intro take_bit_nat_eq_self) simp
      then show ?thesis using Cons.prems(2) by (metis less_numeral_extra(3) unsigned_0)
    qed
    have first: "matches nm (?d @ ?B) 0 \<longleftrightarrow> cname nm = cname name" "ld16 (?d @ ?B) 0 = of_nat m"
      using matches_first(2) [of nm "of_nat m" name ?B] matches_first(1) [of "of_nat m" name ?B] nz
      unfolding m16 by simp_all
    show ?thesis
    proof (cases "cname name = cname nm")
      case True
      then have "c = m" using Cons.prems(1) False by (simp add: x)
      then show ?thesis using first True unfolding B by (intro exI [of _ 0]) simp
    next
      case F: False
      have "find_entry es (m + nodes e) nm [] = Some (c, node)" "m + nodes e + nodes_list es \<le> 208"
        using Cons.prems False F by (simp_all add: x)
      then obtain f where f: "16 * f + 16 \<le> length ?B" "matches nm ?B f" "\<forall>j < f. \<not> matches nm ?B j" "ld16 ?B (16 * f) = of_nat c"
        using Cons.IH [of "m + nodes e"] Cons.prems(2) by auto
      have "\<not> matches nm (?d @ ?B) j" if "j < Suc f" for j
        using that f(3) first(1) F matches_append(1) [of ?d nm ?B] by (cases j) auto
      moreover have "matches nm (?d @ ?B) (Suc f)" "ld16 (?d @ ?B) (16 * Suc f) = of_nat c"
        using f(2,4) by (simp_all only: matches_append length_dirent)
      ultimately show ?thesis using f(1) unfolding B by (intro exI [of _ "Suc f"]) simp
    qed
  qed
qed simp

lemma dots_found:
  assumes "16 * e + 16 \<le> length B" "matches nm B e" "\<forall>j < e. \<not> matches nm B j" "ld16 B (16 * e) = v"
    and nm: "cname nm \<noteq> cname DOT" "cname nm \<noteq> cname DOTDOT"
  shows "\<exists>e. 16 * e + 16 \<le> length (dots n p @ B) \<and> matches nm (dots n p @ B) e \<and>
    (\<forall>j < e. \<not> matches nm (dots n p @ B) j) \<and> ld16 (dots n p @ B) (16 * e) = v"
proof -
  let ?a = "dirent (of_nat n) DOT" and ?b = "dirent (of_nat p) DOTDOT"
  have d: "dots n p @ B = ?a @ (?b @ B)" by (simp add: dots_def)
  have "\<not> matches nm (?b @ B) j" if "j < Suc e" for j
    using that assms(3) matches_first(2) [of nm "of_nat p" DOTDOT B] nm matches_append(1) [of ?b nm B] by (cases j) auto
  then have "\<not> matches nm (?a @ (?b @ B)) j" if "j < Suc (Suc e)" for j
    using that matches_first(2) [of nm "of_nat n" DOT "?b @ B"] nm matches_append(1) [of ?a nm "?b @ B"] by (cases j) auto
  moreover have "matches nm (?a @ (?b @ B)) (Suc (Suc e))" "ld16 (?a @ (?b @ B)) (16 * Suc (Suc e)) = v"
    using assms(2,4) by (simp_all only: matches_append length_dirent)
  ultimately show ?thesis using assms(1) unfolding d by (intro exI [of _ "Suc (Suc e)"]) simp
qed

section \<open>The image is read back\<close>

lemma nodes_at:
  "locate e n path = Some (c, node) \<Longrightarrow> c + nodes node \<le> n + nodes e"
  "find_entry es m nm path = Some (c, node) \<Longrightarrow> c + nodes node \<le> m + nodes_list es"
proof (induction e n path and es m nm path rule: locate_find_entry.induct)
  case (5 name e es m nm path)
  then show ?case by (fastforce split: if_splits)
qed simp_all

text \<open>The files and directories of the tree as the kernel sees them through a cached inode.\<close>

definition files_read_back :: "hdir \<Rightarrow> fsys \<Rightarrow> bool" where
  "files_read_back root k \<longleftrightarrow> (\<forall>path n chunks i dr.
     locate (Dir root) 1 path = Some (n, File chunks) \<longrightarrow> cached k i n \<longrightarrow>
       itype (icache k i) = T_FILE \<and> unat (isize (icache k i)) = length (concat chunks) \<and>
       readi dr i 0 (isize (icache k i)) k = Inr (Some (concat chunks), k))"

definition names_found :: "hdir \<Rightarrow> fsys \<Rightarrow> bool" where
  "names_found root k \<longleftrightarrow> (\<forall>path n es i nm c node.
     locate (Dir root) 1 path = Some (n, Dir (Some es)) \<longrightarrow> locate (Dir (Some es)) n [nm] = Some (c, node) \<longrightarrow>
     cname nm \<noteq> cname DOT \<longrightarrow> cname nm \<noteq> cname DOTDOT \<longrightarrow> cached k i n \<longrightarrow>
       (\<exists>off. dirlookup i (pad_name nm) k = bindE (iget 1 (of_nat c) k) (\<lambda>(j, k'). Inr (Some (j, off), k'))))"

lemma files_read_back_ok:
  assumes R: "represents s (image_of root)" and D: "on_disk k (img s)" and O: "openable (Dir root)"
  shows "files_read_back root k"
  unfolding files_read_back_def
proof (intro allI impI)
  fix path n chunks i dr
  assume loc: "locate (Dir root) 1 path = Some (n, File chunks)" and C: "cached k i n"
  have n: "n < length (image_of root)" "image_of root ! n = sized T_FILE (concat chunks)"
    using image_at [OF loc O] by auto
  note m = inode_mapped [OF R D C n(1)]
  have t: "a_type (image_of root ! n) \<noteq> T_DEV" by (simp add: n(2) sized_def T_FILE_def T_DEV_def)
  have sz: "length (bytes_of (image_of root) n) \<le> a_size (image_of root ! n)" by (simp add: n(2) sized_def)
  have "isize (icache k i) = of_nat (length (concat chunks))"
    using m(5) unfolding n(2) sized_def by (metis afile.select_convs(3) of_nat_unat ucast_id)
  then show "itype (icache k i) = T_FILE \<and> unat (isize (icache k i)) = length (concat chunks) \<and>
       readi dr i 0 (isize (icache k i)) k = Inr (Some (concat chunks), k)"
    using image_readi [OF R D C n(1) t sz] m(4,5) unfolding n(2) sized_def by simp
qed

lemma names_found_ok:
  assumes R: "represents s (image_of root)" and D: "on_disk k (img s)" and O: "openable (Dir root)"
    and F: "fits (image_of root)"
  shows "names_found root k"
  unfolding names_found_def
proof (intro allI impI)
  fix path n es i nm c node
  assume loc: "locate (Dir root) 1 path = Some (n, Dir (Some es))" and ch: "locate (Dir (Some es)) n [nm] = Some (c, node)"
    and nm: "cname nm \<noteq> cname DOT" "cname nm \<noteq> cname DOTDOT" and C: "cached k i n"
  obtain p where n: "0 < n" "n < length (image_of root)" "image_of root ! n = hd (flat (Dir (Some es)) n p)"
    using image_at [OF loc O] by blast
  let ?B = "dots n p @ entry_bytes es (Suc n) n"
  have f: "a_type (image_of root ! n) = T_DIR" "bytes_of (image_of root) n = ?B"
    "a_size (image_of root ! n) = (length ?B div 512 + 1) * 512"
    using n(3) by (simp_all add: Let_def)
  have "image_of root ! n \<in> set (image_of root)" using n(2) by simp
  then have len: "length ?B \<le> 71680" using F f(2) by (auto simp: fits_def)
  then have "length ?B div 512 \<le> 140" using div_le_mono [OF len, of 512] by simp
  then have sz2: "a_size (image_of root ! n) < 2 ^ 31" unfolding f(3) by simp
  have sz1: "length (bytes_of (image_of root) n) \<le> a_size (image_of root ! n)"
    unfolding f using dividend_less_div_times [of 512 "length ?B"] by simp
  have "Suc n + nodes_list es \<le> 208"
    using nodes_at(1) [OF loc] F by (simp add: fits_def image_of_def nodes_flat)
  moreover have ch': "find_entry es (Suc n) nm [] = Some (c, node)" using ch by simp
  ultimately obtain e where e: "16 * e + 16 \<le> length ?B" "matches nm ?B e" "\<forall>j < e. \<not> matches nm ?B j" "ld16 ?B (16 * e) = of_nat c"
    using entry_found [OF ch' _ _ nm, of n] dots_found [OF _ _ _ _ nm] by (metis zero_less_Suc)
  have same: "matches (pad_name nm) ?B j = matches nm ?B j" for j by (simp add: matches_def)
  have "openable (Dir (Some es))" using image_at [OF loc O] by blast
  then have "c - Suc n < nodes_list es" using flat_at(2) [OF ch', of 0] by (auto simp: nodes_flat)
  then have c: "c < 208" using \<open>Suc n + nodes_list es \<le> 208\<close> by linarith
  then have u: "unat (of_nat c :: u16) = c"
    unfolding unsigned_of_nat of_nat_id by (intro take_bit_nat_eq_self) simp
  have "ucast (of_nat c :: u16) = (of_nat (unat (of_nat c :: u16)) :: u32)" by (simp only: of_nat_unat)
  then have uc: "ucast (of_nat c :: u16) = (of_nat c :: u32)" unfolding u .
  have "dirlookup i (pad_name nm) k =
      bindE (iget 1 (ucast (ld16 ?B (16 * e))) k) (\<lambda>(j, k'). Inr (Some (j, of_nat (16 * e)), k'))"
    using image_dirlookup [OF R D C n(2) f(1) sz1 sz2, of e "pad_name nm"] e(1-3) unfolding f(2) same by simp
  then show "\<exists>off. dirlookup i (pad_name nm) k = bindE (iget 1 (of_nat c) k) (\<lambda>(j, k'). Inr (Some (j, off), k'))"
    unfolding e(4) uc by blast
qed

text \<open>C40: For every tree of the host that can be read and fits on the disk \<open>mkfs\<close> returns an image on which the
  kernel finds the superblock, exactly the allocated blocks marked in the bitmap, under every path of the
  tree the file with its bytes, and in every directory each of its names with the inode of that entry.\<close>

theorem mkfs_image_is_read_back:
  assumes "openable (Dir root)" "fits (image_of root)"
  shows "\<exists>s. mkfs_main root = Inr s \<and> (\<forall>k. on_disk k (img s) \<longrightarrow>
    readsb 1 k = \<lparr>sb_size = 1024, nblocks = 995, ninodes = 200\<rparr> \<and>
    (\<forall>b. unat b < 4096 \<longrightarrow> block_used k 1 b = (b < freeblock s)) \<and>
    files_read_back root k \<and> names_found root k)"
proof -
  obtain s where s: "mkfs_main root = Inr s" "represents s (image_of root)"
    "img s ! 28 = fold (\<lambda>i buf. mark_used buf i) [0..<unat (freeblock s)] zeroes"
    using mkfs_builds [OF assms] by blast
  have fb: "unat (freeblock s) \<le> 4096" using layout_sizes(4) [OF represents_facts(5) [OF s(2)]] by simp
  show ?thesis
  proof (intro exI conjI allI impI)
    fix k assume D: "on_disk k (img s)"
    show "readsb 1 k = \<lparr>sb_size = 1024, nblocks = 995, ninodes = 200\<rparr>"
      by (rule superblock_read [OF D represents_facts(8) [OF s(2)]])
    show "block_used k 1 b = (b < freeblock s)" if "unat b < 4096" for b
      using bitmap_read [OF D represents_facts(8) [OF s(2)] s(3) fb that] by (simp add: word_less_nat_alt)
    show "files_read_back root k" by (rule files_read_back_ok [OF s(2) D assms(1)])
    show "names_found root k" by (rule names_found_ok [OF s(2) D assms])
  qed (rule s(1))
qed

definition demo_tree :: hdir where
  "demo_tree = Some [(DOT, Unopenable), ([97], File [[1, 2], [3]]), ([98], Dir (Some [([99], File [])]))]"

theorem mkfs_image_is_read_back_witness:
  "\<exists>s. mkfs_main demo_tree = Inr s \<and> (\<forall>k. on_disk k (img s) \<longrightarrow>
    files_read_back demo_tree k \<and> names_found demo_tree k)"
proof -
  have "openable (Dir demo_tree)" by (simp add: demo_tree_def DOT_def DOTDOT_def)
  moreover have "fits (image_of demo_tree)"
    by (simp add: demo_tree_def DOT_def DOTDOT_def image_of_def Let_def sized_def new_file_def dots_def fits_def
        total_keys_def kcount_def)
  ultimately show ?thesis using mkfs_image_is_read_back [of demo_tree] by blast
qed

end
