(* ===== verification/Kbd.thy ===== *)
theory Kbd
  imports Console
begin

text \<open>
  The keyboard, \<open>kernel/kbd.c\<close> with the tables of \<open>kernel/kbd.h\<close>: scan codes of keys pressed and released
  become characters under the modifiers held and the locks switched on. A scan code is the byte that
  the controller has.
\<close>

definition SHIFT :: u32 where "SHIFT = 1"
definition CTL :: u32 where "CTL = 2"
definition ALT :: u32 where "ALT = 4"
definition CAPSLOCK :: u32 where "CAPSLOCK = 8"
definition NUMLOCK :: u32 where "NUMLOCK = 16"
definition SCROLLLOCK :: u32 where "SCROLLLOCK = 32"
definition E0ESC :: u32 where "E0ESC = 64"

definition shiftcode :: "u8 \<Rightarrow> u32" where
  "shiftcode d = (if d = 0x1D then CTL else if d = 0x2A then SHIFT else if d = 0x36 then SHIFT
     else if d = 0x38 then ALT else if d = 0x9D then CTL else if d = 0xB8 then ALT else 0)"

definition togglecode :: "u8 \<Rightarrow> u32" where
  "togglecode d = (if d = 0x3A then CAPSLOCK else if d = 0x45 then NUMLOCK else if d = 0x46 then SCROLLLOCK else 0)"

abbreviation cs :: "string \<Rightarrow> u8 list" where "cs \<equiv> map of_char"

text \<open>The keys with designators at the end of each table; the key of the keypad with its two entries.\<close>

definition special :: "u8 \<Rightarrow> u8 \<Rightarrow> u8 \<Rightarrow> u8" where
  "special enter slash d =
     (case map_of [(0x9C, enter), (0xB5, slash), (0xC8, 0xE2), (0xD0, 0xE3), (0xC9, 0xE6), (0xD1, 0xE7), (0xCB, 0xE4),
        (0xCD, 0xE5), (0x97, 0xE0), (0xCF, 0xE1), (0xD2, 0xE8), (0xD3, 0xE9)] d of Some c \<Rightarrow> c | None \<Rightarrow> 0)"

definition normal_row :: "u8 list" where
  "normal_row = [0, 0x1B] @ cs ''1234567890-='' @ [8, 9] @ cs ''qwertyuiop[]'' @ [10, 0] @ cs ''asdfghjkl;'' @
     [39, 96, 0, 92] @ cs ''zxcvbnm,./'' @ [0] @ cs ''*'' @ [0] @ cs '' '' @ replicate 13 0 @ cs ''789-456+1230.'' @ replicate 4 0"

definition shift_row :: "u8 list" where
  "shift_row = [0, 27] @ cs ''!@#$%^&*()_+'' @ [8, 9] @ cs ''QWERTYUIOP{}'' @ [10, 0] @ cs ''ASDFGHJKL:'' @
     [34, 126, 0] @ cs ''|ZXCVBNM<>?'' @ [0] @ cs ''*'' @ [0] @ cs '' '' @ replicate 13 0 @ cs ''789-456+1230.'' @ replicate 4 0"

definition ctl :: "char \<Rightarrow> u8" where "ctl c = of_char c - 64"

definition ctl_row :: "u8 list" where
  "ctl_row = replicate 16 0 @ map ctl ''QWERTYUIOP'' @ [0, 0, 13, 0] @ map ctl ''ASDFGHJKL'' @
     [0, 0, 0, 0, 92 - 64] @ map ctl ''ZXCVBNM'' @ [0, 0, 47 - 64, 0, 0]"

definition normalmap :: "u8 \<Rightarrow> u8" where
  "normalmap d = (if unat d < length normal_row then normal_row ! unat d else special 10 47 d)"

definition shiftmap :: "u8 \<Rightarrow> u8" where
  "shiftmap d = (if unat d < length shift_row then shift_row ! unat d else special 10 47 d)"

definition ctlmap :: "u8 \<Rightarrow> u8" where
  "ctlmap d = (if unat d < length ctl_row then ctl_row ! unat d else special 13 (47 - 64) d)"

definition charcode :: "u32 \<Rightarrow> u8 \<Rightarrow> u8" where
  "charcode i = (if i = 0 then normalmap else if i = 1 then shiftmap else ctlmap)"

text \<open>One call: the data of the controller if it has any, the modifiers; the result and the new modifiers.\<close>

definition kbdgetc :: "u8 option \<Rightarrow> u32 \<Rightarrow> int \<times> u32" where
  "kbdgetc inp shift =
     (case inp of
        None \<Rightarrow> (-1, shift)
      | Some data \<Rightarrow>
          if data = 0xE0 then (0, shift OR E0ESC)
          else if data AND 0x80 \<noteq> 0 then
            let data = (if shift AND E0ESC \<noteq> 0 then data else data AND 0x7F)
            in (0, shift AND NOT (shiftcode data OR E0ESC))
          else
            let (data, shift) = (if shift AND E0ESC \<noteq> 0 then (data OR 0x80, shift AND NOT E0ESC) else (data, shift));
                shift = shift OR shiftcode data;
                shift = shift XOR togglecode data;
                c = charcode (shift AND (CTL OR SHIFT)) data;
                c = (if shift AND CAPSLOCK \<noteq> 0 then
                       (if 97 \<le> c \<and> c \<le> 122 then c - 32 else if 65 \<le> c \<and> c \<le> 90 then c + 32 else c) else c)
            in (int (unat c), shift))"

text \<open>The interrupt: all codes that the controller has are given to the console.\<close>

fun kbd_chars :: "u8 list \<Rightarrow> u32 \<Rightarrow> u8 list \<times> u32" where
  "kbd_chars [] shift = ([], shift)"
| "kbd_chars (d # ds) shift =
     (let (c, s1) = kbdgetc (Some d) shift; (cs, s2) = kbd_chars ds s1 in (word_of_int c # cs, s2))"

definition kbdintr :: "u8 list \<Rightarrow> u32 \<Rightarrow> input \<Rightarrow> (input \<times> glyph list \<times> bool) \<times> u32" where
  "kbdintr ds shift s = (let (cs, shift') = kbd_chars ds shift in (consoleintr cs s, shift'))"

section \<open>The modifiers are what is held and locked\<close>

text \<open>The keys pressed and released that the codes stand for; \<open>esc\<close> says that the last code was the prefix.\<close>

fun key_events :: "bool \<Rightarrow> u8 list \<Rightarrow> (bool \<times> u8) list \<times> bool" where
  "key_events esc [] = ([], esc)"
| "key_events esc (d # ds) =
     (if d = 0xE0 then key_events True ds
      else let (evs, esc') = key_events False ds in
        ((if bit d 7 then (False, if esc then d else d AND 0x7F) else (True, if esc then d OR 0x80 else d)) # evs, esc'))"

definition held :: "nat \<Rightarrow> (bool \<times> u8) list \<Rightarrow> bool \<Rightarrow> bool" where
  \<comment> \<open>the last event of a key of this modifier was its press\<close>
  "held i evs h = foldl (\<lambda>h (press, d). if bit (shiftcode d) i then press else h) h evs"

definition locked :: "nat \<Rightarrow> (bool \<times> u8) list \<Rightarrow> bool \<Rightarrow> bool" where
  \<comment> \<open>the key of this lock was pressed an odd number of times\<close>
  "locked i evs h = (h \<noteq> odd (length (filter (\<lambda>(press, d). press \<and> bit (togglecode d) i) evs)))"

lemma bit_of_exp: "w = 2 ^ k \<Longrightarrow> k < 32 \<Longrightarrow> bit (w :: u32) i \<longleftrightarrow> i = k"
  by (auto simp: bit_exp_iff)

lemma code_bits [simp]:
  "bit SHIFT i \<longleftrightarrow> i = 0" "bit CTL i \<longleftrightarrow> i = 1" "bit ALT i \<longleftrightarrow> i = 2" "bit CAPSLOCK i \<longleftrightarrow> i = 3"
  "bit NUMLOCK i \<longleftrightarrow> i = 4" "bit SCROLLLOCK i \<longleftrightarrow> i = 5" "bit E0ESC i \<longleftrightarrow> i = 6"
  unfolding SHIFT_def CTL_def ALT_def CAPSLOCK_def NUMLOCK_def SCROLLLOCK_def E0ESC_def
  by (rule bit_of_exp; simp)+

lemma bit_128: "bit (128 :: int) i \<longleftrightarrow> i = 7"
proof -
  have e: "(128 :: int) = 2 ^ 7" by simp
  show ?thesis unfolding e by (auto simp: bit_exp_iff simp del: power_numeral)
qed

lemma modifier_bits:
  "3 \<le> i \<Longrightarrow> \<not> bit (shiftcode d) i" "i < 3 \<Longrightarrow> \<not> bit (togglecode d) i" "6 \<le> i \<Longrightarrow> \<not> bit (togglecode d) i"
  by (simp_all add: shiftcode_def togglecode_def)

text \<open>One code on the bits of the state.\<close>

definition code_of :: "bool \<Rightarrow> u8 \<Rightarrow> u8" where
  "code_of esc d = (if bit d 7 then (if esc then d else d AND 0x7F) else if esc then d OR 0x80 else d)"

lemma top_bit: "d AND 0x80 \<noteq> 0 \<longleftrightarrow> bit (d :: u8) 7"
proof -
  have "d AND 128 = (if bit d 7 then 128 else 0)"
    by (rule bit_word_eqI) (auto simp: bit_and_iff bit_128)
  then show ?thesis by simp
qed

lemma esc_bit: "s AND E0ESC \<noteq> 0 \<longleftrightarrow> bit (s :: u32) 6"
proof -
  have "s AND E0ESC = (if bit s 6 then E0ESC else 0)"
    by (rule bit_word_eqI) (auto simp: bit_and_iff)
  then show ?thesis by (simp add: E0ESC_def)
qed

lemma kbdgetc_bits:
  assumes "i < 7"
  shows "bit (snd (kbdgetc (Some d) s)) i =
     (if d = 0xE0 then i = 6 \<or> bit s i
      else if i = 6 then False
      else if bit d 7 then bit s i \<and> \<not> bit (shiftcode (code_of (bit s 6) d)) i
      else (bit s i \<or> bit (shiftcode (code_of (bit s 6) d)) i) \<noteq> bit (togglecode (code_of (bit s 6) d)) i)"
  unfolding kbdgetc_def option.case top_bit esc_bit code_of_def
  using assms modifier_bits(1) [of 6] modifier_bits(3) [of 6]
  by (auto simp: Let_def bit_or_iff bit_and_iff bit_xor_iff bit_not_iff)

definition modifier :: "nat \<Rightarrow> (bool \<times> u8) list \<Rightarrow> bool \<Rightarrow> bool" where
  "modifier i evs h = (if i < 3 then held i evs h else locked i evs h)"

lemma modifier_simps [simp]:
  "modifier i [] h = h"
  "modifier i ((press, d) # evs) h = modifier i evs
     (if i < 3 then (if bit (shiftcode d) i then press else h) else (h \<noteq> (press \<and> bit (togglecode d) i)))"
  by (auto simp: modifier_def held_def locked_def)

text \<open>After any scan codes each bit of the modifiers says what the history of the keys says: shift, control
  and alt whether the last event of such a key was its press, the locks whether their key was
  pressed an odd number of times, and the escape bit whether the prefix came last.\<close>

theorem kbd_modifiers:
  assumes "key_events (bit s 6) ds = (evs, esc)"
  shows "i < 6 \<Longrightarrow> bit (snd (kbd_chars ds s)) i = modifier i evs (bit s i)"
    and "bit (snd (kbd_chars ds s)) 6 = esc"
proof -
  have "(\<forall>i < 6. bit (snd (kbd_chars ds s)) i = modifier i evs (bit s i)) \<and> bit (snd (kbd_chars ds s)) 6 = esc"
    using assms
  proof (induction ds arbitrary: s evs)
    case (Cons d ds)
    obtain c s1 where k: "kbdgetc (Some d) s = (c, s1)" by fastforce
    have b: "bit s1 i = (if d = 0xE0 then i = 6 \<or> bit s i
      else if i = 6 then False
      else if bit d 7 then bit s i \<and> \<not> bit (shiftcode (code_of (bit s 6) d)) i
      else (bit s i \<or> bit (shiftcode (code_of (bit s 6) d)) i) \<noteq> bit (togglecode (code_of (bit s 6) d)) i)" if "i < 7" for i
      using kbdgetc_bits [OF that, of d s] by (simp add: k)
    have nxt: "snd (kbd_chars (d # ds) s) = snd (kbd_chars ds s1)" by (simp add: k split: prod.split)
    show ?case
    proof (cases "d = 0xE0")
      case True
      then have "key_events (bit s1 6) ds = (evs, esc)" using Cons.prems b [of 6] by simp
      then show ?thesis using Cons.IH [of s1 evs] b True unfolding nxt by simp
    next
      case False
      obtain evs1 where e: "key_events False ds = (evs1, esc)" "evs = (\<not> bit d 7, code_of (bit s 6) d) # evs1"
        using Cons.prems False by (auto simp: code_of_def split: prod.splits if_splits)
      have "key_events (bit s1 6) ds = (evs1, esc)" using e(1) b [of 6] False by simp
      then have IH: "\<forall>i < 6. bit (snd (kbd_chars ds s1)) i = modifier i evs1 (bit s1 i)" "bit (snd (kbd_chars ds s1)) 6 = esc"
        using Cons.IH by blast+
      have "bit s1 i = (if i < 3 then (if bit (shiftcode (code_of (bit s 6) d)) i then \<not> bit d 7 else bit s i)
          else (bit s i \<noteq> (\<not> bit d 7 \<and> bit (togglecode (code_of (bit s 6) d)) i)))" if "i < 6" for i
        using b [of i] that False modifier_bits [of i "code_of (bit s 6) d"] by (cases "i < 3") auto
      then show ?thesis using IH unfolding nxt e(2) by simp
    qed
  qed simp
  then show "i < 6 \<Longrightarrow> bit (snd (kbd_chars ds s)) i = modifier i evs (bit s i)" "bit (snd (kbd_chars ds s)) 6 = esc"
    by blast+
qed

text \<open>A letter key without control comes out in upper case when exactly one of shift and caps lock is on.\<close>

theorem kbd_letters:
  assumes d: "97 \<le> normalmap d" "normalmap d \<le> 122" and s: "\<not> bit s 6" "\<not> bit s 1"
  shows "fst (kbdgetc (Some d) s) = int (unat (if bit s 0 \<noteq> bit s 3 then normalmap d - 32 else normalmap d))"
proof -
  have row: "unat d < 88 \<Longrightarrow> normalmap d = normal_row ! unat d" "unat d < 88 \<Longrightarrow> shiftmap d = shift_row ! unat d"
    "\<not> unat d < 88 \<Longrightarrow> normalmap d = special 10 47 d"
    by (simp_all add: normalmap_def shiftmap_def normal_row_def shift_row_def)
  have "unat d < 88"
    using d row(3) by (cases "unat d < 88") (auto simp: special_def split: if_splits)
  then have k: "unat d \<in> set [0..<88]" by simp
  have all: "\<forall>k \<in> set [0..<88]. 97 \<le> normal_row ! k \<and> normal_row ! k \<le> 122 \<longrightarrow>
      shift_row ! k = normal_row ! k - 32 \<and> shiftcode (of_nat k) = 0 \<and> togglecode (of_nat k) = 0"
    by code_simp
  have f: "shiftmap d = normalmap d - 32" "shiftcode d = 0" "togglecode d = 0"
    using all [rule_format, OF k] d row \<open>unat d < 88\<close> by simp_all
  have "d < 88" using \<open>unat d < 88\<close> by (simp add: word_less_nat_alt)
  then have e0: "d \<noteq> 0xE0" by (auto simp: word_less_nat_alt)
  have "unat d div 2 ^ 7 = 0" using \<open>unat d < 88\<close> by simp
  then have "\<not> bit (unat d) 7" by (simp add: bit_iff_odd)
  then have b7: "\<not> bit d 7" by (simp add: bit_unsigned_iff)
  have i: "s AND (CTL OR SHIFT) = (if bit s 0 then SHIFT else 0)"
  proof (rule bit_word_eqI)
    fix n
    show "bit (s AND (CTL OR SHIFT)) n = bit (if bit s 0 then SHIFT else 0) n"
      using s(2) by (cases "n = 0"; cases "n = 1") (auto simp: bit_and_iff bit_or_iff)
  qed
  have c: "s AND CAPSLOCK \<noteq> 0 \<longleftrightarrow> bit s 3"
  proof -
    have "s AND CAPSLOCK = (if bit s 3 then CAPSLOCK else 0)"
      by (rule bit_word_eqI) (auto simp: bit_and_iff)
    then show ?thesis by (simp add: CAPSLOCK_def)
  qed
  have up: "65 \<le> normalmap d - 32" "normalmap d - 32 \<le> 90" "\<not> 97 \<le> normalmap d - 32"
  proof -
    have "unat (normalmap d - 32) = unat (normalmap d) - 32"
      using unat_sub [of 32 "normalmap d"] d by (simp add: word_le_nat_alt)
    then show "65 \<le> normalmap d - 32" "normalmap d - 32 \<le> 90" "\<not> 97 \<le> normalmap d - 32"
      using d by (simp_all add: word_le_nat_alt)
  qed
  have cc: "charcode (s AND (CTL OR SHIFT)) = (if bit s 0 then shiftmap else normalmap)"
    unfolding i by (simp add: charcode_def SHIFT_def)
  show ?thesis
    unfolding kbdgetc_def option.case top_bit esc_bit
    using e0 b7 s(1) f d up by (simp add: Let_def cc c)
qed

theorem kbd_letters_witness: "fst (kbdgetc (Some 0x1E) SHIFT) = 65"
proof -
  have n: "normalmap 0x1E = 97" by (simp add: normalmap_def normal_row_def)
  then show ?thesis using kbd_letters [of "0x1E" SHIFT] by simp
qed

end
