(* ===== verification/Boot.thy ===== *)
theory Boot
  imports Exec Cstring
begin

text \<open>
  The boot loader, \<open>kernel/bootmain.c\<close>: it reads the ELF image of the kernel, which starts at sector 1 of the
  disk, into memory and returns the entry point. Memory is a function from 32-bit addresses; the disk
  gives 512 bytes for every sector number. The loop of \<open>readseg\<close> compares addresses that can wrap
  around, so it is partial.
\<close>

definition SECTSIZE :: u32 where "SECTSIZE = 512"

definition write_bytes :: "u32 \<Rightarrow> u8 list \<Rightarrow> cmem \<Rightarrow> cmem" where
  "write_bytes a bs m = (\<lambda>x. if unat (x - a) < length bs then bs ! unat (x - a) else m x)"

definition read_bytes :: "u32 \<Rightarrow> nat \<Rightarrow> cmem \<Rightarrow> u8 list" where
  "read_bytes a n m = map (\<lambda>i. m (a + of_nat i)) [0..<n]"

text \<open>What the controller gets: the count, the four bytes of the address and the command.\<close>

definition readsect_out :: "u32 \<Rightarrow> (nat \<times> u8) list" where
  "readsect_out offset =
     [(0x1F2, 1), (0x1F3, ucast offset), (0x1F4, ucast (drop_bit 8 offset)), (0x1F5, ucast (drop_bit 16 offset)),
      (0x1F6, ucast (drop_bit 24 offset) OR 0xE0), (0x1F7, 0x20)]"

definition readsect :: "(u32 \<Rightarrow> u8 list) \<Rightarrow> u32 \<Rightarrow> u32 \<Rightarrow> cmem \<Rightarrow> cmem" where
  "readsect disk dst offset m = write_bytes dst (take 512 (disk (offset AND 0x0FFFFFFF))) m"

partial_function (option) readseg_loop :: "(u32 \<Rightarrow> u8 list) \<Rightarrow> u32 \<Rightarrow> u32 \<Rightarrow> u32 \<Rightarrow> cmem \<Rightarrow> cmem option" where
  "readseg_loop disk va eva offset m =
     (if va < eva then readseg_loop disk (va + SECTSIZE) eva (offset + 1) (readsect disk va offset m) else Some m)"

definition readseg :: "(u32 \<Rightarrow> u8 list) \<Rightarrow> u32 \<Rightarrow> u32 \<Rightarrow> u32 \<Rightarrow> cmem \<Rightarrow> cmem option" where
  "readseg disk va count offset m =
     readseg_loop disk (va - offset mod SECTSIZE) (va + count) (offset div SECTSIZE + 1) m"

definition load_segment :: "(u32 \<Rightarrow> u8 list) \<Rightarrow> proghdr \<Rightarrow> cmem \<Rightarrow> cmem option" where
  "load_segment disk ph m =
     (case readseg disk (ph_va ph) (ph_filesz ph) (ph_offset ph) m of
        None \<Rightarrow> None
      | Some m1 \<Rightarrow> Some (if ph_memsz ph > ph_filesz ph
          then memset (ph_va ph + ph_filesz ph) 0 (ph_memsz ph - ph_filesz ph) m1 else m1))"

fun load_all :: "(u32 \<Rightarrow> u8 list) \<Rightarrow> nat \<Rightarrow> u32 \<Rightarrow> cmem \<Rightarrow> cmem option" where
  "load_all disk 0 ph m = Some m"
| "load_all disk (Suc n) ph m =
     (case load_segment disk (get_proghdr (read_bytes ph 32 m)) m of
        None \<Rightarrow> None | Some m1 \<Rightarrow> load_all disk n (ph + 32) m1)"

text \<open>The entry point, or \<open>Some None\<close> when \<open>bootmain\<close> returns; the program headers are read from memory.\<close>

definition bootmain :: "(u32 \<Rightarrow> u8 list) \<Rightarrow> cmem \<Rightarrow> (u32 option \<times> cmem) option" where
  "bootmain disk m =
     (case readseg disk 0x10000 4096 0 m of
        None \<Rightarrow> None
      | Some m1 \<Rightarrow>
          let elf = get_elfhdr (read_bytes 0x10000 52 m1) in
          if elf_magic elf \<noteq> ELF_MAGIC then Some (None, m1)
          else case load_all disk (unat (elf_phnum elf)) (0x10000 + elf_phoff elf) m1 of
            None \<Rightarrow> None
          | Some m2 \<Rightarrow> Some (Some (ld32 (read_bytes (0x10000 + 24) 4 m2) 0), m2))"

section \<open>Reading a segment\<close>

definition kernel_byte :: "(u32 \<Rightarrow> u8 list) \<Rightarrow> nat \<Rightarrow> u8" where
  \<comment> \<open>the kernel image on the disk\<close>
  "kernel_byte disk i = disk (of_nat (i div 512 + 1)) ! (i mod 512)"

lemma unat_diff_lt: "unat (x - a :: u32) < n \<longleftrightarrow> unat a \<le> unat x \<and> unat x < unat a + n"
  if "unat a + n \<le> 2 ^ 32"
proof (cases "a \<le> x")
  case True
  then show ?thesis by (auto simp: unat_sub word_le_nat_alt)
next
  case False
  then have lt: "unat x < unat a" by (simp add: word_le_nat_alt)
  have "unat (x - a) = 2 ^ 32 + unat x - unat a"
    using False by (simp add: unat_sub_if_size word_size word_le_nat_alt)
  then show ?thesis using that lt by auto
qed

lemma readseg_loop_ok:
  assumes disk: "\<And>s. length (disk s) = 512" and lim: "unat offset + n < 2 ^ 28" "unat va + 512 * n < 2 ^ 32"
    and n: "n = (unat eva - unat va + 511) div 512"
  shows "\<exists>m'. readseg_loop disk va eva offset m = Some m' \<and>
    (\<forall>x. m' x = (if unat va \<le> unat x \<and> unat x < unat va + 512 * n
       then disk (offset + of_nat ((unat x - unat va) div 512)) ! ((unat x - unat va) mod 512) else m x))"
  using lim n
proof (induction n arbitrary: va offset m)
  case 0
  have "unat eva \<le> unat va"
  proof (rule ccontr)
    assume "\<not> unat eva \<le> unat va"
    then have "512 \<le> unat eva - unat va + 511" by simp
    then have "1 \<le> (unat eva - unat va + 511) div 512" by (simp add: less_eq_div_iff_mult_less_eq)
    then show False using 0(3) by simp
  qed
  then have "readseg_loop disk va eva offset m = Some m" by (simp add: readseg_loop.simps word_less_nat_alt)
  then show ?case by auto
next
  case (Suc n)
  have lt: "unat va < unat eva"
  proof (rule ccontr)
    assume "\<not> unat va < unat eva"
    then have "(unat eva - unat va + 511) div 512 = 0" by simp
    then show False using Suc.prems(3) by simp
  qed
  have uo: "unat (offset + 1) = unat offset + 1" and uv: "unat (va + SECTSIZE) = unat va + 512"
    using Suc.prems(1,2) by (simp_all add: unat_word_ariths SECTSIZE_def)
  have small: "offset AND 0x0FFFFFFF = offset"
  proof -
    have "offset AND mask 28 = take_bit 28 offset" by (simp add: take_bit_eq_mask)
    also have "\<dots> = offset"
      using Suc.prems(1) by (simp add: word_unat_eq_iff unsigned_take_bit_eq take_bit_nat_eq_self)
    finally show ?thesis by (simp add: mask_eq_exp_minus_1)
  qed
  have n': "n = (unat eva - unat (va + SECTSIZE) + 511) div 512"
  proof (cases "unat eva - unat va \<le> 512")
    case True
    then have "(unat eva - unat va + 511) div 512 \<le> 1023 div 512" by (intro div_le_mono) simp
    then have "n = 0" using Suc.prems(3) by simp
    then show ?thesis using True by (simp add: uv)
  next
    case False
    then have "unat eva - unat va + 511 = 512 + (unat eva - (unat va + 512) + 511)" by simp
    then show ?thesis using Suc.prems(3) by (simp add: uv)
  qed
  let ?m = "readsect disk va offset m"
  have p: "unat (offset + 1) + n < 2 ^ 28" "unat (va + SECTSIZE) + 512 * n < 2 ^ 32"
    using Suc.prems(1,2) by (simp_all add: uo uv)
  obtain m' where m': "readseg_loop disk (va + SECTSIZE) eva (offset + 1) ?m = Some m'"
    "\<forall>x. m' x = (if unat va + 512 \<le> unat x \<and> unat x < unat va + 512 + 512 * n
       then disk (offset + 1 + of_nat ((unat x - (unat va + 512)) div 512)) ! ((unat x - (unat va + 512)) mod 512) else ?m x)"
    using Suc.IH [OF p n', of ?m] unfolding uv by blast
  have "readseg_loop disk va eva offset m = Some m'"
    using m'(1) lt by (simp add: readseg_loop.simps [of disk va] word_less_nat_alt)
  moreover have "m' x = (if unat va \<le> unat x \<and> unat x < unat va + 512 * Suc n
       then disk (offset + of_nat ((unat x - unat va) div 512)) ! ((unat x - unat va) mod 512) else m x)" for x
  proof (cases "unat va + 512 \<le> unat x")
    case True
    let ?y = "unat x - (unat va + 512)"
    have y: "unat x - unat va = 512 + ?y" using True by simp
    have q: "(512 + ?y) div 512 = Suc (?y div 512)" "(512 + ?y) mod 512 = ?y mod 512" by simp_all
    have "?m x = m x" using True Suc.prems(2) disk unat_diff_lt [of va 512 x]
      by (auto simp: readsect_def write_bytes_def)
    then show ?thesis using m'(2) True unfolding y q by (simp add: add.assoc)
  next
    case False
    have w: "unat (x - va) < 512 \<longleftrightarrow> unat va \<le> unat x"
      using False unat_diff_lt [of va 512 x] Suc.prems(2) by auto
    have "unat va \<le> unat x \<Longrightarrow> unat (x - va) = unat x - unat va" by (simp add: unat_sub word_le_nat_alt)
    then show ?thesis using m'(2) False w disk by (auto simp: readsect_def write_bytes_def small)
  qed
  ultimately show ?case by blast
qed

definition seg_low :: "proghdr \<Rightarrow> nat" where
  "seg_low ph = unat (ph_va ph) - unat (ph_offset ph) mod 512"

definition seg_high :: "proghdr \<Rightarrow> nat" where
  \<comment> \<open>the end of the last sector read, or of the zeroes behind the file's bytes\<close>
  "seg_high ph = max (unat (ph_va ph) + unat (ph_memsz ph))
     (seg_low ph + 512 * ((unat (ph_va ph) + unat (ph_filesz ph) - seg_low ph + 511) div 512))"

definition seg_fits :: "proghdr \<Rightarrow> bool" where
  "seg_fits ph \<longleftrightarrow> unat (ph_offset ph) mod 512 \<le> unat (ph_va ph) \<and> seg_high ph < 2 ^ 32"

definition seg_loaded :: "(u32 \<Rightarrow> u8 list) \<Rightarrow> proghdr \<Rightarrow> cmem \<Rightarrow> bool" where
  "seg_loaded disk ph m \<longleftrightarrow> (\<forall>x. unat (ph_va ph) \<le> unat x \<longrightarrow>
     (unat x < unat (ph_va ph) + unat (ph_filesz ph) \<longrightarrow>
        m x = kernel_byte disk (unat (ph_offset ph) + (unat x - unat (ph_va ph)))) \<and>
     (unat (ph_va ph) + unat (ph_filesz ph) \<le> unat x \<and> unat x < unat (ph_va ph) + unat (ph_memsz ph) \<longrightarrow> m x = 0))"

text \<open>A segment whose sectors lie inside the address space is loaded: the bytes of the file, then zeroes up to
  its size in memory. Only the bytes of its sectors change.\<close>

theorem load_segment_ok:
  assumes disk: "\<And>s. length (disk s) = 512" and fits: "seg_fits ph"
  shows "\<exists>m'. load_segment disk ph m = Some m' \<and> seg_loaded disk ph m' \<and>
    (\<forall>x. unat x < seg_low ph \<or> seg_high ph \<le> unat x \<longrightarrow> m' x = m x)"
proof -
  let ?va = "unat (ph_va ph)" and ?off = "unat (ph_offset ph)" and ?fs = "unat (ph_filesz ph)" and ?ms = "unat (ph_memsz ph)"
  let ?lo = "seg_low ph" and ?n = "(unat (ph_va ph) + unat (ph_filesz ph) - seg_low ph + 511) div 512"
  have f: "?off mod 512 \<le> ?va" "?va + ?ms < 2 ^ 32" "?lo + 512 * ?n < 2 ^ 32"
    using fits by (auto simp: seg_fits_def seg_high_def)
  have om: "unat (ph_offset ph mod SECTSIZE) = ?off mod 512" by (simp add: SECTSIZE_def unat_mod)
  have lo: "unat (ph_va ph - ph_offset ph mod SECTSIZE) = ?lo"
    using f(1) unat_sub [of "ph_offset ph mod SECTSIZE" "ph_va ph"] by (simp add: seg_low_def om word_le_nat_alt)
  have lv: "?lo + ?off mod 512 = ?va" using f(1) by (simp add: seg_low_def)
  have le: "?va + ?fs \<le> ?lo + 512 * ?n"
    using mult_div_mod_eq [of 512 "?va + ?fs - ?lo + 511"] mod_less_divisor [of 512 "?va + ?fs - ?lo + 511"] lv by linarith
  have eva: "unat (ph_va ph + ph_filesz ph) = ?va + ?fs" using le f(3) by (simp add: unat_word_ariths)
  have sec: "unat (ph_offset ph div SECTSIZE + 1) = ?off div 512 + 1"
  proof -
    have "?off < 2 ^ 32" using unsigned_less [of "ph_offset ph"] by simp
    then have "?off div 512 < 2 ^ 23" by (simp add: div_less_iff_less_mult)
    then show ?thesis by (simp add: SECTSIZE_def unat_word_ariths unat_div)
  qed
  have l1: "unat (ph_offset ph div SECTSIZE + 1) + ?n < 2 ^ 28"
  proof -
    have "?off < 2 ^ 32" using unsigned_less [of "ph_offset ph"] by simp
    then have "?off div 512 < 2 ^ 23" by (simp add: div_less_iff_less_mult)
    moreover have "512 * ?n < 2 ^ 32" using f(3) by linarith
    ultimately show ?thesis unfolding sec by simp
  qed
  obtain m1 where m1: "readseg disk (ph_va ph) (ph_filesz ph) (ph_offset ph) m = Some m1"
    "\<forall>x. m1 x = (if ?lo \<le> unat x \<and> unat x < ?lo + 512 * ?n
       then disk (ph_offset ph div SECTSIZE + 1 + of_nat ((unat x - ?lo) div 512)) ! ((unat x - ?lo) mod 512) else m x)"
    using readseg_loop_ok [where disk = disk and m = m, OF disk l1, of "ph_va ph - ph_offset ph mod SECTSIZE" "ph_va ph + ph_filesz ph"] f(3)
    unfolding readseg_def lo eva by auto
  have kb: "m1 x = kernel_byte disk (?off + (unat x - ?va))" if "?va \<le> unat x" "unat x < ?va + ?fs" for x
  proof -
    have y: "unat x - ?lo = ?off mod 512 + (unat x - ?va)" using that(1) lv by linarith
    have e: "?off + (unat x - ?va) = 512 * (?off div 512) + (unat x - ?lo)" unfolding y by simp
    have d: "(?off + (unat x - ?va)) div 512 = ?off div 512 + (unat x - ?lo) div 512"
      "(?off + (unat x - ?va)) mod 512 = (unat x - ?lo) mod 512" unfolding e by simp_all
    have "of_nat (?off div 512 + 1) = (of_nat (unat (ph_offset ph div SECTSIZE + 1)) :: u32)" by (simp only: sec)
    also have "\<dots> = ph_offset ph div SECTSIZE + 1" by (simp only: of_nat_unat ucast_id)
    finally have w: "of_nat (?off div 512 + (unat x - ?lo) div 512 + 1) =
        ph_offset ph div SECTSIZE + 1 + of_nat ((unat x - ?lo) div 512)" by (simp add: algebra_simps)
    have "?lo \<le> unat x" "unat x < ?lo + 512 * ?n" using that lv le by linarith+
    then show ?thesis using m1(2) unfolding kernel_byte_def d w by simp
  qed
  have out: "m1 x = m x" if "unat x < ?lo \<or> seg_high ph \<le> unat x" for x
    using m1(2) that by (auto simp: seg_high_def)
  define m2 where "m2 = (if ph_memsz ph > ph_filesz ph
      then memset (ph_va ph + ph_filesz ph) 0 (ph_memsz ph - ph_filesz ph) m1 else m1)"
  have m2: "m2 x = (if ?va + ?fs \<le> unat x \<and> unat x < ?va + ?ms then 0 else m1 x)" for x
  proof (cases "ph_memsz ph > ph_filesz ph")
    case True
    then have t: "?fs < ?ms" "unat (ph_memsz ph - ph_filesz ph) = ?ms - ?fs"
      by (simp_all add: word_less_nat_alt unat_sub word_le_nat_alt)
    have "x - (ph_va ph + ph_filesz ph) < ph_memsz ph - ph_filesz ph \<longleftrightarrow> ?va + ?fs \<le> unat x \<and> unat x < ?va + ?fs + (?ms - ?fs)"
      using unat_diff_lt [of "ph_va ph + ph_filesz ph" "?ms - ?fs" x] f(2) t by (simp add: word_less_nat_alt eva)
    then show ?thesis using True t by (auto simp: m2_def memset_def)
  next
    case False
    then show ?thesis by (auto simp: m2_def word_less_nat_alt)
  qed
  have "load_segment disk ph m = Some m2" by (simp add: load_segment_def m1(1) m2_def)
  moreover have "seg_loaded disk ph m2" using kb m2 by (auto simp: seg_loaded_def)
  moreover have "m2 x = m x" if "unat x < ?lo \<or> seg_high ph \<le> unat x" for x
    using out [OF that] that lv by (auto simp: m2 seg_high_def)
  ultimately show ?thesis by blast
qed

section \<open>Booting\<close>

definition kbytes :: "(u32 \<Rightarrow> u8 list) \<Rightarrow> nat \<Rightarrow> nat \<Rightarrow> u8 list" where
  "kbytes disk a n = map (\<lambda>i. kernel_byte disk (a + i)) [0..<n]"

definition elf_of :: "(u32 \<Rightarrow> u8 list) \<Rightarrow> elfhdr" where
  "elf_of disk = get_elfhdr (kbytes disk 0 52)"

definition headers :: "(u32 \<Rightarrow> u8 list) \<Rightarrow> proghdr list" where
  "headers disk = map (\<lambda>i. get_proghdr (kbytes disk (unat (elf_phoff (elf_of disk)) + 32 * i) 32))
     [0..<unat (elf_phnum (elf_of disk))]"

definition page_read :: "(u32 \<Rightarrow> u8 list) \<Rightarrow> cmem \<Rightarrow> bool" where
  \<comment> \<open>the first page of the image is at the scratch address\<close>
  "page_read disk m \<longleftrightarrow> (\<forall>x. 0x10000 \<le> unat x \<and> unat x < 0x11000 \<longrightarrow> m x = kernel_byte disk (unat x - 0x10000))"

lemma page_bytes:
  assumes "page_read disk m" "a + n \<le> 4096"
  shows "read_bytes (0x10000 + of_nat a) n m = kbytes disk a n"
proof -
  have "m (0x10000 + of_nat a + of_nat i) = kernel_byte disk (a + i)" if "i < n" for i
  proof -
    have "unat (of_nat (a + i) :: u32) = a + i" using that assms(2) by (intro unat_of_nat_small) simp
    then have u: "unat (0x10000 + of_nat (a + i) :: u32) = 0x10000 + (a + i)"
      using that assms(2) by (simp add: unat_word_ariths del: of_nat_add)
    have "m (0x10000 + of_nat (a + i)) = kernel_byte disk (a + i)"
      using assms(1) [unfolded page_read_def, rule_format, of "0x10000 + of_nat (a + i)"] that assms(2) unfolding u by simp
    then show ?thesis by (simp add: add.assoc)
  qed
  then show ?thesis by (simp add: read_bytes_def kbytes_def)
qed

lemma seg_loaded_keep:
  assumes "seg_loaded disk ph m" "\<And>x. seg_low ph \<le> unat x \<Longrightarrow> unat x < seg_high ph \<Longrightarrow> m' x = m x"
  shows "seg_loaded disk ph m'"
proof -
  have low: "seg_low ph \<le> unat (ph_va ph)" by (simp add: seg_low_def)
  let ?e = "unat (ph_va ph) + unat (ph_filesz ph)"
  have "?e \<le> seg_low ph + 512 * ((?e - seg_low ph + 511) div 512)"
    using mult_div_mod_eq [of 512 "?e - seg_low ph + 511"] mod_less_divisor [of 512 "?e - seg_low ph + 511"] low by linarith
  then have "?e \<le> seg_high ph" "unat (ph_va ph) + unat (ph_memsz ph) \<le> seg_high ph" by (simp_all add: seg_high_def)
  then have "m' x = m x" if "unat (ph_va ph) \<le> unat x" "unat x < ?e \<or> unat x < unat (ph_va ph) + unat (ph_memsz ph)" for x
    using that low by (intro assms(2)) auto
  then show ?thesis using assms(1) unfolding seg_loaded_def by simp
qed

lemma load_all_ok:
  assumes disk: "\<And>s. length (disk s) = 512"
  shows "phs = map (\<lambda>i. get_proghdr (kbytes disk (a + 32 * i) 32)) [0..<n] \<Longrightarrow> a + 32 * n \<le> 4096 \<Longrightarrow> page_read disk m \<Longrightarrow>
    \<forall>ph \<in> set phs. seg_fits ph \<and> (0x11000 \<le> seg_low ph \<or> seg_high ph \<le> 0x10000) \<Longrightarrow>
    sorted_wrt (\<lambda>p q. seg_high p \<le> seg_low q \<or> seg_high q \<le> seg_low p) phs \<Longrightarrow>
    \<exists>m'. load_all disk n (0x10000 + of_nat a) m = Some m' \<and> page_read disk m' \<and> (\<forall>ph \<in> set phs. seg_loaded disk ph m') \<and>
      (\<forall>x. (\<forall>ph \<in> set phs. unat x < seg_low ph \<or> seg_high ph \<le> unat x) \<longrightarrow> m' x = m x)"
proof (induction n arbitrary: a m phs)
  case (Suc n)
  let ?ph = "get_proghdr (kbytes disk a 32)"
  define rest where "rest = map (\<lambda>i. get_proghdr (kbytes disk (a + 32 + 32 * i) 32)) [0..<n]"
  have "[0..<Suc n] = 0 # map Suc [0..<n]" by (simp add: map_Suc_upt upt_conv_Cons)
  then have phs: "phs = ?ph # rest" using Suc.prems(1) by (simp add: rest_def add.assoc del: upt_Suc)
  have hd: "get_proghdr (read_bytes (0x10000 + of_nat a) 32 m) = ?ph"
    using page_bytes [OF Suc.prems(3), of a 32] Suc.prems(2) by simp
  have f: "seg_fits ?ph" "0x11000 \<le> seg_low ?ph \<or> seg_high ?ph \<le> 0x10000" using Suc.prems(4) by (simp_all add: phs)
  obtain m1 where m1: "load_segment disk ?ph m = Some m1" "seg_loaded disk ?ph m1"
    "\<And>x. unat x < seg_low ?ph \<or> seg_high ?ph \<le> unat x \<Longrightarrow> m1 x = m x"
    using load_segment_ok [of disk, OF disk f(1), of m] by blast
  have page: "page_read disk m1"
    using Suc.prems(3) m1(3) f(2) unfolding page_read_def by auto
  have "a + 32 + 32 * n \<le> 4096" "\<forall>ph \<in> set rest. seg_fits ph \<and> (0x11000 \<le> seg_low ph \<or> seg_high ph \<le> 0x10000)"
    "sorted_wrt (\<lambda>p q. seg_high p \<le> seg_low q \<or> seg_high q \<le> seg_low p) rest"
    using Suc.prems(2,4,5) by (simp_all add: phs)
  from Suc.IH [OF rest_def this(1) page this(2,3)] obtain m' where
    m': "load_all disk n (0x10000 + of_nat (a + 32)) m1 = Some m'" "page_read disk m'" "\<forall>ph \<in> set rest. seg_loaded disk ph m'"
    "\<And>x. \<forall>ph \<in> set rest. unat x < seg_low ph \<or> seg_high ph \<le> unat x \<Longrightarrow> m' x = m1 x"
    by blast
  have "seg_loaded disk ?ph m'"
  proof (rule seg_loaded_keep [OF m1(2)])
    fix x :: u32 assume x: "seg_low ?ph \<le> unat x" "unat x < seg_high ?ph"
    have "unat x < seg_low ph \<or> seg_high ph \<le> unat x" if "ph \<in> set rest" for ph
      using Suc.prems(5) that x by (auto simp: phs)
    then show "m' x = m1 x" by (intro m'(4)) blast
  qed
  moreover have "load_all disk (Suc n) (0x10000 + of_nat a) m = Some m'"
    unfolding load_all.simps hd m1(1) option.case using m'(1) by (simp add: algebra_simps)
  moreover have "m' x = m x" if "\<forall>ph \<in> set phs. unat x < seg_low ph \<or> seg_high ph \<le> unat x" for x
    using that m'(4) [of x] m1(3) [of x] by (simp add: phs)
  ultimately show ?case using m'(2,3) by (auto simp: phs)
qed simp

text \<open>C39: The boot loader ends and jumps to the kernel's entry point with every segment of the kernel in
  memory, its bytes from the disk and then zeroes up to its size, whatever memory held before. This needs the program headers
  in the first page, and segments whose whole sectors overlap neither each other nor the scratch page.\<close>

theorem boot_loads_kernel:
  assumes disk: "\<And>s. length (disk s) = 512" and magic: "elf_magic (elf_of disk) = ELF_MAGIC"
    and hd: "unat (elf_phoff (elf_of disk)) + 32 * unat (elf_phnum (elf_of disk)) \<le> 4096"
    and segs: "\<forall>ph \<in> set (headers disk). seg_fits ph \<and> (0x11000 \<le> seg_low ph \<or> seg_high ph \<le> 0x10000)"
    and apart: "sorted_wrt (\<lambda>p q. seg_high p \<le> seg_low q \<or> seg_high q \<le> seg_low p) (headers disk)"
  shows "\<exists>m'. bootmain disk m = Some (Some (elf_entry (elf_of disk)), m') \<and>
    (\<forall>ph \<in> set (headers disk). seg_loaded disk ph m')"
proof -
  let ?p = "\<lparr>ph_type = 0, ph_offset = 0, ph_va = 0x10000, ph_filesz = 4096, ph_memsz = 0\<rparr>"
  have "seg_fits ?p" by (simp add: seg_fits_def seg_high_def seg_low_def)
  from load_segment_ok [of disk, OF disk this, of m] obtain m1 where
    m1: "readseg disk 0x10000 4096 0 m = Some m1" "seg_loaded disk ?p m1"
    by (auto simp: load_segment_def split: option.splits)
  have page: "page_read disk m1"
    using m1(2) by (simp add: page_read_def seg_loaded_def)
  let ?a = "unat (elf_phoff (elf_of disk))"
  have "read_bytes (0x10000 + of_nat 0) 52 m1 = kbytes disk 0 52" by (rule page_bytes [OF page]) simp
  then have elf: "get_elfhdr (read_bytes 0x10000 52 m1) = elf_of disk" by (simp add: elf_of_def)
  from load_all_ok [of disk, OF disk headers_def hd page segs apart] obtain m2 where
    m2: "load_all disk (unat (elf_phnum (elf_of disk))) (0x10000 + of_nat ?a) m1 = Some m2" "page_read disk m2"
    "\<forall>ph \<in> set (headers disk). seg_loaded disk ph m2" by blast
  have "read_bytes (0x10000 + of_nat 24) 4 m2 = kbytes disk 24 4" by (rule page_bytes [OF m2(2)]) simp
  then have "ld32 (read_bytes (0x10000 + 24) 4 m2) 0 = elf_entry (elf_of disk)"
    by (simp add: elf_of_def get_elfhdr_def kbytes_def ld32_def)
  then show ?thesis using m1(1) m2(1,3) magic by (simp add: bootmain_def elf)
qed

text \<open>A kernel with one segment of one byte and three zeroes at address \<open>0x100000\<close>.\<close>

definition tiny_kernel :: "u32 \<Rightarrow> u8 list" where
  "tiny_kernel s = (if s = 1 then
      [127, 69, 76, 70] @ replicate 20 0 @ [0, 0, 16, 0, 52, 0, 0, 0] @ replicate 12 0 @ [1, 0] @ replicate 6 0 @
      [1, 0, 0, 0, 0, 2, 0, 0, 0, 0, 16, 0, 0, 0, 0, 0, 1, 0, 0, 0, 4, 0, 0, 0] @ replicate 436 0
    else 7 # replicate 511 0)"

theorem boot_loads_kernel_witness:
  "\<exists>m'. bootmain tiny_kernel (\<lambda>_. 9) = Some (Some 0x100000, m') \<and> m' 0x100000 = 7 \<and> m' 0x100003 = 0"
proof -
  have len: "length (tiny_kernel s) = 512" for s by (simp add: tiny_kernel_def)
  have kb: "kernel_byte tiny_kernel i = tiny_kernel 1 ! i" if "i < 512" for i
    using that by (simp add: kernel_byte_def)
  have elf: "elf_of tiny_kernel = \<lparr>elf_magic = ELF_MAGIC, elf_entry = 0x100000, elf_phoff = 52, elf_phnum = 1\<rparr>"
    by (simp add: elf_of_def get_elfhdr_def kbytes_def ld32_def ld16_def kb ELF_MAGIC_def tiny_kernel_def nth_append)
  have hd: "headers tiny_kernel =
      [\<lparr>ph_type = 1, ph_offset = 512, ph_va = 0x100000, ph_filesz = 1, ph_memsz = 4\<rparr>]"
    by (simp add: headers_def elf get_proghdr_def kbytes_def ld32_def kb tiny_kernel_def nth_append)
  obtain m' where m': "bootmain tiny_kernel (\<lambda>_. 9) = Some (Some 0x100000, m')"
    "seg_loaded tiny_kernel \<lparr>ph_type = 1, ph_offset = 512, ph_va = 0x100000, ph_filesz = 1, ph_memsz = 4\<rparr> m'"
    using boot_loads_kernel [of tiny_kernel "\<lambda>_. 9", OF len]
    by (auto simp: elf hd seg_fits_def seg_low_def seg_high_def)
  then have "m' 0x100000 = 7" "m' 0x100003 = 0"
    by (auto simp: seg_loaded_def kernel_byte_def tiny_kernel_def)
  then show ?thesis using m'(1) by blast
qed

end
