(* ===== verification/Mp.thy ===== *)
theory Mp
  imports Bytes Cstring
begin

text \<open>
  Finding the processors, \<open>kernel/mp.c\<close>: the search of memory for the floating pointer structure of the BIOS,
  the checks of the configuration table, and the walk over its entries. The walk is partial: on an entry
  of an unknown type it never ends. Byte sums are taken modulo 256.
\<close>

definition NCPU :: nat where "NCPU = 8"
definition MPPROC :: u8 where "MPPROC = 0"
definition MPBUS :: u8 where "MPBUS = 1"
definition MPIOAPIC :: u8 where "MPIOAPIC = 2"
definition MPIOINTR :: u8 where "MPIOINTR = 3"
definition MPLINTR :: u8 where "MPLINTR = 4"
definition MPBOOT :: u8 where "MPBOOT = 2"

definition mem_bytes :: "cmem \<Rightarrow> u32 \<Rightarrow> nat \<Rightarrow> u8 list" where
  "mem_bytes m a n = map (\<lambda>i. m (a + of_nat i)) [0..<n]"

definition sum :: "cmem \<Rightarrow> u32 \<Rightarrow> nat \<Rightarrow> u8" where
  "sum m addr len = sum_list (mem_bytes m addr len)"

definition sig :: "cmem \<Rightarrow> u32 \<Rightarrow> string \<Rightarrow> bool" where
  "sig m p s \<longleftrightarrow> memcmp 4 (cptr_of m p) (\<lambda>i. of_char (s ! i)) = 0"

text \<open>The loop takes \<open>n\<close> steps of 16 bytes; 0 is the null pointer. When the end of the range wraps around
  to an address not above its start there is no step.\<close>

fun mpsearch_loop :: "nat \<Rightarrow> u32 \<Rightarrow> cmem \<Rightarrow> u32" where
  "mpsearch_loop 0 p m = 0"
| "mpsearch_loop (Suc n) p m =
     (if sig m p ''_MP_'' \<and> sum m p 16 = 0 then p else mpsearch_loop n (p + 16) m)"

definition mpsearch1 :: "u32 \<Rightarrow> nat \<Rightarrow> cmem \<Rightarrow> u32" where
  "mpsearch1 addr len m = mpsearch_loop (if addr < addr + of_nat len then (len + 15) div 16 else 0) addr m"

definition mpsearch :: "cmem \<Rightarrow> u32" where
  "mpsearch m =
     (let p = push_bit 4 (push_bit 8 (ucast (m 0x40F)) OR ucast (m 0x40E)) in
      if p \<noteq> 0 then
        let q = mpsearch1 p 1024 m in if q \<noteq> 0 then q else mpsearch1 0xF0000 0x10000 m
      else
        let p = (push_bit 8 (ucast (m 0x414)) OR ucast (m 0x413)) * 1024; q = mpsearch1 (p - 1024) 1024 m in
        if q \<noteq> 0 then q else mpsearch1 0xF0000 0x10000 m)"

abbreviation word_at :: "cmem \<Rightarrow> u32 \<Rightarrow> u32" where "word_at m a \<equiv> ld32 (mem_bytes m a 4) 0"
abbreviation half_at :: "cmem \<Rightarrow> u32 \<Rightarrow> u16" where "half_at m a \<equiv> ld16 (mem_bytes m a 2) 0"

text \<open>The pointer structure and the configuration table.\<close>

definition mpconfig :: "cmem \<Rightarrow> (u32 \<times> u32) option" where
  "mpconfig m =
     (let mp = mpsearch m in
      if mp = 0 \<or> word_at m (mp + 4) = 0 then None
      else let conf = word_at m (mp + 4) in
      if \<not> sig m conf ''PCMP'' then None
      else if m (conf + 6) \<noteq> 1 \<and> m (conf + 6) \<noteq> 4 then None
      else if sum m conf (unat (half_at m (conf + 4))) \<noteq> 0 then None
      else Some (mp, conf))"

record mpstate =
  cpu_id :: "nat \<Rightarrow> u8"
  bcpu :: nat
  ismp :: bool
  ncpu :: nat
  ioapicid :: u8
  mlapic :: u32

definition mpproc_entry :: "u8 \<Rightarrow> u8 \<Rightarrow> mpstate \<Rightarrow> mpstate result" where
  "mpproc_entry apicid flags s =
     (let s1 = (if ncpu s \<noteq> unat apicid then s\<lparr>ismp := False\<rparr> else s);
          s2 = (if flags AND MPBOOT \<noteq> 0 then s1\<lparr>bcpu := ncpu s1\<rparr> else s1) in
      if ncpu s2 \<ge> NCPU then Inl (OutOfBounds ''cpus'')
      else Inr (s2\<lparr>cpu_id := (cpu_id s2)(ncpu s2 := of_nat (ncpu s2)), ncpu := ncpu s2 + 1\<rparr>))"

partial_function (option) mp_entries :: "cmem \<Rightarrow> u32 \<Rightarrow> u32 \<Rightarrow> mpstate \<Rightarrow> mpstate result option" where
  "mp_entries m p e s =
     (if p < e then
        if m p = MPPROC then
          (case mpproc_entry (m (p + 1)) (m (p + 3)) s of
             Inl x \<Rightarrow> Some (Inl x) | Inr s1 \<Rightarrow> mp_entries m (p + 20) e s1)
        else if m p = MPIOAPIC then mp_entries m (p + 8) e (s\<lparr>ioapicid := m (p + 1)\<rparr>)
        else if m p = MPBUS \<or> m p = MPIOINTR \<or> m p = MPLINTR then mp_entries m (p + 8) e s
        else mp_entries m p e (s\<lparr>ismp := False\<rparr>)
      else Some (Inr s))"

text \<open>The flag of the result says whether the interrupt mode register is written at the end.\<close>

definition mpinit :: "cmem \<Rightarrow> mpstate \<Rightarrow> (mpstate \<times> bool) result option" where
  "mpinit m s0 =
     (let s = s0\<lparr>bcpu := 0\<rparr> in
      case mpconfig m of
        None \<Rightarrow> Some (Inr (s, False))
      | Some (mp, conf) \<Rightarrow>
          (case mp_entries m (conf + 44) (conf + ucast (half_at m (conf + 4)))
                  (s\<lparr>ismp := True, mlapic := word_at m (conf + 36)\<rparr>) of
             None \<Rightarrow> None
           | Some (Inl x) \<Rightarrow> Some (Inl x)
           | Some (Inr s1) \<Rightarrow>
               if \<not> ismp s1 then Some (Inr (s1\<lparr>ncpu := 1, mlapic := 0, ioapicid := 0\<rparr>, False))
               else Some (Inr (s1, m (mp + 12) \<noteq> 0))))"

definition mpbcpu :: "mpstate \<Rightarrow> nat" where
  "mpbcpu s = bcpu s"

section \<open>The search\<close>

lemma memcmp_eq: "memcmp n p q = 0 \<longleftrightarrow> (\<forall>i < n. p i = q i)"
proof (induction n arbitrary: p q)
  case (Suc n)
  have "int (unat (p 0)) - int (unat (q 0)) = 0 \<longleftrightarrow> p 0 = q 0" by (simp add: word_uint_eq_iff)
  then show ?case using Suc [of "p \<circ> Suc" "q \<circ> Suc"] by (auto simp: less_Suc_eq_0_disj comp_def)
qed simp

definition mp_at :: "cmem \<Rightarrow> u32 \<Rightarrow> bool" where
  \<comment> \<open>a floating pointer structure: its signature, and its bytes add up to 0\<close>
  "mp_at m p \<longleftrightarrow> mem_bytes m p 4 = map of_char ''_MP_'' \<and> sum m p 16 = 0"

lemma sig_bytes: "length s = 4 \<Longrightarrow> sig m p s \<longleftrightarrow> mem_bytes m p 4 = map of_char s"
  by (auto simp: sig_def memcmp_eq cptr_of_def mem_bytes_def list_eq_iff_nth_eq)

text \<open>The first structure at a multiple of 16 bytes from the start is found, or there is none.\<close>

theorem mpsearch1_finds:
  assumes fits: "unat addr + len < 2 ^ 32"
  shows "(\<exists>j. 16 * j < len \<and> mp_at m (addr + 16 * of_nat j) \<and> mpsearch1 addr len m = addr + 16 * of_nat j \<and>
      (\<forall>i < j. \<not> mp_at m (addr + 16 * of_nat i))) \<or>
   mpsearch1 addr len m = 0 \<and> (\<forall>j. 16 * j < len \<longrightarrow> \<not> mp_at m (addr + 16 * of_nat j))"
proof -
  have loop: "(\<exists>j < n. mp_at m (p + 16 * of_nat j) \<and> mpsearch_loop n p m = p + 16 * of_nat j \<and>
      (\<forall>i < j. \<not> mp_at m (p + 16 * of_nat i))) \<or>
    mpsearch_loop n p m = 0 \<and> (\<forall>j < n. \<not> mp_at m (p + 16 * of_nat j))" for n p
  proof (induction n arbitrary: p)
    case (Suc n)
    have step: "mpsearch_loop (Suc n) p m = (if mp_at m p then p else mpsearch_loop n (p + 16) m)"
      by (simp add: mp_at_def sig_bytes)
    have sh: "p + 16 + 16 * of_nat j = p + 16 * of_nat (Suc j)" for j :: nat by (simp add: algebra_simps)
    show ?case
    proof (cases "mp_at m p")
      case True
      then show ?thesis by (intro disjI1 exI [of _ 0]) (simp add: step del: mpsearch_loop.simps)
    next
      case False
      from Suc [of "p + 16"] show ?thesis
      proof (elim disjE exE conjE)
        fix j assume j: "j < n" "mp_at m (p + 16 + 16 * of_nat j)" "mpsearch_loop n (p + 16) m = p + 16 + 16 * of_nat j"
          "\<forall>i < j. \<not> mp_at m (p + 16 + 16 * of_nat i)"
        have "\<not> mp_at m (p + 16 * of_nat i)" if "i < Suc j" for i
          using that j(4) False unfolding sh by (cases i) auto
        then show ?thesis using j(1-3) False unfolding sh step by (intro disjI1 exI [of _ "Suc j"]) simp
      next
        assume a: "mpsearch_loop n (p + 16) m = 0" "\<forall>j < n. \<not> mp_at m (p + 16 + 16 * of_nat j)"
        have "\<not> mp_at m (p + 16 * of_nat i)" if "i < Suc n" for i
          using that a(2) False unfolding sh by (cases i) auto
        then show ?thesis using a(1) False unfolding step by simp
      qed
    qed
  qed simp
  have lt: "j < (len + 15) div 16 \<longleftrightarrow> 16 * j < len" for j
    using less_eq_div_iff_mult_less_eq [of 16 "Suc j" "len + 15"] by (simp add: Suc_le_eq) linarith
  have "unat (of_nat len :: u32) = len" using fits by (intro unat_of_nat_small) simp
  then have "unat (addr + of_nat len) = unat addr + len" using fits by (simp add: unat_word_ariths)
  then have n: "(if addr < addr + of_nat len then (len + 15) div 16 else 0) = (len + 15) div 16"
    by (auto simp: word_less_nat_alt)
  show ?thesis using loop [of "(len + 15) div 16" addr] unfolding mpsearch1_def n lt by blast
qed

section \<open>The walk over the table\<close>

text \<open>An entry of unknown type is met again and again.\<close>

theorem mp_entries_unknown:
  assumes "p < e" "m p > 4"
  shows "mp_entries m p e s = None"
proof (rule ccontr)
  assume "mp_entries m p e s \<noteq> None"
  then obtain y where y: "mp_entries m p e s = Some y" by blast
  have k: "m p \<noteq> MPPROC" "m p \<noteq> MPIOAPIC" "m p \<noteq> MPBUS" "m p \<noteq> MPIOINTR" "m p \<noteq> MPLINTR"
    using assms(2) by (auto simp: MPPROC_def MPIOAPIC_def MPBUS_def MPIOINTR_def MPLINTR_def)
  have "\<not> (m = m \<and> p = p \<and> e = e)"
  proof (rule mp_entries.raw_induct [where P = "\<lambda>m' p' e' s' y'. \<not> (m' = m \<and> p' = p \<and> e' = e)", OF _ y])
    fix f m' p' e' s' y'
    assume IH: "\<And>m' p' e' s' y'. f m' p' e' s' = Some y' \<Longrightarrow> \<not> (m' = m \<and> p' = p \<and> e' = e)"
      and run: "(if p' < e' then
          if m' p' = MPPROC then
            (case mpproc_entry (m' (p' + 1)) (m' (p' + 3)) s' of Inl x \<Rightarrow> Some (Inl x) | Inr s1 \<Rightarrow> f m' (p' + 20) e' s1)
          else if m' p' = MPIOAPIC then f m' (p' + 8) e' (s'\<lparr>ioapicid := m' (p' + 1)\<rparr>)
          else if m' p' = MPBUS \<or> m' p' = MPIOINTR \<or> m' p' = MPLINTR then f m' (p' + 8) e' s'
          else f m' p' e' (s'\<lparr>ismp := False\<rparr>)
        else Some (Inr s')) = Some y'"
    show "\<not> (m' = m \<and> p' = p \<and> e' = e)"
    proof
      assume "m' = m \<and> p' = p \<and> e' = e"
      then have eqs: "m' = m" "p' = p" "e' = e" by simp_all
      have "f m p e (s'\<lparr>ismp := False\<rparr>) = Some y'" using run k assms(1) unfolding eqs by simp
      from IH [OF this] show False by simp
    qed
  qed
  then show False by simp
qed

text \<open>What the entries of a table are.\<close>

datatype mpentry = Proc u8 u8 | Ioapic u8 | Other

fun entry_size :: "mpentry \<Rightarrow> nat" where
  "entry_size (Proc a f) = 20"
| "entry_size _ = 8"

fun entry_at :: "cmem \<Rightarrow> u32 \<Rightarrow> mpentry \<Rightarrow> bool" where
  "entry_at m p (Proc a f) \<longleftrightarrow> m p = MPPROC \<and> m (p + 1) = a \<and> m (p + 3) = f"
| "entry_at m p (Ioapic a) \<longleftrightarrow> m p = MPIOAPIC \<and> m (p + 1) = a"
| "entry_at m p Other \<longleftrightarrow> m p = MPBUS \<or> m p = MPIOINTR \<or> m p = MPLINTR"

fun table_at :: "cmem \<Rightarrow> u32 \<Rightarrow> mpentry list \<Rightarrow> bool" where
  "table_at m p [] = True"
| "table_at m p (x # xs) \<longleftrightarrow> entry_at m p x \<and> table_at m (p + of_nat (entry_size x)) xs"

abbreviation table_size :: "mpentry list \<Rightarrow> nat" where "table_size xs \<equiv> sum_list (map entry_size xs)"

definition procs :: "mpentry list \<Rightarrow> u8 list" where
  "procs xs = concat (map (\<lambda>x. case x of Proc a f \<Rightarrow> [a] | _ \<Rightarrow> []) xs)"

text \<open>A table of known entries with at most 8 processors is read completely: as many processors as it has entries
  for, and the multiprocessor mode stays on exactly when their numbers count from the first free one.\<close>

theorem mp_entries_ok:
  "table_at m p xs \<Longrightarrow> unat p + table_size xs < 2 ^ 32 \<Longrightarrow> e = p + of_nat (table_size xs) \<Longrightarrow>
    ncpu s + length (procs xs) \<le> NCPU \<Longrightarrow>
    \<exists>s'. mp_entries m p e s = Some (Inr s') \<and> ncpu s' = ncpu s + length (procs xs) \<and>
      (ismp s' \<longleftrightarrow> ismp s \<and> map unat (procs xs) = [ncpu s..<ncpu s + length (procs xs)]) \<and> mlapic s' = mlapic s"
proof (induction xs arbitrary: p s)
  case Nil
  then show ?case by (simp add: mp_entries.simps procs_def)
next
  case (Cons x xs)
  have sz: "8 \<le> entry_size x" by (cases x) simp_all
  let ?k = "entry_size x"
  have uk: "unat (of_nat ?k :: u32) = ?k" and ut: "unat (of_nat (table_size (x # xs)) :: u32) = table_size (x # xs)"
    using Cons.prems(2) by (intro unat_of_nat_small; simp)+
  have up: "unat (p + of_nat ?k) = unat p + ?k" using Cons.prems(2) by (simp add: unat_word_ariths uk)
  have ue: "unat e = unat p + table_size (x # xs)" 
    using Cons.prems(2) unfolding Cons.prems(3) unat_word_ariths(1) ut by simp
  have lt: "p < e" using ue sz by (simp add: word_less_nat_alt)
  have e': "e = p + of_nat ?k + of_nat (table_size xs)" unfolding Cons.prems(3) by simp
  have t: "table_at m (p + of_nat ?k) xs" "unat (p + of_nat ?k) + table_size xs < 2 ^ 32"
    using Cons.prems(1,2) by (simp_all add: up)
  note IH = Cons.IH [OF t e']
  have c: "MPPROC \<noteq> MPIOAPIC" "MPBUS \<noteq> MPPROC" "MPBUS \<noteq> MPIOAPIC" "MPIOINTR \<noteq> MPPROC" "MPIOINTR \<noteq> MPIOAPIC"
    "MPLINTR \<noteq> MPPROC" "MPLINTR \<noteq> MPIOAPIC"
    by (simp_all add: MPPROC_def MPIOAPIC_def MPBUS_def MPIOINTR_def MPLINTR_def)
  show ?case
  proof (cases x)
    case (Proc a f)
    have n: "ncpu s < NCPU" "Suc (ncpu s) + length (procs xs) \<le> NCPU" using Cons.prems(4) by (simp_all add: procs_def Proc)
    obtain s1 where s1: "mpproc_entry a f s = Inr s1" "ncpu s1 = Suc (ncpu s)" "ismp s1 \<longleftrightarrow> ismp s \<and> unat a = ncpu s" "mlapic s1 = mlapic s"
    proof (cases "mpproc_entry a f s")
      case (Inr s1)
      with n(1) have "ncpu s1 = Suc (ncpu s)" "ismp s1 \<longleftrightarrow> ismp s \<and> unat a = ncpu s" "mlapic s1 = mlapic s"
        by (auto simp: mpproc_entry_def Let_def split: if_splits)
      with Inr show ?thesis by (rule that)
    qed (use n(1) in \<open>simp add: mpproc_entry_def Let_def split: if_splits\<close>)
    have "mp_entries m p e s = mp_entries m (p + of_nat ?k) e s1"
      using Cons.prems(1) lt s1(1) by (simp add: mp_entries.simps [of m p] Proc)
    moreover have "procs (x # xs) = a # procs xs" by (simp add: procs_def Proc)
    moreover have "[ncpu s..<Suc (ncpu s) + length (procs xs)] = ncpu s # [Suc (ncpu s)..<Suc (ncpu s) + length (procs xs)]"
      by (rule upt_conv_Cons) simp
    ultimately show ?thesis using IH [of s1] s1(2-4) n(2) by auto
  next
    case (Ioapic a)
    have "mp_entries m p e s = mp_entries m (p + of_nat ?k) e (s\<lparr>ioapicid := a\<rparr>)"
      using Cons.prems(1) lt c by (simp add: mp_entries.simps [of m p] Ioapic)
    then show ?thesis using IH [of "s\<lparr>ioapicid := a\<rparr>"] Cons.prems(4) by (simp add: procs_def Ioapic)
  next
    case Other
    have "mp_entries m p e s = mp_entries m (p + of_nat ?k) e s"
      using Cons.prems(1) lt c by (auto simp: mp_entries.simps [of m p] Other)
    then show ?thesis using IH [of s] Cons.prems(4) by (simp add: procs_def Other)
  qed
qed

end
