(* ===== verification/Gates.thy ===== *)
theory Gates
  imports Spinlock
begin

text \<open>
  Segments and gates: the descriptors of \<open>kernel/mmu.h\<close>, the functions of \<open>vm.c\<close> that load the segment
  and page table registers, and the interrupt table of \<open>trap.c\<close>. A bit field is a word of its width.
\<close>

record segdesc =
  lim_15_0 :: u16
  base_15_0 :: u16
  base_23_16 :: u8
  sd_type :: "4 word"
  sd_s :: "1 word"
  sd_dpl :: "2 word"
  sd_p :: "1 word"
  lim_19_16 :: "4 word"
  sd_avl :: "1 word"
  sd_rsv1 :: "1 word"
  sd_db :: "1 word"
  sd_g :: "1 word"
  base_31_24 :: u8

definition SEG :: "u32 \<Rightarrow> u32 \<Rightarrow> u32 \<Rightarrow> u32 \<Rightarrow> segdesc" where
  "SEG type base lim dpl =
     \<lparr>lim_15_0 = ucast (drop_bit 12 lim AND 0xFFFF), base_15_0 = ucast (base AND 0xFFFF),
      base_23_16 = ucast (drop_bit 16 base AND 0xFF), sd_type = ucast type, sd_s = 1, sd_dpl = ucast dpl, sd_p = 1,
      lim_19_16 = ucast (drop_bit 28 lim), sd_avl = 0, sd_rsv1 = 0, sd_db = 1, sd_g = 1,
      base_31_24 = ucast (drop_bit 24 base)\<rparr>"

definition SEG16 :: "u32 \<Rightarrow> u32 \<Rightarrow> u32 \<Rightarrow> u32 \<Rightarrow> segdesc" where
  "SEG16 type base lim dpl =
     \<lparr>lim_15_0 = ucast (lim AND 0xFFFF), base_15_0 = ucast (base AND 0xFFFF),
      base_23_16 = ucast (drop_bit 16 base AND 0xFF), sd_type = ucast type, sd_s = 1, sd_dpl = ucast dpl, sd_p = 1,
      lim_19_16 = ucast (drop_bit 16 lim), sd_avl = 0, sd_rsv1 = 0, sd_db = 1, sd_g = 0,
      base_31_24 = ucast (drop_bit 24 base)\<rparr>"

definition DPL_USER :: u32 where "DPL_USER = 3"
definition STA_X :: u32 where "STA_X = 8"
definition STA_W :: u32 where "STA_W = 2"
definition STA_R :: u32 where "STA_R = 2"
definition STS_T32A :: u32 where "STS_T32A = 9"
definition STS_IG32 :: u32 where "STS_IG32 = 14"
definition STS_TG32 :: u32 where "STS_TG32 = 15"

definition SEG_KCODE :: nat where "SEG_KCODE = 1"
definition SEG_KDATA :: nat where "SEG_KDATA = 2"
definition SEG_KCPU :: nat where "SEG_KCPU = 3"
definition SEG_UCODE :: nat where "SEG_UCODE = 4"
definition SEG_UDATA :: nat where "SEG_UDATA = 5"
definition SEG_TSS :: nat where "SEG_TSS = 6"
definition NSEGS :: nat where "NSEGS = 7"

definition selector :: "nat \<Rightarrow> u16" where "selector n = push_bit 3 (of_nat n)"

record gatedesc =
  off_15_0 :: u16
  gd_cs :: u16
  gd_args :: "5 word"
  gd_rsv1 :: "3 word"
  gd_type :: "4 word"
  gd_s :: "1 word"
  gd_dpl :: "2 word"
  gd_p :: "1 word"
  off_31_16 :: u16

definition SETGATE :: "bool \<Rightarrow> u16 \<Rightarrow> u32 \<Rightarrow> u32 \<Rightarrow> gatedesc" where
  "SETGATE istrap sel off d =
     \<lparr>off_15_0 = ucast (off AND 0xFFFF), gd_cs = sel, gd_args = 0, gd_rsv1 = 0,
      gd_type = ucast (if istrap then STS_TG32 else STS_IG32), gd_s = 0, gd_dpl = ucast d, gd_p = 1,
      off_31_16 = ucast (drop_bit 16 off)\<rparr>"

section \<open>The tables\<close>

text \<open>\<open>vectors\<close> is the table of entry points; the first gates are 256 interrupt gates, then number 64 is overwritten.\<close>

definition tvinit :: "(nat \<Rightarrow> u32) \<Rightarrow> spinlock \<Rightarrow> gatedesc list \<times> spinlock" where
  "tvinit vectors tickslock =
     (let idt = map (\<lambda>i. SETGATE False (selector SEG_KCODE) (vectors i) 0) [0..<256]
      in (idt[64 := SETGATE True (selector SEG_KCODE) (vectors 64) DPL_USER], initlock ''time'' tickslock))"

text \<open>The operand of \<open>lgdt\<close> and \<open>lidt\<close>: the last byte of the table and its address in two halves.\<close>

definition table_reg :: "u32 \<Rightarrow> nat \<Rightarrow> u16 \<times> u16 \<times> u16" where
  "table_reg p len = (of_nat (len - 1), ucast p, ucast (drop_bit 16 p))"

text \<open>What the functions change of a CPU. \<open>at\<close> is the address of its structure, its own first variable is at \<open>at_cpu\<close>.\<close>

record hwcpu =
  hw_irq :: cpu
  gdt :: "segdesc list"
  ts_ss0 :: u16
  ts_esp0 :: u32
  gdtr :: "u16 \<times> u16 \<times> u16"
  gs :: u16
  tr :: u16
  cr0 :: u32
  cr3 :: u32
  hw_proc :: "nat option"

definition seginit :: "u32 \<Rightarrow> u32 \<Rightarrow> hwcpu \<Rightarrow> hwcpu" where
  "seginit at_gdt at_cpu c =
     (let g = gdt c;
          g = g[SEG_KCODE := SEG (STA_X OR STA_R) 0 0xFFFFFFFF 0];
          g = g[SEG_KDATA := SEG STA_W 0 0xFFFFFFFF 0];
          g = g[SEG_UCODE := SEG (STA_X OR STA_R) 0 0xFFFFFFFF DPL_USER];
          g = g[SEG_UDATA := SEG STA_W 0 0xFFFFFFFF DPL_USER];
          g = g[SEG_KCPU := SEG STA_W at_cpu 8 0]
      in c\<lparr>gdt := g, gdtr := table_reg at_gdt (8 * NSEGS), gs := selector SEG_KCPU, hw_proc := None\<rparr>)"

definition CR0_PG :: u32 where "CR0_PG = 0x80000000"
definition KSTACKSIZE :: u32 where "KSTACKSIZE = 4096"

definition switchkvm :: "u32 \<Rightarrow> hwcpu \<Rightarrow> hwcpu" where
  "switchkvm kpgdir c = c\<lparr>cr3 := kpgdir\<rparr>"

definition vmenable :: "u32 \<Rightarrow> hwcpu \<Rightarrow> hwcpu" where
  "vmenable kpgdir c = (let c1 = switchkvm kpgdir c in c1\<lparr>cr0 := cr0 c1 OR CR0_PG\<rparr>)"

text \<open>\<open>kstack\<close> and \<open>pgdir\<close> are those of the process; the task state has 104 bytes.\<close>

definition switchuvm :: "u32 \<Rightarrow> u32 \<Rightarrow> u32 \<Rightarrow> hwcpu \<Rightarrow> hwcpu result" where
  "switchuvm at_ts kstack pgdir c =
     (let c1 = c\<lparr>hw_irq := pushcli (hw_irq c),
                 gdt := (gdt c)[SEG_TSS := (SEG16 STS_T32A at_ts (104 - 1) 0)\<lparr>sd_s := 0\<rparr>],
                 ts_ss0 := selector SEG_KDATA, ts_esp0 := kstack + KSTACKSIZE, tr := selector SEG_TSS\<rparr>
      in if pgdir = 0 then Inl (Panic ''switchuvm: no pgdir'')
         else let c2 = c1\<lparr>cr3 := pgdir\<rparr> in
           bindE (popcli (hw_irq c2)) (\<lambda>q. Inr (c2\<lparr>hw_irq := q\<rparr>)))"

section \<open>What the processor reads from a descriptor\<close>

definition seg_base :: "segdesc \<Rightarrow> u32" where
  "seg_base d = push_bit 24 (ucast (base_31_24 d)) OR push_bit 16 (ucast (base_23_16 d)) OR ucast (base_15_0 d)"

definition seg_limit :: "segdesc \<Rightarrow> u32" where
  \<comment> \<open>the last offset inside the segment; with granularity the limit counts pages\<close>
  "seg_limit d =
     (let l = push_bit 16 (ucast (lim_19_16 d)) OR ucast (lim_15_0 d) in
      if sd_g d = 1 then push_bit 12 l OR 0xFFF else l)"

definition gate_offset :: "gatedesc \<Rightarrow> u32" where
  "gate_offset d = push_bit 16 (ucast (off_31_16 d)) OR ucast (off_15_0 d)"

lemma mask_bits:
  "bit (0xFF :: int) n \<longleftrightarrow> n < 8" "bit (0xFFF :: int) n \<longleftrightarrow> n < 12" "bit (0xFFFF :: int) n \<longleftrightarrow> n < 16"
proof -
  have m: "(0xFF :: int) = mask 8" "(0xFFF :: int) = mask 12" "(0xFFFF :: int) = mask 16"
    by (simp_all add: mask_eq_exp_minus_1)
  show "bit (0xFF :: int) n \<longleftrightarrow> n < 8" "bit (0xFFF :: int) n \<longleftrightarrow> n < 12" "bit (0xFFFF :: int) n \<longleftrightarrow> n < 16"
    unfolding m by (simp_all only: bit_mask_iff possible_bit_def) simp_all
qed

lemmas word_bits = bit_or_iff bit_and_iff bit_push_bit_iff bit_drop_bit_eq bit_unsigned_iff mask_bits

lemma SEG_base: "seg_base (SEG t b l d) = b" and SEG16_base: "seg_base (SEG16 t b l d) = b"
proof -
  have "seg_base (SEG t b l d) = push_bit 24 (ucast (ucast (drop_bit 24 b) :: u8)) OR
      push_bit 16 (ucast (ucast (drop_bit 16 b AND 0xFF) :: u8)) OR ucast (ucast (b AND 0xFFFF) :: u16)"
    by (simp add: seg_base_def SEG_def)
  also have "\<dots> = b"
  proof (rule bit_word_eqI)
    fix n assume "n < LENGTH(32)"
    then have "n < 32" by simp
    then show "bit (push_bit 24 (ucast (ucast (drop_bit 24 b) :: u8)) OR
        push_bit 16 (ucast (ucast (drop_bit 16 b AND 0xFF) :: u8)) OR ucast (ucast (b AND 0xFFFF) :: u16) :: u32) n = bit b n"
      by (cases "n < 16"; cases "n < 24") (auto simp: word_bits)
  qed
  finally show "seg_base (SEG t b l d) = b" .
  then show "seg_base (SEG16 t b l d) = b" by (simp add: seg_base_def SEG_def SEG16_def)
qed

lemma SEG_limit: "seg_limit (SEG t b l d) = l OR 0xFFF"
proof (rule bit_word_eqI)
  fix n assume "n < LENGTH(32)"
  then have "n < 32" by simp
  then show "bit (seg_limit (SEG t b l d)) n = bit (l OR 0xFFF) n"
    by (cases "n < 12"; cases "n < 28") (auto simp: seg_limit_def SEG_def word_bits)
qed

lemma SEG16_limit: "l < 2 ^ 20 \<Longrightarrow> seg_limit (SEG16 t b l d) = l"
proof (rule bit_word_eqI)
  fix n assume l: "l < 2 ^ 20" and "n < LENGTH(32)"
  then have n: "n < 32" by simp
  have "bit l n \<Longrightarrow> n < 20"
  proof (rule ccontr)
    assume b: "bit l n" "\<not> n < 20"
    have "unat l < 2 ^ 20" using l by (simp add: word_less_nat_alt)
    also have "(2 :: nat) ^ 20 \<le> 2 ^ n" using b(2) by (intro power_increasing) simp_all
    finally have "unat l div 2 ^ n = 0" by simp
    then have "\<not> bit (unat l) n" by (simp add: bit_iff_odd)
    then show False using b(1) n by (simp add: bit_unsigned_iff)
  qed
  then show "bit (seg_limit (SEG16 t b l d)) n = bit l n"
    using n by (cases "n < 16"; cases "n < 20") (auto simp: seg_limit_def SEG16_def word_bits)
qed

lemma SETGATE_offset: "gate_offset (SETGATE t s off d) = off"
proof (rule bit_word_eqI)
  fix n assume "n < LENGTH(32)"
  then have "n < 32" by simp
  then show "bit (gate_offset (SETGATE t s off d)) n = bit off n"
    by (cases "n < 16") (auto simp: gate_offset_def SETGATE_def word_bits)
qed

text \<open>Each interrupt enters the kernel through its own entry point, in the kernel's code segment; a user program can
  raise number 64 only, and only that gate leaves interrupts on.\<close>

theorem tvinit_gates:
  assumes "n < 256" and g_def: "g = fst (tvinit vectors l) ! n"
  shows "gate_offset g = vectors n \<and> gd_cs g = selector SEG_KCODE \<and> gd_p g = 1 \<and>
    (gd_dpl g = 3 \<longleftrightarrow> n = 64) \<and> (gd_type g = 15 \<longleftrightarrow> n = 64)"
proof (cases "n = 64")
  case True
  then have g: "g = SETGATE True (selector SEG_KCODE) (vectors n) DPL_USER"
    by (simp add: g_def tvinit_def Let_def)
  show ?thesis unfolding g SETGATE_offset
    using True by (simp add: SETGATE_def DPL_USER_def STS_TG32_def)
next
  case False
  then have g: "g = SETGATE False (selector SEG_KCODE) (vectors n) 0"
    using assms(1) by (simp add: g_def tvinit_def Let_def)
  show ?thesis unfolding g SETGATE_offset
    using False by (simp add: SETGATE_def STS_IG32_def)
qed

text \<open>The four flat segments reach all of memory; those of the kernel need privilege level 0, those of the users 3.
  The segment of the CPU's own variables starts at them.\<close>

theorem seginit_segments:
  assumes "length (gdt c) = NSEGS" and g_def: "g = gdt (seginit at_gdt at_cpu c)"
  shows "\<forall>n \<in> {SEG_KCODE, SEG_KDATA, SEG_UCODE, SEG_UDATA}. seg_base (g ! n) = 0 \<and> seg_limit (g ! n) = - 1 \<and>
      sd_dpl (g ! n) = (if n \<in> {SEG_UCODE, SEG_UDATA} then 3 else 0)"
    and "seg_base (g ! SEG_KCPU) = at_cpu" and "sd_dpl (g ! SEG_KCPU) = 0"
proof -
  have a: "(0xFFFFFFFF :: u32) = - 1" by simp
  have g: "g ! SEG_KCODE = SEG (STA_X OR STA_R) 0 (- 1) 0" "g ! SEG_KDATA = SEG STA_W 0 (- 1) 0"
    "g ! SEG_UCODE = SEG (STA_X OR STA_R) 0 (- 1) DPL_USER" "g ! SEG_UDATA = SEG STA_W 0 (- 1) DPL_USER"
    "g ! SEG_KCPU = SEG STA_W at_cpu 8 0"
    using assms(1) by (simp_all add: g_def seginit_def Let_def NSEGS_def SEG_KCODE_def SEG_KDATA_def SEG_UCODE_def
        SEG_UDATA_def SEG_KCPU_def a)
  have d: "sd_dpl (SEG t b l p) = ucast p" for t b l p by (simp add: SEG_def)
  have ne: "SEG_KCODE \<notin> {SEG_UCODE, SEG_UDATA}" "SEG_KDATA \<notin> {SEG_UCODE, SEG_UDATA}"
    by (simp_all add: SEG_KCODE_def SEG_KDATA_def SEG_UCODE_def SEG_UDATA_def)
  show "\<forall>n \<in> {SEG_KCODE, SEG_KDATA, SEG_UCODE, SEG_UDATA}. seg_base (g ! n) = 0 \<and> seg_limit (g ! n) = - 1 \<and>
      sd_dpl (g ! n) = (if n \<in> {SEG_UCODE, SEG_UDATA} then 3 else 0)"
    using ne by (simp add: g SEG_base SEG_limit d DPL_USER_def)
  show "seg_base (g ! SEG_KCPU) = at_cpu" "sd_dpl (g ! SEG_KCPU) = 0" by (simp_all add: g SEG_base d)
qed

text \<open>Switching to a process sets its page table, the task state segment and the end of its kernel stack, and
  leaves the interrupt flag and the other segments as they were.\<close>

theorem switchuvm_loads:
  assumes "pgdir \<noteq> 0" "0 \<le> ncli (hw_irq c)" "ifl (hw_irq c) \<longrightarrow> ncli (hw_irq c) = 0" "length (gdt c) = NSEGS"
  shows "\<exists>c'. switchuvm at_ts kstack pgdir c = Inr c' \<and> cr3 c' = pgdir \<and> ts_esp0 c' = kstack + 4096 \<and>
    seg_base (gdt c' ! SEG_TSS) = at_ts \<and> seg_limit (gdt c' ! SEG_TSS) = 103 \<and>
    (\<forall>n. n \<noteq> SEG_TSS \<longrightarrow> gdt c' ! n = gdt c ! n) \<and> ifl (hw_irq c') = ifl (hw_irq c) \<and> ncli (hw_irq c') = ncli (hw_irq c)"
proof -
  have s: "seg_base (d\<lparr>sd_s := x\<rparr>) = seg_base d" "seg_limit (d\<lparr>sd_s := x\<rparr>) = seg_limit d" for d x
    by (simp_all add: seg_base_def seg_limit_def)
  show ?thesis
    using assms SEG16_limit [of 103 STS_T32A at_ts 0]
    by (auto simp: switchuvm_def Let_def pushcli_def popcli_def KSTACKSIZE_def NSEGS_def SEG_TSS_def s SEG16_base)
qed

end
