(* ===== verification/Drivers.thy ===== *)
theory Drivers
  imports Console
begin

text \<open>
  The drivers of the serial line (\<open>kernel/uart.c\<close>), the timer (\<open>timer.c\<close>) and the interrupt controllers (\<open>picirq.c\<close>,
  \<open>ioapic.c\<close>, \<open>lapic.c\<close>), the start of the disk (\<open>ide.c\<close>) and of the console, in the order of \<open>main.c\<close>. A driver
  writes bytes to ports, words to the registers that the I/O APIC selects, and words to the local
  APIC; what the devices answer is an argument.
\<close>

definition T_IRQ0 :: u32 where "T_IRQ0 = 32"
definition IRQ_TIMER :: nat where "IRQ_TIMER = 0"
definition IRQ_KBD :: nat where "IRQ_KBD = 1"
definition IRQ_COM1 :: nat where "IRQ_COM1 = 4"
definition IRQ_IDE :: nat where "IRQ_IDE = 14"
definition IRQ_ERROR :: nat where "IRQ_ERROR = 19"
definition IRQ_SPURIOUS :: nat where "IRQ_SPURIOUS = 31"

record dev =
  out :: "(nat \<times> u8) list"          \<comment> \<open>the bytes written to ports, in order\<close>
  irqmask :: u16
  ioregs :: "nat \<Rightarrow> u32"             \<comment> \<open>the registers of the I/O APIC\<close>
  lapic_out :: "(nat \<times> u32) list"    \<comment> \<open>the words written to the local APIC\<close>
  uart :: bool
  havedisk1 :: bool

definition outb :: "nat \<Rightarrow> u8 \<Rightarrow> dev \<Rightarrow> dev" where
  "outb p v d = d\<lparr>out := out d @ [(p, v)]\<rparr>"

definition outs :: "(nat \<times> u8) list \<Rightarrow> dev \<Rightarrow> dev" where
  "outs ps d = d\<lparr>out := out d @ ps\<rparr>"

section \<open>The 8259 interrupt controllers\<close>

definition IO_PIC1 :: nat where "IO_PIC1 = 0x20"
definition IO_PIC2 :: nat where "IO_PIC2 = 0xA0"
definition IRQ_SLAVE :: nat where "IRQ_SLAVE = 2"

definition irqmask0 :: u16 where "irqmask0 = 0xFFFF AND NOT (push_bit IRQ_SLAVE 1)"

definition picsetmask :: "u16 \<Rightarrow> dev \<Rightarrow> dev" where
  "picsetmask msk d =
     outb (IO_PIC2 + 1) (ucast (drop_bit 8 msk)) (outb (IO_PIC1 + 1) (ucast msk) (d\<lparr>irqmask := msk\<rparr>))"

definition picenable :: "nat \<Rightarrow> dev \<Rightarrow> dev" where
  "picenable irq d = picsetmask (irqmask d AND NOT (push_bit irq 1)) d"

definition picinit :: "dev \<Rightarrow> dev" where
  "picinit d =
     (let d1 = outs [(IO_PIC1 + 1, 0xFF), (IO_PIC2 + 1, 0xFF),
                     (IO_PIC1, 0x11), (IO_PIC1 + 1, ucast T_IRQ0), (IO_PIC1 + 1, push_bit IRQ_SLAVE 1), (IO_PIC1 + 1, 3),
                     (IO_PIC2, 0x11), (IO_PIC2 + 1, ucast (T_IRQ0 + 8)), (IO_PIC2 + 1, of_nat IRQ_SLAVE), (IO_PIC2 + 1, 3),
                     (IO_PIC1, 0x68), (IO_PIC1, 0x0A), (IO_PIC2, 0x68), (IO_PIC2, 0x0A)] d
      in if irqmask d1 \<noteq> 0xFFFF then picsetmask (irqmask d1) d1 else d1)"

section \<open>The timer\<close>

definition TIMER_FREQ :: nat where "TIMER_FREQ = 1193182"

definition TIMER_DIV :: "nat \<Rightarrow> nat" where "TIMER_DIV x = (TIMER_FREQ + x div 2) div x"

definition timerinit :: "dev \<Rightarrow> dev" where
  "timerinit d =
     picenable IRQ_TIMER (outs [(0x43, 0x00 OR 0x04 OR 0x30), (0x40, of_nat (TIMER_DIV 100 mod 256)),
       (0x40, of_nat (TIMER_DIV 100 div 256))] d)"

section \<open>The I/O APIC\<close>

definition REG_ID :: nat where "REG_ID = 0"
definition REG_VER :: nat where "REG_VER = 1"
definition REG_TABLE :: nat where "REG_TABLE = 16"
definition INT_DISABLED :: u32 where "INT_DISABLED = 0x00010000"

definition ioapicread :: "nat \<Rightarrow> dev \<Rightarrow> u32" where "ioapicread reg d = ioregs d reg"

definition ioapicwrite :: "nat \<Rightarrow> u32 \<Rightarrow> dev \<Rightarrow> dev" where
  "ioapicwrite reg data d = d\<lparr>ioregs := (ioregs d)(reg := data)\<rparr>"

definition maxintr :: "dev \<Rightarrow> nat" where
  "maxintr d = unat (drop_bit 16 (ioapicread REG_VER d) AND 0xFF)"

fun ioapic_loop :: "nat \<Rightarrow> nat \<Rightarrow> dev \<Rightarrow> dev" where
  "ioapic_loop 0 i d = d"
| "ioapic_loop (Suc n) i d =
     ioapic_loop n (i + 1) (ioapicwrite (REG_TABLE + 2 * i + 1) 0
       (ioapicwrite (REG_TABLE + 2 * i) (INT_DISABLED OR (T_IRQ0 + of_nat i)) d))"

text \<open>The message about the identity of the I/O APIC is left out.\<close>

definition ioapicinit :: "bool \<Rightarrow> dev \<Rightarrow> dev" where
  "ioapicinit ismp d = (if \<not> ismp then d else ioapic_loop (maxintr d + 1) 0 d)"

definition ioapicenable :: "bool \<Rightarrow> nat \<Rightarrow> nat \<Rightarrow> dev \<Rightarrow> dev" where
  "ioapicenable ismp irq cpunum d =
     (if \<not> ismp then d
      else ioapicwrite (REG_TABLE + 2 * irq + 1) (push_bit 24 (of_nat cpunum))
        (ioapicwrite (REG_TABLE + 2 * irq) (T_IRQ0 + of_nat irq) d))"

section \<open>The local APIC\<close>

definition TPR :: nat where "TPR = 0x80 div 4"
definition EOI :: nat where "EOI = 0xB0 div 4"
definition SVR :: nat where "SVR = 0xF0 div 4"
definition ESR :: nat where "ESR = 0x280 div 4"
definition ICRLO :: nat where "ICRLO = 0x300 div 4"
definition ICRHI :: nat where "ICRHI = 0x310 div 4"
definition TIMER :: nat where "TIMER = 0x320 div 4"
definition PCINT :: nat where "PCINT = 0x340 div 4"
definition LINT0 :: nat where "LINT0 = 0x350 div 4"
definition LINT1 :: nat where "LINT1 = 0x360 div 4"
definition ERROR :: nat where "ERROR = 0x370 div 4"
definition TICR :: nat where "TICR = 0x380 div 4"
definition TDCR :: nat where "TDCR = 0x3E0 div 4"
definition ENABLE :: u32 where "ENABLE = 0x100"
definition INIT :: u32 where "INIT = 0x500"
definition STARTUP :: u32 where "STARTUP = 0x600"
definition ASSERT :: u32 where "ASSERT = 0x4000"
definition LEVEL :: u32 where "LEVEL = 0x8000"
definition BCAST :: u32 where "BCAST = 0x80000"
definition PERIODIC :: u32 where "PERIODIC = 0x20000"
definition MASKED :: u32 where "MASKED = 0x10000"

definition lapicw :: "(nat \<times> u32) list \<Rightarrow> dev \<Rightarrow> dev" where
  "lapicw ws d = d\<lparr>lapic_out := lapic_out d @ ws\<rparr>"

text \<open>\<open>lapic\<close> is the address of the registers, \<open>ver\<close> the version register. The loop that waits for delivery is left out.\<close>

definition lapicinit :: "u32 \<Rightarrow> u32 \<Rightarrow> dev \<Rightarrow> dev" where
  "lapicinit lapic ver d =
     (if lapic = 0 then d
      else lapicw ([(SVR, ENABLE OR (T_IRQ0 + of_nat IRQ_SPURIOUS)), (TDCR, 0x0B), (TIMER, PERIODIC OR (T_IRQ0 + of_nat IRQ_TIMER)),
         (TICR, 10000000), (LINT0, MASKED), (LINT1, MASKED)] @
        (if drop_bit 16 ver AND 0xFF \<ge> 4 then [(PCINT, MASKED)] else []) @
        [(ERROR, T_IRQ0 + of_nat IRQ_ERROR), (ESR, 0), (ESR, 0), (EOI, 0), (ICRHI, 0), (ICRLO, BCAST OR INIT OR LEVEL), (TPR, 0)]) d)"

definition cpunum :: "u32 \<Rightarrow> u32 \<Rightarrow> u32" where
  "cpunum lapic id_reg = (if lapic \<noteq> 0 then drop_bit 24 id_reg else 0)"

definition lapiceoi :: "u32 \<Rightarrow> dev \<Rightarrow> dev" where
  "lapiceoi lapic d = (if lapic \<noteq> 0 then lapicw [(EOI, 0)] d else d)"

text \<open>The two halves of the warm reset vector at \<open>0x467\<close> are returned beside the writes to the devices.\<close>

definition lapicstartap :: "u8 \<Rightarrow> u32 \<Rightarrow> dev \<Rightarrow> (u16 \<times> u16) \<times> dev" where
  "lapicstartap apicid addr d =
     (let d1 = outs [(0x70, 0x0F), (0x71, 0x0A)] d;
          ipi = [(ICRHI, push_bit 24 (ucast apicid)), (ICRLO, STARTUP OR drop_bit 12 addr)]
      in ((0, ucast (drop_bit 4 addr)),
          lapicw ([(ICRHI, push_bit 24 (ucast apicid)), (ICRLO, INIT OR LEVEL OR ASSERT), (ICRLO, INIT OR LEVEL)] @ ipi @ ipi) d1))"

section \<open>The serial line\<close>

definition COM1 :: nat where "COM1 = 0x3F8"

text \<open>The character is written when the line is ready or after 128 tests.\<close>

definition uartputc :: "u8 \<Rightarrow> dev \<Rightarrow> dev" where
  "uartputc c d = (if \<not> uart d then d else outb COM1 c d)"

definition uartinit :: "bool \<Rightarrow> u8 \<Rightarrow> dev \<Rightarrow> dev" where
  \<comment> \<open>\<open>st\<close> is the line status\<close>
  "uartinit ismp st d =
     (let d1 = outs [(COM1 + 2, 0), (COM1 + 3, 0x80), (COM1, of_nat (115200 div 9600)), (COM1 + 1, 0), (COM1 + 3, 3),
                     (COM1 + 4, 0), (COM1 + 1, 1)] d
      in if st = 0xFF then d1
         else fold (\<lambda>c. uartputc (of_char c)) (''xv6...'' @ [CHR 10])
           (ioapicenable ismp IRQ_COM1 0 (picenable IRQ_COM1 (d1\<lparr>uart := True\<rparr>))))"

text \<open>\<open>st\<close> is the line status, \<open>c\<close> the byte received.\<close>

definition uartgetc :: "bool \<Rightarrow> u8 \<Rightarrow> u8 \<Rightarrow> int" where
  "uartgetc has st c = (if \<not> has then -1 else if st AND 1 = 0 then -1 else int (unat c))"

text \<open>The interrupt: \<open>ds\<close> are the bytes that the line has.\<close>

definition uartintr :: "u8 list \<Rightarrow> dev \<Rightarrow> input \<Rightarrow> input \<times> glyph list \<times> bool" where
  "uartintr ds d s = consoleintr (if uart d then ds else []) s"

section \<open>The console and the disk\<close>

definition consputc :: "glyph \<Rightarrow> cga \<times> dev \<Rightarrow> (cga \<times> dev) result" where
  "consputc c s =
     (let d = (case c of Backspace \<Rightarrow> uartputc 8 (uartputc 32 (uartputc 8 (snd s))) | Glyph b \<Rightarrow> uartputc b (snd s))
      in bindE (cgaputc c (fst s)) (\<lambda>g. Inr (g, d)))"

text \<open>The last two calls of \<open>consoleinit\<close>.\<close>

definition consoleinit :: "bool \<Rightarrow> dev \<Rightarrow> dev" where
  "consoleinit ismp d = ioapicenable ismp IRQ_KBD 0 (picenable IRQ_KBD d)"

text \<open>The answers of the status port, in order; \<open>None\<close> when the disk is not ready in any of them.\<close>

fun idewait :: "bool \<Rightarrow> u8 list \<Rightarrow> int option" where
  "idewait checkerr [] = None"
| "idewait checkerr (r # rs) =
     (if r AND 0xC0 \<noteq> 0x40 then idewait checkerr rs
      else Some (if checkerr \<and> r AND 0x21 \<noteq> 0 then -1 else 0))"

text \<open>The start of the disk, without its lock and the wait for the first disk.\<close>

definition ideinit :: "bool \<Rightarrow> nat \<Rightarrow> (nat \<Rightarrow> u8) \<Rightarrow> dev \<Rightarrow> dev" where
  \<comment> \<open>\<open>st i\<close> is the status that the second disk gives when it is asked the \<open>i\<close>-th time\<close>
  "ideinit ismp ncpu st d =
     (let d1 = outb 0x1F6 (0xE0 OR push_bit 4 1) (ioapicenable ismp IRQ_IDE (ncpu - 1) (picenable IRQ_IDE d));
          d2 = (if \<exists>i \<in> set [0..<1000]. st i \<noteq> 0 then d1\<lparr>havedisk1 := True\<rparr> else d1)
      in outb 0x1F6 (0xE0 OR push_bit 4 0) d2)"

text \<open>The devices in the order in which \<open>mainc\<close> starts them; the calls between that touch no device are left out.\<close>

definition mainc_devices :: "bool \<Rightarrow> nat \<Rightarrow> u8 \<Rightarrow> (nat \<Rightarrow> u8) \<Rightarrow> dev \<Rightarrow> dev" where
  "mainc_devices ismp ncpu line disk d =
     (let d = picinit d; d = ioapicinit ismp d; d = consoleinit ismp d; d = uartinit ismp line d; d = ideinit ismp ncpu disk d
      in if \<not> ismp then timerinit d else d)"

section \<open>What is enabled\<close>

definition pic_ok :: "dev \<Rightarrow> bool" where
  \<comment> \<open>the controllers have the mask of the driver\<close>
  "pic_ok d \<longleftrightarrow> map_of (rev (out d)) 0x21 = Some (ucast (irqmask d)) \<and>
     map_of (rev (out d)) 0xA1 = Some (ucast (drop_bit 8 (irqmask d)))"

lemma pic_ok_steps [simp]:
  "pic_ok (picsetmask m d)" "pic_ok (picenable i d)"
  "\<forall>(p, v) \<in> set ps. p \<noteq> 0x21 \<and> p \<noteq> 0xA1 \<Longrightarrow> pic_ok (outs ps d) = pic_ok d"
  "p \<noteq> 0x21 \<Longrightarrow> p \<noteq> 0xA1 \<Longrightarrow> pic_ok (outb p v d) = pic_ok d"
  "pic_ok (ioapicenable b i c d) = pic_ok d" "pic_ok (d\<lparr>uart := u\<rparr>) = pic_ok d" "pic_ok (d\<lparr>havedisk1 := u\<rparr>) = pic_ok d"
proof -
  show "pic_ok (picsetmask m d)" for m d by (simp add: pic_ok_def picsetmask_def outb_def IO_PIC1_def IO_PIC2_def)
  then show "pic_ok (picenable i d)" by (simp add: picenable_def)
  show "pic_ok (outs ps d) = pic_ok d" if "\<forall>(p, v) \<in> set ps. p \<noteq> 0x21 \<and> p \<noteq> 0xA1"
  proof -
    have "map_of (rev ps) 0x21 = None" "map_of (rev ps) 0xA1 = None"
      using that by (force simp: map_of_eq_None_iff)+
    then show ?thesis by (simp add: pic_ok_def outs_def map_add_def)
  qed
qed (simp_all add: pic_ok_def outb_def ioapicenable_def ioapicwrite_def)

lemma mask_steps [simp]:
  "irqmask (picenable i d) = irqmask d AND NOT (push_bit i 1)"
  "irqmask (outs ps d) = irqmask d" "irqmask (outb p v d) = irqmask d" "irqmask (ioapicenable b i c d) = irqmask d"
  "irqmask (uartputc b8 d) = irqmask d"
  by (simp_all add: picenable_def picsetmask_def outb_def outs_def ioapicenable_def ioapicwrite_def uartputc_def)

lemma pic_ok_uartputc [simp]: "pic_ok (uartputc c d) = pic_ok d"
  by (simp add: uartputc_def COM1_def)

lemma irqmask_fold [simp]: "irqmask (fold (\<lambda>c. uartputc (f c)) cs d) = irqmask d"
  and pic_ok_fold [simp]: "pic_ok (fold (\<lambda>c. uartputc (f c)) cs d) = pic_ok d"
  by (induction cs arbitrary: d) simp_all

lemma ioapic_loop_keeps [simp]:
  "irqmask (ioapic_loop n i d) = irqmask d" "pic_ok (ioapic_loop n i d) = pic_ok d"
  by (induction n i d rule: ioapic_loop.induct) (simp_all add: ioapicwrite_def pic_ok_def)

text \<open>When the devices have been started the controllers let exactly the keyboard, the disk, the line
  to the second controller, the serial line when there is one and, with one processor, the timer through.\<close>

theorem irqs_enabled:
  assumes "irqmask d = irqmask0" "n < 16" and d': "d' = mainc_devices ismp ncpu line disk d"
  shows "bit (irqmask d') n \<longleftrightarrow> n \<notin> {1, 2, 14} \<and> (n = 4 \<longrightarrow> line = 0xFF) \<and> (n = 0 \<longrightarrow> ismp)" and "pic_ok d'"
proof -
  have one: "bit (push_bit i 1 :: u16) n \<longleftrightarrow> i = n" for i
    using assms(2) by (auto simp: bit_exp_iff)
  have m0: "bit irqmask0 n \<longleftrightarrow> n \<noteq> 2"
  proof -
    have e: "irqmask0 = NOT (push_bit 2 1)" by (simp add: irqmask0_def IRQ_SLAVE_def)
    show ?thesis using assms(2) unfolding e bit_not_iff one by (auto simp: possible_bit_def)
  qed
  note keep = push_bit_of_1 fold_simps fold_append
  have "irqmask (picinit d) = irqmask0"
    by (simp add: picinit_def Let_def picsetmask_def outb_def outs_def assms(1))
  moreover have "irqmask (ioapicinit b x) = irqmask x" for b x
    by (simp add: ioapicinit_def del: ioapic_loop.simps)
  moreover have "irqmask (consoleinit b x) = irqmask x AND NOT (push_bit 1 1)" for b x
    by (simp add: consoleinit_def IRQ_KBD_def del: keep)
  moreover have "irqmask (uartinit b line x) = (if line = 0xFF then irqmask x else irqmask x AND NOT (push_bit 4 1))" for b x
    by (simp add: uartinit_def Let_def outs_def IRQ_COM1_def del: keep)
  moreover have "irqmask (ideinit b ncpu disk x) = irqmask x AND NOT (push_bit 14 1)" for b x
    by (simp add: ideinit_def Let_def IRQ_IDE_def del: keep)
  moreover have "irqmask (timerinit x) = irqmask x AND NOT (push_bit 0 1)" for x
    by (simp add: timerinit_def IRQ_TIMER_def del: keep)
  ultimately have e: "irqmask d' =
      (let m = irqmask0 AND NOT (push_bit 1 1); m = (if line = 0xFF then m else m AND NOT (push_bit 4 1));
           m = m AND NOT (push_bit 14 1)
       in if \<not> ismp then m AND NOT (push_bit 0 1) else m)"
    by (simp add: d' mainc_devices_def Let_def del: keep)
  show "bit (irqmask d') n \<longleftrightarrow> n \<notin> {1, 2, 14} \<and> (n = 4 \<longrightarrow> line = 0xFF) \<and> (n = 0 \<longrightarrow> ismp)"
    unfolding e Let_def using assms(2)
    by (cases "line = 0xFF"; cases ismp;
        simp only: if_True if_False simp_thms bit_and_iff bit_not_iff one m0 possible_bit_def; auto)
  have "pic_ok (ideinit b ncpu disk x)" "pic_ok (timerinit x)" for b x
    by (simp_all add: ideinit_def timerinit_def Let_def)
  then show "pic_ok d'" by (simp add: d' mainc_devices_def Let_def)
qed

end
