(* ===== verification/Procinfo.thy ===== *)
theory Procinfo
  imports Syscall Stride
begin

text \<open>
  What the kernel tells about processes: \<open>procdump\<close> of \<open>kernel/proc.c\<close>, the system calls that project \<open>P2\<close> adds
  (\<open>getnextpid\<close>, \<open>getprocstate\<close>), and the copy of the scheduler's table to the user in \<open>P4\<close> (\<open>getpinfo\<close>).
\<close>

section \<open>The names of the states\<close>

fun states :: "procstate \<Rightarrow> string" where
  "states UNUSED = ''unused''"
| "states EMBRYO = ''embryo''"
| "states SLEEPING = ''sleep ''"
| "states RUNNABLE = ''runble''"
| "states RUNNING = ''run   ''"
| "states ZOMBIE = ''zombie''"

text \<open>A line of the listing: the process, its state, its name and, when it sleeps, the call chain up to the first 0.
  \<open>pc i\<close> are the ten addresses that \<open>getcallerpcs\<close> finds for entry \<open>i\<close>.\<close>

definition dump_line :: "(nat \<Rightarrow> u32 list) \<Rightarrow> ptab \<Rightarrow> nat \<Rightarrow> u32 \<times> string \<times> string \<times> u32 list" where
  "dump_line pc t i = (pid (t i), states (state (t i)), name (t i),
     if state (t i) = SLEEPING then takeWhile (\<lambda>a. a \<noteq> 0) (take 10 (pc i)) else [])"

definition procdump :: "(nat \<Rightarrow> u32 list) \<Rightarrow> ptab \<Rightarrow> (u32 \<times> string \<times> string \<times> u32 list) list" where
  "procdump pc t = map (dump_line pc t) (filter (\<lambda>i. state (t i) \<noteq> UNUSED) [0..<NPROC])"

section \<open>The calls of P2\<close>

definition getnextpid :: "kernel \<Rightarrow> int" where
  "getnextpid k = sint (nextpid k)"

definition sys_getnextpid :: handler where
  "sys_getnextpid k = Inr (Ret (getnextpid k), k)"

text \<open>The bytes that \<open>safestrcpy\<close> writes for a string without its NUL and a positive length: one more 0 after the
  terminating one when there is room.\<close>

definition safestr_bytes :: "string \<Rightarrow> nat \<Rightarrow> u8 list" where
  "safestr_bytes s n =
     (if length s + 1 < n then map of_char s @ [0, 0] else map of_char (take (n - 1) s) @ [0])"

definition getprocstate :: "u32 \<Rightarrow> u32 \<Rightarrow> nat \<Rightarrow> kernel \<Rightarrow> (int \<times> kernel) result" where
  "getprocstate p va n k =
     (case find (\<lambda>i. pid (ptable k i) = p) [0..<NPROC] of
        Some i \<Rightarrow> bindE (my_stores va (safestr_bytes (states (state (ptable k i))) n) k) (\<lambda>k1. Inr (0, k1))
      | None \<Rightarrow> Inr (-1, k))"

definition sys_getprocstate :: handler where
  "sys_getprocstate k =
     arg (argint 0 k) k (\<lambda>p. arg (argint 2 k) k (\<lambda>n.
       if sint n < 7 then Inr (Ret (-1), k)
       else arg (argptr 1 n k) k (\<lambda>va. of_call (getprocstate p va (unat n) k))))"

section \<open>The table of P4\<close>

text \<open>The structure in memory: six arrays of 64 integers.\<close>

definition pstat_bytes :: "pstat \<Rightarrow> u8 list" where
  "pstat_bytes a = concat (map (\<lambda>f. concat (map (\<lambda>i. st32 (replicate 4 0) 0 (f i)) [0..<NPROC]))
     [\<lambda>i. of_bool (inuse a i), tickets a, strides a, pass a, ppid a, ticks a])"

text \<open>\<open>sys_getpinfo\<close> has only the first 4 bytes checked.\<close>

definition sys_getpinfo :: "sched_state \<Rightarrow> handler" where
  "sys_getpinfo s k =
     arg (argptr 0 4 k) k (\<lambda>p.
       case getpinfo (p = 0) s of
         (r, None) \<Rightarrow> Inr (Ret r, k)
       | (r, Some a) \<Rightarrow> bindE (my_stores p (pstat_bytes a) k) (\<lambda>k1. Inr (Ret r, k1)))"

section \<open>Facts\<close>

text \<open>The bytes are those that the kernel's \<open>safestrcpy\<close> leaves: a string that fits is terminated, and nothing is
  written past the length given.\<close>

lemma safestr_bytes_fit:
  assumes "0 < n"
  shows "length (safestr_bytes s n) \<le> n" and "length s < n \<Longrightarrow> take (length s + 1) (safestr_bytes s n) = map of_char s @ [0]"
  using assms by (auto simp: safestr_bytes_def)

lemma safestr_bytes_Cons: "safestr_bytes (c # cs) (Suc (Suc n)) = of_char c # safestr_bytes cs (Suc n)"
  by (simp add: safestr_bytes_def)

lemma safe_copy_bytes:
  assumes "length s < 2 ^ 31" "n < 2 ^ 31" "\<forall>i < length s. m (t + of_nat i) = of_char (s ! i) \<and> m (t + of_nat i) \<noteq> 0"
    and "m (t + of_nat (length s)) = 0" and sep: "\<forall>i \<le> length s. \<forall>j \<le> Suc n. t + of_nat i \<noteq> d + of_nat j"
  shows "safe_copy n d t m x =
    (if unat (x - d) < length (safestr_bytes s (Suc n)) then safestr_bytes s (Suc n) ! unat (x - d) else m x)"
  using assms
proof (induction n arbitrary: s d t m)
  case 0
  then show ?case by (auto simp: safestr_bytes_def unat_eq_0)
next
  case (Suc n)
  have x: "unat (x - d) = 0 \<longleftrightarrow> x = d" by (simp add: unat_eq_0)
  have x1: "x \<noteq> d \<Longrightarrow> unat (x - (d + 1)) = unat (x - d) - 1" and x2: "x \<noteq> d \<Longrightarrow> 0 < unat (x - d)"
    by (rule unat_pred, simp_all add: unat_gt_0)
  show ?case
  proof (cases s)
    case Nil
    then have "m t = 0" using Suc.prems(4) by simp
    have u: "unat (x - d) = Suc 0 \<longleftrightarrow> x = d + 1"
    proof
      assume "unat (x - d) = Suc 0"
      then have "x - d = 1" by (metis One_nat_def unat_1 word_unat_eq_iff)
      then show "x = d + 1" by (simp add: algebra_simps)
    qed simp
    have l: "unat (x - d) < 2 \<longleftrightarrow> x = d \<or> x = d + 1" using x u by (auto simp: less_Suc_eq numeral_2_eq_2)
    have b: "safestr_bytes s (Suc (Suc n)) = [0, 0]" by (simp add: safestr_bytes_def Nil)
    have "safe_copy (Suc n) d t m x = (if x = d \<or> x = d + 1 then 0 else m x)"
      using \<open>m t = 0\<close> by (auto simp: Let_def)
    then show ?thesis using l x u unfolding b by (auto simp: nth_Cons')
  next
    case (Cons c cs)
    have mt: "m t = of_char c" "m t \<noteq> 0" using Suc.prems(3) by (auto simp: Cons)
    let ?m = "m(d := m t)"
    have td: "t + 1 + of_nat i \<noteq> d" if "i \<le> length cs" for i
      using Suc.prems(5) [rule_format, of "Suc i" 0] that by (simp add: Cons algebra_simps)
    have "safe_copy (Suc n) d t m x = safe_copy n (d + 1) (t + 1) ?m x"
      using mt by (simp add: Let_def)
    also have "\<dots> = (if unat (x - (d + 1)) < length (safestr_bytes cs (Suc n)) then safestr_bytes cs (Suc n) ! unat (x - (d + 1)) else ?m x)"
    proof (rule Suc.IH)
      show "\<forall>i < length cs. ?m (t + 1 + of_nat i) = of_char (cs ! i) \<and> ?m (t + 1 + of_nat i) \<noteq> 0"
      proof (intro allI impI)
        fix i assume i: "i < length cs"
        have "Suc i < length s" using i by (simp add: Cons)
        from Suc.prems(3) [rule_format, OF this]
        have "m (t + of_nat (Suc i)) = of_char (cs ! i)" "(of_char (cs ! i) :: u8) \<noteq> 0"
          by (simp_all add: Cons del: of_nat_Suc) (metis)
        then show "?m (t + 1 + of_nat i) = of_char (cs ! i) \<and> ?m (t + 1 + of_nat i) \<noteq> 0"
          using td [of i] i by (simp add: Cons algebra_simps)
      qed
      show "?m (t + 1 + of_nat (length cs)) = 0"
        using Suc.prems(4) td [of "length cs"] by (simp add: Cons algebra_simps)
      show "\<forall>i \<le> length cs. \<forall>j \<le> Suc n. t + 1 + of_nat i \<noteq> d + 1 + of_nat j"
      proof (intro allI impI)
        fix i j assume "i \<le> length cs" "j \<le> Suc n"
        then show "t + 1 + of_nat i \<noteq> d + 1 + of_nat j"
          using Suc.prems(5) [rule_format, of "Suc i" "Suc j"] by (simp add: Cons algebra_simps)
      qed
    qed (use Suc.prems(1,2) in \<open>simp_all add: Cons\<close>)
    also have "\<dots> = (if unat (x - d) < length (safestr_bytes s (Suc (Suc n))) then safestr_bytes s (Suc (Suc n)) ! unat (x - d) else m x)"
    proof (cases "x = d")
      case True
      have "length (safestr_bytes cs (Suc n)) \<le> Suc n" by (rule safestr_bytes_fit(1)) simp
      moreover have "unat (d - (d + 1)) = 4294967295" using unat_neg_1 by simp
      ultimately show ?thesis using Suc.prems(2) True mt(1) by (simp add: Cons safestr_bytes_Cons)
    next
      case False
      then show ?thesis
        using x1 x2 by (simp add: Cons safestr_bytes_Cons nth_Cons' less_Suc_eq_0_disj) linarith
    qed
    finally show ?thesis .
  qed
qed

text \<open>The library's \<open>safestrcpy\<close> leaves exactly these bytes.\<close>

theorem safestrcpy_bytes:
  assumes "0 < n" "n < 2 ^ 31" "length s < 2 ^ 31" "\<forall>i < length s. m (t + of_nat i) = of_char (s ! i) \<and> m (t + of_nat i) \<noteq> 0"
    and "m (t + of_nat (length s)) = 0" "\<forall>i \<le> length s. \<forall>j \<le> n. t + of_nat i \<noteq> d + of_nat j"
  shows "safestrcpy (int n) d t m x =
    (if unat (x - d) < length (safestr_bytes s n) then safestr_bytes s n ! unat (x - d) else m x)"
proof -
  have n: "n = Suc (n - 1)" using assms(1) by simp
  have "safe_copy (n - 1) d t m x =
      (if unat (x - d) < length (safestr_bytes s (Suc (n - 1))) then safestr_bytes s (Suc (n - 1)) ! unat (x - d) else m x)"
    by (rule safe_copy_bytes [OF assms(3) _ assms(4,5)]) (use assms(1,2,6) in simp_all)
  then show ?thesis using assms(1) unfolding n [symmetric] by (simp add: safestrcpy_def nat_diff_distrib)
qed

text \<open>The call succeeds exactly when some entry has the number, and then stores the name of the state of the first
  one, from which the state can be told; a failed call changes nothing.\<close>

theorem getprocstate_tells:
  assumes "getprocstate p va n k = Inr (r, k')" "7 \<le> n"
  shows "(\<exists>i < NPROC. pid (ptable k i) = p \<and> (\<forall>j < i. pid (ptable k j) \<noteq> p) \<and> r = 0 \<and>
      my_stores va (safestr_bytes (states (state (ptable k i))) n) k = Inr k' \<and>
      (\<forall>st. take 7 (safestr_bytes (states st) n) = take 7 (safestr_bytes (states (state (ptable k i))) n) \<longrightarrow>
         st = state (ptable k i))) \<or>
    (\<forall>i < NPROC. pid (ptable k i) \<noteq> p) \<and> r = -1 \<and> k' = k"
proof (cases "find (\<lambda>i. pid (ptable k i) = p) [0..<NPROC]")
  case None
  then have "r = -1" "k' = k" using assms(1) by (simp_all add: getprocstate_def)
  then show ?thesis using None by (auto simp: find_None_iff)
next
  case (Some i)
  then have i: "i < NPROC" "pid (ptable k i) = p" "\<forall>j < i. pid (ptable k j) \<noteq> p"
    by (auto simp: find_Some_iff)
  have len: "length (states st) = 6" for st by (cases st) simp_all
  have "take 7 (safestr_bytes (states st) n) = map of_char (states st) @ [0]" for st
    using safestr_bytes_fit(2) [of n "states st"] assms(2) by (simp add: len)
  moreover have "map of_char (states st) = (map of_char (states st') :: u8 list) \<Longrightarrow> st = st'" for st st'
    by (cases st; cases st') simp_all
  ultimately show ?thesis using i assms(1) Some by (auto simp: getprocstate_def res_simps)
qed

text \<open>The number 0 is that of every free entry that was never used: the call finds it and answers \<open>unused\<close>.\<close>

theorem getprocstate_zero:
  assumes "i < NPROC" "pid (ptable k i) = 0" "getprocstate 0 va n k = Inr (r, k')"
  shows "r = 0"
  using assms by (auto simp: getprocstate_def res_simps find_None_iff split: option.splits)

end
