(* ===== verification/Userprogs.thy ===== *)
theory Userprogs
  imports Printf Cstring
begin

text \<open>
  The small programs of \<open>P5_XV6_CoW_Fork/user\<close>: \<open>cat\<close>, \<open>wc\<close>, \<open>ls\<close>, \<open>echo\<close>, \<open>rm\<close>, \<open>mkdir\<close>, \<open>ln\<close>, \<open>kill\<close>, \<open>init\<close>,
  and \<open>gets\<close> and \<open>stat\<close> of \<open>ulib.c\<close> with \<open>getcmd\<close> of \<open>sh.c\<close>. The answers of the system calls are arguments:
  a file is the list of what successive calls of \<open>read\<close> return, \<open>None\<close> for -1. What a program
  writes is the list of descriptors and texts, in order.
\<close>

type_synonym reads = "string option list"
type_synonym written = "(nat \<times> string) list"

abbreviation NLc :: char where "NLc \<equiv> CHR 0x0A"

section \<open>cat\<close>

text \<open>The flag says whether the program goes on.\<close>

fun cat :: "reads \<Rightarrow> written \<times> bool" where
  "cat [] = ([], True)"
| "cat (None # rs) = ([(1, ''cat: read error'' @ [NLc])], False)"
| "cat (Some bs # rs) = (if bs = [] then ([], True) else let (out, ok) = cat rs in ((1, bs) # out, ok))"

fun cat_files :: "(string \<times> reads option) list \<Rightarrow> written" where
  "cat_files [] = []"
| "cat_files ((name, None) # fs) = [(1, ''cat: cannot open '' @ name @ [NLc])]"
| "cat_files ((name, Some rs) # fs) = (let (out, ok) = cat rs in if ok then out @ cat_files fs else out)"

definition cat_main :: "reads \<Rightarrow> (string \<times> reads option) list \<Rightarrow> written" where
  "cat_main stdin args = (if args = [] then fst (cat stdin) else cat_files args)"

section \<open>wc\<close>

record counts =
  wc_l :: u32
  wc_w :: u32
  wc_c :: u32
  inword :: bool

definition blank :: "char \<Rightarrow> bool" where
  "blank c \<longleftrightarrow> c \<in> {CHR '' '', CHR 0x0D, CHR 0x09, CHR 0x0A, CHR 0x0B}"

definition wc_char :: "char \<Rightarrow> counts \<Rightarrow> counts" where
  "wc_char ch s =
     (let s1 = s\<lparr>wc_c := wc_c s + 1\<rparr>;
          s2 = (if ch = NLc then s1\<lparr>wc_l := wc_l s1 + 1\<rparr> else s1)
      in if blank ch then s2\<lparr>inword := False\<rparr>
         else if \<not> inword s2 then s2\<lparr>wc_w := wc_w s2 + 1, inword := True\<rparr> else s2)"

fun wc_loop :: "reads \<Rightarrow> counts \<Rightarrow> counts \<times> bool" where
  "wc_loop [] s = (s, True)"
| "wc_loop (None # rs) s = (s, False)"
| "wc_loop (Some bs # rs) s = (if bs = [] then (s, True) else wc_loop rs (fold wc_char bs s))"

definition wc :: "reads \<Rightarrow> string \<Rightarrow> (written \<times> bool) result" where
  "wc rs name =
     (let (s, ok) = wc_loop rs \<lparr>wc_l = 0, wc_w = 0, wc_c = 0, inword = False\<rparr> in
      if \<not> ok then Inr ([(1, ''wc: read error'' @ [NLc])], False)
      else bindE (printf (\<lambda>_. name) False (''%d %d %d %s'' @ [NLc]) [wc_l s, wc_w s, wc_c s, 1]) (\<lambda>out.
        Inr ([(1, out)], True)))"

fun wc_files :: "(string \<times> reads option) list \<Rightarrow> written result" where
  "wc_files [] = Inr []"
| "wc_files ((name, None) # fs) = Inr [(1, ''cat: cannot open '' @ name @ [NLc])]"
| "wc_files ((name, Some rs) # fs) =
     bindE (wc rs name) (\<lambda>(out, ok). if ok then bindE (wc_files fs) (\<lambda>out1. Inr (out @ out1)) else Inr out)"

definition wc_main :: "reads \<Rightarrow> (string \<times> reads option) list \<Rightarrow> written result" where
  "wc_main stdin args = (if args = [] then bindE (wc stdin []) (\<lambda>(out, ok). Inr out) else wc_files args)"

section \<open>ls\<close>

record filestat =
  st_type :: u16
  st_ino :: u32
  st_size :: u32

definition DIRSIZ :: nat where "DIRSIZ = 14"

definition fmtname :: "string \<Rightarrow> string" where
  "fmtname path =
     (let p = rev (takeWhile (\<lambda>c. c \<noteq> CHR ''/'') (rev path)) in
      if length p \<ge> DIRSIZ then p else p @ replicate (DIRSIZ - length p) (CHR '' ''))"

definition ls_line :: "string \<Rightarrow> filestat \<Rightarrow> string result" where
  "ls_line path st = printf (\<lambda>_. fmtname path) False (''%s %d %d %d'' @ [NLc]) [1, scast (st_type st), st_ino st, st_size st]"

text \<open>The entries are what the reads of 16 bytes return: an inode number and a name of up to 14 characters, padded with NULs.\<close>

fun ls_entries :: "(string \<Rightarrow> filestat option) \<Rightarrow> string \<Rightarrow> (u16 \<times> string) list \<Rightarrow> written result" where
  "ls_entries stat path [] = Inr []"
| "ls_entries stat path ((inum, nm) # es) =
     (if inum = 0 then ls_entries stat path es
      else let buf = path @ ''/'' @ takeWhile (\<lambda>c. c \<noteq> CHR 0x00) nm in
        case stat buf of
          None \<Rightarrow> bindE (ls_entries stat path es) (\<lambda>out. Inr ((1, ''ls: cannot stat '' @ buf @ [NLc]) # out))
        | Some st \<Rightarrow> bindE (ls_line buf st) (\<lambda>l. bindE (ls_entries stat path es) (\<lambda>out. Inr ((1, l) # out))))"

text \<open>\<open>opened\<close>: the call of \<open>open\<close> succeeds; \<open>st\<close> is the answer of \<open>fstat\<close>.\<close>

definition ls :: "(string \<Rightarrow> filestat option) \<Rightarrow> bool \<Rightarrow> filestat option \<Rightarrow> (u16 \<times> string) list \<Rightarrow> string \<Rightarrow> written result" where
  "ls stat opened st entries path =
     (if \<not> opened then Inr [(2, ''ls: cannot open '' @ path @ [NLc])]
      else case st of
        None \<Rightarrow> Inr [(2, ''ls: cannot stat '' @ path @ [NLc])]
      | Some st \<Rightarrow>
          if st_type st = 2 then bindE (ls_line path st) (\<lambda>l. Inr [(1, l)])
          else if st_type st = 1 then
            if length path + 1 + DIRSIZ + 1 > 512 then Inr [(1, ''ls: path too long'' @ [NLc])]
            else ls_entries stat path entries
          else Inr [])"

section \<open>Programs of one system call\<close>

text \<open>The arguments come with the answer that the call for them gets.\<close>

fun echo :: "string list \<Rightarrow> written" where
  "echo [] = []"
| "echo [a] = [(1, a @ [NLc])]"
| "echo (a # b # as) = (1, a @ '' '') # echo (b # as)"

fun until_failed :: "string \<Rightarrow> string \<Rightarrow> (string \<times> int) list \<Rightarrow> string list \<times> written" where
  \<comment> \<open>the calls made and the message\<close>
  "until_failed before after [] = ([], [])"
| "until_failed before after ((a, r) # as) =
     (if r < 0 then ([a], [(2, before @ a @ after)])
      else let (calls, out) = until_failed before after as in (a # calls, out))"

definition rm :: "(string \<times> int) list \<Rightarrow> string list \<times> written" where
  "rm args = (if args = [] then ([], [(2, ''Usage: rm files...'' @ [NLc])])
     else until_failed ''rm: '' ('' failed to delete'' @ [NLc]) args)"

definition mkdir :: "(string \<times> int) list \<Rightarrow> string list \<times> written" where
  "mkdir args = (if args = [] then ([], [(2, ''Usage: mkdir files...'' @ [NLc])])
     else until_failed ''mkdir: '' ('' failed to create'' @ [NLc]) args)"

definition ln :: "string list \<Rightarrow> int \<Rightarrow> (string \<times> string) option \<times> written" where
  "ln args r = (case args of
     [a, b] \<Rightarrow> (Some (a, b), if r < 0 then [(2, ''link '' @ a @ '' '' @ b @ '': failed'' @ [NLc])] else [])
   | _ \<Rightarrow> (None, [(2, ''Usage: ln old new'' @ [NLc])]))"

text \<open>The numbers given to the call of \<open>kill\<close>; \<open>None\<close> would be a conversion that does not end.\<close>

definition kill_args :: "string list \<Rightarrow> u32 option list" where
  "kill_args args = map (\<lambda>a. atoi (\<lambda>i. if i < length a then of_char (a ! i) else 0)) args"

section \<open>init\<close>

fun init_wait :: "int \<Rightarrow> int list \<Rightarrow> written" where
  "init_wait pid [] = []"
| "init_wait pid (w # ws) = (if w \<ge> 0 \<and> w \<noteq> pid then (1, ''zombie!'' @ [NLc]) # init_wait pid ws else [])"

text \<open>Each round with the answer of \<open>fork\<close> and those of \<open>wait\<close>; the child goes on here only when \<open>exec\<close> fails.\<close>

fun init_loop :: "(int \<times> int list) list \<Rightarrow> written" where
  "init_loop [] = []"
| "init_loop ((pid, ws) # rounds) =
     (1, ''init: starting sh'' @ [NLc]) #
     (if pid < 0 then [(1, ''init: fork failed'' @ [NLc])]
      else if pid = 0 then [(1, ''init: exec sh failed'' @ [NLc])]
      else init_wait pid ws @ init_loop rounds)"

section \<open>Lines and files\<close>

text \<open>The characters that the calls of \<open>read\<close> deliver, \<open>None\<close> when there is none; the buffer has room for \<open>max\<close>.\<close>

fun gets :: "nat \<Rightarrow> char option list \<Rightarrow> string" where
  "gets m [] = []"
| "gets m (r # rs) =
     (if \<not> 1 < m then []
      else case r of None \<Rightarrow> []
      | Some c \<Rightarrow> if c = NLc \<or> c = CHR 0x0D then [c] else c # gets (m - 1) rs)"

definition getcmd :: "nat \<Rightarrow> char option list \<Rightarrow> int \<times> string" where
  "getcmd nbuf rs =
     (let buf = gets nbuf rs in (if buf = [] \<or> hd buf = CHR 0x00 then -1 else 0, buf))"

text \<open>The answers of \<open>open\<close> and \<open>fstat\<close>.\<close>

definition stat :: "int \<Rightarrow> int \<Rightarrow> int" where
  "stat fd r = (if fd < 0 then -1 else r)"

section \<open>What they do\<close>

definition chunks_of :: "reads \<Rightarrow> string \<Rightarrow> bool" where
  \<comment> \<open>the reads deliver the file in pieces up to its end\<close>
  "chunks_of rs file \<longleftrightarrow> (\<exists>cs. rs = map Some cs @ [Some []] \<and> [] \<notin> set cs \<and> concat cs = file)"

text \<open>\<open>cat\<close> writes the file, however it was read.\<close>

theorem cat_copies:
  assumes "chunks_of rs file"
  shows "snd (cat rs)" and "concat (map snd (fst (cat rs))) = file" and "\<forall>w \<in> set (fst (cat rs)). fst w = 1"
proof -
  obtain cs where cs: "rs = map Some cs @ [Some []]" "[] \<notin> set cs" "concat cs = file"
    using assms by (auto simp: chunks_of_def)
  have "cat (map Some cs @ [Some []]) = (map (Pair 1) cs, True)" if "[] \<notin> set cs" for cs
    using that by (induction cs) auto
  from this [OF cs(2)] have "cat rs = (map (Pair 1) cs, True)" unfolding cs(1) .
  then show "snd (cat rs)" "concat (map snd (fst (cat rs))) = file" "\<forall>w \<in> set (fst (cat rs)). fst w = 1"
    using cs(3) by (auto simp: comp_def)
qed

definition words_in :: "string \<Rightarrow> nat" where
  \<comment> \<open>the places where a word begins\<close>
  "words_in bs = card {i. i < length bs \<and> \<not> blank (bs ! i) \<and> (i = 0 \<or> blank (bs ! (i - 1)))}"

lemma words_in_snoc:
  "words_in (bs @ [c]) = words_in bs + (if \<not> blank c \<and> (bs = [] \<or> blank (last bs)) then 1 else 0)"
proof -
  let ?S = "\<lambda>bs. {i. i < length bs \<and> \<not> blank (bs ! i) \<and> (i = 0 \<or> blank (bs ! (i - 1)))}"
  have "?S (bs @ [c]) = ?S bs \<union> (if \<not> blank c \<and> (bs = [] \<or> blank (last bs)) then {length bs} else {})"
    by (cases "bs = []") (auto simp: nth_append last_conv_nth less_Suc_eq split: if_splits)
  moreover have "finite (?S bs)" "length bs \<notin> ?S bs" by simp_all
  ultimately show ?thesis by (simp add: words_in_def)
qed

lemma wc_fold:
  "fold wc_char bs \<lparr>wc_l = 0, wc_w = 0, wc_c = 0, inword = False\<rparr> =
     \<lparr>wc_l = of_nat (length (filter (\<lambda>c. c = NLc) bs)), wc_w = of_nat (words_in bs), wc_c = of_nat (length bs),
      inword = (bs \<noteq> [] \<and> \<not> blank (last bs))\<rparr>"
proof (induction bs rule: rev_induct)
  case Nil
  then show ?case by (simp add: words_in_def)
next
  case (snoc c bs)
  have "blank NLc" by (simp add: blank_def)
  then show ?case
    unfolding fold_append comp_def fold_simps snoc by (auto simp: words_in_snoc wc_char_def Let_def)
qed

text \<open>\<open>wc\<close> prints the numbers of newlines, of words and of bytes of the file, however it was read.\<close>

theorem wc_counts:
  assumes "chunks_of rs file"
  shows "wc rs name = bindE (printf (\<lambda>_. name) False (''%d %d %d %s'' @ [NLc])
      [of_nat (length (filter (\<lambda>c. c = NLc) file)), of_nat (words_in file), of_nat (length file), 1]) (\<lambda>out. Inr ([(1, out)], True))"
proof -
  obtain cs where cs: "rs = map Some cs @ [Some []]" "[] \<notin> set cs" "concat cs = file"
    using assms by (auto simp: chunks_of_def)
  have "wc_loop (map Some cs @ [Some []]) s = (fold wc_char (concat cs) s, True)" if "[] \<notin> set cs" for cs s
    using that by (induction cs arbitrary: s) auto
  from this [OF cs(2)] have "wc_loop rs s = (fold wc_char file s, True)" for s unfolding cs(1,3) .
  then show ?thesis by (simp add: wc_def wc_fold)
qed

text \<open>\<open>gets\<close> delivers the input up to the first line end, cut so that it fits with its NUL.\<close>

theorem gets_line:
  assumes "0 < m"
  shows "gets m (map Some s) = take (m - 1)
    (takeWhile (\<lambda>c. c \<noteq> NLc \<and> c \<noteq> CHR 0x0D) s @ take 1 (dropWhile (\<lambda>c. c \<noteq> NLc \<and> c \<noteq> CHR 0x0D) s))"
  using assms
proof (induction s arbitrary: m)
  case (Cons c s)
  then show ?case by (cases "m - 1") (auto simp: Suc_lessI)
qed simp

theorem gets_fits: "0 < m \<Longrightarrow> length (gets m rs) < m"
  by (induction m rs rule: gets.induct) (auto split: option.splits)

text \<open>\<open>echo\<close> prints its arguments with blanks between them on one line.\<close>

theorem echo_joins:
  "as \<noteq> [] \<Longrightarrow> concat (map snd (echo as)) = hd as @ concat (map (\<lambda>a. '' '' @ a) (tl as)) @ [NLc]"
  by (induction as rule: echo.induct) auto

text \<open>The programs that stop at the first failure have made the calls before it.\<close>

theorem until_failed_calls:
  "fst (until_failed b e as) = map fst (takeWhile (\<lambda>(a, r). r \<ge> 0) as @ take 1 (dropWhile (\<lambda>(a, r). r \<ge> 0) as)) \<and>
    (snd (until_failed b e as) = [] \<longleftrightarrow> (\<forall>(a, r) \<in> set as. r \<ge> 0))"
  by (induction as) (auto split: prod.splits)

text \<open>A listed name is the last component of the path, padded to 14 characters.\<close>

theorem fmtname_name:
  assumes "CHR ''/'' \<notin> set nm"
  shows "fmtname (dir @ ''/'' @ nm) = nm @ replicate (14 - length nm) (CHR '' '')"
    and "fmtname nm = nm @ replicate (14 - length nm) (CHR '' '')"
proof -
  have t: "takeWhile (\<lambda>c. c \<noteq> CHR ''/'') (rev nm @ xs) = rev nm @ takeWhile (\<lambda>c. c \<noteq> CHR ''/'') xs" for xs
    using assms by (intro takeWhile_append2) auto
  show "fmtname (dir @ ''/'' @ nm) = nm @ replicate (14 - length nm) (CHR '' '')"
    using t [of "CHR ''/'' # rev dir"] by (simp add: fmtname_def DIRSIZ_def)
  show "fmtname nm = nm @ replicate (14 - length nm) (CHR '' '')"
  proof -
    have u: "takeWhile (\<lambda>c. c \<noteq> CHR ''/'') (rev nm) = rev nm" using assms by (auto simp: takeWhile_eq_all_conv)
    show ?thesis unfolding fmtname_def u DIRSIZ_def by simp
  qed
qed

end
