(* ===== verification/Spec2Isabelle.thy ===== *)
theory Spec2Isabelle
  imports Kalloc_Spec Cow_Share Vm_Grow Psort_Spec Stride_Fair Spinlock Pipe Bio_Spec Cstring
    Fs_Blocks Fs_Grow Proc_Spec Rpc_Spec Sh_Run Sh_Print Runscan_Spec Grep Smash_Spec Fortune_Spec Umalloc_Spec
    Console_Spec Printf Mkfs_Read Kbd Boot Mp Gates Drivers Procinfo Userprogs
begin

text \<open>
  A verification of the projects of an operating systems course. The repository holds eight of them: a
  fortune teller (\<open>P1\<close>), a Unix shell (\<open>P3\<close>), the xv6 teaching kernel with its user programs in three versions
  (\<open>P2_XV6_Kernel_Hacking\<close>, \<open>P4_XV6_Stride_Scheduling\<close>, \<open>P5_XV6_CoW_Fork\<close>, which differ in the functions their
  project asks for), a parallel sort (\<open>P6\<close>), a recovery tool for pictures on ext2 images (\<open>P7\<close>), and remote
  procedure calls over UDP (\<open>P8\<close>). The kernel is modelled from \<open>P5\<close>, the most complete version; the stride scheduler from \<open>P4\<close>.

  \<^bold>\<open>How the parts of the kernel interact.\<close> The page allocator (\<open>kalloc.c\<close>) hands out frames with reference
  counts. Page tables and copy-on-write (\<open>vm.c\<close>, the fault handler of \<open>trap.c\<close>) share and copy frames through
  it, and so do the pipes. A process (\<open>proc.c\<close>) owns a page table, open files and a current directory. Open
  files (\<open>file.c\<close>) are pipes or inodes; inodes and directories (\<open>fs.c\<close>) are stored in blocks, which they reach
  through the buffer cache (\<open>bio.c\<close>) over the disk driver (\<open>ide.c\<close>). System calls (\<open>syscall.c\<close>, \<open>sysproc.c\<close>,
  \<open>sysfile.c\<close>, \<open>exec.c\<close>) read their arguments from user memory and call all of these. The console (\<open>console.c\<close>)
  edits the input line and prints; the keyboard (\<open>kbd.c\<close>) feeds it. The boot loader (\<open>bootmain.c\<close>) brings the
  kernel into memory, \<open>mp.c\<close> finds the processors, and \<open>tools/mkfs.c\<close> writes the first image of the file system. The shell, \<open>grep\<close>, the memory allocator, the string library and the
  formatted output of the users sit on top of the system calls.

  \<^bold>\<open>Conventions.\<close> Machine integers are words of the width the C type has, with C's wrap-around (\<open>u8\<close>, \<open>u16\<close>,
  \<open>u32\<close> of theory \<open>Prelude\<close>; a signed integer is the same word, read with \<open>sint\<close>); a counter is a natural number where the code cannot reach its bound. A structure
  is a record, a pointer into a static array is an index, user and kernel memory is a function from addresses to
  bytes or words. A step that the C code does not survive is an error value: \<open>Panic\<close> for a call of the kernel's
  panic, \<open>OutOfBounds\<close> for an access outside an array, \<open>OutOfFuel\<close> for a loop the fuel did not let finish; the
  code's own error returns are values of the result. A process that sleeps returns a state that says so: the
  handler's next part starts when it is woken. A handler is one step up to the point where it sleeps for another
  process; what the locks themselves do among several CPUs is theory \<open>Spinlock\<close>. This is coarser than the code in
  three places: \<open>iput\<close> releases \<open>icache.lock\<close> while \<open>itrunc\<close> runs, \<open>exit\<close> closes its files one by one and each may
  sleep for a block, and the fault handler \<open>pgfltintr\<close> takes \<open>kmem.lock\<close> once per call of the allocator.
  The kernel writes to user pages without regard to their write permission, since \<open>vmenable\<close> leaves \<open>CR0_WP\<close>
  clear: \<open>Sysarg\<close> shows that a system call thereby changes a page shared by copy-on-write for all its processes.

  \<^bold>\<open>Theories and source.\<close>
  \<^item> \<open>Prelude\<close>, \<open>Bytes\<close>: words, errors and their sequencing, integers in byte arrays.
  \<^item> \<open>Mmu\<close> (\<open>mmu.h\<close>), \<open>Kalloc\<close> (\<open>kalloc.c\<close>), \<open>Kalloc_Spec\<close>: the free list threaded through the free frames and
    the count array. The invariant says that the list holds each unreferenced frame once. \<open>Frame_Interface\<close> is the
    contract that the users of the allocator rely on; \<open>Kalloc_Spec\<close> interprets it. \<open>pool_run\<close> is every run of the
    allocator from \<open>kinit\<close> on, with the references its users hold; the count of free pages follows it.
  \<^item> \<open>Vm\<close> (\<open>vm.c\<close>), \<open>Vm_Entries\<close>, \<open>Cow\<close>, \<open>Cow_Share\<close>, \<open>Vm_Grow\<close>: page tables in the memory they describe. The
    abstract view is \<open>entry m pgdir va\<close>; the lemmas say which entries an operation changes, that a write fault is
    invisible to every process, what \<open>cowuvm\<close> shares, and what walking with allocation does.
  \<^item> \<open>Proctable\<close>, \<open>Kstate\<close>, \<open>File\<close>, \<open>Pipe\<close>, \<open>Proc\<close>, \<open>Sysarg\<close>, \<open>Exec\<close>, \<open>Sysfile\<close>, \<open>Syscall\<close> (the files of the same
    names in \<open>kernel/\<close>): the kernel's state, one record, and its handlers. \<open>Kframe\<close> is a small calculus of
    postconditions for them, \<open>Files_Spec\<close> counts the references to open files over every run of the kernel,
    \<open>Proc_Spec\<close> has the properties of processes.
  \<^item> \<open>Spinlock\<close> (\<open>spinlock.c\<close>): the lock as a step relation over the instructions of any number of CPUs.
  \<^item> \<open>Bio\<close> (\<open>bio.c\<close>, \<open>ide.c\<close>), \<open>Bio_Spec\<close>, \<open>Block_Interface\<close>: the circular list of buffers, and the contract of a
    block device that the cache provides. The sectors on which the controller reports an error are an argument of the
    model (\<open>bad\<close>): there the driver marks stale data as valid, and the contract is about the other sectors.
  \<^item> \<open>Cstring\<close> (\<open>string.c\<close>, \<open>ulib.c\<close>): the string routines on memory with wrapping addresses. \<open>Libc\<close>: the
    functions of the C library of the host that the other projects use, on strings.
  \<^item> \<open>Ring\<close>: the contract of a ring buffer with free running 32-bit counters, a locale that \<open>Pipe\<close> and
    \<open>Console_Spec\<close> interpret on the buffer of a pipe and of the console.
  \<^item> \<open>Console\<close> (\<open>console.c\<close>), \<open>Console_Spec\<close>: the screen, the input line and its readers. \<open>Printf\<close> (\<open>printf.c\<close>,
    \<open>console.c\<close>): the printers of the users and of the kernel. \<open>Kbd\<close> (\<open>kbd.c\<close>, \<open>kbd.h\<close>): from scan codes to characters.
  \<^item> \<open>Boot\<close> (\<open>bootmain.c\<close>): the segments of the kernel image. \<open>Mp\<close> (\<open>mp.c\<close>): the search for the processor tables
    in memory and the walk over their entries. \<open>Gates\<close> (\<open>mmu.h\<close>, \<open>vm.c\<close>, \<open>trap.c\<close>): segment descriptors and the interrupt
    table. \<open>Drivers\<close> (\<open>uart.c\<close>, \<open>timer.c\<close>, \<open>picirq.c\<close>, \<open>ioapic.c\<close>, \<open>lapic.c\<close>): what they write to the devices.
  \<^item> \<open>Procinfo\<close>: the listing of the processes, and the system calls of \<open>P2\<close> and \<open>P4\<close> that tell about them.
    \<open>Userprogs\<close> (\<open>user/\<close>): \<open>cat\<close>, \<open>wc\<close>, \<open>ls\<close> and the programs that make one system call.
  \<^item> \<open>Fs\<close> (\<open>fs.c\<close>), \<open>Fs_Blocks\<close>, \<open>Fs_Files\<close>, \<open>Fs_Refs\<close>: bitmap, inode cache, file contents, directories and paths.
    It works on blocks by address; that the cache is transparent is \<open>Bio_Spec\<close>. \<open>Fs_Grow\<close> has the invariant of
    a disk and a file on it (what is free is zero; the blocks of the file are distinct, marked as used, and as many as
    its size needs), under which files grow and are freed.
  \<^item> \<open>Mkfs\<close> (\<open>tools/mkfs.c\<close>): the image builder over a directory tree of the host. \<open>Mkfs_Spec\<close> has the invariant
    of the image under construction, \<open>Mkfs_Tree\<close> follows it through the tree, and \<open>Mkfs_Read\<close> reads the finished
    image with the operations of \<open>Fs\<close>.
  \<^item> \<open>Stride\<close> (\<open>P4 kernel/proc.c\<close>), \<open>Stride_Fair\<close>: tickets, strides and passes in 32-bit signed arithmetic. \<open>sched_run\<close>
    is every run of the accounting (forks, exits, \<open>settickets\<close>, rounds of the scheduler); in each state of such a run
    the quanta of the next rounds are shared by tickets, with an error bounded by the passes at the start.
  \<^item> \<open>Psort\<close>, \<open>Psort_Spec\<close> (\<open>P6\<close>): the merge sort of the threads in any order of their ends.
  \<^item> \<open>Runscan\<close>, \<open>Runscan_Spec\<close> (\<open>P7\<close>): the scan of the inodes and the copy of their blocks.
  \<^item> \<open>Rpc\<close>, \<open>Rpc_Spec\<close> (\<open>P8\<close>): the server as threads that read one packet buffer, in pieces with any
    interleaving, and the client over a network that loses packets. The promises are about \<open>prompt\<close> runs, where a thread
    of \<open>idle\<close> reaches its sleep before the next packet is received; \<open>idle_race_calls_twice\<close> is a run that is not.
  \<^item> \<open>Sh\<close> (\<open>sh.c\<close>), \<open>Sh_Spec\<close>, \<open>Sh_Print\<close>, \<open>Sh_Run\<close>: tokens, parser, the words in the line, and the calls by which
    a command is run.
  \<^item> \<open>Grep\<close> (\<open>grep.c\<close>): the matcher and the loop over the lines.
  \<^item> \<open>Umalloc\<close> (\<open>umalloc.c\<close>), \<open>Umalloc_Spec\<close>: the circular free list of the users' allocator.
  \<^item> \<open>Smash\<close>, \<open>Smash_Spec\<close> (\<open>P3 smash.c\<close>): the words of a line, the pipes and descriptors of a pipeline.
  \<^item> \<open>Fortune\<close>, \<open>Fortune_Spec\<close> (\<open>P1 badger_fortune.c\<close>): the options, the file of fortunes and the answers.

  \<^bold>\<open>What is shown.\<close> The allocator returns every frame exactly when its last reference goes; copy-on-write is
  transparent, and fails only without a free frame; pipes are queues, the buffer cache is a plain disk, files read
  back what was written, whatever blocks must be allocated for it, and give back exactly their blocks in the end; reference counts of inodes and open files are exact in every run; the round robin and
  the stride scheduler are fair within the bounds stated; at most one CPU holds a lock; the sort is the stable
  sort; a remote call is executed at most once by a prompt server, and exactly once when it returns; the shell parses back what a printer writes, ends on every line
  and gives every program the descriptors its language says; the matcher of \<open>grep\<close> decides the language of the
  pattern; a picture is recovered byte by byte; the console is a line editor over two lists; the regions that a
  program holds from \<open>malloc\<close> are disjoint; the shell \<open>smash\<close> runs the words between white space and gives each
  stage of a pipeline its two pipe ends; the fortune teller answers what its command line asks; the kernel finds
  on an image of \<open>mkfs\<close> every file and name of the tree it was built from; the boot loader puts every segment of the
  kernel where it belongs, a user program can raise the system call interrupt only, and the interrupt
  controllers let through what has a handler; \<open>wc\<close> counts lines, words and bytes however the file is read. Several theorems show where the code fails: a fault without
  memory, more tickets than the maximal stride, the process id 0, the length -1, a disk whose size is no multiple
  of a bitmap block, the 101st client and the key 1024, the unjoined thread of an \<open>idle\<close> request, a processor table with an entry of unknown type.

  \<^bold>\<open>Bounds and fuel.\<close> The shell's parser takes fuel; \<open>Sh_Spec\<close> shows that four steps per character of the line
  and a constant are enough and that more change nothing. The walk over the free list and over the list of
  buffers is bounded by the number of frames and of buffers, which the invariants show to be enough. The path
  walk takes one step per character of the path. A request to \<open>malloc\<close> is below \<open>2^31 - 15\<close>, a pipeline of
  \<open>smash\<close> has at most 510 pipes, the input line of the console 128 bytes. The loops over the free list in \<open>Umalloc\<close>
  are partial functions; \<open>Umalloc_Spec\<close> shows that they return on every list the invariant allows. So are the loops
  of \<open>Boot\<close> and \<open>Mp\<close> over addresses that can wrap around. The tree given to \<open>mkfs\<close> must fit: at most 207 inodes,
  files of at most 71680 bytes, 995 blocks. Every other loop is a recursion with its termination proof.

  \<^bold>\<open>Not modelled.\<close> Loops of the drivers that wait for a device; the assembly files; the order of the other
  initialisation calls in \<open>main.c\<close> and the start of the other processors; the user test programs; the sockets and the test clients of \<open>P8\<close>; the build scripts. The copies of
  the kernel and of the user programs in \<open>P2\<close> and \<open>P4\<close> are the code modelled from \<open>P5\<close>.
\<close>

end
